(* ===== verification/Prelude.thy ===== *)
theory Prelude
  imports Main "HOL-Library.Word"
begin

text \<open>
  Shared vocabulary of the development: machine integer types, the result type every fallible C
  function is translated to, checked byte access, the wrap-around of \<open>size_t\<close> subtraction, and
  the lemmas on lists and words that the component theories use.

  A C function that can fail returns a \<open>result\<close>: \<open>Ok\<close> is \<open>DTL_OK\<close> with the values the
  code writes through its out-parameters, \<open>Err\<close> is an early return with an error code, and
  \<open>Ub\<close> is an access the C standard leaves undefined (a read or write outside an object, through
  a dangling pointer, or of bytes never written).  Memory safety of a routine is the theorem that its
  translation is never \<open>Ub\<close>.
\<close>

unbundle bit_operations_syntax

type_synonym u8 = "8 word"
type_synonym u16 = "16 word"
type_synonym u32 = "32 word"
type_synonym u64 = "64 word"

named_theorems safe_intros \<open>rules that show a computation is never undefined\<close>
named_theorems res_simps \<open>evaluation rules of checked accesses whose guard holds\<close>

subsection \<open>Results\<close>

datatype ('a, 'e) result = Ok 'a | Err 'e | Ub

definition rbind :: "('a, 'e) result \<Rightarrow> ('a \<Rightarrow> ('b, 'e) result) \<Rightarrow> ('b, 'e) result" where
  "rbind m f = (case m of Ok x \<Rightarrow> f x | Err e \<Rightarrow> Err e | Ub \<Rightarrow> Ub)"

lemma rbind_simps [simp]:
  "rbind (Ok x) f = f x"
  "rbind (Err e) f = Err e"
  "rbind Ub f = Ub"
  by (simp_all add: rbind_def)

lemma rbind_cong [fundef_cong]:
  "m = m' \<Longrightarrow> (\<And>x. m' = Ok x \<Longrightarrow> f x = g x) \<Longrightarrow> rbind m f = rbind m' g"
  by (cases m') auto

lemma rbind_eq_Ok_iff: "rbind m f = Ok y \<longleftrightarrow> (\<exists>x. m = Ok x \<and> f x = Ok y)"
  by (cases m) auto

lemma rbind_eq_Err_iff: "rbind m f = Err e \<longleftrightarrow> m = Err e \<or> (\<exists>x. m = Ok x \<and> f x = Err e)"
  by (cases m) auto

lemma rbind_eq_Ub_iff: "rbind m f = Ub \<longleftrightarrow> m = Ub \<or> (\<exists>x. m = Ok x \<and> f x = Ub)"
  by (cases m) auto

lemma rbind_safe [safe_intros]:
  "m \<noteq> Ub \<Longrightarrow> (\<And>x. m = Ok x \<Longrightarrow> f x \<noteq> Ub) \<Longrightarrow> rbind m f \<noteq> Ub"
  by (auto simp: rbind_eq_Ub_iff)

lemma rbind_OkE:
  assumes "rbind m f = Ok y"
  obtains x where "m = Ok x" and "f x = Ok y"
  using assms by (auto simp: rbind_eq_Ok_iff)

text \<open>Loops that run a fixed body over a list of items and stop at the first error.\<close>

fun rfold :: "('a \<Rightarrow> 's \<Rightarrow> ('s, 'e) result) \<Rightarrow> 'a list \<Rightarrow> 's \<Rightarrow> ('s, 'e) result" where
  "rfold f [] s = Ok s"
| "rfold f (x # xs) s = rbind (f x s) (rfold f xs)"

lemma rfold_append: "rfold f (xs @ ys) s = rbind (rfold f xs s) (rfold f ys)"
proof (induction xs arbitrary: s)
  case (Cons x xs)
  then show ?case by (cases "f x s") auto
qed simp

lemma rfold_safe:
  assumes "P s" and "\<And>x t. x \<in> set xs \<Longrightarrow> P t \<Longrightarrow> f x t \<noteq> Ub"
    and "\<And>x t t'. x \<in> set xs \<Longrightarrow> P t \<Longrightarrow> f x t = Ok t' \<Longrightarrow> P t'"
  shows "rfold f xs s \<noteq> Ub"
  using assms
proof (induction xs arbitrary: s)
  case (Cons x xs)
  have "rfold f xs t \<noteq> Ub" if t: "f x s = Ok t" for t
  proof (rule Cons.IH)
    show "P t" using Cons.prems(3) [of x s t] Cons.prems(1) t by simp
    show "f y u \<noteq> Ub" if "y \<in> set xs" "P u" for y u
      using Cons.prems(2) [of y u] that by simp
    show "P u'" if "y \<in> set xs" "P u" "f y u = Ok u'" for y u u'
      using Cons.prems(3) [of y u u'] that by simp
  qed
  moreover have "f x s \<noteq> Ub"
    using Cons.prems by auto
  ultimately show ?case by (cases "f x s") auto
qed simp

subsection \<open>Sizes\<close>

text \<open>
  Sizes and indices (\<open>size_t\<close>, 64 bits on every supported platform) are natural numbers.  The
  code relies on unsigned wrap-around only through subtractions such as \<open>out_cap - o\<close>, so
  subtraction is modelled with the wrap written out; a guard that compares a wrapped difference is
  then as wrong in the model as it is in C.
\<close>

definition SIZE_MAX :: nat where
  "SIZE_MAX = 2 ^ 64 - 1"

definition size_sub :: "nat \<Rightarrow> nat \<Rightarrow> nat" where
  "size_sub a b = (if b \<le> a then a - b else a + 2 ^ 64 - b)"

lemma size_sub_le [simp]: "b \<le> a \<Longrightarrow> size_sub a b = a - b"
  by (simp add: size_sub_def)

subsection \<open>Checked byte access\<close>

definition byte_at :: "'a list \<Rightarrow> nat \<Rightarrow> ('a, 'e) result" where
  "byte_at bs i = (if i < length bs then Ok (bs ! i) else Ub)"

lemma byte_at_Ok [simp, res_simps]: "i < length bs \<Longrightarrow> byte_at bs i = Ok (bs ! i)"
  by (simp add: byte_at_def)

lemma byte_at_first [simp]: "numeral k \<le> length bs \<Longrightarrow> byte_at bs 0 = Ok (bs ! 0)"
  by (rule byte_at_Ok) (cases bs, auto)

lemma byte_at_eq_Ok_iff: "byte_at bs i = Ok b \<longleftrightarrow> i < length bs \<and> bs ! i = b"
  by (auto simp: byte_at_def)

lemma byte_at_safe_iff: "byte_at bs i \<noteq> Ub \<longleftrightarrow> i < length bs"
  by (simp add: byte_at_def)

lemma byte_at_safe [safe_intros]: "i < length bs \<Longrightarrow> byte_at bs i \<noteq> Ub"
  by simp

text \<open>The \<open>n\<close> bytes of an object from an offset on, as a pointer and a length.\<close>

definition slice_at :: "'a list \<Rightarrow> nat \<Rightarrow> nat \<Rightarrow> ('a list, 'e) result" where
  "slice_at bs off n = (if off + n \<le> length bs then Ok (take n (drop off bs)) else Ub)"

lemma slice_at_Ok [simp, res_simps]: "off + n \<le> length bs \<Longrightarrow> slice_at bs off n = Ok (take n (drop off bs))"
  by (simp add: slice_at_def)

text \<open>
  An output buffer of capacity \<open>cap\<close> filled from the front is the list of the bytes written so
  far; writing the next byte past \<open>cap\<close> is undefined.
\<close>

definition put_byte :: "nat \<Rightarrow> 'a list \<Rightarrow> 'a \<Rightarrow> ('a list, 'e) result" where
  "put_byte cap out b = (if length out < cap then Ok (out @ [b]) else Ub)"

definition put_bytes :: "nat \<Rightarrow> 'a list \<Rightarrow> 'a list \<Rightarrow> ('a list, 'e) result" where
  "put_bytes cap out bs = (if length out + length bs \<le> cap then Ok (out @ bs) else Ub)"

lemma put_byte_Ok [simp, res_simps]: "length out < cap \<Longrightarrow> put_byte cap out b = Ok (out @ [b])"
  by (simp add: put_byte_def)

lemma put_bytes_Ok [simp, res_simps]:
  "length out + length bs \<le> cap \<Longrightarrow> put_bytes cap out bs = Ok (out @ bs)"
  by (simp add: put_bytes_def)

lemma put_byte_eq_Ok_iff: "put_byte cap out b = Ok o' \<longleftrightarrow> length out < cap \<and> o' = out @ [b]"
  by (auto simp: put_byte_def)

lemma put_bytes_eq_Ok_iff:
  "put_bytes cap out bs = Ok o' \<longleftrightarrow> length out + length bs \<le> cap \<and> o' = out @ bs"
  by (auto simp: put_bytes_def)

subsection \<open>Lists\<close>

lemma take_drop_append: "take n (drop m xs) @ drop (m + n) xs = drop m xs"
  by (metis add.commute append_take_drop_id drop_drop)

lemma drop_Cons_nth: "i < length xs \<Longrightarrow> drop i xs = xs ! i # drop (Suc i) xs"
  by (simp add: Cons_nth_drop_Suc)

lemma list_split2: "2 \<le> length xs \<Longrightarrow> xs = xs ! 0 # xs ! 1 # drop 2 xs"
  by (cases xs; cases "tl xs") auto

lemma list_split4:
  "4 \<le> length xs \<Longrightarrow> xs = xs ! 0 # xs ! 1 # xs ! 2 # xs ! 3 # drop 4 xs"
  by (auto intro!: nth_equalityI simp: nth_Cons numeral_eq_Suc split: nat.splits)

lemma list_split8:
  "8 \<le> length xs \<Longrightarrow>
   xs = xs ! 0 # xs ! 1 # xs ! 2 # xs ! 3 # xs ! 4 # xs ! 5 # xs ! 6 # xs ! 7 # drop 8 xs"
  by (auto intro!: nth_equalityI simp: nth_Cons numeral_eq_Suc split: nat.splits)

lemma map_Some_the: "None \<notin> set xs \<Longrightarrow> map Some (map the xs) = xs"
  by (induction xs) auto

subsection \<open>Words\<close>

lemma unat_lt_2p8 [simp]: "unat (x :: u8) < 256"
  using unsigned_less [of x, where ?'a = nat] by simp

lemma unat_lt_2p16 [simp]: "unat (x :: u16) < 65536"
  using unsigned_less [of x, where ?'a = nat] by simp

lemma unat_le_255 [simp]: "unat (x :: u8) \<le> 255"
  using unat_lt_2p8 [of x] by linarith

lemma unat_le_65535 [simp]: "unat (x :: u16) \<le> 65535"
  using unat_lt_2p16 [of x] by linarith

lemma unat_of_nat_u8 [simp]: "n < 256 \<Longrightarrow> unat (of_nat n :: u8) = n"
  by (simp add: unat_of_nat)

lemma unat_of_nat_u16 [simp]: "n < 65536 \<Longrightarrow> unat (of_nat n :: u16) = n"
  by (simp add: unat_of_nat)

lemma unat_of_nat_u32 [simp]: "n < 4294967296 \<Longrightarrow> unat (of_nat n :: u32) = n"
  by (simp add: unat_of_nat)

lemma xor_word_left_cancel [simp]: "c XOR a = c XOR b \<longleftrightarrow> a = (b :: 'a :: len word)"
proof
  assume "c XOR a = c XOR b"
  then have "(c XOR c) XOR a = (c XOR c) XOR b" by (simp only: xor.assoc)
  then show "a = b" by simp
qed simp

lemma xor_word_right_cancel [simp]: "a XOR c = b XOR c \<longleftrightarrow> a = (b :: 'a :: len word)"
  by (metis xor.commute xor_word_left_cancel)

lemma ucast_u8_u32_inj:
  assumes "(ucast (a :: u8) :: u32) = ucast b"
  shows "a = b"
proof (intro bit_word_eqI)
  fix n assume n: "n < LENGTH(8)"
  have "bit (ucast a :: u32) n = bit (ucast b :: u32) n" using assms by simp
  with n show "bit a n = bit b n" by (simp add: bit_simps)
qed

end
