(* ===== verification/Core_Err.thy ===== *)
theory Core_Err
  imports Prelude
begin

text \<open>
  \<^verbatim>\<open>src/core/err.h\<close>, \<^verbatim>\<open>src/core/err.c\<close>: the error codes shared by every component and the
  table of their descriptions.
\<close>

datatype dtl_err =
    DTL_OK
  | DTL_ERR_TRUNCATED
  | DTL_ERR_BADMAGIC
  | DTL_ERR_BADVERSION
  | DTL_ERR_BADHEADER
  | DTL_ERR_BADRECORD
  | DTL_ERR_RANGE
  | DTL_ERR_OOM
  | DTL_ERR_INVAL
  | DTL_ERR_IO
  | DTL_ERR_BADQUERY
  | DTL_ERR__COUNT

type_synonym 'a res = "('a, dtl_err) result"

fun dtl_strerror :: "dtl_err \<Rightarrow> string" where
  "dtl_strerror DTL_OK = ''success''"
| "dtl_strerror DTL_ERR_TRUNCATED = ''input truncated''"
| "dtl_strerror DTL_ERR_BADMAGIC = ''bad magic''"
| "dtl_strerror DTL_ERR_BADVERSION = ''unsupported version''"
| "dtl_strerror DTL_ERR_BADHEADER = ''malformed header''"
| "dtl_strerror DTL_ERR_BADRECORD = ''malformed record''"
| "dtl_strerror DTL_ERR_RANGE = ''value out of range''"
| "dtl_strerror DTL_ERR_OOM = ''out of memory''"
| "dtl_strerror DTL_ERR_INVAL = ''invalid argument''"
| "dtl_strerror DTL_ERR_IO = ''i/o error''"
| "dtl_strerror DTL_ERR_BADQUERY = ''malformed query''"
| "dtl_strerror DTL_ERR__COUNT = ''unknown error''"

lemma dtl_strerror_inj: "dtl_strerror a = dtl_strerror b \<Longrightarrow> a = b"
  by (cases a; cases b) simp_all

end
