(* ===== verification/Core_Endian.thy ===== *)
theory Core_Endian
  imports Core_Err
begin

text \<open>
  \<^verbatim>\<open>src/core/endian.c\<close>: little-endian loads and stores assembled from shifts and masks.  A load
  takes the bytes from its pointer on (the unread suffix of an object) and checks every access; a
  store returns the bytes it writes, lowest address first.
\<close>

subsection \<open>Loads\<close>

definition dtl_endian_read_u16le :: "u8 list \<Rightarrow> u16 res" where
  "dtl_endian_read_u16le p =
     rbind (byte_at p 0) (\<lambda>b0. rbind (byte_at p 1) (\<lambda>b1.
       Ok (ucast b0 OR push_bit 8 (ucast b1))))"

definition dtl_endian_read_u32le :: "u8 list \<Rightarrow> u32 res" where
  "dtl_endian_read_u32le p =
     rbind (byte_at p 0) (\<lambda>b0. rbind (byte_at p 1) (\<lambda>b1.
     rbind (byte_at p 2) (\<lambda>b2. rbind (byte_at p 3) (\<lambda>b3.
       Ok (ucast b0 OR push_bit 8 (ucast b1) OR push_bit 16 (ucast b2) OR push_bit 24 (ucast b3))))))"

definition dtl_endian_read_u64le :: "u8 list \<Rightarrow> u64 res" where
  "dtl_endian_read_u64le p =
     rbind (byte_at p 0) (\<lambda>b0. rbind (byte_at p 1) (\<lambda>b1.
     rbind (byte_at p 2) (\<lambda>b2. rbind (byte_at p 3) (\<lambda>b3.
     rbind (byte_at p 4) (\<lambda>b4. rbind (byte_at p 5) (\<lambda>b5.
     rbind (byte_at p 6) (\<lambda>b6. rbind (byte_at p 7) (\<lambda>b7.
       Ok (ucast b0 OR push_bit 8 (ucast b1) OR push_bit 16 (ucast b2) OR push_bit 24 (ucast b3)
           OR push_bit 32 (ucast b4) OR push_bit 40 (ucast b5) OR push_bit 48 (ucast b6)
           OR push_bit 56 (ucast b7))))))))))"

subsection \<open>Stores\<close>

definition dtl_endian_write_u16le :: "u16 \<Rightarrow> u8 list" where
  "dtl_endian_write_u16le v = [ucast (v AND 0xff), ucast (drop_bit 8 v AND 0xff)]"

definition dtl_endian_write_u32le :: "u32 \<Rightarrow> u8 list" where
  "dtl_endian_write_u32le v =
     [ucast (v AND 0xff), ucast (drop_bit 8 v AND 0xff),
      ucast (drop_bit 16 v AND 0xff), ucast (drop_bit 24 v AND 0xff)]"

definition dtl_endian_write_u64le :: "u64 \<Rightarrow> u8 list" where
  "dtl_endian_write_u64le v =
     [ucast (v AND 0xff), ucast (drop_bit 8 v AND 0xff),
      ucast (drop_bit 16 v AND 0xff), ucast (drop_bit 24 v AND 0xff),
      ucast (drop_bit 32 v AND 0xff), ucast (drop_bit 40 v AND 0xff),
      ucast (drop_bit 48 v AND 0xff), ucast (drop_bit 56 v AND 0xff)]"

lemma length_write_le [simp]:
  "length (dtl_endian_write_u16le v) = 2"
  "length (dtl_endian_write_u32le w) = 4"
  "length (dtl_endian_write_u64le x) = 8"
  by (simp_all add: dtl_endian_write_u16le_def dtl_endian_write_u32le_def dtl_endian_write_u64le_def)

subsection \<open>Loads and stores are inverse\<close>

lemma ucast_and_ff [simp]: "(ucast (v AND 0xff) :: u8) = ucast (v :: 'a :: len word)"
proof -
  have "v AND 0xff = take_bit 8 v" by (simp add: take_bit_eq_mask mask_eq_exp_minus_1)
  then show ?thesis
    by (simp only:) (intro bit_word_eqI, auto simp: bit_simps dest: bit_imp_le_length)
qed

text \<open>Joining bytes below and above a byte boundary.\<close>

lemma read_write_u16le [simp]: "dtl_endian_read_u16le (dtl_endian_write_u16le v @ rest) = Ok v"
proof -
  have "(ucast (ucast v :: u8) :: u16) OR push_bit 8 (ucast (ucast (drop_bit 8 v) :: u8)) = v"
    by (intro bit_word_eqI) (auto simp: bit_simps)
  then show ?thesis
    by (simp add: dtl_endian_read_u16le_def dtl_endian_write_u16le_def)
qed

lemma read_write_u32le [simp]: "dtl_endian_read_u32le (dtl_endian_write_u32le v @ rest) = Ok v"
proof -
  have "(ucast (ucast v :: u8) :: u32) OR push_bit 8 (ucast (ucast (drop_bit 8 v) :: u8))
      OR push_bit 16 (ucast (ucast (drop_bit 16 v) :: u8))
      OR push_bit 24 (ucast (ucast (drop_bit 24 v) :: u8)) = v" (is "?l = v")
  proof (intro bit_word_eqI)
    fix n assume "n < LENGTH(32)"
    then consider "n < 8" | "8 \<le> n" "n < 16" | "16 \<le> n" "n < 24" | "24 \<le> n" "n < 32"
      by (simp, linarith)
    then show "bit ?l n = bit v n"
      by cases (simp_all add: bit_simps less_diff_conv2)
  qed
  then show ?thesis
    by (simp add: dtl_endian_read_u32le_def dtl_endian_write_u32le_def)
qed

lemma read_write_u64le [simp]: "dtl_endian_read_u64le (dtl_endian_write_u64le v @ rest) = Ok v"
proof -
  have "(ucast (ucast v :: u8) :: u64) OR push_bit 8 (ucast (ucast (drop_bit 8 v) :: u8))
      OR push_bit 16 (ucast (ucast (drop_bit 16 v) :: u8))
      OR push_bit 24 (ucast (ucast (drop_bit 24 v) :: u8))
      OR push_bit 32 (ucast (ucast (drop_bit 32 v) :: u8))
      OR push_bit 40 (ucast (ucast (drop_bit 40 v) :: u8))
      OR push_bit 48 (ucast (ucast (drop_bit 48 v) :: u8))
      OR push_bit 56 (ucast (ucast (drop_bit 56 v) :: u8)) = v" (is "?l = v")
  proof (intro bit_word_eqI)
    fix n assume "n < LENGTH(64)"
    then consider "n < 8" | "8 \<le> n" "n < 16" | "16 \<le> n" "n < 24" | "24 \<le> n" "n < 32"
      | "32 \<le> n" "n < 40" | "40 \<le> n" "n < 48" | "48 \<le> n" "n < 56" | "56 \<le> n" "n < 64"
      by (simp, linarith)
    then show "bit ?l n = bit v n"
      by cases (simp_all add: bit_simps less_diff_conv2)
  qed
  then show ?thesis
    by (simp add: dtl_endian_read_u64le_def dtl_endian_write_u64le_def)
qed

lemmas read_write_le_nil [simp] =
  read_write_u16le [where rest = "[]", simplified]
  read_write_u32le [where rest = "[]", simplified]
  read_write_u64le [where rest = "[]", simplified]

text \<open>A load never leaves the object when enough bytes follow its pointer, and fails no other way.\<close>

lemma read_u16le_Ok: "2 \<le> length p \<Longrightarrow> \<exists>v. dtl_endian_read_u16le p = Ok v"
  by (simp add: dtl_endian_read_u16le_def)

lemma read_u32le_Ok: "4 \<le> length p \<Longrightarrow> \<exists>v. dtl_endian_read_u32le p = Ok v"
  by (simp add: dtl_endian_read_u32le_def)

lemma read_u64le_Ok: "8 \<le> length p \<Longrightarrow> \<exists>v. dtl_endian_read_u64le p = Ok v"
  by (simp add: dtl_endian_read_u64le_def)

text \<open>Storing the loaded value gives back the bytes that were loaded.\<close>

lemma write_read_u16le:
  assumes "dtl_endian_read_u16le p = Ok v"
  shows "dtl_endian_write_u16le v = take 2 p"
proof -
  have len: "2 \<le> length p"
    using assms by (auto simp: dtl_endian_read_u16le_def rbind_eq_Ok_iff byte_at_eq_Ok_iff)
  have v: "v = ucast (p ! 0) OR push_bit 8 (ucast (p ! 1))"
    using assms len by (simp add: dtl_endian_read_u16le_def)
  have "(ucast v :: u8) = p ! 0" "(ucast (drop_bit 8 v) :: u8) = p ! 1"
    unfolding v by (intro bit_word_eqI; auto simp: bit_simps dest: bit_imp_le_length)+
  then show ?thesis
    using arg_cong [OF list_split2 [OF len], of "take 2"] by (simp add: dtl_endian_write_u16le_def)
qed

lemma write_read_u32le:
  assumes "dtl_endian_read_u32le p = Ok v"
  shows "dtl_endian_write_u32le v = take 4 p"
proof -
  have len: "4 \<le> length p"
    using assms by (auto simp: dtl_endian_read_u32le_def rbind_eq_Ok_iff byte_at_eq_Ok_iff)
  have v: "v = ucast (p ! 0) OR push_bit 8 (ucast (p ! 1)) OR push_bit 16 (ucast (p ! 2))
      OR push_bit 24 (ucast (p ! 3))"
    using assms len by (simp add: dtl_endian_read_u32le_def)
  have "(ucast v :: u8) = p ! 0" "(ucast (drop_bit 8 v) :: u8) = p ! 1"
    "(ucast (drop_bit 16 v) :: u8) = p ! 2" "(ucast (drop_bit 24 v) :: u8) = p ! 3"
    unfolding v by (intro bit_word_eqI; auto simp: bit_simps dest: bit_imp_le_length)+
  then show ?thesis
    using arg_cong [OF list_split4 [OF len], of "take 4"] by (simp add: dtl_endian_write_u32le_def)
qed

lemma write_read_u64le:
  assumes "dtl_endian_read_u64le p = Ok v"
  shows "dtl_endian_write_u64le v = take 8 p"
proof -
  have len: "8 \<le> length p"
    using assms by (auto simp: dtl_endian_read_u64le_def rbind_eq_Ok_iff byte_at_eq_Ok_iff)
  have v: "v = ucast (p ! 0) OR push_bit 8 (ucast (p ! 1)) OR push_bit 16 (ucast (p ! 2))
      OR push_bit 24 (ucast (p ! 3)) OR push_bit 32 (ucast (p ! 4)) OR push_bit 40 (ucast (p ! 5))
      OR push_bit 48 (ucast (p ! 6)) OR push_bit 56 (ucast (p ! 7))"
    using assms len by (simp add: dtl_endian_read_u64le_def)
  have "(ucast v :: u8) = p ! 0" "(ucast (drop_bit 8 v) :: u8) = p ! 1"
    "(ucast (drop_bit 16 v) :: u8) = p ! 2" "(ucast (drop_bit 24 v) :: u8) = p ! 3"
    "(ucast (drop_bit 32 v) :: u8) = p ! 4" "(ucast (drop_bit 40 v) :: u8) = p ! 5"
    "(ucast (drop_bit 48 v) :: u8) = p ! 6" "(ucast (drop_bit 56 v) :: u8) = p ! 7"
    unfolding v by (intro bit_word_eqI; auto simp: bit_simps dest: bit_imp_le_length)+
  then show ?thesis
    using arg_cong [OF list_split8 [OF len], of "take 8"] by (simp add: dtl_endian_write_u64le_def)
qed

end
