(* ===== verification/Core_Buf.thy ===== *)
theory Core_Buf
  imports Core_Endian
begin

text \<open>
  \<^verbatim>\<open>src/core/buf.c\<close>: the bounded forward-only reader.  \<open>buf_p\<close> is the borrowed region
  (its length is the field \<open>len\<close>), \<open>buf_pos\<close> the cursor.  A read that fails leaves the buffer
  of the caller as it was, so only a successful read returns a new buffer.  The fixed-width reads
  share one contract, the locale \<open>buf_reader\<close>.
\<close>

record dtl_buf =
  buf_p :: "u8 list"
  buf_pos :: nat

definition buf_len :: "dtl_buf \<Rightarrow> nat" where
  "buf_len b = length (buf_p b)"

definition dtl_buf_init :: "u8 list \<Rightarrow> dtl_buf" where
  "dtl_buf_init p = \<lparr>buf_p = p, buf_pos = 0\<rparr>"

definition dtl_buf_remaining :: "dtl_buf \<Rightarrow> nat" where
  "dtl_buf_remaining b = size_sub (buf_len b) (buf_pos b)"

definition dtl_buf_read_bytes :: "dtl_buf \<Rightarrow> nat \<Rightarrow> (u8 list \<times> dtl_buf) res" where
  "dtl_buf_read_bytes b n =
     (let avail = size_sub (buf_len b) (buf_pos b)
      in if n > avail then Err DTL_ERR_TRUNCATED
         else if n \<noteq> 0 \<and> buf_pos b + n > buf_len b then Ub
         else Ok (take n (drop (buf_pos b) (buf_p b)), b\<lparr>buf_pos := buf_pos b + n\<rparr>))"

definition dtl_buf_read_u8 :: "dtl_buf \<Rightarrow> (u8 \<times> dtl_buf) res" where
  "dtl_buf_read_u8 b =
     (if size_sub (buf_len b) (buf_pos b) < 1 then Err DTL_ERR_TRUNCATED
      else rbind (byte_at (buf_p b) (buf_pos b)) (\<lambda>v. Ok (v, b\<lparr>buf_pos := buf_pos b + 1\<rparr>)))"

definition dtl_buf_read_u16 :: "dtl_buf \<Rightarrow> (u16 \<times> dtl_buf) res" where
  "dtl_buf_read_u16 b =
     (if size_sub (buf_len b) (buf_pos b) < 2 then Err DTL_ERR_TRUNCATED
      else rbind (dtl_endian_read_u16le (drop (buf_pos b) (buf_p b)))
             (\<lambda>v. Ok (v, b\<lparr>buf_pos := buf_pos b + 2\<rparr>)))"

definition dtl_buf_read_u32 :: "dtl_buf \<Rightarrow> (u32 \<times> dtl_buf) res" where
  "dtl_buf_read_u32 b =
     (if size_sub (buf_len b) (buf_pos b) < 4 then Err DTL_ERR_TRUNCATED
      else rbind (dtl_endian_read_u32le (drop (buf_pos b) (buf_p b)))
             (\<lambda>v. Ok (v, b\<lparr>buf_pos := buf_pos b + 4\<rparr>)))"

definition dtl_buf_read_u64 :: "dtl_buf \<Rightarrow> (u64 \<times> dtl_buf) res" where
  "dtl_buf_read_u64 b =
     (if size_sub (buf_len b) (buf_pos b) < 8 then Err DTL_ERR_TRUNCATED
      else rbind (dtl_endian_read_u64le (drop (buf_pos b) (buf_p b)))
             (\<lambda>v. Ok (v, b\<lparr>buf_pos := buf_pos b + 8\<rparr>)))"

subsection \<open>The cursor invariant and the abstract view\<close>

definition buf_ok :: "dtl_buf \<Rightarrow> bool" where
  "buf_ok b \<longleftrightarrow> buf_pos b \<le> buf_len b"

text \<open>The abstract value of a reader is the list of its unread bytes.\<close>

definition buf_rest :: "dtl_buf \<Rightarrow> u8 list" where
  "buf_rest b = drop (buf_pos b) (buf_p b)"

definition buf_adv :: "dtl_buf \<Rightarrow> nat \<Rightarrow> dtl_buf" where
  "buf_adv b n = b\<lparr>buf_pos := buf_pos b + n\<rparr>"

lemma buf_init_ok [simp]: "buf_ok (dtl_buf_init p)" "buf_rest (dtl_buf_init p) = p"
  "buf_p (dtl_buf_init p) = p" "buf_pos (dtl_buf_init p) = 0"
  by (simp_all add: buf_ok_def dtl_buf_init_def buf_len_def buf_rest_def)

lemma buf_remaining_rest [simp]: "buf_ok b \<Longrightarrow> dtl_buf_remaining b = length (buf_rest b)"
  by (simp add: dtl_buf_remaining_def buf_ok_def buf_rest_def buf_len_def)

lemma buf_avail_rest: "buf_ok b \<Longrightarrow> size_sub (buf_len b) (buf_pos b) = length (buf_rest b)"
  by (simp add: buf_ok_def buf_rest_def buf_len_def)

lemma buf_adv_ok [simp]: "buf_ok b \<Longrightarrow> n \<le> length (buf_rest b) \<Longrightarrow> buf_ok (buf_adv b n)"
  by (simp add: buf_ok_def buf_adv_def buf_rest_def buf_len_def)

lemma buf_adv_rest [simp]: "buf_rest (buf_adv b n) = drop n (buf_rest b)"
  by (simp add: buf_rest_def buf_adv_def add.commute)

lemma buf_adv_fields [simp]: "buf_p (buf_adv b n) = buf_p b" "buf_pos (buf_adv b n) = buf_pos b + n"
  "buf_len (buf_adv b n) = buf_len b"
  by (simp_all add: buf_adv_def buf_len_def)

lemma buf_adv_adv [simp]: "buf_adv (buf_adv b n) k = buf_adv b (n + k)"
  by (simp add: buf_adv_def)

lemma buf_rest_length: "buf_ok b \<Longrightarrow> buf_pos b + length (buf_rest b) = buf_len b"
  by (simp add: buf_ok_def buf_rest_def buf_len_def)

text \<open>A read that went from \<open>b\<close> to \<open>b'\<close> consumed exactly the bytes \<open>bs\<close>.\<close>

definition consumes :: "dtl_buf \<Rightarrow> dtl_buf \<Rightarrow> u8 list \<Rightarrow> bool" where
  "consumes b b' bs \<longleftrightarrow> buf_ok b' \<and> b' = buf_adv b (length bs) \<and> take (length bs) (buf_rest b) = bs"

lemma consumes_trans: "consumes a b xs \<Longrightarrow> consumes b c ys \<Longrightarrow> consumes a c (xs @ ys)"
  by (auto simp: consumes_def take_add)

lemma consumes_ok: "consumes a b xs \<Longrightarrow> buf_ok b"
  unfolding consumes_def by blast

lemma consumes_rest: "consumes a b xs \<Longrightarrow> buf_rest a = xs @ buf_rest b"
  by (auto simp: consumes_def) (metis append_take_drop_id)

lemma consumes_pos: "consumes a b xs \<Longrightarrow> buf_pos b = buf_pos a + length xs \<and> buf_p b = buf_p a"
  by (auto simp: consumes_def)

lemma consumes_refl: "buf_ok a \<Longrightarrow> consumes a a []"
  by (simp add: consumes_def buf_adv_def)

subsection \<open>The contract of a fixed-width read\<close>

locale buf_reader =
  fixes rd :: "dtl_buf \<Rightarrow> ('v \<times> dtl_buf) res"
    and width :: nat
    and wr :: "'v \<Rightarrow> u8 list"
  assumes short: "buf_ok b \<Longrightarrow> length (buf_rest b) < width \<Longrightarrow> rd b = Err DTL_ERR_TRUNCATED"
    and full: "buf_ok b \<Longrightarrow> width \<le> length (buf_rest b) \<Longrightarrow>
      \<exists>v. rd b = Ok (v, buf_adv b width) \<and> wr v = take width (buf_rest b)"
    and wr_inj: "wr v = wr v' \<Longrightarrow> v = v'"
    and wr_width: "length (wr v) = width"
begin

lemma safe: "buf_ok b \<Longrightarrow> rd b \<noteq> Ub"
  using short [of b] full [of b] by (cases "length (buf_rest b) < width") (auto simp: not_less)

lemma only_truncated: "buf_ok b \<Longrightarrow> rd b = Err e \<Longrightarrow> e = DTL_ERR_TRUNCATED"
  using short [of b] full [of b] by (cases "length (buf_rest b) < width") (auto simp: not_less)

lemma OkD:
  assumes "buf_ok b" and "rd b = Ok (v, b')"
  shows "b' = buf_adv b width" and "width \<le> length (buf_rest b)" and "buf_ok b'"
    and "buf_rest b = wr v @ buf_rest b'"
proof -
  show le: "width \<le> length (buf_rest b)"
    using assms short by (cases "length (buf_rest b) < width") auto
  with full [OF assms(1) le] assms(2) show b': "b' = buf_adv b width" by auto
  with assms le show "buf_ok b'" by simp
  from full [OF assms(1) le] assms(2) have "wr v = take width (buf_rest b)" by auto
  with b' show "buf_rest b = wr v @ buf_rest b'" by simp
qed

lemma bind_safe:
  assumes "buf_ok b"
    and "\<And>v b'. rd b = Ok (v, b') \<Longrightarrow> buf_ok b' \<Longrightarrow> b' = buf_adv b width \<Longrightarrow> f (v, b') \<noteq> Ub"
  shows "rbind (rd b) f \<noteq> Ub"
proof (cases "rd b")
  case (Ok x)
  then obtain v b' where x: "rd b = Ok (v, b')" by (cases x) auto
  with assms(2) [OF x OkD(3) [OF assms(1) x] OkD(1) [OF assms(1) x]] show ?thesis by simp
qed (use assms(1) safe in auto)

lemma unsafeE: "rd b = Ub \<Longrightarrow> buf_ok b \<Longrightarrow> False"
  using safe by blast

lemma next_ok: "rd b = Ok (v, b') \<Longrightarrow> buf_ok b \<Longrightarrow> buf_ok b' \<and> b' = buf_adv b width"
  using OkD(1,3) by blast

lemma consumed: "buf_ok b \<Longrightarrow> rd b = Ok (v, b') \<Longrightarrow> consumes b b' (wr v)"
  using OkD(1-3) [of b v b'] full [of b] wr_width by (auto simp: consumes_def)

lemma read_written:
  assumes "buf_ok b" and "buf_rest b = wr v @ r"
  shows "rd b = Ok (v, buf_adv b width)"
proof -
  have "width \<le> length (buf_rest b)" using assms wr_width by simp
  then obtain v' where v': "rd b = Ok (v', buf_adv b width)" "wr v' = take width (buf_rest b)"
    using full [OF assms(1)] by blast
  then have "wr v' = wr v" using assms wr_width by simp
  then show ?thesis using v' wr_inj by blast
qed

end

interpretation rd_u8: buf_reader dtl_buf_read_u8 1 "\<lambda>v. [v]"
  by unfold_locales
    (auto simp: dtl_buf_read_u8_def buf_avail_rest buf_adv_def buf_rest_def take_Suc_conv_app_nth)

interpretation rd_u16: buf_reader dtl_buf_read_u16 2 dtl_endian_write_u16le
proof unfold_locales
  fix b assume b: "buf_ok b"
  show "length (buf_rest b) < 2 \<Longrightarrow> dtl_buf_read_u16 b = Err DTL_ERR_TRUNCATED"
    using b by (simp add: dtl_buf_read_u16_def buf_avail_rest)
  assume len: "2 \<le> length (buf_rest b)"
  then obtain v where "dtl_endian_read_u16le (buf_rest b) = Ok v" using read_u16le_Ok by blast
  with b len write_read_u16le show "\<exists>v. dtl_buf_read_u16 b = Ok (v, buf_adv b 2) \<and>
      dtl_endian_write_u16le v = take 2 (buf_rest b)"
    by (auto simp: dtl_buf_read_u16_def buf_avail_rest buf_adv_def simp flip: buf_rest_def)
qed (simp_all, metis read_write_le_nil(1) result.inject(1))

interpretation rd_u32: buf_reader dtl_buf_read_u32 4 dtl_endian_write_u32le
proof unfold_locales
  fix b assume b: "buf_ok b"
  show "length (buf_rest b) < 4 \<Longrightarrow> dtl_buf_read_u32 b = Err DTL_ERR_TRUNCATED"
    using b by (simp add: dtl_buf_read_u32_def buf_avail_rest)
  assume len: "4 \<le> length (buf_rest b)"
  then obtain v where "dtl_endian_read_u32le (buf_rest b) = Ok v" using read_u32le_Ok by blast
  with b len write_read_u32le show "\<exists>v. dtl_buf_read_u32 b = Ok (v, buf_adv b 4) \<and>
      dtl_endian_write_u32le v = take 4 (buf_rest b)"
    by (auto simp: dtl_buf_read_u32_def buf_avail_rest buf_adv_def simp flip: buf_rest_def)
qed (simp_all, metis read_write_le_nil(2) result.inject(1))

interpretation rd_u64: buf_reader dtl_buf_read_u64 8 dtl_endian_write_u64le
proof unfold_locales
  fix b assume b: "buf_ok b"
  show "length (buf_rest b) < 8 \<Longrightarrow> dtl_buf_read_u64 b = Err DTL_ERR_TRUNCATED"
    using b by (simp add: dtl_buf_read_u64_def buf_avail_rest)
  assume len: "8 \<le> length (buf_rest b)"
  then obtain v where "dtl_endian_read_u64le (buf_rest b) = Ok v" using read_u64le_Ok by blast
  with b len write_read_u64le show "\<exists>v. dtl_buf_read_u64 b = Ok (v, buf_adv b 8) \<and>
      dtl_endian_write_u64le v = take 8 (buf_rest b)"
    by (auto simp: dtl_buf_read_u64_def buf_avail_rest buf_adv_def simp flip: buf_rest_def)
qed (simp_all, metis read_write_le_nil(3) result.inject(1))

lemmas buf_safe = rd_u8.safe rd_u16.safe rd_u32.safe rd_u64.safe
lemmas buf_bind_safe [safe_intros] = rd_u8.bind_safe rd_u16.bind_safe rd_u32.bind_safe rd_u64.bind_safe
lemmas buf_unsafeE = rd_u8.unsafeE rd_u16.unsafeE rd_u32.unsafeE rd_u64.unsafeE
lemmas buf_next = rd_u8.next_ok rd_u16.next_ok rd_u32.next_ok rd_u64.next_ok
lemmas buf_consumed = rd_u8.consumed rd_u16.consumed rd_u32.consumed rd_u64.consumed
lemmas buf_only_truncated = rd_u8.only_truncated rd_u16.only_truncated rd_u32.only_truncated
  rd_u64.only_truncated
lemmas buf_read_written = rd_u8.read_written rd_u16.read_written rd_u32.read_written rd_u64.read_written

subsection \<open>The variable-width read\<close>

lemma read_bytes_short:
  "buf_ok b \<Longrightarrow> length (buf_rest b) < n \<Longrightarrow> dtl_buf_read_bytes b n = Err DTL_ERR_TRUNCATED"
  by (simp add: dtl_buf_read_bytes_def buf_avail_rest)

lemma read_bytes_full:
  "buf_ok b \<Longrightarrow> n \<le> length (buf_rest b) \<Longrightarrow>
   dtl_buf_read_bytes b n = Ok (take n (buf_rest b), buf_adv b n)"
  using buf_rest_length [of b]
  by (simp add: dtl_buf_read_bytes_def buf_avail_rest buf_adv_def buf_rest_def)

lemma read_bytes_safe [safe_intros]: "buf_ok b \<Longrightarrow> dtl_buf_read_bytes b n \<noteq> Ub"
  using read_bytes_short read_bytes_full by (cases "length (buf_rest b) < n") (auto simp: not_less)

lemma read_bytes_OkD:
  assumes "buf_ok b" "dtl_buf_read_bytes b n = Ok (bs, b')"
  shows "bs = take n (buf_rest b)" "b' = buf_adv b n" "n \<le> length (buf_rest b)" "length bs = n"
    "buf_ok b'"
  using assms read_bytes_short [of b n] read_bytes_full [of b n]
  by (cases "length (buf_rest b) < n"; auto simp: not_less)+

end
