(* ===== verification/Core_Mem.thy ===== *)
theory Core_Mem
  imports Core_Err
begin

text \<open>
  The C heap as far as the toolkit uses it.  An allocation is a block with an identifier, never
  reused; a pointer is a block and an offset into it.  The cells of a block are \<open>None\<close> until they
  are written.  Reading or writing through a pointer whose block has been freed, outside the block,
  or reading a cell never written is \<open>Ub\<close>.

  Whether an allocation succeeds is up to the environment: \<open>m_oom m k n\<close> says that the \<open>k\<close>-th
  request of the run, for \<open>n\<close> bytes, returns \<open>NULL\<close>.  Every theorem holds for every such
  environment unless it names a hypothesis about it.
\<close>

type_synonym addr = "nat \<times> nat"
type_synonym cell = "u8 option"

record mem =
  m_next :: nat
  m_objs :: "nat \<Rightarrow> cell list option"
  m_oom :: "nat \<Rightarrow> nat \<Rightarrow> bool"

definition mem_ok :: "mem \<Rightarrow> bool" where
  "mem_ok m \<longleftrightarrow> (\<forall>b. m_next m \<le> b \<longrightarrow> m_objs m b = None)"

definition mem_init :: "(nat \<Rightarrow> nat \<Rightarrow> bool) \<Rightarrow> mem" where
  "mem_init oom = \<lparr>m_next = 0, m_objs = (\<lambda>_. None), m_oom = oom\<rparr>"

subsection \<open>malloc and free\<close>

definition c_malloc :: "mem \<Rightarrow> nat \<Rightarrow> nat option \<times> mem" where
  "c_malloc m n =
     (if m_oom m (m_next m) n then (None, m\<lparr>m_next := Suc (m_next m)\<rparr>)
      else (Some (m_next m),
            m\<lparr>m_next := Suc (m_next m), m_objs := (m_objs m)(m_next m := Some (replicate n None))\<rparr>))"

text \<open>\<open>free(NULL)\<close> does nothing; freeing a block twice is undefined.\<close>

definition c_free :: "mem \<Rightarrow> nat option \<Rightarrow> mem res" where
  "c_free m p = (case p of None \<Rightarrow> Ok m
     | Some b \<Rightarrow> (case m_objs m b of None \<Rightarrow> Ub
         | Some _ \<Rightarrow> Ok (m\<lparr>m_objs := (m_objs m)(b := None)\<rparr>)))"

fun c_free_all :: "nat list \<Rightarrow> mem \<Rightarrow> mem res" where
  "c_free_all [] m = Ok m"
| "c_free_all (b # bs) m = rbind (c_free m (Some b)) (c_free_all bs)"

subsection \<open>Loads and stores\<close>

definition load_bytes :: "mem \<Rightarrow> addr \<Rightarrow> nat \<Rightarrow> u8 list res" where
  "load_bytes m p n = (case m_objs m (fst p) of None \<Rightarrow> Ub
     | Some cs \<Rightarrow>
         (let xs = take n (drop (snd p) cs)
          in if snd p + n \<le> length cs \<and> None \<notin> set xs then Ok (map the xs) else Ub))"

definition store_bytes :: "mem \<Rightarrow> addr \<Rightarrow> u8 list \<Rightarrow> mem res" where
  "store_bytes m p bs = (case m_objs m (fst p) of None \<Rightarrow> Ub
     | Some cs \<Rightarrow>
         (if snd p + length bs \<le> length cs
          then Ok (m\<lparr>m_objs := (m_objs m)(fst p :=
                 Some (take (snd p) cs @ map Some bs @ drop (snd p + length bs) cs))\<rparr>)
          else Ub))"

text \<open>The bytes of the C string at a pointer, without its terminator (\<open>strlen\<close> and a copy).\<close>

fun cstr_cells :: "cell list \<Rightarrow> u8 list res" where
  "cstr_cells [] = Ub"
| "cstr_cells (None # cs) = Ub"
| "cstr_cells (Some b # cs) = (if b = 0 then Ok [] else rbind (cstr_cells cs) (\<lambda>s. Ok (b # s)))"

definition load_cstr :: "mem \<Rightarrow> addr \<Rightarrow> u8 list res" where
  "load_cstr m p = (case m_objs m (fst p) of None \<Rightarrow> Ub
     | Some cs \<Rightarrow> (if snd p \<le> length cs then cstr_cells (drop (snd p) cs) else Ub))"

subsection \<open>Regions and how operations change them\<close>

text \<open>A region is a pointer and a length; \<open>region_ok\<close> says it lies inside a live block.\<close>

definition region_ok :: "mem \<Rightarrow> addr \<Rightarrow> nat \<Rightarrow> bool" where
  "region_ok m p n \<longleftrightarrow>
     (case m_objs m (fst p) of None \<Rightarrow> False | Some cs \<Rightarrow> snd p + n \<le> length cs)"

definition disjoint_regions :: "addr \<Rightarrow> nat \<Rightarrow> addr \<Rightarrow> nat \<Rightarrow> bool" where
  "disjoint_regions p n q k \<longleftrightarrow> fst p \<noteq> fst q \<or> snd p + n \<le> snd q \<or> snd q + k \<le> snd p"

lemma mem_ok_init [simp]: "mem_ok (mem_init oom)"
  by (simp add: mem_ok_def mem_init_def)

lemma c_malloc_mem_ok: "mem_ok m \<Longrightarrow> c_malloc m n = (p, m') \<Longrightarrow> mem_ok m'"
  by (auto simp: c_malloc_def mem_ok_def split: if_splits)

lemma c_malloc_next: "c_malloc m n = (p, m') \<Longrightarrow> m_next m' = Suc (m_next m)"
  by (auto simp: c_malloc_def split: if_splits)

lemma c_malloc_oom: "c_malloc m n = (p, m') \<Longrightarrow> m_oom m' = m_oom m"
  by (auto simp: c_malloc_def split: if_splits)

lemma c_malloc_fresh: "mem_ok m \<Longrightarrow> c_malloc m n = (Some b, m') \<Longrightarrow> m_objs m b = None \<and> b = m_next m"
  by (auto simp: c_malloc_def mem_ok_def split: if_splits)

lemma c_malloc_obj: "c_malloc m n = (Some b, m') \<Longrightarrow> m_objs m' b = Some (replicate n None)"
  by (auto simp: c_malloc_def split: if_splits)

lemma c_malloc_other:
  "c_malloc m n = (p, m') \<Longrightarrow> b < m_next m \<Longrightarrow> m_objs m' b = m_objs m b"
  by (auto simp: c_malloc_def split: if_splits)

lemma c_malloc_live:
  "mem_ok m \<Longrightarrow> c_malloc m n = (p, m') \<Longrightarrow> m_objs m b = Some cs \<Longrightarrow> m_objs m' b = Some cs"
  by (metis c_malloc_other mem_ok_def not_le option.distinct(1))

lemma live_lt_next: "mem_ok m \<Longrightarrow> m_objs m b = Some cs \<Longrightarrow> b < m_next m"
  by (metis mem_ok_def not_le option.distinct(1))

lemma region_ok_lt_next: "mem_ok m \<Longrightarrow> region_ok m p n \<Longrightarrow> fst p < m_next m"
  by (auto simp: region_ok_def live_lt_next split: option.splits)

lemma store_bytes_Ok_iff: "(\<exists>m'. store_bytes m p bs = Ok m') \<longleftrightarrow> region_ok m p (length bs)"
  by (auto simp: store_bytes_def region_ok_def split: option.splits)

lemma store_bytes_mem_ok: "mem_ok m \<Longrightarrow> store_bytes m p bs = Ok m' \<Longrightarrow> mem_ok m'"
  by (auto simp: store_bytes_def mem_ok_def split: option.splits if_splits)

lemma store_bytes_frame:
  "store_bytes m p bs = Ok m' \<Longrightarrow> m_next m' = m_next m \<and> m_oom m' = m_oom m"
  by (auto simp: store_bytes_def split: option.splits if_splits)

lemma store_bytes_region_ok:
  "store_bytes m p bs = Ok m' \<Longrightarrow> region_ok m' q n = region_ok m q n"
  by (auto simp: store_bytes_def region_ok_def split: option.splits if_splits)

lemma store_bytes_objs_None:
  "store_bytes m p bs = Ok m' \<Longrightarrow> (m_objs m' b = None) = (m_objs m b = None)"
  by (auto simp: store_bytes_def split: option.splits if_splits)

lemma load_store_same: "store_bytes m p bs = Ok m' \<Longrightarrow> load_bytes m' p (length bs) = Ok bs"
  by (auto simp: store_bytes_def load_bytes_def Let_def comp_def min_def
      split: option.splits if_splits)

lemma take_drop_store_disjoint:
  assumes "off + n \<le> length cs" "k + length bs \<le> length cs" "off + n \<le> k \<or> k + length bs \<le> off"
  shows "take n (drop off (take k cs @ bs @ drop (k + length bs) cs)) = take n (drop off cs)"
  using assms by (intro nth_equalityI) (auto simp: nth_append)

lemma load_store_disjoint:
  assumes "store_bytes m p bs = Ok m'" and "disjoint_regions p (length bs) q n"
    and "load_bytes m q n = Ok xs"
  shows "load_bytes m' q n = Ok xs"
proof (cases "fst p = fst q")
  case False
  with assms show ?thesis
    by (auto simp: store_bytes_def load_bytes_def split: option.splits if_splits)
next
  case True
  then obtain cs where cs: "m_objs m (fst q) = Some cs" and q: "snd q + n \<le> length cs"
    and p: "snd p + length bs \<le> length cs"
    using assms by (auto simp: store_bytes_def load_bytes_def Let_def split: option.splits if_splits)
  have "take n (drop (snd q) (take (snd p) cs @ map Some bs @ drop (snd p + length bs) cs))
      = take n (drop (snd q) cs)"
    using take_drop_store_disjoint [of "snd q" n cs "snd p" "map Some bs"] p q True assms(2)
    by (auto simp: disjoint_regions_def)
  with assms cs True p q show ?thesis
    by (auto simp: store_bytes_def load_bytes_def Let_def split: option.splits if_splits)
qed

lemma load_malloc:
  assumes "mem_ok m" "c_malloc m n = (p, m')" "load_bytes m q k = Ok xs"
  shows "load_bytes m' q k = Ok xs"
proof -
  obtain cs where "m_objs m (fst q) = Some cs"
    using assms(3) by (auto simp: load_bytes_def split: option.splits)
  with assms show ?thesis
    using c_malloc_live [OF assms(1,2)] by (simp add: load_bytes_def)
qed

lemma load_bytes_region: "load_bytes m p n = Ok xs \<Longrightarrow> region_ok m p n \<and> length xs = n"
  by (auto simp: load_bytes_def region_ok_def Let_def split: option.splits if_splits)

lemma load_bytes_dead: "m_objs m (fst p) = None \<Longrightarrow> load_bytes m p n = Ub"
  by (simp add: load_bytes_def)

text \<open>A stored string that ends in its first NUL is read back up to it.\<close>

lemma cstr_cells_map: "0 \<notin> set bs \<Longrightarrow> cstr_cells (map Some bs @ Some 0 # cs) = Ok bs"
  by (induction bs) auto

lemma load_cstr_of_bytes:
  assumes "load_bytes m p (Suc (length bs)) = Ok (bs @ [0])" and "0 \<notin> set bs"
  shows "load_cstr m p = Ok bs"
proof -
  obtain cs where cs: "m_objs m (fst p) = Some cs" "snd p + Suc (length bs) \<le> length cs"
    and nn: "None \<notin> set (take (Suc (length bs)) (drop (snd p) cs))"
    and xs: "map the (take (Suc (length bs)) (drop (snd p) cs)) = bs @ [0]"
    using assms(1) by (auto simp: load_bytes_def Let_def split: option.splits if_splits)
  have "take (Suc (length bs)) (drop (snd p) cs) = map Some (bs @ [0])"
    using map_Some_the [OF nn] xs by simp
  then have "drop (snd p) cs = map Some bs @ Some 0 # drop (snd p + Suc (length bs)) cs"
    using take_drop_append [of "Suc (length bs)" "snd p" cs] by simp
  with cs assms(2) show ?thesis
    by (simp add: load_cstr_def cstr_cells_map)
qed

subsection \<open>Heap extension\<close>

text \<open>The heap after a call: old blocks are as they were, the environment is the same.\<close>

definition heap_ext :: "mem \<Rightarrow> mem \<Rightarrow> bool" where
  "heap_ext m m' \<longleftrightarrow> mem_ok m' \<and> m_oom m' = m_oom m \<and> m_next m \<le> m_next m' \<and>
     (\<forall>b < m_next m. m_objs m' b = m_objs m b)"

lemma heap_ext_refl [simp]: "mem_ok m \<Longrightarrow> heap_ext m m"
  by (simp add: heap_ext_def)

lemma heap_ext_trans: "heap_ext a b \<Longrightarrow> heap_ext b c \<Longrightarrow> heap_ext a c"
  by (auto simp: heap_ext_def)

lemma heap_ext_ok: "heap_ext m m' \<Longrightarrow> mem_ok m'"
  by (simp add: heap_ext_def)

lemma heap_ext_malloc: "mem_ok m \<Longrightarrow> c_malloc m n = (p, m') \<Longrightarrow> heap_ext m m'"
  using c_malloc_mem_ok c_malloc_oom c_malloc_next c_malloc_other by (simp add: heap_ext_def)

definition heap_never_fails :: "mem \<Rightarrow> bool" where
  "heap_never_fails m \<longleftrightarrow> (\<forall>k n. \<not> m_oom m k n)"

lemma heap_never_fails_ext: "heap_ext m m' \<Longrightarrow> heap_never_fails m' = heap_never_fails m"
  by (simp add: heap_ext_def heap_never_fails_def)

end
