(* ===== verification/Core_Arena.thy ===== *)
theory Core_Arena
  imports Core_Mem
begin

text \<open>
  \<^verbatim>\<open>src/core/arena.c\<close>: the bump allocator.  A slab descriptor names the heap block that holds the
  slab; \<open>a_blocks\<close> is the descriptor array up to \<open>nblocks\<close>, \<open>a_blocks_cap\<close> its capacity.
  The build without AddressSanitizer is modelled (no red zones).  The invariant says that slabs are
  live, distinct and not over-used; the allocation theorems say that a returned chunk is aligned, lies
  inside a live slab, and overlaps no chunk handed out before.
\<close>

record dtl_arena_block =
  blk_data :: nat
  blk_cap :: nat
  blk_used :: nat

record dtl_arena =
  a_blocks :: "dtl_arena_block list"
  a_blocks_cap :: nat
  a_block_size :: nat

definition DTL_ARENA_ALIGN :: nat where "DTL_ARENA_ALIGN = 16"
definition DTL_ARENA_DEFAULT_BLOCK :: nat where "DTL_ARENA_DEFAULT_BLOCK = 4096"
definition DTL_ARENA_MIN_BLOCKS :: nat where "DTL_ARENA_MIN_BLOCKS = 4"

text \<open>\<open>sizeof(dtl_arena_block)\<close>: a pointer and two sizes.\<close>

definition sizeof_arena_block :: nat where "sizeof_arena_block = 24"

definition dtl_arena_align_up :: "nat \<Rightarrow> nat" where
  "dtl_arena_align_up n =
     (if n > SIZE_MAX - (DTL_ARENA_ALIGN - 1) then 0
      else let rem = n mod DTL_ARENA_ALIGN
           in if rem \<noteq> 0 then n + (DTL_ARENA_ALIGN - rem) else n)"

definition dtl_arena_init :: "nat \<Rightarrow> dtl_arena" where
  "dtl_arena_init block_size =
     \<lparr>a_blocks = [], a_blocks_cap = 0,
      a_block_size = (if block_size \<noteq> 0 then block_size else DTL_ARENA_DEFAULT_BLOCK)\<rparr>"

text \<open>
  Growing the descriptor array is a \<open>realloc\<close>: it can fail, and on success moves the array, whose
  contents the model keeps as a list.
\<close>

definition dtl_arena_reserve_slot :: "mem \<Rightarrow> dtl_arena \<Rightarrow> bool \<times> dtl_arena \<times> mem" where
  "dtl_arena_reserve_slot m a =
     (if length (a_blocks a) < a_blocks_cap a then (True, a, m)
      else let newcap = (if a_blocks_cap a \<noteq> 0 then (a_blocks_cap a * 2) mod 2 ^ 64
                         else DTL_ARENA_MIN_BLOCKS)
           in if newcap > SIZE_MAX div sizeof_arena_block then (False, a, m)
              else case c_malloc m (newcap * sizeof_arena_block) of
                     (None, m') \<Rightarrow> (False, a, m')
                   | (Some _, m') \<Rightarrow> (True, a\<lparr>a_blocks_cap := newcap\<rparr>, m'))"

definition arena_last_fits :: "dtl_arena \<Rightarrow> nat \<Rightarrow> bool" where
  "arena_last_fits a need \<longleftrightarrow> a_blocks a \<noteq> [] \<and>
     need \<le> size_sub (blk_cap (last (a_blocks a))) (blk_used (last (a_blocks a)))"

definition dtl_arena_alloc :: "mem \<Rightarrow> dtl_arena \<Rightarrow> nat \<Rightarrow> addr option \<times> dtl_arena \<times> mem" where
  "dtl_arena_alloc m a n =
     (if n = 0 then (None, a, m)
      else let need = dtl_arena_align_up n
      in if need = 0 then (None, a, m)
      else if arena_last_fits a need then
        (let blk = last (a_blocks a)
         in (Some (blk_data blk, blk_used blk),
             a\<lparr>a_blocks := butlast (a_blocks a) @ [blk\<lparr>blk_used := blk_used blk + need\<rparr>]\<rparr>, m))
      else let cap = (if need > a_block_size a then need else a_block_size a)
      in case dtl_arena_reserve_slot m a of
           (False, a', m') \<Rightarrow> (None, a', m')
         | (True, a', m') \<Rightarrow>
             (case c_malloc m' cap of
                (None, m'') \<Rightarrow> (None, a', m'')
              | (Some d, m'') \<Rightarrow>
                  (Some (d, 0),
                   a'\<lparr>a_blocks := a_blocks a' @ [\<lparr>blk_data = d, blk_cap = cap, blk_used = need\<rparr>]\<rparr>,
                   m'')))"

definition dtl_arena_reset :: "dtl_arena \<Rightarrow> dtl_arena" where
  "dtl_arena_reset a = a\<lparr>a_blocks := map (\<lambda>blk. blk\<lparr>blk_used := 0\<rparr>) (a_blocks a)\<rparr>"

definition dtl_arena_free :: "mem \<Rightarrow> dtl_arena \<Rightarrow> (dtl_arena \<times> mem) res" where
  "dtl_arena_free m a =
     rbind (c_free_all (map blk_data (a_blocks a)) m)
       (\<lambda>m'. Ok (a\<lparr>a_blocks := [], a_blocks_cap := 0\<rparr>, m'))"

subsection \<open>Alignment\<close>

lemma align_up_ge: "dtl_arena_align_up n \<noteq> 0 \<Longrightarrow> n \<le> dtl_arena_align_up n"
  by (auto simp: dtl_arena_align_up_def Let_def split: if_splits)

lemma align_up_dvd: "16 dvd dtl_arena_align_up n"
proof -
  have "16 dvd n + (16 - n mod 16)" if "n mod 16 \<noteq> 0"
    using that by presburger
  then show ?thesis
    by (auto simp: dtl_arena_align_up_def DTL_ARENA_ALIGN_def Let_def dvd_eq_mod_eq_0)
qed

lemma align_up_lt: "dtl_arena_align_up n < n + 16"
  by (auto simp: dtl_arena_align_up_def DTL_ARENA_ALIGN_def Let_def)

lemma align_up_bound: "dtl_arena_align_up n \<le> SIZE_MAX"
proof -
  have "n + (16 - n mod 16) \<le> SIZE_MAX" if "n \<le> SIZE_MAX - 15" "n mod 16 \<noteq> 0"
    using that by (simp add: SIZE_MAX_def)
  then show ?thesis
    by (auto simp: dtl_arena_align_up_def DTL_ARENA_ALIGN_def Let_def SIZE_MAX_def)
qed

lemma align_up_zero: "dtl_arena_align_up n = 0 \<longleftrightarrow> n = 0 \<or> n > SIZE_MAX - 15"
  by (auto simp: dtl_arena_align_up_def DTL_ARENA_ALIGN_def Let_def)

subsection \<open>The arena invariant\<close>

definition block_ok :: "mem \<Rightarrow> dtl_arena_block \<Rightarrow> bool" where
  "block_ok m blk \<longleftrightarrow> blk_used blk \<le> blk_cap blk \<and> 16 dvd blk_used blk \<and>
     (\<exists>cs. m_objs m (blk_data blk) = Some cs \<and> length cs = blk_cap blk)"

definition arena_ok :: "mem \<Rightarrow> dtl_arena \<Rightarrow> bool" where
  "arena_ok m a \<longleftrightarrow> (\<forall>blk \<in> set (a_blocks a). block_ok m blk) \<and>
     distinct (map blk_data (a_blocks a)) \<and> length (a_blocks a) \<le> a_blocks_cap a \<and>
     a_blocks_cap a \<le> SIZE_MAX div sizeof_arena_block"

text \<open>A chunk is owned when it lies below the cursor of one of the slabs.\<close>

definition owned :: "dtl_arena \<Rightarrow> addr \<Rightarrow> nat \<Rightarrow> bool" where
  "owned a p n \<longleftrightarrow> (\<exists>blk \<in> set (a_blocks a). fst p = blk_data blk \<and> snd p + n \<le> blk_used blk)"

definition arena_blocks :: "dtl_arena \<Rightarrow> nat set" where
  "arena_blocks a = blk_data ` set (a_blocks a)"

lemma arena_init_ok: "arena_ok m (dtl_arena_init n)"
  by (simp add: arena_ok_def dtl_arena_init_def)

lemma block_ok_malloc:
  "mem_ok m \<Longrightarrow> c_malloc m n = (p, m') \<Longrightarrow> block_ok m blk \<Longrightarrow> block_ok m' blk"
  by (auto simp: block_ok_def dest: c_malloc_live)

lemma arena_ok_malloc:
  "mem_ok m \<Longrightarrow> c_malloc m n = (p, m') \<Longrightarrow> arena_ok m a \<Longrightarrow> arena_ok m' a"
  by (auto simp: arena_ok_def dest: block_ok_malloc)

lemma arena_ok_store:
  assumes "store_bytes m p bs = Ok m'" "arena_ok m a"
  shows "arena_ok m' a"
proof -
  have "block_ok m' blk" if "block_ok m blk" for blk
    using assms(1) that by (auto simp: block_ok_def store_bytes_def split: option.splits if_splits)
  with assms(2) show ?thesis by (auto simp: arena_ok_def)
qed

lemma owned_region_ok: "arena_ok m a \<Longrightarrow> owned a p n \<Longrightarrow> region_ok m p n"
  by (fastforce simp: owned_def arena_ok_def block_ok_def region_ok_def)

subsection \<open>Allocation\<close>

lemma reserve_slot_cases:
  assumes "dtl_arena_reserve_slot m a = (ok, a', m')" "mem_ok m"
  shows "mem_ok m' \<and> a_blocks a' = a_blocks a \<and> a_block_size a' = a_block_size a \<and>
    m_next m \<le> m_next m' \<and> m_oom m' = m_oom m \<and>
    (\<forall>b cs. m_objs m b = Some cs \<longrightarrow> m_objs m' b = Some cs)"
  using assms
  by (auto simp: dtl_arena_reserve_slot_def Let_def split: if_splits prod.splits option.splits
      dest: c_malloc_mem_ok c_malloc_live c_malloc_next c_malloc_oom)

lemma reserve_slot_room:
  assumes "dtl_arena_reserve_slot m a = (ok, a', m')" "arena_ok m a"
  shows "a_blocks_cap a' \<le> SIZE_MAX div sizeof_arena_block \<and> a_blocks_cap a \<le> a_blocks_cap a' \<and>
    (ok \<longrightarrow> length (a_blocks a') < a_blocks_cap a')"
proof (cases "length (a_blocks a) < a_blocks_cap a")
  case True
  with assms show ?thesis by (auto simp: dtl_arena_reserve_slot_def arena_ok_def)
next
  case False
  with assms(2) have eq: "length (a_blocks a) = a_blocks_cap a"
    and cap: "a_blocks_cap a \<le> SIZE_MAX div 24"
    by (simp_all add: arena_ok_def sizeof_arena_block_def)
  then have "a_blocks_cap a < (a_blocks_cap a * 2) mod 2 ^ 64" if "0 < a_blocks_cap a"
    using that by (simp add: SIZE_MAX_def)
  then show ?thesis
    using assms(1) False eq cap
    by (auto simp: dtl_arena_reserve_slot_def Let_def DTL_ARENA_MIN_BLOCKS_def sizeof_arena_block_def
        split: if_splits prod.splits option.splits)
qed

text \<open>What an allocation does, in the three ways it can go.\<close>

lemma arena_alloc_cases:
  assumes "dtl_arena_alloc m a n = (r, a', m')" "mem_ok m" "arena_ok m a"
  obtains (fail) "r = None" "a_blocks a' = a_blocks a"
  | (bump) blk bs where "a_blocks a = bs @ [blk]" "dtl_arena_align_up n \<noteq> 0"
      "blk_used blk + dtl_arena_align_up n \<le> blk_cap blk"
      "r = Some (blk_data blk, blk_used blk)"
      "a_blocks a' = bs @ [blk\<lparr>blk_used := blk_used blk + dtl_arena_align_up n\<rparr>]" "m' = m"
      "a_blocks_cap a' = a_blocks_cap a"
  | (slab) d cap where "dtl_arena_align_up n \<noteq> 0" "dtl_arena_align_up n \<le> cap" "r = Some (d, 0)"
      "a_blocks a' = a_blocks a @ [\<lparr>blk_data = d, blk_cap = cap, blk_used = dtl_arena_align_up n\<rparr>]"
      "m_objs m d = None" "m_next m \<le> d" "m_objs m' d = Some (replicate cap None)"
      "length (a_blocks a') \<le> a_blocks_cap a'"
proof (cases "n = 0 \<or> dtl_arena_align_up n = 0")
  case True
  with assms(1) show ?thesis by (intro fail) (auto simp: dtl_arena_alloc_def Let_def split: if_splits)
next
  case nz: False
  show ?thesis
  proof (cases "arena_last_fits a (dtl_arena_align_up n)")
    case True
    then have "a_blocks a = butlast (a_blocks a) @ [last (a_blocks a)]"
      by (simp add: arena_last_fits_def)
    moreover from this have "block_ok m (last (a_blocks a))"
      using assms(3) by (metis arena_ok_def in_set_conv_decomp)
    ultimately show ?thesis
      using True nz assms(1)
      by (intro bump [of "butlast (a_blocks a)" "last (a_blocks a)"])
        (auto simp: dtl_arena_alloc_def Let_def arena_last_fits_def block_ok_def)
  next
    case nofit: False
    obtain ok a1 m1 where rs: "dtl_arena_reserve_slot m a = (ok, a1, m1)"
      using prod_cases3 by blast
    note r1 = reserve_slot_cases [OF rs assms(2)] and r2 = reserve_slot_room [OF rs assms(3)]
    let ?cap = "if dtl_arena_align_up n > a_block_size a then dtl_arena_align_up n else a_block_size a"
    obtain q m2 where ml: "c_malloc m1 ?cap = (q, m2)"
      using prod.exhaust by blast
    show ?thesis
    proof (cases "ok \<and> q \<noteq> None")
      case True
      then obtain d where d: "q = Some d" by blast
      with c_malloc_fresh [of m1 ?cap d m2] ml r1 have d1: "m_objs m1 d = None" "d = m_next m1" by auto
      with r1 have "m_objs m d = None"
        by (cases "m_objs m d") auto
      with d1 True d rs ml nz nofit assms(1) r1 r2 c_malloc_obj [of m1 ?cap d m2] show ?thesis
        by (intro slab [of ?cap d]) (auto simp: dtl_arena_alloc_def Let_def split: option.splits)
    next
      case False
      with rs ml nz nofit assms(1) r1 show ?thesis
        by (intro fail) (auto simp: dtl_arena_alloc_def Let_def split: bool.splits)
    qed
  qed
qed

lemma arena_alloc_mem:
  assumes "dtl_arena_alloc m a n = (r, a', m')" "mem_ok m"
  shows "mem_ok m' \<and> m_next m \<le> m_next m' \<and> m_oom m' = m_oom m \<and>
    (\<forall>b cs. m_objs m b = Some cs \<longrightarrow> m_objs m' b = Some cs)"
proof -
  obtain ok a1 m1 where rs: "dtl_arena_reserve_slot m a = (ok, a1, m1)"
    using prod_cases3 by blast
  show ?thesis
    using assms reserve_slot_cases [OF rs assms(2)] rs
    by (auto simp: dtl_arena_alloc_def Let_def split: if_splits bool.splits prod.splits option.splits
        dest: c_malloc_mem_ok c_malloc_live c_malloc_next c_malloc_oom)
qed

lemma arena_alloc_ok:
  assumes "dtl_arena_alloc m a n = (r, a', m')" "mem_ok m" "arena_ok m a"
  shows "arena_ok m' a'"
proof -
  note mm = arena_alloc_mem [OF assms(1,2)]
  have keep: "block_ok m' blk" if "block_ok m blk" for blk
    using that mm by (auto simp: block_ok_def)
  have cap: "a_blocks_cap a' \<le> SIZE_MAX div sizeof_arena_block \<and> a_blocks_cap a \<le> a_blocks_cap a'"
    using assms reserve_slot_room [of m a]
    by (auto simp: dtl_arena_alloc_def Let_def arena_ok_def
        split: if_splits bool.splits prod.splits option.splits)
  from assms show ?thesis
  proof (cases rule: arena_alloc_cases)
    case fail
    with assms(3) keep cap show ?thesis by (auto simp: arena_ok_def)
  next
    case (bump blk bs)
    then show ?thesis
      using assms(3) align_up_dvd [of n] by (auto simp: arena_ok_def block_ok_def)
  next
    case (slab d cap')
    then have "d \<notin> blk_data ` set (a_blocks a)"
      using assms(3) by (auto simp: arena_ok_def block_ok_def)
    then show ?thesis
      using slab assms(3) keep cap align_up_dvd [of n] by (auto simp: arena_ok_def block_ok_def)
  qed
qed

lemma arena_alloc_owned_mono:
  assumes "dtl_arena_alloc m a n = (r, a', m')" "mem_ok m" "arena_ok m a" "owned a q k"
  shows "owned a' q k"
  using assms(1-3)
proof (cases rule: arena_alloc_cases)
  case (bump blk bs)
  with assms(4) show ?thesis by (auto simp: owned_def)
qed (use assms(4) in \<open>auto simp: owned_def\<close>)

lemma arena_alloc_Some:
  assumes "dtl_arena_alloc m a n = (Some p, a', m')" "mem_ok m" "arena_ok m a"
  shows "owned a' p n" and "16 dvd snd p" and "region_ok m' p n"
    and "owned a q k \<Longrightarrow> disjoint_regions p n q k"
    and "fst p \<in> arena_blocks a \<or> m_objs m (fst p) = None"
proof -
  show own: "owned a' p n"
    using assms
  proof (cases rule: arena_alloc_cases)
    case (bump blk bs)
    then show ?thesis using align_up_ge [of n] by (auto simp: owned_def)
  next
    case (slab d cap)
    then show ?thesis using align_up_ge [of n] by (auto simp: owned_def)
  qed auto
  show "region_ok m' p n"
    using owned_region_ok [OF arena_alloc_ok [OF assms] own] .
  show "16 dvd snd p" "fst p \<in> arena_blocks a \<or> m_objs m (fst p) = None"
    using assms
    by (cases rule: arena_alloc_cases; auto simp: arena_ok_def block_ok_def arena_blocks_def)+
  show "disjoint_regions p n q k" if "owned a q k"
    using assms
  proof (cases rule: arena_alloc_cases)
    case (bump blk bs)
    with that assms(3) show ?thesis
      by (auto simp: owned_def disjoint_regions_def arena_ok_def)
  next
    case (slab d cap)
    with that assms(3) show ?thesis
      by (auto simp: owned_def disjoint_regions_def arena_ok_def block_ok_def)
  qed auto
qed

lemma arena_alloc_load:
  assumes "dtl_arena_alloc m a n = (r, a', m')" "mem_ok m" "load_bytes m q k = Ok xs"
  shows "load_bytes m' q k = Ok xs"
  using assms(3) arena_alloc_mem [OF assms(1,2)]
  by (auto simp: load_bytes_def split: option.splits)

text \<open>With an environment that never refuses memory, only absurd requests fail.\<close>

lemma arena_alloc_succeeds:
  assumes "\<And>k s. \<not> m_oom m k s" and "0 < n" and "n \<le> SIZE_MAX - 15"
    and "a_blocks_cap a * 2 \<le> SIZE_MAX div sizeof_arena_block"
  shows "\<exists>p a' m'. dtl_arena_alloc m a n = (Some p, a', m')"
proof -
  have "dtl_arena_align_up n \<noteq> 0"
    using assms by (simp add: align_up_zero)
  moreover have "\<exists>a' m'. dtl_arena_reserve_slot m a = (True, a', m') \<and> m_oom m' = m_oom m"
    using assms(1,4)
    by (auto simp: dtl_arena_reserve_slot_def Let_def c_malloc_def sizeof_arena_block_def
        DTL_ARENA_MIN_BLOCKS_def SIZE_MAX_def)
  ultimately show ?thesis
    using assms(1,2) by (auto simp: dtl_arena_alloc_def Let_def c_malloc_def)
qed

subsection \<open>Release\<close>

lemma c_free_all_Ok:
  "distinct bs \<Longrightarrow> \<forall>b \<in> set bs. m_objs m b \<noteq> None \<Longrightarrow>
   \<exists>m'. c_free_all bs m = Ok m' \<and> (\<forall>b. m_objs m' b = (if b \<in> set bs then None else m_objs m b)) \<and>
     m_next m' = m_next m \<and> m_oom m' = m_oom m"
proof (induction bs arbitrary: m)
  case (Cons b bs)
  let ?m = "m\<lparr>m_objs := (m_objs m)(b := None)\<rparr>"
  have fr: "c_free m (Some b) = Ok ?m"
    using Cons.prems by (auto simp: c_free_def split: option.splits)
  have "\<exists>m'. c_free_all bs ?m = Ok m' \<and> (\<forall>b. m_objs m' b = (if b \<in> set bs then None else m_objs ?m b)) \<and>
     m_next m' = m_next ?m \<and> m_oom m' = m_oom ?m"
    by (rule Cons.IH) (use Cons.prems in auto)
  then show ?case
    using fr Cons.prems by auto
qed simp

lemma arena_free_Ok:
  assumes "arena_ok m a"
  obtains m' where "dtl_arena_free m a = Ok (a\<lparr>a_blocks := [], a_blocks_cap := 0\<rparr>, m')"
    and "\<And>b. m_objs m' b = (if b \<in> arena_blocks a then None else m_objs m b)"
    and "m_next m' = m_next m" and "m_oom m' = m_oom m"
proof -
  have "\<forall>b \<in> set (map blk_data (a_blocks a)). m_objs m b \<noteq> None"
    using assms by (auto simp: arena_ok_def block_ok_def)
  moreover have "distinct (map blk_data (a_blocks a))"
    using assms by (simp add: arena_ok_def)
  ultimately obtain m' where "c_free_all (map blk_data (a_blocks a)) m = Ok m'"
    "\<forall>b. m_objs m' b = (if b \<in> set (map blk_data (a_blocks a)) then None else m_objs m b)"
    "m_next m' = m_next m" "m_oom m' = m_oom m"
    using c_free_all_Ok by blast
  then show thesis
    by (intro that [of m']) (auto simp: dtl_arena_free_def arena_blocks_def)
qed

lemma arena_reset_ok: "arena_ok m a \<Longrightarrow> arena_ok m (dtl_arena_reset a)"
  by (auto simp: arena_ok_def dtl_arena_reset_def block_ok_def comp_def)

subsection \<open>A private arena\<close>

text \<open>
  An arena a function sets up for itself and frees before it returns: its slabs are newer than every
  block of the heap \<open>m0\<close> the function started with, so freeing them leaves \<open>m0\<close> as it was.
\<close>

lemma reserve_slot_ext: "mem_ok m \<Longrightarrow> dtl_arena_reserve_slot m a = (ok, a', m') \<Longrightarrow> heap_ext m m'"
  by (auto simp: dtl_arena_reserve_slot_def Let_def split: if_splits prod.splits option.splits
      intro: heap_ext_malloc)

lemma arena_alloc_ext: "mem_ok m \<Longrightarrow> dtl_arena_alloc m a n = (r, a', m') \<Longrightarrow> heap_ext m m'"
  by (auto simp: dtl_arena_alloc_def Let_def split: if_splits bool.splits prod.splits option.splits
      dest!: reserve_slot_ext intro: heap_ext_trans heap_ext_malloc heap_ext_ok)

definition private_arena :: "mem \<Rightarrow> mem \<Rightarrow> dtl_arena \<Rightarrow> bool" where
  "private_arena m0 m a \<longleftrightarrow> heap_ext m0 m \<and> arena_ok m a \<and> (\<forall>d \<in> arena_blocks a. m_next m0 \<le> d)"

lemma private_arena_init: "mem_ok m \<Longrightarrow> private_arena m m (dtl_arena_init n)"
  using arena_init_ok [of m n] by (simp add: private_arena_def arena_blocks_def dtl_arena_init_def)

lemma private_arena_alloc:
  assumes "private_arena m0 m a" "dtl_arena_alloc m a n = (r, a', m')"
  shows "private_arena m0 m' a'"
proof -
  have ok: "mem_ok m" "arena_ok m a" using assms(1) by (simp_all add: private_arena_def heap_ext_def)
  have "\<forall>d \<in> arena_blocks a'. m_next m0 \<le> d"
    using assms(2) ok
  proof (cases rule: arena_alloc_cases)
    case (slab d cap)
    then show ?thesis using assms(1) by (auto simp: private_arena_def arena_blocks_def heap_ext_def)
  qed (use assms(1) in \<open>auto simp: private_arena_def arena_blocks_def\<close>)
  with assms ok show ?thesis
    by (auto simp: private_arena_def intro: heap_ext_trans arena_alloc_ext arena_alloc_ok)
qed

lemma private_arena_free:
  assumes "private_arena m0 m a"
  shows "\<exists>a' m'. dtl_arena_free m a = Ok (a', m') \<and> heap_ext m0 m'"
proof -
  obtain m' where "dtl_arena_free m a = Ok (a\<lparr>a_blocks := [], a_blocks_cap := 0\<rparr>, m')"
    and "\<And>b. m_objs m' b = (if b \<in> arena_blocks a then None else m_objs m b)"
    and "m_next m' = m_next m" and "m_oom m' = m_oom m"
    using arena_free_Ok [of m a] assms unfolding private_arena_def by blast
  with assms show ?thesis by (auto simp: private_arena_def heap_ext_def mem_ok_def)
qed

end
