(* ===== verification/Format_Crc.thy ===== *)
theory Format_Crc
  imports Core_Err
begin

text \<open>
  \<^verbatim>\<open>src/format/crc.c\<close>: table-driven CRC-32.  The static table and its ready flag are the state
  \<open>crc_static\<close> (\<open>None\<close> before the first use).  The reference is the bit-at-a-time CRC; the
  table-driven routine is shown equal to it, and the reference to tell apart any two inputs of the
  same length that differ in one byte.
\<close>

definition DTL_CRC32_POLY :: u32 where
  "DTL_CRC32_POLY = 0xEDB88320"

type_synonym crc_static = "u32 list option"

text \<open>One step of the inner loop of the table builder.\<close>

definition crc_bit :: "u32 \<Rightarrow> u32" where
  "crc_bit c = (if c AND 1 \<noteq> 0 then DTL_CRC32_POLY XOR drop_bit 1 c else drop_bit 1 c)"

definition dtl_crc32_build_table :: "u32 list" where
  "dtl_crc32_build_table = map (\<lambda>n. (crc_bit ^^ 8) (of_nat n)) [0..<256]"

fun crc32_loop :: "u32 list \<Rightarrow> u8 list \<Rightarrow> u32 \<Rightarrow> u32 res" where
  "crc32_loop tbl [] crc = Ok crc"
| "crc32_loop tbl (d # ds) crc =
     rbind (byte_at tbl (unat ((crc XOR ucast d) AND 0xFF)))
       (\<lambda>t. crc32_loop tbl ds (t XOR drop_bit 8 crc))"

definition dtl_crc32_st :: "crc_static \<Rightarrow> u8 list \<Rightarrow> u32 res \<times> crc_static" where
  "dtl_crc32_st st data =
     (let tbl = (case st of None \<Rightarrow> dtl_crc32_build_table | Some t \<Rightarrow> t)
      in (rbind (crc32_loop tbl data 0xFFFFFFFF) (\<lambda>crc. Ok (crc XOR 0xFFFFFFFF)), Some tbl))"

text \<open>The value of a call, which does not depend on whether the table was built before.\<close>

definition dtl_crc32 :: "u8 list \<Rightarrow> u32 res" where
  "dtl_crc32 data = fst (dtl_crc32_st None data)"

subsection \<open>The bit-at-a-time reference\<close>

definition crc_byte :: "u32 \<Rightarrow> u8 \<Rightarrow> u32" where
  "crc_byte crc d = (crc_bit ^^ 8) (crc XOR ucast d)"

definition crc32_ref :: "u8 list \<Rightarrow> u32" where
  "crc32_ref data = foldl crc_byte 0xFFFFFFFF data XOR 0xFFFFFFFF"

lemma and_1_neq_0: "(c :: u32) AND 1 \<noteq> 0 \<longleftrightarrow> bit c 0"
  by (simp add: and_one_eq odd_iff_mod_2_eq_one bit_0)

lemma crc_bit_alt: "crc_bit c = (if bit c 0 then DTL_CRC32_POLY XOR drop_bit 1 c else drop_bit 1 c)"
  by (simp only: crc_bit_def and_1_neq_0)

lemma drop_bit_xor_word: "drop_bit n (x XOR y :: u32) = drop_bit n x XOR drop_bit n y"
  by (intro bit_word_eqI) (auto simp: bit_simps)

lemma crc_bit_xor: "crc_bit (x XOR y) = crc_bit x XOR crc_bit y"
  by (auto simp: crc_bit_alt bit_xor_iff drop_bit_xor_word xor.left_commute xor.commute xor.assoc)

lemma crc_bits_xor: "(crc_bit ^^ n) (x XOR y) = (crc_bit ^^ n) x XOR (crc_bit ^^ n) y"
  by (induction n arbitrary: x y) (simp_all add: crc_bit_xor)

lemma crc_bits_shift: "take_bit n x = 0 \<Longrightarrow> (crc_bit ^^ n) x = drop_bit n x"
proof (induction n)
  case (Suc n)
  have n0: "\<not> bit x k" if "k < Suc n" for k
    using Suc.prems that by (metis bit_0_eq bit_take_bit_iff bot_apply bot_bool_def)
  then have "take_bit n x = 0"
    by (intro bit_word_eqI) (auto simp: bit_take_bit_iff)
  with Suc.IH have "(crc_bit ^^ Suc n) x = crc_bit (drop_bit n x)" by simp
  also have "\<not> bit (drop_bit n x) 0" using n0 [of n] by (simp add: bit_drop_bit_eq)
  then have "crc_bit (drop_bit n x) = drop_bit (Suc n) x"
    by (simp only: crc_bit_alt if_False drop_bit_drop_bit) simp
  finally show ?case .
qed simp

lemma crc_table_step:
  "(crc_bit ^^ 8) (x AND 0xFF) XOR drop_bit 8 x = (crc_bit ^^ 8) x"
proof -
  have m: "x AND 0xFF = take_bit 8 x"
    by (simp add: take_bit_eq_mask mask_eq_exp_minus_1)
  have split: "x = take_bit 8 x XOR push_bit 8 (drop_bit 8 x)"
    by (intro bit_word_eqI) (auto simp: bit_simps)
  have "take_bit 8 (push_bit 8 (drop_bit 8 x)) = 0"
    by (intro bit_word_eqI) (auto simp: bit_simps)
  then have "(crc_bit ^^ 8) (push_bit 8 (drop_bit 8 x)) = drop_bit 8 x"
    using crc_bits_shift [of 8 "push_bit 8 (drop_bit 8 x)"]
    by (simp only:) (intro bit_word_eqI, auto simp: bit_simps dest: bit_imp_le_length)
  then show ?thesis
    using arg_cong [OF split, of "crc_bit ^^ 8"] by (simp add: crc_bits_xor m)
qed

lemma crc_index_bound: "unat ((x :: u32) AND 0xFF) < 256"
proof -
  have "x AND 0xFF \<le> 0xFF" by (rule word_and_le1)
  then show ?thesis by (simp add: word_le_nat_alt)
qed

lemma crc_table_nth: "i < 256 \<Longrightarrow> dtl_crc32_build_table ! i = (crc_bit ^^ 8) (of_nat i)"
  by (simp add: dtl_crc32_build_table_def)

lemma drop_8_xor_ucast: "drop_bit 8 (crc XOR ucast (d :: u8)) = drop_bit 8 (crc :: u32)"
  by (intro bit_word_eqI) (auto simp: bit_simps dest: bit_imp_le_length)

lemma crc32_loop_eq:
  "crc32_loop dtl_crc32_build_table data crc = Ok (foldl crc_byte crc data)"
proof (induction data arbitrary: crc)
  case (Cons d ds)
  let ?x = "crc XOR ucast d" and ?i = "unat ((crc XOR ucast d) AND 0xFF)"
  have len: "length dtl_crc32_build_table = 256" by (simp add: dtl_crc32_build_table_def)
  have "dtl_crc32_build_table ! ?i = (crc_bit ^^ 8) (?x AND 0xFF)"
    using crc_table_nth [OF crc_index_bound [of ?x]] by simp
  then have "dtl_crc32_build_table ! ?i XOR drop_bit 8 crc = crc_byte crc d"
    using crc_table_step [of ?x] by (simp only: crc_byte_def drop_8_xor_ucast)
  then show ?case
    using Cons.IH crc_index_bound [of ?x] by (simp add: byte_at_def len)
qed simp

lemma dtl_crc32_eq_ref: "dtl_crc32 data = Ok (crc32_ref data)"
  by (simp add: dtl_crc32_def dtl_crc32_st_def crc32_loop_eq crc32_ref_def)

lemma dtl_crc32_st_cached:
  "fst (dtl_crc32_st (snd (dtl_crc32_st None xs)) data) = dtl_crc32 data"
  by (simp add: dtl_crc32_def dtl_crc32_st_def)

subsection \<open>Detection of a changed byte\<close>

lemma crc_bit_inj: "crc_bit x = crc_bit y \<Longrightarrow> x = y"
proof -
  have top: "bit (crc_bit c) 31 \<longleftrightarrow> bit c 0" for c
    by (auto simp: crc_bit_alt DTL_CRC32_POLY_def bit_simps dest: bit_imp_le_length)
  assume eq: "crc_bit x = crc_bit y"
  with top have b0: "bit x 0 \<longleftrightarrow> bit y 0" by metis
  then have "drop_bit 1 x = drop_bit 1 y"
    using eq by (auto simp: crc_bit_alt split: if_splits)
  then have hi: "bit x (Suc n) \<longleftrightarrow> bit y (Suc n)" for n
    by (metis bit_drop_bit_eq comp_apply plus_1_eq_Suc)
  show "x = y"
    by (intro bit_word_eqI) (metis b0 hi old.nat.exhaust)
qed

lemma crc_bits_inj: "(crc_bit ^^ n) x = (crc_bit ^^ n) y \<Longrightarrow> x = y"
  by (induction n) (auto dest: crc_bit_inj)

lemma crc_byte_inj_state: "crc_byte c d = crc_byte c' d \<Longrightarrow> c = c'"
  by (auto simp: crc_byte_def dest!: crc_bits_inj)

lemma crc_byte_inj_byte:
  assumes "crc_byte c a = crc_byte c b"
  shows "a = b"
proof -
  have "c XOR ucast a = c XOR ucast b"
    using assms by (auto simp: crc_byte_def dest: crc_bits_inj)
  then have "(ucast a :: u32) = ucast b"
    by (simp only: xor_word_left_cancel)
  then show ?thesis by (rule ucast_u8_u32_inj)
qed

lemma crc_fold_inj: "foldl crc_byte c ds = foldl crc_byte c' ds \<Longrightarrow> c = c'"
  by (induction ds arbitrary: c c') (auto dest: crc_byte_inj_state)

lemma crc32_ref_one_byte: "crc32_ref (xs @ a # ys) = crc32_ref (xs @ b # ys) \<Longrightarrow> a = b"
proof -
  assume "crc32_ref (xs @ a # ys) = crc32_ref (xs @ b # ys)"
  then have "foldl crc_byte (crc_byte (foldl crc_byte 0xFFFFFFFF xs) a) ys
      = foldl crc_byte (crc_byte (foldl crc_byte 0xFFFFFFFF xs) b) ys"
    by (simp add: crc32_ref_def)
  then show "a = b" by (blast dest: crc_fold_inj crc_byte_inj_byte)
qed

end
