(* ===== verification/Format_Container.thy ===== *)
theory Format_Container
  imports Core_Buf Core_Arena Format_Crc
begin

text \<open>
  \<^verbatim>\<open>src/format/container.c\<close>: the container parser.  Pointers into the input buffer (a section's
  blob, the HMAC trailer) are offsets from the start of that buffer.  The section array is allocated
  from the caller's arena.
\<close>

definition DTL_MAGIC :: u32 where "DTL_MAGIC = 0x014C5444"
definition DTL_VERSION :: u8 where "DTL_VERSION = 1"
definition DTL_FLAG_HAS_HMAC :: u8 where "DTL_FLAG_HAS_HMAC = 0x01"
definition DTL_FLAGS_KNOWN :: u8 where "DTL_FLAGS_KNOWN = DTL_FLAG_HAS_HMAC"
definition DTL_HMAC_LEN :: nat where "DTL_HMAC_LEN = 32"
definition DTL_SECTION_MAX_RAW :: nat where "DTL_SECTION_MAX_RAW = 64 * 1024 * 1024"
definition DTL_HEADER_CRC_SPAN :: nat where "DTL_HEADER_CRC_SPAN = 8"

record dtl_section =
  sec_type :: u16
  sec_codec_id :: u8
  sec_raw_len :: u32
  sec_comp_len :: u32
  sec_offset :: u32
  sec_blob :: "nat option"

text \<open>\<open>sizeof(dtl_section)\<close> on a 64-bit platform.\<close>

definition sizeof_dtl_section :: nat where "sizeof_dtl_section = 24"

record dtl_container =
  cont_version :: u8
  cont_flags :: u8
  cont_section_count :: u16
  cont_sections :: "dtl_section list"
  cont_hmac :: "nat option"

text \<open>The body of the table loop: one 16-byte entry.\<close>

definition read_section_entry :: "dtl_buf \<Rightarrow> (dtl_section \<times> dtl_buf) res" where
  "read_section_entry b =
     rbind (dtl_buf_read_u16 b) (\<lambda>(type, b).
     rbind (dtl_buf_read_u8 b) (\<lambda>(codec_id, b).
     rbind (dtl_buf_read_u8 b) (\<lambda>(reserved, b).
     if reserved \<noteq> 0 then Err DTL_ERR_BADRECORD else
     rbind (dtl_buf_read_u32 b) (\<lambda>(raw_len, b).
     rbind (dtl_buf_read_u32 b) (\<lambda>(comp_len, b).
     rbind (dtl_buf_read_u32 b) (\<lambda>(offset, b).
     Ok (\<lparr>sec_type = type, sec_codec_id = codec_id, sec_raw_len = raw_len, sec_comp_len = comp_len,
          sec_offset = offset, sec_blob = None\<rparr>, b)))))))"

fun read_table_loop :: "nat \<Rightarrow> dtl_buf \<Rightarrow> (dtl_section list \<times> dtl_buf) res" where
  "read_table_loop 0 b = Ok ([], b)"
| "read_table_loop (Suc n) b =
     rbind (read_section_entry b) (\<lambda>(s, b).
     rbind (read_table_loop n b) (\<lambda>(ss, b). Ok (s # ss, b)))"

definition dtl_container_read_table ::
  "mem \<Rightarrow> dtl_arena \<Rightarrow> dtl_buf \<Rightarrow> u16 \<Rightarrow> (dtl_section list \<times> dtl_buf) res \<times> dtl_arena \<times> mem" where
  "dtl_container_read_table m a b count =
     (if count = 0 then (Ok ([], b), a, m)
      else case dtl_arena_alloc m a (unat count * sizeof_dtl_section) of
             (None, a, m) \<Rightarrow> (Err DTL_ERR_OOM, a, m)
           | (Some _, a, m) \<Rightarrow> (read_table_loop (unat count) b, a, m))"

fun total_comp :: "dtl_section list \<Rightarrow> nat \<Rightarrow> nat res" where
  "total_comp [] tot = Ok tot"
| "total_comp (s # ss) tot =
     (if tot > SIZE_MAX - unat (sec_comp_len s) then Err DTL_ERR_RANGE
      else total_comp ss (tot + unat (sec_comp_len s)))"

fun resolve_loop :: "dtl_section list \<Rightarrow> nat \<Rightarrow> nat \<Rightarrow> dtl_section list res" where
  "resolve_loop [] blob_base blob_len = Ok []"
| "resolve_loop (s # ss) blob_base blob_len =
     (let raw = unat (sec_raw_len s); comp = unat (sec_comp_len s); off = unat (sec_offset s)
      in if raw = 0 \<or> raw > DTL_SECTION_MAX_RAW then Err DTL_ERR_RANGE
         else if comp > blob_len then Err DTL_ERR_RANGE
         else if off > size_sub blob_len comp then Err DTL_ERR_RANGE
         else rbind (resolve_loop ss blob_base blob_len)
                (\<lambda>ss'. Ok (s\<lparr>sec_blob := Some (blob_base + off)\<rparr> # ss')))"

definition dtl_container_resolve_blobs :: "dtl_section list \<Rightarrow> nat \<Rightarrow> nat \<Rightarrow> dtl_section list res" where
  "dtl_container_resolve_blobs secs blob_base blob_len =
     rbind (total_comp secs 0) (\<lambda>tot.
       if tot > blob_len then Err DTL_ERR_RANGE
       else resolve_loop secs blob_base blob_len)"

text \<open>The 12-byte header: \<open>(version, flags, section_count)\<close> and the reader behind it.\<close>

definition parse_header :: "dtl_buf \<Rightarrow> ((u8 \<times> u8 \<times> u16) \<times> dtl_buf) res" where
  "parse_header b0 =
     rbind (dtl_buf_read_u32 b0) (\<lambda>(magic, b).
     if magic \<noteq> DTL_MAGIC then Err DTL_ERR_BADMAGIC else
     rbind (dtl_buf_read_u8 b) (\<lambda>(version, b).
     if version \<noteq> DTL_VERSION then Err DTL_ERR_BADVERSION else
     rbind (dtl_buf_read_u8 b) (\<lambda>(flags, b).
     if flags AND NOT DTL_FLAGS_KNOWN \<noteq> 0 then Err DTL_ERR_BADHEADER else
     rbind (dtl_buf_read_u16 b) (\<lambda>(section_count, b).
     rbind (dtl_buf_read_u32 b) (\<lambda>(stored_crc, b).
     rbind (slice_at (buf_p b) (buf_pos b0) DTL_HEADER_CRC_SPAN) (\<lambda>hdr.
     rbind (dtl_crc32 hdr) (\<lambda>computed_crc.
     if computed_crc \<noteq> stored_crc then Err DTL_ERR_BADHEADER
     else Ok ((version, flags, section_count), b))))))))"

text \<open>Locating the blob region and the trailer: \<open>(blob_len, hmac)\<close>.\<close>

definition locate_blobs :: "dtl_buf \<Rightarrow> u8 \<Rightarrow> (nat \<times> nat option) res" where
  "locate_blobs b flags =
     (let tail = size_sub (buf_len b) (buf_pos b)
      in if flags AND DTL_FLAG_HAS_HMAC \<noteq> 0 then
           (if tail < DTL_HMAC_LEN then Err DTL_ERR_TRUNCATED
            else Ok (size_sub tail DTL_HMAC_LEN, Some (size_sub (buf_len b) DTL_HMAC_LEN)))
         else Ok (tail, None))"

definition dtl_container_parse ::
  "mem \<Rightarrow> dtl_arena \<Rightarrow> dtl_buf \<Rightarrow> dtl_container res \<times> dtl_arena \<times> mem" where
  "dtl_container_parse m a b0 =
     (case parse_header b0 of
        Err e \<Rightarrow> (Err e, a, m) | Ub \<Rightarrow> (Ub, a, m)
      | Ok ((version, flags, section_count), b) \<Rightarrow>
     (case dtl_container_read_table m a b section_count of
        (Err e, a, m) \<Rightarrow> (Err e, a, m) | (Ub, a, m) \<Rightarrow> (Ub, a, m)
      | (Ok (sections, b), a, m) \<Rightarrow>
        (rbind (locate_blobs b flags) (\<lambda>(blob_len, hmac).
         rbind (dtl_container_resolve_blobs sections (buf_pos b) blob_len) (\<lambda>sections.
         Ok \<lparr>cont_version = version, cont_flags = flags, cont_section_count = section_count,
             cont_sections = sections, cont_hmac = hmac\<rparr>)), a, m)))"

subsection \<open>Wire forms\<close>

definition section_entry_bytes :: "dtl_section \<Rightarrow> u8 list" where
  "section_entry_bytes s =
     dtl_endian_write_u16le (sec_type s) @ [sec_codec_id s] @ [0] @
     dtl_endian_write_u32le (sec_raw_len s) @ dtl_endian_write_u32le (sec_comp_len s) @
     dtl_endian_write_u32le (sec_offset s)"

definition header8 :: "u8 \<Rightarrow> u8 \<Rightarrow> u16 \<Rightarrow> u8 list" where
  "header8 version flags count =
     dtl_endian_write_u32le DTL_MAGIC @ [version] @ [flags] @ dtl_endian_write_u16le count"

definition header_bytes :: "u8 \<Rightarrow> u8 \<Rightarrow> u16 \<Rightarrow> u8 list" where
  "header_bytes version flags count =
     header8 version flags count @ dtl_endian_write_u32le (crc32_ref (header8 version flags count))"

lemma length_header8 [simp]: "length (header8 v f c) = 8"
  by (simp add: header8_def)

lemma length_header_bytes [simp]: "length (header_bytes v f c) = 12"
  by (simp add: header_bytes_def)

lemma length_section_entry [simp]: "length (section_entry_bytes s) = 16"
  by (simp add: section_entry_bytes_def)

subsection \<open>The header\<close>

lemma parse_header_Ok:
  assumes "buf_ok b0" "parse_header b0 = Ok ((version, flags, count), b)"
  shows "consumes b0 b (header_bytes version flags count)"
    and "version = DTL_VERSION" and "flags AND NOT DTL_FLAGS_KNOWN = 0"
proof -
  obtain b1 b2 b3 b4 crc where
    1: "dtl_buf_read_u32 b0 = Ok (DTL_MAGIC, b1)" and 2: "dtl_buf_read_u8 b1 = Ok (version, b2)"
    and 3: "dtl_buf_read_u8 b2 = Ok (flags, b3)" and 4: "dtl_buf_read_u16 b3 = Ok (count, b4)"
    and 5: "dtl_buf_read_u32 b4 = Ok (crc, b)"
    and sl: "rbind (slice_at (buf_p b) (buf_pos b0) DTL_HEADER_CRC_SPAN) dtl_crc32 = Ok crc"
    and v: "version = DTL_VERSION" and f: "flags AND NOT DTL_FLAGS_KNOWN = 0"
    using assms(2) by (auto simp: parse_header_def rbind_eq_Ok_iff split: if_splits)
  note c1 = rd_u32.consumed [OF assms(1) 1]
  note c2 = rd_u8.consumed [OF consumes_ok [OF c1] 2]
  note c3 = rd_u8.consumed [OF consumes_ok [OF c2] 3]
  note c4 = rd_u16.consumed [OF consumes_ok [OF c3] 4]
  note c5 = rd_u32.consumed [OF consumes_ok [OF c4] 5]
  have c: "consumes b0 b (header8 version flags count @ dtl_endian_write_u32le crc)"
    using consumes_trans [OF c1 consumes_trans [OF c2 consumes_trans [OF c3 consumes_trans [OF c4 c5]]]]
    by (simp add: header8_def)
  have rest: "drop (buf_pos b0) (buf_p b0)
      = header8 version flags count @ dtl_endian_write_u32le crc @ buf_rest b" and "buf_p b = buf_p b0"
    using consumes_rest [OF c] consumes_pos [OF c] by (simp_all add: buf_rest_def)
  then have "crc = crc32_ref (header8 version flags count)"
    using sl by (auto simp: slice_at_def DTL_HEADER_CRC_SPAN_def rbind_eq_Ok_iff dtl_crc32_eq_ref
        split: if_splits)
  with c show "consumes b0 b (header_bytes version flags count)" by (simp add: header_bytes_def)
  from v f show "version = DTL_VERSION" "flags AND NOT DTL_FLAGS_KNOWN = 0" by simp_all
qed

lemma parse_header_written:
  assumes "buf_ok b0" "buf_rest b0 = header_bytes DTL_VERSION flags count @ r"
    and "flags AND NOT DTL_FLAGS_KNOWN = 0"
  shows "parse_header b0 = Ok ((DTL_VERSION, flags, count), buf_adv b0 12)"
proof -
  have ok: "buf_ok (buf_adv b0 n)" if "n \<le> 12" for n
    using that assms(1,2) by simp
  have 1: "dtl_buf_read_u32 b0 = Ok (DTL_MAGIC, buf_adv b0 4)"
    using assms by (intro rd_u32.read_written) (auto simp: header_bytes_def header8_def)
  have 2: "dtl_buf_read_u8 (buf_adv b0 4) = Ok (DTL_VERSION, buf_adv (buf_adv b0 4) 1)"
    using assms ok by (intro rd_u8.read_written) (auto simp: header_bytes_def header8_def)
  have 3: "dtl_buf_read_u8 (buf_adv b0 5) = Ok (flags, buf_adv (buf_adv b0 5) 1)"
    using assms ok by (intro rd_u8.read_written) (auto simp: header_bytes_def header8_def)
  have 4: "dtl_buf_read_u16 (buf_adv b0 6) = Ok (count, buf_adv (buf_adv b0 6) 2)"
    using assms ok by (intro rd_u16.read_written) (auto simp: header_bytes_def header8_def)
  have 5: "dtl_buf_read_u32 (buf_adv b0 8)
      = Ok (crc32_ref (header8 DTL_VERSION flags count), buf_adv (buf_adv b0 8) 4)"
    using assms ok by (intro rd_u32.read_written) (auto simp: header_bytes_def header8_def)
  have "(slice_at (buf_p b0) (buf_pos b0) 8 :: u8 list res) = Ok (header8 DTL_VERSION flags count)"
    using assms buf_rest_length [OF assms(1)]
    by (simp add: slice_at_def buf_rest_def header_bytes_def buf_len_def)
  with 1 2 3 4 5 assms(3) show ?thesis
    by (simp add: parse_header_def DTL_HEADER_CRC_SPAN_def dtl_crc32_eq_ref)
qed

lemma parse_header_safe:
  assumes "buf_ok b0" shows "parse_header b0 \<noteq> Ub"
proof -
  have "(slice_at (buf_p b0) (buf_pos b0) DTL_HEADER_CRC_SPAN :: u8 list res) \<noteq> Ub"
    if "buf_ok (buf_adv b0 12)"
    using that by (simp add: slice_at_def DTL_HEADER_CRC_SPAN_def buf_ok_def buf_len_def)
  with assms show ?thesis
    by (auto simp: parse_header_def rbind_eq_Ub_iff dtl_crc32_eq_ref split: if_splits
        elim: buf_unsafeE dest!: buf_next)
qed

lemma parse_header_next: "buf_ok b0 \<Longrightarrow> parse_header b0 = Ok (h, b) \<Longrightarrow> buf_ok b"
  by (cases h) (auto dest: parse_header_Ok(1) consumes_ok)

subsection \<open>The section table\<close>

lemma read_section_entry_safe: "buf_ok b \<Longrightarrow> read_section_entry b \<noteq> Ub"
  by (auto simp: read_section_entry_def rbind_eq_Ub_iff split: if_splits
      elim: buf_unsafeE dest!: buf_next)

lemma read_section_entry_Ok:
  assumes "buf_ok b" "read_section_entry b = Ok (s, b')"
  shows "consumes b b' (section_entry_bytes s)" and "sec_blob s = None"
proof -
  obtain b1 b2 b3 b4 b5 where
    1: "dtl_buf_read_u16 b = Ok (sec_type s, b1)" and 2: "dtl_buf_read_u8 b1 = Ok (sec_codec_id s, b2)"
    and 3: "dtl_buf_read_u8 b2 = Ok (0, b3)" and 4: "dtl_buf_read_u32 b3 = Ok (sec_raw_len s, b4)"
    and 5: "dtl_buf_read_u32 b4 = Ok (sec_comp_len s, b5)"
    and 6: "dtl_buf_read_u32 b5 = Ok (sec_offset s, b')" and 7: "sec_blob s = None"
    using assms(2) by (auto simp: read_section_entry_def rbind_eq_Ok_iff split: if_splits)
  note c1 = rd_u16.consumed [OF assms(1) 1]
  note c2 = rd_u8.consumed [OF consumes_ok [OF c1] 2]
  note c3 = rd_u8.consumed [OF consumes_ok [OF c2] 3]
  note c4 = rd_u32.consumed [OF consumes_ok [OF c3] 4]
  note c5 = rd_u32.consumed [OF consumes_ok [OF c4] 5]
  note c6 = rd_u32.consumed [OF consumes_ok [OF c5] 6]
  show "consumes b b' (section_entry_bytes s)"
    using consumes_trans [OF c1 consumes_trans [OF c2 consumes_trans [OF c3 consumes_trans
          [OF c4 consumes_trans [OF c5 c6]]]]]
    by (simp add: section_entry_bytes_def)
  show "sec_blob s = None" by (rule 7)
qed

lemma read_section_entry_written:
  assumes "buf_ok b" "buf_rest b = section_entry_bytes s @ r" "sec_blob s = None"
  shows "read_section_entry b = Ok (s, buf_adv b 16)"
proof -
  have ok: "buf_ok (buf_adv b n)" if "n \<le> 16" for n
    using that assms(1,2) by simp
  have 1: "dtl_buf_read_u16 b = Ok (sec_type s, buf_adv b 2)"
    using assms by (intro rd_u16.read_written) (auto simp: section_entry_bytes_def)
  have 2: "dtl_buf_read_u8 (buf_adv b 2) = Ok (sec_codec_id s, buf_adv (buf_adv b 2) 1)"
    using assms ok by (intro rd_u8.read_written) (auto simp: section_entry_bytes_def)
  have 3: "dtl_buf_read_u8 (buf_adv b 3) = Ok (0, buf_adv (buf_adv b 3) 1)"
    using assms ok by (intro rd_u8.read_written) (auto simp: section_entry_bytes_def)
  have 4: "dtl_buf_read_u32 (buf_adv b 4) = Ok (sec_raw_len s, buf_adv (buf_adv b 4) 4)"
    using assms ok by (intro rd_u32.read_written) (auto simp: section_entry_bytes_def)
  have 5: "dtl_buf_read_u32 (buf_adv b 8) = Ok (sec_comp_len s, buf_adv (buf_adv b 8) 4)"
    using assms ok by (intro rd_u32.read_written) (auto simp: section_entry_bytes_def)
  have 6: "dtl_buf_read_u32 (buf_adv b 12) = Ok (sec_offset s, buf_adv (buf_adv b 12) 4)"
    using assms ok by (intro rd_u32.read_written) (auto simp: section_entry_bytes_def)
  show ?thesis
    using 1 2 3 4 5 6 assms(3) by (simp add: read_section_entry_def)
qed

lemma read_table_loop_safe: "buf_ok b \<Longrightarrow> read_table_loop n b \<noteq> Ub"
proof (induction n arbitrary: b)
  case (Suc n)
  then show ?case
    using read_section_entry_safe [of b] read_section_entry_Ok(1) [of b]
    by (auto simp: rbind_eq_Ub_iff dest: consumes_ok)
qed simp

lemma read_table_loop_Ok:
  "buf_ok b \<Longrightarrow> read_table_loop n b = Ok (ss, b') \<Longrightarrow>
   consumes b b' (concat (map section_entry_bytes ss)) \<and> length ss = n \<and>
   (\<forall>s \<in> set ss. sec_blob s = None)"
proof (induction n arbitrary: b ss)
  case (Suc n)
  then obtain s b1 ss' where s: "read_section_entry b = Ok (s, b1)"
    and ss': "read_table_loop n b1 = Ok (ss', b')" and ss: "ss = s # ss'"
    by (auto simp: rbind_eq_Ok_iff)
  note c = read_section_entry_Ok [OF Suc.prems(1) s]
  with Suc.IH [OF consumes_ok [OF c(1)] ss'] ss show ?case
    by (auto intro: consumes_trans)
qed (simp add: consumes_refl)

lemma read_table_loop_written:
  "buf_ok b \<Longrightarrow> buf_rest b = concat (map section_entry_bytes ss) @ r \<Longrightarrow>
   \<forall>s \<in> set ss. sec_blob s = None \<Longrightarrow>
   read_table_loop (length ss) b = Ok (ss, buf_adv b (16 * length ss))"
proof (induction ss arbitrary: b)
  case (Cons s ss)
  have "read_section_entry b = Ok (s, buf_adv b 16)"
    using Cons.prems by (intro read_section_entry_written) auto
  moreover have "read_table_loop (length ss) (buf_adv b 16)
      = Ok (ss, buf_adv (buf_adv b 16) (16 * length ss))"
    using Cons.prems by (intro Cons.IH) auto
  ultimately show ?case by simp
qed (simp add: buf_adv_def)

subsection \<open>Blob resolution\<close>

text \<open>What a resolved section promises about its blob, for a blob region \<open>[base, base + len)\<close>.\<close>

definition section_in_range :: "nat \<Rightarrow> nat \<Rightarrow> dtl_section \<Rightarrow> bool" where
  "section_in_range base len s \<longleftrightarrow>
     0 < sec_raw_len s \<and> unat (sec_raw_len s) \<le> DTL_SECTION_MAX_RAW \<and>
     sec_blob s = Some (base + unat (sec_offset s)) \<and>
     unat (sec_offset s) + unat (sec_comp_len s) \<le> len"

definition bind_blob :: "nat \<Rightarrow> dtl_section \<Rightarrow> dtl_section" where
  "bind_blob base s = s\<lparr>sec_blob := Some (base + unat (sec_offset s))\<rparr>"

lemma bind_blob_simps [simp]:
  "sec_type (bind_blob base s) = sec_type s" "sec_codec_id (bind_blob base s) = sec_codec_id s"
  "sec_raw_len (bind_blob base s) = sec_raw_len s" "sec_comp_len (bind_blob base s) = sec_comp_len s"
  "sec_offset (bind_blob base s) = sec_offset s" "section_entry_bytes (bind_blob base s) = section_entry_bytes s"
  by (simp_all add: bind_blob_def section_entry_bytes_def)

lemma total_comp_safe: "total_comp ss tot \<noteq> Ub"
  by (induction ss tot rule: total_comp.induct) auto

lemma total_comp_Ok:
  "total_comp ss tot = Ok t \<Longrightarrow> t = tot + (\<Sum>s\<leftarrow>ss. unat (sec_comp_len s))"
  by (induction ss tot rule: total_comp.induct) (auto split: if_splits)

lemma total_comp_fits:
  "tot + (\<Sum>s\<leftarrow>ss. unat (sec_comp_len s)) \<le> SIZE_MAX \<Longrightarrow>
   total_comp ss tot = Ok (tot + (\<Sum>s\<leftarrow>ss. unat (sec_comp_len s)))"
  by (induction ss tot rule: total_comp.induct) auto

lemma resolve_loop_safe: "resolve_loop ss base len \<noteq> Ub"
  by (induction ss base len rule: resolve_loop.induct) (auto simp: Let_def rbind_eq_Ub_iff split: if_splits)

lemma resolve_loop_Ok_iff:
  "resolve_loop ss base len = Ok ss' \<longleftrightarrow>
   ss' = map (bind_blob base) ss \<and> (\<forall>s \<in> set ss'. section_in_range base len s)"
proof (induction ss arbitrary: ss')
  case (Cons s ss)
  have "section_in_range base len (bind_blob base s) \<longleftrightarrow>
      \<not> (unat (sec_raw_len s) = 0 \<or> unat (sec_raw_len s) > DTL_SECTION_MAX_RAW) \<and>
      \<not> unat (sec_comp_len s) > len \<and> \<not> unat (sec_offset s) > size_sub len (unat (sec_comp_len s))"
    by (auto simp: section_in_range_def bind_blob_def size_sub_def unat_eq_zero word_neq_0_conv
        simp flip: unat_gt_0)
  with Cons show ?case
    by (auto simp: Let_def rbind_eq_Ok_iff bind_blob_def)
qed auto

lemma locate_blobs_safe: "locate_blobs b flags \<noteq> Ub"
  by (simp add: locate_blobs_def Let_def)

lemma locate_blobs_Ok:
  "buf_ok b \<Longrightarrow> locate_blobs b flags = Ok (blob_len, hmac) \<Longrightarrow>
   (if flags AND DTL_FLAG_HAS_HMAC \<noteq> 0
    then hmac = Some (buf_pos b + blob_len) \<and> buf_pos b + blob_len + DTL_HMAC_LEN = buf_len b
    else hmac = None \<and> buf_pos b + blob_len = buf_len b)"
  by (auto simp: locate_blobs_def buf_ok_def DTL_HMAC_LEN_def Let_def split: if_splits)

lemma read_table_cases:
  assumes "dtl_container_read_table m a b count = (r, a', m')"
  shows "r = Err DTL_ERR_OOM \<or> r = read_table_loop (unat count) b"
  using assms by (auto simp: dtl_container_read_table_def split: if_splits prod.splits option.splits)

subsection \<open>The whole parser\<close>

text \<open>
  C1.  Parsing a container never reads outside the input buffer, whatever its bytes are, and
  whatever allocations fail: the result is a parsed container or an error code.
\<close>

theorem container_parse_safe:
  assumes "buf_ok b"
  shows "fst (dtl_container_parse m a b) \<noteq> Ub"
proof -
  have "fst (dtl_container_read_table m a b1 c) \<noteq> Ub" if "buf_ok b1" for b1 c
    using read_table_cases [of m a b1 c] read_table_loop_safe [OF that, of "unat c"]
    by (cases "dtl_container_read_table m a b1 c") auto
  moreover have "rbind (locate_blobs b1 f) (\<lambda>(n, h). rbind (dtl_container_resolve_blobs ss p n)
      (\<lambda>ss. Ok (g ss h))) \<noteq> Ub" for b1 f ss p and g :: "dtl_section list \<Rightarrow> nat option \<Rightarrow> dtl_container"
    by (auto simp: dtl_container_resolve_blobs_def rbind_eq_Ub_iff locate_blobs_safe total_comp_safe
        resolve_loop_safe split: if_splits)
  ultimately show ?thesis
    using parse_header_safe [OF assms] parse_header_next [OF assms]
    by (auto simp: dtl_container_parse_def split: result.splits prod.splits) (metis fst_conv)+
qed

lemma container_parse_safe_witness:
  "buf_ok (dtl_buf_init [0x44, 0x54, 0x4C]) \<and>
   fst (dtl_container_parse \<lparr>m_next = 0, m_objs = (\<lambda>_. None), m_oom = (\<lambda>_ _. True)\<rparr>
          (dtl_arena_init 64) (dtl_buf_init [0x44, 0x54, 0x4C])) \<noteq> Ub"
  using container_parse_safe [of "dtl_buf_init [0x44, 0x54, 0x4C]"] by simp

lemma container_parse_OkD:
  assumes "buf_ok b0" "dtl_container_parse m a b0 = (Ok c, a', m')"
  obtains b1 b2 ss blob_len where
    "parse_header b0 = Ok ((cont_version c, cont_flags c, cont_section_count c), b1)"
    "read_table_loop (unat (cont_section_count c)) b1 = Ok (ss, b2)"
    "locate_blobs b2 (cont_flags c) = Ok (blob_len, cont_hmac c)"
    "dtl_container_resolve_blobs ss (buf_pos b2) blob_len = Ok (cont_sections c)"
    "buf_ok b1" "buf_ok b2"
proof -
  obtain b1 where 1: "parse_header b0 = Ok ((cont_version c, cont_flags c, cont_section_count c), b1)"
    and *: "(case dtl_container_read_table m a b1 (cont_section_count c) of
        (Err e, a, m) \<Rightarrow> (Err e, a, m) | (Ub, a, m) \<Rightarrow> (Ub, a, m)
      | (Ok (sections, b), a, m) \<Rightarrow>
        (rbind (locate_blobs b (cont_flags c)) (\<lambda>(blob_len, hmac).
         rbind (dtl_container_resolve_blobs sections (buf_pos b) blob_len) (\<lambda>sections.
         Ok \<lparr>cont_version = cont_version c, cont_flags = cont_flags c,
             cont_section_count = cont_section_count c,
             cont_sections = sections, cont_hmac = hmac\<rparr>)), a, m)) = (Ok c, a', m')"
    using assms(2)
    by (auto simp: dtl_container_parse_def rbind_eq_Ok_iff split: result.splits prod.splits)
  then obtain ss b2 blob_len a1 m1 where
    2: "dtl_container_read_table m a b1 (cont_section_count c) = (Ok (ss, b2), a1, m1)" and
    3: "locate_blobs b2 (cont_flags c) = Ok (blob_len, cont_hmac c)" and
    4: "dtl_container_resolve_blobs ss (buf_pos b2) blob_len = Ok (cont_sections c)"
    by (cases c) (auto simp: rbind_eq_Ok_iff split: result.splits prod.splits)
  from read_table_cases [OF 2] have 5: "read_table_loop (unat (cont_section_count c)) b1 = Ok (ss, b2)"
    by simp
  have b1: "buf_ok b1" using parse_header_next [OF assms(1) 1] .
  have b2: "buf_ok b2" using read_table_loop_Ok [OF b1 5] by (blast intro: consumes_ok)
  show ?thesis using that 1 5 3 4 b1 b2 by blast
qed

text \<open>
  C2.  A container the parser accepts has the layout of the format: the input starts with the
  header (whose CRC is right), then the section table with one entry per section, then the blob
  region; the 32-byte trailer is the end of the input exactly when the header's flag says so.
  Every section's blob lies between the table and the trailer, no section claims a raw length of
  zero or above 64 MiB, and the compressed lengths together fit the blob region.
\<close>

theorem container_parse_layout:
  assumes "buf_ok b" and "dtl_container_parse m a b = (Ok c, a', m')"
  shows "\<exists>blobs trailer. buf_rest b =
      header_bytes (cont_version c) (cont_flags c) (cont_section_count c) @
      concat (map section_entry_bytes (cont_sections c)) @ blobs @ trailer \<and>
    cont_version c = DTL_VERSION \<and> length (cont_sections c) = unat (cont_section_count c) \<and>
    (if cont_flags c AND DTL_FLAG_HAS_HMAC \<noteq> 0
     then length trailer = 32 \<and> cont_hmac c = Some (buf_len b - 32) else trailer = [] \<and> cont_hmac c = None) \<and>
    (\<forall>s \<in> set (cont_sections c).
       section_in_range (buf_pos b + 12 + 16 * unat (cont_section_count c)) (length blobs) s) \<and>
    (\<Sum>s\<leftarrow>cont_sections c. unat (sec_comp_len s)) \<le> length blobs"
proof -
  obtain b1 b2 ss n where h: "parse_header b = Ok ((cont_version c, cont_flags c, cont_section_count c), b1)"
    and t: "read_table_loop (unat (cont_section_count c)) b1 = Ok (ss, b2)"
    and l: "locate_blobs b2 (cont_flags c) = Ok (n, cont_hmac c)"
    and r: "dtl_container_resolve_blobs ss (buf_pos b2) n = Ok (cont_sections c)"
    and ok: "buf_ok b1" "buf_ok b2"
    using container_parse_OkD [OF assms] .
  note hd = parse_header_Ok [OF assms(1) h]
  note tb = read_table_loop_Ok [OF ok(1) t]
  have cs: "consumes b b2 (header_bytes (cont_version c) (cont_flags c) (cont_section_count c) @
      concat (map section_entry_bytes ss))"
    using consumes_trans [OF hd(1)] tb by blast
  have rs: "cont_sections c = map (bind_blob (buf_pos b2)) ss"
    "\<forall>s \<in> set (cont_sections c). section_in_range (buf_pos b2) n s"
    "(\<Sum>s\<leftarrow>ss. unat (sec_comp_len s)) \<le> n"
    using r by (auto simp: dtl_container_resolve_blobs_def rbind_eq_Ok_iff resolve_loop_Ok_iff
        dest: total_comp_Ok split: if_splits)
  have entries: "length (concat (map section_entry_bytes ss)) = 16 * length ss" for ss
    by (induction ss) auto
  have pos: "buf_pos b2 = buf_pos b + 12 + 16 * unat (cont_section_count c)" "buf_len b2 = buf_len b"
    using consumes_pos [OF cs] tb by (auto simp: entries buf_len_def)
  note loc = locate_blobs_Ok [OF ok(2) l]
  have len: "n \<le> length (buf_rest b2)"
    using loc buf_rest_length [OF ok(2)] by (auto split: if_splits)
  have ent: "concat (map section_entry_bytes (cont_sections c)) = concat (map section_entry_bytes ss)"
    by (simp add: rs(1) comp_def)
  have "buf_rest b = header_bytes (cont_version c) (cont_flags c) (cont_section_count c) @
      concat (map section_entry_bytes (cont_sections c)) @ take n (buf_rest b2) @ drop n (buf_rest b2)"
    using consumes_rest [OF cs] ent by simp
  moreover have "length (cont_sections c) = unat (cont_section_count c)"
    using tb rs(1) by simp
  moreover have "(\<Sum>s\<leftarrow>cont_sections c. unat (sec_comp_len s)) \<le> length (take n (buf_rest b2))"
    using rs(1,3) len by (simp add: comp_def min_def)
  moreover have "if cont_flags c AND DTL_FLAG_HAS_HMAC \<noteq> 0
      then length (drop n (buf_rest b2)) = 32 \<and> cont_hmac c = Some (buf_len b - 32)
      else drop n (buf_rest b2) = [] \<and> cont_hmac c = None"
    using loc buf_rest_length [OF ok(2)] pos len by (auto simp: DTL_HMAC_LEN_def split: if_splits)
  moreover have "length (take n (buf_rest b2)) = n" using len by simp
  ultimately show ?thesis
    using hd(2) rs(2) pos(1) by (metis (no_types, lifting))
qed

subsection \<open>Written containers parse back\<close>

lemma resolve_blobs_fits:
  assumes "\<forall>s \<in> set ss. section_in_range base len (bind_blob base s)"
    and "(\<Sum>s\<leftarrow>ss. unat (sec_comp_len s)) \<le> len" and "len \<le> SIZE_MAX"
  shows "dtl_container_resolve_blobs ss base len = Ok (map (bind_blob base) ss)"
proof -
  have "total_comp ss 0 = Ok (\<Sum>s\<leftarrow>ss. unat (sec_comp_len s))"
    using total_comp_fits [of 0 ss] assms by simp
  moreover have "resolve_loop ss base len = Ok (map (bind_blob base) ss)"
    using assms(1) by (simp add: resolve_loop_Ok_iff)
  ultimately show ?thesis
    using assms(2) by (simp add: dtl_container_resolve_blobs_def)
qed

lemma locate_blobs_written:
  assumes "buf_ok b" "buf_rest b = blobs @ trailer"
    and "length trailer = (if flags AND DTL_FLAG_HAS_HMAC \<noteq> 0 then 32 else 0)"
  shows "locate_blobs b flags = Ok (length blobs,
    if flags AND DTL_FLAG_HAS_HMAC \<noteq> 0 then Some (buf_len b - 32) else None)"
proof -
  have "size_sub (buf_len b) (buf_pos b) = length blobs + length trailer"
    using buf_avail_rest [OF assms(1)] assms(2) by simp
  moreover have "length trailer \<le> buf_len b"
    using buf_rest_length [OF assms(1)] assms(2) by simp
  ultimately show ?thesis
    using assms(3) by (cases "flags AND DTL_FLAG_HAS_HMAC = 0") (simp_all add: locate_blobs_def DTL_HMAC_LEN_def)
qed

lemma container_parse_written:
  assumes b: "buf_ok b" "buf_len b \<le> SIZE_MAX" and rest: "buf_rest b = header_bytes DTL_VERSION flags count @
      concat (map section_entry_bytes ss) @ blobs @ trailer"
    and flags: "flags AND NOT DTL_FLAGS_KNOWN = 0" and ss: "length ss = unat count"
    "\<forall>s \<in> set ss. sec_blob s = None"
    and tr: "length trailer = (if flags AND DTL_FLAG_HAS_HMAC \<noteq> 0 then 32 else 0)"
    and base: "base = buf_pos b + 12 + 16 * length ss"
    and fits: "\<forall>s \<in> set ss. section_in_range base (length blobs) (bind_blob base s)"
    "(\<Sum>s\<leftarrow>ss. unat (sec_comp_len s)) \<le> length blobs"
  shows "(\<exists>a' m'. dtl_container_parse m a b =
      (Ok \<lparr>cont_version = DTL_VERSION, cont_flags = flags, cont_section_count = count,
           cont_sections = map (bind_blob base) ss,
           cont_hmac = (if flags AND DTL_FLAG_HAS_HMAC \<noteq> 0 then Some (buf_len b - 32) else None)\<rparr>, a', m'))
    \<or> count \<noteq> 0 \<and> fst (dtl_arena_alloc m a (unat count * sizeof_dtl_section)) = None \<and>
      fst (dtl_container_parse m a b) = Err DTL_ERR_OOM"
proof -
  have entries: "length (concat (map section_entry_bytes ss)) = 16 * length ss" for ss
    by (induction ss) auto
  have h: "parse_header b = Ok ((DTL_VERSION, flags, count), buf_adv b 12)"
    using parse_header_written [OF b(1) rest flags] .
  have ok1: "buf_ok (buf_adv b 12)" using parse_header_next [OF b(1) h] .
  have t: "read_table_loop (unat count) (buf_adv b 12) = Ok (ss, buf_adv (buf_adv b 12) (16 * length ss))"
    using read_table_loop_written [OF ok1 _ ss(2), of "blobs @ trailer"] rest ss(1) by simp
  have ok2: "buf_ok (buf_adv b (12 + 16 * length ss))"
    using read_table_loop_Ok [OF ok1 t] by (auto dest: consumes_ok)
  have "buf_rest (buf_adv b (12 + 16 * length ss)) = blobs @ trailer"
    using rest by (simp add: entries)
  from locate_blobs_written [OF ok2 this tr]
  have l: "locate_blobs (buf_adv b (12 + 16 * length ss)) flags = Ok (length blobs,
    if flags AND DTL_FLAG_HAS_HMAC \<noteq> 0 then Some (buf_len b - 32) else None)" by simp
  have "length blobs \<le> SIZE_MAX"
    using buf_rest_length [OF b(1)] rest b(2) by simp
  with fits have r: "dtl_container_resolve_blobs ss base (length blobs) = Ok (map (bind_blob base) ss)"
    by (intro resolve_blobs_fits)
  show ?thesis
  proof (cases "count = 0 \<or> fst (dtl_arena_alloc m a (unat count * sizeof_dtl_section)) \<noteq> None")
    case True
    then obtain a' m' where "dtl_container_read_table m a (buf_adv b 12) count
        = (Ok (ss, buf_adv b (12 + 16 * length ss)), a', m')"
      using t ss(1) by (cases "dtl_arena_alloc m a (unat count * sizeof_dtl_section)"; cases "count = 0")
        (auto simp: dtl_container_read_table_def)
    then show ?thesis
      using h l r base by (simp add: dtl_container_parse_def add.assoc)
  next
    case False
    then obtain a' m' where "dtl_arena_alloc m a (unat count * sizeof_dtl_section) = (None, a', m')"
      by (metis prod.collapse)
    then show ?thesis
      using h False by (simp add: dtl_container_parse_def dtl_container_read_table_def)
  qed
qed

lemma container_parse_empty:
  "\<exists>a' m'. dtl_container_parse m a (dtl_buf_init (header_bytes DTL_VERSION 0 0)) =
     (Ok \<lparr>cont_version = DTL_VERSION, cont_flags = 0, cont_section_count = 0, cont_sections = [],
          cont_hmac = None\<rparr>, a', m')"
  using container_parse_written [of "dtl_buf_init (header_bytes DTL_VERSION 0 0)" 0 0 "[]" "[]" "[]" 12 m a]
  by (simp add: buf_len_def SIZE_MAX_def)

lemma container_parse_layout_witness:
  "\<exists>(c :: dtl_container) blobs trailer. header_bytes DTL_VERSION 0 0 =
      header_bytes (cont_version c) (cont_flags c) (cont_section_count c) @
      concat (map section_entry_bytes (cont_sections c)) @ blobs @ trailer"
proof -
  obtain c a' m' where "dtl_container_parse \<lparr>m_next = 0, m_objs = (\<lambda>_. None), m_oom = (\<lambda>_ _. False)\<rparr>
      (dtl_arena_init 64) (dtl_buf_init (header_bytes DTL_VERSION 0 0)) = (Ok c, a', m')"
    using container_parse_empty by blast
  from container_parse_layout [OF buf_init_ok(1) this] show ?thesis
    unfolding buf_init_ok by (elim exE conjE) (intro exI, assumption)
qed

subsection \<open>Corruption of the header\<close>

lemma header_bytes_split:
  assumes "header_bytes v f c = xs @ x # ys" "length xs < 8"
  shows "header8 v f c = xs @ x # take (7 - length xs) ys"
    and "dtl_endian_write_u32le (crc32_ref (header8 v f c)) = drop (7 - length xs) ys"
proof -
  show "header8 v f c = xs @ x # take (7 - length xs) ys"
    using arg_cong [OF assms(1), of "take 8"] assms(2) by (simp add: header_bytes_def take_Cons')
  have "drop 8 (header_bytes v f c) = drop (7 - length xs) ys"
    using assms(2) unfolding assms(1) by (simp add: drop_Cons')
  then show "dtl_endian_write_u32le (crc32_ref (header8 v f c)) = drop (7 - length xs) ys"
    by (simp add: header_bytes_def)
qed

lemma header_bytes_inj_bytes:
  assumes "header_bytes v f c = xs @ x # ys" "header_bytes v' f' c' = xs @ y # ys"
  shows "x = y"
proof (cases "length xs < 8")
  case True
  note h = header_bytes_split [OF assms(1) True] and h' = header_bytes_split [OF assms(2) True]
  have "crc32_ref (header8 v f c) = crc32_ref (header8 v' f' c')"
    using h(2) h'(2) by (intro rd_u32.wr_inj) simp
  then show ?thesis
    unfolding h(1) h'(1) by (rule crc32_ref_one_byte)
next
  case False
  then have "header8 v f c = header8 v' f' c'"
    using arg_cong [OF assms(1), of "take 8"] arg_cong [OF assms(2), of "take 8"]
    by (simp add: header_bytes_def)
  then show ?thesis using assms by (simp add: header_bytes_def)
qed

text \<open>
  C3.  Changing any one byte of the twelve-byte header of an acceptable container, the CRC field
  included, makes the parser reject it.
\<close>

theorem container_header_corruption_detected:
  assumes "fst (dtl_container_parse m a (dtl_buf_init (xs @ x # ys))) = Ok c"
    and "length xs < 12" and "x \<noteq> y"
  shows "\<exists>e. fst (dtl_container_parse m' a' (dtl_buf_init (xs @ y # ys))) = Err e"
proof (cases "fst (dtl_container_parse m' a' (dtl_buf_init (xs @ y # ys)))")
  case (Ok c')
  have "\<exists>zs v f n. header_bytes v f n = xs @ x # zs \<and> zs = take (11 - length xs) ys"
    if parsed: "fst (dtl_container_parse m a (dtl_buf_init (xs @ x # ys))) = Ok c" for m a x c
  proof -
    obtain a1 m1 where "dtl_container_parse m a (dtl_buf_init (xs @ x # ys)) = (Ok c, a1, m1)"
      using parsed by (metis prod.collapse)
    then obtain b1 v f n where "parse_header (dtl_buf_init (xs @ x # ys)) = Ok ((v, f, n), b1)"
      by (elim container_parse_OkD [OF buf_init_ok(1)])
    from consumes_rest [OF parse_header_Ok(1) [OF buf_init_ok(1) this]]
    have "take 12 (xs @ x # ys) = header_bytes v f n" by simp
    then have "header_bytes v f n = xs @ x # take (11 - length xs) ys"
      using assms(2) by (simp add: take_Cons')
    then show ?thesis by blast
  qed
  from this [OF assms(1)] this [OF Ok] show ?thesis
    using header_bytes_inj_bytes assms(3) by metis
next
  case Ub
  then show ?thesis using container_parse_safe [OF buf_init_ok(1)] by blast
qed auto

lemma container_header_corruption_detected_witness:
  "\<exists>m a t. (\<exists>c. fst (dtl_container_parse m a (dtl_buf_init (0x44 # t))) = Ok c) \<and>
     (\<exists>e. fst (dtl_container_parse m a (dtl_buf_init (0x45 # t))) = Err e)"
proof -
  define m where "m = \<lparr>m_next = 0, m_objs = (\<lambda>_. None), m_oom = (\<lambda>_ _. False)\<rparr>"
  obtain t where t: "header_bytes DTL_VERSION 0 0 = [] @ 0x44 # t"
    by (simp add: header_bytes_def header8_def dtl_endian_write_u32le_def DTL_MAGIC_def)
  obtain c where c: "fst (dtl_container_parse m (dtl_arena_init 64) (dtl_buf_init ([] @ 0x44 # t))) = Ok c"
    using container_parse_empty [of m "dtl_arena_init 64"] t by (metis fst_conv)
  have "\<exists>e. fst (dtl_container_parse m (dtl_arena_init 64) (dtl_buf_init ([] @ 0x45 # t))) = Err e"
    by (rule container_header_corruption_detected [OF c]) simp_all
  with c show ?thesis by (metis append_Nil)
qed

end
