(* ===== verification/Format_Tlv.thy ===== *)
theory Format_Tlv
  imports Core_Buf
begin

text \<open>
  \<^verbatim>\<open>src/format/tlv.c\<close>: tag/length/value framing.  \<open>tlv_val\<close> is the borrowed slice of
  \<open>tlv_len\<close> bytes.  \<open>dtl_tlv_next\<close> returns the buffer also when it fails, because a failing call
  may already have consumed the tag or the length.  The abstract view of a stream is the list of its
  frames; \<open>tlv_bytes\<close> is the wire form of one frame.
\<close>

record dtl_tlv =
  tlv_tag :: u8
  tlv_len :: u16
  tlv_val :: "u8 list"

definition dtl_tlv_next :: "dtl_buf \<Rightarrow> dtl_tlv res \<times> dtl_buf" where
  "dtl_tlv_next stream =
     (case dtl_buf_read_u8 stream of Err rc \<Rightarrow> (Err rc, stream) | Ub \<Rightarrow> (Ub, stream)
      | Ok (tag, s1) \<Rightarrow>
     (case dtl_buf_read_u16 s1 of Err rc \<Rightarrow> (Err rc, s1) | Ub \<Rightarrow> (Ub, s1)
      | Ok (len, s2) \<Rightarrow>
     (if unat len > dtl_buf_remaining s2 then (Err DTL_ERR_TRUNCATED, s2)
      else (Ok \<lparr>tlv_tag = tag, tlv_len = len,
                tlv_val = take (unat len) (drop (buf_pos s2) (buf_p s2))\<rparr>,
            s2\<lparr>buf_pos := buf_pos s2 + unat len\<rparr>))))"

lemma tlv_next_advances:
  assumes "dtl_tlv_next s = (Ok t, s')"
  shows "buf_p s' = buf_p s" "buf_pos s + 3 \<le> buf_pos s'" "buf_pos s < buf_len s"
  using assms
  by (auto simp: dtl_tlv_next_def dtl_buf_read_u8_def dtl_buf_read_u16_def byte_at_def
      rbind_eq_Ok_iff split: result.splits prod.splits if_splits simp: buf_len_def)

function tlv_count_loop :: "dtl_buf \<Rightarrow> nat \<Rightarrow> unit res \<times> nat" where
  "tlv_count_loop tmp n =
     (if dtl_buf_remaining tmp \<noteq> 0 then
        (case dtl_tlv_next tmp of
           (Err rc, _) \<Rightarrow> (Err rc, n)
         | (Ub, _) \<Rightarrow> (Ub, n)
         | (Ok _, tmp') \<Rightarrow> tlv_count_loop tmp' (n + 1))
      else (Ok (), n))"
  by pat_completeness auto
termination
proof (relation "measure (\<lambda>(b, n). buf_len b - buf_pos b)", goal_cases)
  case (2 tmp n x s' t)
  then show ?case
    using tlv_next_advances [of tmp t s'] by (auto simp: buf_len_def)
qed simp

declare tlv_count_loop.simps [simp del]

definition dtl_tlv_count :: "dtl_buf \<Rightarrow> unit res \<times> nat" where
  "dtl_tlv_count stream = tlv_count_loop stream 0"

subsection \<open>One frame\<close>

definition tlv_bytes :: "u8 \<Rightarrow> u8 list \<Rightarrow> u8 list" where
  "tlv_bytes tag payload = tag # dtl_endian_write_u16le (of_nat (length payload)) @ payload"

definition tlv_wf :: "dtl_tlv \<Rightarrow> bool" where
  "tlv_wf t \<longleftrightarrow> unat (tlv_len t) = length (tlv_val t)"

definition tlv_frame :: "dtl_tlv \<Rightarrow> u8 list" where
  "tlv_frame t = tlv_bytes (tlv_tag t) (tlv_val t)"

lemma length_tlv_bytes [simp]: "length (tlv_bytes tag p) = 3 + length p"
  by (simp add: tlv_bytes_def)

lemma length_tlv_frame [simp]: "length (tlv_frame t) = 3 + length (tlv_val t)"
  by (simp add: tlv_frame_def)

text \<open>What the framing routine returns, for every stream.\<close>

lemma tlv_next_cases:
  assumes "buf_ok s"
  obtains (ok) t s' where "dtl_tlv_next s = (Ok t, s')" "tlv_wf t" "buf_ok s'"
      "buf_rest s = tlv_frame t @ buf_rest s'" "buf_p s' = buf_p s"
  | (short) s' where "dtl_tlv_next s = (Err DTL_ERR_TRUNCATED, s')"
      "\<nexists>t r. tlv_wf t \<and> buf_rest s = tlv_frame t @ r"
proof (cases "dtl_buf_read_u8 s")
  case (Err e)
  with rd_u8.only_truncated [OF assms] have e: "e = DTL_ERR_TRUNCATED" by auto
  have "length (buf_rest s) < 1"
    using Err rd_u8.full [OF assms] by (cases "buf_rest s") auto
  then show thesis
    using Err e by (intro short) (auto simp: dtl_tlv_next_def tlv_frame_def tlv_bytes_def)
next
  case Ub
  with rd_u8.safe [OF assms] show thesis by simp
next
  case (Ok r1)
  obtain tag s1 where r1: "dtl_buf_read_u8 s = Ok (tag, s1)" using Ok by (cases r1) auto
  note d1 = rd_u8.OkD [OF assms r1]
  show thesis
  proof (cases "dtl_buf_read_u16 s1")
    case (Err e)
    with rd_u16.only_truncated [OF d1(3)] have e: "e = DTL_ERR_TRUNCATED" by auto
    have "length (buf_rest s1) < 2"
      using Err rd_u16.full [OF d1(3)] by (cases "2 \<le> length (buf_rest s1)") auto
    then have "\<nexists>t r. tlv_wf t \<and> buf_rest s = tlv_frame t @ r"
      using d1(4) by (auto simp: tlv_frame_def tlv_bytes_def)
    then show thesis
      using Err e r1 by (intro short) (auto simp: dtl_tlv_next_def)
  next
    case Ub
    with rd_u16.safe [OF d1(3)] show thesis by simp
  next
    case (Ok r2)
    obtain len s2 where r2: "dtl_buf_read_u16 s1 = Ok (len, s2)" using Ok by (cases r2) auto
    note d2 = rd_u16.OkD [OF d1(3) r2]
    have rest: "buf_rest s = tag # dtl_endian_write_u16le len @ buf_rest s2"
      using d1(4) d2(4) by simp
    show thesis
    proof (cases "unat len \<le> length (buf_rest s2)")
      case True
      let ?t = "\<lparr>tlv_tag = tag, tlv_len = len, tlv_val = take (unat len) (buf_rest s2)\<rparr>"
      have "dtl_tlv_next s = (Ok ?t, buf_adv s2 (unat len))"
        using r1 r2 True d2(3) by (simp add: dtl_tlv_next_def buf_rest_def buf_adv_def)
      moreover have "tlv_wf ?t" using True by (simp add: tlv_wf_def)
      moreover have "buf_rest s = tlv_frame ?t @ buf_rest (buf_adv s2 (unat len))"
        using rest True by (simp add: tlv_frame_def tlv_bytes_def min_def)
      moreover have "buf_p (buf_adv s2 (unat len)) = buf_p s"
        using d1(1) d2(1) by simp
      ultimately show thesis using True d2(3) by (intro ok [of ?t "buf_adv s2 (unat len)"]) auto
    next
      case False
      have "\<nexists>t r. tlv_wf t \<and> buf_rest s = tlv_frame t @ r"
      proof (intro notI, elim exE conjE)
        fix t r assume wf: "tlv_wf t" and eq: "buf_rest s = tlv_frame t @ r"
        then have "dtl_endian_write_u16le len @ buf_rest s2
            = dtl_endian_write_u16le (of_nat (length (tlv_val t))) @ tlv_val t @ r"
          using rest by (simp add: tlv_frame_def tlv_bytes_def)
        then have "dtl_endian_write_u16le len = dtl_endian_write_u16le (of_nat (length (tlv_val t)))"
          and "buf_rest s2 = tlv_val t @ r"
          by (simp_all add: append_eq_append_conv)
        moreover from this(1) have "len = of_nat (length (tlv_val t))"
          by (rule rd_u16.wr_inj)
        ultimately show False
          using False wf unat_lt_2p16 [of "tlv_len t"] by (simp add: tlv_wf_def)
      qed
      then show thesis
        using r1 r2 False d2(3) by (intro short) (auto simp: dtl_tlv_next_def)
    qed
  qed
qed

lemma tlv_next_frame:
  assumes "buf_ok s" "length p < 65536" "buf_rest s = tlv_bytes tag p @ r"
  shows "dtl_tlv_next s =
    (Ok \<lparr>tlv_tag = tag, tlv_len = of_nat (length p), tlv_val = p\<rparr>, buf_adv s (3 + length p))"
proof -
  have 1: "dtl_buf_read_u8 s = Ok (tag, buf_adv s 1)"
    using assms by (intro rd_u8.read_written) (auto simp: tlv_bytes_def)
  have ok1: "buf_ok (buf_adv s 1)" using assms by (simp add: tlv_bytes_def)
  have 2: "dtl_buf_read_u16 (buf_adv s 1) = Ok (of_nat (length p), buf_adv (buf_adv s 1) 2)"
    using assms ok1 by (intro rd_u16.read_written) (auto simp: tlv_bytes_def)
  have ok3: "buf_ok (buf_adv s 3)" using assms by simp
  have rest3: "buf_rest (buf_adv s 3) = p @ r" using assms by (simp add: tlv_bytes_def)
  have "buf_adv (buf_adv s 1) 2 = buf_adv s 3" by (simp add: buf_adv_def)
  moreover have "take (length p) (drop (buf_pos (buf_adv s 3)) (buf_p (buf_adv s 3))) = p"
    using rest3 by (simp add: buf_rest_def)
  moreover have "dtl_buf_remaining (buf_adv s 3) = length p + length r"
    using buf_remaining_rest [OF ok3] by (simp only: rest3 length_append)
  moreover have "(buf_adv s 3)\<lparr>buf_pos := buf_pos (buf_adv s 3) + length p\<rparr> = buf_adv s (3 + length p)"
    by (simp add: buf_adv_def)
  ultimately show ?thesis
    using assms(2) 1 2
    by (simp add: dtl_tlv_next_def del: buf_adv_fields buf_adv_adv One_nat_def)
qed

subsection \<open>Whole streams\<close>

lemma tlv_count_loop_frames:
  assumes "buf_ok s" "\<forall>t \<in> set ts. tlv_wf t" "buf_rest s = concat (map tlv_frame ts)"
  shows "tlv_count_loop s n = (Ok (), n + length ts)"
  using assms
proof (induction ts arbitrary: s n)
  case Nil
  then show ?case by (simp add: tlv_count_loop.simps [of s n])
next
  case (Cons t ts)
  have len: "length (tlv_val t) < 65536"
    using Cons.prems(2) unat_lt_2p16 [of "tlv_len t"] by (simp add: tlv_wf_def)
  have nx: "\<exists>t'. dtl_tlv_next s = (Ok t', buf_adv s (3 + length (tlv_val t)))"
    using tlv_next_frame [OF Cons.prems(1) len] Cons.prems(3) by (simp add: tlv_frame_def)
  have "buf_ok (buf_adv s (3 + length (tlv_val t)))"
    using Cons.prems by simp
  then have "tlv_count_loop (buf_adv s (3 + length (tlv_val t))) (n + 1) = (Ok (), n + 1 + length ts)"
    using Cons.prems by (intro Cons.IH) auto
  with nx Cons.prems show ?case
    by (auto simp: tlv_count_loop.simps [of s n])
qed

lemma tlv_count_loop_Ok:
  "buf_ok s \<Longrightarrow> tlv_count_loop s n = (Ok (), k) \<Longrightarrow>
   \<exists>ts. (\<forall>t \<in> set ts. tlv_wf t) \<and> buf_rest s = concat (map tlv_frame ts) \<and> k = n + length ts"
proof (induction s n rule: tlv_count_loop.induct)
  case (1 s n)
  show ?case
  proof (cases "buf_rest s = []")
    case True
    with 1 show ?thesis by (intro exI [of _ "[]"]) (simp add: tlv_count_loop.simps [of s n])
  next
    case False
    from 1(2) show ?thesis
    proof (cases rule: tlv_next_cases)
      case (ok t s')
      have "tlv_count_loop s' (n + 1) = (Ok (), k)"
        using 1(2,3) False ok by (simp add: tlv_count_loop.simps [of s n])
      then obtain ts where "\<forall>t \<in> set ts. tlv_wf t" "buf_rest s' = concat (map tlv_frame ts)"
        "k = n + 1 + length ts"
        using 1(1) 1(2) False ok by fastforce
      with ok show ?thesis by (intro exI [of _ "t # ts"]) auto
    next
      case (short s')
      with 1(2,3) False show ?thesis by (simp add: tlv_count_loop.simps [of s n])
    qed
  qed
qed

lemma tlv_count_loop_only_truncated:
  "buf_ok s \<Longrightarrow> tlv_count_loop s n = (r, k) \<Longrightarrow> r = Ok () \<or> r = Err DTL_ERR_TRUNCATED"
proof (induction s n rule: tlv_count_loop.induct)
  case (1 s n)
  from 1(2) show ?case
  proof (cases rule: tlv_next_cases)
    case (ok t s')
    with 1 show ?thesis by (cases "buf_rest s = []") (auto simp: tlv_count_loop.simps [of s n])
  next
    case (short s')
    with 1(2,3) show ?thesis
      by (cases "buf_rest s = []") (auto simp: tlv_count_loop.simps [of s n])
  qed
qed

end
