(* ===== verification/Codec_Spec.thy ===== *)
theory Codec_Spec
  imports Core_Mem
begin

text \<open>
  The contract every codec of \<^verbatim>\<open>src/codec/registry.h\<close> has, as locales, and \<^verbatim>\<open>src/codec/store.c\<close>.

  A codec function takes the input bytes and the capacity of the output buffer and returns the bytes
  it left there.  Its C type has no state, but \<open>dict\<close> allocates a private arena, so the general
  type threads the heap; a codec that does not touch the heap is a \<open>coder\<close> and is lifted.
\<close>

type_synonym coder = "u8 list \<Rightarrow> nat \<Rightarrow> u8 list res"
type_synonym codec_fn = "mem \<Rightarrow> u8 list \<Rightarrow> nat \<Rightarrow> u8 list res \<times> mem"

definition lift_coder :: "coder \<Rightarrow> codec_fn" where
  "lift_coder g m xs cap = (g xs cap, m)"

subsection \<open>Contracts\<close>

text \<open>A codec function writes no more than the capacity it is given and leaves the heap as it was.\<close>

locale coder_bounds =
  fixes f :: codec_fn
  assumes fits: "mem_ok m \<Longrightarrow> f m xs cap = (Ok ys, m') \<Longrightarrow> length ys \<le> cap"
    and frame: "mem_ok m \<Longrightarrow> f m xs cap = (r, m') \<Longrightarrow> heap_ext m m'"
begin

lemma fits_fst: "mem_ok m \<Longrightarrow> fst (f m xs cap) = Ok ys \<Longrightarrow> length ys \<le> cap"
  by (metis fits prod.collapse)

lemma frame_snd: "mem_ok m \<Longrightarrow> heap_ext m (snd (f m xs cap))"
  by (metis frame prod.collapse)

end

text \<open>Moreover it stays inside its buffers on every input.\<close>

locale coder_safe = coder_bounds +
  assumes safe: "mem_ok m \<Longrightarrow> fst (f m xs cap) \<noteq> Ub"
begin

lemma outcome: "mem_ok m \<Longrightarrow> (\<exists>ys. fst (f m xs cap) = Ok ys \<and> length ys \<le> cap) \<or> (\<exists>e. fst (f m xs cap) = Err e)"
  using safe [of m xs cap] fits_fst [of m xs cap] by (cases "fst (f m xs cap)") auto

end

locale pure_coder =
  fixes g :: coder
  assumes g_fits: "g xs cap = Ok ys \<Longrightarrow> length ys \<le> cap"
    and g_safe: "g xs cap \<noteq> Ub"

sublocale pure_coder \<subseteq> lifted: coder_safe "lift_coder g"
  by unfold_locales (use g_safe in \<open>auto simp: lift_coder_def dest: g_fits\<close>)

text \<open>
  An encoder and a decoder that undo each other: what the encoder produced decodes to the input
  wherever there is room for it, unless the decoder cannot allocate.
\<close>

locale codec_pair = enc: coder_safe enc + dec: coder_bounds dec
  for enc :: codec_fn and dec :: codec_fn +
  assumes inverse: "mem_ok m \<Longrightarrow> mem_ok m' \<Longrightarrow> length xs \<le> cap' \<Longrightarrow> fst (enc m xs cap) = Ok ys \<Longrightarrow>
      fst (dec m' ys cap') = Ok xs \<or> \<not> heap_never_fails m' \<and> fst (dec m' ys cap') = Err DTL_ERR_OOM"
begin

lemma decode_encode:
  "mem_ok m \<Longrightarrow> mem_ok m' \<Longrightarrow> length xs \<le> cap' \<Longrightarrow> fst (enc m xs cap) = Ok ys \<Longrightarrow>
   heap_never_fails m' \<Longrightarrow> fst (dec m' ys cap') = Ok xs"
  using inverse by blast

lemma decode_encoded_safe:
  "mem_ok m \<Longrightarrow> mem_ok m' \<Longrightarrow> length xs \<le> cap' \<Longrightarrow> fst (enc m xs cap) = Ok ys \<Longrightarrow>
   fst (dec m' ys cap') \<noteq> Ub"
  using inverse [of m m' xs cap' cap ys] by auto

lemma unambiguous:
  assumes "mem_ok m" "mem_ok m'" "fst (enc m xs cap) = Ok ys" "fst (enc m' xs' cap') = Ok ys"
  shows "xs = xs'"
proof -
  define m0 where "m0 = mem_init (\<lambda>_ _. False)"
  have m0: "mem_ok m0" "heap_never_fails m0"
    by (simp_all add: m0_def mem_init_def mem_ok_def heap_never_fails_def)
  have "fst (dec m0 ys (max (length xs) (length xs'))) = Ok xs"
    using decode_encode [OF assms(1) m0(1) _ assms(3) m0(2)] by simp
  moreover have "fst (dec m0 ys (max (length xs) (length xs'))) = Ok xs'"
    using decode_encode [OF assms(2) m0(1) _ assms(4) m0(2)] by simp
  ultimately show ?thesis by simp
qed

end

text \<open>The same for codecs that do not touch the heap.\<close>

locale pure_codec = genc: pure_coder genc
  for genc :: coder and gdec :: coder +
  assumes gdec_fits: "gdec xs cap = Ok ys \<Longrightarrow> length ys \<le> cap"
    and ginverse: "length xs \<le> cap' \<Longrightarrow> genc xs cap = Ok ys \<Longrightarrow> gdec ys cap' = Ok xs"

sublocale pure_codec \<subseteq> codec_pair "lift_coder genc" "lift_coder gdec"
  by unfold_locales (auto simp: lift_coder_def dest: gdec_fits ginverse)

subsection \<open>The identity codec\<close>

definition dtl_store_copy :: coder where
  "dtl_store_copy xs cap = (if length xs > cap then Err DTL_ERR_RANGE else put_bytes cap [] xs)"

definition dtl_store_decode :: coder where "dtl_store_decode xs cap = dtl_store_copy xs cap"
definition dtl_store_encode :: coder where "dtl_store_encode xs cap = dtl_store_copy xs cap"

lemma store_copy_Ok_iff: "dtl_store_copy xs cap = Ok ys \<longleftrightarrow> ys = xs \<and> length xs \<le> cap"
  by (auto simp: dtl_store_copy_def put_bytes_def)

lemma store_copy_safe: "dtl_store_copy xs cap \<noteq> Ub"
  by (simp add: dtl_store_copy_def)

interpretation store_dec: pure_coder dtl_store_decode
  by unfold_locales (simp_all add: dtl_store_decode_def store_copy_Ok_iff store_copy_safe)

interpretation store: pure_codec dtl_store_encode dtl_store_decode
  by unfold_locales
    (simp_all add: dtl_store_encode_def dtl_store_decode_def store_copy_Ok_iff store_copy_safe)

end
