(* ===== verification/Codec_Rle.thy ===== *)
theory Codec_Rle
  imports Codec_Spec
begin

text \<open>
  \<^verbatim>\<open>src/codec/rle.c\<close>: run-length coding in count/value pairs.  The input cursor is the list of
  unread bytes; \<open>in_len - i\<close> is its length.
\<close>

definition DTL_RLE_MAX_RUN :: nat where "DTL_RLE_MAX_RUN = 255"

text \<open>The scan that extends a run over identical bytes.\<close>

function rle_run :: "u8 list \<Rightarrow> u8 \<Rightarrow> nat \<Rightarrow> nat" where
  "rle_run xs v run =
     (if run < length xs \<and> xs ! run = v \<and> run < DTL_RLE_MAX_RUN then rle_run xs v (run + 1) else run)"
  by pat_completeness auto
termination by (relation "measure (\<lambda>(xs, v, run). length xs - run)") auto

declare rle_run.simps [simp del]

lemma rle_run_ge: "run \<le> rle_run xs v run"
  by (induction xs v run rule: rle_run.induct) (subst rle_run.simps, auto)

lemma rle_run_le: "run \<le> DTL_RLE_MAX_RUN \<Longrightarrow> rle_run xs v run \<le> DTL_RLE_MAX_RUN"
  by (induction xs v run rule: rle_run.induct) (subst rle_run.simps, auto)

lemma rle_run_same:
  "take run xs = replicate run v \<Longrightarrow>
   take (rle_run xs v run) xs = replicate (rle_run xs v run) v"
proof (induction xs v run rule: rle_run.induct)
  case (1 xs v run)
  show ?case
  proof (cases "run < length xs \<and> xs ! run = v \<and> run < DTL_RLE_MAX_RUN")
    case True
    then have "take (run + 1) xs = replicate (run + 1) v"
      using 1(2) by (simp add: take_Suc_conv_app_nth replicate_append_same)
    with True 1(1) show ?thesis by (subst (1 2) rle_run.simps) simp
  qed (use 1(2) in \<open>subst (1 2) rle_run.simps, auto\<close>)
qed

function rle_encode_loop :: "u8 list \<Rightarrow> nat \<Rightarrow> u8 list \<Rightarrow> u8 list res" where
  "rle_encode_loop [] cap out = Ok out"
| "rle_encode_loop (v # xs) cap out =
     (let run = rle_run (v # xs) v 1
      in if size_sub cap (length out) < 2 then Err DTL_ERR_RANGE
         else rbind (put_byte cap out (of_nat run)) (\<lambda>out.
              rbind (put_byte cap out v) (\<lambda>out.
              rle_encode_loop (drop run (v # xs)) cap out)))"
  by pat_completeness auto
termination
proof (relation "measure (\<lambda>(xs, cap, out). length xs)", goal_cases)
  case (2 v xs cap out run)
  then show ?case using rle_run_ge [of 1 "v # xs" v] by simp
qed simp

definition dtl_rle_encode :: coder where
  "dtl_rle_encode xs cap = rle_encode_loop xs cap []"

fun rle_decode_loop :: "u8 list \<Rightarrow> nat \<Rightarrow> u8 list \<Rightarrow> u8 list res" where
  "rle_decode_loop [] cap out = Ok out"
| "rle_decode_loop [c] cap out = Err DTL_ERR_TRUNCATED"
| "rle_decode_loop (c # v # xs) cap out =
     (if c = 0 then Err DTL_ERR_BADRECORD
      else if size_sub cap (length out) < unat c then Err DTL_ERR_RANGE
      else rbind (put_bytes cap out (replicate (unat c) v)) (\<lambda>out. rle_decode_loop xs cap out))"

definition dtl_rle_decode :: coder where
  "dtl_rle_decode xs cap = rle_decode_loop xs cap []"

subsection \<open>Bounds\<close>

lemma rle_encode_loop_step:
  "length out \<le> cap \<Longrightarrow> rle_encode_loop (v # xs) cap out =
     (if cap - length out < 2 then Err DTL_ERR_RANGE
      else rle_encode_loop (drop (rle_run (v # xs) v 1) (v # xs)) cap (out @ [of_nat (rle_run (v # xs) v 1), v]))"
  by (simp add: Let_def)

lemma rle_run_pos: "0 < rle_run xs v 1"
  using rle_run_ge [of 1 xs v] by simp

lemma rle_encode_loop_bounds:
  "length out \<le> cap \<Longrightarrow> rle_encode_loop xs cap out \<noteq> Ub \<and>
   (\<forall>ys. rle_encode_loop xs cap out = Ok ys \<longrightarrow> length ys \<le> cap)"
proof (induction xs arbitrary: out rule: measure_induct_rule [of length])
  case (less xs)
  show ?case
  proof (cases xs)
    case (Cons v r)
    with less.IH [of "drop (rle_run xs v 1) xs" "out @ [of_nat (rle_run xs v 1), v]"] less.prems
      rle_run_pos [of xs v]
    show ?thesis by (simp add: rle_encode_loop_step del: rle_encode_loop.simps(2))
  qed (use less.prems in simp)
qed

lemma rle_decode_loop_bounds:
  "length out \<le> cap \<Longrightarrow> rle_decode_loop xs cap out \<noteq> Ub \<and>
   (\<forall>ys. rle_decode_loop xs cap out = Ok ys \<longrightarrow> length ys \<le> cap)"
  by (induction xs cap out rule: rle_decode_loop.induct) auto

subsection \<open>Round trip\<close>

lemma rle_split:
  fixes v xs defines "run \<equiv> rle_run (v # xs) v 1"
  shows "v # xs = replicate run v @ drop run (v # xs)"
    and "unat (of_nat run :: u8) = run" and "(of_nat run :: u8) \<noteq> 0"
proof -
  have "take 1 (v # xs) = replicate 1 v" by simp
  from rle_run_same [OF this] show "v # xs = replicate run v @ drop run (v # xs)"
    unfolding run_def by (metis append_take_drop_id)
  have run: "1 \<le> run" "run \<le> 255"
    using rle_run_ge [of 1] rle_run_le [of 1] by (simp_all add: run_def DTL_RLE_MAX_RUN_def)
  then show "unat (of_nat run :: u8) = run" "(of_nat run :: u8) \<noteq> 0"
    by (auto simp: word_unat_eq_iff)
qed

lemma rle_encode_loop_spec:
  "length out \<le> cap \<Longrightarrow> rle_encode_loop xs cap out = Ok res \<Longrightarrow>
   \<exists>ys. res = out @ ys \<and>
     (\<forall>cap' out'. length out' + length xs \<le> cap' \<longrightarrow> rle_decode_loop ys cap' out' = Ok (out' @ xs))"
proof (induction xs arbitrary: out rule: measure_induct_rule [of length])
  case (less xs)
  show ?case
  proof (cases xs)
    case (Cons v r)
    define run where "run = rle_run xs v 1"
    note split = rle_split [of v r, folded Cons, folded run_def]
    have "length (out @ [of_nat run, v]) \<le> cap" "rle_encode_loop (drop run xs) cap (out @ [of_nat run, v]) = Ok res"
      using less.prems Cons by (auto simp: rle_encode_loop_step run_def simp del: rle_encode_loop.simps split: if_splits)
    moreover have "length (drop run xs) < length xs"
      using rle_run_pos [of xs v] Cons by (simp add: run_def)
    ultimately obtain ys where ys: "res = (out @ [of_nat run, v]) @ ys"
      "\<forall>cap' out'. length out' + length (drop run xs) \<le> cap' \<longrightarrow>
         rle_decode_loop ys cap' out' = Ok (out' @ drop run xs)"
      using less.IH [of "drop run xs" "out @ [of_nat run, v]"] less.prems(1) by auto
    have len: "run \<le> length xs"
      using arg_cong [OF split(1), of length] by simp
    have "rle_decode_loop (of_nat run # v # ys) cap' out' = Ok (out' @ xs)"
      if "length out' + length xs \<le> cap'" for cap' out'
    proof -
      have "rle_decode_loop ys cap' (out' @ replicate run v) = Ok ((out' @ replicate run v) @ drop run xs)"
        using ys(2) len that by simp
      then show ?thesis
        using split(2,3) len that by (simp flip: split(1))
    qed
    with ys(1) show ?thesis by (intro exI [of _ "of_nat run # v # ys"]) simp
  qed (use less.prems in simp)
qed

interpretation rle_dec: pure_coder dtl_rle_decode
  using rle_decode_loop_bounds [of "[]"] by unfold_locales (auto simp: dtl_rle_decode_def)

interpretation rle: pure_codec dtl_rle_encode dtl_rle_decode
proof unfold_locales
  show "dtl_rle_decode ys cap' = Ok xs" if "length xs \<le> cap'" "dtl_rle_encode xs cap = Ok ys" for xs ys cap cap'
    using rle_encode_loop_spec [of "[]" cap xs ys] that by (auto simp: dtl_rle_decode_def dtl_rle_encode_def)
qed (use rle_encode_loop_bounds [of "[]"] rle_decode_loop_bounds [of "[]"] in
    \<open>auto simp: dtl_rle_encode_def dtl_rle_decode_def\<close>)

end
