(* ===== verification/Codec_Varint.thy ===== *)
theory Codec_Varint
  imports Codec_Spec Core_Endian
begin

text \<open>
  \<^verbatim>\<open>src/codec/varint.c\<close>: a stream of little-endian u32 values as LEB128 groups of seven bits.
  The inner loops \<open>varint_get\<close> and \<open>varint_put\<close> are the ones \<^verbatim>\<open>src/codec/delta.c\<close> repeats.
\<close>

definition DTL_VARINT_LAST_SHIFT :: nat where "DTL_VARINT_LAST_SHIFT = 28"

text \<open>One value from the unread bytes, with the running shift and accumulator.\<close>

fun varint_get :: "u8 list \<Rightarrow> nat \<Rightarrow> u32 \<Rightarrow> (u32 \<times> u8 list) res" where
  "varint_get [] shift value = Err DTL_ERR_TRUNCATED"
| "varint_get (byte # rest) shift value =
     (if shift > DTL_VARINT_LAST_SHIFT then Err DTL_ERR_RANGE
      else let payload = ucast (byte AND 0x7F)
      in if shift = DTL_VARINT_LAST_SHIFT \<and> payload > 0x0F then Err DTL_ERR_RANGE
      else let value = value OR push_bit shift payload
      in if byte AND 0x80 = 0 then Ok (value, rest)
      else varint_get rest (shift + 7) value)"

lemma unat_drop_bit7: "unat (drop_bit 7 (v :: u32)) = unat v div 128"
  using unsigned_less [of v, where ?'a = nat]
  unfolding unsigned_drop_bit_eq by (simp add: drop_bit_eq_div take_bit_nat_eq_self)

lemma drop_bit7_less: "drop_bit 7 (v :: u32) \<noteq> 0 \<Longrightarrow> unat (drop_bit 7 v) < unat v"
proof -
  assume "drop_bit 7 v \<noteq> 0"
  then have "unat v div 128 \<noteq> 0" using unat_drop_bit7 [of v] by (metis unat_eq_zero)
  then show ?thesis unfolding unat_drop_bit7 by simp
qed

text \<open>The do-while loop that emits one value.\<close>

function varint_put :: "u32 \<Rightarrow> nat \<Rightarrow> u8 list \<Rightarrow> u8 list res" where
  "varint_put value cap out =
     (let byte = ucast (value AND 0x7F);
          value' = drop_bit 7 value;
          byte = (if value' \<noteq> 0 then byte OR 0x80 else byte)
      in if size_sub cap (length out) < 1 then Err DTL_ERR_RANGE
         else rbind (put_byte cap out byte) (\<lambda>out.
              if value' \<noteq> 0 then varint_put value' cap out else Ok out))"
  by pat_completeness auto

termination
  by (relation "measure (\<lambda>(v, cap, out). unat v)") (simp_all add: drop_bit7_less)

declare varint_put.simps [simp del]

lemma varint_get_shorter: "varint_get xs shift v = Ok (w, r) \<Longrightarrow> length r < length xs"
proof (induction xs shift v rule: varint_get.induct)
  case (2 byte rest shift v)
  then show ?case by (auto simp: Let_def less_Suc_eq split: if_splits)
qed simp

function varint_decode_loop :: "u8 list \<Rightarrow> nat \<Rightarrow> u8 list \<Rightarrow> u8 list res" where
  "varint_decode_loop xs cap out =
     (if xs = [] then Ok out
      else rbind (varint_get xs 0 0) (\<lambda>(value, rest).
           if size_sub cap (length out) < 4 then Err DTL_ERR_RANGE
           else rbind (put_bytes cap out (dtl_endian_write_u32le value)) (\<lambda>out.
                varint_decode_loop rest cap out)))"
  by pat_completeness auto
termination
  by (relation "measure (\<lambda>(xs, cap, out). length xs)") (auto dest: varint_get_shorter)

declare varint_decode_loop.simps [simp del]

definition dtl_varint_decode :: coder where
  "dtl_varint_decode xs cap = varint_decode_loop xs cap []"

function varint_encode_loop :: "u8 list \<Rightarrow> nat \<Rightarrow> u8 list \<Rightarrow> u8 list res" where
  "varint_encode_loop xs cap out =
     (if xs = [] then Ok out
      else if length xs < 4 then Err DTL_ERR_TRUNCATED
      else rbind (dtl_endian_read_u32le xs) (\<lambda>value.
           rbind (varint_put value cap out) (\<lambda>out.
           varint_encode_loop (drop 4 xs) cap out)))"
  by pat_completeness auto
termination by (relation "measure (\<lambda>(xs, cap, out). length xs)") auto

declare varint_encode_loop.simps [simp del]

definition dtl_varint_encode :: coder where
  "dtl_varint_encode xs cap = varint_encode_loop xs cap []"

subsection \<open>The groups of one value\<close>

function leb128 :: "u32 \<Rightarrow> u8 list" where
  "leb128 v = (if drop_bit 7 v = 0 then [ucast (v AND 0x7F)]
               else (ucast (v AND 0x7F) OR 0x80) # leb128 (drop_bit 7 v))"
  by pat_completeness auto
termination by (relation "measure unat") (simp_all add: drop_bit7_less)

declare leb128.simps [simp del]

lemma leb128_nonempty [simp]: "leb128 v \<noteq> []"
  by (subst leb128.simps) simp

lemma varint_put_leb128:
  "length out \<le> cap \<Longrightarrow> varint_put v cap out =
     (if length out + length (leb128 v) \<le> cap then Ok (out @ leb128 v) else Err DTL_ERR_RANGE)"
proof (induction v cap out rule: varint_put.induct)
  case (1 v cap out)
  note IH = 1(1) [OF refl refl refl, of "out @ [ucast (v AND 0x7F) OR 0x80]"]
  show ?case
  proof (cases "length out < cap")
    case True
    show ?thesis
    proof (cases "drop_bit 7 v = 0")
      case True
      with \<open>length out < cap\<close> show ?thesis
        by (subst varint_put.simps, subst (1 2) leb128.simps) (simp add: Let_def)
    next
      case False
      with \<open>length out < cap\<close> IH show ?thesis
        by (subst varint_put.simps, subst (1 2) leb128.simps) (simp add: Let_def)
    qed
  next
    case False
    have "leb128 v \<noteq> []" by simp
    then have "0 < length (leb128 v)" by blast
    with False 1(2) show ?thesis by (subst varint_put.simps) (simp add: Let_def)
  qed
qed

lemma or_group: "push_bit n (v AND 0x7F) OR push_bit (n + 7) (drop_bit 7 v) = push_bit n (v :: u32)"
proof -
  have "(v AND 0x7F) OR push_bit 7 (drop_bit 7 v) = v"
  proof (rule bit_eqI)
    fix k
    have m: "(0x7F :: u32) = mask 7" by (simp add: mask_eq_exp_minus_1)
    show "bit ((v AND 0x7F) OR push_bit 7 (drop_bit 7 v)) k = bit v k"
      unfolding m by (cases "k < 32"; cases "k < 7") (auto simp: bit_simps dest: bit_imp_le_length)
  qed
  then have "push_bit n ((v AND 0x7F) OR push_bit 7 (drop_bit 7 v)) = push_bit n v" by simp
  then show ?thesis by (simp add: push_bit_or add.commute)
qed

lemma bit_u8_80: "bit (0x80 :: u8) n \<longleftrightarrow> n = 7" "bit (0x80 :: int) n \<longleftrightarrow> n = 7"
proof -
  have "(0x80 :: u8) = 2 ^ 7" "(0x80 :: int) = 2 ^ 7" by simp_all
  then show "bit (0x80 :: u8) n \<longleftrightarrow> n = 7" "bit (0x80 :: int) n \<longleftrightarrow> n = 7"
    by (simp_all only: bit_exp_iff) (auto simp: possible_bit_def)
qed

lemma group_byte:
  fixes v :: u32
  shows "(ucast ((ucast (v AND 0x7F) :: u8) AND 0x7F) :: u32) = v AND 0x7F"
    and "(ucast (((ucast (v AND 0x7F) :: u8) OR 0x80) AND 0x7F) :: u32) = v AND 0x7F"
    and "(ucast (v AND 0x7F) :: u8) AND 0x80 = 0"
    and "((ucast (v AND 0x7F) :: u8) OR 0x80) AND 0x80 \<noteq> 0"
proof -
  have m: "(0x7F :: u32) = mask 7" "(0x7F :: u8) = mask 7"
    by (simp_all add: mask_eq_exp_minus_1)
  show "(ucast ((ucast (v AND 0x7F) :: u8) AND 0x7F) :: u32) = v AND 0x7F"
    unfolding m by (rule bit_eqI) (auto simp: bit_simps)
  show "(ucast (((ucast (v AND 0x7F) :: u8) OR 0x80) AND 0x7F) :: u32) = v AND 0x7F"
    unfolding m by (rule bit_eqI) (auto simp: bit_simps bit_u8_80)
  show "(ucast (v AND 0x7F) :: u8) AND 0x80 = 0"
    unfolding m by (rule bit_eqI) (auto simp: bit_simps bit_u8_80)
  have "bit (((ucast (v AND 0x7F) :: u8) OR 0x80) AND 0x80) 7"
    unfolding m by (simp add: bit_simps bit_u8_80)
  then show "((ucast (v AND 0x7F) :: u8) OR 0x80) AND 0x80 \<noteq> 0" by auto
qed

lemma unat_and_7F_le: "unat ((v :: u32) AND 0x7F) \<le> unat v"
proof -
  have "v AND 0x7F = take_bit 7 v" by (simp add: take_bit_eq_mask mask_eq_exp_minus_1)
  then show ?thesis by (simp only: unsigned_take_bit_eq take_bit_nat_less_eq_self)
qed

text \<open>
  A value of at most \<open>32 - 7 k\<close> bits read at shift \<open>7 k\<close>: the fifth group has four bits, which
  is exactly what the range check of the decoder allows.
\<close>

lemma varint_get_leb128:
  "k \<le> 4 \<Longrightarrow> unat v < 2 ^ (32 - 7 * k) \<Longrightarrow>
   varint_get (leb128 v @ r) (7 * k) acc = Ok (acc OR push_bit (7 * k) v, r)"
proof (induction v arbitrary: k acc rule: leb128.induct)
  case (1 v)
  have sh: "\<not> DTL_VARINT_LAST_SHIFT < 7 * k"
    using 1(2) by (simp add: DTL_VARINT_LAST_SHIFT_def)
  have pl: "\<not> (7 * k = DTL_VARINT_LAST_SHIFT \<and> v AND 0x7F > 0x0F)"
  proof
    assume a: "7 * k = DTL_VARINT_LAST_SHIFT \<and> v AND 0x7F > 0x0F"
    then have "unat v < 16" using 1(3) by (simp add: DTL_VARINT_LAST_SHIFT_def)
    with unat_and_7F_le [of v] a show False by (simp add: word_less_nat_alt)
  qed
  show ?case
  proof (cases "drop_bit 7 v = 0")
    case True
    have "push_bit (7 * k) (v AND 0x7F) = push_bit (7 * k) v"
      using or_group [of "7 * k" v] True by simp
    then show ?thesis
      using True sh pl by (subst leb128.simps) (simp add: group_byte Let_def)
  next
    case False
    note v' = unat_drop_bit7 [of v]
    have "unat v \<ge> 128"
      using False v' by (metis div_less not_le_imp_less unat_eq_zero)
    with 1(2,3) have k: "k \<le> 3" by (cases "k = 4") auto
    then have "32 - 7 * k = 32 - 7 * Suc k + 7" by simp
    then have "2 ^ (32 - 7 * k) = (2 :: nat) ^ (32 - 7 * Suc k) * 128"
      by (simp only: power_add) simp
    then have "unat (drop_bit 7 v) < 2 ^ (32 - 7 * Suc k)"
      unfolding v' using 1(3) by (simp add: less_mult_imp_div_less)
    from 1(1) [OF False _ this, of "acc OR push_bit (7 * k) (v AND 0x7F)"] k
    have "varint_get (leb128 (drop_bit 7 v) @ r) (7 * k + 7) (acc OR push_bit (7 * k) (v AND 0x7F))
        = Ok (acc OR push_bit (7 * k) (v AND 0x7F) OR push_bit (7 * k + 7) (drop_bit 7 v), r)"
      by (simp add: add.commute or.assoc)
    then show ?thesis
      using False sh pl or_group [of "7 * k" v]
      by (subst leb128.simps) (simp add: group_byte Let_def or.assoc)
  qed
qed

lemma varint_get_leb128_0 [simp]: "varint_get (leb128 v @ r) 0 0 = Ok (v, r)"
  using varint_get_leb128 [of 0 v r 0] unsigned_less [of v, where ?'a = nat] by simp

lemma varint_get_safe: "varint_get xs shift v \<noteq> Ub"
  by (induction xs shift v rule: varint_get.induct) (auto simp: Let_def)

subsection \<open>The stream\<close>

lemma read_u32le_split:
  assumes "4 \<le> length xs"
  obtains v where "dtl_endian_read_u32le xs = Ok v" "xs = dtl_endian_write_u32le v @ drop 4 xs"
proof -
  obtain v where v: "dtl_endian_read_u32le xs = Ok v" using read_u32le_Ok [OF assms] by blast
  with write_read_u32le [OF v] that show ?thesis by (metis append_take_drop_id)
qed

lemma varint_decode_loop_bounds:
  "length out \<le> cap \<Longrightarrow> varint_decode_loop xs cap out \<noteq> Ub \<and>
   (\<forall>ys. varint_decode_loop xs cap out = Ok ys \<longrightarrow> length ys \<le> cap)"
proof (induction xs arbitrary: out rule: measure_induct_rule [of length])
  case (less xs)
  show ?case
  proof (cases "varint_get xs 0 0")
    case (Ok p)
    obtain v r where p: "p = (v, r)" by (cases p)
    have "length r < length xs" using Ok p varint_get_shorter by blast
    with less.IH [of r "out @ dtl_endian_write_u32le v"] less.prems Ok p show ?thesis
      by (subst (1 2) varint_decode_loop.simps) auto
  qed (use less.prems varint_get_safe [of xs 0 0] in
      \<open>subst (1 2) varint_decode_loop.simps, auto split: if_splits\<close>)+
qed

lemma varint_encode_loop_bounds:
  "length out \<le> cap \<Longrightarrow> varint_encode_loop xs cap out \<noteq> Ub \<and>
   (\<forall>ys. varint_encode_loop xs cap out = Ok ys \<longrightarrow> length ys \<le> cap)"
proof (induction xs arbitrary: out rule: measure_induct_rule [of length])
  case (less xs)
  show ?case
  proof (cases "length xs < 4")
    case True
    then show ?thesis using less.prems by (subst (1 2) varint_encode_loop.simps) auto
  next
    case False
    then obtain v where "dtl_endian_read_u32le xs = Ok v" using read_u32le_Ok [of xs] by auto
    with False less.IH [of "drop 4 xs" "out @ leb128 v"] less.prems show ?thesis
      by (subst (1 2) varint_encode_loop.simps) (auto simp: varint_put_leb128)
  qed
qed

lemma varint_encode_loop_spec:
  "length out \<le> cap \<Longrightarrow> varint_encode_loop xs cap out = Ok res \<Longrightarrow>
   \<exists>ys. res = out @ ys \<and>
     (\<forall>cap' out'. length out' + length xs \<le> cap' \<longrightarrow> varint_decode_loop ys cap' out' = Ok (out' @ xs))"
proof (induction xs arbitrary: out rule: measure_induct_rule [of length])
  case (less xs)
  show ?case
  proof (cases "xs = []")
    case True
    with less.prems show ?thesis
      by (subst (asm) varint_encode_loop.simps, subst varint_decode_loop.simps) auto
  next
    case False
    with less.prems(2) have len: "4 \<le> length xs"
      by (subst (asm) varint_encode_loop.simps) (auto split: if_splits)
    then obtain v where v: "dtl_endian_read_u32le xs = Ok v" "xs = dtl_endian_write_u32le v @ drop 4 xs"
      using read_u32le_split by blast
    have fit: "length (out @ leb128 v) \<le> cap"
      and e: "varint_encode_loop (drop 4 xs) cap (out @ leb128 v) = Ok res"
      using less.prems v(1) len False
      by (subst (asm) varint_encode_loop.simps, auto simp: varint_put_leb128 split: if_splits)+
    have "length (drop 4 xs) < length xs" using len by simp
    from less.IH [OF this fit e] obtain ys where ys: "res = (out @ leb128 v) @ ys"
      "\<forall>cap' out'. length out' + length (drop 4 xs) \<le> cap' \<longrightarrow>
         varint_decode_loop ys cap' out' = Ok (out' @ drop 4 xs)" by blast
    have "varint_decode_loop (leb128 v @ ys) cap' out' = Ok (out' @ xs)"
      if "length out' + length xs \<le> cap'" for cap' out'
    proof -
      have "varint_decode_loop ys cap' (out' @ dtl_endian_write_u32le v) = Ok (out' @ xs)"
        using ys(2) that len v(2) by (metis (no_types, lifting) append.assoc length_append add.assoc)
      then show ?thesis
        using that len by (subst varint_decode_loop.simps) simp
    qed
    with ys(1) show ?thesis by (intro exI [of _ "leb128 v @ ys"]) simp
  qed
qed

interpretation varint_dec: pure_coder dtl_varint_decode
  using varint_decode_loop_bounds [of "[]"] by unfold_locales (auto simp: dtl_varint_decode_def)

interpretation varint: pure_codec dtl_varint_encode dtl_varint_decode
proof unfold_locales
  show "dtl_varint_decode ys cap' = Ok xs"
    if "length xs \<le> cap'" "dtl_varint_encode xs cap = Ok ys" for xs ys cap cap'
    using varint_encode_loop_spec [of "[]" cap xs ys] that
    by (auto simp: dtl_varint_decode_def dtl_varint_encode_def)
qed (use varint_encode_loop_bounds [of "[]"] varint_decode_loop_bounds [of "[]"] in
    \<open>auto simp: dtl_varint_encode_def dtl_varint_decode_def\<close>)

end
