(* ===== verification/Codec_Delta.thy ===== *)
theory Codec_Delta
  imports Codec_Varint
begin

text \<open>
  \<^verbatim>\<open>src/codec/delta.c\<close>: the first u32 raw, then the zig-zag coded differences of successive values as
  LEB128 groups.  The differences wrap at 32 bits in both directions.
\<close>

definition dtl_delta_zigzag :: "u32 \<Rightarrow> u32" where
  "dtl_delta_zigzag d = push_bit 1 d XOR (0 - drop_bit 31 d)"

definition dtl_delta_unzigzag :: "u32 \<Rightarrow> u32" where
  "dtl_delta_unzigzag z = drop_bit 1 z XOR (0 - (z AND 1))"

text \<open>The encoder's loop with the number of values still to read.\<close>

fun delta_encode_loop :: "nat \<Rightarrow> u8 list \<Rightarrow> u32 \<Rightarrow> nat \<Rightarrow> u8 list \<Rightarrow> u8 list res" where
  "delta_encode_loop 0 xs prev cap out = Ok out"
| "delta_encode_loop (Suc n) xs prev cap out =
     rbind (dtl_endian_read_u32le xs) (\<lambda>cur.
     rbind (varint_put (dtl_delta_zigzag (cur - prev)) cap out) (\<lambda>out.
     delta_encode_loop n (drop 4 xs) cur cap out))"

definition dtl_delta_encode :: coder where
  "dtl_delta_encode xs cap =
     (if length xs = 0 then Ok []
      else if length xs mod 4 \<noteq> 0 then Err DTL_ERR_TRUNCATED
      else let n = length xs div 4
      in rbind (dtl_endian_read_u32le xs) (\<lambda>prev.
         if size_sub cap 0 < 4 then Err DTL_ERR_RANGE
         else rbind (put_bytes cap [] (dtl_endian_write_u32le prev)) (\<lambda>out.
              delta_encode_loop (n - 1) (drop 4 xs) prev cap out)))"

function delta_decode_loop :: "u8 list \<Rightarrow> u32 \<Rightarrow> nat \<Rightarrow> u8 list \<Rightarrow> u8 list res" where
  "delta_decode_loop xs prev cap out =
     (if xs = [] then Ok out
      else rbind (varint_get xs 0 0) (\<lambda>(zz, rest).
           let d = dtl_delta_unzigzag zz; cur = prev + d
           in if size_sub cap (length out) < 4 then Err DTL_ERR_RANGE
              else rbind (put_bytes cap out (dtl_endian_write_u32le cur)) (\<lambda>out.
                   delta_decode_loop rest cur cap out)))"
  by pat_completeness auto
termination
  by (relation "measure (\<lambda>(xs, prev, cap, out). length xs)") (auto dest: varint_get_shorter)

declare delta_decode_loop.simps [simp del]

definition dtl_delta_decode :: coder where
  "dtl_delta_decode xs cap =
     (if length xs = 0 then Ok []
      else if length xs < 4 then Err DTL_ERR_TRUNCATED
      else rbind (dtl_endian_read_u32le xs) (\<lambda>prev.
         if size_sub cap 0 < 4 then Err DTL_ERR_RANGE
         else rbind (put_bytes cap [] (dtl_endian_write_u32le prev)) (\<lambda>out.
              delta_decode_loop (drop 4 xs) prev cap out)))"

subsection \<open>Zig-zag\<close>

lemma xor_minus_one: "x XOR (- 1) = NOT (x :: u32)"
  by simp

lemma drop_bit31: "drop_bit 31 (d :: u32) = (if bit d 31 then 1 else 0)"
proof (rule bit_eqI)
  fix n
  show "bit (drop_bit 31 d) n = bit (if bit d 31 then 1 else 0 :: u32) n"
    by (cases n) (auto simp: bit_simps dest: bit_imp_le_length)
qed

lemma and_1_odd: "(z :: u32) AND 1 = (if bit z 0 then 1 else 0)"
  by (simp add: and_one_eq mod2_eq_if bit_0)

lemma bit_twice: "bit ((d :: u32) * 2) (Suc n) \<longleftrightarrow> n < 31 \<and> bit d n"
  by (subst mult.commute) (auto simp: bit_double_iff possible_bit_def)

lemma unzigzag_zigzag [simp]: "dtl_delta_unzigzag (dtl_delta_zigzag d) = d"
proof (cases "bit d 31")
  case True
  have "bit (dtl_delta_zigzag d) 0" using True
    by (simp add: dtl_delta_zigzag_def drop_bit31 bit_simps bit_0)
  then have "dtl_delta_unzigzag (dtl_delta_zigzag d) = NOT (drop_bit 1 (NOT (push_bit 1 d)))"
    using True by (simp add: dtl_delta_unzigzag_def dtl_delta_zigzag_def drop_bit31 and_1_odd)
  also have "\<dots> = d"
  proof (rule bit_word_eqI)
    fix n assume "n < LENGTH(32)"
    then show "bit (NOT (drop_bit 1 (NOT (push_bit 1 d)))) n = bit d n"
      using True by (cases "n = 31") (auto simp: bit_simps bit_twice)
  qed
  finally show ?thesis .
next
  case False
  have "\<not> bit (dtl_delta_zigzag d) 0" using False
    by (simp add: dtl_delta_zigzag_def drop_bit31 bit_simps bit_0)
  then have "dtl_delta_unzigzag (dtl_delta_zigzag d) = drop_bit 1 (push_bit 1 d)"
    using False by (simp add: dtl_delta_unzigzag_def dtl_delta_zigzag_def drop_bit31 and_1_odd)
  also have "\<dots> = d"
  proof (rule bit_word_eqI)
    fix n assume "n < LENGTH(32)"
    then show "bit (drop_bit 1 (push_bit 1 d)) n = bit d n"
      using False by (cases "n = 31") (auto simp: bit_simps bit_twice dest: bit_imp_le_length)
  qed
  finally show ?thesis .
qed

subsection \<open>Bounds and round trip\<close>

lemma delta_encode_loop_bounds:
  "length out \<le> cap \<Longrightarrow> length xs = 4 * n \<Longrightarrow> delta_encode_loop n xs prev cap out \<noteq> Ub \<and>
   (\<forall>ys. delta_encode_loop n xs prev cap out = Ok ys \<longrightarrow> length ys \<le> cap)"
proof (induction n arbitrary: xs prev out)
  case (Suc n)
  then obtain v where "dtl_endian_read_u32le xs = Ok v" using read_u32le_Ok [of xs] by auto
  with Suc.IH [of "out @ leb128 (dtl_delta_zigzag (v - prev))" "drop 4 xs" v] Suc.prems show ?case
    by (auto simp: varint_put_leb128)
qed simp

lemma delta_decode_loop_bounds:
  "length out \<le> cap \<Longrightarrow> delta_decode_loop xs prev cap out \<noteq> Ub \<and>
   (\<forall>ys. delta_decode_loop xs prev cap out = Ok ys \<longrightarrow> length ys \<le> cap)"
proof (induction xs arbitrary: out prev rule: measure_induct_rule [of length])
  case (less xs)
  show ?case
  proof (cases "varint_get xs 0 0")
    case (Ok p)
    obtain v r where p: "p = (v, r)" by (cases p)
    have "length r < length xs" using Ok p varint_get_shorter by blast
    with less.IH [of r "out @ dtl_endian_write_u32le (prev + dtl_delta_unzigzag v)"
        "prev + dtl_delta_unzigzag v"] less.prems Ok p
    show ?thesis
      by (subst (1 2) delta_decode_loop.simps) (auto simp: Let_def)
  qed (use less.prems varint_get_safe [of xs 0 0] in
      \<open>subst (1 2) delta_decode_loop.simps, auto split: if_splits\<close>)+
qed

lemma delta_encode_loop_spec:
  "length out \<le> cap \<Longrightarrow> length xs = 4 * n \<Longrightarrow> delta_encode_loop n xs prev cap out = Ok res \<Longrightarrow>
   \<exists>ys. res = out @ ys \<and>
     (\<forall>cap' out'. length out' + length xs \<le> cap' \<longrightarrow> delta_decode_loop ys prev cap' out' = Ok (out' @ xs))"
proof (induction n arbitrary: xs prev out)
  case 0
  then show ?case by (subst delta_decode_loop.simps) auto
next
  case (Suc n)
  then have len: "4 \<le> length xs" by simp
  then obtain v where v: "dtl_endian_read_u32le xs = Ok v" "xs = dtl_endian_write_u32le v @ drop 4 xs"
    using read_u32le_split by blast
  define zz where "zz = dtl_delta_zigzag (v - prev)"
  have fit: "length (out @ leb128 zz) \<le> cap"
    and e: "delta_encode_loop n (drop 4 xs) v cap (out @ leb128 zz) = Ok res"
    using Suc.prems v(1) by (auto simp: varint_put_leb128 zz_def split: if_splits)
  have "length (drop 4 xs) = 4 * n" using Suc.prems by simp
  from Suc.IH [OF fit this e] obtain ys where ys: "res = (out @ leb128 zz) @ ys"
    "\<forall>cap' out'. length out' + length (drop 4 xs) \<le> cap' \<longrightarrow>
       delta_decode_loop ys v cap' out' = Ok (out' @ drop 4 xs)" by blast
  have "delta_decode_loop (leb128 zz @ ys) prev cap' out' = Ok (out' @ xs)"
    if "length out' + length xs \<le> cap'" for cap' out'
  proof -
    have "delta_decode_loop ys v cap' (out' @ dtl_endian_write_u32le v) = Ok (out' @ xs)"
      using ys(2) that len v(2) by (metis (no_types, lifting) append.assoc length_append add.assoc)
    moreover have "prev + dtl_delta_unzigzag zz = v" by (simp add: zz_def)
    ultimately show ?thesis
      using that len by (subst delta_decode_loop.simps) (simp add: Let_def)
  qed
  with ys(1) show ?case by (intro exI [of _ "leb128 zz @ ys"]) simp
qed

lemma mod4_split:
  assumes "length xs mod 4 = 0" "xs \<noteq> []"
  shows "4 \<le> length xs" "length (drop 4 xs) = 4 * (length xs div 4 - 1)"
proof -
  obtain k where k: "length xs = 4 * k" using assms(1) by (auto elim: dvdE simp flip: dvd_eq_mod_eq_0)
  moreover have "k \<noteq> 0" using k assms(2) by (metis length_0_conv mult_0_right)
  ultimately show "4 \<le> length xs" "length (drop 4 xs) = 4 * (length xs div 4 - 1)"
    by (simp_all add: right_diff_distrib')
qed

lemma delta_encode_bounds:
  "dtl_delta_encode xs cap \<noteq> Ub \<and> (\<forall>ys. dtl_delta_encode xs cap = Ok ys \<longrightarrow> length ys \<le> cap)"
proof (cases "xs = [] \<or> length xs mod 4 \<noteq> 0")
  case False
  then have len: "4 \<le> length xs" "length (drop 4 xs) = 4 * (length xs div 4 - 1)"
    using mod4_split by blast+
  then obtain v where "dtl_endian_read_u32le xs = Ok v" using read_u32le_Ok by blast
  then show ?thesis
    using delta_encode_loop_bounds [of "dtl_endian_write_u32le v" cap "drop 4 xs", OF _ len(2)] False
    by (auto simp: dtl_delta_encode_def Let_def)
qed (auto simp: dtl_delta_encode_def)

lemma delta_decode_bounds:
  "dtl_delta_decode xs cap \<noteq> Ub \<and> (\<forall>ys. dtl_delta_decode xs cap = Ok ys \<longrightarrow> length ys \<le> cap)"
proof (cases "length xs < 4")
  case False
  then obtain v where "dtl_endian_read_u32le xs = Ok v" using read_u32le_Ok [of xs] by auto
  then show ?thesis
    using delta_decode_loop_bounds [of "dtl_endian_write_u32le v" cap "drop 4 xs" v] False
    by (auto simp: dtl_delta_decode_def)
qed (auto simp: dtl_delta_decode_def)

lemma delta_roundtrip:
  assumes "length xs \<le> cap'" "dtl_delta_encode xs cap = Ok ys"
  shows "dtl_delta_decode ys cap' = Ok xs"
proof (cases "xs = []")
  case False
  then have m: "length xs mod 4 = 0"
    using assms(2) by (auto simp: dtl_delta_encode_def split: if_splits)
  note len = mod4_split [OF m False]
  obtain v where v: "dtl_endian_read_u32le xs = Ok v" "xs = dtl_endian_write_u32le v @ drop 4 xs"
    using read_u32le_split [OF len(1)] by blast
  have "length (dtl_endian_write_u32le v) \<le> cap"
    and "delta_encode_loop (length xs div 4 - 1) (drop 4 xs) v cap (dtl_endian_write_u32le v) = Ok ys"
    using assms(2) False m v(1) by (auto simp: dtl_delta_encode_def Let_def split: if_splits)
  from delta_encode_loop_spec [OF this(1) len(2) this(2)] obtain zs where
    zs: "ys = dtl_endian_write_u32le v @ zs"
    "\<forall>cap' out'. length out' + length (drop 4 xs) \<le> cap' \<longrightarrow>
       delta_decode_loop zs v cap' out' = Ok (out' @ drop 4 xs)" by blast
  have "delta_decode_loop zs v cap' (dtl_endian_write_u32le v) = Ok xs"
    using zs(2) assms(1) len(1) v(2) by (metis (no_types, lifting) length_append)
  then show ?thesis
    using zs(1) assms(1) len(1) by (simp add: dtl_delta_decode_def)
qed (use assms in \<open>simp add: dtl_delta_encode_def dtl_delta_decode_def\<close>)

interpretation delta_dec: pure_coder dtl_delta_decode
  using delta_decode_bounds by unfold_locales blast+

interpretation delta: pure_codec dtl_delta_encode dtl_delta_decode
  using delta_encode_bounds delta_decode_bounds delta_roundtrip by unfold_locales blast+

end
