(* ===== verification/Codec_Lz77.thy ===== *)
theory Codec_Lz77
  imports Codec_Spec Core_Endian
begin

text \<open>
  \<^verbatim>\<open>src/codec/lz77.c\<close>: LZ77 with a 4096-byte window and groups of eight tokens behind a flag byte.

  The encoder reads its input by index, as the code does; the decoder's input cursor is the list of
  unread bytes.  The decoder's guard accepts a match offset one larger than the bytes written so
  far; the copy then starts at \<open>out[-1]\<close>.  The subtraction \<open>o - offset\<close> wraps in the model as in
  C, so that read is \<open>Ub\<close>.
\<close>

definition DTL_LZ77_WINDOW :: nat where "DTL_LZ77_WINDOW = 4096"
definition DTL_LZ77_MIN_MATCH :: nat where "DTL_LZ77_MIN_MATCH = 3"
definition DTL_LZ77_MAX_MATCH :: nat where "DTL_LZ77_MAX_MATCH = 18"

lemmas lz77_consts = DTL_LZ77_WINDOW_def DTL_LZ77_MIN_MATCH_def DTL_LZ77_MAX_MATCH_def

subsection \<open>Match search\<close>

function lz77_match_len :: "u8 list \<Rightarrow> nat \<Rightarrow> nat \<Rightarrow> nat \<Rightarrow> nat \<Rightarrow> nat res" where
  "lz77_match_len inp s p maxlen l =
     (if l < maxlen then
        rbind (byte_at inp (s + l)) (\<lambda>x. rbind (byte_at inp (p + l)) (\<lambda>y.
          if x = y then lz77_match_len inp s p maxlen (l + 1) else Ok l))
      else Ok l)"
  by pat_completeness auto
termination by (relation "measure (\<lambda>(inp, s, p, maxlen, l). maxlen - l)") auto

declare lz77_match_len.simps [simp del]

function lz77_find_loop :: "u8 list \<Rightarrow> nat \<Rightarrow> nat \<Rightarrow> nat \<Rightarrow> nat \<Rightarrow> nat \<Rightarrow> (nat \<times> nat) res" where
  "lz77_find_loop inp p maxlen s best_len best_off =
     (if s < p then
        rbind (lz77_match_len inp s p maxlen 0) (\<lambda>l.
          if l > best_len then
            (if l = maxlen then Ok (l, p - s) else lz77_find_loop inp p maxlen (s + 1) l (p - s))
          else lz77_find_loop inp p maxlen (s + 1) best_len best_off)
      else Ok (best_len, best_off))"
  by pat_completeness auto
termination by (relation "measure (\<lambda>(inp, p, maxlen, s, bl, bo). p - s)") auto

declare lz77_find_loop.simps [simp del]

text \<open>The best match length (0 if none is worth encoding) and its distance.\<close>

definition dtl_lz77_find :: "u8 list \<Rightarrow> nat \<Rightarrow> nat \<Rightarrow> (nat \<times> nat) res" where
  "dtl_lz77_find inp p off =
     (let start = (if p > DTL_LZ77_WINDOW then p - DTL_LZ77_WINDOW else 0);
          maxlen = size_sub (length inp) p;
          maxlen = (if maxlen > DTL_LZ77_MAX_MATCH then DTL_LZ77_MAX_MATCH else maxlen)
      in rbind (lz77_find_loop inp p maxlen start 0 off) (\<lambda>(best_len, best_off).
         if best_len < DTL_LZ77_MIN_MATCH then Ok (0, best_off) else Ok (best_len, best_off)))"

subsection \<open>Encoder\<close>

text \<open>
  \<open>grp\<close> is the local array \<open>group\<close> of 17 bytes up to \<open>group_len\<close>; its first byte is set from \<open>flag\<close>
  when the group is written out.
\<close>

definition LZ77_GROUP_CAP :: nat where "LZ77_GROUP_CAP = 1 + 8 * 2"

definition lz77_flush :: "nat \<Rightarrow> u8 list \<Rightarrow> u8 list \<Rightarrow> u8 \<Rightarrow> u8 list res" where
  "lz77_flush cap out grp flag =
     (if size_sub cap (length out) < length grp then Err DTL_ERR_RANGE
      else put_bytes cap out (grp[0 := flag]))"

text \<open>The token at \<open>p\<close>: the group, the flag and the next position.\<close>

definition lz77_token :: "u8 list \<Rightarrow> nat \<Rightarrow> u8 list \<Rightarrow> nat \<Rightarrow> u8 \<Rightarrow> (u8 list \<times> u8 \<times> nat) res" where
  "lz77_token inp p grp tokens flag =
     rbind (dtl_lz77_find inp p 0) (\<lambda>(len, off).
     if len \<ge> DTL_LZ77_MIN_MATCH then
       (let off_field = of_nat (size_sub off 1) :: u32;
            len_field = of_nat (size_sub len DTL_LZ77_MIN_MATCH) :: u32
        in rbind (put_byte LZ77_GROUP_CAP grp (ucast (off_field AND 0xFF))) (\<lambda>grp.
           rbind (put_byte LZ77_GROUP_CAP grp
                    (ucast (push_bit 4 (drop_bit 8 off_field) OR len_field))) (\<lambda>grp.
           Ok (grp, flag OR push_bit tokens 1, p + len))))
     else
       rbind (byte_at inp p) (\<lambda>b.
       rbind (put_byte LZ77_GROUP_CAP grp b) (\<lambda>grp.
       Ok (grp, flag, p + 1))))"

lemma lz77_token_progress: "lz77_token inp p grp tokens flag = Ok (grp', flag', p') \<Longrightarrow> p < p'"
  by (auto simp: lz77_token_def rbind_eq_Ok_iff lz77_consts Let_def split: if_splits)

function lz77_encode_loop ::
  "u8 list \<Rightarrow> nat \<Rightarrow> nat \<Rightarrow> u8 list \<Rightarrow> u8 list \<Rightarrow> nat \<Rightarrow> u8 \<Rightarrow> u8 list res" where
  "lz77_encode_loop inp cap p out grp tokens flag =
     (if p < length inp then
        rbind (lz77_token inp p grp tokens flag) (\<lambda>(grp, flag, p).
        if tokens + 1 = 8 then
          rbind (lz77_flush cap out grp flag) (\<lambda>out. lz77_encode_loop inp cap p out [0] 0 0)
        else lz77_encode_loop inp cap p out grp (tokens + 1) flag)
      else if tokens \<noteq> 0 then lz77_flush cap out grp flag
      else Ok out)"
  by pat_completeness auto
termination
  by (relation "measure (\<lambda>(inp, cap, p, out, grp, tokens, flag). length inp - p)")
    (auto dest!: lz77_token_progress)

declare lz77_encode_loop.simps [simp del]

definition dtl_lz77_encode :: coder where
  "dtl_lz77_encode xs cap = lz77_encode_loop xs cap 0 [] [0] 0 0"

subsection \<open>Decoder\<close>

text \<open>The byte-by-byte copy of \<open>n\<close> bytes of the output from index \<open>src\<close> on.\<close>

fun lz77_copy :: "nat \<Rightarrow> nat \<Rightarrow> nat \<Rightarrow> u8 list \<Rightarrow> u8 list res" where
  "lz77_copy 0 src cap out = Ok out"
| "lz77_copy (Suc n) src cap out =
     rbind (byte_at out src) (\<lambda>b. rbind (put_byte cap out b) (\<lambda>out. lz77_copy n (src + 1) cap out))"

definition lz77_match :: "u8 \<Rightarrow> u8 \<Rightarrow> nat \<Rightarrow> u8 list \<Rightarrow> u8 list res" where
  "lz77_match b0 b1 cap out =
     (let offset = (unat b0 OR push_bit 8 (unat (drop_bit 4 b1))) + 1;
          len = unat (b1 AND 0x0F) + DTL_LZ77_MIN_MATCH
      in if offset = 0 \<or> offset > length out + 1 then Err DTL_ERR_BADRECORD
         else if size_sub cap (length out) < len then Err DTL_ERR_RANGE
         else lz77_copy len (size_sub (length out) offset) cap out)"

text \<open>The tokens of one grp from bit number \<open>b\<close> on: the unread bytes and the output.\<close>

function lz77_group :: "nat \<Rightarrow> u8 \<Rightarrow> u8 list \<Rightarrow> nat \<Rightarrow> u8 list \<Rightarrow> (u8 list \<times> u8 list) res" where
  "lz77_group b flag rest cap out =
     (if b \<ge> 8 then Ok (rest, out)
      else case rest of [] \<Rightarrow> Ok (rest, out)
      | b0 # rest1 \<Rightarrow>
          if drop_bit b flag AND 1 \<noteq> 0 then
            (case rest1 of [] \<Rightarrow> Err DTL_ERR_TRUNCATED
             | b1 # rest2 \<Rightarrow>
                 rbind (lz77_match b0 b1 cap out) (\<lambda>out. lz77_group (b + 1) flag rest2 cap out))
          else if size_sub cap (length out) < 1 then Err DTL_ERR_RANGE
          else rbind (put_byte cap out b0) (\<lambda>out. lz77_group (b + 1) flag rest1 cap out))"
  by pat_completeness auto
termination by (relation "measure (\<lambda>(b, flag, rest, cap, out). 8 - b)") auto

declare lz77_group.simps [simp del]

lemma lz77_group_OkE:
  assumes "lz77_group b flag rest cap out = Ok (r, out')"
  obtains (stop) "r = rest" "out' = out"
  | (copied) b0 b1 rest2 out1 where "rest = b0 # b1 # rest2" "b < 8"
      "lz77_match b0 b1 cap out = Ok out1" "lz77_group (b + 1) flag rest2 cap out1 = Ok (r, out')"
  | (literal) b0 rest1 where "rest = b0 # rest1" "b < 8" "put_byte cap out b0 = (Ok (out @ [b0]) :: u8 list res)"
      "lz77_group (b + 1) flag rest1 cap (out @ [b0]) = Ok (r, out')"
proof (cases "8 \<le> b \<or> rest = []")
  case True
  then show ?thesis using assms stop by (subst (asm) lz77_group.simps) (auto split: if_splits)
next
  case False
  then obtain b0 rest1 where rest: "rest = b0 # rest1" by (cases rest) auto
  show ?thesis
  proof (cases "drop_bit b flag AND 1 = 0")
    case True
    with False rest assms show ?thesis
      by (subst (asm) lz77_group.simps)
        (auto simp: rbind_eq_Ok_iff put_byte_eq_Ok_iff split: if_splits intro: literal)
  next
    case False
    with \<open>\<not> (8 \<le> b \<or> rest = [])\<close> rest assms copied show ?thesis
      by (subst (asm) lz77_group.simps) (auto simp: rbind_eq_Ok_iff split: list.splits)
  qed
qed

lemma lz77_group_shorter: "lz77_group b flag rest cap out = Ok (r, out') \<Longrightarrow> length r \<le> length rest"
proof (induction b arbitrary: rest out rule: measure_induct_rule [of "\<lambda>b. 8 - b"])
  case (less b)
  from less.prems show ?case
  proof (cases rule: lz77_group_OkE)
    case (copied b0 b1 rest2 out1)
    then show ?thesis using less.IH [OF _ copied(4)] by fastforce
  next
    case (literal b0 rest1)
    then show ?thesis using less.IH [OF _ literal(4)] by fastforce
  qed simp
qed

function lz77_decode_loop :: "u8 list \<Rightarrow> nat \<Rightarrow> u8 list \<Rightarrow> u8 list res" where
  "lz77_decode_loop [] cap out = Ok out"
| "lz77_decode_loop (flag # rest) cap out =
     rbind (lz77_group 0 flag rest cap out) (\<lambda>(rest, out). lz77_decode_loop rest cap out)"
  by pat_completeness auto
termination
  by (relation "measure (\<lambda>(xs, cap, out). length xs)") (auto dest!: lz77_group_shorter)

definition dtl_lz77_decode :: coder where
  "dtl_lz77_decode xs cap = lz77_decode_loop xs cap []"

subsection \<open>Output bounds\<close>

lemma lz77_copy_fits: "length out \<le> cap \<Longrightarrow> lz77_copy n src cap out = Ok out' \<Longrightarrow> length out' \<le> cap"
  by (induction n src cap out rule: lz77_copy.induct)
    (auto simp: rbind_eq_Ok_iff put_byte_eq_Ok_iff)

lemma lz77_match_fits: "length out \<le> cap \<Longrightarrow> lz77_match b0 b1 cap out = Ok out' \<Longrightarrow> length out' \<le> cap"
  by (auto simp: lz77_match_def Let_def split: if_splits intro: lz77_copy_fits)

lemma lz77_group_fits:
  "length out \<le> cap \<Longrightarrow> lz77_group b flag rest cap out = Ok (r, out') \<Longrightarrow> length out' \<le> cap"
proof (induction b arbitrary: rest out rule: measure_induct_rule [of "\<lambda>b. 8 - b"])
  case (less b)
  from less.prems(2) show ?case
  proof (cases rule: lz77_group_OkE)
    case stop
    then show ?thesis using less.prems(1) by simp
  next
    case (copied b0 b1 rest2 out1)
    then show ?thesis using less.IH [OF _ _ copied(4)] lz77_match_fits [OF less.prems(1)] by fastforce
  next
    case (literal b0 rest1)
    then show ?thesis using less.IH [OF _ _ literal(4)] by (fastforce simp: put_byte_def split: if_splits)
  qed
qed

lemma lz77_decode_loop_fits:
  "length out \<le> cap \<Longrightarrow> lz77_decode_loop xs cap out = Ok ys \<Longrightarrow> length ys \<le> cap"
  by (induction xs cap out rule: lz77_decode_loop.induct)
    (auto simp: rbind_eq_Ok_iff dest: lz77_group_fits)

text \<open>
  The decoder reads before its output: a match as the very first token with offset field 0 passes
  the guard and copies from \<open>out[-1]\<close>.
\<close>

lemma lz77_decode_reads_before_output: "3 \<le> cap \<Longrightarrow> dtl_lz77_decode [1, 0, 0] cap = Ub"
  by (simp add: dtl_lz77_decode_def lz77_group.simps lz77_match_def Let_def lz77_consts size_sub_def
      byte_at_def numeral_3_eq_3)

subsection \<open>What the match search finds\<close>

definition lz77_matches :: "u8 list \<Rightarrow> nat \<Rightarrow> nat \<Rightarrow> nat \<Rightarrow> bool" where
  "lz77_matches inp s p n \<longleftrightarrow> (\<forall>j < n. inp ! (s + j) = inp ! (p + j))"

lemma lz77_match_len_Ok:
  "s < p \<Longrightarrow> p + maxlen \<le> length inp \<Longrightarrow> l \<le> maxlen \<Longrightarrow> lz77_matches inp s p l \<Longrightarrow>
   \<exists>n. lz77_match_len inp s p maxlen l = Ok n \<and> n \<le> maxlen \<and> lz77_matches inp s p n"
proof (induction inp s p maxlen l rule: lz77_match_len.induct)
  case (1 inp s p maxlen l)
  show ?case
  proof (cases "l < maxlen \<and> inp ! (s + l) = inp ! (p + l)")
    case True
    then have "lz77_matches inp s p (l + 1)"
      using 1(5) by (auto simp: lz77_matches_def less_Suc_eq)
    with True 1(2,3) 1(1) [of "inp ! (s + l)" "inp ! (p + l)"] show ?thesis
      by (subst lz77_match_len.simps) auto
  next
    case False
    with 1(2-5) show ?thesis by (subst lz77_match_len.simps) auto
  qed
qed

lemma lz77_find_loop_Ok:
  "p + maxlen \<le> length inp \<Longrightarrow> s \<le> p \<Longrightarrow> lo \<le> s \<Longrightarrow> best_len \<le> maxlen \<Longrightarrow>
   best_len = 0 \<or> 0 < best_off \<and> best_off + lo \<le> p \<and> lz77_matches inp (p - best_off) p best_len \<Longrightarrow>
   \<exists>n off. lz77_find_loop inp p maxlen s best_len best_off = Ok (n, off) \<and> n \<le> maxlen \<and>
     (n = 0 \<or> 0 < off \<and> off + lo \<le> p \<and> lz77_matches inp (p - off) p n)"
proof (induction inp p maxlen s best_len best_off rule: lz77_find_loop.induct)
  case (1 inp p maxlen s best_len best_off)
  show ?case
  proof (cases "s < p")
    case True
    then obtain l where l: "lz77_match_len inp s p maxlen 0 = Ok l" "l \<le> maxlen" "lz77_matches inp s p l"
      using lz77_match_len_Ok [of s p maxlen inp 0] 1(3) by (auto simp: lz77_matches_def)
    show ?thesis
    proof (cases "l > best_len \<and> l \<noteq> maxlen")
      case True
      with 1(1) [OF \<open>s < p\<close> l(1)] l 1(3,5) \<open>s < p\<close> show ?thesis
        by (subst lz77_find_loop.simps) simp
    next
      case False
      with 1(2) [OF \<open>s < p\<close> l(1)] l 1(3,5-7) \<open>s < p\<close> show ?thesis
        by (subst lz77_find_loop.simps) (simp, arith)
    qed
  next
    case False
    with 1(6,7) show ?thesis by (subst lz77_find_loop.simps) auto
  qed
qed

lemma lz77_find_Ok:
  assumes "p < length inp"
  shows "\<exists>n off. dtl_lz77_find inp p 0 = Ok (n, off) \<and> p + n \<le> length inp \<and> n \<le> 18 \<and>
     (n = 0 \<or> 3 \<le> n \<and> 0 < off \<and> off \<le> 4096 \<and> off \<le> p \<and> lz77_matches inp (p - off) p n)"
proof -
  define start where "start = (if p > DTL_LZ77_WINDOW then p - DTL_LZ77_WINDOW else 0)"
  define maxlen where "maxlen = (if length inp - p > DTL_LZ77_MAX_MATCH then DTL_LZ77_MAX_MATCH else length inp - p)"
  have "p + maxlen \<le> length inp" "start \<le> p" "maxlen \<le> 18"
    using assms by (auto simp: maxlen_def start_def lz77_consts)
  with lz77_find_loop_Ok [of p maxlen inp start start 0 0] obtain n off where
    n: "lz77_find_loop inp p maxlen start 0 0 = Ok (n, off)" "n \<le> maxlen"
    "n = 0 \<or> 0 < off \<and> off + start \<le> p \<and> lz77_matches inp (p - off) p n" by auto
  have "dtl_lz77_find inp p 0 = Ok (if n < 3 then 0 else n, off)"
    using n(1) assms by (simp add: dtl_lz77_find_def start_def maxlen_def Let_def lz77_consts)
  moreover have "0 < off \<and> off \<le> 4096 \<and> off \<le> p" if "n \<noteq> 0"
    using n(3) that by (auto simp: start_def lz77_consts split: if_splits)
  ultimately show ?thesis
    using n(2,3) \<open>p + maxlen \<le> length inp\<close> \<open>maxlen \<le> 18\<close> by auto
qed

subsection \<open>Tokens\<close>

datatype lz77_tok = Lit u8 | Match nat nat

fun tok_len :: "lz77_tok \<Rightarrow> nat" where
  "tok_len (Lit b) = 1"
| "tok_len (Match off n) = n"

fun tok_ok :: "u8 list \<Rightarrow> nat \<Rightarrow> lz77_tok \<Rightarrow> bool" where
  "tok_ok inp p (Lit b) \<longleftrightarrow> p < length inp \<and> b = inp ! p"
| "tok_ok inp p (Match off n) \<longleftrightarrow> 0 < off \<and> off \<le> p \<and> off \<le> 4096 \<and> 3 \<le> n \<and> n \<le> 18 \<and>
     p + n \<le> length inp \<and> lz77_matches inp (p - off) p n"

fun tok_bytes :: "lz77_tok \<Rightarrow> u8 list" where
  "tok_bytes (Lit b) = [b]"
| "tok_bytes (Match off n) =
     [ucast ((of_nat (off - 1) :: u32) AND 0xFF),
      ucast (push_bit 4 (drop_bit 8 (of_nat (off - 1) :: u32)) OR of_nat (n - 3))]"

fun is_match :: "lz77_tok \<Rightarrow> bool" where
  "is_match (Lit b) = False"
| "is_match (Match off n) = True"

lemma lz77_token_Ok:
  assumes "p < length inp" "length grp \<le> 15"
  shows "\<exists>t. lz77_token inp p grp tokens flag =
      Ok (grp @ tok_bytes t, if is_match t then flag OR push_bit tokens 1 else flag, p + tok_len t) \<and>
    tok_ok inp p t"
proof -
  obtain n off where f: "dtl_lz77_find inp p 0 = Ok (n, off)" "p + n \<le> length inp" "n \<le> 18"
    "n = 0 \<or> 3 \<le> n \<and> 0 < off \<and> off \<le> 4096 \<and> off \<le> p \<and> lz77_matches inp (p - off) p n"
    using lz77_find_Ok [OF assms(1)] by blast
  show ?thesis
  proof (cases "n = 0")
    case True
    with f assms show ?thesis
      by (intro exI [of _ "Lit (inp ! p)"]) (simp add: lz77_token_def lz77_consts LZ77_GROUP_CAP_def)
  next
    case False
    with f assms show ?thesis
      by (intro exI [of _ "Match off n"]) (auto simp: lz77_token_def lz77_consts LZ77_GROUP_CAP_def Let_def)
  qed
qed

lemma lz77_copy_Ok:
  "src < q \<Longrightarrow> lz77_matches inp src q n \<Longrightarrow> q + n \<le> length inp \<Longrightarrow> q + n \<le> cap \<Longrightarrow>
   lz77_copy n src cap (take q inp) = Ok (take (q + n) inp)"
proof (induction n arbitrary: src q)
  case (Suc n)
  have "inp ! src = inp ! q" using Suc.prems(2) by (auto simp: lz77_matches_def dest: spec [of _ 0])
  then have "take q inp @ [inp ! src] = take (Suc q) inp"
    using Suc.prems by (simp add: take_Suc_conv_app_nth)
  moreover have "lz77_matches inp (Suc src) (Suc q) n"
    using Suc.prems(2) by (auto simp: lz77_matches_def dest: spec [of _ "Suc _"])
  ultimately show ?case using Suc.IH [of "Suc src" "Suc q"] Suc.prems by simp
qed simp

lemma match_fields:
  assumes "off' < 4096" "n' < 16"
  defines "w \<equiv> of_nat off' :: u32" and "k \<equiv> of_nat n' :: u32"
  shows "unat (ucast (w AND 0xFF) :: u8) OR push_bit 8 (unat (drop_bit 4 (ucast (push_bit 4 (drop_bit 8 w) OR k) :: u8)))
      = off'"
    and "unat ((ucast (push_bit 4 (drop_bit 8 w) OR k) :: u8) AND 0x0F) = n'"
proof -
  have w: "unat w = off'" and k: "unat k = n'" using assms(1,2) by (simp_all add: w_def k_def)
  have wb: "bit w i \<longleftrightarrow> bit off' i" "bit w i \<Longrightarrow> i < 12" for i
  proof -
    show b: "bit w i \<longleftrightarrow> bit off' i"
      unfolding w [symmetric] by (auto simp: bit_simps dest: bit_imp_le_length)
    have "take_bit 12 off' = off'" using assms(1) by (simp add: take_bit_nat_eq_self)
    then show "bit w i \<Longrightarrow> i < 12" unfolding b by (metis bit_take_bit_iff)
  qed
  have kb: "bit k i \<longleftrightarrow> bit n' i" "bit k i \<Longrightarrow> i < 4" for i
  proof -
    show b: "bit k i \<longleftrightarrow> bit n' i"
      unfolding k [symmetric] by (auto simp: bit_simps dest: bit_imp_le_length)
    have "take_bit 4 n' = n'" using assms(2) by (simp add: take_bit_nat_eq_self)
    then show "bit k i \<Longrightarrow> i < 4" unfolding b by (metis bit_take_bit_iff)
  qed
  have "drop_bit 4 (ucast (push_bit 4 (drop_bit 8 w) OR k) :: u8) = ucast (drop_bit 8 w)"
    using kb(2) wb(2) by (intro bit_eqI) (force simp: bit_simps)
  moreover have "unat (ucast w :: u8) OR push_bit 8 (unat (ucast (drop_bit 8 w) :: u8)) = off'"
    using wb by (intro bit_eqI) (force simp: bit_simps)
  ultimately show "unat (ucast (w AND 0xFF) :: u8) OR
      push_bit 8 (unat (drop_bit 4 (ucast (push_bit 4 (drop_bit 8 w) OR k) :: u8))) = off'"
    by simp
  have m: "(0x0F :: u8) = mask 4" by (simp add: mask_eq_exp_minus_1)
  show "unat ((ucast (push_bit 4 (drop_bit 8 w) OR k) :: u8) AND 0x0F) = n'"
    unfolding m using kb by (intro bit_eqI) (force simp: bit_simps)
qed

lemma lz77_match_tok:
  assumes "tok_ok inp p (Match off n)" "p + n \<le> cap" "tok_bytes (Match off n) = [b0, b1]"
  shows "lz77_match b0 b1 cap (take p inp) = Ok (take (p + n) inp)"
proof -
  have "off - 1 < 4096" "n - 3 < 16" using assms(1) by auto
  from match_fields [OF this] assms(3)
  have f: "unat b0 OR push_bit 8 (unat (drop_bit 4 b1)) = off - 1" "unat (b1 AND 0x0F) = n - 3" by auto
  show ?thesis
    unfolding lz77_match_def f Let_def using lz77_copy_Ok [of "p - off" p inp n cap] assms(1,2)
    by (simp add: lz77_consts)
qed

subsection \<open>Groups\<close>

definition toks_bytes :: "lz77_tok list \<Rightarrow> u8 list" where
  "toks_bytes ts = concat (map tok_bytes ts)"

definition toks_len :: "lz77_tok list \<Rightarrow> nat" where
  "toks_len ts = sum_list (map tok_len ts)"

fun toks_ok :: "u8 list \<Rightarrow> nat \<Rightarrow> lz77_tok list \<Rightarrow> bool" where
  "toks_ok inp p [] = True"
| "toks_ok inp p (t # ts) \<longleftrightarrow> tok_ok inp p t \<and> toks_ok inp (p + tok_len t) ts"

definition flag_bits :: "u8 \<Rightarrow> nat \<Rightarrow> lz77_tok list \<Rightarrow> bool" where
  "flag_bits flag b ts \<longleftrightarrow> (\<forall>j < length ts. bit flag (b + j) \<longleftrightarrow> is_match (ts ! j))"

lemma toks_simps [simp]:
  "toks_bytes [] = []" "toks_bytes (t # ts) = tok_bytes t @ toks_bytes ts"
  "toks_bytes (ts @ us) = toks_bytes ts @ toks_bytes us"
  "toks_len [] = 0" "toks_len (t # ts) = tok_len t + toks_len ts"
  "toks_len (ts @ us) = toks_len ts + toks_len us"
  by (simp_all add: toks_bytes_def toks_len_def)

lemma toks_ok_append [simp]: "toks_ok inp p (ts @ us) \<longleftrightarrow> toks_ok inp p ts \<and> toks_ok inp (p + toks_len ts) us"
  by (induction ts arbitrary: p) (auto simp: add.assoc)

lemma flag_bits_Cons: "flag_bits flag b (t # ts) \<longleftrightarrow> (bit flag b \<longleftrightarrow> is_match t) \<and> flag_bits flag (Suc b) ts"
  unfolding flag_bits_def by (auto simp: nth_Cons' less_Suc_eq_0_disj)

lemma flag_test: "drop_bit b (flag :: u8) AND 1 \<noteq> 0 \<longleftrightarrow> bit flag b"
  by (simp add: and_one_eq bit_iff_odd_drop_bit odd_iff_mod_2_eq_one)

lemma tok_ok_len: "tok_ok inp p t \<Longrightarrow> 0 < tok_len t \<and> p + tok_len t \<le> length inp"
  by (cases t) auto

lemma tok_bytes_len: "length (tok_bytes t) \<le> 2"
  by (cases t) auto

lemma toks_bytes_len: "length (toks_bytes ts) \<le> 2 * length ts"
proof (induction ts)
  case (Cons t ts)
  then show ?case using tok_bytes_len [of t] by simp
qed simp

lemma lz77_group_toks:
  "toks_ok inp p ts \<Longrightarrow> flag_bits flag b ts \<Longrightarrow> b + length ts \<le> 8 \<Longrightarrow>
   b + length ts = 8 \<or> r = [] \<Longrightarrow> length inp \<le> cap \<Longrightarrow>
   lz77_group b flag (toks_bytes ts @ r) cap (take p inp) = Ok (r, take (p + toks_len ts) inp)"
proof (induction ts arbitrary: p b)
  case Nil
  then show ?case by (subst lz77_group.simps) auto
next
  case (Cons t ts)
  have IH: "lz77_group (Suc b) flag (toks_bytes ts @ r) cap (take (p + tok_len t) inp)
      = Ok (r, take (p + tok_len t + toks_len ts) inp)"
    using Cons.IH [of "p + tok_len t" "Suc b"] Cons.prems by (simp add: flag_bits_Cons)
  have b: "b < 8" and ok: "tok_ok inp p t" and m: "bit flag b \<longleftrightarrow> is_match t"
    using Cons.prems by (simp_all add: flag_bits_Cons)
  show ?case
  proof (cases t)
    case (Lit x)
    then have "take p inp @ [x] = take (p + tok_len t) inp" "p < cap" "p < length inp"
      using ok Cons.prems(5) by (simp_all add: take_Suc_conv_app_nth)
    then show ?thesis
      using IH b m Lit by (subst lz77_group.simps) (simp add: flag_test add.assoc)
  next
    case (Match off n)
    then obtain b0 b1 where bs: "tok_bytes t = [b0, b1]" by simp
    have "lz77_match b0 b1 cap (take p inp) = Ok (take (p + tok_len t) inp)"
      using lz77_match_tok [of inp p off n cap b0 b1] ok Match bs tok_ok_len [OF ok] Cons.prems(5) by auto
    then show ?thesis
      using IH b m Match bs by (subst lz77_group.simps) (simp add: flag_test add.assoc)
  qed
qed

subsection \<open>Round trip\<close>

text \<open>A group under construction: the tokens since \<open>p0\<close> cover the input up to \<open>p\<close>.\<close>

definition group_inv :: "u8 list \<Rightarrow> nat \<Rightarrow> nat \<Rightarrow> lz77_tok list \<Rightarrow> u8 \<Rightarrow> bool" where
  "group_inv inp p0 p ts flag \<longleftrightarrow> toks_ok inp p0 ts \<and> p = p0 + toks_len ts \<and> p \<le> length inp \<and>
     flag_bits flag 0 ts \<and> (\<forall>j \<ge> length ts. \<not> bit flag j)"

lemma group_inv_empty: "p \<le> length inp \<Longrightarrow> group_inv inp p p [] 0"
  by (simp add: group_inv_def flag_bits_def)

lemma group_inv_snoc:
  assumes "group_inv inp p0 p ts flag" "tok_ok inp p t" "length ts < 8"
  shows "group_inv inp p0 (p + tok_len t) (ts @ [t])
    (if is_match t then flag OR push_bit (length ts) 1 else flag)"
proof -
  have "bit (push_bit (length ts) 1 :: u8) j \<longleftrightarrow> j = length ts" for j
    using assms(3) by (auto simp: bit_simps)
  then show ?thesis
    using assms tok_ok_len [OF assms(2)]
    by (auto simp: group_inv_def flag_bits_def bit_or_iff nth_append less_Suc_eq)
qed

lemma lz77_flush_Ok:
  assumes "length out \<le> cap"
  shows "lz77_flush cap out (g # gs) flag =
    (if length out + length (g # gs) \<le> cap then Ok (out @ flag # gs) else Err DTL_ERR_RANGE)"
  using assms by (auto simp: lz77_flush_def)

lemma lz77_decode_group:
  assumes "group_inv inp p0 p ts flag" "length ts \<le> 8" "length ts = 8 \<or> ys = []" "length inp \<le> cap"
  shows "lz77_decode_loop (flag # toks_bytes ts @ ys) cap (take p0 inp) = lz77_decode_loop ys cap (take p inp)"
  using assms lz77_group_toks [of inp p0 ts flag 0 ys cap] by (simp add: group_inv_def)

lemma lz77_encode_loop_spec:
  "group_inv inp p0 p ts flag \<Longrightarrow> length ts < 8 \<Longrightarrow> length out \<le> cap \<Longrightarrow>
   lz77_encode_loop inp cap p out (0 # toks_bytes ts) (length ts) flag \<noteq> Ub \<and>
   (\<forall>res. lz77_encode_loop inp cap p out (0 # toks_bytes ts) (length ts) flag = Ok res \<longrightarrow>
     length res \<le> cap \<and> (\<exists>ys. res = out @ ys \<and>
       (\<forall>cap'. length inp \<le> cap' \<longrightarrow> lz77_decode_loop ys cap' (take p0 inp) = Ok inp)))"
proof (induction p arbitrary: p0 ts flag out rule: measure_induct_rule [of "\<lambda>p. length inp - p"])
  case (less p)
  note inv = less.prems(1)
  have grp: "length (0 # toks_bytes ts) \<le> 15" using toks_bytes_len [of ts] less.prems(2) by simp
  show ?case
  proof (cases "p < length inp")
    case True
    then obtain t where t: "lz77_token inp p (0 # toks_bytes ts) (length ts) flag =
        Ok (0 # toks_bytes (ts @ [t]), if is_match t then flag OR push_bit (length ts) 1 else flag, p + tok_len t)"
      and ok: "tok_ok inp p t"
      using lz77_token_Ok [OF True grp, of "length ts" flag] by auto
    define flag' where "flag' = (if is_match t then flag OR push_bit (length ts) 1 else flag)"
    note inv' = group_inv_snoc [OF inv ok less.prems(2), folded flag'_def]
    have less': "length inp - (p + tok_len t) < length inp - p" "p + tok_len t \<le> length inp"
      using True tok_ok_len [OF ok] by linarith+
    show ?thesis
    proof (cases "length ts = 7")
      case False
      with less.IH [OF less'(1) inv' _ less.prems(3)] less.prems(2) True t show ?thesis
        by (subst (1 2) lz77_encode_loop.simps) (simp add: flag'_def)
    next
      case seven: True
      have step: "lz77_encode_loop inp cap p out (0 # toks_bytes ts) (length ts) flag =
          (if length out + length (0 # toks_bytes (ts @ [t])) \<le> cap
           then lz77_encode_loop inp cap (p + tok_len t) (out @ flag' # toks_bytes (ts @ [t])) [0] 0 0
           else Err DTL_ERR_RANGE)"
        using True t seven less.prems(3)
        by (subst lz77_encode_loop.simps) (simp add: lz77_flush_Ok flag'_def)
      show ?thesis
      proof (cases "length out + length (0 # toks_bytes (ts @ [t])) \<le> cap")
        case fits: True
        have "lz77_decode_loop (flag' # toks_bytes (ts @ [t]) @ ys) cap' (take p0 inp)
            = lz77_decode_loop ys cap' (take (p + tok_len t) inp)" if "length inp \<le> cap'" for ys cap'
          using lz77_decode_group [OF inv' _ _ that] seven by simp
        with less.IH [OF less'(1) group_inv_empty [OF less'(2)], of "out @ flag' # toks_bytes (ts @ [t])"] fits
        show ?thesis unfolding step by fastforce
      qed (simp add: step)
    qed
  next
    case False
    then have p: "p = length inp" using inv by (simp add: group_inv_def)
    show ?thesis
    proof (cases "ts = []")
      case True
      then have "p0 = length inp" using inv p by (simp add: group_inv_def)
      with False True less.prems(3) show ?thesis by (subst (1 2) lz77_encode_loop.simps) simp
    next
      case nonempty: False
      have "lz77_decode_loop (flag # toks_bytes ts) cap' (take p0 inp) = Ok inp" if "length inp \<le> cap'" for cap'
        using lz77_decode_group [OF inv _ _ that, of "[]"] less.prems(2) p by simp
      with False nonempty less.prems(3) show ?thesis
        by (subst (1 2) lz77_encode_loop.simps) (auto simp: lz77_flush_Ok)
    qed
  qed
qed

interpretation lz77: pure_codec dtl_lz77_encode dtl_lz77_decode
proof unfold_locales
  fix xs ys :: "u8 list" and cap cap'
  note spec = lz77_encode_loop_spec [OF group_inv_empty [of 0 xs], of "[]" cap, simplified]
  show "dtl_lz77_encode xs cap \<noteq> Ub" and "dtl_lz77_encode xs cap = Ok ys \<Longrightarrow> length ys \<le> cap"
    using spec by (auto simp: dtl_lz77_encode_def)
  show "dtl_lz77_decode xs cap = Ok ys \<Longrightarrow> length ys \<le> cap"
    using lz77_decode_loop_fits [of "[]" cap xs ys] by (simp add: dtl_lz77_decode_def)
  show "length xs \<le> cap' \<Longrightarrow> dtl_lz77_encode xs cap = Ok ys \<Longrightarrow> dtl_lz77_decode ys cap' = Ok xs"
    using spec by (auto simp: dtl_lz77_encode_def dtl_lz77_decode_def)
qed

end
