(* ===== verification/Codec_Dict.thy ===== *)
theory Codec_Dict
  imports Codec_Spec Core_Buf Core_Arena
begin

text \<open>
  \<^verbatim>\<open>src/codec/dict.c\<close>: a table of phrases and a stream of 16-bit phrase numbers.  Table entries are
  pairs of an offset into the input and a length, as in the code; both directions allocate their
  tables from an arena they free on every path.
\<close>

definition DTL_DICT_BLOCK :: nat where "DTL_DICT_BLOCK = 4"
definition DTL_DICT_MAX_ENTRIES :: nat where "DTL_DICT_MAX_ENTRIES = 65535"

type_synonym dtl_dict_entry = "nat \<times> u8"

text \<open>\<open>sizeof\<close> of \<open>dtl_dict_entry\<close>, \<open>dtl_dict_block\<close> and \<open>uint16_t\<close>.\<close>

definition sizeof_dict_entry :: nat where "sizeof_dict_entry = 16"
definition sizeof_u16 :: nat where "sizeof_u16 = 2"

subsection \<open>Decoder\<close>

fun dict_table_loop :: "nat \<Rightarrow> dtl_buf \<Rightarrow> (dtl_dict_entry list \<times> dtl_buf) res" where
  "dict_table_loop 0 b = Ok ([], b)"
| "dict_table_loop (Suc n) b =
     rbind (dtl_buf_read_u8 b) (\<lambda>(plen, b).
     if dtl_buf_remaining b < unat plen then Err DTL_ERR_TRUNCATED
     else rbind (dict_table_loop n (b\<lparr>buf_pos := buf_pos b + unat plen\<rparr>)) (\<lambda>(es, b').
          Ok ((buf_pos b, plen) # es, b')))"

lemma read_u16_advances:
  "dtl_buf_read_u16 b = Ok (v, b') \<Longrightarrow> buf_p b' = buf_p b \<and> buf_pos b' = buf_pos b + 2 \<and> buf_pos b < buf_len b"
  by (auto simp: dtl_buf_read_u16_def dtl_endian_read_u16le_def rbind_eq_Ok_iff byte_at_eq_Ok_iff buf_len_def
      split: if_splits)

function dict_token_loop :: "dtl_dict_entry list \<Rightarrow> dtl_buf \<Rightarrow> nat \<Rightarrow> u8 list \<Rightarrow> u8 list res" where
  "dict_token_loop entries b cap out =
     (if dtl_buf_remaining b \<noteq> 0 then
        rbind (dtl_buf_read_u16 b) (\<lambda>(i, b).
        if unat i \<ge> length entries then Err DTL_ERR_BADRECORD
        else let (ptr, len) = entries ! unat i
             in if size_sub cap (length out) < unat len then Err DTL_ERR_RANGE
                else rbind (slice_at (buf_p b) ptr (unat len)) (\<lambda>phrase.
                     rbind (put_bytes cap out phrase) (\<lambda>out. dict_token_loop entries b cap out)))
      else Ok out)"
  by pat_completeness auto
termination
  by (relation "measure (\<lambda>(entries, b, cap, out). buf_len b - buf_pos b)")
    (auto dest!: read_u16_advances simp: buf_len_def)

declare dict_token_loop.simps [simp del]

definition dtl_dict_decode_impl :: "mem \<Rightarrow> dtl_arena \<Rightarrow> u8 list \<Rightarrow> nat \<Rightarrow> u8 list res \<times> dtl_arena \<times> mem" where
  "dtl_dict_decode_impl m a xs cap =
     (let b = dtl_buf_init xs;
          body = (\<lambda>entry_count b. rbind (dict_table_loop (unat entry_count) b)
                   (\<lambda>(entries, b). dict_token_loop entries b cap []))
      in case dtl_buf_read_u16 b of
        Err rc \<Rightarrow> (Err rc, a, m) | Ub \<Rightarrow> (Ub, a, m)
      | Ok (entry_count, b) \<Rightarrow>
          if entry_count \<noteq> 0 then
            (case dtl_arena_alloc m a (unat (entry_count :: u16) * sizeof_dict_entry) of
               (None, a, m) \<Rightarrow> (Err DTL_ERR_OOM, a, m)
             | (Some _, a, m) \<Rightarrow> (body entry_count b, a, m))
          else (body entry_count b, a, m))"

text \<open>The wrapper both directions share: a fresh arena, freed on every path.\<close>

definition with_private_arena ::
  "(mem \<Rightarrow> dtl_arena \<Rightarrow> 'r res \<times> dtl_arena \<times> mem) \<Rightarrow> mem \<Rightarrow> 'r res \<times> mem" where
  "with_private_arena impl m =
     (case impl m (dtl_arena_init 0) of (rc, a, m) \<Rightarrow>
       (case dtl_arena_free m a of Ok (_, m) \<Rightarrow> (rc, m) | Err e \<Rightarrow> (Err e, m) | Ub \<Rightarrow> (Ub, m)))"

definition dtl_dict_decode :: codec_fn where
  "dtl_dict_decode m xs cap = with_private_arena (\<lambda>m a. dtl_dict_decode_impl m a xs cap) m"

subsection \<open>Encoder\<close>

text \<open>The search for an identical block among the entries; \<open>None\<close> is \<open>found = -1\<close>.\<close>

fun dict_find :: "u8 list \<Rightarrow> nat \<Rightarrow> nat \<Rightarrow> dtl_dict_entry list \<Rightarrow> nat \<Rightarrow> nat option res" where
  "dict_find inp off len [] j = Ok None"
| "dict_find inp off len ((eoff, elen) # es) j =
     (if unat elen = len then
        rbind (slice_at inp eoff len) (\<lambda>x. rbind (slice_at inp off len) (\<lambda>y.
        if x = y then Ok (Some j) else dict_find inp off len es (j + 1)))
      else dict_find inp off len es (j + 1))"

fun dict_partition ::
  "u8 list \<Rightarrow> nat \<Rightarrow> nat \<Rightarrow> dtl_dict_entry list \<Rightarrow> u16 list \<Rightarrow> (dtl_dict_entry list \<times> u16 list) res" where
  "dict_partition inp 0 bi entries tokens = Ok (entries, tokens)"
| "dict_partition inp (Suc n) bi entries tokens =
     (let off = bi * DTL_DICT_BLOCK;
          len = size_sub (length inp) off;
          len = (if len > DTL_DICT_BLOCK then DTL_DICT_BLOCK else len)
      in rbind (dict_find inp off len entries 0) (\<lambda>found.
         case found of
           None \<Rightarrow>
             if length entries \<ge> DTL_DICT_MAX_ENTRIES then Err DTL_ERR_RANGE
             else dict_partition inp n (bi + 1) (entries @ [(off, of_nat len)])
                    (tokens @ [of_nat (length entries)])
         | Some j \<Rightarrow> dict_partition inp n (bi + 1) entries (tokens @ [of_nat j])))"

fun dict_emit_table :: "u8 list \<Rightarrow> dtl_dict_entry list \<Rightarrow> nat \<Rightarrow> u8 list \<Rightarrow> u8 list res" where
  "dict_emit_table inp [] cap out = Ok out"
| "dict_emit_table inp ((off, len) # es) cap out =
     (if size_sub cap (length out) < 1 then Err DTL_ERR_RANGE
      else rbind (put_byte cap out len) (\<lambda>out.
      if size_sub cap (length out) < unat len then Err DTL_ERR_RANGE
      else rbind (slice_at inp off (unat len)) (\<lambda>phrase.
           rbind (put_bytes cap out phrase) (\<lambda>out. dict_emit_table inp es cap out))))"

fun dict_emit_tokens :: "u16 list \<Rightarrow> nat \<Rightarrow> u8 list \<Rightarrow> u8 list res" where
  "dict_emit_tokens [] cap out = Ok out"
| "dict_emit_tokens (t # ts) cap out =
     (if size_sub cap (length out) < 2 then Err DTL_ERR_RANGE
      else rbind (put_bytes cap out (dtl_endian_write_u16le t)) (\<lambda>out. dict_emit_tokens ts cap out))"

definition dict_emit :: "u8 list \<Rightarrow> nat \<Rightarrow> dtl_dict_entry list \<times> u16 list \<Rightarrow> u8 list res" where
  "dict_emit xs cap = (\<lambda>(entries, tokens).
     if size_sub cap 0 < 2 then Err DTL_ERR_RANGE
     else rbind (put_bytes cap [] (dtl_endian_write_u16le (of_nat (length entries)))) (\<lambda>out.
          rbind (dict_emit_table xs entries cap out) (\<lambda>out.
          dict_emit_tokens tokens cap out)))"

definition dtl_dict_encode_impl :: "mem \<Rightarrow> dtl_arena \<Rightarrow> u8 list \<Rightarrow> nat \<Rightarrow> u8 list res \<times> dtl_arena \<times> mem" where
  "dtl_dict_encode_impl m a xs cap =
     (if length xs = 0 then
        (if cap < 2 then (Err DTL_ERR_RANGE, a, m)
         else (put_bytes cap [] (dtl_endian_write_u16le 0), a, m))
      else
        let nblocks = (length xs + DTL_DICT_BLOCK - 1) div DTL_DICT_BLOCK;
            (p, a, m) = dtl_arena_alloc m a (nblocks * sizeof_dict_entry);
            (q, a, m) = dtl_arena_alloc m a (nblocks * sizeof_u16)
        in if p = None \<or> q = None then (Err DTL_ERR_OOM, a, m)
           else (rbind (dict_partition xs nblocks 0 [] []) (dict_emit xs cap), a, m))"

definition dtl_dict_encode :: codec_fn where
  "dtl_dict_encode m xs cap = with_private_arena (\<lambda>m a. dtl_dict_encode_impl m a xs cap) m"

subsection \<open>The private arena\<close>

lemma with_private_arena_fst:
  assumes "mem_ok m" and "impl m (dtl_arena_init 0) = (rc, a', m')" and "private_arena m m' a'"
  shows "\<exists>m''. with_private_arena impl m = (rc, m'') \<and> heap_ext m m''"
  using private_arena_free [OF assms(3)] assms(2) by (auto simp: with_private_arena_def)

lemma dict_decode_private:
  "private_arena m0 m a \<Longrightarrow> dtl_dict_decode_impl m a xs cap = (rc, a', m') \<Longrightarrow> private_arena m0 m' a'"
  by (auto simp: dtl_dict_decode_impl_def Let_def split: result.splits prod.splits if_splits option.splits
      intro: private_arena_alloc)

lemma dict_encode_private:
  "private_arena m0 m a \<Longrightarrow> dtl_dict_encode_impl m a xs cap = (rc, a', m') \<Longrightarrow> private_arena m0 m' a'"
  by (auto simp: dtl_dict_encode_impl_def Let_def split: prod.splits if_splits
      intro: private_arena_alloc)

lemma dict_decode_fst:
  assumes "mem_ok m"
  shows "fst (dtl_dict_decode m xs cap) = fst (dtl_dict_decode_impl m (dtl_arena_init 0) xs cap)"
    and "heap_ext m (snd (dtl_dict_decode m xs cap))"
proof -
  obtain rc a' m' where i: "dtl_dict_decode_impl m (dtl_arena_init 0) xs cap = (rc, a', m')"
    using prod_cases3 by blast
  from with_private_arena_fst [where impl = "\<lambda>m a. dtl_dict_decode_impl m a xs cap", OF assms i
      dict_decode_private [OF private_arena_init [OF assms] i]] i
  show "fst (dtl_dict_decode m xs cap) = fst (dtl_dict_decode_impl m (dtl_arena_init 0) xs cap)"
    and "heap_ext m (snd (dtl_dict_decode m xs cap))"
    by (auto simp: dtl_dict_decode_def)
qed

lemma dict_encode_fst:
  assumes "mem_ok m"
  shows "fst (dtl_dict_encode m xs cap) = fst (dtl_dict_encode_impl m (dtl_arena_init 0) xs cap)"
    and "heap_ext m (snd (dtl_dict_encode m xs cap))"
proof -
  obtain rc a' m' where i: "dtl_dict_encode_impl m (dtl_arena_init 0) xs cap = (rc, a', m')"
    using prod_cases3 by blast
  from with_private_arena_fst [where impl = "\<lambda>m a. dtl_dict_encode_impl m a xs cap", OF assms i
      dict_encode_private [OF private_arena_init [OF assms] i]] i
  show "fst (dtl_dict_encode m xs cap) = fst (dtl_dict_encode_impl m (dtl_arena_init 0) xs cap)"
    and "heap_ext m (snd (dtl_dict_encode m xs cap))"
    by (auto simp: dtl_dict_encode_def)
qed

subsection \<open>Phrases\<close>

definition entry_ok :: "u8 list \<Rightarrow> dtl_dict_entry \<Rightarrow> bool" where
  "entry_ok inp e \<longleftrightarrow> fst e + unat (snd e) \<le> length inp"

definition phrase :: "u8 list \<Rightarrow> dtl_dict_entry \<Rightarrow> u8 list" where
  "phrase inp e = take (unat (snd e)) (drop (fst e) inp)"

lemma slice_phrase [simp]: "entry_ok inp (off, len) \<Longrightarrow> slice_at inp off (unat len) = Ok (phrase inp (off, len))"
  by (simp add: entry_ok_def phrase_def)

lemma length_phrase [simp]: "entry_ok inp e \<Longrightarrow> length (phrase inp e) = unat (snd e)"
  by (simp add: entry_ok_def phrase_def)

subsection \<open>The decoder stays in bounds\<close>

lemma dict_table_loop_spec:
  "buf_ok b \<Longrightarrow> dict_table_loop n b \<noteq> Ub \<and>
   (\<forall>es b'. dict_table_loop n b = Ok (es, b') \<longrightarrow>
      buf_ok b' \<and> buf_p b' = buf_p b \<and> length es = n \<and> (\<forall>e \<in> set es. entry_ok (buf_p b) e))"
proof (induction n arbitrary: b)
  case (Suc n)
  show ?case
  proof (cases "dtl_buf_read_u8 b")
    case (Ok p)
    obtain plen b1 where p: "p = (plen, b1)" by (cases p)
    note nx = rd_u8.next_ok [OF Ok [unfolded p] Suc.prems]
    show ?thesis
    proof (cases "dtl_buf_remaining b1 < unat plen")
      case False
      define b2 where "b2 = b1\<lparr>buf_pos := buf_pos b1 + unat plen\<rparr>"
      from False nx have b2: "buf_ok b2" "buf_p b2 = buf_p b" "entry_ok (buf_p b) (buf_pos b1, plen)"
        by (auto simp: b2_def buf_ok_def buf_len_def dtl_buf_remaining_def entry_ok_def)
      have step: "dict_table_loop (Suc n) b =
          rbind (dict_table_loop n b2) (\<lambda>(es, b'). Ok ((buf_pos b1, plen) # es, b'))"
        using False Ok p by (simp add: b2_def)
      show ?thesis
        using Suc.IH [OF b2(1)] b2 unfolding step by (cases "dict_table_loop n b2") auto
    qed (use Ok p in simp)
  qed (use rd_u8.safe [OF Suc.prems] in auto)
qed simp

lemma dict_token_loop_bounds:
  "buf_ok b \<Longrightarrow> \<forall>e \<in> set entries. entry_ok (buf_p b) e \<Longrightarrow> length out \<le> cap \<Longrightarrow>
   dict_token_loop entries b cap out \<noteq> Ub \<and>
   (\<forall>ys. dict_token_loop entries b cap out = Ok ys \<longrightarrow> length ys \<le> cap)"
proof (induction b arbitrary: out rule: measure_induct_rule [of "\<lambda>b. buf_len b - buf_pos b"])
  case (less b)
  show ?case
  proof (cases "dtl_buf_read_u16 b")
    case (Ok p)
    obtain i b1 where p: "p = (i, b1)" by (cases p)
    note nx = conjunct1 [OF rd_u16.next_ok [OF Ok [unfolded p] less.prems(1)]] and adv = read_u16_advances [OF Ok [unfolded p]]
    show ?thesis
    proof (cases "unat i < length entries \<and> unat (snd (entries ! unat i)) \<le> cap - length out")
      case True
      obtain ptr len where e: "entries ! unat i = (ptr, len)" by (cases "entries ! unat i")
      then have ok: "entry_ok (buf_p b1) (ptr, len)" using True less.prems(2) adv by (metis nth_mem)
      have "buf_len b1 - buf_pos b1 < buf_len b - buf_pos b" using adv by (auto simp: buf_len_def)
      moreover have "length (out @ phrase (buf_p b1) (ptr, len)) \<le> cap" using True e ok less.prems(3) by (simp add: le_diff_conv2 add.commute)
      ultimately show ?thesis
        using less.IH [OF _ nx, of "out @ phrase (buf_p b1) (ptr, len)"] True e ok Ok p adv less.prems
        by (subst (1 2) dict_token_loop.simps) auto
    next
      case False
      with Ok p less.prems(3) show ?thesis
        by (subst (1 2) dict_token_loop.simps) (auto simp: Let_def split: prod.splits)
    qed
  qed (use less.prems rd_u16.safe [OF less.prems(1)] in
      \<open>subst (1 2) dict_token_loop.simps, auto split: if_splits\<close>)+
qed

lemma dict_decode_body_bounds:
  fixes n cap :: nat
  assumes "buf_ok b"
  defines "r \<equiv> rbind (dict_table_loop n b) (\<lambda>(entries, b). dict_token_loop entries b cap [])"
  shows "r \<noteq> Ub \<and> (\<forall>ys. r = Ok ys \<longrightarrow> length ys \<le> cap)"
proof (cases "dict_table_loop n b")
  case (Ok p)
  then show ?thesis
    using dict_table_loop_spec [OF assms(1), of n] dict_token_loop_bounds [of "snd p" "fst p" "[]" cap]
    by (cases p) (auto simp: r_def)
qed (use dict_table_loop_spec [OF assms(1), of n] in \<open>auto simp: r_def\<close>)

lemma dict_decode_bounds:
  "fst (dtl_dict_decode_impl m a xs cap) \<noteq> Ub \<and>
   (\<forall>ys. fst (dtl_dict_decode_impl m a xs cap) = Ok ys \<longrightarrow> length ys \<le> cap)"
proof (cases "dtl_buf_read_u16 (dtl_buf_init xs)")
  case (Ok p)
  obtain c b where p: "p = (c, b)" by (cases p)
  have "buf_ok b" using rd_u16.next_ok Ok p by auto
  from dict_decode_body_bounds [OF this, of "unat c" cap] Ok p show ?thesis
    by (auto simp: dtl_dict_decode_impl_def Let_def split: prod.splits option.splits)
qed (use rd_u16.safe [of "dtl_buf_init xs"] in \<open>auto simp: dtl_dict_decode_impl_def Let_def\<close>)

interpretation dict_dec: coder_safe dtl_dict_decode
proof unfold_locales
  fix m xs cap ys m' r assume m: "mem_ok m"
  show "fst (dtl_dict_decode m xs cap) \<noteq> Ub"
    using dict_decode_fst(1) [OF m] dict_decode_bounds by simp
  show "dtl_dict_decode m xs cap = (Ok ys, m') \<Longrightarrow> length ys \<le> cap"
    using dict_decode_fst(1) [OF m, of xs cap] dict_decode_bounds [of m "dtl_arena_init 0" xs cap] by simp
  show "dtl_dict_decode m xs cap = (r, m') \<Longrightarrow> heap_ext m m'"
    using dict_decode_fst(2) [OF m, of xs cap] by simp
qed

subsection \<open>What the encoder's passes produce\<close>

lemma dict_find_Ok:
  "\<forall>e \<in> set es. entry_ok inp e \<Longrightarrow> off + len \<le> length inp \<Longrightarrow>
   \<exists>r. dict_find inp off len es j = Ok r \<and>
     (\<forall>k. r = Some k \<longrightarrow> j \<le> k \<and> k < j + length es \<and> phrase inp (es ! (k - j)) = take len (drop off inp))"
proof (induction inp off len es j rule: dict_find.induct)
  case (2 inp off len eoff elen es j)
  have ok: "entry_ok inp (eoff, elen)" using 2(3) by simp
  have rec: "\<exists>r. dict_find inp off len es (j + 1) = Ok r \<and>
     (\<forall>k. r = Some k \<longrightarrow> j + 1 \<le> k \<and> k < j + 1 + length es \<and>
        phrase inp (es ! (k - (j + 1))) = take len (drop off inp))"
    if "\<not> (unat elen = len \<and> phrase inp (eoff, elen) = take len (drop off inp))"
  proof (cases "unat elen = len")
    case True
    have "slice_at inp eoff len = Ok (phrase inp (eoff, elen))" "slice_at inp off len = Ok (take len (drop off inp))"
      using ok True 2(4) by auto
    then show ?thesis using 2(1) [OF True] that True 2(3,4) by auto
  next
    case False
    then show ?thesis using 2(2) 2(3,4) by auto
  qed
  have shift: "((eoff, elen) # es) ! (k - j) = es ! (k - (j + 1))" if "j + 1 \<le> k" for k
    using that by (simp add: nth_Cons')
  show ?case
  proof (cases "unat elen = len \<and> phrase inp (eoff, elen) = take len (drop off inp)")
    case True
    then show ?thesis using ok 2(4) by (intro exI [of _ "Some j"]) auto
  next
    case False
    obtain r where r: "dict_find inp off len es (j + 1) = Ok r"
      "\<forall>k. r = Some k \<longrightarrow> j + 1 \<le> k \<and> k < j + 1 + length es \<and>
        phrase inp (es ! (k - (j + 1))) = take len (drop off inp)" using rec [OF False] by blast
    have "dict_find inp off len ((eoff, elen) # es) j = Ok r"
      using False ok 2(4) r(1) by auto
    with r(2) shift show ?thesis by (intro exI [of _ r]) auto
  qed
qed simp

text \<open>The state of the partition pass after the first \<open>bi\<close> blocks.\<close>

definition dict_inv :: "u8 list \<Rightarrow> nat \<Rightarrow> dtl_dict_entry list \<Rightarrow> u16 list \<Rightarrow> bool" where
  "dict_inv inp bi entries tokens \<longleftrightarrow>
     (\<forall>e \<in> set entries. entry_ok inp e) \<and> length entries \<le> 65535 \<and>
     (\<forall>t \<in> set tokens. unat t < length entries) \<and>
     concat (map (\<lambda>t. phrase inp (entries ! unat t)) tokens) = take (bi * 4) inp"

lemma take_block: "take ((bi + 1) * 4) inp = take (bi * 4) inp @ take 4 (drop (bi * 4) inp)"
proof -
  have "(bi + 1) * 4 = bi * 4 + 4" by simp
  then show ?thesis by (simp only: take_add)
qed

lemma dict_inv_old:
  assumes "dict_inv inp bi entries tokens" "j < length entries"
    and "phrase inp (entries ! j) = take 4 (drop (bi * 4) inp)"
  shows "dict_inv inp (bi + 1) entries (tokens @ [of_nat j])"
proof -
  have "unat (of_nat j :: u16) = j" using assms(1,2) by (simp add: dict_inv_def)
  with assms take_block [of bi inp] show ?thesis by (auto simp: dict_inv_def)
qed

lemma dict_inv_new:
  assumes "dict_inv inp bi entries tokens" "length entries < 65535" "entry_ok inp e"
    and "phrase inp e = take 4 (drop (bi * 4) inp)"
  shows "dict_inv inp (bi + 1) (entries @ [e]) (tokens @ [of_nat (length entries)])"
proof -
  have j: "unat (of_nat (length entries) :: u16) = length entries" using assms(2) by simp
  have "map (\<lambda>t. phrase inp ((entries @ [e]) ! unat t)) tokens = map (\<lambda>t. phrase inp (entries ! unat t)) tokens"
    using assms(1) by (auto simp: dict_inv_def nth_append)
  then have "concat (map (\<lambda>t. phrase inp ((entries @ [e]) ! unat t)) tokens) = take (bi * 4) inp"
    using assms(1) by (simp only: dict_inv_def)
  with j assms take_block [of bi inp] show ?thesis
    by (auto simp: dict_inv_def less_Suc_eq)
qed

lemma dict_partition_spec:
  "dict_inv inp bi entries tokens \<Longrightarrow> (bi + n) * 4 < length inp + 4 \<Longrightarrow>
   dict_partition inp n bi entries tokens \<noteq> Ub \<and>
   (\<forall>es ts. dict_partition inp n bi entries tokens = Ok (es, ts) \<longrightarrow> dict_inv inp (bi + n) es ts)"
proof (induction n arbitrary: bi entries tokens)
  case (Suc n)
  define len where "len = min 4 (length inp - bi * 4)"
  have off: "bi * 4 + len \<le> length inp" "bi * 4 \<le> length inp" using Suc.prems(2) by (auto simp: len_def)
  have len: "(if size_sub (length inp) (bi * 4) > 4 then 4 else size_sub (length inp) (bi * 4)) = len"
    using off(2) by (simp add: len_def)
  have blk: "take len (drop (bi * 4) inp) = take 4 (drop (bi * 4) inp)" by (auto simp: len_def min_def)
  have "\<forall>e \<in> set entries. entry_ok inp e" using Suc.prems(1) by (simp add: dict_inv_def)
  from dict_find_Ok [OF this off(1), of 0] obtain r where
    r: "dict_find inp (bi * 4) len entries 0 = Ok r"
    "\<forall>k. r = Some k \<longrightarrow> k < length entries \<and> phrase inp (entries ! k) = take len (drop (bi * 4) inp)"
    by auto
  have step: "dict_partition inp (Suc n) bi entries tokens = (case r of
      None \<Rightarrow> if length entries \<ge> 65535 then Err DTL_ERR_RANGE
        else dict_partition inp n (bi + 1) (entries @ [(bi * 4, of_nat len)]) (tokens @ [of_nat (length entries)])
    | Some j \<Rightarrow> dict_partition inp n (bi + 1) entries (tokens @ [of_nat j]))"
    unfolding dict_partition.simps Let_def DTL_DICT_BLOCK_def DTL_DICT_MAX_ENTRIES_def len r(1)
    by (simp only: rbind_simps)
  show ?case
  proof (cases r)
    case (Some j)
    with r(2) blk have "j < length entries" "phrase inp (entries ! j) = take 4 (drop (bi * 4) inp)" by auto
    from Suc.IH [OF dict_inv_old [OF Suc.prems(1) this]] Some Suc.prems(2) show ?thesis
      unfolding step by simp
  next
    case None
    have "unat (of_nat len :: u8) = len" by (simp add: len_def)
    then have "entry_ok inp (bi * 4, of_nat len)" "phrase inp (bi * 4, of_nat len) = take 4 (drop (bi * 4) inp)"
      using off blk by (simp_all add: entry_ok_def phrase_def)
    with Suc.IH [OF dict_inv_new [OF Suc.prems(1)]] None Suc.prems(2) show ?thesis
      unfolding step by simp
  qed
qed simp

definition table_wire :: "u8 list \<Rightarrow> dtl_dict_entry list \<Rightarrow> u8 list" where
  "table_wire inp es = concat (map (\<lambda>e. snd e # phrase inp e) es)"

lemma table_wire_simps [simp]:
  "table_wire inp [] = []" "table_wire inp (e # es) = snd e # phrase inp e @ table_wire inp es"
  by (simp_all add: table_wire_def)

lemma dict_emit_table_spec:
  "\<forall>e \<in> set es. entry_ok inp e \<Longrightarrow> length out \<le> cap \<Longrightarrow>
   dict_emit_table inp es cap out =
     (if length out + length (table_wire inp es) \<le> cap then Ok (out @ table_wire inp es) else Err DTL_ERR_RANGE)"
  by (induction inp es cap out rule: dict_emit_table.induct) (auto simp: not_less)

lemma dict_emit_tokens_spec:
  "length out \<le> cap \<Longrightarrow> dict_emit_tokens ts cap out =
     (if length out + 2 * length ts \<le> cap then Ok (out @ concat (map dtl_endian_write_u16le ts))
      else Err DTL_ERR_RANGE)"
  by (induction ts cap out rule: dict_emit_tokens.induct) auto

lemma dict_emit_spec:
  fixes ts :: "u16 list"
  assumes "\<forall>e \<in> set es. entry_ok inp e"
  defines "wire \<equiv> dtl_endian_write_u16le (of_nat (length es)) @ table_wire inp es @
    concat (map dtl_endian_write_u16le ts)"
  shows "dict_emit inp cap (es, ts) = (if length wire \<le> cap then Ok wire else Err DTL_ERR_RANGE)"
proof -
  have "length (concat (map dtl_endian_write_u16le ts)) = 2 * length ts" by (induction ts) auto
  then show ?thesis
    unfolding wire_def dict_emit_def
    by (auto simp: dict_emit_table_spec [OF assms(1)] dict_emit_tokens_spec)
qed

subsection \<open>Reading the table and the tokens back\<close>

lemma dict_table_loop_written:
  "buf_ok b \<Longrightarrow> buf_rest b = table_wire inp es @ r \<Longrightarrow> \<forall>e \<in> set es. entry_ok inp e \<Longrightarrow>
   \<exists>es'. dict_table_loop (length es) b = Ok (es', buf_adv b (length (table_wire inp es))) \<and>
     map (phrase (buf_p b)) es' = map (phrase inp) es"
proof (induction es arbitrary: b)
  case Nil
  then show ?case by (simp add: buf_adv_def)
next
  case (Cons e es)
  let ?b1 = "buf_adv b 1" and ?n = "unat (snd e)"
  have rd: "dtl_buf_read_u8 b = Ok (snd e, ?b1)"
    using Cons.prems by (intro rd_u8.read_written) auto
  have b1: "buf_ok ?b1" "buf_rest ?b1 = phrase inp e @ table_wire inp es @ r"
    using Cons.prems rd_u8.next_ok [OF rd] by auto
  have adv: "buf_adv b (Suc 0)\<lparr>buf_pos := Suc (buf_pos b + ?n)\<rparr> = buf_adv b (Suc ?n)" by (simp add: buf_adv_def)
  have len: "length (phrase inp e) = ?n" using Cons.prems(3) by simp
  have b2: "buf_ok (buf_adv b (1 + ?n))" "buf_rest (buf_adv b (1 + ?n)) = table_wire inp es @ r"
    using buf_adv_ok [OF b1(1), of ?n] Cons.prems(2) b1(2) len by auto
  from Cons.IH [OF b2] Cons.prems(3) obtain es' where
    es': "dict_table_loop (length es) (buf_adv b (1 + ?n)) =
      Ok (es', buf_adv (buf_adv b (1 + ?n)) (length (table_wire inp es)))"
    "map (phrase (buf_p b)) es' = map (phrase inp) es" by auto
  have ph: "phrase (buf_p b) (buf_pos ?b1, snd e) = phrase inp e"
    using b1(2) len by (simp add: phrase_def buf_rest_def)
  have "\<not> dtl_buf_remaining ?b1 < ?n" using b1 len by simp
  then have "dict_table_loop (length (e # es)) b =
      Ok ((buf_pos ?b1, snd e) # es', buf_adv b (length (table_wire inp (e # es))))"
    using rd es'(1) len unfolding list.size dict_table_loop.simps by (simp add: adv)
  with ph es'(2) show ?case by auto
qed

lemma dict_token_loop_written:
  "buf_ok b \<Longrightarrow> buf_rest b = concat (map dtl_endian_write_u16le ts) \<Longrightarrow>
   \<forall>e \<in> set es. entry_ok (buf_p b) e \<Longrightarrow> \<forall>t \<in> set ts. unat t < length es \<Longrightarrow>
   length out + length (concat (map (\<lambda>t. phrase (buf_p b) (es ! unat t)) ts)) \<le> cap \<Longrightarrow>
   dict_token_loop es b cap out = Ok (out @ concat (map (\<lambda>t. phrase (buf_p b) (es ! unat t)) ts))"
proof (induction ts arbitrary: b out)
  case Nil
  then show ?case by (subst dict_token_loop.simps) simp
next
  case (Cons t ts)
  have rd: "dtl_buf_read_u16 b = Ok (t, buf_adv b 2)"
    using Cons.prems by (intro rd_u16.read_written) auto
  obtain ptr len where e: "es ! unat t = (ptr, len)" by (cases "es ! unat t")
  then have ok: "entry_ok (buf_p b) (ptr, len)" using Cons.prems(3,4) by (metis list.set_intros(1) nth_mem)
  have "buf_rest b \<noteq> []" using Cons.prems(2) by (auto simp: dtl_endian_write_u16le_def)
  with Cons.IH [of "buf_adv b 2" "out @ phrase (buf_p b) (ptr, len)"] rd e ok Cons.prems rd_u16.next_ok [OF rd]
  show ?case by (subst dict_token_loop.simps) simp
qed

lemma dict_decode_written:
  assumes inv: "dict_inv xs bi es ts" "xs = take (bi * 4) xs" and cap: "length xs \<le> cap"
  defines "wire \<equiv> dtl_endian_write_u16le (of_nat (length es)) @ table_wire xs es @
    concat (map dtl_endian_write_u16le ts)"
  shows "fst (dtl_dict_decode_impl m a wire cap) = Ok xs \<or>
    fst (dtl_arena_alloc m a (length es * sizeof_dict_entry)) = None \<and> length es \<noteq> 0 \<and>
    fst (dtl_dict_decode_impl m a wire cap) = Err DTL_ERR_OOM"
proof -
  let ?b = "dtl_buf_init wire" and ?c = "of_nat (length es) :: u16"
  have es: "\<forall>e \<in> set es. entry_ok xs e" "length es \<le> 65535" "\<forall>t \<in> set ts. unat t < length es"
    "concat (map (\<lambda>t. phrase xs (es ! unat t)) ts) = xs"
    using inv by (simp_all add: dict_inv_def)
  then have c: "unat ?c = length es" by simp
  have rd: "dtl_buf_read_u16 ?b = Ok (?c, buf_adv ?b 2)"
    by (intro rd_u16.read_written) (simp_all add: wire_def)
  have b1: "buf_ok (buf_adv ?b 2)" "buf_rest (buf_adv ?b 2) = table_wire xs es @ concat (map dtl_endian_write_u16le ts)"
    using rd_u16.next_ok [OF rd] by (simp_all add: wire_def)
  from dict_table_loop_written [OF b1 es(1)] obtain es' where
    t: "dict_table_loop (length es) (buf_adv ?b 2) = Ok (es', buf_adv (buf_adv ?b 2) (length (table_wire xs es)))"
    "map (phrase wire) es' = map (phrase xs) es" by auto
  note ts = dict_table_loop_spec [OF b1(1), THEN conjunct2, rule_format, OF t(1)]
  have es': "length es' = length es" "\<And>i. i < length es \<Longrightarrow> phrase wire (es' ! i) = phrase xs (es ! i)"
    using t(2) by (metis length_map, metis length_map nth_map)
  have "concat (map (\<lambda>t. phrase wire (es' ! unat t)) ts) = xs"
    using es(3,4) es'(2) by (metis (no_types, lifting) map_cong)
  moreover have "buf_rest (buf_adv (buf_adv ?b 2) (length (table_wire xs es))) = concat (map dtl_endian_write_u16le ts)"
    unfolding buf_adv_rest [of "buf_adv ?b 2"] b1(2) by simp
  ultimately have "dict_token_loop es' (buf_adv (buf_adv ?b 2) (length (table_wire xs es))) cap [] = Ok xs"
    using dict_token_loop_written [of "buf_adv (buf_adv ?b 2) (length (table_wire xs es))" ts es' "[]" cap]
      ts es(3) es'(1) cap by simp
  then have "rbind (dict_table_loop (unat ?c) (buf_adv ?b 2)) (\<lambda>(entries, b). dict_token_loop entries b cap []) = Ok xs"
    using t(1) c by simp
  with rd c show ?thesis
    by (cases "dtl_arena_alloc m a (length es * sizeof_dict_entry)")
      (auto simp: dtl_dict_decode_impl_def Let_def split: option.splits)
qed

lemma dict_encode_impl_spec:
  "fst (dtl_dict_encode_impl m a xs cap) \<noteq> Ub \<and>
   (\<forall>ys. fst (dtl_dict_encode_impl m a xs cap) = Ok ys \<longrightarrow> length ys \<le> cap \<and>
     (\<exists>bi es ts. dict_inv xs bi es ts \<and> xs = take (bi * 4) xs \<and>
        ys = dtl_endian_write_u16le (of_nat (length es)) @ table_wire xs es @ concat (map dtl_endian_write_u16le ts)))"
proof (cases "xs = []")
  case True
  have "dict_inv [] 0 [] []" by (simp add: dict_inv_def)
  with True show ?thesis by (auto simp: dtl_dict_encode_impl_def intro!: exI [of _ 0] exI [of _ "[]"])
next
  case False
  define nb where "nb = (3 + length xs) div 4"
  have "(0 + nb) * 4 < length xs + 4" "length xs \<le> nb * 4" by (simp_all add: nb_def)
  moreover have "dict_inv xs 0 [] []" by (simp add: dict_inv_def)
  ultimately have part: "dict_partition xs nb 0 [] [] \<noteq> Ub"
    "\<And>es ts. dict_partition xs nb 0 [] [] = Ok (es, ts) \<Longrightarrow> dict_inv xs nb es ts" "xs = take (nb * 4) xs"
    using dict_partition_spec [of xs 0 "[]" "[]" nb] by auto
  have "fst (dtl_dict_encode_impl m a xs cap) = Err DTL_ERR_OOM \<or>
      fst (dtl_dict_encode_impl m a xs cap) = rbind (dict_partition xs nb 0 [] []) (dict_emit xs cap)"
    using False by (auto simp: dtl_dict_encode_impl_def Let_def DTL_DICT_BLOCK_def nb_def split: prod.splits)
  moreover have "r \<noteq> Ub \<and> (\<forall>ys. r = Ok ys \<longrightarrow> length ys \<le> cap \<and> (\<exists>bi es ts. dict_inv xs bi es ts \<and>
      xs = take (bi * 4) xs \<and> ys = dtl_endian_write_u16le (of_nat (length es)) @ table_wire xs es @
        concat (map dtl_endian_write_u16le ts)))"
    if "r = rbind (dict_partition xs nb 0 [] []) (dict_emit xs cap)" for r
  proof (cases "dict_partition xs nb 0 [] []")
    case (Ok p)
    obtain es ts where p: "p = (es, ts)" by (cases p)
    note inv = part(2) [OF Ok [unfolded p]]
    then have "\<forall>e \<in> set es. entry_ok xs e" by (simp add: dict_inv_def)
    from dict_emit_spec [OF this, of cap ts] inv part(3) Ok p that show ?thesis by (auto split: if_splits)
  qed (use that part(1) in auto)
  ultimately show ?thesis by force
qed

interpretation dict: codec_pair dtl_dict_encode dtl_dict_decode
proof unfold_locales
  fix m m' :: mem and xs ys :: "u8 list" and cap cap' r m1 assume m: "mem_ok m"
  note e = dict_encode_fst [OF m, of xs cap] and i = dict_encode_impl_spec [of m "dtl_arena_init 0" xs cap]
  show "fst (dtl_dict_encode m xs cap) \<noteq> Ub" using e(1) i by simp
  show "dtl_dict_encode m xs cap = (Ok ys, m1) \<Longrightarrow> length ys \<le> cap" using e(1) i by simp
  show "dtl_dict_encode m xs cap = (r, m1) \<Longrightarrow> heap_ext m m1" using e(2) by simp
  assume m': "mem_ok m'" and len: "length xs \<le> cap'" and enc: "fst (dtl_dict_encode m xs cap) = Ok ys"
  obtain bi es ts where inv: "dict_inv xs bi es ts" "xs = take (bi * 4) xs"
    and ys: "ys = dtl_endian_write_u16le (of_nat (length es)) @ table_wire xs es @ concat (map dtl_endian_write_u16le ts)"
    using i enc unfolding e(1) by blast
  have "\<exists>p a m''. dtl_arena_alloc m' (dtl_arena_init 0) (length es * sizeof_dict_entry) = (Some p, a, m'')"
    if "heap_never_fails m'" "length es \<noteq> 0"
    using that inv(1) by (intro arena_alloc_succeeds)
      (simp_all add: heap_never_fails_def dict_inv_def sizeof_dict_entry_def dtl_arena_init_def SIZE_MAX_def)
  then have "fst (dtl_arena_alloc m' (dtl_arena_init 0) (length es * sizeof_dict_entry)) = None \<Longrightarrow>
      length es \<noteq> 0 \<Longrightarrow> \<not> heap_never_fails m'" by force
  with dict_decode_written [OF inv len, folded ys, of m' "dtl_arena_init 0"]
  show "fst (dtl_dict_decode m' ys cap') = Ok xs \<or>
      \<not> heap_never_fails m' \<and> fst (dtl_dict_decode m' ys cap') = Err DTL_ERR_OOM"
    using dict_decode_fst(1) [OF m', of ys cap'] by auto
qed

end
