(* ===== verification/Codec_Base32.thy ===== *)
theory Codec_Base32
  imports Codec_Spec Core_Endian
begin

text \<open>
  \<^verbatim>\<open>src/codec/base32.c\<close>: RFC 4648 base32 in groups of five bytes and eight characters.  The static
  reverse table is built on the first decode (\<open>None\<close> before that).
\<close>

definition dtl_base32_alphabet :: "u8 list" where
  "dtl_base32_alphabet = map of_char ''ABCDEFGHIJKLMNOPQRSTUVWXYZ234567''"

type_synonym base32_static = "int list option"

definition dtl_base32_build_rev :: "int list" where
  "dtl_base32_build_rev =
     foldl (\<lambda>r i. r[unat (dtl_base32_alphabet ! i) := int i]) (replicate 256 (- 1)) [0..<32]"

definition dtl_base32_chars_for_bytes :: "nat list" where
  "dtl_base32_chars_for_bytes = [0, 2, 4, 5, 7, 8]"

text \<open>The character \<open>'='\<close>.\<close>

definition B32_PAD :: u8 where "B32_PAD = 0x3D"

subsection \<open>Encoder\<close>

fun base32_pack :: "nat \<Rightarrow> u8 list \<Rightarrow> u64 \<Rightarrow> u64" where
  "base32_pack k [] acc = acc"
| "base32_pack k (x # xs) acc = base32_pack (k + 1) xs (acc OR push_bit (8 * (4 - k)) (ucast x))"

definition base32_char :: "u64 \<Rightarrow> nat \<Rightarrow> u8" where
  "base32_char acc j = dtl_base32_alphabet ! unat (drop_bit (5 * (7 - j)) acc AND 0x1F)"

function base32_encode_loop :: "u8 list \<Rightarrow> nat \<Rightarrow> u8 list \<Rightarrow> u8 list res" where
  "base32_encode_loop xs cap out =
     (if xs = [] then Ok out
      else let b = length xs;
               b = (if b > 5 then 5 else b);
               acc = base32_pack 0 (take b xs) 0;
               chars = dtl_base32_chars_for_bytes ! b
           in if size_sub cap (length out) < 8 then Err DTL_ERR_RANGE
              else rbind (put_bytes cap out
                     (map (\<lambda>j. if j < chars then base32_char acc j else B32_PAD) [0..<8]))
                   (\<lambda>out. base32_encode_loop (drop b xs) cap out))"
  by pat_completeness auto
termination by (relation "measure (\<lambda>(xs, cap, out). length xs)") auto

declare base32_encode_loop.simps [simp del]

definition dtl_base32_encode :: coder where
  "dtl_base32_encode xs cap = base32_encode_loop xs cap []"

subsection \<open>Decoder\<close>

function base32_pad :: "u8 list \<Rightarrow> nat \<Rightarrow> nat" where
  "base32_pad grp pad = (if pad < 8 \<and> grp ! (7 - pad) = B32_PAD then base32_pad grp (pad + 1) else pad)"
  by pat_completeness auto
termination by (relation "measure (\<lambda>(grp, pad). 8 - pad)") auto

declare base32_pad.simps [simp del]

fun base32_databytes :: "nat \<Rightarrow> nat option" where
  "base32_databytes pad =
     (if pad = 0 then Some 5 else if pad = 1 then Some 4 else if pad = 3 then Some 3
      else if pad = 4 then Some 2 else if pad = 6 then Some 1 else None)"

text \<open>The data characters of a group, from the \<open>j\<close>-th on.\<close>

fun base32_unpack :: "int list \<Rightarrow> nat \<Rightarrow> u8 list \<Rightarrow> u64 \<Rightarrow> u64 res" where
  "base32_unpack tab j [] acc = Ok acc"
| "base32_unpack tab j (c # cs) acc =
     rbind (byte_at tab (unat c)) (\<lambda>v.
     if v < 0 then Err DTL_ERR_BADRECORD
     else base32_unpack tab (j + 1) cs (acc OR push_bit (5 * (7 - j)) (word_of_int v)))"

definition base32_byte :: "u64 \<Rightarrow> nat \<Rightarrow> u8" where
  "base32_byte acc k = ucast (drop_bit (8 * (4 - k)) acc AND 0xFF)"

text \<open>The loop over the groups, with the number of groups behind the current one.\<close>

fun base32_decode_loop :: "int list \<Rightarrow> nat \<Rightarrow> u8 list \<Rightarrow> nat \<Rightarrow> u8 list \<Rightarrow> u8 list res" where
  "base32_decode_loop tab 0 xs cap out = Ok out"
| "base32_decode_loop tab (Suc n) xs cap out =
     rbind (slice_at xs 0 8) (\<lambda>grp.
     let pad = base32_pad grp 0
     in if n \<noteq> 0 \<and> pad \<noteq> 0 then Err DTL_ERR_BADRECORD
        else case base32_databytes pad of
          None \<Rightarrow> Err DTL_ERR_BADRECORD
        | Some databytes \<Rightarrow>
            rbind (base32_unpack tab 0 (take (8 - pad) grp) 0) (\<lambda>acc.
            if size_sub cap (length out) < databytes then Err DTL_ERR_RANGE
            else rbind (put_bytes cap out (map (base32_byte acc) [0..<databytes]))
                   (\<lambda>out. base32_decode_loop tab n (drop 8 xs) cap out)))"

definition dtl_base32_decode_st :: "base32_static \<Rightarrow> u8 list \<Rightarrow> nat \<Rightarrow> u8 list res \<times> base32_static" where
  "dtl_base32_decode_st st xs cap =
     (let tab = (case st of None \<Rightarrow> dtl_base32_build_rev | Some t \<Rightarrow> t)
      in (if length xs = 0 then Ok []
          else if length xs mod 8 \<noteq> 0 then Err DTL_ERR_TRUNCATED
          else base32_decode_loop tab (length xs div 8) xs cap [], Some tab))"

text \<open>Every call sees the same table, so a decode does not depend on the calls before it.\<close>

definition dtl_base32_decode :: coder where
  "dtl_base32_decode xs cap = fst (dtl_base32_decode_st None xs cap)"

lemma base32_decode_cached:
  "dtl_base32_decode_st (snd (dtl_base32_decode_st None ys cap')) xs cap =
   (dtl_base32_decode xs cap, Some dtl_base32_build_rev)"
  by (simp add: dtl_base32_decode_def dtl_base32_decode_st_def Let_def)

subsection \<open>The tables\<close>

lemma length_rev [simp]: "length dtl_base32_build_rev = 256"
proof -
  have "length (foldl (\<lambda>r i. r[f i := g i]) r0 xs) = length r0" for f :: "nat \<Rightarrow> nat" and g :: "nat \<Rightarrow> int" and r0 xs
    by (induction xs arbitrary: r0) auto
  then show ?thesis by (simp add: dtl_base32_build_rev_def)
qed

lemma alphabet_inverse:
  "\<forall>v < 32. dtl_base32_build_rev ! unat (dtl_base32_alphabet ! v) = int v \<and> dtl_base32_alphabet ! v \<noteq> B32_PAD"
  by code_simp

lemma rev_of_char:
  assumes "v < 32"
  shows "dtl_base32_build_rev ! unat (dtl_base32_alphabet ! v) = int v" "dtl_base32_alphabet ! v \<noteq> B32_PAD"
  using alphabet_inverse assms by simp_all

lemma five_bits_lt: "unat ((w :: u64) AND 0x1F) < 32"
proof -
  have "w AND 0x1F = take_bit 5 w" by (simp add: take_bit_eq_mask mask_eq_exp_minus_1)
  then have "unat (w AND 0x1F) = take_bit 5 (unat w)" by (simp only: unsigned_take_bit_eq)
  then show ?thesis using take_bit_nat_less_exp [of 5 "unat w"] by simp
qed

lemma base32_char_not_pad [simp]: "base32_char acc j \<noteq> B32_PAD"
  unfolding base32_char_def by (rule rev_of_char(2) [OF five_bits_lt])

subsection \<open>One group\<close>

lemma base32_pack_bit:
  "k + length bs \<le> 5 \<Longrightarrow> bit (base32_pack k bs acc) i \<longleftrightarrow>
   bit acc i \<or> (\<exists>j < length bs. 8 * (4 - (k + j)) \<le> i \<and> i < 8 * (4 - (k + j)) + 8 \<and>
     bit (bs ! j) (i - 8 * (4 - (k + j))))"
proof (induction bs arbitrary: k acc)
  case (Cons x xs)
  have x: "bit (push_bit (8 * (4 - k)) (ucast x :: u64)) i \<longleftrightarrow>
      8 * (4 - k) \<le> i \<and> i < 8 * (4 - k) + 8 \<and> bit x (i - 8 * (4 - k))"
    using Cons.prems by (auto simp: bit_simps dest: bit_imp_le_length)
  show ?case
    using Cons.IH [of "k + 1" "acc OR push_bit (8 * (4 - k)) (ucast x)"] Cons.prems
    by (auto simp: x bit_or_iff Ex_less_Suc2 simp del: push_bit_eq_mult)
qed simp

lemma base32_pack_0_bit:
  assumes "length bs \<le> 5"
  shows "bit (base32_pack 0 bs 0) i \<longleftrightarrow> i < 40 \<and> 4 - i div 8 < length bs \<and> bit (bs ! (4 - i div 8)) (i mod 8)"
proof
  assume "bit (base32_pack 0 bs 0) i"
  then obtain j where j: "j < length bs" "8 * (4 - j) \<le> i" "i < 8 * (4 - j) + 8" "bit (bs ! j) (i - 8 * (4 - j))"
    using base32_pack_bit [of 0 bs 0 i] assms by auto
  have "i div 8 = 4 - j" "i mod 8 = i - 8 * (4 - j)"
    using j(2,3) by (auto simp: div_nat_eqI modulo_nat_def)
  with j assms show "i < 40 \<and> 4 - i div 8 < length bs \<and> bit (bs ! (4 - i div 8)) (i mod 8)" by auto
next
  assume a: "i < 40 \<and> 4 - i div 8 < length bs \<and> bit (bs ! (4 - i div 8)) (i mod 8)"
  then have "i div 8 \<le> 4" by auto
  then have "8 * (4 - (4 - i div 8)) = 8 * (i div 8)" by simp
  with a have "\<exists>j < length bs. 8 * (4 - j) \<le> i \<and> i < 8 * (4 - j) + 8 \<and> bit (bs ! j) (i - 8 * (4 - j))"
    by (intro exI [of _ "4 - i div 8"]) (auto simp: minus_mult_div_eq_mod)
  then show "bit (base32_pack 0 bs 0) i" using base32_pack_bit [of 0 bs 0 i] assms by auto
qed

lemma base32_byte_pack:
  assumes "length bs \<le> 5" "k < length bs"
  shows "base32_byte (base32_pack 0 bs 0) k = bs ! k"
proof (rule bit_eqI)
  fix n
  have "8 * (4 - k) + n < 40 \<and> (8 * (4 - k) + n) div 8 = 4 - k \<and> (8 * (4 - k) + n) mod 8 = n" if "n < 8"
    using that assms by auto
  then show "bit (base32_byte (base32_pack 0 bs 0) k) n = bit (bs ! k) n"
    using assms
    by (cases "n < 8") (auto simp: base32_byte_def bit_simps base32_pack_0_bit dest: bit_imp_le_length)
qed

text \<open>Appending one five-bit group to the groups above it.\<close>

definition bits_from :: "nat \<Rightarrow> u64 \<Rightarrow> u64" where
  "bits_from n w = push_bit n (drop_bit n w)"

lemma bit_bits_from: "bit (bits_from n w) i \<longleftrightarrow> n \<le> i \<and> bit w i"
  by (auto simp: bits_from_def bit_simps dest: bit_imp_le_length)

lemma bits_from_step: "bits_from (n + 5) w OR push_bit n (drop_bit n w AND 0x1F) = bits_from n w"
proof (rule bit_eqI)
  fix i
  have m: "(0x1F :: u64) = mask 5" by (simp add: mask_eq_exp_minus_1)
  show "bit (bits_from (n + 5) w OR push_bit n (drop_bit n w AND 0x1F)) i = bit (bits_from n w) i"
    unfolding m by (auto simp: bit_bits_from bit_or_iff bit_push_bit_iff bit_drop_bit_eq bit_and_iff bit_mask_iff
        dest: bit_imp_le_length)
qed

lemma base32_unpack_chars:
  "j + n \<le> 8 \<Longrightarrow> base32_unpack dtl_base32_build_rev j (map (base32_char acc) [j..<j + n]) (bits_from (5 * (8 - j)) acc)
    = Ok (bits_from (5 * (8 - (j + n))) acc)"
proof (induction n arbitrary: j)
  case (Suc n)
  have up: "[j..<j + Suc n] = j # [Suc j..<Suc j + n]" by (simp add: upt_conv_Cons)
  have five: "5 * (8 - j) = 5 * (7 - j) + 5" "8 - Suc j = 7 - j" using Suc.prems by auto
  have tab: "byte_at dtl_base32_build_rev (unat (base32_char acc j)) =
      (Ok (int (unat (drop_bit (5 * (7 - j)) acc AND 0x1F))) :: int res)"
    using rev_of_char(1) [OF five_bits_lt, of "drop_bit (5 * (7 - j)) acc"]
    by (simp add: base32_char_def byte_at_def)
  have "word_of_int (int (unat (drop_bit (5 * (7 - j)) acc AND 0x1F))) = drop_bit (5 * (7 - j)) acc AND 0x1F"
    by simp
  then show ?case
    using Suc.IH [of "Suc j"] Suc.prems bits_from_step [of "5 * (7 - j)" acc]
    unfolding up by (simp add: tab five)
qed simp

lemma bits_from_8 [simp]: "bits_from 40 (base32_pack 0 bs 0) = 0" if "length bs \<le> 5"
  using that by (intro bit_eqI) (auto simp: bit_bits_from base32_pack_0_bit)

lemma base32_pad_eq:
  "k \<le> p \<Longrightarrow> p < 8 \<Longrightarrow> \<forall>i < p. grp ! (7 - i) = B32_PAD \<Longrightarrow> grp ! (7 - p) \<noteq> B32_PAD \<Longrightarrow> base32_pad grp k = p"
proof (induction grp k rule: base32_pad.induct)
  case (1 grp k)
  then show ?case by (cases "k = p") (auto simp: base32_pad.simps [of _ k] base32_pad.simps [of _ p])
qed

lemma base32_pad_le: "k \<le> 8 \<Longrightarrow> base32_pad grp k \<le> 8"
proof (induction grp k rule: base32_pad.induct)
  case (1 grp k)
  then show ?case by (subst base32_pad.simps) auto
qed

definition group_chars :: "nat \<Rightarrow> u64 \<Rightarrow> u8 list" where
  "group_chars chars acc = map (\<lambda>j. if j < chars then base32_char acc j else B32_PAD) [0..<8]"

lemma length_group_chars [simp]: "length (group_chars chars acc) = 8"
  by (simp add: group_chars_def)

lemma group_chars_decode:
  assumes "0 < length bs" "length bs \<le> 5"
  defines "acc \<equiv> base32_pack 0 bs 0" and "chars \<equiv> dtl_base32_chars_for_bytes ! length bs"
  shows "base32_pad (group_chars chars acc) 0 = 8 - chars"
    and "base32_databytes (8 - chars) = Some (length bs)"
    and "base32_unpack dtl_base32_build_rev 0 (take (8 - (8 - chars)) (group_chars chars acc)) 0 = Ok acc"
    and "map (base32_byte acc) [0..<length bs] = bs"
    and "8 - chars = 0 \<longleftrightarrow> length bs = 5"
proof -
  have "length bs = 1 \<or> length bs = 2 \<or> length bs = 3 \<or> length bs = 4 \<or> length bs = 5"
    using assms(1,2) by linarith
  then have c: "0 < chars" "chars \<le> 8" "base32_databytes (8 - chars) = Some (length bs)"
    "8 - chars = 0 \<longleftrightarrow> length bs = 5" "5 * (8 - chars) \<le> 8 * (5 - length bs)"
    by (auto simp: chars_def dtl_base32_chars_for_bytes_def)
  show "base32_databytes (8 - chars) = Some (length bs)" "8 - chars = 0 \<longleftrightarrow> length bs = 5" by (fact c)+
  show "base32_pad (group_chars chars acc) 0 = 8 - chars"
    using c(1,2) by (intro base32_pad_eq) (auto simp: group_chars_def)
  have "take chars (group_chars chars acc) = map (base32_char acc) [0..<0 + chars]"
    using c(2) by (auto simp: group_chars_def take_map min_def)
  moreover have "bits_from (5 * (8 - chars)) acc = acc"
  proof (rule bit_eqI)
    fix i
    have "5 * (8 - chars) \<le> i" if "bit acc i"
    proof -
      have "i < 40" "4 - i div 8 < length bs" using that assms(2) by (simp_all add: acc_def base32_pack_0_bit)
      then have "5 - length bs \<le> i div 8" by linarith
      then have "8 * (5 - length bs) \<le> i" by (simp add: less_eq_div_iff_mult_less_eq mult.commute)
      with c(5) show ?thesis by simp
    qed
    then show "bit (bits_from (5 * (8 - chars)) acc) i = bit acc i" by (auto simp: bit_bits_from)
  qed
  ultimately show "base32_unpack dtl_base32_build_rev 0 (take (8 - (8 - chars)) (group_chars chars acc)) 0 = Ok acc"
    using base32_unpack_chars [of 0 chars acc] c(2) assms(2) by (simp add: acc_def)
  show "map (base32_byte acc) [0..<length bs] = bs"
    using base32_byte_pack [OF assms(2)] by (intro nth_equalityI) (simp_all add: acc_def)
qed

lemma base32_decode_group:
  assumes "0 < length bs" "length bs \<le> 5" "n = 0 \<or> length bs = 5" "length out + length bs \<le> cap"
  shows "base32_decode_loop dtl_base32_build_rev (Suc n)
      (group_chars (dtl_base32_chars_for_bytes ! length bs) (base32_pack 0 bs 0) @ r) cap out
    = base32_decode_loop dtl_base32_build_rev n r cap (out @ bs)"
  using group_chars_decode [OF assms(1,2)] assms(3,4) by auto

subsection \<open>The stream\<close>

lemma base32_encode_step:
  assumes "xs \<noteq> []" "length out \<le> cap"
  defines "b \<equiv> min 5 (length xs)"
  shows "base32_encode_loop xs cap out =
    (if cap - length out < 8 then Err DTL_ERR_RANGE
     else base32_encode_loop (drop b xs) cap
       (out @ group_chars (dtl_base32_chars_for_bytes ! b) (base32_pack 0 (take b xs) 0)))"
proof -
  have b: "(if length xs > 5 then 5 else length xs) = b" by (simp add: b_def)
  show ?thesis
    unfolding base32_encode_loop.simps [of xs cap out] Let_def b
    using assms(1,2) by (simp add: group_chars_def)
qed

lemma base32_encode_loop_bounds:
  "length out \<le> cap \<Longrightarrow> base32_encode_loop xs cap out \<noteq> Ub \<and>
   (\<forall>ys. base32_encode_loop xs cap out = Ok ys \<longrightarrow> length ys \<le> cap)"
proof (induction xs arbitrary: out rule: measure_induct_rule [of length])
  case (less xs)
  show ?case
  proof (cases "xs = []")
    case True
    then show ?thesis using less.prems by (simp add: base32_encode_loop.simps)
  next
    case False
    define b where "b = min 5 (length xs)"
    have "length (drop b xs) < length xs" using False by (simp add: b_def)
    from less.IH [OF this, of "out @ group_chars (dtl_base32_chars_for_bytes ! b) (base32_pack 0 (take b xs) 0)"]
    show ?thesis
      unfolding base32_encode_step [OF False less.prems] b_def [symmetric] by simp
  qed
qed

lemma base32_unpack_safe: "base32_unpack dtl_base32_build_rev j cs acc \<noteq> Ub"
proof (induction cs arbitrary: j acc)
  case (Cons c cs)
  then show ?case using unat_lt_2p8 [of c] by simp
qed simp

lemma base32_decode_loop_bounds:
  "length out \<le> cap \<Longrightarrow> length xs = 8 * n \<Longrightarrow> base32_decode_loop dtl_base32_build_rev n xs cap out \<noteq> Ub \<and>
   (\<forall>ys. base32_decode_loop dtl_base32_build_rev n xs cap out = Ok ys \<longrightarrow> length ys \<le> cap)"
proof (induction n arbitrary: xs out)
  case (Suc n)
  let ?pad = "base32_pad (take 8 xs) 0"
  show ?case
  proof (cases "base32_databytes ?pad")
    case (Some k)
    let ?u = "base32_unpack dtl_base32_build_rev 0 (take (8 - ?pad) (take 8 xs)) 0"
    show ?thesis
    proof (cases ?u)
      case (Ok acc)
      with Some Suc.IH [of "out @ map (base32_byte acc) [0..<k]" "drop 8 xs"] Suc.prems show ?thesis
        by (simp add: Let_def del: base32_databytes.simps)
    qed (use Some Suc.prems base32_unpack_safe [of 0 "take (8 - ?pad) (take 8 xs)" 0] in
        \<open>simp_all add: Let_def del: base32_databytes.simps\<close>)
  qed (use Suc.prems in \<open>simp add: Let_def del: base32_databytes.simps\<close>)
qed simp

lemma base32_encode_loop_spec:
  "length out \<le> cap \<Longrightarrow> base32_encode_loop xs cap out = Ok res \<Longrightarrow>
   \<exists>ys n. res = out @ ys \<and> length ys = 8 * n \<and> (n = 0 \<longleftrightarrow> xs = []) \<and>
     (\<forall>cap' out'. length out' + length xs \<le> cap' \<longrightarrow>
        base32_decode_loop dtl_base32_build_rev n ys cap' out' = Ok (out' @ xs))"
proof (induction xs arbitrary: out rule: measure_induct_rule [of length])
  case (less xs)
  show ?case
  proof (cases "xs = []")
    case True
    then show ?thesis using less.prems by (auto simp: base32_encode_loop.simps intro!: exI [of _ 0])
  next
    case False
    define b where "b = min 5 (length xs)"
    define g where "g = group_chars (dtl_base32_chars_for_bytes ! b) (base32_pack 0 (take b xs) 0)"
    have len: "length (drop b xs) < length xs" using False by (simp add: b_def)
    have "length (out @ g) \<le> cap" "base32_encode_loop (drop b xs) cap (out @ g) = Ok res"
      using less.prems base32_encode_step [OF False less.prems(1)]
      by (auto simp: b_def [symmetric] g_def split: if_splits)
    from less.IH [OF len this] obtain ys n where ys: "res = (out @ g) @ ys" "length ys = 8 * n"
      "n = 0 \<longleftrightarrow> drop b xs = []"
      "\<forall>cap' out'. length out' + length (drop b xs) \<le> cap' \<longrightarrow>
        base32_decode_loop dtl_base32_build_rev n ys cap' out' = Ok (out' @ drop b xs)" by blast
    have tb: "length (take b xs) = b" "0 < b" "b \<le> 5" using False by (auto simp: b_def)
    have last: "n = 0 \<or> length (take b xs) = 5" using ys(3) by (auto simp: b_def)
    have "base32_decode_loop dtl_base32_build_rev (Suc n) (g @ ys) cap' out' = Ok (out' @ xs)"
      if "length out' + length xs \<le> cap'" for cap' out'
    proof -
      have "base32_decode_loop dtl_base32_build_rev (Suc n) (g @ ys) cap' out' =
          base32_decode_loop dtl_base32_build_rev n ys cap' (out' @ take b xs)"
        using base32_decode_group [OF _ _ last, of out' cap' ys] tb that by (simp add: g_def b_def)
      also have "\<dots> = Ok ((out' @ take b xs) @ drop b xs)"
        using ys(4) that tb by simp
      finally show ?thesis by simp
    qed
    moreover have "length (g @ ys) = 8 * Suc n" using ys(2) by (simp add: g_def)
    ultimately show ?thesis using ys(1) False by (intro exI [of _ "g @ ys"] exI [of _ "Suc n"]) simp
  qed
qed

lemma base32_decode_bounds:
  "dtl_base32_decode xs cap \<noteq> Ub \<and> (\<forall>ys. dtl_base32_decode xs cap = Ok ys \<longrightarrow> length ys \<le> cap)"
proof (cases "length xs mod 8 = 0")
  case True
  then have "length xs = 8 * (length xs div 8)" by auto
  from base32_decode_loop_bounds [OF _ this, of "[]" cap] True show ?thesis
    by (simp add: dtl_base32_decode_def dtl_base32_decode_st_def Let_def)
qed (auto simp: dtl_base32_decode_def dtl_base32_decode_st_def Let_def)

interpretation base32_dec: pure_coder dtl_base32_decode
  using base32_decode_bounds by unfold_locales blast+

interpretation base32: pure_codec dtl_base32_encode dtl_base32_decode
proof unfold_locales
  fix xs ys :: "u8 list" and cap cap'
  assume len: "length xs \<le> cap'" and e: "dtl_base32_encode xs cap = Ok ys"
  then obtain n where "length ys = 8 * n" "n = 0 \<longleftrightarrow> xs = []"
    "base32_decode_loop dtl_base32_build_rev n ys cap' [] = Ok xs"
    using base32_encode_loop_spec [of "[]" cap xs ys] by (auto simp: dtl_base32_encode_def)
  then show "dtl_base32_decode ys cap' = Ok xs"
    by (auto simp: dtl_base32_decode_def dtl_base32_decode_st_def Let_def)
qed (use base32_encode_loop_bounds [of "[]"] base32_decode_bounds in \<open>auto simp: dtl_base32_encode_def\<close>)

end
