(* ===== verification/Codec_Registry.thy ===== *)
theory Codec_Registry
  imports Codec_Rle Codec_Varint Codec_Delta Codec_Lz77 Codec_Dict Codec_Base32
begin

text \<open>
  \<^verbatim>\<open>src/codec/registry.c\<close>: the dispatch table of the seven codecs, and what a caller that looked up a
  codec may rely on, whichever codec it is.
\<close>

record dtl_codec =
  codec_id :: u8
  codec_name :: string
  codec_decode :: codec_fn
  codec_encode :: codec_fn

definition DTL_CODEC_STORE :: u8 where "DTL_CODEC_STORE = 0"
definition DTL_CODEC_RLE :: u8 where "DTL_CODEC_RLE = 1"
definition DTL_CODEC_VARINT :: u8 where "DTL_CODEC_VARINT = 2"
definition DTL_CODEC_LZ77 :: u8 where "DTL_CODEC_LZ77 = 3"
definition DTL_CODEC_DICT :: u8 where "DTL_CODEC_DICT = 4"
definition DTL_CODEC_DELTA :: u8 where "DTL_CODEC_DELTA = 5"
definition DTL_CODEC_BASE32 :: u8 where "DTL_CODEC_BASE32 = 6"

lemmas codec_ids = DTL_CODEC_STORE_def DTL_CODEC_RLE_def DTL_CODEC_VARINT_def DTL_CODEC_LZ77_def
  DTL_CODEC_DICT_def DTL_CODEC_DELTA_def DTL_CODEC_BASE32_def

definition codec_entry :: "u8 \<Rightarrow> string \<Rightarrow> codec_fn \<Rightarrow> codec_fn \<Rightarrow> dtl_codec" where
  "codec_entry i name dec enc = \<lparr>codec_id = i, codec_name = name, codec_decode = dec, codec_encode = enc\<rparr>"

definition dtl_codec_table :: "dtl_codec list" where
  "dtl_codec_table =
    [codec_entry DTL_CODEC_STORE ''store'' (lift_coder dtl_store_decode) (lift_coder dtl_store_encode),
     codec_entry DTL_CODEC_RLE ''rle'' (lift_coder dtl_rle_decode) (lift_coder dtl_rle_encode),
     codec_entry DTL_CODEC_VARINT ''varint'' (lift_coder dtl_varint_decode) (lift_coder dtl_varint_encode),
     codec_entry DTL_CODEC_LZ77 ''lz77'' (lift_coder dtl_lz77_decode) (lift_coder dtl_lz77_encode),
     codec_entry DTL_CODEC_DICT ''dict'' dtl_dict_decode dtl_dict_encode,
     codec_entry DTL_CODEC_DELTA ''delta'' (lift_coder dtl_delta_decode) (lift_coder dtl_delta_encode),
     codec_entry DTL_CODEC_BASE32 ''base32'' (lift_coder dtl_base32_decode) (lift_coder dtl_base32_encode)]"

fun codec_scan :: "dtl_codec list \<Rightarrow> u8 \<Rightarrow> dtl_codec option" where
  "codec_scan [] i = None"
| "codec_scan (c # cs) i = (if codec_id c = i then Some c else codec_scan cs i)"

definition dtl_codec_get :: "u8 \<Rightarrow> dtl_codec option" where
  "dtl_codec_get i = codec_scan dtl_codec_table i"

lemma codec_entry_simps [simp]:
  "codec_id (codec_entry i name dec enc) = i" "codec_name (codec_entry i name dec enc) = name"
  "codec_decode (codec_entry i name dec enc) = dec" "codec_encode (codec_entry i name dec enc) = enc"
  by (simp_all add: codec_entry_def)

lemma codec_scan_Some: "codec_scan cs i = Some c \<Longrightarrow> c \<in> set cs \<and> codec_id c = i"
  by (induction cs) (auto split: if_splits)

lemma codec_get_Some: "dtl_codec_get i = Some c \<Longrightarrow> c \<in> set dtl_codec_table \<and> codec_id c = i"
  unfolding dtl_codec_get_def by (rule codec_scan_Some)

lemma table_pairs: "c \<in> set dtl_codec_table \<Longrightarrow> codec_pair (codec_encode c) (codec_decode c)"
  unfolding dtl_codec_table_def
  using store.codec_pair_axioms rle.codec_pair_axioms varint.codec_pair_axioms lz77.codec_pair_axioms
    dict.codec_pair_axioms delta.codec_pair_axioms base32.codec_pair_axioms by auto

lemma table_decoders_safe:
  "c \<in> set dtl_codec_table \<Longrightarrow> codec_id c \<noteq> DTL_CODEC_LZ77 \<Longrightarrow> coder_safe (codec_decode c)"
  unfolding dtl_codec_table_def
  using store_dec.lifted.coder_safe_axioms rle_dec.lifted.coder_safe_axioms
    varint_dec.lifted.coder_safe_axioms dict_dec.coder_safe_axioms delta_dec.lifted.coder_safe_axioms
    base32_dec.lifted.coder_safe_axioms by auto

text \<open>The properties of a looked-up codec that its callers use.\<close>

lemma codec_get_pair: "dtl_codec_get i = Some c \<Longrightarrow> codec_pair (codec_encode c) (codec_decode c)"
  by (simp add: codec_get_Some table_pairs)

lemma codec_get_iff: "(\<exists>c. dtl_codec_get i = Some c) \<longleftrightarrow> i \<le> 6"
proof -
  have "i \<le> 6 \<longleftrightarrow> unat i \<le> 6" by (simp add: word_le_nat_alt)
  also have "\<dots> \<longleftrightarrow> unat i \<in> {0, 1, 2, 3, 4, 5, 6}" by auto
  also have "\<dots> \<longleftrightarrow> i \<in> {0, 1, 2, 3, 4, 5, 6}" by (auto simp: word_unat_eq_iff)
  finally show ?thesis
    by (auto simp: dtl_codec_get_def dtl_codec_table_def codec_ids)
qed

text \<open>
  C4.  Whatever codec the registry returns for an id, a stream it encoded decodes to the original
  bytes in any buffer that can hold them, provided allocation works.
\<close>

theorem codec_roundtrip:
  assumes "dtl_codec_get i = Some c" and "mem_ok m" and "mem_ok m'" and "heap_never_fails m'"
    and "fst (codec_encode c m xs cap) = Ok ys" and "length xs \<le> cap'"
  shows "fst (codec_decode c m' ys cap') = Ok xs"
  using codec_pair.decode_encode [OF codec_get_pair [OF assms(1)] assms(2,3,6,5,4)] .

lemma codec_roundtrip_witness:
  "\<exists>c. dtl_codec_get 1 = Some c \<and>
     fst (codec_encode c (mem_init (\<lambda>_ _. False)) [7, 7, 7, 9] 8) = Ok [3, 7, 1, 9] \<and>
     fst (codec_decode c (mem_init (\<lambda>_ _. False)) [3, 7, 1, 9] 4) = Ok [7, 7, 7, 9]"
proof -
  obtain c where c: "dtl_codec_get 1 = Some c" using codec_get_iff [of 1] by auto
  have e: "fst (codec_encode c (mem_init (\<lambda>_ _. False)) [7, 7, 7, 9] 8) = Ok [3, 7, 1, 9]"
    using c by (auto simp: dtl_codec_get_def dtl_codec_table_def codec_ids lift_coder_def dtl_rle_encode_def
        rle_run.simps DTL_RLE_MAX_RUN_def)
  have "heap_never_fails (mem_init (\<lambda>_ _. False))" by (simp add: heap_never_fails_def mem_init_def)
  from codec_roundtrip [OF c mem_ok_init mem_ok_init this e, of 4] c e show ?thesis by auto
qed

text \<open>
  C5.  No decoder but LZ77's ever reads outside its input or writes outside its output buffer,
  whatever the compressed bytes are; a successful decode fits the buffer, and the heap blocks that
  were live before the call are unchanged.
\<close>

theorem codec_decode_memory_safe:
  assumes "dtl_codec_get i = Some c" and "i \<noteq> DTL_CODEC_LZ77" and "mem_ok m"
  shows "((\<exists>ys. fst (codec_decode c m xs cap) = Ok ys \<and> length ys \<le> cap) \<or>
      (\<exists>e. fst (codec_decode c m xs cap) = Err e)) \<and> heap_ext m (snd (codec_decode c m xs cap))"
proof -
  note safe = table_decoders_safe [of c]
  have "c \<in> set dtl_codec_table" "codec_id c \<noteq> DTL_CODEC_LZ77"
    using codec_get_Some [OF assms(1)] assms(2) by simp_all
  then have s: "coder_safe (codec_decode c)" by (rule safe)
  then have b: "coder_bounds (codec_decode c)" by (simp add: coder_safe_def)
  show ?thesis
    using coder_safe.outcome [OF s assms(3)] coder_bounds.frame_snd [OF b assms(3)] by blast
qed

lemma codec_decode_memory_safe_witness:
  "\<exists>c. dtl_codec_get 4 = Some c \<and>
     (fst (codec_decode c (mem_init (\<lambda>_ _. True)) [1, 0, 255] 16) \<noteq> Ub)"
proof -
  obtain c where c: "dtl_codec_get 4 = Some c" using codec_get_iff [of 4] by auto
  have "(4 :: u8) \<noteq> DTL_CODEC_LZ77" by (simp add: codec_ids)
  from codec_decode_memory_safe [OF c this mem_ok_init [of "\<lambda>_ _. True"], of "[1, 0, 255]" 16] c
  show ?thesis by auto
qed

text \<open>
  C6.  Every encoder, LZ77's included, stays inside its buffers on every input and produces at most
  as many bytes as the output buffer holds.
\<close>

theorem codec_encode_memory_safe:
  assumes "dtl_codec_get i = Some c" and "mem_ok m"
  shows "((\<exists>ys. fst (codec_encode c m xs cap) = Ok ys \<and> length ys \<le> cap) \<or>
      (\<exists>e. fst (codec_encode c m xs cap) = Err e)) \<and> heap_ext m (snd (codec_encode c m xs cap))"
proof -
  have s: "coder_safe (codec_encode c)" using codec_get_pair [OF assms(1)] by (simp add: codec_pair_def)
  then have b: "coder_bounds (codec_encode c)" by (simp add: coder_safe_def)
  show ?thesis
    using coder_safe.outcome [OF s assms(2)] coder_bounds.frame_snd [OF b assms(2)] by blast
qed

lemma codec_encode_memory_safe_witness:
  "\<exists>c. dtl_codec_get 3 = Some c \<and>
     (fst (codec_encode c (mem_init (\<lambda>_ _. False)) [1, 2, 3] 1) \<noteq> Ub)"
proof -
  obtain c where c: "dtl_codec_get 3 = Some c" using codec_get_iff [of 3] by auto
  from codec_encode_memory_safe [OF c mem_ok_init [of "\<lambda>_ _. False"], of "[1, 2, 3]" 1] c
  show ?thesis by auto
qed

text \<open>
  C7.  The LZ77 decoder is not memory safe: the three-byte blob \<open>01 00 00\<close> makes it read one byte
  before its output buffer, for every capacity that has room for the match.
\<close>

theorem lz77_decode_underflow:
  "dtl_codec_get DTL_CODEC_LZ77 \<noteq> None \<and>
   fst (codec_decode (the (dtl_codec_get DTL_CODEC_LZ77)) m [1, 0, 0] (3 + n)) = Ub"
proof -
  have "dtl_codec_get DTL_CODEC_LZ77 =
      Some (codec_entry DTL_CODEC_LZ77 ''lz77'' (lift_coder dtl_lz77_decode) (lift_coder dtl_lz77_encode))"
    by (simp add: dtl_codec_get_def dtl_codec_table_def codec_ids)
  then show ?thesis by (simp add: lift_coder_def lz77_decode_reads_before_output)
qed

end
