(* ===== verification/Records_World.thy ===== *)
theory Records_World
  imports Core_Arena Core_Buf
begin

text \<open>
  The state the record parsers share: the heap, the caller's arena and the static pools of
  \<^verbatim>\<open>src/records/sensor.c\<close>, \<^verbatim>\<open>event.c\<close>, \<^verbatim>\<open>diag.c\<close>, \<^verbatim>\<open>config.c\<close> and
  \<^verbatim>\<open>keyref.c\<close>, from which the parsers take the memory their records point to.  A parser is a
  state transformer \<open>world \<Rightarrow> 'a res \<times> world\<close>; \<open>wvalid\<close> is the Hoare triple for it, with a
  postcondition for errors, and implies that the run is never \<open>Ub\<close> and keeps the pools well formed.
\<close>

record pools =
  sensor_pool :: "nat list"
  event_pool :: "nat list"
  diag_pool :: "(nat \<times> nat) list"
  diag_pool_bytes :: nat
  cfg_pool :: "nat list"
  keyref_ring :: "nat option list"
  keyref_pos :: nat

record world =
  w_mem :: mem
  w_arena :: dtl_arena
  w_pools :: pools

type_synonym 'a wm = "world \<Rightarrow> 'a res \<times> world"

definition pools_init :: pools where
  "pools_init = \<lparr>sensor_pool = [], event_pool = [], diag_pool = [], diag_pool_bytes = 0, cfg_pool = [],
     keyref_ring = [None, None, None, None], keyref_pos = 0\<rparr>"

definition world_init :: "mem \<Rightarrow> world" where
  "world_init m = \<lparr>w_mem = m, w_arena = dtl_arena_init 0, w_pools = pools_init\<rparr>"

subsection \<open>Sequencing\<close>

definition wret :: "'a \<Rightarrow> 'a wm" where "wret x w = (Ok x, w)"
definition wfail :: "dtl_err \<Rightarrow> 'a wm" where "wfail e w = (Err e, w)"
definition wlift :: "'a res \<Rightarrow> 'a wm" where "wlift r w = (r, w)"

definition wbind :: "'a wm \<Rightarrow> ('a \<Rightarrow> 'b wm) \<Rightarrow> 'b wm" where
  "wbind f g w = (case f w of (Ok x, w') \<Rightarrow> g x w' | (Err e, w') \<Rightarrow> (Err e, w') | (Ub, w') \<Rightarrow> (Ub, w'))"

text \<open>Heap operations on the world.\<close>

definition w_malloc :: "nat \<Rightarrow> nat option wm" where
  "w_malloc n w = (case c_malloc (w_mem w) n of (p, m) \<Rightarrow> (Ok p, w\<lparr>w_mem := m\<rparr>))"

definition w_free :: "nat option \<Rightarrow> unit wm" where
  "w_free p w = (case c_free (w_mem w) p of
     Ok m \<Rightarrow> (Ok (), w\<lparr>w_mem := m\<rparr>) | Err e \<Rightarrow> (Err e, w) | Ub \<Rightarrow> (Ub, w))"

fun w_free_all :: "nat list \<Rightarrow> unit wm" where
  "w_free_all [] = wret ()"
| "w_free_all (b # bs) = wbind (w_free (Some b)) (\<lambda>_. w_free_all bs)"

definition w_arena_alloc :: "nat \<Rightarrow> addr option wm" where
  "w_arena_alloc n w = (case dtl_arena_alloc (w_mem w) (w_arena w) n of
     (p, a, m) \<Rightarrow> (Ok p, w\<lparr>w_mem := m, w_arena := a\<rparr>))"

definition w_store :: "addr \<Rightarrow> u8 list \<Rightarrow> unit wm" where
  "w_store p bs w = (case store_bytes (w_mem w) p bs of
     Ok m \<Rightarrow> (Ok (), w\<lparr>w_mem := m\<rparr>) | Err e \<Rightarrow> (Err e, w) | Ub \<Rightarrow> (Ub, w))"

definition w_pools_upd :: "(pools \<Rightarrow> pools) \<Rightarrow> unit wm" where
  "w_pools_upd f w = (Ok (), w\<lparr>w_pools := f (w_pools w)\<rparr>)"

text \<open>\<open>dtl_buf_read_bytes\<close> into a heap buffer.\<close>

definition w_read_bytes :: "dtl_buf \<Rightarrow> addr \<Rightarrow> nat \<Rightarrow> dtl_buf wm" where
  "w_read_bytes b p n =
     wbind (wlift (dtl_buf_read_bytes b n)) (\<lambda>(bs, b).
     wbind (w_store p bs) (\<lambda>_. wret b))"

subsection \<open>The invariant\<close>

text \<open>The blocks in the label ring.\<close>

definition ring_blocks :: "nat option list \<Rightarrow> nat list" where
  "ring_blocks ring = concat (map (\<lambda>x. case x of None \<Rightarrow> [] | Some b \<Rightarrow> [b]) ring)"

lemma ring_blocks_empty [simp]: "ring_blocks [None, None, None, None] = []"
  by (simp add: ring_blocks_def)

definition pool_blocks :: "pools \<Rightarrow> nat list" where
  "pool_blocks q = sensor_pool q @ event_pool q @ map fst (diag_pool q) @ cfg_pool q @
     ring_blocks (keyref_ring q)"

definition pools_ok :: "pools \<Rightarrow> bool" where
  "pools_ok q \<longleftrightarrow> length (sensor_pool q) \<le> 8 \<and> length (event_pool q) \<le> 256 \<and> length (diag_pool q) \<le> 64 \<and>
     length (cfg_pool q) \<le> 32 \<and> length (keyref_ring q) = 4 \<and>
     diag_pool_bytes q = sum_list (map snd (diag_pool q)) \<and> distinct (pool_blocks q)"

definition world_ok :: "world \<Rightarrow> bool" where
  "world_ok w \<longleftrightarrow> mem_ok (w_mem w) \<and> arena_ok (w_mem w) (w_arena w) \<and> pools_ok (w_pools w) \<and>
     (\<forall>b \<in> set (pool_blocks (w_pools w)). m_objs (w_mem w) b \<noteq> None \<and> b \<notin> arena_blocks (w_arena w))"

lemma world_init_ok: "mem_ok m \<Longrightarrow> world_ok (world_init m)"
  using arena_init_ok [of m 0] by (simp add: world_ok_def world_init_def pools_init_def pools_ok_def pool_blocks_def)

subsection \<open>Triples\<close>

fun wpost :: "('a \<Rightarrow> world \<Rightarrow> bool) \<Rightarrow> (dtl_err \<Rightarrow> bool) \<Rightarrow> 'a res \<times> world \<Rightarrow> bool" where
  "wpost Q E (Ok x, w) \<longleftrightarrow> world_ok w \<and> Q x w"
| "wpost Q E (Err e, w) \<longleftrightarrow> world_ok w \<and> E e"
| "wpost Q E (Ub, w) \<longleftrightarrow> False"

definition wvalid :: "(world \<Rightarrow> bool) \<Rightarrow> 'a wm \<Rightarrow> ('a \<Rightarrow> world \<Rightarrow> bool) \<Rightarrow> (dtl_err \<Rightarrow> bool) \<Rightarrow> bool" where
  "wvalid P f Q E \<longleftrightarrow> (\<forall>w. world_ok w \<longrightarrow> P w \<longrightarrow> wpost Q E (f w))"

lemma wpost_mono:
  "wpost Q E r \<Longrightarrow> (\<And>x w. world_ok w \<Longrightarrow> Q x w \<Longrightarrow> Q' x w) \<Longrightarrow> (\<And>e. E e \<Longrightarrow> E' e) \<Longrightarrow> wpost Q' E' r"
  by (cases "(Q, E, r)" rule: wpost.cases) auto

lemma wvalidI: "(\<And>w. world_ok w \<Longrightarrow> P w \<Longrightarrow> wpost Q E (f w)) \<Longrightarrow> wvalid P f Q E"
  by (simp add: wvalid_def)

lemma wvalidD: "wvalid P f Q E \<Longrightarrow> world_ok w \<Longrightarrow> P w \<Longrightarrow> wpost Q E (f w)"
  by (simp add: wvalid_def)

lemma wpost_facts:
  assumes "wpost Q E r"
  shows "fst r \<noteq> Ub" "world_ok (snd r)" "fst r = Ok x \<Longrightarrow> Q x (snd r)" "fst r = Err e \<Longrightarrow> E e"
  using assms by (cases "(Q, E, r)" rule: wpost.cases; auto)+

lemma wpost_bind:
  assumes "wpost R E (f w)" and "\<And>x w'. world_ok w' \<Longrightarrow> R x w' \<Longrightarrow> wpost Q E (g x w')"
  shows "wpost Q E (wbind f g w)"
  using assms by (cases "(R, E, f w)" rule: wpost.cases) (auto simp: wbind_def)

lemma wvalid_bind:
  assumes "wvalid P f R E" and "\<And>x. wvalid (R x) (g x) Q E"
  shows "wvalid P (wbind f g) Q E"
proof (rule wvalidI)
  fix w assume "world_ok w" "P w"
  from wvalidD [OF assms(1) this] show "wpost Q E (wbind f g w)"
    by (rule wpost_bind) (rule wvalidD [OF assms(2)])
qed

lemma wvalid_ret: "(\<And>w. world_ok w \<Longrightarrow> P w \<Longrightarrow> Q x w) \<Longrightarrow> wvalid P (wret x) Q E"
  by (simp add: wvalid_def wret_def)

lemma wvalid_fail: "(\<And>w. world_ok w \<Longrightarrow> P w \<Longrightarrow> E e) \<Longrightarrow> wvalid P (wfail e) Q E"
  by (simp add: wvalid_def wfail_def)

lemma wvalid_weaken:
  assumes "wvalid P' f Q' E'" and "\<And>w. world_ok w \<Longrightarrow> P w \<Longrightarrow> P' w"
    and "\<And>x w. world_ok w \<Longrightarrow> Q' x w \<Longrightarrow> Q x w" and "\<And>e. E' e \<Longrightarrow> E e"
  shows "wvalid P f Q E"
proof (rule wvalidI)
  fix w assume "world_ok w" "P w"
  from wvalidD [OF assms(1) this(1) assms(2) [OF this]] show "wpost Q E (f w)"
    by (rule wpost_mono) (simp_all add: assms(3,4))
qed

lemma wvalid_pre: "(\<And>w. world_ok w \<Longrightarrow> P w \<Longrightarrow> P' w) \<Longrightarrow> wvalid P' f Q E \<Longrightarrow> wvalid P f Q E"
  by (rule wvalid_weaken)

lemma wvalid_conj: "(C \<Longrightarrow> wvalid P f Q E) \<Longrightarrow> wvalid (\<lambda>w. C \<and> P w) f Q E"
  by (auto simp: wvalid_def)

lemma wvalid_ex: "(\<And>x. wvalid (P x) f Q E) \<Longrightarrow> wvalid (\<lambda>w. \<exists>x. P x w) f Q E"
  by (fastforce simp: wvalid_def)

text \<open>A pure step with a known outcome, and a pure step that consumes input.\<close>

lemma wbind_simps [simp]:
  "wbind (wlift (Ok x)) g = g x" "wbind (wlift (Err e)) g = wfail e" "wbind (wret x) g = g x"
  "wbind (wfail e) g = wfail e"
  by (simp_all add: wbind_def wlift_def wfail_def wret_def fun_eq_iff)

lemma wvalid_bind_lift:
  assumes "r \<noteq> Ub" and "\<And>e. r = Err e \<Longrightarrow> E e" and "\<And>x. r = Ok x \<Longrightarrow> wvalid P (g x) Q E"
  shows "wvalid P (wbind (wlift r) g) Q E"
  using assms by (cases r) (auto simp: wvalid_fail)

subsection \<open>The heap operations keep the invariant\<close>

lemma world_ok_mem: "world_ok w \<Longrightarrow> mem_ok (w_mem w)"
  by (simp add: world_ok_def)

lemma wpost_store:
  assumes "world_ok w" "region_ok (w_mem w) p (length bs)"
  shows "wpost (\<lambda>_ w'. \<exists>m. store_bytes (w_mem w) p bs = Ok m \<and> w' = w\<lparr>w_mem := m\<rparr>) E (w_store p bs w)"
proof -
  obtain m where m: "store_bytes (w_mem w) p bs = Ok m"
    using assms(2) store_bytes_Ok_iff by blast
  have "world_ok (w\<lparr>w_mem := m\<rparr>)"
    using assms(1) store_bytes_mem_ok [OF _ m] arena_ok_store [OF m] store_bytes_objs_None [OF m]
    by (auto simp: world_ok_def)
  with m show ?thesis by (simp add: w_store_def)
qed

lemma world_ok_malloc:
  assumes "world_ok w" "c_malloc (w_mem w) n = (p, m)"
  shows "world_ok (w\<lparr>w_mem := m\<rparr>)"
  using assms c_malloc_mem_ok [OF _ assms(2)] arena_ok_malloc [OF _ assms(2)] c_malloc_live [OF _ assms(2)]
  by (fastforce simp: world_ok_def)

lemma ext_obj: "mem_ok m \<Longrightarrow> heap_ext m m' \<Longrightarrow> m_objs m b = Some cs \<Longrightarrow> m_objs m' b = Some cs"
  by (auto simp: heap_ext_def dest: live_lt_next)

lemma world_ok_ext:
  assumes "world_ok w" "heap_ext (w_mem w) m"
  shows "world_ok (w\<lparr>w_mem := m\<rparr>)"
proof -
  have live: "m_objs m b = Some cs" if "m_objs (w_mem w) b = Some cs" for b cs
    using ext_obj [OF world_ok_mem [OF assms(1)] assms(2) that] .
  have "arena_ok m (w_arena w)"
    using assms(1) by (auto simp: world_ok_def arena_ok_def block_ok_def dest!: live)
  with assms live heap_ext_ok [OF assms(2)] show ?thesis by (fastforce simp: world_ok_def)
qed

lemma fresh_not_used:
  assumes "world_ok w" "c_malloc (w_mem w) n = (Some b, m)"
  shows "b \<notin> set (pool_blocks (w_pools w))" "b \<notin> arena_blocks (w_arena w)" "m_objs (w_mem w) b = None"
proof -
  show n: "m_objs (w_mem w) b = None" using c_malloc_fresh [OF _ assms(2)] assms(1) by (auto simp: world_ok_def)
  then show "b \<notin> set (pool_blocks (w_pools w))" using assms(1) by (auto simp: world_ok_def)
  show "b \<notin> arena_blocks (w_arena w)"
    using n assms(1) by (auto simp: world_ok_def arena_ok_def arena_blocks_def block_ok_def)
qed

lemma world_ok_arena_alloc:
  assumes "world_ok w" "dtl_arena_alloc (w_mem w) (w_arena w) n = (r, a, m)"
  shows "world_ok (w\<lparr>w_mem := m, w_arena := a\<rparr>)"
proof -
  have ok: "mem_ok (w_mem w)" "arena_ok (w_mem w) (w_arena w)" using assms(1) by (simp_all add: world_ok_def)
  note mem = arena_alloc_mem [OF assms(2) ok(1)]
  have "arena_blocks a \<subseteq> arena_blocks (w_arena w) \<union> {d. m_objs (w_mem w) d = None}"
    using assms(2) ok by (cases rule: arena_alloc_cases) (auto simp: arena_blocks_def)
  with assms(1) mem arena_alloc_ok [OF assms(2) ok] show ?thesis
    by (fastforce simp: world_ok_def)
qed

lemma wvalid_arena_alloc:
  "wvalid P (w_arena_alloc n) (\<lambda>p w. \<forall>q. p = Some q \<longrightarrow> region_ok (w_mem w) q n \<and> owned (w_arena w) q n) E"
proof (rule wvalidI)
  fix w assume w: "world_ok w"
  obtain r a m where al: "dtl_arena_alloc (w_mem w) (w_arena w) n = (r, a, m)" using prod_cases3 by blast
  have "region_ok m q n \<and> owned a q n" if "r = Some q" for q
    using arena_alloc_Some(1,3) [of "w_mem w" "w_arena w" n q a m] al that w by (simp add: world_ok_def)
  with world_ok_arena_alloc [OF w al] al
  show "wpost (\<lambda>p w. \<forall>q. p = Some q \<longrightarrow> region_ok (w_mem w) q n \<and> owned (w_arena w) q n) E (w_arena_alloc n w)"
    by (simp add: w_arena_alloc_def)
qed

text \<open>Freeing blocks that are dropped from the pools in the same step.\<close>

lemma world_ok_free:
  assumes "world_ok w" "m_objs (w_mem w) b \<noteq> None" "b \<notin> arena_blocks (w_arena w)"
    "pools_ok q" "set (pool_blocks q) \<subseteq> set (pool_blocks (w_pools w)) - {b}"
  shows "\<exists>m. c_free (w_mem w) (Some b) = Ok m \<and> world_ok (w\<lparr>w_mem := m, w_pools := q\<rparr>) \<and> 
    (\<forall>c. m_objs m c = (if c = b then None else m_objs (w_mem w) c))"
proof -
  define m where "m = (w_mem w)\<lparr>m_objs := (m_objs (w_mem w))(b := None)\<rparr>"
  have f: "c_free (w_mem w) (Some b) = Ok m" using assms(2) by (auto simp: c_free_def m_def)
  have "arena_ok m (w_arena w)"
    using assms(1,3) by (auto simp: world_ok_def arena_ok_def block_ok_def arena_blocks_def m_def)
  with assms f show ?thesis
    by (intro exI [of _ m]) (auto simp: world_ok_def m_def mem_ok_def)
qed

end
