(* ===== verification/Records_Parse.thy ===== *)
theory Records_Parse
  imports Records_World Format_Tlv
begin

text \<open>
  \<^verbatim>\<open>src/records/*.c\<close>: the record structs, the static pools and the eleven payload parsers, and the
  dispatch of \<^verbatim>\<open>src/records/registry.c\<close>.  A pointer member is an \<open>addr option\<close> (\<open>None\<close> is
  \<open>NULL\<close>); a float sample is the 32-bit pattern that \<open>memcpy\<close> moves.  The array of pointer pairs
  of a CONFIG record is kept as a list.
\<close>

subsection \<open>Structs\<close>

record dtl_heartbeat =
  hb_uptime_s :: u32
  hb_seq :: u32

record dtl_geo =
  geo_lat_e7 :: u32
  geo_lon_e7 :: u32
  geo_alt_mm :: u32

record dtl_battery =
  bat_pct :: u8
  bat_temp_c_e1 :: u16
  bat_cycles :: u32

record dtl_firmware =
  fw_major :: u16
  fw_minor :: u16
  fw_patch :: u16
  fw_hash :: "u8 list"

record dtl_net =
  net_iface_id :: u8
  net_rx_bytes :: u32
  net_tx_bytes :: u32
  net_rx_pkts :: u32
  net_tx_pkts :: u32

record dtl_sensor =
  sen_sensor_id :: u16
  sen_count :: u8
  sen_samples :: "addr option"

record dtl_event =
  ev_code :: u16
  ev_payload_len :: u16
  ev_payload :: "addr option"

record dtl_log =
  log_severity :: u8
  log_msg_len :: u16
  log_msg :: "addr option"

record dtl_config =
  cfg_pair_count :: u8
  cfg_pairs :: "(addr \<times> addr) list"

record dtl_keyref =
  kr_slot_id :: u8
  kr_label_len :: u8
  kr_label :: "addr option"
  kr_redacted :: u8

record dtl_diag =
  dg_subsystem :: u16
  dg_blob_len :: u16
  dg_blob :: "addr option"
  dg_redacted :: u8

definition DTL_REC_HEARTBEAT :: u8 where "DTL_REC_HEARTBEAT = 0x10"
definition DTL_REC_SENSOR :: u8 where "DTL_REC_SENSOR = 0x11"
definition DTL_REC_EVENT :: u8 where "DTL_REC_EVENT = 0x12"
definition DTL_REC_DIAG :: u8 where "DTL_REC_DIAG = 0x13"
definition DTL_REC_GEO :: u8 where "DTL_REC_GEO = 0x14"
definition DTL_REC_BATTERY :: u8 where "DTL_REC_BATTERY = 0x15"
definition DTL_REC_NET :: u8 where "DTL_REC_NET = 0x16"
definition DTL_REC_LOG :: u8 where "DTL_REC_LOG = 0x17"
definition DTL_REC_CONFIG :: u8 where "DTL_REC_CONFIG = 0x18"
definition DTL_REC_KEYREF :: u8 where "DTL_REC_KEYREF = 0x19"
definition DTL_REC_FIRMWARE :: u8 where "DTL_REC_FIRMWARE = 0x1A"

lemmas rec_tags = DTL_REC_HEARTBEAT_def DTL_REC_SENSOR_def DTL_REC_EVENT_def DTL_REC_DIAG_def
  DTL_REC_GEO_def DTL_REC_BATTERY_def DTL_REC_NET_def DTL_REC_LOG_def DTL_REC_CONFIG_def
  DTL_REC_KEYREF_def DTL_REC_FIRMWARE_def

text \<open>The tagged union; the constructor is the tag.\<close>

datatype dtl_record =
    RHeartbeat dtl_heartbeat
  | RSensor dtl_sensor
  | REvent dtl_event
  | RDiag dtl_diag
  | RGeo dtl_geo
  | RBattery dtl_battery
  | RNet dtl_net
  | RLog dtl_log
  | RConfig dtl_config
  | RKeyref dtl_keyref
  | RFirmware dtl_firmware

fun rec_tag :: "dtl_record \<Rightarrow> u8" where
  "rec_tag (RHeartbeat _) = DTL_REC_HEARTBEAT"
| "rec_tag (RSensor _) = DTL_REC_SENSOR"
| "rec_tag (REvent _) = DTL_REC_EVENT"
| "rec_tag (RDiag _) = DTL_REC_DIAG"
| "rec_tag (RGeo _) = DTL_REC_GEO"
| "rec_tag (RBattery _) = DTL_REC_BATTERY"
| "rec_tag (RNet _) = DTL_REC_NET"
| "rec_tag (RLog _) = DTL_REC_LOG"
| "rec_tag (RConfig _) = DTL_REC_CONFIG"
| "rec_tag (RKeyref _) = DTL_REC_KEYREF"
| "rec_tag (RFirmware _) = DTL_REC_FIRMWARE"

subsection \<open>Fixed-layout records\<close>

definition dtl_heartbeat_parse :: "u8 list \<Rightarrow> dtl_heartbeat wm" where
  "dtl_heartbeat_parse val =
     (if length val \<noteq> 8 then wfail DTL_ERR_BADRECORD else
      wbind (wlift (dtl_buf_read_u32 (dtl_buf_init val))) (\<lambda>(uptime, b).
      wbind (wlift (dtl_buf_read_u32 b)) (\<lambda>(sq, b).
      wret \<lparr>hb_uptime_s = uptime, hb_seq = sq\<rparr>)))"

definition dtl_geo_parse :: "u8 list \<Rightarrow> dtl_geo wm" where
  "dtl_geo_parse val =
     (if length val \<noteq> 12 then wfail DTL_ERR_BADRECORD else
      wbind (wlift (dtl_buf_read_u32 (dtl_buf_init val))) (\<lambda>(lat, b).
      wbind (wlift (dtl_buf_read_u32 b)) (\<lambda>(lon, b).
      wbind (wlift (dtl_buf_read_u32 b)) (\<lambda>(alt, b).
      wret \<lparr>geo_lat_e7 = lat, geo_lon_e7 = lon, geo_alt_mm = alt\<rparr>))))"

definition dtl_battery_parse :: "u8 list \<Rightarrow> dtl_battery wm" where
  "dtl_battery_parse val =
     (if length val \<noteq> 7 then wfail DTL_ERR_BADRECORD else
      wbind (wlift (dtl_buf_read_u8 (dtl_buf_init val))) (\<lambda>(pct, b).
      wbind (wlift (dtl_buf_read_u16 b)) (\<lambda>(t, b).
      wbind (wlift (dtl_buf_read_u32 b)) (\<lambda>(cycles, b).
      wret \<lparr>bat_pct = pct, bat_temp_c_e1 = t, bat_cycles = cycles\<rparr>))))"

definition dtl_firmware_parse :: "u8 list \<Rightarrow> dtl_firmware wm" where
  "dtl_firmware_parse val =
     (if length val \<noteq> 14 then wfail DTL_ERR_BADRECORD else
      wbind (wlift (dtl_buf_read_u16 (dtl_buf_init val))) (\<lambda>(major, b).
      wbind (wlift (dtl_buf_read_u16 b)) (\<lambda>(minor, b).
      wbind (wlift (dtl_buf_read_u16 b)) (\<lambda>(patch, b).
      wbind (wlift (dtl_buf_read_bytes b 8)) (\<lambda>(hash, b).
      wret \<lparr>fw_major = major, fw_minor = minor, fw_patch = patch, fw_hash = hash\<rparr>)))))"

definition dtl_net_parse :: "u8 list \<Rightarrow> dtl_net wm" where
  "dtl_net_parse val =
     (if length val \<noteq> 17 then wfail DTL_ERR_BADRECORD else
      wbind (wlift (dtl_buf_read_u8 (dtl_buf_init val))) (\<lambda>(iface, b).
      wbind (wlift (dtl_buf_read_u32 b)) (\<lambda>(rxb, b).
      wbind (wlift (dtl_buf_read_u32 b)) (\<lambda>(txb, b).
      wbind (wlift (dtl_buf_read_u32 b)) (\<lambda>(rxp, b).
      wbind (wlift (dtl_buf_read_u32 b)) (\<lambda>(txp, b).
      wret \<lparr>net_iface_id = iface, net_rx_bytes = rxb, net_tx_bytes = txb, net_rx_pkts = rxp,
            net_tx_pkts = txp\<rparr>))))))"

subsection \<open>Pools\<close>

definition dtl_sensor_samples_alloc :: "u8 \<Rightarrow> addr option wm" where
  "dtl_sensor_samples_alloc count w =
     (wbind (if length (sensor_pool (w_pools w)) = 8
             then wbind (w_free_all (sensor_pool (w_pools w))) (\<lambda>_. w_pools_upd (\<lambda>q. q\<lparr>sensor_pool := []\<rparr>))
             else wret ())
      (\<lambda>_. wbind (w_malloc ((if count \<noteq> 0 then unat count else 1) * 4)) (\<lambda>p.
      case p of None \<Rightarrow> wret None
      | Some b \<Rightarrow> wbind (w_pools_upd (\<lambda>q. q\<lparr>sensor_pool := sensor_pool q @ [b]\<rparr>))
                    (\<lambda>_. wret (Some (b, 0)))))) w"

definition dtl_event_pool_take :: "u16 \<Rightarrow> addr option wm" where
  "dtl_event_pool_take n w =
     (wbind (w_malloc (if n \<noteq> 0 then unat n else 1)) (\<lambda>p.
      case p of None \<Rightarrow> wret None
      | Some b \<Rightarrow>
          wbind (if length (event_pool (w_pools w)) < 256
                 then w_pools_upd (\<lambda>q. q\<lparr>event_pool := event_pool q @ [b]\<rparr>) else wret ())
            (\<lambda>_. wret (Some (b, 0))))) w"

definition dtl_event_pool_release :: "unit wm" where
  "dtl_event_pool_release w =
     (wbind (w_free_all (event_pool (w_pools w))) (\<lambda>_. w_pools_upd (\<lambda>q. q\<lparr>event_pool := []\<rparr>))) w"

text \<open>The eviction loop of the blob pool.\<close>

fun diag_evict :: "nat \<Rightarrow> (nat \<times> nat) list \<Rightarrow> unit wm" where
  "diag_evict blob_len [] = wret ()"
| "diag_evict blob_len ((b, sz) # slots) = (\<lambda>w.
     if diag_pool_bytes (w_pools w) + blob_len > 4096
     then wbind (w_free (Some b)) (\<lambda>_.
          wbind (w_pools_upd (\<lambda>q. q\<lparr>diag_pool := slots, diag_pool_bytes := size_sub (diag_pool_bytes q) sz\<rparr>))
            (\<lambda>_. diag_evict blob_len slots)) w
     else wret () w)"

definition dtl_diag_blob_alloc :: "u16 \<Rightarrow> addr option wm" where
  "dtl_diag_blob_alloc blob_len w =
     (wbind (diag_evict (unat blob_len) (diag_pool (w_pools w))) (\<lambda>_.
      wbind (w_malloc (if blob_len \<noteq> 0 then unat blob_len else 1)) (\<lambda>p.
      case p of None \<Rightarrow> wret None
      | Some b \<Rightarrow> (\<lambda>w.
          wbind (if length (diag_pool (w_pools w)) < 64
                 then w_pools_upd (\<lambda>q. q\<lparr>diag_pool := diag_pool q @ [(b, unat blob_len)],
                                         diag_pool_bytes := diag_pool_bytes q + unat blob_len\<rparr>)
                 else wret ())
            (\<lambda>_. wret (Some (b, 0))) w)))) w"

definition dtl_config_pool_recycle :: "unit wm" where
  "dtl_config_pool_recycle w =
     (wbind (w_free_all (cfg_pool (w_pools w))) (\<lambda>_. w_pools_upd (\<lambda>q. q\<lparr>cfg_pool := []\<rparr>))) w"

definition dtl_config_str_pool :: "u8 \<Rightarrow> addr option wm" where
  "dtl_config_str_pool slen w =
     (if length (cfg_pool (w_pools w)) = 32 then wret None w
      else wbind (w_malloc (unat slen + 1)) (\<lambda>p.
           case p of None \<Rightarrow> wret None
           | Some b \<Rightarrow> wbind (w_pools_upd (\<lambda>q. q\<lparr>cfg_pool := cfg_pool q @ [b]\<rparr>)) (\<lambda>_. wret (Some (b, 0)))) w)"

definition dtl_keyref_label_alloc :: "u8 \<Rightarrow> addr option wm" where
  "dtl_keyref_label_alloc label_len w =
     (if unat label_len + 1 > 128 then w_arena_alloc (unat label_len + 1) w
      else let i = keyref_pos (w_pools w) mod 4
           in wbind (w_free (keyref_ring (w_pools w) ! i)) (\<lambda>_.
              wbind (w_malloc (unat label_len + 1)) (\<lambda>s.
              wbind (w_pools_upd (\<lambda>q. q\<lparr>keyref_ring := (keyref_ring q)[i := s],
                                        keyref_pos := (keyref_pos q + 1) mod 2 ^ 32\<rparr>))
                (\<lambda>_. wret (map_option (\<lambda>b. (b, 0)) s)))) w)"

subsection \<open>Variable-length records\<close>

text \<open>The sample loop; \<open>p\<close> is the address of the next sample.\<close>

fun sensor_samples_loop :: "nat \<Rightarrow> dtl_buf \<Rightarrow> addr \<Rightarrow> unit wm" where
  "sensor_samples_loop 0 b p = wret ()"
| "sensor_samples_loop (Suc n) b p =
     wbind (wlift (dtl_buf_read_u32 b)) (\<lambda>(bits, b).
     wbind (w_store p (dtl_endian_write_u32le bits)) (\<lambda>_.
     sensor_samples_loop n b (fst p, snd p + 4)))"

definition dtl_sensor_parse :: "u8 list \<Rightarrow> dtl_sensor wm" where
  "dtl_sensor_parse val =
     wbind (wlift (dtl_buf_read_u16 (dtl_buf_init val))) (\<lambda>(sensor_id, b).
     wbind (wlift (dtl_buf_read_u8 b)) (\<lambda>(count, b).
     if dtl_buf_remaining b \<noteq> unat count * 4 then wfail DTL_ERR_BADRECORD
     else if count \<noteq> 0 then
       wbind (dtl_sensor_samples_alloc count) (\<lambda>p.
       case p of None \<Rightarrow> wfail DTL_ERR_OOM
       | Some p \<Rightarrow> wbind (sensor_samples_loop (unat count) b p) (\<lambda>_.
           wret \<lparr>sen_sensor_id = sensor_id, sen_count = count, sen_samples = Some p\<rparr>))
     else wret \<lparr>sen_sensor_id = sensor_id, sen_count = count, sen_samples = None\<rparr>))"

definition dtl_event_parse :: "u8 list \<Rightarrow> dtl_event wm" where
  "dtl_event_parse val =
     wbind (wlift (dtl_buf_read_u16 (dtl_buf_init val))) (\<lambda>(code, b).
     wbind (wlift (dtl_buf_read_u16 b)) (\<lambda>(payload_len, b).
     if unat payload_len \<noteq> dtl_buf_remaining b then wfail DTL_ERR_BADRECORD
     else if payload_len \<noteq> 0 then
       wbind (dtl_event_pool_take payload_len) (\<lambda>p.
       case p of None \<Rightarrow> wfail DTL_ERR_OOM
       | Some p \<Rightarrow> wbind (w_read_bytes b p (unat payload_len)) (\<lambda>_.
           wret \<lparr>ev_code = code, ev_payload_len = payload_len, ev_payload = Some p\<rparr>))
     else wret \<lparr>ev_code = code, ev_payload_len = payload_len, ev_payload = None\<rparr>))"

definition dtl_diag_parse :: "u8 list \<Rightarrow> dtl_diag wm" where
  "dtl_diag_parse val =
     wbind (wlift (dtl_buf_read_u16 (dtl_buf_init val))) (\<lambda>(subsystem, b).
     wbind (wlift (dtl_buf_read_u16 b)) (\<lambda>(blob_len, b).
     if unat blob_len \<noteq> dtl_buf_remaining b then wfail DTL_ERR_BADRECORD
     else if blob_len \<noteq> 0 then
       wbind (dtl_diag_blob_alloc blob_len) (\<lambda>p.
       case p of None \<Rightarrow> wfail DTL_ERR_OOM
       | Some p \<Rightarrow> wbind (w_read_bytes b p (unat blob_len)) (\<lambda>_.
           wret \<lparr>dg_subsystem = subsystem, dg_blob_len = blob_len, dg_blob = Some p, dg_redacted = 0\<rparr>))
     else wret \<lparr>dg_subsystem = subsystem, dg_blob_len = blob_len, dg_blob = None, dg_redacted = 0\<rparr>))"

definition dtl_log_parse :: "u8 list \<Rightarrow> dtl_log wm" where
  "dtl_log_parse val =
     wbind (wlift (dtl_buf_read_u8 (dtl_buf_init val))) (\<lambda>(severity, b).
     if severity > 7 then wfail DTL_ERR_BADRECORD else
     wbind (wlift (dtl_buf_read_u16 b)) (\<lambda>(msg_len, b).
     if unat msg_len \<noteq> dtl_buf_remaining b then wfail DTL_ERR_BADRECORD else
     wbind (w_arena_alloc (unat msg_len + 1)) (\<lambda>p.
     case p of None \<Rightarrow> wfail DTL_ERR_OOM
     | Some p \<Rightarrow>
         wbind (w_read_bytes b p (unat msg_len)) (\<lambda>_.
         wbind (w_store (fst p, snd p + unat msg_len) [0]) (\<lambda>_.
         wret \<lparr>log_severity = severity, log_msg_len = msg_len, log_msg = Some p\<rparr>)))))"

definition dtl_keyref_parse :: "u8 list \<Rightarrow> dtl_keyref wm" where
  "dtl_keyref_parse val =
     wbind (wlift (dtl_buf_read_u8 (dtl_buf_init val))) (\<lambda>(slot_id, b).
     wbind (wlift (dtl_buf_read_u8 b)) (\<lambda>(label_len, b).
     wbind (dtl_keyref_label_alloc label_len) (\<lambda>p.
     case p of None \<Rightarrow> wfail DTL_ERR_OOM
     | Some p \<Rightarrow>
         wbind (w_read_bytes b p (unat label_len)) (\<lambda>b.
         wbind (w_store (fst p, snd p + unat label_len) [0]) (\<lambda>_.
         if dtl_buf_remaining b \<noteq> 0 then wfail DTL_ERR_BADRECORD
         else wret \<lparr>kr_slot_id = slot_id, kr_label_len = label_len, kr_label = Some p, kr_redacted = 0\<rparr>)))))"

definition dtl_config_read_str :: "dtl_buf \<Rightarrow> (addr \<times> dtl_buf) wm" where
  "dtl_config_read_str b =
     wbind (wlift (dtl_buf_read_u8 b)) (\<lambda>(slen, b).
     wbind (dtl_config_str_pool slen) (\<lambda>s.
     wbind (case s of Some p \<Rightarrow> wret (Some p) | None \<Rightarrow> w_arena_alloc (unat slen + 1)) (\<lambda>s.
     case s of None \<Rightarrow> wfail DTL_ERR_OOM
     | Some p \<Rightarrow>
         wbind (w_read_bytes b p (unat slen)) (\<lambda>b.
         wbind (w_store (fst p, snd p + unat slen) [0]) (\<lambda>_.
         wret (p, b))))))"

fun config_pairs_loop :: "nat \<Rightarrow> dtl_buf \<Rightarrow> ((addr \<times> addr) list \<times> dtl_buf) wm" where
  "config_pairs_loop 0 b = wret ([], b)"
| "config_pairs_loop (Suc n) b =
     wbind (dtl_config_read_str b) (\<lambda>(k, b).
     wbind (dtl_config_read_str b) (\<lambda>(v, b).
     wbind (config_pairs_loop n b) (\<lambda>(kvs, b). wret ((k, v) # kvs, b))))"

text \<open>\<open>sizeof(dtl_config_pair)\<close>: two pointers.\<close>

definition sizeof_config_pair :: nat where "sizeof_config_pair = 16"

definition dtl_config_parse :: "u8 list \<Rightarrow> dtl_config wm" where
  "dtl_config_parse val =
     wbind dtl_config_pool_recycle (\<lambda>_.
     wbind (wlift (dtl_buf_read_u8 (dtl_buf_init val))) (\<lambda>(pair_count, b).
     wbind (if pair_count \<noteq> 0
            then wbind (w_arena_alloc (unat pair_count * sizeof_config_pair)) (\<lambda>p.
                 case p of None \<Rightarrow> wfail DTL_ERR_OOM | Some _ \<Rightarrow> wret ())
            else wret ()) (\<lambda>_.
     wbind (config_pairs_loop (unat pair_count) b) (\<lambda>(pairs, b).
     if dtl_buf_remaining b \<noteq> 0 then wfail DTL_ERR_BADRECORD
     else wret \<lparr>cfg_pair_count = pair_count, cfg_pairs = pairs\<rparr>))))"

subsection \<open>Dispatch\<close>

definition wmap :: "('a \<Rightarrow> 'b) \<Rightarrow> 'a wm \<Rightarrow> 'b wm" where
  "wmap g f = wbind f (\<lambda>x. wret (g x))"

definition dtl_record_parse :: "dtl_tlv \<Rightarrow> dtl_record wm" where
  "dtl_record_parse tlv =
     (let tag = tlv_tag tlv; val = tlv_val tlv
      in if tag = DTL_REC_HEARTBEAT then wmap RHeartbeat (dtl_heartbeat_parse val)
         else if tag = DTL_REC_GEO then wmap RGeo (dtl_geo_parse val)
         else if tag = DTL_REC_BATTERY then wmap RBattery (dtl_battery_parse val)
         else if tag = DTL_REC_NET then
           wbind (dtl_net_parse val) (\<lambda>n.
             if net_iface_id n \<ge> 250 then wfail DTL_ERR_BADRECORD else wret (RNet n))
         else if tag = DTL_REC_FIRMWARE then wmap RFirmware (dtl_firmware_parse val)
         else if tag = DTL_REC_SENSOR then wmap RSensor (dtl_sensor_parse val)
         else if tag = DTL_REC_EVENT then wmap REvent (dtl_event_parse val)
         else if tag = DTL_REC_LOG then wmap RLog (dtl_log_parse val)
         else if tag = DTL_REC_CONFIG then wmap RConfig (dtl_config_parse val)
         else if tag = DTL_REC_KEYREF then wmap RKeyref (dtl_keyref_parse val)
         else if tag = DTL_REC_DIAG then wmap RDiag (dtl_diag_parse val)
         else wfail DTL_ERR_BADRECORD)"

end
