(* ===== verification/Records_Pools.thy ===== *)
theory Records_Pools
  imports Records_Parse
begin

text \<open>
  What the pool allocators of \<^verbatim>\<open>src/records/\<close> promise a parser, stated once as the locale
  \<open>payload_alloc\<close> and discharged for every pool: a non-null result is a live buffer of the requested
  size, the pools stay well formed and nothing is freed twice.  The client lemmas copy bytes from the
  input into such a buffer.
\<close>

subsection \<open>Freeing a pool\<close>

lemma w_free_all_Ok:
  "c_free_all bs (w_mem w) = Ok m \<Longrightarrow> w_free_all bs w = (Ok (), w\<lparr>w_mem := m\<rparr>)"
  by (induction bs arbitrary: w) (auto simp: wret_def wbind_def w_free_def rbind_eq_Ok_iff)

text \<open>Freeing some of the pooled blocks and dropping them from the pools.\<close>

lemma free_pooled:
  assumes "world_ok w" "distinct bs" "set bs \<subseteq> set (pool_blocks (w_pools w))" "pools_ok q"
    "set (pool_blocks q) \<subseteq> set (pool_blocks (w_pools w)) - set bs"
  shows "\<exists>m. w_free_all bs w = (Ok (), w\<lparr>w_mem := m\<rparr>) \<and> world_ok (w\<lparr>w_mem := m, w_pools := q\<rparr>) \<and>
    (\<forall>b. m_objs m b = (if b \<in> set bs then None else m_objs (w_mem w) b)) \<and> m_oom m = m_oom (w_mem w)"
proof -
  have "\<forall>b \<in> set bs. m_objs (w_mem w) b \<noteq> None" using assms(1,3) by (auto simp: world_ok_def)
  from c_free_all_Ok [OF assms(2) this] obtain m where
    m: "c_free_all bs (w_mem w) = Ok m" "\<forall>b. m_objs m b = (if b \<in> set bs then None else m_objs (w_mem w) b)"
    "m_next m = m_next (w_mem w)" "m_oom m = m_oom (w_mem w)" by blast
  have "set bs \<inter> arena_blocks (w_arena w) = {}" using assms(1,3) by (auto simp: world_ok_def)
  then have "arena_ok m (w_arena w)"
    using assms(1) m(2) by (fastforce simp: world_ok_def arena_ok_def block_ok_def arena_blocks_def)
  moreover have "mem_ok m" using assms(1) m(2,3) by (auto simp: world_ok_def mem_ok_def)
  ultimately have "world_ok (w\<lparr>w_mem := m, w_pools := q\<rparr>)"
    using assms m(2) by (auto simp: world_ok_def)
  with w_free_all_Ok [OF m(1)] m(2,4) show ?thesis by blast
qed

text \<open>Adding a fresh block to a pool.\<close>

lemma add_pooled:
  assumes "world_ok w" "c_malloc (w_mem w) n = (Some b, m)" "pools_ok q"
    "set (pool_blocks q) \<subseteq> insert b (set (pool_blocks (w_pools w)))"
  shows "world_ok (w\<lparr>w_mem := m, w_pools := q\<rparr>)" and "region_ok m (b, 0) n"
proof -
  note f = fresh_not_used [OF assms(1,2)] and ok = world_ok_malloc [OF assms(1,2)]
  have "m_objs m b \<noteq> None" using c_malloc_obj [OF assms(2)] by simp
  with f ok assms(3,4) show "world_ok (w\<lparr>w_mem := m, w_pools := q\<rparr>)" by (auto simp: world_ok_def)
  show "region_ok m (b, 0) n" using c_malloc_obj [OF assms(2)] by (simp add: region_ok_def)
qed

subsection \<open>The contract of an allocator\<close>

locale payload_alloc =
  fixes alloc :: "'n \<Rightarrow> addr option wm"
    and sz :: "'n \<Rightarrow> nat"
  assumes alloc_valid: "wvalid (\<lambda>_. True) (alloc n)
      (\<lambda>p w. \<forall>q. p = Some q \<longrightarrow> region_ok (w_mem w) q (sz n)) (\<lambda>_. False)"
begin

lemma alloc_world_ok: "world_ok w \<Longrightarrow> world_ok (snd (alloc n w))"
  using wpost_facts(2) [OF wvalidD [OF alloc_valid]] by blast

text \<open>Allocate, then run a body on the buffer.\<close>

lemma alloc_then:
  assumes "E DTL_ERR_OOM" and "\<And>p. wvalid (\<lambda>w. region_ok (w_mem w) p (sz n)) (body p) Q E"
  shows "wvalid P (wbind (alloc n) (\<lambda>p. case p of None \<Rightarrow> wfail DTL_ERR_OOM | Some p \<Rightarrow> body p)) Q E"
proof (rule wvalid_bind)
  show "wvalid P (alloc n) (\<lambda>p w. \<forall>q. p = Some q \<longrightarrow> region_ok (w_mem w) q (sz n)) E"
    by (rule wvalid_weaken [OF alloc_valid]) auto
  show "wvalid (\<lambda>w. \<forall>q. x = Some q \<longrightarrow> region_ok (w_mem w) q (sz n))
      (case x of None \<Rightarrow> wfail DTL_ERR_OOM | Some p \<Rightarrow> body p) Q E" for x
    using assms by (cases x) (auto intro: wvalid_fail wvalid_pre)
qed

end

subsection \<open>The allocators of the parsers\<close>

lemma region_ok_mono: "region_ok m p n \<Longrightarrow> k \<le> n \<Longrightarrow> region_ok m p k"
  by (auto simp: region_ok_def split: option.splits)

lemma some_region_mono:
  "\<forall>q. x = Some q \<longrightarrow> region_ok m q n \<Longrightarrow> k \<le> n \<Longrightarrow> \<forall>q. x = Some q \<longrightarrow> region_ok m q k"
  using region_ok_mono by blast

text \<open>A fresh block that is entered into a pool by \<open>g\<close>.\<close>

definition malloc_into :: "nat \<Rightarrow> (nat \<Rightarrow> pools \<Rightarrow> pools) \<Rightarrow> addr option wm" where
  "malloc_into n g = wbind (w_malloc n) (\<lambda>p. case p of None \<Rightarrow> wret None
     | Some b \<Rightarrow> wbind (w_pools_upd (g b)) (\<lambda>_. wret (Some (b, 0))))"

lemma malloc_into_post:
  assumes "world_ok w" and "\<And>b. b \<notin> set (pool_blocks (w_pools w)) \<Longrightarrow>
    pools_ok (g b (w_pools w)) \<and> set (pool_blocks (g b (w_pools w))) \<subseteq> insert b (set (pool_blocks (w_pools w)))"
  shows "wpost (\<lambda>p w. \<forall>q. p = Some q \<longrightarrow> region_ok (w_mem w) q n) E (malloc_into n g w)"
proof -
  obtain r m where ml: "c_malloc (w_mem w) n = (r, m)" using prod.exhaust by blast
  show ?thesis
  proof (cases r)
    case None
    with ml world_ok_malloc [OF assms(1) ml] show ?thesis
      by (simp add: malloc_into_def wbind_def w_malloc_def wret_def)
  next
    case (Some b)
    note c = ml [unfolded Some]
    note q = assms(2) [OF fresh_not_used(1) [OF assms(1) c]]
    from add_pooled [OF assms(1) c conjunct1 [OF q] conjunct2 [OF q]] c show ?thesis
      by (simp add: malloc_into_def wbind_def w_malloc_def wret_def w_pools_upd_def)
  qed
qed

lemma wvalid_malloc_into:
  assumes "\<And>w b. world_ok w \<Longrightarrow> P w \<Longrightarrow> b \<notin> set (pool_blocks (w_pools w)) \<Longrightarrow>
    pools_ok (g b (w_pools w)) \<and> set (pool_blocks (g b (w_pools w))) \<subseteq> insert b (set (pool_blocks (w_pools w)))"
  shows "wvalid P (malloc_into n g) (\<lambda>p w. \<forall>q. p = Some q \<longrightarrow> region_ok (w_mem w) q n) E"
  using assms by (intro wvalidI malloc_into_post) auto

interpretation arena_alloc: payload_alloc w_arena_alloc "\<lambda>n. n"
  by unfold_locales (rule wvalid_weaken [OF wvalid_arena_alloc], auto)

lemma world_pools: "world_ok w \<Longrightarrow> pools_ok (w_pools w)"
  by (simp add: world_ok_def)

text \<open>Emptying one of the pools.\<close>

lemma release_post:
  assumes "world_ok w" "distinct bs" "set bs \<subseteq> set (pool_blocks (w_pools w))" "pools_ok (f (w_pools w))"
    "set (pool_blocks (f (w_pools w))) \<subseteq> set (pool_blocks (w_pools w)) - set bs"
  shows "wpost (\<lambda>_ w'. w_pools w' = f (w_pools w) \<and> w_arena w' = w_arena w \<and> m_oom (w_mem w') = m_oom (w_mem w) \<and>
      (\<forall>b. m_objs (w_mem w') b = (if b \<in> set bs then None else m_objs (w_mem w) b))) E
    (wbind (w_free_all bs) (\<lambda>_. w_pools_upd f) w)"
  using free_pooled [OF assms] by (auto simp: wbind_def w_pools_upd_def)

interpretation sensor_alloc: payload_alloc dtl_sensor_samples_alloc "\<lambda>n. unat n * 4"
proof (unfold_locales, rule wvalidI)
  fix n :: u8 and w assume w: "world_ok w"
  let ?sz = "(if n \<noteq> 0 then unat n else 1) * 4"
  let ?g = "\<lambda>b q. q\<lparr>sensor_pool := sensor_pool q @ [b]\<rparr>"
  have body: "wpost (\<lambda>p w. \<forall>q. p = Some q \<longrightarrow> region_ok (w_mem w) q (unat n * 4)) E (malloc_into ?sz ?g v)"
    if "world_ok v" "length (sensor_pool (w_pools v)) < 8" for v E
  proof (rule wpost_mono [OF malloc_into_post [OF that(1)]])
    show "pools_ok (?g b (w_pools v)) \<and> set (pool_blocks (?g b (w_pools v))) \<subseteq> insert b (set (pool_blocks (w_pools v)))"
      if "b \<notin> set (pool_blocks (w_pools v))" for b
      using that world_pools [OF \<open>world_ok v\<close>] \<open>length (sensor_pool (w_pools v)) < 8\<close>
      by (auto simp: pools_ok_def pool_blocks_def)
    show "\<forall>q. x = Some q \<longrightarrow> region_ok (w_mem v) q (unat n * 4)"
      if "\<forall>q. x = Some q \<longrightarrow> region_ok (w_mem v) q ?sz" for x v
      by (rule some_region_mono [OF that]) simp
  qed auto
  have len: "length (sensor_pool (w_pools w)) \<le> 8" using world_pools [OF w] by (simp add: pools_ok_def)
  show "wpost (\<lambda>p w. \<forall>q. p = Some q \<longrightarrow> region_ok (w_mem w) q (unat n * 4)) (\<lambda>_. False) (dtl_sensor_samples_alloc n w)"
  proof (cases "length (sensor_pool (w_pools w)) = 8")
    case True
    have "wpost (\<lambda>_ w'. w_pools w' = (w_pools w)\<lparr>sensor_pool := []\<rparr>) (\<lambda>_. False)
        (wbind (w_free_all (sensor_pool (w_pools w))) (\<lambda>_. w_pools_upd (\<lambda>q. q\<lparr>sensor_pool := []\<rparr>)) w)"
      using world_pools [OF w]
      by (intro wpost_mono [OF release_post [OF w]]) (auto simp: pools_ok_def pool_blocks_def)
    then have "wpost (\<lambda>p w. \<forall>q. p = Some q \<longrightarrow> region_ok (w_mem w) q (unat n * 4)) (\<lambda>_. False)
        (wbind (wbind (w_free_all (sensor_pool (w_pools w))) (\<lambda>_. w_pools_upd (\<lambda>q. q\<lparr>sensor_pool := []\<rparr>)))
          (\<lambda>_. malloc_into ?sz ?g) w)"
      by (rule wpost_bind) (rule body, auto)
    with True show ?thesis by (simp add: dtl_sensor_samples_alloc_def malloc_into_def)
  next
    case False
    with body [OF w] len show ?thesis by (simp add: dtl_sensor_samples_alloc_def malloc_into_def)
  qed
qed

interpretation event_alloc: payload_alloc dtl_event_pool_take unat
proof (unfold_locales, rule wvalidI)
  fix n :: u16 and w assume w: "world_ok w"
  let ?sz = "if n \<noteq> 0 then unat n else 1"
  let ?g = "\<lambda>b q. if length (event_pool q) < 256 then q\<lparr>event_pool := event_pool q @ [b]\<rparr> else q"
  have eq: "dtl_event_pool_take n w = malloc_into ?sz ?g w"
    by (cases "c_malloc (w_mem w) ?sz")
      (auto simp: dtl_event_pool_take_def malloc_into_def wbind_def w_malloc_def wret_def w_pools_upd_def
        split: option.splits)
  show "wpost (\<lambda>p w. \<forall>q. p = Some q \<longrightarrow> region_ok (w_mem w) q (unat n)) (\<lambda>_. False) (dtl_event_pool_take n w)"
    unfolding eq
  proof (rule wpost_mono [OF malloc_into_post [OF w]])
    show "pools_ok (?g b (w_pools w)) \<and> set (pool_blocks (?g b (w_pools w))) \<subseteq> insert b (set (pool_blocks (w_pools w)))"
      if "b \<notin> set (pool_blocks (w_pools w))" for b
      using that world_pools [OF w] by (auto simp: pools_ok_def pool_blocks_def)
    show "\<forall>q. x = Some q \<longrightarrow> region_ok (w_mem v) q (unat n)"
      if "\<forall>q. x = Some q \<longrightarrow> region_ok (w_mem v) q ?sz" for x v
      by (rule some_region_mono [OF that]) simp
  qed auto
qed

lemma diag_evict_post:
  "world_ok w \<Longrightarrow> wpost (\<lambda>_ _. True) E (diag_evict n (diag_pool (w_pools w)) w)"
proof (induction "diag_pool (w_pools w)" arbitrary: w)
  case Nil
  then show ?case by (simp add: wret_def flip: Nil(1))
next
  case (Cons s slots)
  obtain b sz where s: "s = (b, sz)" by (cases s)
  let ?f = "\<lambda>q. q\<lparr>diag_pool := slots, diag_pool_bytes := size_sub (diag_pool_bytes q) sz\<rparr>"
  note pool = Cons(2) [symmetric, unfolded s]
  have ok: "pools_ok (?f (w_pools w))" "set (pool_blocks (?f (w_pools w))) \<subseteq> set (pool_blocks (w_pools w)) - {b}"
    "b \<in> set (pool_blocks (w_pools w))"
    using world_pools [OF Cons(3)] pool by (auto simp: pools_ok_def pool_blocks_def)
  have "wpost (\<lambda>_ w'. w_pools w' = ?f (w_pools w)) E (wbind (w_free_all [b]) (\<lambda>_. w_pools_upd ?f) w)"
    using ok by (intro wpost_mono [OF release_post [OF Cons(3)]]) auto
  moreover have "wbind (w_free_all [b]) (\<lambda>_. w_pools_upd ?f) w = wbind (w_free (Some b)) (\<lambda>_. w_pools_upd ?f) w"
    by (auto simp: wbind_def wret_def split: result.splits prod.splits)
  ultimately have a: "wpost (\<lambda>_ w'. w_pools w' = ?f (w_pools w)) E (wbind (w_free (Some b)) (\<lambda>_. w_pools_upd ?f) w)"
    by simp
  have IH: "wpost (\<lambda>_ _. True) E (diag_evict n slots v)" if "world_ok v" "w_pools v = ?f (w_pools w)" for v
    using Cons(1) [of v] that by simp
  have "wpost (\<lambda>_ _. True) E (wbind (wbind (w_free (Some b)) (\<lambda>_. w_pools_upd ?f)) (\<lambda>_. diag_evict n slots) w)"
    using a by (rule wpost_bind) (rule IH)
  moreover have "wbind (wbind (w_free (Some b)) (\<lambda>_. w_pools_upd ?f)) (\<lambda>_. diag_evict n slots) w
      = wbind (w_free (Some b)) (\<lambda>_. wbind (w_pools_upd ?f) (\<lambda>_. diag_evict n slots)) w"
    by (auto simp: wbind_def split: result.splits prod.splits)
  ultimately show ?case
    using Cons(3) unfolding pool by (simp add: wret_def)
qed

interpretation diag_alloc: payload_alloc dtl_diag_blob_alloc unat
proof (unfold_locales, rule wvalidI)
  fix n :: u16 and w assume w: "world_ok w"
  let ?sz = "if n \<noteq> 0 then unat n else 1"
  let ?g = "\<lambda>b q. if length (diag_pool q) < 64 then q\<lparr>diag_pool := diag_pool q @ [(b, unat n)],
      diag_pool_bytes := diag_pool_bytes q + unat n\<rparr> else q"
  have eq: "dtl_diag_blob_alloc n w = wbind (diag_evict (unat n) (diag_pool (w_pools w))) (\<lambda>_. malloc_into ?sz ?g) w"
    by (auto simp: dtl_diag_blob_alloc_def malloc_into_def wbind_def w_malloc_def wret_def w_pools_upd_def
        split: option.splits result.splits prod.splits)
  have body: "wpost (\<lambda>p w. \<forall>q. p = Some q \<longrightarrow> region_ok (w_mem w) q (unat n)) E (malloc_into ?sz ?g v)"
    if "world_ok v" for v E
  proof (rule wpost_mono [OF malloc_into_post [OF that]])
    show "pools_ok (?g b (w_pools v)) \<and> set (pool_blocks (?g b (w_pools v))) \<subseteq> insert b (set (pool_blocks (w_pools v)))"
      if "b \<notin> set (pool_blocks (w_pools v))" for b
      using that world_pools [OF \<open>world_ok v\<close>] by (auto simp: pools_ok_def pool_blocks_def)
    show "\<forall>q. x = Some q \<longrightarrow> region_ok (w_mem v) q (unat n)"
      if "\<forall>q. x = Some q \<longrightarrow> region_ok (w_mem v) q ?sz" for x v
      by (rule some_region_mono [OF that]) simp
  qed auto
  show "wpost (\<lambda>p w. \<forall>q. p = Some q \<longrightarrow> region_ok (w_mem w) q (unat n)) (\<lambda>_. False) (dtl_diag_blob_alloc n w)"
    unfolding eq
  proof (rule wpost_bind)
    show "wpost (\<lambda>_ _. True) (\<lambda>_. False) (diag_evict (unat n) (diag_pool (w_pools w)) w)" by (rule diag_evict_post [OF w])
  qed (rule body)
qed

interpretation cfg_alloc: payload_alloc dtl_config_str_pool "\<lambda>n. unat n + 1"
proof (unfold_locales, rule wvalidI)
  fix n :: u8 and w assume w: "world_ok w"
  let ?g = "\<lambda>b q. q\<lparr>cfg_pool := cfg_pool q @ [b]\<rparr>"
  have len: "length (cfg_pool (w_pools w)) \<le> 32" using world_pools [OF w] by (simp add: pools_ok_def)
  show "wpost (\<lambda>p w. \<forall>q. p = Some q \<longrightarrow> region_ok (w_mem w) q (unat n + 1)) (\<lambda>_. False) (dtl_config_str_pool n w)"
  proof (cases "length (cfg_pool (w_pools w)) = 32")
    case True
    with w show ?thesis by (simp add: dtl_config_str_pool_def wret_def)
  next
    case False
    have "wpost (\<lambda>p w. \<forall>q. p = Some q \<longrightarrow> region_ok (w_mem w) q (unat n + 1)) (\<lambda>_. False) (malloc_into (unat n + 1) ?g w)"
      using world_pools [OF w] len False by (intro malloc_into_post [OF w]) (auto simp: pools_ok_def pool_blocks_def)
    with False show ?thesis by (simp add: dtl_config_str_pool_def malloc_into_def)
  qed
qed

subsection \<open>The label ring\<close>

lemma ring_blocks_update:
  assumes "i < length ring" "distinct (ring_blocks ring)"
  shows "set (ring_blocks (ring[i := x])) = (set (ring_blocks ring) - set_option (ring ! i)) \<union> set_option x"
    and "(\<And>b. x = Some b \<Longrightarrow> b \<notin> set (ring_blocks ring)) \<Longrightarrow> distinct (ring_blocks (ring[i := x]))"
    and "set_option (ring ! i) \<subseteq> set (ring_blocks ring)"
proof -
  define f where "f = (\<lambda>x :: nat option. case x of None \<Rightarrow> [] | Some b \<Rightarrow> [b])"
  have f: "set (f y) = set_option y" "distinct (f y)" for y by (auto simp: f_def split: option.splits)
  have ring: "ring = take i ring @ ring ! i # drop (Suc i) ring" using assms(1) by (rule id_take_nth_drop)
  have 1: "ring_blocks ring = concat (map f (take i ring)) @ f (ring ! i) @ concat (map f (drop (Suc i) ring))"
    by (subst ring) (simp add: ring_blocks_def f_def)
  have 2: "ring_blocks (ring[i := x]) = concat (map f (take i ring)) @ f x @ concat (map f (drop (Suc i) ring))"
    using assms(1) by (simp add: upd_conv_take_nth_drop ring_blocks_def f_def)
  let ?A = "concat (map f (take i ring))" and ?B = "concat (map f (drop (Suc i) ring))"
  have d: "distinct (?A @ f (ring ! i) @ ?B)" using assms(2) unfolding 1 .
  show "set (ring_blocks (ring[i := x])) = (set (ring_blocks ring) - set_option (ring ! i)) \<union> set_option x"
    using d unfolding 1 2 by (auto simp: f simp del: set_concat)
  show "set_option (ring ! i) \<subseteq> set (ring_blocks ring)"
    unfolding 1 by (auto simp: f)
  show "distinct (ring_blocks (ring[i := x]))" if "\<And>b. x = Some b \<Longrightarrow> b \<notin> set (ring_blocks ring)"
    using d that unfolding 1 2 by (cases x) (auto simp: f f_def simp del: set_concat)
qed

lemma keyref_free_post:
  assumes "world_ok w" "i < 4"
  shows "wpost (\<lambda>_ v. w_pools v = (w_pools w)\<lparr>keyref_ring := (keyref_ring (w_pools w))[i := None]\<rparr>) E
    (wbind (w_free (keyref_ring (w_pools w) ! i)) (\<lambda>_. w_pools_upd (\<lambda>q. q\<lparr>keyref_ring := (keyref_ring q)[i := None]\<rparr>)) w)"
proof -
  let ?q = "w_pools w" and ?f = "\<lambda>q. q\<lparr>keyref_ring := (keyref_ring q)[i := None]\<rparr>"
  have r: "i < length (keyref_ring ?q)" "distinct (ring_blocks (keyref_ring ?q))"
    using assms world_pools [OF assms(1)] by (auto simp: pools_ok_def pool_blocks_def)
  note u = ring_blocks_update(1,2) [OF r, of None] ring_blocks_update(3) [OF r]
  have ok: "pools_ok (?f ?q)" "set (pool_blocks (?f ?q)) \<subseteq> set (pool_blocks ?q) - set_option (keyref_ring ?q ! i)"
    using world_pools [OF assms(1)] u by (auto simp: pools_ok_def pool_blocks_def)
  show ?thesis
  proof (cases "keyref_ring ?q ! i")
    case None
    then have "?f ?q = ?q" by (metis (no_types, lifting) list_update_id pools.surjective pools.update_convs(6))
    with None assms(1) show ?thesis
      by (simp add: wbind_def w_free_def c_free_def w_pools_upd_def)
  next
    case (Some b)
    have "wpost (\<lambda>_ v. w_pools v = ?f ?q) E (wbind (w_free_all [b]) (\<lambda>_. w_pools_upd ?f) w)"
      using ok u Some by (intro wpost_mono [OF release_post [OF assms(1)]]) (auto simp: pool_blocks_def)
    moreover have "wbind (w_free_all [b]) (\<lambda>_. w_pools_upd ?f) w = wbind (w_free (Some b)) (\<lambda>_. w_pools_upd ?f) w"
      by (auto simp: wbind_def wret_def split: result.splits prod.splits)
    ultimately show ?thesis using Some by simp
  qed
qed

interpretation keyref_alloc: payload_alloc dtl_keyref_label_alloc "\<lambda>n. unat n + 1"
proof (unfold_locales, rule wvalidI)
  fix n :: u8 and w assume w: "world_ok w"
  let ?Q = "\<lambda>p w. \<forall>q. p = Some q \<longrightarrow> region_ok (w_mem w) q (unat n + 1)"
  show "wpost ?Q (\<lambda>_. False) (dtl_keyref_label_alloc n w)"
  proof (cases "unat n + 1 > 128")
    case True
    with wvalidD [OF arena_alloc.alloc_valid [of "unat n + 1"] w] show ?thesis
      by (simp add: dtl_keyref_label_alloc_def)
  next
    case False
    define i where "i = keyref_pos (w_pools w) mod 4"
    have i: "i < 4" by (simp add: i_def)
    let ?clear = "wbind (w_free (keyref_ring (w_pools w) ! i)) (\<lambda>_. w_pools_upd (\<lambda>q. q\<lparr>keyref_ring := (keyref_ring q)[i := None]\<rparr>))"
    let ?g = "\<lambda>s q. q\<lparr>keyref_ring := (keyref_ring q)[i := s], keyref_pos := (keyref_pos q + 1) mod 2 ^ 32\<rparr>"
    let ?rest = "wbind (w_malloc (unat n + 1)) (\<lambda>s. wbind (w_pools_upd (?g s)) (\<lambda>_. wret (map_option (\<lambda>b. (b, 0)) s)))"
    have eq: "dtl_keyref_label_alloc n w = wbind ?clear (\<lambda>_. ?rest) w"
      using False unfolding dtl_keyref_label_alloc_def Let_def i_def [symmetric]
      by (auto simp: wbind_def w_free_def w_malloc_def w_pools_upd_def wret_def
          split: option.splits result.splits prod.splits)
    have body: "wpost ?Q (\<lambda>_. False) (?rest v)"
      if v: "world_ok v" "w_pools v = (w_pools w)\<lparr>keyref_ring := (keyref_ring (w_pools w))[i := None]\<rparr>" for v
    proof -
      obtain s m where ml: "c_malloc (w_mem v) (unat n + 1) = (s, m)" using prod.exhaust by blast
      let ?r = "keyref_ring (w_pools v)"
      have r: "i < length ?r" "distinct (ring_blocks ?r)" "?r ! i = None"
        using i world_pools [OF v(1)] v(2) world_pools [OF w] by (auto simp: pools_ok_def pool_blocks_def)
      note u = ring_blocks_update [OF r(1,2)]
      show ?thesis
      proof (cases s)
        case None
        have "?r[i := None] = ?r" using r(3) by (metis list_update_id)
        moreover have "world_ok (v\<lparr>w_mem := m\<rparr>)" using world_ok_malloc [OF v(1) ml] .
        ultimately have "world_ok (v\<lparr>w_mem := m, w_pools := ?g None (w_pools v)\<rparr>)"
          by (simp add: world_ok_def pools_ok_def pool_blocks_def)
        with None ml show ?thesis by (simp add: wbind_def w_malloc_def w_pools_upd_def wret_def)
      next
        case (Some b)
        note c = ml [unfolded Some]
        have nb: "b \<notin> set (pool_blocks (w_pools v))" using fresh_not_used(1) [OF v(1) c] .
        then have "pools_ok (?g (Some b) (w_pools v))"
          "set (pool_blocks (?g (Some b) (w_pools v))) \<subseteq> insert b (set (pool_blocks (w_pools v)))"
          using world_pools [OF v(1)] u(1) [of "Some b"] u(2) [of "Some b"] r(3)
          by (auto simp: pools_ok_def pool_blocks_def)
        from add_pooled [OF v(1) c this] Some ml show ?thesis
          by (simp add: wbind_def w_malloc_def w_pools_upd_def wret_def)
      qed
    qed
    show ?thesis unfolding eq using keyref_free_post [OF w i] by (rule wpost_bind) (rule body)
  qed
qed

end
