(* ===== verification/Records_Spec.thy ===== *)
theory Records_Spec
  imports Records_Pools
begin

text \<open>
  What a parsed record means.  \<open>rec_val\<close> is the value of a record with every pointer followed;
  \<open>record_view\<close> follows the pointers of a parsed record in the heap, and \<open>payload_of\<close> is the wire
  form of a value.  The parsers are shown sound (a parsed record views to a value whose wire form is
  the payload) and complete (the wire form of every well-formed value is accepted unless memory runs
  out), for every state of the pools.

  The strings of a CONFIG record have no stored length; a reader sees them up to the first NUL, which
  is what \<open>c_strings\<close> does to a value.
\<close>

datatype rec_val =
    VHeartbeat dtl_heartbeat
  | VSensor u16 "u8 list"
  | VEvent u16 "u8 list"
  | VDiag u16 "u8 list"
  | VGeo dtl_geo
  | VBattery dtl_battery
  | VNet dtl_net
  | VLog u8 "u8 list"
  | VConfig "(u8 list \<times> u8 list) list"
  | VKeyref u8 "u8 list"
  | VFirmware dtl_firmware

fun val_tag :: "rec_val \<Rightarrow> u8" where
  "val_tag (VHeartbeat _) = DTL_REC_HEARTBEAT"
| "val_tag (VSensor _ _) = DTL_REC_SENSOR"
| "val_tag (VEvent _ _) = DTL_REC_EVENT"
| "val_tag (VDiag _ _) = DTL_REC_DIAG"
| "val_tag (VGeo _) = DTL_REC_GEO"
| "val_tag (VBattery _) = DTL_REC_BATTERY"
| "val_tag (VNet _) = DTL_REC_NET"
| "val_tag (VLog _ _) = DTL_REC_LOG"
| "val_tag (VConfig _) = DTL_REC_CONFIG"
| "val_tag (VKeyref _ _) = DTL_REC_KEYREF"
| "val_tag (VFirmware _) = DTL_REC_FIRMWARE"

definition pair_bytes :: "u8 list \<times> u8 list \<Rightarrow> u8 list" where
  "pair_bytes kv = of_nat (length (fst kv)) # fst kv @ of_nat (length (snd kv)) # snd kv"

fun payload_of :: "rec_val \<Rightarrow> u8 list" where
  "payload_of (VHeartbeat h) = dtl_endian_write_u32le (hb_uptime_s h) @ dtl_endian_write_u32le (hb_seq h)"
| "payload_of (VSensor i bs) = dtl_endian_write_u16le i @ [of_nat (length bs div 4)] @ bs"
| "payload_of (VEvent c bs) = dtl_endian_write_u16le c @ dtl_endian_write_u16le (of_nat (length bs)) @ bs"
| "payload_of (VDiag c bs) = dtl_endian_write_u16le c @ dtl_endian_write_u16le (of_nat (length bs)) @ bs"
| "payload_of (VGeo g) = dtl_endian_write_u32le (geo_lat_e7 g) @ dtl_endian_write_u32le (geo_lon_e7 g) @
     dtl_endian_write_u32le (geo_alt_mm g)"
| "payload_of (VBattery b) = [bat_pct b] @ dtl_endian_write_u16le (bat_temp_c_e1 b) @
     dtl_endian_write_u32le (bat_cycles b)"
| "payload_of (VNet n) = [net_iface_id n] @ dtl_endian_write_u32le (net_rx_bytes n) @
     dtl_endian_write_u32le (net_tx_bytes n) @ dtl_endian_write_u32le (net_rx_pkts n) @
     dtl_endian_write_u32le (net_tx_pkts n)"
| "payload_of (VLog s bs) = [s] @ dtl_endian_write_u16le (of_nat (length bs)) @ bs"
| "payload_of (VConfig kvs) = of_nat (length kvs) # concat (map pair_bytes kvs)"
| "payload_of (VKeyref s bs) = [s] @ [of_nat (length bs)] @ bs"
| "payload_of (VFirmware f) = dtl_endian_write_u16le (fw_major f) @ dtl_endian_write_u16le (fw_minor f) @
     dtl_endian_write_u16le (fw_patch f) @ fw_hash f"

fun val_wf :: "rec_val \<Rightarrow> bool" where
  "val_wf (VSensor i bs) \<longleftrightarrow> length bs mod 4 = 0 \<and> length bs div 4 \<le> 255"
| "val_wf (VEvent c bs) \<longleftrightarrow> length bs \<le> 65535"
| "val_wf (VDiag c bs) \<longleftrightarrow> length bs \<le> 65535"
| "val_wf (VNet n) \<longleftrightarrow> net_iface_id n < 250"
| "val_wf (VLog s bs) \<longleftrightarrow> s \<le> 7 \<and> length bs \<le> 65535"
| "val_wf (VConfig kvs) \<longleftrightarrow> length kvs \<le> 255 \<and> (\<forall>(k, v) \<in> set kvs. length k \<le> 255 \<and> length v \<le> 255)"
| "val_wf (VKeyref s bs) \<longleftrightarrow> length bs \<le> 255"
| "val_wf (VFirmware f) \<longleftrightarrow> length (fw_hash f) = 8"
| "val_wf _ = True"

definition c_string :: "u8 list \<Rightarrow> u8 list" where
  "c_string s = takeWhile (\<lambda>b. b \<noteq> 0) s"

fun c_strings :: "rec_val \<Rightarrow> rec_val" where
  "c_strings (VConfig kvs) = VConfig (map (map_prod c_string c_string) kvs)"
| "c_strings v = v"

text \<open>Following a pointer to \<open>n\<close> bytes; nothing is read when \<open>n\<close> is 0.\<close>

definition deref_bytes :: "mem \<Rightarrow> addr option \<Rightarrow> nat \<Rightarrow> u8 list res" where
  "deref_bytes m p n = (if n = 0 then Ok [] else case p of None \<Rightarrow> Ub | Some p \<Rightarrow> load_bytes m p n)"

fun deref_pairs :: "mem \<Rightarrow> (addr \<times> addr) list \<Rightarrow> (u8 list \<times> u8 list) list res" where
  "deref_pairs m [] = Ok []"
| "deref_pairs m ((k, v) # kvs) =
     rbind (load_cstr m k) (\<lambda>k. rbind (load_cstr m v) (\<lambda>v.
     rbind (deref_pairs m kvs) (\<lambda>kvs. Ok ((k, v) # kvs))))"

fun record_view :: "mem \<Rightarrow> dtl_record \<Rightarrow> rec_val res" where
  "record_view m (RHeartbeat h) = Ok (VHeartbeat h)"
| "record_view m (RSensor s) = rbind (deref_bytes m (sen_samples s) (unat (sen_count s) * 4))
     (\<lambda>bs. Ok (VSensor (sen_sensor_id s) bs))"
| "record_view m (REvent e) = rbind (deref_bytes m (ev_payload e) (unat (ev_payload_len e)))
     (\<lambda>bs. Ok (VEvent (ev_code e) bs))"
| "record_view m (RDiag d) = rbind (deref_bytes m (dg_blob d) (unat (dg_blob_len d)))
     (\<lambda>bs. Ok (VDiag (dg_subsystem d) bs))"
| "record_view m (RGeo g) = Ok (VGeo g)"
| "record_view m (RBattery b) = Ok (VBattery b)"
| "record_view m (RNet n) = Ok (VNet n)"
| "record_view m (RLog l) = rbind (deref_bytes m (log_msg l) (unat (log_msg_len l)))
     (\<lambda>bs. Ok (VLog (log_severity l) bs))"
| "record_view m (RConfig c) = rbind (deref_pairs m (cfg_pairs c)) (\<lambda>kvs. Ok (VConfig kvs))"
| "record_view m (RKeyref k) = rbind (deref_bytes m (kr_label k) (unat (kr_label_len k)))
     (\<lambda>bs. Ok (VKeyref (kr_slot_id k) bs))"
| "record_view m (RFirmware f) = Ok (VFirmware f)"

text \<open>The fixed arrays of a record have their size.\<close>

fun rec_shape :: "dtl_record \<Rightarrow> bool" where
  "rec_shape (RFirmware f) \<longleftrightarrow> length (fw_hash f) = 8"
| "rec_shape (RConfig c) \<longleftrightarrow> unat (cfg_pair_count c) = length (cfg_pairs c)"
| "rec_shape r \<longleftrightarrow> True"

subsection \<open>Loads and stores in pieces\<close>

lemma cstr_cells_bytes:
  "cstr_cells cs = Ok s \<Longrightarrow> length s < length cs \<and> None \<notin> set (take (length s) cs) \<and> map the (take (length s) cs) = s"
  by (induction cs arbitrary: s rule: cstr_cells.induct) (auto simp: rbind_eq_Ok_iff split: if_splits)

lemma load_cstr_deref: "load_cstr m p = Ok s \<Longrightarrow> deref_bytes m (Some p) (length s) = Ok s"
  by (auto simp: load_cstr_def deref_bytes_def load_bytes_def Let_def dest!: cstr_cells_bytes split: option.splits if_splits)

lemma deref_bytes_length: "deref_bytes m p n = Ok bs \<Longrightarrow> length bs = n"
  by (auto simp: deref_bytes_def dest: load_bytes_region split: option.splits if_splits)

lemma deref_pairs_length: "deref_pairs m kvs = Ok vs \<Longrightarrow> length vs = length kvs"
  by (induction m kvs arbitrary: vs rule: deref_pairs.induct) (auto simp: rbind_eq_Ok_iff)

lemma load_bytes_append:
  assumes "load_bytes m p n = Ok xs" "load_bytes m (fst p, snd p + n) k = Ok ys"
  shows "load_bytes m p (n + k) = Ok (xs @ ys)"
proof -
  obtain cs where cs: "m_objs m (fst p) = Some cs" using assms(1) by (auto simp: load_bytes_def split: option.splits)
  have "take (n + k) (drop (snd p) cs) = take n (drop (snd p) cs) @ take k (drop (snd p + n) cs)"
    by (simp add: take_add add.commute [of "snd p" n])
  with assms cs show ?thesis
    by (auto simp: load_bytes_def Let_def split: if_splits)
qed

lemma load_nothing: "region_ok m p n \<Longrightarrow> load_bytes m p 0 = Ok []"
  by (auto simp: region_ok_def load_bytes_def split: option.splits)

lemma store_after:
  assumes "load_bytes m p n = Ok xs" "store_bytes m (fst p, snd p + n) ys = Ok m'"
  shows "load_bytes m' p (n + length ys) = Ok (xs @ ys)"
proof (rule load_bytes_append)
  show "load_bytes m' p n = Ok xs"
    using load_store_disjoint [OF assms(2) _ assms(1)] by (simp add: disjoint_regions_def)
  show "load_bytes m' (fst p, snd p + n) (length ys) = Ok ys" by (rule load_store_same [OF assms(2)])
qed

lemma wvalid_store_after:
  "wvalid (\<lambda>w. region_ok (w_mem w) p (n + length ys) \<and> load_bytes (w_mem w) p n = Ok xs)
     (w_store (fst p, snd p + n) ys)
     (\<lambda>_ w. load_bytes (w_mem w) p (n + length ys) = Ok (xs @ ys)) E"
proof (rule wvalidI)
  fix w assume w: "world_ok w" and p: "region_ok (w_mem w) p (n + length ys) \<and> load_bytes (w_mem w) p n = Ok xs"
  then have "region_ok (w_mem w) (fst p, snd p + n) (length ys)"
    by (auto simp: region_ok_def add.assoc split: option.splits)
  from wpost_store [OF w this]
  show "wpost (\<lambda>_ w. load_bytes (w_mem w) p (n + length ys) = Ok (xs @ ys)) E (w_store (fst p, snd p + n) ys w)"
    by (rule wpost_mono) (auto dest: store_after [OF conjunct2 [OF p]])
qed

lemma wvalid_read_bytes:
  assumes "buf_ok b" "n \<le> k" "n > length (buf_rest b) \<Longrightarrow> E DTL_ERR_TRUNCATED"
  shows "wvalid (\<lambda>w. region_ok (w_mem w) p k) (w_read_bytes b p n)
    (\<lambda>b' w. b' = buf_adv b n \<and> n \<le> length (buf_rest b) \<and> buf_ok b' \<and> region_ok (w_mem w) p k \<and>
       load_bytes (w_mem w) p n = Ok (take n (buf_rest b))) E"
proof (cases "n > length (buf_rest b)")
  case True
  with assms show ?thesis by (simp add: w_read_bytes_def read_bytes_short wvalid_fail)
next
  case False
  then have r: "dtl_buf_read_bytes b n = Ok (take n (buf_rest b), buf_adv b n)" using assms(1) by (simp add: read_bytes_full)
  show ?thesis
    unfolding w_read_bytes_def r wbind_simps prod.case
  proof (rule wvalidI)
    fix w assume w: "world_ok w" and p: "region_ok (w_mem w) p k"
    have "region_ok (w_mem w) p (length (take n (buf_rest b)))"
      using region_ok_mono [OF p] assms(2) by simp
    from wpost_store [OF w this, of E]
    show "wpost (\<lambda>b' w. b' = buf_adv b n \<and> n \<le> length (buf_rest b) \<and> buf_ok b' \<and> region_ok (w_mem w) p k \<and>
       load_bytes (w_mem w) p n = Ok (take n (buf_rest b))) E
       (wbind (w_store p (take n (buf_rest b))) (\<lambda>_. wret (buf_adv b n)) w)"
    proof (rule wpost_bind)
      fix x v assume v: "world_ok v" "\<exists>m. store_bytes (w_mem w) p (take n (buf_rest b)) = Ok m \<and> v = w\<lparr>w_mem := m\<rparr>"
      then obtain m where m: "store_bytes (w_mem w) p (take n (buf_rest b)) = Ok m" "v = w\<lparr>w_mem := m\<rparr>" by blast
      have "length (take n (buf_rest b)) = n" using False by simp
      then have "load_bytes m p n = Ok (take n (buf_rest b))"
        using load_store_same [OF m(1)] by simp
      with v m p False assms(1) show "wpost (\<lambda>b' w. b' = buf_adv b n \<and> n \<le> length (buf_rest b) \<and> buf_ok b' \<and>
          region_ok (w_mem w) p k \<and> load_bytes (w_mem w) p n = Ok (take n (buf_rest b))) E (wret (buf_adv b n) v)"
        by (simp add: wret_def store_bytes_region_ok [OF m(1)])
    qed
  qed
qed

subsection \<open>Fixed-layout records\<close>

text \<open>
  A parser is \<open>exact\<close> for a kind of value when it accepts precisely the wire forms of the
  well-formed values of that kind, up to running out of memory, and what it returns views to the value.
\<close>

definition parsed :: "u8 \<Rightarrow> u8 list \<Rightarrow> dtl_record \<Rightarrow> world \<Rightarrow> bool" where
  "parsed tag val r w \<longleftrightarrow>
     (\<exists>v. val_wf v \<and> val_tag v = tag \<and> payload_of v = val \<and> record_view (w_mem w) r = Ok (c_strings v))"

definition bad_wire :: "u8 \<Rightarrow> u8 list \<Rightarrow> dtl_err \<Rightarrow> bool" where
  "bad_wire tag val e \<longleftrightarrow> e = DTL_ERR_OOM \<or> (\<nexists>v. val_wf v \<and> val_tag v = tag \<and> payload_of v = val)"

definition exact_parser :: "(u8 list \<Rightarrow> dtl_record wm) \<Rightarrow> u8 \<Rightarrow> bool" where
  "exact_parser parse tag \<longleftrightarrow> (\<forall>val. wvalid (\<lambda>_. True) (parse val) (parsed tag val) (bad_wire tag val))"

lemma parsedI: "val_wf v \<Longrightarrow> val_tag v = tag \<Longrightarrow> payload_of v = val \<Longrightarrow> record_view (w_mem w) r = Ok (c_strings v) \<Longrightarrow>
  parsed tag val r w"
  by (auto simp: parsed_def)

lemma bad_wire_oom [simp]: "bad_wire tag val DTL_ERR_OOM"
  by (simp add: bad_wire_def)

lemma val_tag_cases:
  "val_tag v = DTL_REC_HEARTBEAT \<longleftrightarrow> (\<exists>h. v = VHeartbeat h)"
  "val_tag v = DTL_REC_GEO \<longleftrightarrow> (\<exists>g. v = VGeo g)"
  "val_tag v = DTL_REC_BATTERY \<longleftrightarrow> (\<exists>b. v = VBattery b)"
  "val_tag v = DTL_REC_NET \<longleftrightarrow> (\<exists>n. v = VNet n)"
  "val_tag v = DTL_REC_FIRMWARE \<longleftrightarrow> (\<exists>f. v = VFirmware f)"
  "val_tag v = DTL_REC_SENSOR \<longleftrightarrow> (\<exists>i bs. v = VSensor i bs)"
  "val_tag v = DTL_REC_EVENT \<longleftrightarrow> (\<exists>i bs. v = VEvent i bs)"
  "val_tag v = DTL_REC_DIAG \<longleftrightarrow> (\<exists>i bs. v = VDiag i bs)"
  "val_tag v = DTL_REC_LOG \<longleftrightarrow> (\<exists>i bs. v = VLog i bs)"
  "val_tag v = DTL_REC_KEYREF \<longleftrightarrow> (\<exists>i bs. v = VKeyref i bs)"
  "val_tag v = DTL_REC_CONFIG \<longleftrightarrow> (\<exists>kvs. v = VConfig kvs)"
  by (cases v; simp add: rec_tags)+

text \<open>One field of a payload: the reader is either short, or consumes the field's wire form.\<close>

context buf_reader
begin

lemma step:
  assumes "buf_ok b" "buf_rest b = r" "length r < width \<Longrightarrow> E DTL_ERR_TRUNCATED"
    and "\<And>v r' b'. r = wr v @ r' \<Longrightarrow> buf_rest b' = r' \<Longrightarrow> buf_ok b' \<Longrightarrow> wvalid P (g (v, b')) Q E"
  shows "wvalid P (wbind (wlift (rd b)) g) Q E"
proof (cases "length r < width")
  case True
  with short [OF assms(1)] assms(2,3) show ?thesis by (simp add: wvalid_fail)
next
  case False
  then obtain v where v: "rd b = Ok (v, buf_adv b width)" using full [OF assms(1)] assms(2) by auto
  have "r = wr v @ buf_rest (buf_adv b width)" using OkD(4) [OF assms(1) v] assms(2) by simp
  from assms(4) [OF this refl OkD(3) [OF assms(1) v]] v show ?thesis by simp
qed

end

lemmas init_steps = buf_init_ok(1) buf_init_ok(2)

lemma wmap_bind [simp]: "wmap f (wbind m g) = wbind m (\<lambda>x. wmap f (g x))"
  by (auto simp: wmap_def wbind_def wret_def fun_eq_iff split: result.splits prod.splits)

lemma wmap_simps [simp]: "wmap f (wret x) = wret (f x)" "wmap f (wfail e) = wfail e"
  by (auto simp: wmap_def)

lemma wmap_if [simp]: "wmap f (if c then a else b) = (if c then wmap f a else wmap f b)"
  by simp

lemma wvalid_if: "(c \<Longrightarrow> wvalid P a Q E) \<Longrightarrow> (\<not> c \<Longrightarrow> wvalid P b Q E) \<Longrightarrow> wvalid P (if c then a else b) Q E"
  by simp

lemma heartbeat_exact: "exact_parser (\<lambda>val. wmap RHeartbeat (dtl_heartbeat_parse val)) DTL_REC_HEARTBEAT"
  unfolding exact_parser_def dtl_heartbeat_parse_def wmap_bind wmap_if wmap_simps
  apply (intro allI wvalid_if)
   apply (rule wvalid_fail, fastforce simp: bad_wire_def val_tag_cases)
  apply (rule rd_u32.step [OF init_steps], simp, simp)
  apply (rule rd_u32.step, assumption, assumption, simp, simp)
  apply (rule wvalid_ret, rule parsedI [where v = "VHeartbeat _"])
     apply simp_all
  done

lemma geo_exact: "exact_parser (\<lambda>val. wmap RGeo (dtl_geo_parse val)) DTL_REC_GEO"
  unfolding exact_parser_def dtl_geo_parse_def wmap_bind wmap_if wmap_simps
  apply (intro allI wvalid_if)
   apply (rule wvalid_fail, fastforce simp: bad_wire_def val_tag_cases)
  apply (rule rd_u32.step [OF init_steps], simp, simp)
  apply (rule rd_u32.step, assumption, assumption, simp, simp)
  apply (rule rd_u32.step, assumption, assumption, simp, simp)
  apply (rule wvalid_ret, rule parsedI [where v = "VGeo _"])
     apply simp_all
  done

lemma battery_exact: "exact_parser (\<lambda>val. wmap RBattery (dtl_battery_parse val)) DTL_REC_BATTERY"
  unfolding exact_parser_def dtl_battery_parse_def wmap_bind wmap_if wmap_simps
  apply (intro allI wvalid_if)
   apply (rule wvalid_fail, fastforce simp: bad_wire_def val_tag_cases)
  apply (rule rd_u8.step [OF init_steps], simp, simp)
  apply (rule rd_u16.step, assumption, assumption, simp, simp)
  apply (rule rd_u32.step, assumption, assumption, simp, simp)
  apply (rule wvalid_ret, rule parsedI [where v = "VBattery _"])
     apply simp_all
  done

lemma net_exact:
  "exact_parser (\<lambda>val. wbind (dtl_net_parse val)
     (\<lambda>n. if net_iface_id n \<ge> 250 then wfail DTL_ERR_BADRECORD else wret (RNet n))) DTL_REC_NET"
proof -
  have assoc: "wbind (wbind m g) h = wbind m (\<lambda>x. wbind (g x) h)" for m :: "'a wm" and g :: "'a \<Rightarrow> 'b wm" and h :: "'b \<Rightarrow> 'c wm"
    by (auto simp: wbind_def fun_eq_iff split: result.splits prod.splits)
  have wif: "wbind (if c then a else b) h = (if c then wbind a h else wbind b h)" for c and a b :: "'a wm" and h :: "'a \<Rightarrow> 'b wm"
    by simp
  show ?thesis
    unfolding exact_parser_def dtl_net_parse_def assoc wif wbind_simps
    apply (intro allI wvalid_if)
     apply (rule wvalid_fail, fastforce simp: bad_wire_def val_tag_cases)
    apply (rule rd_u8.step [OF init_steps], simp, simp add: assoc)
    apply (rule rd_u32.step, assumption, assumption, simp, simp add: assoc)
    apply (rule rd_u32.step, assumption, assumption, simp, simp add: assoc)
    apply (rule rd_u32.step, assumption, assumption, simp, simp add: assoc)
    apply (rule rd_u32.step, assumption, assumption, simp, simp)
    apply (intro impI conjI)
     apply (rule wvalid_fail, fastforce simp: bad_wire_def val_tag_cases)
    apply (intro impI wvalid_ret, rule parsedI [where v = "VNet _"])
       apply (simp_all add: not_le)
    done
qed

lemma read_bytes_step:
  assumes "buf_ok b" "buf_rest b = r" "length r < n \<Longrightarrow> E DTL_ERR_TRUNCATED"
    and "\<And>bs r' b'. r = bs @ r' \<Longrightarrow> length bs = n \<Longrightarrow> buf_rest b' = r' \<Longrightarrow> buf_ok b' \<Longrightarrow> wvalid P (g (bs, b')) Q E"
  shows "wvalid P (wbind (wlift (dtl_buf_read_bytes b n)) g) Q E"
proof (cases "length r < n")
  case True
  with assms show ?thesis by (simp add: read_bytes_short wvalid_fail)
next
  case False
  have "r = take n r @ buf_rest (buf_adv b n)" using assms(2) by simp
  moreover have "length (take n r) = n" using False by simp
  ultimately show ?thesis
    using assms(4) [OF _ _ refl, of "take n r" "buf_adv b n"] assms(1,2) False
    by (simp add: read_bytes_full)
qed

lemma firmware_exact: "exact_parser (\<lambda>val. wmap RFirmware (dtl_firmware_parse val)) DTL_REC_FIRMWARE"
  unfolding exact_parser_def dtl_firmware_parse_def wmap_bind wmap_if wmap_simps
  apply (intro allI wvalid_if)
   apply (rule wvalid_fail, fastforce simp: bad_wire_def val_tag_cases)
  apply (rule rd_u16.step [OF init_steps], simp, simp)
  apply (rule rd_u16.step, assumption, assumption, simp, simp)
  apply (rule rd_u16.step, assumption, assumption, simp, simp)
  apply (rule read_bytes_step, assumption, assumption, simp, simp)
  apply (rule wvalid_ret, rule parsedI [where v = "VFirmware _"])
     apply simp_all
  done

subsection \<open>Records with a buffer\<close>

lemma write_le_inj [simp]:
  "dtl_endian_write_u16le a @ x = dtl_endian_write_u16le b @ y \<longleftrightarrow> a = b \<and> x = y"
  "dtl_endian_write_u32le c @ x = dtl_endian_write_u32le d @ y \<longleftrightarrow> c = d \<and> x = y"
  using rd_u16.wr_inj rd_u32.wr_inj by (auto simp: append_eq_append_conv)

lemma wmap_alloc [simp]:
  "wmap f (case p of None \<Rightarrow> wfail e | Some q \<Rightarrow> body q) = (case p of None \<Rightarrow> wfail e | Some q \<Rightarrow> wmap f (body q))"
  by (cases p) simp_all

lemma deref_Some [simp]: "n \<noteq> 0 \<Longrightarrow> deref_bytes m (Some p) n = load_bytes m p n" "deref_bytes m q 0 = Ok []"
  by (simp_all add: deref_bytes_def)

lemma deref_loaded: "load_bytes m p n = Ok bs \<Longrightarrow> deref_bytes m (Some p) n = Ok bs"
  by (auto simp: deref_bytes_def dest: load_bytes_region)

lemma short_bad_wire:
  "length val < 4 \<Longrightarrow> bad_wire DTL_REC_EVENT val e"
  "length val < 4 \<Longrightarrow> bad_wire DTL_REC_DIAG val e"
  "length val < 3 \<Longrightarrow> bad_wire DTL_REC_SENSOR val e"
  "length val < 3 \<Longrightarrow> bad_wire DTL_REC_LOG val e"
  "length val < 2 \<Longrightarrow> bad_wire DTL_REC_KEYREF val e"
  "length val < 1 \<Longrightarrow> bad_wire DTL_REC_CONFIG val e"
  by (auto simp: bad_wire_def val_tag_cases)

lemma mismatch_bad_wire:
  "unat n \<noteq> length r \<Longrightarrow> bad_wire DTL_REC_EVENT (dtl_endian_write_u16le i @ dtl_endian_write_u16le n @ r) e"
  "unat n \<noteq> length r \<Longrightarrow> bad_wire DTL_REC_DIAG (dtl_endian_write_u16le i @ dtl_endian_write_u16le n @ r) e"
  "unat k * 4 \<noteq> length r \<Longrightarrow> bad_wire DTL_REC_SENSOR (dtl_endian_write_u16le i @ k # r) e"
  "7 < s \<Longrightarrow> bad_wire DTL_REC_LOG (s # r) e"
  "unat n \<noteq> length r \<Longrightarrow> bad_wire DTL_REC_LOG (s # dtl_endian_write_u16le n @ r) e"
  "unat k \<noteq> length r \<Longrightarrow> bad_wire DTL_REC_KEYREF (s # k # r) e"
  by (auto simp: bad_wire_def val_tag_cases)

lemmas wm_simps = prod.case wmap_bind wmap_if wmap_simps wmap_alloc

lemma len_u16: "unat (n :: u16) = length r \<Longrightarrow> of_nat (length r) = n \<and> length r \<le> 65535"
  by (metis of_nat_unat ucast_id unat_le_65535)

lemma len_u8: "unat (n :: u8) = length r \<Longrightarrow> of_nat (length r) = n \<and> length r \<le> 255"
  by (metis of_nat_unat ucast_id unat_le_255)

lemma event_exact: "exact_parser (\<lambda>val. wmap REvent (dtl_event_parse val)) DTL_REC_EVENT"
  unfolding exact_parser_def dtl_event_parse_def wm_simps
  apply (intro allI)
  apply (rule rd_u16.step [OF init_steps], simp add: short_bad_wire, simp only: wm_simps)
  apply (rule rd_u16.step, assumption, assumption, simp add: short_bad_wire, simp only: wm_simps)
  apply (rule wvalid_if)
   apply (rule wvalid_fail, simp add: mismatch_bad_wire)
  apply (rule wvalid_if)
   apply (rule event_alloc.alloc_then, simp)
   apply (rule wvalid_bind [OF wvalid_read_bytes], assumption, rule order_refl, simp)
   apply (rule wvalid_ret, rule_tac v = "VEvent v (buf_rest b'a)" in parsedI)
      apply (simp_all add: len_u16 deref_loaded)
  apply (rule wvalid_ret, rule_tac v = "VEvent v []" in parsedI)
     apply simp_all
  done

lemma diag_exact: "exact_parser (\<lambda>val. wmap RDiag (dtl_diag_parse val)) DTL_REC_DIAG"
  unfolding exact_parser_def dtl_diag_parse_def wm_simps
  apply (intro allI)
  apply (rule rd_u16.step [OF init_steps], simp add: short_bad_wire, simp only: wm_simps)
  apply (rule rd_u16.step, assumption, assumption, simp add: short_bad_wire, simp only: wm_simps)
  apply (rule wvalid_if)
   apply (rule wvalid_fail, simp add: mismatch_bad_wire)
  apply (rule wvalid_if)
   apply (rule diag_alloc.alloc_then, simp)
   apply (rule wvalid_bind [OF wvalid_read_bytes], assumption, rule order_refl, simp)
   apply (rule wvalid_ret, rule_tac v = "VDiag v (buf_rest b'a)" in parsedI)
      apply (simp_all add: len_u16 deref_loaded)
  apply (rule wvalid_ret, rule_tac v = "VDiag v []" in parsedI)
     apply simp_all
  done

text \<open>A string buffer: the bytes, then the terminator.\<close>

lemma wvalid_terminate:
  "wvalid (\<lambda>w. C \<and> region_ok (w_mem w) p (n + 1) \<and> load_bytes (w_mem w) p n = Ok xs)
     (w_store (fst p, snd p + n) [0])
     (\<lambda>_ w. C \<and> load_bytes (w_mem w) p (n + 1) = Ok (xs @ [0])) E"
proof (rule wvalid_conj [THEN wvalid_weaken])
  show "C \<Longrightarrow> wvalid (\<lambda>w. region_ok (w_mem w) p (n + 1) \<and> load_bytes (w_mem w) p n = Ok xs)
     (w_store (fst p, snd p + n) [0]) (\<lambda>_ w. C \<and> load_bytes (w_mem w) p (n + 1) = Ok (xs @ [0])) E"
    by (rule wvalid_weaken [OF wvalid_store_after [of p n "[0]" xs]]) simp_all
qed simp_all

lemma load_prefix: "load_bytes m p (n + k) = Ok xs \<Longrightarrow> load_bytes m p n = Ok (take n xs)"
  by (auto simp: load_bytes_def Let_def take_map min_def split: option.splits if_splits dest: in_set_takeD)
    (metis append_take_drop_id in_set_takeD le_add1 min.absorb1 take_take)

lemma log_exact: "exact_parser (\<lambda>val. wmap RLog (dtl_log_parse val)) DTL_REC_LOG"
  unfolding exact_parser_def dtl_log_parse_def wm_simps
  apply (intro allI)
  apply (rule rd_u8.step [OF init_steps], simp add: short_bad_wire, simp only: wm_simps)
  apply (rule wvalid_if)
   apply (rule wvalid_fail, simp add: mismatch_bad_wire)
  apply (rule rd_u16.step, assumption, assumption, simp add: short_bad_wire, simp only: wm_simps)
  apply (rule wvalid_if)
   apply (rule wvalid_fail, simp add: mismatch_bad_wire)
  apply (rule arena_alloc.alloc_then, simp)
  apply (rule wvalid_bind [OF wvalid_read_bytes], assumption, rule le_add1, simp)
  apply (rule wvalid_bind)
   apply (rule wvalid_pre [OF _ wvalid_terminate [where C = True]], force)
  apply (rule wvalid_ret, rule_tac v = "VLog v (buf_rest b'a)" in parsedI)
     apply (simp_all add: len_u16 not_less)
  apply (auto dest!: load_prefix [where k = 1, simplified] simp: deref_loaded)
  done

lemma keyref_exact: "exact_parser (\<lambda>val. wmap RKeyref (dtl_keyref_parse val)) DTL_REC_KEYREF"
  unfolding exact_parser_def dtl_keyref_parse_def wm_simps
  apply (intro allI)
  apply (rule rd_u8.step [OF init_steps], simp add: short_bad_wire, simp only: wm_simps)
  apply (rule rd_u8.step, assumption, assumption, simp add: short_bad_wire, simp only: wm_simps)
  apply (rule keyref_alloc.alloc_then, simp)
  apply (rule wvalid_bind [OF wvalid_read_bytes], assumption, rule le_add1, simp add: mismatch_bad_wire)
  apply (simp only: wm_simps)
  apply (rule wvalid_bind)
   apply (rule wvalid_pre [rotated])
    apply (rule_tac C = "x = buf_adv b'a (unat va) \<and> unat va \<le> length (buf_rest b'a) \<and> buf_ok x" and
      xs = "take (unat va) (buf_rest b'a)" in wvalid_terminate)
   apply force
  apply (rule wvalid_if)
   apply (rule wvalid_fail, force intro!: mismatch_bad_wire)
  apply (rule wvalid_ret, rule_tac v = "VKeyref v (buf_rest b'a)" in parsedI)
     apply (auto dest!: load_prefix [where k = 1, simplified] simp: deref_loaded len_u8)
  done

lemma sensor_samples_valid:
  assumes "buf_ok b" "length (buf_rest b) = 4 * n"
  shows "wvalid (\<lambda>w. region_ok (w_mem w) p (k + 4 * n) \<and> load_bytes (w_mem w) p k = Ok pre)
    (sensor_samples_loop n b (fst p, snd p + k))
    (\<lambda>_ w. load_bytes (w_mem w) p (k + 4 * n) = Ok (pre @ buf_rest b)) E"
  using assms
proof (induction n arbitrary: b k pre)
  case 0
  then show ?case by (auto intro: wvalid_ret)
next
  case (Suc n)
  show ?case
    unfolding sensor_samples_loop.simps
  proof (rule rd_u32.step [OF Suc.prems(1) refl])
    fix v r' b' assume r: "buf_rest b = dtl_endian_write_u32le v @ r'" and b': "buf_rest b' = r'" "buf_ok b'"
    have IH: "wvalid (\<lambda>w. region_ok (w_mem w) p (k + 4 + 4 * n) \<and>
          load_bytes (w_mem w) p (k + 4) = Ok (pre @ dtl_endian_write_u32le v))
        (sensor_samples_loop n b' (fst p, snd p + (k + 4)))
        (\<lambda>_ w. load_bytes (w_mem w) p (k + 4 + 4 * n) = Ok ((pre @ dtl_endian_write_u32le v) @ buf_rest b')) E"
      using Suc.prems(2) r b' by (intro Suc.IH) auto
    have st: "wvalid (\<lambda>w. region_ok (w_mem w) p (k + 4 * Suc n) \<and> load_bytes (w_mem w) p k = Ok pre)
        (w_store (fst p, snd p + k) (dtl_endian_write_u32le v))
        (\<lambda>_ w. region_ok (w_mem w) p (k + 4 + 4 * n) \<and>
          load_bytes (w_mem w) p (k + 4) = Ok (pre @ dtl_endian_write_u32le v)) E"
    proof (rule wvalidI)
      fix w assume w: "world_ok w" and P: "region_ok (w_mem w) p (k + 4 * Suc n) \<and> load_bytes (w_mem w) p k = Ok pre"
      then have "region_ok (w_mem w) (fst p, snd p + k) (length (dtl_endian_write_u32le v))"
        by (auto simp: region_ok_def split: option.splits)
      from wpost_store [OF w this]
      show "wpost (\<lambda>_ w. region_ok (w_mem w) p (k + 4 + 4 * n) \<and>
          load_bytes (w_mem w) p (k + 4) = Ok (pre @ dtl_endian_write_u32le v)) E
          (w_store (fst p, snd p + k) (dtl_endian_write_u32le v) w)"
      proof (rule wpost_mono)
        fix v' assume "\<exists>m. store_bytes (w_mem w) (fst p, snd p + k) (dtl_endian_write_u32le v) = Ok m \<and> v' = w\<lparr>w_mem := m\<rparr>"
        then obtain m where m: "store_bytes (w_mem w) (fst p, snd p + k) (dtl_endian_write_u32le v) = Ok m" "v' = w\<lparr>w_mem := m\<rparr>"
          by blast
        from store_after [OF conjunct2 [OF P] m(1)] P m(2)
        show "region_ok (w_mem v') p (k + 4 + 4 * n) \<and> load_bytes (w_mem v') p (k + 4) = Ok (pre @ dtl_endian_write_u32le v)"
          by (simp add: store_bytes_region_ok [OF m(1)] add.assoc)
      qed
    qed
    show "wvalid (\<lambda>w. region_ok (w_mem w) p (k + 4 * Suc n) \<and> load_bytes (w_mem w) p k = Ok pre)
        (case (v, b') of (bits, b) \<Rightarrow> wbind (w_store (fst p, snd p + k) (dtl_endian_write_u32le bits))
          (\<lambda>_. sensor_samples_loop n b (fst (fst p, snd p + k), snd (fst p, snd p + k) + 4)))
        (\<lambda>_ w. load_bytes (w_mem w) p (k + 4 * Suc n) = Ok (pre @ buf_rest b)) E"
      using wvalid_bind [OF st IH] r b' by (simp add: add.assoc)
  qed (use Suc.prems in simp)
qed

lemma sensor_samples_fresh:
  assumes "buf_ok b" "length (buf_rest b) = n * 4"
  shows "wvalid (\<lambda>w. region_ok (w_mem w) p (n * 4)) (sensor_samples_loop n b p)
    (\<lambda>_ w. load_bytes (w_mem w) p (n * 4) = Ok (buf_rest b)) E"
proof -
  have p: "(fst p, snd p + 0) = p" by simp
  have "wvalid (\<lambda>w. region_ok (w_mem w) p (0 + 4 * n) \<and> load_bytes (w_mem w) p 0 = Ok [])
    (sensor_samples_loop n b p) (\<lambda>_ w. load_bytes (w_mem w) p (0 + 4 * n) = Ok ([] @ buf_rest b)) E"
    using sensor_samples_valid [OF assms(1), of n p 0 "[]" E, unfolded p] assms(2) by (simp add: mult.commute)
  then show ?thesis
    by (rule wvalid_weaken) (auto simp: mult.commute intro: load_nothing)
qed

lemma sensor_exact: "exact_parser (\<lambda>val. wmap RSensor (dtl_sensor_parse val)) DTL_REC_SENSOR"
  unfolding exact_parser_def dtl_sensor_parse_def wm_simps
  apply (intro allI)
  apply (rule rd_u16.step [OF init_steps], simp add: short_bad_wire, simp only: wm_simps)
  apply (rule rd_u8.step, assumption, assumption, simp add: short_bad_wire, simp only: wm_simps)
  apply (rule wvalid_if)
   apply (rule wvalid_fail, simp add: mismatch_bad_wire)
  apply (rule wvalid_if)
   apply (rule sensor_alloc.alloc_then, simp)
   apply (rule wvalid_bind [OF sensor_samples_fresh], assumption, simp)
   apply (rule wvalid_ret, rule_tac v = "VSensor v (buf_rest b'a)" in parsedI)
      apply (simp_all add: deref_loaded)
  apply (rule wvalid_ret, rule_tac v = "VSensor v []" in parsedI)
     apply simp_all
  done

subsection \<open>Config records\<close>

lemma world_ok_store: "world_ok w \<Longrightarrow> store_bytes (w_mem w) p bs = Ok m \<Longrightarrow> world_ok (w\<lparr>w_mem := m\<rparr>)"
  using store_bytes_mem_ok [of "w_mem w" p bs m] arena_ok_store [of "w_mem w" p bs m]
    store_bytes_objs_None [of "w_mem w" p bs m] by (simp add: world_ok_def)

text \<open>Strings the parser has already placed, and a buffer that overlaps none of them.\<close>

definition anchored :: "world \<Rightarrow> addr \<Rightarrow> nat \<Rightarrow> bool" where
  "anchored w p n \<longleftrightarrow> fst p \<notin> arena_blocks (w_arena w) \<or> owned (w_arena w) p n"

definition held :: "(addr \<times> u8 list) list \<Rightarrow> world \<Rightarrow> bool" where
  "held L w \<longleftrightarrow> (\<forall>(p, s) \<in> set L. load_bytes (w_mem w) p (length s + 1) = Ok (s @ [0]) \<and> anchored w p (length s + 1))"

definition fresh_for :: "(addr \<times> u8 list) list \<Rightarrow> addr \<Rightarrow> nat \<Rightarrow> world \<Rightarrow> bool" where
  "fresh_for L p n w \<longleftrightarrow> region_ok (w_mem w) p n \<and> anchored w p n \<and>
     (\<forall>(q, s) \<in> set L. disjoint_regions p n q (length s + 1))"

lemma held_mono: "held L w \<Longrightarrow> set L' \<subseteq> set L \<Longrightarrow> held L' w"
  by (auto simp: held_def)

lemma held_store:
  assumes "held L w" "store_bytes (w_mem w) p bs = Ok m" "fresh_for L q n w" "fst p = fst q"
    "snd q \<le> snd p" "snd p + length bs \<le> snd q + n"
  shows "held L (w\<lparr>w_mem := m\<rparr>)"
proof -
  have "load_bytes m r (length s + 1) = Ok (s @ [0])" if "(r, s) \<in> set L" for r s
  proof (rule load_store_disjoint [OF assms(2)])
    show "disjoint_regions p (length bs) r (length s + 1)"
      using assms(3-6) that by (fastforce simp: fresh_for_def disjoint_regions_def)
  qed (use assms(1) that in \<open>auto simp: held_def\<close>)
  with assms(1) show ?thesis by (auto simp: held_def anchored_def)
qed

lemma fresh_for_store: "store_bytes (w_mem w) p bs = Ok m \<Longrightarrow> fresh_for L q n (w\<lparr>w_mem := m\<rparr>) = fresh_for L q n w"
  by (simp add: fresh_for_def anchored_def store_bytes_region_ok)

lemma held_region: "held L w \<Longrightarrow> (q, s) \<in> set L \<Longrightarrow> m_objs (w_mem w) (fst q) \<noteq> None"
  by (fastforce simp: held_def load_bytes_def split: option.splits)

lemma cfg_pool_fresh:
  "wvalid (held L) (dtl_config_str_pool n) (\<lambda>p w. held L w \<and> (\<forall>q. p = Some q \<longrightarrow> fresh_for L q (unat n + 1) w)) E"
proof (rule wvalidI)
  fix w assume w: "world_ok w" and h: "held L w"
  have ok: "world_ok (snd (dtl_config_str_pool n w))" by (rule cfg_alloc.alloc_world_ok [OF w])
  obtain r m where ml: "c_malloc (w_mem w) (unat n + 1) = (r, m)" using prod.exhaust by blast
  have held: "held L (w\<lparr>w_mem := m, w_pools := q\<rparr>)" for q
    using h load_malloc [OF world_ok_mem [OF w] ml] by (auto simp: held_def anchored_def)
  have "fresh_for L (b, 0) (unat n + 1) (w\<lparr>w_mem := m, w_pools := q\<rparr>)" if "r = Some b" for b q
    using fresh_not_used(2,3) [OF w ml [unfolded that]] c_malloc_obj [OF ml [unfolded that]] held_region [OF h]
    by (fastforce simp: fresh_for_def anchored_def region_ok_def disjoint_regions_def)
  with ok held [of "w_pools w"] held h w ml show "wpost (\<lambda>p w. held L w \<and> (\<forall>q. p = Some q \<longrightarrow> fresh_for L q (unat n + 1) w)) E
      (dtl_config_str_pool n w)"
    by (auto simp: dtl_config_str_pool_def wret_def wbind_def w_malloc_def w_pools_upd_def split: option.splits)
qed

lemma arena_fresh:
  "wvalid (held L) (w_arena_alloc n) (\<lambda>p w. held L w \<and> (\<forall>q. p = Some q \<longrightarrow> fresh_for L q n w)) E"
proof (rule wvalidI)
  fix w assume w: "world_ok w" and h: "held L w"
  have ok: "mem_ok (w_mem w)" "arena_ok (w_mem w) (w_arena w)" using w by (simp_all add: world_ok_def)
  obtain r a m where al: "dtl_arena_alloc (w_mem w) (w_arena w) n = (r, a, m)" using prod_cases3 by blast
  have blocks: "arena_blocks a \<subseteq> arena_blocks (w_arena w) \<union> {d. m_objs (w_mem w) d = None}"
    using al ok by (cases rule: arena_alloc_cases) (auto simp: arena_blocks_def)
  have held: "held L (w\<lparr>w_mem := m, w_arena := a\<rparr>)"
    using h arena_alloc_load [OF al ok(1)] arena_alloc_owned_mono [OF al ok] held_region [OF h] blocks
    by (fastforce simp: held_def anchored_def)
  have "fresh_for L p n (w\<lparr>w_mem := m, w_arena := a\<rparr>)" if "r = Some p" for p
  proof -
    note s = arena_alloc_Some [OF al [unfolded that] ok]
    have "disjoint_regions p n q (length t + 1)" if "(q, t) \<in> set L" for q t
    proof (cases "owned (w_arena w) q (length t + 1)")
      case False
      then have "fst q \<notin> arena_blocks (w_arena w)" using h that by (auto simp: held_def anchored_def)
      with s(5) held_region [OF h that] show ?thesis by (auto simp: disjoint_regions_def)
    qed (rule s(4))
    with s(1,3) show ?thesis by (auto simp: fresh_for_def anchored_def)
  qed
  with held world_ok_arena_alloc [OF w al] al
  show "wpost (\<lambda>p w. held L w \<and> (\<forall>q. p = Some q \<longrightarrow> fresh_for L q n w)) E (w_arena_alloc n w)"
    by (simp add: w_arena_alloc_def)
qed

definition str_bytes :: "u8 list \<Rightarrow> u8 list" where
  "str_bytes s = of_nat (length s) # s"

definition bad_str :: "u8 list \<Rightarrow> dtl_err \<Rightarrow> bool" where
  "bad_str r e \<longleftrightarrow> e = DTL_ERR_OOM \<or> (\<nexists>s r'. length s \<le> 255 \<and> r = str_bytes s @ r')"

text \<open>Copying a string into a fresh buffer and terminating it.\<close>

lemma copy_string_valid:
  assumes "buf_ok b" "unat n > length (buf_rest b) \<Longrightarrow> E DTL_ERR_TRUNCATED"
  shows "wvalid (\<lambda>w. held L w \<and> fresh_for L p (unat n + 1) w)
    (wbind (w_read_bytes b p (unat n)) (\<lambda>b. wbind (w_store (fst p, snd p + unat n) [0]) (\<lambda>_. wret (p, b))))
    (\<lambda>(q, b') w. \<exists>s. length s = unat n \<and> buf_rest b = s @ buf_rest b' \<and> buf_ok b' \<and> held ((q, s) # L) w) E"
proof (cases "unat n > length (buf_rest b)")
  case True
  with assms show ?thesis by (simp add: w_read_bytes_def read_bytes_short wvalid_fail)
next
  case False
  let ?s = "take (unat n) (buf_rest b)"
  have s: "length ?s = unat n" using False by simp
  have r: "dtl_buf_read_bytes b (unat n) = Ok (?s, buf_adv b (unat n))" using assms(1) False by (simp add: read_bytes_full)
  show ?thesis
  proof (rule wvalidI)
    fix w assume w: "world_ok w" and P: "held L w \<and> fresh_for L p (unat n + 1) w"
    then have reg: "region_ok (w_mem w) p (unat n + 1)" by (simp add: fresh_for_def)
    have "region_ok (w_mem w) p (length ?s)" using region_ok_mono [OF reg, of "length ?s"] s by simp
    then obtain m1 where m1: "store_bytes (w_mem w) p ?s = Ok m1" using store_bytes_Ok_iff by blast
    have "region_ok m1 p (unat n + 1)" using reg by (simp add: store_bytes_region_ok [OF m1])
    then have "region_ok m1 (fst p, snd p + unat n) (length [0 :: u8])"
      by (auto simp: region_ok_def split: option.splits)
    then obtain m2 where m2: "store_bytes m1 (fst p, snd p + unat n) [0] = Ok m2" using store_bytes_Ok_iff by blast
    have f1: "fresh_for L p (unat n + 1) (w\<lparr>w_mem := m1\<rparr>)" using P fresh_for_store [OF m1] by simp
    have h1: "held L (w\<lparr>w_mem := m1\<rparr>)" using P s by (intro held_store [OF _ m1]) auto
    have h2: "held L (w\<lparr>w_mem := m2\<rparr>)"
      using held_store [OF h1 _ f1, of "(fst p, snd p + unat n)" "[0]" m2] m2 by simp
    have l2: "load_bytes m2 p (unat n + 1) = Ok (?s @ [0])"
      using store_after [OF _ m2, of ?s] load_store_same [OF m1] s by simp
    have ok: "world_ok (w\<lparr>w_mem := m2\<rparr>)"
      using world_ok_store [OF world_ok_store [OF w m1], of "(fst p, snd p + unat n)" "[0]" m2] m2 by simp
    have "held ((p, ?s) # L) (w\<lparr>w_mem := m2\<rparr>)"
      using h2 l2 s P by (auto simp: held_def fresh_for_def anchored_def)
    moreover have "wbind (w_read_bytes b p (unat n)) (\<lambda>b. wbind (w_store (fst p, snd p + unat n) [0]) (\<lambda>_. wret (p, b))) w
        = (Ok (p, buf_adv b (unat n)), w\<lparr>w_mem := m2\<rparr>)"
      using m1 m2 by (simp add: w_read_bytes_def r wbind_def wlift_def w_store_def wret_def)
    ultimately show "wpost (\<lambda>(q, b') w. \<exists>s. length s = unat n \<and> buf_rest b = s @ buf_rest b' \<and> buf_ok b' \<and> held ((q, s) # L) w) E
        (wbind (w_read_bytes b p (unat n)) (\<lambda>b. wbind (w_store (fst p, snd p + unat n) [0]) (\<lambda>_. wret (p, b))) w)"
      using ok s False assms(1) by (auto intro!: exI [of _ ?s])
  qed
qed

lemma bad_str_short: "unat n > length r \<Longrightarrow> bad_str (n # r) e" "bad_str [] e"
  by (auto simp: bad_str_def str_bytes_def)

lemma config_read_str_valid:
  assumes "buf_ok b"
  shows "wvalid (held L) (dtl_config_read_str b)
    (\<lambda>(p, b') w. \<exists>s. length s \<le> 255 \<and> buf_rest b = str_bytes s @ buf_rest b' \<and> buf_ok b' \<and> held ((p, s) # L) w)
    (bad_str (buf_rest b))"
  unfolding dtl_config_read_str_def
proof (rule rd_u8.step [OF assms refl])
  show "length (buf_rest b) < 1 \<Longrightarrow> bad_str (buf_rest b) DTL_ERR_TRUNCATED" by (simp add: bad_str_short)
  fix n r' b1 assume r: "buf_rest b = [n] @ r'" "buf_rest b1 = r'" "buf_ok b1"
  let ?Q = "\<lambda>(p, b') w. \<exists>s. length s \<le> 255 \<and> buf_rest b = str_bytes s @ buf_rest b' \<and> buf_ok b' \<and> held ((p, s) # L) w"
  let ?E = "bad_str (buf_rest b)"
  let ?f = "\<lambda>s p w. held L w \<and> (\<forall>q. s = Some q \<longrightarrow> fresh_for L q (unat n + 1) w)"
  have alloc: "wvalid (?f s ()) (case s of Some p \<Rightarrow> wret (Some p) | None \<Rightarrow> w_arena_alloc (unat n + 1)) (\<lambda>s. ?f s ()) ?E" for s
  proof (cases s)
    case None
    then show ?thesis using arena_fresh [of L "unat n + 1" ?E] by simp
  qed (auto intro: wvalid_ret)
  have body: "wvalid (?f s ()) (case s of None \<Rightarrow> wfail DTL_ERR_OOM | Some p \<Rightarrow>
      wbind (w_read_bytes b1 p (unat n)) (\<lambda>b. wbind (w_store (fst p, snd p + unat n) [0]) (\<lambda>_. wret (p, b)))) ?Q ?E" for s
  proof (cases s)
    case (Some p)
    have "wvalid (\<lambda>w. held L w \<and> fresh_for L p (unat n + 1) w)
      (wbind (w_read_bytes b1 p (unat n)) (\<lambda>b. wbind (w_store (fst p, snd p + unat n) [0]) (\<lambda>_. wret (p, b)))) ?Q ?E"
    proof (rule wvalid_weaken [OF copy_string_valid [OF r(3), where E = ?E and L = L and p = p]])
      show "unat n > length (buf_rest b1) \<Longrightarrow> ?E DTL_ERR_TRUNCATED" using r by (simp add: bad_str_short)
      show "?Q x w" if "(case x of (q, b') \<Rightarrow> \<lambda>w. \<exists>s. length s = unat n \<and> buf_rest b1 = s @ buf_rest b' \<and> buf_ok b' \<and>
          held ((q, s) # L) w) w" for x w
        using that r by (auto simp: str_bytes_def)
    qed auto
    with Some show ?thesis by simp
  qed (simp add: bad_str_def wvalid_fail)
  show "wvalid (held L) (case (n, b1) of (slen, b) \<Rightarrow> wbind (dtl_config_str_pool slen) (\<lambda>s.
      wbind (case s of Some p \<Rightarrow> wret (Some p) | None \<Rightarrow> w_arena_alloc (unat slen + 1)) (\<lambda>s.
      case s of None \<Rightarrow> wfail DTL_ERR_OOM
      | Some p \<Rightarrow> wbind (w_read_bytes b p (unat slen)) (\<lambda>b. wbind (w_store (fst p, snd p + unat slen) [0]) (\<lambda>_. wret (p, b))))))
      ?Q ?E"
    unfolding prod.case by (rule wvalid_bind [OF cfg_pool_fresh wvalid_bind [OF alloc body]])
qed

text \<open>The loop over the pairs.\<close>

fun placed :: "(addr \<times> addr) list \<Rightarrow> (u8 list \<times> u8 list) list \<Rightarrow> (addr \<times> u8 list) list" where
  "placed ((kp, vp) # ps) ((k, v) # kvs) = (kp, k) # (vp, v) # placed ps kvs"
| "placed _ _ = []"

definition pairs_wf :: "nat \<Rightarrow> (u8 list \<times> u8 list) list \<Rightarrow> bool" where
  "pairs_wf n kvs \<longleftrightarrow> length kvs = n \<and> (\<forall>(k, v) \<in> set kvs. length k \<le> 255 \<and> length v \<le> 255)"

definition bad_pairs :: "nat \<Rightarrow> u8 list \<Rightarrow> dtl_err \<Rightarrow> bool" where
  "bad_pairs n r e \<longleftrightarrow> e = DTL_ERR_OOM \<or> (\<nexists>kvs r'. pairs_wf n kvs \<and> r = concat (map pair_bytes kvs) @ r')"

lemma pair_bytes_str: "pair_bytes (k, v) = str_bytes k @ str_bytes v"
  by (simp add: pair_bytes_def str_bytes_def)

lemma str_bytes_inj:
  assumes "str_bytes s @ r = str_bytes t @ q" "length s \<le> 255" "length t \<le> 255"
  shows "s = t \<and> r = q"
proof -
  have "(of_nat (length s) :: u8) = of_nat (length t)" using assms(1) by (simp add: str_bytes_def)
  then have "length s = length t" using assms(2,3) by (metis unat_of_nat_u8 le_imp_less_Suc numeral_eq_Suc Suc_numeral semiring_norm(2) semiring_norm(8))
  with assms(1) show ?thesis by (simp add: str_bytes_def)
qed

lemma pairs_inj:
  "pairs_wf n kvs \<Longrightarrow> pairs_wf n kvs' \<Longrightarrow>
   concat (map pair_bytes kvs) @ r = concat (map pair_bytes kvs') @ r' \<Longrightarrow> kvs = kvs' \<and> r = r'"
proof (induction n arbitrary: kvs kvs')
  case (Suc n)
  obtain k v ks where a: "kvs = (k, v) # ks" using Suc.prems(1) by (cases kvs) (auto simp: pairs_wf_def)
  obtain k' v' ks' where a': "kvs' = (k', v') # ks'" using Suc.prems(2) by (cases kvs') (auto simp: pairs_wf_def)
  have "str_bytes k @ str_bytes v @ concat (map pair_bytes ks) @ r = str_bytes k' @ str_bytes v' @ concat (map pair_bytes ks') @ r'"
    using Suc.prems(3) a a' by (simp add: pair_bytes_str)
  moreover have len: "length k \<le> 255" "length v \<le> 255" "length k' \<le> 255" "length v' \<le> 255" "pairs_wf n ks" "pairs_wf n ks'"
    using Suc.prems(1,2) a a' by (auto simp: pairs_wf_def)
  ultimately have "k = k'" "v = v'" "concat (map pair_bytes ks) @ r = concat (map pair_bytes ks') @ r'"
    using str_bytes_inj [of k _ k'] str_bytes_inj [of v _ v'] by blast+
  with Suc.IH [OF len(5,6)] a a' show ?case by simp
qed (simp add: pairs_wf_def)

lemma pairs_first:
  "pairs_wf (Suc n) kvs \<Longrightarrow> \<exists>s r'. length s \<le> 255 \<and> concat (map pair_bytes kvs) @ q = str_bytes s @ r'"
  by (cases kvs) (auto simp: pairs_wf_def pair_bytes_str)

lemma wvalid_err: "wvalid P f Q E' \<Longrightarrow> (\<And>e. E' e \<Longrightarrow> E e) \<Longrightarrow> wvalid P f Q E"
  by (rule wvalid_weaken)

lemma config_pairs_valid:
  "buf_ok b \<Longrightarrow> wvalid (held L) (config_pairs_loop n b)
    (\<lambda>(ps, b') w. \<exists>kvs. pairs_wf n kvs \<and> length ps = n \<and> buf_rest b = concat (map pair_bytes kvs) @ buf_rest b' \<and>
       buf_ok b' \<and> held (placed ps kvs @ L) w)
    (bad_pairs n (buf_rest b))"
proof (induction n arbitrary: b L)
  case 0
  then show ?case by (auto simp: pairs_wf_def intro!: wvalid_ret)
next
  case (Suc n)
  let ?E = "bad_pairs (Suc n) (buf_rest b)"
  let ?Q = "\<lambda>(ps, b') w. \<exists>kvs. pairs_wf (Suc n) kvs \<and> length ps = Suc n \<and>
     buf_rest b = concat (map pair_bytes kvs) @ buf_rest b' \<and> buf_ok b' \<and> held (placed ps kvs @ L) w"
  have e1: "?E e" if "bad_str (buf_rest b) e" for e
    using that pairs_first [of n] by (fastforce simp: bad_str_def bad_pairs_def)
  have rest: "wvalid (held ((kp, k) # L)) (wbind (dtl_config_read_str b1) (\<lambda>(v, b).
      wbind (config_pairs_loop n b) (\<lambda>(kvs, b). wret ((kp, v) # kvs, b)))) ?Q ?E"
    if k: "length k \<le> 255" "buf_rest b = str_bytes k @ buf_rest b1" "buf_ok b1" for kp k b1
  proof (rule wvalid_bind [OF wvalid_err [OF config_read_str_valid [OF k(3)]]])
    show "?E e" if "bad_str (buf_rest b1) e" for e
    proof -
      have False if "pairs_wf (Suc n) kvs" "buf_rest b = concat (map pair_bytes kvs) @ q"
        "\<nexists>s r'. length s \<le> 255 \<and> buf_rest b1 = str_bytes s @ r'" for kvs q
      proof (cases kvs)
        case (Cons kv ks)
        obtain k' v' where kv: "kv = (k', v')" by (cases kv)
        have "str_bytes k @ buf_rest b1 = str_bytes k' @ str_bytes v' @ concat (map pair_bytes ks) @ q"
          "length k' \<le> 255" "length v' \<le> 255"
          using that(1,2) k(2) Cons kv by (auto simp: pair_bytes_str pairs_wf_def)
        with str_bytes_inj [of k _ k'] k(1) that(3) show False by blast
      qed (use that in \<open>simp add: pairs_wf_def\<close>)
      with that show ?thesis by (auto simp: bad_str_def bad_pairs_def)
    qed
    show "wvalid (case x of (p, b') \<Rightarrow> \<lambda>w. \<exists>s. length s \<le> 255 \<and> buf_rest b1 = str_bytes s @ buf_rest b' \<and> buf_ok b' \<and>
        held ((p, s) # (kp, k) # L) w)
      (case x of (v, b) \<Rightarrow> wbind (config_pairs_loop n b) (\<lambda>(kvs, b). wret ((kp, v) # kvs, b))) ?Q ?E" for x
    proof (cases x)
      case (Pair vp b2)
      have "wvalid (\<lambda>w. \<exists>s. (length s \<le> 255 \<and> buf_rest b1 = str_bytes s @ buf_rest b2 \<and> buf_ok b2) \<and>
          held ((vp, s) # (kp, k) # L) w) (wbind (config_pairs_loop n b2) (\<lambda>(kvs, b). wret ((kp, vp) # kvs, b))) ?Q ?E"
      proof (intro wvalid_ex wvalid_conj)
        fix v assume v: "length v \<le> 255 \<and> buf_rest b1 = str_bytes v @ buf_rest b2 \<and> buf_ok b2"
        show "wvalid (held ((vp, v) # (kp, k) # L)) (wbind (config_pairs_loop n b2) (\<lambda>(kvs, b). wret ((kp, vp) # kvs, b))) ?Q ?E"
        proof (rule wvalid_bind)
          show "wvalid (held ((vp, v) # (kp, k) # L)) (config_pairs_loop n b2)
            (\<lambda>(ps, b') w. \<exists>kvs. pairs_wf n kvs \<and> length ps = n \<and>
              buf_rest b2 = concat (map pair_bytes kvs) @ buf_rest b' \<and> buf_ok b' \<and>
              held (placed ps kvs @ (vp, v) # (kp, k) # L) w) ?E"
          proof (rule wvalid_err [OF Suc.IH])
            show "buf_ok b2" using v by simp
            show "?E e" if "bad_pairs n (buf_rest b2) e" for e
            proof -
              have False if "pairs_wf (Suc n) kvs" "buf_rest b = concat (map pair_bytes kvs) @ q"
                "\<nexists>kvs r'. pairs_wf n kvs \<and> buf_rest b2 = concat (map pair_bytes kvs) @ r'" for kvs q
              proof (cases kvs)
                case (Cons kv ks)
                obtain k' v' where kv: "kv = (k', v')" by (cases kv)
                have "str_bytes k @ str_bytes v @ buf_rest b2 = str_bytes k' @ str_bytes v' @ concat (map pair_bytes ks) @ q"
                  "length k' \<le> 255" "length v' \<le> 255" "pairs_wf n ks"
                  using that(1,2) k(2) v Cons kv by (auto simp: pair_bytes_str pairs_wf_def)
                with str_bytes_inj [of k _ k'] str_bytes_inj [of v _ v'] k(1) v that(3) show False by blast
              qed (use that in \<open>simp add: pairs_wf_def\<close>)
              with that show ?thesis by (auto simp: bad_pairs_def)
            qed
          qed
          show "wvalid ((\<lambda>(ps, b') w. \<exists>kvs. pairs_wf n kvs \<and> length ps = n \<and>
              buf_rest b2 = concat (map pair_bytes kvs) @ buf_rest b' \<and> buf_ok b' \<and>
              held (placed ps kvs @ (vp, v) # (kp, k) # L) w) y)
            (case y of (kvs, b) \<Rightarrow> wret ((kp, vp) # kvs, b)) ?Q ?E" for y
          proof (cases y)
            case (Pair ps b3)
            have "?Q ((kp, vp) # ps, b3) w" if q: "pairs_wf n kvs \<and> length ps = n \<and>
              buf_rest b2 = concat (map pair_bytes kvs) @ buf_rest b3 \<and> buf_ok b3 \<and>
              held (placed ps kvs @ (vp, v) # (kp, k) # L) w" for kvs w
            proof -
              have "held (placed ((kp, vp) # ps) ((k, v) # kvs) @ L) w"
                by (rule held_mono [of "placed ps kvs @ (vp, v) # (kp, k) # L"]) (use q in auto)
              with q k v show ?thesis
                by (auto simp: pairs_wf_def pair_bytes_str intro!: exI [of _ "(k, v) # kvs"])
            qed
            with Pair show ?thesis by (auto intro!: wvalid_ret)
          qed
        qed
      qed
      then show ?thesis using Pair by (auto intro: wvalid_pre [rotated])
    qed
  qed
  show ?case
    unfolding config_pairs_loop.simps
  proof (rule wvalid_bind [OF wvalid_err [OF config_read_str_valid [OF Suc.prems]]], rule e1, assumption)
    show "wvalid (case x of (p, b') \<Rightarrow> \<lambda>w. \<exists>s. length s \<le> 255 \<and> buf_rest b = str_bytes s @ buf_rest b' \<and> buf_ok b' \<and>
        held ((p, s) # L) w) (case x of (k, b) \<Rightarrow> wbind (dtl_config_read_str b) (\<lambda>(v, b).
      wbind (config_pairs_loop n b) (\<lambda>(kvs, b). wret ((k, v) # kvs, b)))) ?Q ?E" for x
    proof (cases x)
      case (Pair kp b1)
      have "wvalid (\<lambda>w. \<exists>s. (length s \<le> 255 \<and> buf_rest b = str_bytes s @ buf_rest b1 \<and> buf_ok b1) \<and> held ((kp, s) # L) w)
        (wbind (dtl_config_read_str b1) (\<lambda>(v, b). wbind (config_pairs_loop n b) (\<lambda>(kvs, b). wret ((kp, v) # kvs, b)))) ?Q ?E"
        by (intro wvalid_ex wvalid_conj rest) auto
      then show ?thesis using Pair by (auto intro: wvalid_pre [rotated])
    qed
  qed
qed

lemma load_cstr_c_string:
  assumes "load_bytes m p (length s + 1) = Ok (s @ [0])"
  shows "load_cstr m p = Ok (c_string s)"
proof -
  have split: "\<exists>t. s @ [0] = c_string s @ 0 # t" for s :: "u8 list"
    by (induction s) (auto simp: c_string_def)
  then obtain t where t: "s @ [0] = c_string s @ 0 # t" by blast
  have "length s + 1 = length (c_string s) + 1 + length t" using arg_cong [OF t, of length] by simp
  from load_prefix [of m p "length (c_string s) + 1" "length t", folded this, OF assms] t
  have "load_bytes m p (Suc (length (c_string s))) = Ok (c_string s @ [0])" by simp
  moreover have "0 \<notin> set (c_string s)" by (auto simp: c_string_def dest: set_takeWhileD)
  ultimately show ?thesis by (rule load_cstr_of_bytes)
qed

lemma held_deref:
  "held (placed ps kvs @ L) w \<Longrightarrow> length ps = length kvs \<Longrightarrow>
   deref_pairs (w_mem w) ps = Ok (map (map_prod c_string c_string) kvs)"
proof (induction ps kvs rule: placed.induct)
  case (1 kp vp ps k v kvs)
  then have "load_bytes (w_mem w) kp (length k + 1) = Ok (k @ [0])" "load_bytes (w_mem w) vp (length v + 1) = Ok (v @ [0])"
    "held (placed ps kvs @ L) w"
    by (auto simp: held_def)
  with 1 show ?case by (simp add: load_cstr_c_string del: One_nat_def add_Suc_right)
qed auto

lemma config_recycle_valid: "wvalid P dtl_config_pool_recycle (\<lambda>_ _. True) E"
proof (rule wvalidI)
  fix w assume w: "world_ok w"
  show "wpost (\<lambda>_ _. True) E (dtl_config_pool_recycle w)"
    unfolding dtl_config_pool_recycle_def using world_pools [OF w]
    by (intro wpost_mono [OF release_post [OF w]]) (auto simp: pools_ok_def pool_blocks_def)
qed

lemma event_release_valid: "wvalid P dtl_event_pool_release (\<lambda>_ _. True) E"
proof (rule wvalidI)
  fix w assume w: "world_ok w"
  show "wpost (\<lambda>_ _. True) E (dtl_event_pool_release w)"
    unfolding dtl_event_pool_release_def using world_pools [OF w]
    by (intro wpost_mono [OF release_post [OF w]]) (auto simp: pools_ok_def pool_blocks_def)
qed

lemma config_wire:
  "bad_wire DTL_REC_CONFIG (n # r) e \<longleftrightarrow> e = DTL_ERR_OOM \<or> (\<nexists>kvs. pairs_wf (unat n) kvs \<and> r = concat (map pair_bytes kvs))"
proof -
  have "(\<exists>v. val_wf v \<and> val_tag v = DTL_REC_CONFIG \<and> payload_of v = n # r) \<longleftrightarrow>
      (\<exists>kvs. pairs_wf (unat n) kvs \<and> r = concat (map pair_bytes kvs))"
    (is "?l \<longleftrightarrow> ?r")
  proof
    assume ?r
    then obtain kvs where "pairs_wf (unat n) kvs" "r = concat (map pair_bytes kvs)" by blast
    then show ?l by (intro exI [of _ "VConfig kvs"]) (auto simp: pairs_wf_def dest: len_u8)
  next
    assume ?l
    then obtain kvs where k: "val_wf (VConfig kvs)" "n = of_nat (length kvs)" "r = concat (map pair_bytes kvs)"
      by (auto simp: val_tag_cases)
    moreover have "unat n = length kvs" using k by (simp add: len_u8)
    ultimately show ?r by (auto simp: pairs_wf_def intro!: exI [of _ kvs])
  qed
  then show ?thesis by (simp add: bad_wire_def)
qed

lemma config_exact: "exact_parser (\<lambda>val. wmap RConfig (dtl_config_parse val)) DTL_REC_CONFIG"
  unfolding exact_parser_def dtl_config_parse_def wm_simps
proof (intro allI wvalid_bind [OF config_recycle_valid], rule rd_u8.step [OF init_steps])
  fix val n r' b assume val: "val = [n] @ r'" "buf_rest b = r'" "buf_ok b"
  let ?P = "parsed DTL_REC_CONFIG val" and ?E = "bad_wire DTL_REC_CONFIG val"
  let ?arr = "if n \<noteq> 0 then wbind (w_arena_alloc (unat n * sizeof_config_pair)) (\<lambda>p.
      case p of None \<Rightarrow> wfail DTL_ERR_OOM | Some _ \<Rightarrow> wret ()) else wret ()"
  have arr: "wvalid (\<lambda>_. True) ?arr (\<lambda>_. held []) ?E"
    by (auto simp: held_def intro!: arena_alloc.alloc_then wvalid_ret)
  have loop: "wvalid (held []) (config_pairs_loop (unat n) b)
    (\<lambda>(ps, b') w. \<exists>kvs. pairs_wf (unat n) kvs \<and> length ps = unat n \<and> r' = concat (map pair_bytes kvs) @ buf_rest b' \<and>
       buf_ok b' \<and> held (placed ps kvs @ []) w) ?E"
    by (rule wvalid_weaken [OF config_pairs_valid [OF val(3)]])
      (auto simp: val config_wire bad_pairs_def)
  have fin: "wvalid (case x of (ps, b') \<Rightarrow> \<lambda>w. \<exists>kvs. pairs_wf (unat n) kvs \<and> length ps = unat n \<and>
        r' = concat (map pair_bytes kvs) @ buf_rest b' \<and> buf_ok b' \<and> held (placed ps kvs @ []) w)
      (wmap RConfig (case x of (pairs, b) \<Rightarrow> if dtl_buf_remaining b \<noteq> 0 then wfail DTL_ERR_BADRECORD
         else wret \<lparr>cfg_pair_count = n, cfg_pairs = pairs\<rparr>)) ?P ?E" for x
  proof (cases x)
    case (Pair ps b')
    have "wvalid (\<lambda>w. \<exists>kvs. (pairs_wf (unat n) kvs \<and> length ps = unat n \<and>
        r' = concat (map pair_bytes kvs) @ buf_rest b' \<and> buf_ok b') \<and> held (placed ps kvs @ []) w)
      (if dtl_buf_remaining b' \<noteq> 0 then wfail DTL_ERR_BADRECORD
       else wret (RConfig \<lparr>cfg_pair_count = n, cfg_pairs = ps\<rparr>)) ?P ?E"
    proof (intro wvalid_ex wvalid_conj wvalid_if wvalid_fail wvalid_ret)
      fix kvs assume k: "pairs_wf (unat n) kvs \<and> length ps = unat n \<and> r' = concat (map pair_bytes kvs) @ buf_rest b' \<and> buf_ok b'"
      show "?E DTL_ERR_BADRECORD" if "dtl_buf_remaining b' \<noteq> 0"
        using that k pairs_inj [of "unat n" kvs _ "buf_rest b'" "[]"] by (auto simp: val config_wire)
      show "?P (RConfig \<lparr>cfg_pair_count = n, cfg_pairs = ps\<rparr>) w"
        if "\<not> dtl_buf_remaining b' \<noteq> 0" "held (placed ps kvs @ []) w" for w
        using that k held_deref [OF that(2)]
        by (intro parsedI [where v = "VConfig kvs"]) (auto simp: val pairs_wf_def dest: len_u8)
    qed
    then show ?thesis using Pair by (auto intro: wvalid_pre [rotated])
  qed
  show "wvalid (\<lambda>_. True) (wmap RConfig (case (n, b) of (pair_count, b) \<Rightarrow>
     wbind (if pair_count \<noteq> 0
            then wbind (w_arena_alloc (unat pair_count * sizeof_config_pair)) (\<lambda>p.
                 case p of None \<Rightarrow> wfail DTL_ERR_OOM | Some _ \<Rightarrow> wret ())
            else wret ()) (\<lambda>_.
     wbind (config_pairs_loop (unat pair_count) b) (\<lambda>(pairs, b).
     if dtl_buf_remaining b \<noteq> 0 then wfail DTL_ERR_BADRECORD
     else wret \<lparr>cfg_pair_count = pair_count, cfg_pairs = pairs\<rparr>)))) ?P ?E"
    unfolding wm_simps by (rule wvalid_bind [OF arr wvalid_bind [OF loop fin]])
qed (simp add: short_bad_wire)

end
