(* ===== verification/Records_Registry.thy ===== *)
theory Records_Registry
  imports Records_Spec Format_Tlv
begin

text \<open>
  The dispatch of \<^verbatim>\<open>src/records/registry.c\<close>: what \<open>dtl_record_parse\<close> accepts and returns, over the
  exactness of the eleven parsers, and how long what it returns can be used.
\<close>

lemma record_parse_unknown: "bad_wire tag val DTL_ERR_BADRECORD"
  if "tag \<noteq> DTL_REC_HEARTBEAT" "tag \<noteq> DTL_REC_GEO" "tag \<noteq> DTL_REC_BATTERY" "tag \<noteq> DTL_REC_NET"
    "tag \<noteq> DTL_REC_FIRMWARE" "tag \<noteq> DTL_REC_SENSOR" "tag \<noteq> DTL_REC_EVENT" "tag \<noteq> DTL_REC_LOG"
    "tag \<noteq> DTL_REC_CONFIG" "tag \<noteq> DTL_REC_KEYREF" "tag \<noteq> DTL_REC_DIAG"
proof -
  have "val_tag v \<noteq> tag" for v by (cases v) (use that in auto)
  then show ?thesis by (auto simp: bad_wire_def)
qed

lemmas parsers_exact = heartbeat_exact geo_exact battery_exact net_exact firmware_exact sensor_exact event_exact
  log_exact config_exact keyref_exact diag_exact

lemma exactD: "exact_parser parse tag \<Longrightarrow> t = tag \<Longrightarrow> wvalid (\<lambda>_. True) (parse val) (parsed t val) (bad_wire t val)"
  by (simp add: exact_parser_def)

lemma record_parse_valid:
  "wvalid (\<lambda>_. True) (dtl_record_parse tlv) (parsed (tlv_tag tlv) (tlv_val tlv)) (bad_wire (tlv_tag tlv) (tlv_val tlv))"
  unfolding dtl_record_parse_def Let_def
  by (rule wvalid_if, erule parsers_exact [THEN exactD])+ (rule wvalid_fail, rule record_parse_unknown)

lemma record_view_tag: "record_view m r = Ok v \<Longrightarrow> val_tag v = rec_tag r"
  by (cases r) (auto simp: rbind_eq_Ok_iff)

lemma c_strings_tag: "val_tag (c_strings v) = val_tag v"
  by (cases v) auto

definition rec_tlv :: "rec_val \<Rightarrow> dtl_tlv" where
  "rec_tlv v = \<lparr>tlv_tag = val_tag v, tlv_len = of_nat (length (payload_of v)), tlv_val = payload_of v\<rparr>"

lemma rec_tlv_simps [simp]: "tlv_tag (rec_tlv v) = val_tag v" "tlv_val (rec_tlv v) = payload_of v"
  by (simp_all add: rec_tlv_def)

text \<open>
  C8. Parsing a record of any kind, from any state of the pools, has no undefined behaviour: no load or
  store outside a live block, no double free; and the pools, the arena and the heap stay well formed.
\<close>

theorem record_parse_memory_safe:
  assumes "world_ok w" "dtl_record_parse tlv w = (res, w')"
  shows "res \<noteq> Ub \<and> world_ok w'"
  using wpost_facts(1,2) [OF wvalidD [OF record_parse_valid [of tlv] assms(1) TrueI]] assms(2) by simp

text \<open>
  C9. What a record parser accepts is the wire form of a well-formed value of the kind its tag names,
  and the record it returns has that tag and reads back as that value in the heap it leaves.
\<close>

theorem record_parse_sound:
  assumes "world_ok w" "dtl_record_parse tlv w = (Ok r, w')"
  shows "\<exists>v. val_wf v \<and> val_tag v = tlv_tag tlv \<and> payload_of v = tlv_val tlv \<and>
    record_view (w_mem w') r = Ok (c_strings v) \<and> rec_tag r = tlv_tag tlv"
proof -
  have "parsed (tlv_tag tlv) (tlv_val tlv) r w'"
    using wpost_facts(3) [OF wvalidD [OF record_parse_valid [of tlv] assms(1) TrueI]] assms(2) by simp
  then show ?thesis unfolding parsed_def using record_view_tag c_strings_tag by metis
qed

lemma write_le_single_inj [simp]:
  "dtl_endian_write_u16le v = dtl_endian_write_u16le v' \<longleftrightarrow> v = v'"
  "dtl_endian_write_u32le w = dtl_endian_write_u32le w' \<longleftrightarrow> w = w'"
  using write_le_inj(1) [of v "[]" v' "[]"] write_le_inj(2) [of w "[]" w' "[]"] by auto

lemma payload_of_inj:
  assumes "val_wf v" "val_wf v'" "val_tag v = val_tag v'" "payload_of v = payload_of v'"
  shows "v = v'"
proof (cases v)
  case (VConfig kvs)
  then obtain kvs' where v': "v' = VConfig kvs'" using assms(3) val_tag_cases(11) [of v'] by auto
  have wf: "pairs_wf (length kvs) kvs" "pairs_wf (length kvs') kvs'"
    using assms(1,2) VConfig v' by (simp_all add: pairs_wf_def)
  have "unat (of_nat (length kvs) :: u8) = unat (of_nat (length kvs') :: u8)" using assms(4) VConfig v' by simp
  then have "length kvs' = length kvs" using assms(1,2) VConfig v' by (simp add: unat_of_nat)
  with wf assms(4) pairs_inj [of "length kvs" kvs kvs' "[]" "[]"] VConfig v' show ?thesis by simp
qed (use assms val_tag_cases [of v'] in auto)


subsection \<open>Pools outlived by the records\<close>

text \<open>Parsing the records of a stream one after another, keeping them all, as the consumers of a walk may.\<close>

fun parse_all :: "dtl_tlv list \<Rightarrow> dtl_record list wm" where
  "parse_all [] = wret []"
| "parse_all (t # ts) = wbind (dtl_record_parse t) (\<lambda>r. wbind (parse_all ts) (\<lambda>rs. wret (r # rs)))"

definition view_first :: "dtl_record list res \<times> world \<Rightarrow> rec_val res" where
  "view_first rw = (case rw of (Ok (r # rs), w) \<Rightarrow> record_view (w_mem w) r | _ \<Rightarrow> Err DTL_ERR_BADRECORD)"

definition fresh_world :: world where
  "fresh_world = (world_init (mem_init (\<lambda>_ _. False)))\<lparr>w_arena := dtl_arena_init 64\<rparr>"

lemma fresh_world_ok: "world_ok fresh_world"
  using arena_init_ok [of "mem_init (\<lambda>_ _. False)" 64]
  by (simp add: fresh_world_def world_ok_def world_init_def pools_init_def pools_ok_def pool_blocks_def)

text \<open>Evaluation of the parsers on concrete input.\<close>

lemmas world_run = wbind_def wret_def wfail_def wlift_def w_malloc_def w_free_def w_store_def w_pools_upd_def
  w_read_bytes_def w_arena_alloc_def c_malloc_def c_free_def load_bytes_def load_cstr_def store_bytes_def
  fresh_world_def world_init_def mem_init_def pools_init_def Let_def

lemmas arena_run = dtl_arena_alloc_def dtl_arena_init_def dtl_arena_reserve_slot_def dtl_arena_align_up_def
  DTL_ARENA_ALIGN_def DTL_ARENA_DEFAULT_BLOCK_def DTL_ARENA_MIN_BLOCKS_def SIZE_MAX_def sizeof_arena_block_def
  arena_last_fits_def

lemmas buf_run = dtl_buf_init_def dtl_buf_read_u8_def dtl_buf_read_u16_def dtl_buf_read_u32_def
  dtl_buf_read_bytes_def dtl_buf_remaining_def buf_len_def dtl_endian_read_u16le_def dtl_endian_read_u32le_def
  dtl_endian_write_u16le_def dtl_endian_write_u32le_def

lemmas record_run = world_run arena_run buf_run deref_bytes_def dtl_record_parse_def rec_tlv_def rec_tags wmap_def
  dtl_keyref_parse_def dtl_keyref_label_alloc_def dtl_sensor_parse_def dtl_sensor_samples_alloc_def
  dtl_config_parse_def dtl_config_pool_recycle_def dtl_config_read_str_def dtl_config_str_pool_def
  sizeof_config_pair_def pair_bytes_def dtl_heartbeat_parse_def


text \<open>A KEYREF record parsed in the fresh world.\<close>

definition keyref_rec :: dtl_record where
  "keyref_rec = RKeyref \<lparr>kr_slot_id = 1, kr_label_len = 1, kr_label = Some (0, 0), kr_redacted = 0\<rparr>"

definition keyref_world :: world where
  "keyref_world = snd (dtl_record_parse (rec_tlv (VKeyref 1 [65])) fresh_world)"

lemma keyref_run:
  "dtl_record_parse (rec_tlv (VKeyref 1 [65])) fresh_world = (Ok keyref_rec, keyref_world)"
  by (simp add: keyref_world_def keyref_rec_def record_run)

lemma keyref_world_ok: "world_ok keyref_world"
  using wpost_facts(2) [OF wvalidD [OF record_parse_valid [of "rec_tlv (VKeyref 1 [65])"] fresh_world_ok TrueI]] keyref_run
  by simp

lemma keyref_rec_view: "record_view (w_mem keyref_world) keyref_rec = Ok (VKeyref 1 [65])"
  by (simp add: keyref_world_def keyref_rec_def record_run)

text \<open>Witnesses: a HEARTBEAT record.\<close>

lemma heartbeat_run:
  "dtl_record_parse (rec_tlv (VHeartbeat \<lparr>hb_uptime_s = 5, hb_seq = 7\<rparr>)) fresh_world =
     (Ok (RHeartbeat \<lparr>hb_uptime_s = 5, hb_seq = 7\<rparr>), fresh_world)"
  by (simp add: record_run)

theorem record_parse_memory_safe_witness:
  "world_ok (snd (dtl_record_parse (rec_tlv (VHeartbeat \<lparr>hb_uptime_s = 5, hb_seq = 7\<rparr>)) fresh_world))"
  using record_parse_memory_safe [OF fresh_world_ok heartbeat_run] heartbeat_run by simp

theorem record_parse_sound_witness:
  "\<exists>v. val_wf v \<and> val_tag v = DTL_REC_HEARTBEAT \<and>
     payload_of v = payload_of (VHeartbeat \<lparr>hb_uptime_s = 5, hb_seq = 7\<rparr>)"
  using record_parse_sound [OF fresh_world_ok heartbeat_run] by auto


end
