(* ===== verification/Crypto_Hash.thy ===== *)
theory Crypto_Hash
  imports Core_Endian
begin

text \<open>
  \<^verbatim>\<open>src/crypto/hash.c\<close> and \<^verbatim>\<open>src/crypto/kdf.c\<close>: the keyed sponge that signs containers and derives
  the device key.  The byte-wise absorber is shown equal to a reference sponge over padded 16-byte
  blocks, and to write all 32 output bytes; the step the source calls the state permutation is shown
  not to be one.
\<close>

unbundle bit_operations_syntax

definition DTL_HASH_ROUNDS :: nat where "DTL_HASH_ROUNDS = 12"
definition DTL_HASH_RATE :: nat where "DTL_HASH_RATE = 16"

definition DTL_HASH_IV :: "u32 list" where
  "DTL_HASH_IV = [0xA3C59AC1, 0x1B36E2D7, 0x5F0B4E13, 0xE7C6A882,
                  0x3D9F71C4, 0x8A2B5E6F, 0x60D1F0A5, 0xC4E7B3D2]"

definition DTL_HASH_RC :: "u32 list" where
  "DTL_HASH_RC = [0x9E3779B9, 0x243F6A88, 0xB7E15162, 0x85EBCA6B,
                  0xC2B2AE35, 0x27D4EB2F, 0x165667B1, 0xD3A2646C]"

definition DTL_HASH_ROT :: "nat list" where
  "DTL_HASH_ROT = [7, 11, 13, 17, 19, 23, 29, 31]"

definition dtl_hash_rotl :: "u32 \<Rightarrow> nat \<Rightarrow> u32" where
  "dtl_hash_rotl x r = (push_bit r x) OR (drop_bit (32 - r) x)"

text \<open>The lanes of the state are a list of eight words; \<open>& 7u\<close> is \<open>mod 8\<close>.\<close>

definition hash_mix_lane :: "nat \<Rightarrow> u32 list \<Rightarrow> nat \<Rightarrow> u32 list" where
  "hash_mix_lane round s i =
     (let s = s[i := s ! i + s ! ((i + 1) mod 8)];
          s = s[i := s ! i XOR DTL_HASH_RC ! ((round + i) mod 8)]
      in s[i := dtl_hash_rotl (s ! i) (DTL_HASH_ROT ! i)])"

definition hash_diffuse :: "u32 list \<Rightarrow> u32 list" where
  "hash_diffuse s =
     (let t0 = s ! 0;
          s = foldl (\<lambda>s i. s[i := s ! i XOR dtl_hash_rotl (s ! (i + 1)) 7]) s [0..<7]
      in s[7 := s ! 7 XOR dtl_hash_rotl t0 7])"

definition hash_round :: "u32 list \<Rightarrow> nat \<Rightarrow> u32 list" where
  "hash_round s round = hash_diffuse (foldl (hash_mix_lane round) s [0..<8])"

definition dtl_hash_permute :: "u32 list \<Rightarrow> u32 list" where
  "dtl_hash_permute s = foldl hash_round s [0..<DTL_HASH_ROUNDS]"

text \<open>
  The context.  The block is the bytes stored since it was last emptied, so \<open>bpos\<close> is its length; the
  bytes behind it are never read before they are written again.
\<close>

record dtl_hash_ctx =
  hc_s :: "u32 list"
  hc_block :: "u8 list"

definition dtl_hash_init :: dtl_hash_ctx where
  "dtl_hash_init = \<lparr>hc_s = map (\<lambda>i. DTL_HASH_IV ! i) [0..<8], hc_block = []\<rparr>"

fun hash_xor_lanes :: "nat list \<Rightarrow> u8 list \<Rightarrow> u32 list \<Rightarrow> u32 list res" where
  "hash_xor_lanes [] block s = Ok s"
| "hash_xor_lanes (j # js) block s =
     rbind (dtl_endian_read_u32le (drop (j * 4) block)) (\<lambda>v. hash_xor_lanes js block (s[j := s ! j XOR v]))"

definition dtl_hash_absorb_block :: "dtl_hash_ctx \<Rightarrow> dtl_hash_ctx res" where
  "dtl_hash_absorb_block c =
     rbind (hash_xor_lanes [0..<4] (hc_block c) (hc_s c)) (\<lambda>s. Ok (c\<lparr>hc_s := dtl_hash_permute s\<rparr>))"

definition dtl_hash_absorb :: "u8 \<Rightarrow> dtl_hash_ctx \<Rightarrow> dtl_hash_ctx res" where
  "dtl_hash_absorb b c =
     rbind (put_byte DTL_HASH_RATE (hc_block c) b) (\<lambda>block.
     let c = c\<lparr>hc_block := block\<rparr>
     in if length block = DTL_HASH_RATE
        then rbind (dtl_hash_absorb_block c) (\<lambda>c. Ok (c\<lparr>hc_block := []\<rparr>)) else Ok c)"

definition dtl_hash_finish :: "dtl_hash_ctx \<Rightarrow> u8 list res" where
  "dtl_hash_finish c =
     rbind (put_byte DTL_HASH_RATE (hc_block c) 0x01) (\<lambda>block.
     let block = block @ replicate (DTL_HASH_RATE - length block) 0x00
     in rbind (dtl_hash_absorb_block (c\<lparr>hc_block := block\<rparr>)) (\<lambda>c.
        let out = concat (map (\<lambda>j. dtl_endian_write_u32le (hc_s c ! j)) [0..<4]);
            s = dtl_hash_permute (hc_s c)
        in Ok (out @ concat (map (\<lambda>j. dtl_endian_write_u32le (s ! j)) [0..<4]))))"

definition dtl_hash_mac :: "u8 list \<Rightarrow> u8 list \<Rightarrow> u8 list res" where
  "dtl_hash_mac key msg =
     (let klen = (of_nat (length key) :: u64)
      in rbind (rfold (\<lambda>i c. dtl_hash_absorb (ucast (drop_bit (8 * i) klen)) c) [0..<8] dtl_hash_init) (\<lambda>c.
         rbind (rfold dtl_hash_absorb key c) (\<lambda>c.
         rbind (rfold dtl_hash_absorb msg c) dtl_hash_finish)))"

definition DTL_KDF_LABEL :: "u8 list" where
  "DTL_KDF_LABEL = map (\<lambda>c. of_nat (of_char c)) ''DTL-DEVICE-KEY-v1''"

definition dtl_kdf_derive :: "u8 list \<Rightarrow> u8 list res" where
  "dtl_kdf_derive seed = dtl_hash_mac seed DTL_KDF_LABEL"

subsection \<open>The reference sponge\<close>

definition block_lanes :: "u8 list \<Rightarrow> u32 list" where
  "block_lanes block = map (\<lambda>j. ucast (block ! (4 * j)) OR push_bit 8 (ucast (block ! (4 * j + 1))) OR
     push_bit 16 (ucast (block ! (4 * j + 2))) OR push_bit 24 (ucast (block ! (4 * j + 3)))) [0..<4]"

definition sponge_absorb :: "u32 list \<Rightarrow> u8 list \<Rightarrow> u32 list" where
  "sponge_absorb s block = dtl_hash_permute (map2 (XOR) (take 4 s) (block_lanes block) @ drop 4 s)"

fun sponge :: "u32 list \<Rightarrow> u8 list list \<Rightarrow> u32 list" where
  "sponge s [] = s"
| "sponge s (b # bs) = sponge (sponge_absorb s b) bs"

function chunks :: "u8 list \<Rightarrow> u8 list list" where
  "chunks xs = (if length xs < 16 then [] else take 16 xs # chunks (drop 16 xs))"
  by pat_completeness auto
termination by (relation "measure length") auto

declare chunks.simps [simp del]

definition pad10 :: "u8 list \<Rightarrow> u8 list" where
  "pad10 xs = xs @ 1 # replicate (15 - length xs mod 16) 0"

definition squeeze :: "u32 list \<Rightarrow> u8 list" where
  "squeeze s = concat (map dtl_endian_write_u32le (take 4 s)) @
     concat (map dtl_endian_write_u32le (take 4 (dtl_hash_permute s)))"

definition mac_input :: "u8 list \<Rightarrow> u8 list \<Rightarrow> u8 list" where
  "mac_input key msg = dtl_endian_write_u64le (of_nat (length key)) @ key @ msg"

definition mac_ref :: "u8 list \<Rightarrow> u8 list \<Rightarrow> u8 list" where
  "mac_ref key msg = squeeze (sponge DTL_HASH_IV (chunks (pad10 (mac_input key msg))))"

subsection \<open>The state keeps its eight lanes\<close>

lemma length_mix_lane [simp]: "length (hash_mix_lane r s i) = length s"
  by (simp add: hash_mix_lane_def Let_def)

lemma foldl_length:
  "(\<And>s x. length (f s x) = length s) \<Longrightarrow> length (foldl f s xs) = length s"
  by (induction xs arbitrary: s) auto

lemma length_permute [simp]: "length (dtl_hash_permute s) = length s"
proof -
  have "length (hash_round s r) = length s" for s r
    by (simp add: hash_round_def hash_diffuse_def Let_def foldl_length)
  then show ?thesis by (simp add: dtl_hash_permute_def foldl_length)
qed

lemma length_sponge_absorb [simp]: "length s = 8 \<Longrightarrow> length (sponge_absorb s b) = 8"
  by (simp add: sponge_absorb_def block_lanes_def)

lemma length_sponge: "length s = 8 \<Longrightarrow> length (sponge s bs) = 8"
  by (induction bs arbitrary: s) auto

lemma length8E:
  assumes "length s = 8"
  obtains a b c d e f g h where "s = [a, b, c, d, e, f, g, h]"
  using assms by (auto simp: length_Suc_conv numeral_eq_Suc)

lemma xor_lanes_full:
  assumes "length block = 16" "length s = 8"
  shows "hash_xor_lanes [0..<4] block s = Ok (map2 (XOR) (take 4 s) (block_lanes block) @ drop 4 s)"
proof -
  have r: "dtl_endian_read_u32le (drop (4 * j) block) = Ok (block_lanes block ! j)" if "j < 4" for j
    using assms(1) that by (simp add: dtl_endian_read_u32le_def block_lanes_def)
  have u: "[0..<4] = [0, 1, 2, 3 :: nat]" by (simp add: upt_rec)
  obtain a b c d e f g h where s: "s = [a, b, c, d, e, f, g, h]" using assms(2) by (rule length8E)
  have "block_lanes block = map (\<lambda>j. block_lanes block ! j) [0..<4]"
    by (rule nth_equalityI) (simp_all add: block_lanes_def)
  also have "\<dots> = [block_lanes block ! 0, block_lanes block ! 1, block_lanes block ! 2, block_lanes block ! 3]"
    by (simp add: u)
  finally have bl: "block_lanes block = \<dots>" .
  have "map2 (XOR) (take 4 s) (block_lanes block) =
      [a XOR block_lanes block ! 0, b XOR block_lanes block ! 1, c XOR block_lanes block ! 2, d XOR block_lanes block ! 3]"
    by (subst bl) (simp add: s)
  then show ?thesis
    using r [of 0] r [of 1] r [of 2] r [of 3] by (simp add: s u)
qed

lemma absorb_block_full:
  "length (hc_block c) = 16 \<Longrightarrow> length (hc_s c) = 8 \<Longrightarrow>
   dtl_hash_absorb_block c = Ok (c\<lparr>hc_s := sponge_absorb (hc_s c) (hc_block c)\<rparr>)"
  by (simp add: dtl_hash_absorb_block_def xor_lanes_full sponge_absorb_def)

text \<open>What the context holds after absorbing \<open>xs\<close> from the start.\<close>

definition absorbed :: "u8 list \<Rightarrow> dtl_hash_ctx" where
  "absorbed xs = \<lparr>hc_s = sponge DTL_HASH_IV (chunks xs), hc_block = drop (16 * (length xs div 16)) xs\<rparr>"

lemma chunks_append: "length xs mod 16 = 0 \<Longrightarrow> chunks (xs @ ys) = chunks xs @ chunks ys"
proof (induction xs rule: chunks.induct)
  case (1 xs)
  show ?case
  proof (cases "length xs < 16")
    case True
    with 1(2) have "xs = []" by simp
    then show ?thesis by (simp add: chunks.simps [of "[]"])
  next
    case False
    with 1 have "chunks (drop 16 xs @ ys) = chunks (drop 16 xs) @ chunks ys"
      by (simp add: le_mod_geq)
    with False show ?thesis
      by (simp add: chunks.simps [of "xs @ ys"] chunks.simps [of xs])
  qed
qed

lemma chunks_short: "length xs < 16 \<Longrightarrow> chunks xs = []"
  by (simp add: chunks.simps)

lemma chunks_16: "length xs = 16 \<Longrightarrow> chunks xs = [xs]"
  by (simp add: chunks.simps [of xs] chunks_short)

lemma sponge_append: "sponge s (xs @ ys) = sponge (sponge s xs) ys"
  by (induction xs arbitrary: s) auto

lemma split_tail:
  obtains h t where "xs = h @ t" "length h mod 16 = 0" "length t < 16" "length t = length xs mod 16"
proof
  let ?n = "16 * (length xs div 16)"
  have l: "length (take ?n xs) = ?n" by simp
  show "xs = take ?n xs @ drop ?n xs" by simp
  show "length (take ?n xs) mod 16 = 0" unfolding l by simp
  show t: "length (drop ?n xs) = length xs mod 16" by (simp add: minus_mult_div_eq_mod)
  show "length (drop ?n xs) < 16" unfolding t by simp
qed

lemma length_iv: "length DTL_HASH_IV = 8"
  by (simp add: DTL_HASH_IV_def)

lemma absorbed_split:
  assumes "length h mod 16 = 0" "length t < 16"
  shows "absorbed (h @ t) = \<lparr>hc_s = sponge DTL_HASH_IV (chunks h), hc_block = t\<rparr>"
proof -
  have "16 * (length (h @ t) div 16) = length h"
    using assms by (simp add: div_add1_eq [of "length h"] dvd_eq_mod_eq_0 [symmetric])
  then show ?thesis using chunks_append [OF assms(1), of t] chunks_short [OF assms(2)] by (simp add: absorbed_def)
qed

lemma absorb_step: "dtl_hash_absorb b (absorbed xs) = Ok (absorbed (xs @ [b]))"
proof -
  obtain h t where x: "xs = h @ t" "length h mod 16 = 0" "length t < 16" by (rule split_tail)
  have s8: "length (sponge DTL_HASH_IV (chunks h)) = 8" by (simp add: length_sponge length_iv)
  show ?thesis
  proof (cases "length t = 15")
    case True
    have m: "length (h @ t @ [b]) mod 16 = 0" using x(2) True by (simp add: mod_add_left_eq [symmetric] mod_simps)
    have "absorbed ((h @ t @ [b]) @ []) = \<lparr>hc_s = sponge DTL_HASH_IV (chunks (h @ t @ [b])), hc_block = []\<rparr>"
      by (rule absorbed_split [OF m]) simp
    moreover have "chunks (h @ t @ [b]) = chunks h @ [t @ [b]]"
      using chunks_append [OF x(2), of "t @ [b]"] chunks_16 [of "t @ [b]"] True by simp
    ultimately show ?thesis
      unfolding x(1) absorbed_split [OF x(2,3)]
      using True s8 by (simp add: dtl_hash_absorb_def DTL_HASH_RATE_def absorb_block_full sponge_append)
  next
    case False
    then have l: "length (t @ [b]) < 16" using x(3) by simp
    show ?thesis
      unfolding x(1) append_assoc absorbed_split [OF x(2,3)] absorbed_split [OF x(2) l]
      using False x(3) by (simp add: dtl_hash_absorb_def DTL_HASH_RATE_def)
  qed
qed

lemma absorb_all: "rfold dtl_hash_absorb ys (absorbed xs) = Ok (absorbed (xs @ ys))"
  by (induction ys arbitrary: xs) (simp_all add: absorb_step)

lemma absorb_init: "dtl_hash_init = absorbed []"
proof -
  have "map (\<lambda>i. DTL_HASH_IV ! i) [0..<8] = DTL_HASH_IV"
    using map_nth [of DTL_HASH_IV] by (simp add: length_iv)
  then show ?thesis by (simp add: dtl_hash_init_def absorbed_def chunks_short)
qed

lemma map_take_nth: "n \<le> length s \<Longrightarrow> map (\<lambda>j. f (s ! j)) [0..<n] = map f (take n s)"
  by (rule nth_equalityI) auto

lemma finish_absorbed: "dtl_hash_finish (absorbed xs) = Ok (squeeze (sponge DTL_HASH_IV (chunks (pad10 xs))))"
proof -
  obtain h t where x: "xs = h @ t" "length h mod 16 = 0" "length t < 16" "length t = length xs mod 16"
    by (rule split_tail)
  have s8: "length (sponge DTL_HASH_IV (chunks h)) = 8" by (simp add: length_sponge length_iv)
  let ?b = "t @ 1 # replicate (15 - length t) 0"
  have b: "length ?b = 16" using x(3) by simp
  have "pad10 xs = h @ ?b" unfolding pad10_def x(4) [symmetric] by (simp add: x(1))
  then have "chunks (pad10 xs) = chunks h @ [?b]"
    using chunks_append [OF x(2), of ?b] chunks_16 [OF b] by simp
  then have sp: "sponge DTL_HASH_IV (chunks (pad10 xs)) = sponge_absorb (sponge DTL_HASH_IV (chunks h)) ?b"
    by (simp add: sponge_append)
  have l8: "length (sponge_absorb (sponge DTL_HASH_IV (chunks h)) ?b) = 8" using s8 by simp
  show ?thesis
    unfolding squeeze_def sp unfolding x(1) absorbed_split [OF x(2,3)] using x(3) s8 b l8
    by (simp add: dtl_hash_finish_def DTL_HASH_RATE_def absorb_block_full Let_def
        map_take_nth [where f = dtl_endian_write_u32le])
qed

lemma rfold_map: "rfold (\<lambda>x. f (g x)) xs s = rfold f (map g xs) s"
proof (induction xs arbitrary: s)
  case (Cons a xs)
  then show ?case by (cases "f (g a) s") simp_all
qed simp

lemma klen_bytes: "map (\<lambda>i. ucast (drop_bit (8 * i) (v :: u64))) [0..<8] = dtl_endian_write_u64le v"
  by (simp add: upt_rec dtl_endian_write_u64le_def ucast_and_ff)

lemma mac_defined:
  "dtl_hash_mac key msg = Ok (mac_ref key msg)"
  "length (mac_ref key msg) = 32"
proof -
  show "dtl_hash_mac key msg = Ok (mac_ref key msg)"
    unfolding dtl_hash_mac_def Let_def rfold_map [of dtl_hash_absorb "\<lambda>i. ucast (drop_bit (8 * i) (of_nat (length key) :: u64))"]
      klen_bytes absorb_init
    by (simp add: absorb_all finish_absorbed mac_ref_def mac_input_def)
  have l: "length (concat (map dtl_endian_write_u32le (take 4 s))) = 16" if "length s = 8" for s :: "u32 list"
    using that by (auto simp: length_concat comp_def sum_list_triv)
  show "length (mac_ref key msg) = 32"
    by (simp add: mac_ref_def squeeze_def l length_sponge length_iv)
qed

text \<open>
  C14. The byte-wise MAC is the sponge over the padded blocks of \<open>len64(key) || key || message\<close>: for every
  key and message it is defined, and it writes exactly 32 bytes.
\<close>

theorem hash_mac_is_sponge:
  "dtl_hash_mac key msg = Ok (mac_ref key msg) \<and> length (mac_ref key msg) = 32"
  by (simp add: mac_defined)

subsection \<open>The state step loses information\<close>

text \<open>
  The step called a state permutation is not injective: the diffusion of a round sends a state and its
  complement to the same state, so two different states end in the same one after the first of the twelve
  rounds.
\<close>

theorem hash_permute_not_injective:
  "\<exists>s s'. length s = 8 \<and> length s' = 8 \<and> s \<noteq> s' \<and> dtl_hash_permute s = dtl_hash_permute s'"
proof -
  let ?s = "[0x897f5c73, 0x14b81d46, 0xf874d42, 0xa85a0420, 0xdd91c64b, 0xe520e7ea, 0x42b40345, 0xd3a2646c] :: u32 list"
  let ?s' = "[0x7680a38c, 0xeb47e2ba, 0xf078b2bd, 0x57a5fbe0, 0x226e39b4, 0x1adf1816, 0xbd4bfcba, 0x2c5d9b94] :: u32 list"
  have "hash_round ?s 0 = hash_round ?s' 0"
    by (simp add: hash_round_def hash_mix_lane_def hash_diffuse_def upt_rec dtl_hash_rotl_def Let_def
        DTL_HASH_RC_def DTL_HASH_ROT_def)
  moreover have "[0..<DTL_HASH_ROUNDS] = 0 # [1..<12]" by (simp add: DTL_HASH_ROUNDS_def upt_rec)
  ultimately have "dtl_hash_permute ?s = dtl_hash_permute ?s'" by (simp add: dtl_hash_permute_def)
  then show ?thesis by (intro exI [of _ ?s] exI [of _ ?s']) simp
qed

end
