(* ===== verification/Crypto_Redact.thy ===== *)
theory Crypto_Redact
  imports Crypto_Hash Records_Registry
begin

text \<open>
  \<^verbatim>\<open>src/crypto/keystore.c\<close>, \<^verbatim>\<open>build_key.c\<close> and \<^verbatim>\<open>redact.c\<close>: the keystore derived from the build
  seed, and the pass that strips secrets from parsed records before they are printed.  The seed itself
  is generated at build time and is a parameter.
\<close>

definition DTL_KEYSTORE_SLOTS :: nat where "DTL_KEYSTORE_SLOTS = 8"
definition DTL_KEYSTORE_KEYLEN :: nat where "DTL_KEYSTORE_KEYLEN = 32"

record dtl_keyslot =
  slot_data :: "u8 list"
  slot_len :: u8
  slot_used :: u8

record dtl_keystore =
  ks_device_key :: "u8 list"
  ks_slots :: "dtl_keyslot list"

definition dtl_keystore_init :: "u8 list \<Rightarrow> dtl_keystore res" where
  "dtl_keystore_init seed =
     rbind (dtl_kdf_derive seed) (\<lambda>key.
     Ok \<lparr>ks_device_key = key,
         ks_slots = replicate DTL_KEYSTORE_SLOTS
           \<lparr>slot_data = replicate DTL_KEYSTORE_KEYLEN 0, slot_len = 0, slot_used = 0\<rparr>\<rparr>)"

definition dtl_keystore_init_default :: "u8 list \<Rightarrow> dtl_keystore res" where
  "dtl_keystore_init_default build_seed = dtl_keystore_init build_seed"

text \<open>The data of a slot; \<open>None\<close> is the null pointer.\<close>

definition dtl_keystore_slot :: "dtl_keystore \<Rightarrow> u8 \<Rightarrow> u8 list option res" where
  "dtl_keystore_slot ks slot_id =
     (if unat slot_id \<ge> DTL_KEYSTORE_SLOTS then Ok None
      else rbind (byte_at (ks_slots ks) (unat slot_id)) (\<lambda>slot.
        if slot_used slot = 0 then Ok None else Ok (Some (slot_data slot))))"

definition DTL_REDACT_SENSITIVE_SUBSYS_MIN :: u16 where "DTL_REDACT_SENSITIVE_SUBSYS_MIN = 0xFF00"

definition dtl_redact_subsys_sensitive :: "u16 \<Rightarrow> bool" where
  "dtl_redact_subsys_sensitive subsystem \<longleftrightarrow> subsystem \<ge> DTL_REDACT_SENSITIVE_SUBSYS_MIN"

definition zero_bytes :: "addr option \<Rightarrow> nat \<Rightarrow> unit wm" where
  "zero_bytes p n = (case p of None \<Rightarrow> wret () | Some p \<Rightarrow> if n = 0 then wret () else w_store p (replicate n 0))"

definition redact_keyref :: "dtl_keyref \<Rightarrow> dtl_record wm" where
  "redact_keyref k =
     wbind (zero_bytes (kr_label k) (unat (kr_label_len k))) (\<lambda>_.
     wret (RKeyref (k\<lparr>kr_label_len := 0, kr_redacted := 1\<rparr>)))"

fun dtl_redact_record :: "dtl_record \<Rightarrow> dtl_record wm" where
  "dtl_redact_record (RKeyref k) = redact_keyref k"
| "dtl_redact_record (RDiag d) =
     (if dtl_redact_subsys_sensitive (dg_subsystem d)
      then wbind (zero_bytes (dg_blob d) (unat (dg_blob_len d))) (\<lambda>_.
           wret (RDiag (d\<lparr>dg_blob_len := 0, dg_redacted := 1\<rparr>)))
      else wret (RDiag d))"
| "dtl_redact_record r = wret r"

fun dtl_redact_record_ks :: "dtl_record \<Rightarrow> dtl_keystore \<Rightarrow> dtl_record wm" where
  "dtl_redact_record_ks (RKeyref k) ks =
     wbind (wlift (dtl_keystore_slot ks (kr_slot_id k))) (\<lambda>slot.
     case slot of None \<Rightarrow> wret (RKeyref k) | Some _ \<Rightarrow> redact_keyref k)"
| "dtl_redact_record_ks r ks = dtl_redact_record r"

fun dtl_redact_records :: "dtl_record list \<Rightarrow> dtl_record list wm" where
  "dtl_redact_records [] = wret []"
| "dtl_redact_records (r # rs) =
     wbind (dtl_redact_record r) (\<lambda>r. wbind (dtl_redact_records rs) (\<lambda>rs. wret (r # rs)))"

subsection \<open>What may be printed\<close>

fun redact_val :: "rec_val \<Rightarrow> rec_val" where
  "redact_val (VKeyref s l) = VKeyref s []"
| "redact_val (VDiag c bs) = VDiag c (if 0xFF00 \<le> c then [] else bs)"
| "redact_val v = v"

text \<open>The secret a record points to, with its length.\<close>

fun secret :: "dtl_record \<Rightarrow> (addr \<times> nat) option" where
  "secret (RKeyref k) = (case kr_label k of Some p \<Rightarrow> if kr_label_len k = 0 then None else Some (p, unat (kr_label_len k)) | None \<Rightarrow> None)"
| "secret (RDiag d) = (case dg_blob d of
     Some p \<Rightarrow> if dg_blob_len d = 0 \<or> dg_subsystem d < 0xFF00 then None else Some (p, unat (dg_blob_len d)) | None \<Rightarrow> None)"
| "secret r = None"

definition wiped :: "dtl_record \<Rightarrow> world \<Rightarrow> bool" where
  "wiped r w \<longleftrightarrow> (case secret r of None \<Rightarrow> True | Some (p, n) \<Rightarrow> load_bytes (w_mem w) p n = Ok (replicate n 0))"

lemma unat_word_0 [simp]: "unat (x :: 'a :: len word) = 0 \<longleftrightarrow> x = 0"
  by (rule unat_eq_zero)

lemma zero_bytes_post:
  assumes "world_ok w" "deref_bytes (w_mem w) p n = Ok bs"
  shows "\<exists>w'. zero_bytes p n w = (Ok (), w') \<and> world_ok w' \<and>
    (\<forall>q. p = Some q \<longrightarrow> n \<noteq> 0 \<longrightarrow> load_bytes (w_mem w') q n = Ok (replicate n 0))"
proof (cases "p = None \<or> n = 0")
  case True
  with assms(1) show ?thesis by (auto simp: zero_bytes_def wret_def split: option.splits)
next
  case False
  then obtain q where q: "p = Some q" and n: "n \<noteq> 0" by auto
  have l: "load_bytes (w_mem w) q n = Ok bs" using assms(2) q n by (simp add: deref_bytes_def)
  then have r: "region_ok (w_mem w) q (length (replicate n (0 :: u8)))" using load_bytes_region by simp
  have "fst (w_store q (replicate n 0) w) = Ok () \<and> world_ok (snd (w_store q (replicate n 0) w)) \<and>
    load_bytes (w_mem (snd (w_store q (replicate n 0) w))) q n = Ok (replicate n 0)"
  proof -
    obtain m where m: "store_bytes (w_mem w) q (replicate n 0) = Ok m" using r store_bytes_Ok_iff by blast
    then have "w_store q (replicate n 0) w = (Ok (), w\<lparr>w_mem := m\<rparr>)" by (simp add: w_store_def)
    with wpost_facts(2) [OF wpost_store [OF assms(1) r]] load_store_same [OF m] show ?thesis by simp
  qed
  with q n show ?thesis by (cases "w_store q (replicate n 0) w") (auto simp: zero_bytes_def)
qed

lemma redact_keyref_post:
  assumes "world_ok w" "record_view (w_mem w) (RKeyref k) = Ok v"
  shows "\<exists>r' w'. redact_keyref k w = (Ok r', w') \<and> world_ok w' \<and>
    record_view (w_mem w') r' = Ok (redact_val v) \<and> wiped (RKeyref k) w'"
proof -
  obtain bs where bs: "deref_bytes (w_mem w) (kr_label k) (unat (kr_label_len k)) = Ok bs" "v = VKeyref (kr_slot_id k) bs"
    using assms(2) by (auto simp: rbind_eq_Ok_iff)
  from zero_bytes_post [OF assms(1) bs(1)] bs(2) show ?thesis
    by (auto simp: redact_keyref_def wbind_def wret_def deref_bytes_def wiped_def split: option.splits if_splits)
qed

text \<open>
  C15. Redaction on a record whose pointers are live has no undefined behaviour, leaves the record reading as
  its value without key labels and sensitive blobs, and overwrites the secret bytes themselves with zeros.
\<close>

theorem redact_record_strips:
  assumes "world_ok w" "record_view (w_mem w) r = Ok v"
  shows "\<exists>r' w'. dtl_redact_record r w = (Ok r', w') \<and> world_ok w' \<and>
    record_view (w_mem w') r' = Ok (redact_val v) \<and> wiped r w'"
proof (cases r)
  case (RKeyref k)
  with redact_keyref_post [of w k v] assms show ?thesis by simp
next
  case (RDiag d)
  obtain bs where bs: "deref_bytes (w_mem w) (dg_blob d) (unat (dg_blob_len d)) = Ok bs" "v = VDiag (dg_subsystem d) bs"
    using assms(2) RDiag by (auto simp: rbind_eq_Ok_iff)
  from zero_bytes_post [OF assms(1) bs(1)] bs RDiag assms(1) show ?thesis
    by (auto simp: dtl_redact_subsys_sensitive_def DTL_REDACT_SENSITIVE_SUBSYS_MIN_def wbind_def wret_def
        deref_bytes_def wiped_def not_le split: option.splits if_splits)
qed (use assms in \<open>auto simp: wret_def wiped_def rbind_eq_Ok_iff\<close>)

theorem redact_record_strips_witness:
  "\<exists>r' w'. dtl_redact_record keyref_rec keyref_world = (Ok r', w') \<and>
    record_view (w_mem w') r' = Ok (VKeyref 1 []) \<and> load_bytes (w_mem w') (0, 0) 1 = Ok [0]"
  using redact_record_strips [OF keyref_world_ok keyref_rec_view] by (auto simp: wiped_def keyref_rec_def)

text \<open>The decode path keeps the label of a key reference whose slot is not in use.\<close>

definition slot_live :: "dtl_keystore \<Rightarrow> u8 \<Rightarrow> bool" where
  "slot_live ks s \<longleftrightarrow> unat s < 8 \<and> slot_used (ks_slots ks ! unat s) \<noteq> 0"

lemma keystore_slot_cases:
  assumes "length (ks_slots ks) = 8"
  shows "dtl_keystore_slot ks s = Ok (if slot_live ks s then Some (slot_data (ks_slots ks ! unat s)) else None)"
  using assms by (simp add: dtl_keystore_slot_def slot_live_def DTL_KEYSTORE_SLOTS_def)

fun redact_val_ks :: "dtl_keystore \<Rightarrow> rec_val \<Rightarrow> rec_val" where
  "redact_val_ks ks (VKeyref s l) = (if slot_live ks s then VKeyref s [] else VKeyref s l)"
| "redact_val_ks ks v = redact_val v"

text \<open>
  C16. The keystore-aware pass of the decode command strips a key label exactly when the slot it names is in
  use, and treats every other record as the plain pass does.
\<close>

theorem redact_record_ks_strips:
  assumes "world_ok w" "record_view (w_mem w) r = Ok v" "length (ks_slots ks) = 8"
  shows "\<exists>r' w'. dtl_redact_record_ks r ks w = (Ok r', w') \<and> world_ok w' \<and>
    record_view (w_mem w') r' = Ok (redact_val_ks ks v)"
proof (cases r)
  case (RKeyref k)
  obtain bs where "v = VKeyref (kr_slot_id k) bs" using assms(2) RKeyref by (auto simp: rbind_eq_Ok_iff)
  with redact_keyref_post [of w k v] assms RKeyref keystore_slot_cases [OF assms(3)] show ?thesis
    by (auto simp: wbind_def wlift_def wret_def)
next
  case (RDiag d)
  then obtain bs where "v = VDiag (dg_subsystem d) bs" using assms(2) by (auto simp: rbind_eq_Ok_iff)
  then have rv: "redact_val_ks ks v = redact_val v" by simp
  have "dtl_redact_record_ks r ks = dtl_redact_record r" using RDiag by simp
  moreover obtain bs where bs: "deref_bytes (w_mem w) (dg_blob d) (unat (dg_blob_len d)) = Ok bs" "v = VDiag (dg_subsystem d) bs"
    using assms(2) RDiag by (auto simp: rbind_eq_Ok_iff)
  ultimately show ?thesis
    using zero_bytes_post [OF assms(1) bs(1)] RDiag assms(1) unfolding rv
    by (auto simp: dtl_redact_subsys_sensitive_def DTL_REDACT_SENSITIVE_SUBSYS_MIN_def wbind_def wret_def
        deref_bytes_def not_le split: option.splits if_splits)
qed (use assms in \<open>auto simp: wret_def rbind_eq_Ok_iff\<close>)

definition one_live_slot :: dtl_keystore where
  "one_live_slot = \<lparr>ks_device_key = [], ks_slots = (replicate 8 \<lparr>slot_data = [], slot_len = 0, slot_used = 0\<rparr>)
     [1 := \<lparr>slot_data = [], slot_len = 0, slot_used = 1\<rparr>]\<rparr>"

lemma one_live_slot: "length (ks_slots one_live_slot) = 8" "slot_live one_live_slot 1"
  by (simp_all add: one_live_slot_def slot_live_def)

theorem redact_record_ks_strips_witness:
  "\<exists>r' w'. dtl_redact_record_ks keyref_rec one_live_slot keyref_world = (Ok r', w') \<and>
    record_view (w_mem w') r' = Ok (VKeyref 1 [])"
  using redact_record_ks_strips [OF keyref_world_ok keyref_rec_view one_live_slot(1)] one_live_slot(2) by auto

text \<open>
  A fresh keystore has a 32-byte device key and no slot in use: for every seed, looking up any slot id,
  in range or not, gives the null pointer and never reads outside the slot array.
\<close>

theorem keystore_init_empty:
  "\<exists>ks. dtl_keystore_init seed = Ok ks \<and> length (ks_device_key ks) = 32 \<and> length (ks_slots ks) = 8 \<and>
     (\<forall>s. dtl_keystore_slot ks s = Ok None)"
proof -
  have h: "dtl_kdf_derive seed = Ok (mac_ref seed DTL_KDF_LABEL)" "length (mac_ref seed DTL_KDF_LABEL) = 32"
    unfolding dtl_kdf_derive_def by (simp_all add: mac_defined)
  let ?ks = "\<lparr>ks_device_key = mac_ref seed DTL_KDF_LABEL, ks_slots = replicate DTL_KEYSTORE_SLOTS
           \<lparr>slot_data = replicate DTL_KEYSTORE_KEYLEN 0, slot_len = 0, slot_used = 0\<rparr>\<rparr>"
  have "dtl_keystore_init seed = Ok ?ks" by (simp add: dtl_keystore_init_def h)
  moreover have "dtl_keystore_slot ?ks s = Ok None" for s
    by (subst keystore_slot_cases) (simp_all add: slot_live_def DTL_KEYSTORE_SLOTS_def)
  ultimately show ?thesis using h by (simp add: DTL_KEYSTORE_SLOTS_def)
qed

end
