(* ===== verification/Codec_Errors.thy ===== *)
theory Codec_Errors
  imports Codec_Registry
begin

text \<open>
  The error codes of the encoders.  The caller in the writer tells \<open>DTL_ERR_RANGE\<close> from the others to
  decide whether to retry with a larger buffer.
\<close>

definition encode_errs :: "dtl_err set" where
  "encode_errs = {DTL_ERR_RANGE, DTL_ERR_TRUNCATED, DTL_ERR_OOM}"

lemma encode_errs [simp]: "DTL_ERR_RANGE \<in> encode_errs" "DTL_ERR_TRUNCATED \<in> encode_errs" "DTL_ERR_OOM \<in> encode_errs"
  "DTL_OK \<notin> encode_errs"
  by (simp_all add: encode_errs_def)

text \<open>Checked accesses fail with \<open>Ub\<close> only.\<close>

lemma access_no_err [simp]:
  "byte_at xs i \<noteq> Err e" "slice_at xs i n \<noteq> Err e" "put_byte cap out b \<noteq> Err e" "put_bytes cap out bs \<noteq> Err e"
  by (simp_all add: byte_at_def slice_at_def put_byte_def put_bytes_def)

lemma read_u32le_no_err [simp]: "dtl_endian_read_u32le xs \<noteq> Err e"
  by (auto simp: dtl_endian_read_u32le_def rbind_eq_Err_iff)

lemma rle_encode_err: "rle_encode_loop xs cap out = Err e \<Longrightarrow> e \<in> encode_errs"
  by (induction xs cap out rule: rle_encode_loop.induct) (auto simp: Let_def rbind_eq_Err_iff split: if_splits)

lemma varint_put_err: "varint_put v cap out = Err e \<Longrightarrow> e \<in> encode_errs"
proof (induction v arbitrary: out rule: measure_induct_rule [of unat])
  case (less v)
  show ?case
    using less.prems
    by (subst (asm) varint_put.simps) (auto simp: Let_def rbind_eq_Err_iff split: if_splits dest: less.IH [OF drop_bit7_less])
qed

lemma varint_encode_err: "varint_encode_loop xs cap out = Err e \<Longrightarrow> e \<in> encode_errs"
proof (induction xs cap out rule: varint_encode_loop.induct)
  case (1 xs cap out)
  show ?case
    using 1(2) by (subst (asm) varint_encode_loop.simps) (auto simp: rbind_eq_Err_iff split: if_splits dest: 1(1) varint_put_err)
qed

lemma delta_encode_err: "delta_encode_loop n xs prev cap out = Err e \<Longrightarrow> e \<in> encode_errs"
  by (induction n arbitrary: xs prev out) (auto simp: rbind_eq_Err_iff dest: varint_put_err)

lemma match_len_no_err: "lz77_match_len inp s p maxlen l \<noteq> Err e"
proof (induction inp s p maxlen l rule: lz77_match_len.induct)
  case (1 inp s p maxlen l)
  then show ?case by (subst lz77_match_len.simps) (auto simp: rbind_eq_Err_iff)
qed

lemma find_loop_no_err: "lz77_find_loop inp s p maxlen bl bo \<noteq> Err e"
proof (induction inp s p maxlen bl bo rule: lz77_find_loop.induct)
  case (1 inp s p maxlen bl bo)
  then show ?case by (subst lz77_find_loop.simps) (auto simp: rbind_eq_Err_iff match_len_no_err)
qed

lemma lz77_token_no_err: "lz77_token inp p grp tokens flag \<noteq> Err e"
  by (auto simp: lz77_token_def dtl_lz77_find_def Let_def rbind_eq_Err_iff find_loop_no_err split: if_splits)

lemma lz77_encode_err: "lz77_encode_loop inp cap p out grp tokens flag = Err e \<Longrightarrow> e \<in> encode_errs"
proof (induction p arbitrary: out grp tokens flag rule: measure_induct_rule [of "\<lambda>p. length inp - p"])
  case (less p)
  show ?case
  proof (cases "p < length inp")
    case True
    then obtain grp' flag' p' where t: "lz77_token inp p grp tokens flag = Ok (grp', flag', p')"
      using less.prems lz77_token_no_err [of inp p grp tokens flag]
      by (subst (asm) lz77_encode_loop.simps) (cases "lz77_token inp p grp tokens flag"; auto)
    note IH = less.IH [of p', OF diff_less_mono2 [OF lz77_token_progress [OF t] True]]
    show ?thesis
      using less.prems True t
      by (subst (asm) lz77_encode_loop.simps) (auto simp: rbind_eq_Err_iff lz77_flush_def split: if_splits dest: IH)
  next
    case False
    then show ?thesis using less.prems
      by (subst (asm) lz77_encode_loop.simps) (auto simp: lz77_flush_def split: if_splits)
  qed
qed

lemma base32_encode_err: "base32_encode_loop xs cap out = Err e \<Longrightarrow> e \<in> encode_errs"
proof (induction xs arbitrary: out rule: measure_induct_rule [of length])
  case (less xs)
  show ?case
  proof (cases "xs = []")
    case True
    then show ?thesis using less.prems by (simp add: base32_encode_loop.simps)
  next
    case False
    have IH: "base32_encode_loop (drop k xs) cap x = Err e \<Longrightarrow> e \<in> encode_errs" if "k \<noteq> 0" for k x
      by (rule less.IH) (use False that in auto)
    show ?thesis
      using less.prems False
      by (subst (asm) base32_encode_loop.simps)
        (auto simp: Let_def rbind_eq_Err_iff simp del: drop_all split: if_splits dest: IH [rotated])
  qed
qed

lemma dict_find_no_err: "dict_find inp off len es j \<noteq> Err e"
  by (induction inp off len es j rule: dict_find.induct) (auto simp: rbind_eq_Err_iff)

lemma dict_partition_err: "dict_partition inp n bi es ts = Err e \<Longrightarrow> e \<in> encode_errs"
proof (induction n arbitrary: bi es ts)
  case (Suc n)
  show ?case
    using Suc.prems
    by (auto simp: Let_def rbind_eq_Err_iff dict_find_no_err split: if_splits option.split_asm dest: Suc.IH)
qed simp

lemma dict_emit_table_err: "dict_emit_table inp es cap out = Err e \<Longrightarrow> e \<in> encode_errs"
  by (induction inp es cap out rule: dict_emit_table.induct) (auto simp: rbind_eq_Err_iff split: if_splits)

lemma dict_emit_tokens_err: "dict_emit_tokens ts cap out = Err e \<Longrightarrow> e \<in> encode_errs"
  by (induction ts cap out rule: dict_emit_tokens.induct) (auto simp: rbind_eq_Err_iff split: if_splits)

lemma dict_encode_err:
  assumes "mem_ok m" "fst (dtl_dict_encode m xs cap) = Err e"
  shows "e \<in> encode_errs"
  using assms(2) unfolding dict_encode_fst(1) [OF assms(1)]
  by (auto simp: dtl_dict_encode_impl_def Let_def dict_emit_def rbind_eq_Err_iff
      split: if_splits prod.splits dest: dict_partition_err dict_emit_table_err dict_emit_tokens_err)

lemma codec_encode_err:
  assumes "dtl_codec_get i = Some c" "mem_ok m" "fst (codec_encode c m xs cap) = Err e"
  shows "e \<in> encode_errs"
  using codec_get_Some [OF assms(1)] assms(2,3)
  by (auto simp: dtl_codec_table_def lift_coder_def dtl_store_encode_def dtl_store_copy_def dtl_rle_encode_def
      dtl_varint_encode_def dtl_lz77_encode_def dtl_delta_encode_def dtl_base32_encode_def rbind_eq_Err_iff Let_def
      split: if_splits
      dest: rle_encode_err varint_encode_err lz77_encode_err delta_encode_err base32_encode_err dict_encode_err)

end
