(* ===== verification/Writer.thy ===== *)
theory Writer
  imports Format_Container Format_Tlv Codec_Errors Records_Registry Crypto_Hash
begin

text \<open>
  \<^verbatim>\<open>src/writer/writer.c\<close>: the incremental encoder.  A writer call is a transformer of the world (heap
  and arena) that also maps the writer's fields; the error code it returns is a value, because the
  writer latches its first error in \<open>wr_err\<close> and goes on.

  The accumulator, the compressed blobs and the finished container are arena buffers that no one else
  writes, so their contents are kept in the writer as lists and only their allocation goes through the
  arena: \<open>wr_tlv\<close> is the \<open>tlv_len\<close> bytes in use and \<open>wr_cap\<close> the capacity; storing past the
  capacity is undefined.  The sections array holds \<open>nsections\<close> entries of at most 64.
\<close>

definition DTL_WRITER_MAX_SECTIONS :: nat where "DTL_WRITER_MAX_SECTIONS = 64"

record dtl_wsection =
  ws_type :: u16
  ws_codec_id :: u8
  ws_raw_len :: u32
  ws_comp_len :: u32
  ws_blob :: "u8 list"

record dtl_writer =
  wr_sections :: "dtl_wsection list"
  wr_in_section :: bool
  wr_cur_type :: u16
  wr_cur_codec :: u8
  wr_tlv :: "u8 list"
  wr_cap :: nat
  wr_has_hmac :: bool
  wr_hmac_key :: "u8 list"
  wr_err :: dtl_err

definition latch :: "dtl_err \<Rightarrow> dtl_writer \<Rightarrow> dtl_writer" where
  "latch e w = w\<lparr>wr_err := e\<rparr>"

subsection \<open>The accumulator\<close>

text \<open>
  The doubling loop.  The outer \<open>None\<close> of the C code's overflow test is \<open>Ok None\<close>; the fuel is more
  than the 64 doublings that exhaust \<open>size_t\<close>, and running out of it counts as undefined.
\<close>

fun writer_grow :: "nat \<Rightarrow> nat \<Rightarrow> nat \<Rightarrow> nat option res" where
  "writer_grow 0 newcap want = Ub"
| "writer_grow (Suc fuel) newcap want =
     (if newcap < want
      then if newcap > SIZE_MAX div 2 then Ok None else writer_grow fuel (newcap * 2) want
      else Ok (Some newcap))"

definition GROW_FUEL :: nat where "GROW_FUEL = 66"

definition dtl_writer_reserve :: "nat \<Rightarrow> dtl_writer \<Rightarrow> (bool \<times> dtl_writer) wm" where
  "dtl_writer_reserve need w =
     (if wr_err w \<noteq> DTL_OK then wret (False, w)
      else if size_sub (wr_cap w) (length (wr_tlv w)) \<ge> need then wret (True, w)
      else let want = (length (wr_tlv w) + need) mod 2 ^ 64
      in if want < length (wr_tlv w) then wret (False, latch DTL_ERR_RANGE w)
      else wbind (wlift (writer_grow GROW_FUEL (if wr_cap w \<noteq> 0 then wr_cap w else 64) want)) (\<lambda>g.
           case g of None \<Rightarrow> wret (False, latch DTL_ERR_OOM w)
           | Some newcap \<Rightarrow>
               wbind (w_arena_alloc newcap) (\<lambda>p.
               case p of None \<Rightarrow> wret (False, latch DTL_ERR_OOM w)
               | Some _ \<Rightarrow> wret (True, w\<lparr>wr_cap := newcap\<rparr>))))"

text \<open>Reserve, then copy the \<open>n\<close> bytes a source yields.\<close>

definition writer_append :: "nat \<Rightarrow> (mem \<Rightarrow> u8 list res) \<Rightarrow> dtl_writer \<Rightarrow> dtl_writer wm" where
  "writer_append n src w =
     wbind (dtl_writer_reserve n w) (\<lambda>(ok, w).
     if \<not> ok then wret w
     else (\<lambda>wd. wbind (wlift (src (w_mem wd))) (\<lambda>bs.
          wbind (wlift (put_bytes (wr_cap w) (wr_tlv w) bs)) (\<lambda>t. wret (w\<lparr>wr_tlv := t\<rparr>))) wd))"

definition dtl_writer_u8 :: "u8 \<Rightarrow> dtl_writer \<Rightarrow> dtl_writer wm" where
  "dtl_writer_u8 v = writer_append 1 (\<lambda>_. Ok [v])"

definition dtl_writer_u16 :: "u16 \<Rightarrow> dtl_writer \<Rightarrow> dtl_writer wm" where
  "dtl_writer_u16 v = writer_append 2 (\<lambda>_. Ok (dtl_endian_write_u16le v))"

definition dtl_writer_u32 :: "u32 \<Rightarrow> dtl_writer \<Rightarrow> dtl_writer wm" where
  "dtl_writer_u32 v = writer_append 4 (\<lambda>_. Ok (dtl_endian_write_u32le v))"

definition dtl_writer_bytes :: "(mem \<Rightarrow> u8 list res) \<Rightarrow> nat \<Rightarrow> dtl_writer \<Rightarrow> dtl_writer wm" where
  "dtl_writer_bytes src n = writer_append n src"

subsection \<open>Payloads\<close>

text \<open>The sample loop; \<open>p\<close> is the address of the next sample.\<close>

fun writer_samples :: "nat \<Rightarrow> addr option \<Rightarrow> nat \<Rightarrow> dtl_writer \<Rightarrow> dtl_writer wm" where
  "writer_samples 0 p i w = wret w"
| "writer_samples (Suc n) p i w = (\<lambda>wd.
     wbind (wlift (case p of None \<Rightarrow> Ub | Some p \<Rightarrow> load_bytes (w_mem wd) (fst p, snd p + 4 * i) 4)) (\<lambda>bs.
     wbind (wlift (dtl_endian_read_u32le bs)) (\<lambda>bits.
     wbind (dtl_writer_u32 bits w) (\<lambda>w.
     writer_samples n p (i + 1) w))) wd)"

text \<open>The loop over the pairs; \<open>strlen\<close> and the copy read the strings up to their first NUL.\<close>

fun writer_pairs :: "nat \<Rightarrow> (addr \<times> addr) list \<Rightarrow> dtl_writer \<Rightarrow> dtl_writer wm" where
  "writer_pairs 0 kvs w = wret w"
| "writer_pairs (Suc n) [] w = wlift Ub"
| "writer_pairs (Suc n) ((kp, vp) # kvs) w = (\<lambda>wd.
     wbind (wlift (load_cstr (w_mem wd) kp)) (\<lambda>k.
     wbind (wlift (load_cstr (w_mem wd) vp)) (\<lambda>v.
     if length k > 0xFF \<or> length v > 0xFF then wret (latch DTL_ERR_RANGE w)
     else wbind (dtl_writer_u8 (of_nat (length k)) w) (\<lambda>w.
          wbind (dtl_writer_bytes (\<lambda>m. deref_bytes m (Some kp) (length k)) (length k) w) (\<lambda>w.
          wbind (dtl_writer_u8 (of_nat (length v)) w) (\<lambda>w.
          wbind (dtl_writer_bytes (\<lambda>m. deref_bytes m (Some vp) (length v)) (length v) w) (\<lambda>w.
          writer_pairs n kvs w)))))) wd)"

fun dtl_writer_payload :: "dtl_record \<Rightarrow> dtl_writer \<Rightarrow> dtl_writer wm" where
  "dtl_writer_payload (RHeartbeat h) w =
     wbind (dtl_writer_u32 (hb_uptime_s h) w) (dtl_writer_u32 (hb_seq h))"
| "dtl_writer_payload (RGeo g) w =
     wbind (dtl_writer_u32 (geo_lat_e7 g) w) (\<lambda>w.
     wbind (dtl_writer_u32 (geo_lon_e7 g) w) (dtl_writer_u32 (geo_alt_mm g)))"
| "dtl_writer_payload (RBattery b) w =
     wbind (dtl_writer_u8 (bat_pct b) w) (\<lambda>w.
     wbind (dtl_writer_u16 (bat_temp_c_e1 b) w) (dtl_writer_u32 (bat_cycles b)))"
| "dtl_writer_payload (RNet n) w =
     wbind (dtl_writer_u8 (net_iface_id n) w) (\<lambda>w.
     wbind (dtl_writer_u32 (net_rx_bytes n) w) (\<lambda>w.
     wbind (dtl_writer_u32 (net_tx_bytes n) w) (\<lambda>w.
     wbind (dtl_writer_u32 (net_rx_pkts n) w) (dtl_writer_u32 (net_tx_pkts n)))))"
| "dtl_writer_payload (RFirmware f) w =
     wbind (dtl_writer_u16 (fw_major f) w) (\<lambda>w.
     wbind (dtl_writer_u16 (fw_minor f) w) (\<lambda>w.
     wbind (dtl_writer_u16 (fw_patch f) w) (dtl_writer_bytes (\<lambda>_. slice_at (fw_hash f) 0 8) 8)))"
| "dtl_writer_payload (RSensor s) w =
     wbind (dtl_writer_u16 (sen_sensor_id s) w) (\<lambda>w.
     wbind (dtl_writer_u8 (sen_count s) w) (\<lambda>w.
     writer_samples (unat (sen_count s)) (sen_samples s) 0 w))"
| "dtl_writer_payload (REvent e) w =
     wbind (dtl_writer_u16 (ev_code e) w) (\<lambda>w.
     wbind (dtl_writer_u16 (ev_payload_len e) w) (\<lambda>w.
     dtl_writer_bytes (\<lambda>m. deref_bytes m (ev_payload e) (unat (ev_payload_len e))) (unat (ev_payload_len e)) w))"
| "dtl_writer_payload (RLog l) w =
     wbind (dtl_writer_u8 (log_severity l) w) (\<lambda>w.
     wbind (dtl_writer_u16 (log_msg_len l) w) (\<lambda>w.
     dtl_writer_bytes (\<lambda>m. deref_bytes m (log_msg l) (unat (log_msg_len l))) (unat (log_msg_len l)) w))"
| "dtl_writer_payload (RConfig c) w =
     wbind (dtl_writer_u8 (cfg_pair_count c) w) (\<lambda>w. writer_pairs (unat (cfg_pair_count c)) (cfg_pairs c) w)"
| "dtl_writer_payload (RKeyref k) w =
     wbind (dtl_writer_u8 (kr_slot_id k) w) (\<lambda>w.
     wbind (dtl_writer_u8 (kr_label_len k) w) (\<lambda>w.
     dtl_writer_bytes (\<lambda>m. deref_bytes m (kr_label k) (unat (kr_label_len k))) (unat (kr_label_len k)) w))"
| "dtl_writer_payload (RDiag d) w =
     wbind (dtl_writer_u16 (dg_subsystem d) w) (\<lambda>w.
     wbind (dtl_writer_u16 (dg_blob_len d) w) (\<lambda>w.
     dtl_writer_bytes (\<lambda>m. deref_bytes m (dg_blob d) (unat (dg_blob_len d))) (unat (dg_blob_len d)) w))"

subsection \<open>The public interface\<close>

definition dtl_writer_init :: dtl_writer where
  "dtl_writer_init = \<lparr>wr_sections = [], wr_in_section = False, wr_cur_type = 0, wr_cur_codec = 0,
     wr_tlv = [], wr_cap = 0, wr_has_hmac = False, wr_hmac_key = [], wr_err = DTL_OK\<rparr>"

text \<open>The section handle, or -1.\<close>

definition dtl_writer_begin_section :: "u16 \<Rightarrow> u8 \<Rightarrow> dtl_writer \<Rightarrow> int \<times> dtl_writer" where
  "dtl_writer_begin_section type codec w =
     (if wr_err w \<noteq> DTL_OK then (-1, w)
      else if wr_in_section w then (-1, latch DTL_ERR_INVAL w)
      else if length (wr_sections w) \<ge> DTL_WRITER_MAX_SECTIONS then (-1, latch DTL_ERR_RANGE w)
      else (int (length (wr_sections w)),
            w\<lparr>wr_in_section := True, wr_cur_type := type, wr_cur_codec := codec, wr_tlv := []\<rparr>))"

text \<open>Patching the length of the item at \<open>off\<close>.\<close>

definition patch_u16 :: "u8 list \<Rightarrow> nat \<Rightarrow> u16 \<Rightarrow> u8 list res" where
  "patch_u16 t off v = (if off + 2 \<le> length t then Ok (take off t @ dtl_endian_write_u16le v @ drop (off + 2) t) else Ub)"

definition dtl_writer_emit_tlv :: "u8 \<Rightarrow> (dtl_writer \<Rightarrow> dtl_writer wm) \<Rightarrow> dtl_writer \<Rightarrow> (dtl_err \<times> dtl_writer) wm" where
  "dtl_writer_emit_tlv tag payload w =
     (if wr_err w \<noteq> DTL_OK then wret (wr_err w, w)
      else if \<not> wr_in_section w then wret (DTL_ERR_INVAL, latch DTL_ERR_INVAL w)
      else wbind (dtl_writer_u8 tag w) (\<lambda>w.
           let len_off = length (wr_tlv w)
           in wbind (dtl_writer_u16 0 w) (\<lambda>w.
              let payload_start = length (wr_tlv w)
              in wbind (payload w) (\<lambda>w.
                 if wr_err w \<noteq> DTL_OK then wret (wr_err w, w)
                 else let plen = size_sub (length (wr_tlv w)) payload_start
                 in if plen > 0xFFFF then wret (DTL_ERR_RANGE, latch DTL_ERR_RANGE w)
                    else wbind (wlift (patch_u16 (wr_tlv w) len_off (of_nat plen))) (\<lambda>t.
                         wret (DTL_OK, w\<lparr>wr_tlv := t\<rparr>))))))"

definition dtl_writer_add_record :: "dtl_record \<Rightarrow> dtl_writer \<Rightarrow> (dtl_err \<times> dtl_writer) wm" where
  "dtl_writer_add_record r w = dtl_writer_emit_tlv (rec_tag r) (dtl_writer_payload r) w"

definition dtl_writer_add_raw_tlv :: "u8 \<Rightarrow> u8 list \<Rightarrow> dtl_writer \<Rightarrow> (dtl_err \<times> dtl_writer) wm" where
  "dtl_writer_add_raw_tlv tag payload w =
     dtl_writer_emit_tlv tag (dtl_writer_bytes (\<lambda>_. Ok payload) (length payload)) w"

definition dtl_writer_add_u32_batch :: "u8 \<Rightarrow> u32 list \<Rightarrow> dtl_writer \<Rightarrow> (dtl_err \<times> dtl_writer) wm" where
  "dtl_writer_add_u32_batch tag vals w =
     (if wr_err w \<noteq> DTL_OK then wret (wr_err w, w)
      else if length vals > 0xFFFF div 4 then wret (DTL_ERR_RANGE, latch DTL_ERR_RANGE w)
      else wbind (w_arena_alloc (length vals * 4)) (\<lambda>p.
           case p of None \<Rightarrow> wret (DTL_ERR_OOM, latch DTL_ERR_OOM w)
           | Some _ \<Rightarrow>
               let staging = concat (map dtl_endian_write_u32le vals)
               in dtl_writer_emit_tlv tag (dtl_writer_bytes (\<lambda>_. Ok staging) (length vals * 4)) w))"

text \<open>Compression with a growing output buffer: \<open>Inl\<close> is the error to latch.\<close>

function writer_compress :: "codec_fn \<Rightarrow> u8 list \<Rightarrow> nat \<Rightarrow> world \<Rightarrow> (dtl_err + u8 list) res \<times> world" where
  "writer_compress enc raw cap wd =
     (case dtl_arena_alloc (w_mem wd) (w_arena wd) cap of
        (None, a, m) \<Rightarrow> (Ok (Inl DTL_ERR_OOM), wd\<lparr>w_mem := m, w_arena := a\<rparr>)
      | (Some _, a, m) \<Rightarrow>
          (case enc m raw cap of
             (Ub, m) \<Rightarrow> (Ub, wd\<lparr>w_mem := m, w_arena := a\<rparr>)
           | (Ok ys, m) \<Rightarrow> (Ok (Inr ys), wd\<lparr>w_mem := m, w_arena := a\<rparr>)
           | (Err rc, m) \<Rightarrow>
               (if rc = DTL_ERR_RANGE \<and> cap \<le> DTL_SECTION_MAX_RAW * 2
                then writer_compress enc raw (cap * 2 + 64) (wd\<lparr>w_mem := m, w_arena := a\<rparr>)
                else (Ok (Inl rc), wd\<lparr>w_mem := m, w_arena := a\<rparr>))))"
  by pat_completeness auto
termination
  by (relation "measure (\<lambda>(enc, raw, cap, wd). DTL_SECTION_MAX_RAW * 2 + 1 - cap)") auto

declare writer_compress.simps [simp del]

definition dtl_writer_end_section :: "dtl_writer \<Rightarrow> (dtl_err \<times> dtl_writer) wm" where
  "dtl_writer_end_section w =
     (if wr_err w \<noteq> DTL_OK then wret (wr_err w, w)
      else if \<not> wr_in_section w then wret (DTL_ERR_INVAL, latch DTL_ERR_INVAL w)
      else let raw_len = length (wr_tlv w)
      in if raw_len = 0 \<or> raw_len > DTL_SECTION_MAX_RAW then wret (DTL_ERR_RANGE, latch DTL_ERR_RANGE w)
      else case dtl_codec_get (wr_cur_codec w) of
             None \<Rightarrow> wret (DTL_ERR_BADRECORD, latch DTL_ERR_BADRECORD w)
           | Some codec \<Rightarrow>
               wbind (writer_compress (codec_encode codec) (wr_tlv w) (raw_len + raw_len div 2 + 64)) (\<lambda>r.
               case r of Inl rc \<Rightarrow> wret (rc, latch rc w)
               | Inr out \<Rightarrow>
                   if length out > 0xFFFFFFFF then wret (DTL_ERR_RANGE, latch DTL_ERR_RANGE w)
                   else wbind (wlift (put_byte DTL_WRITER_MAX_SECTIONS (wr_sections w)
                       \<lparr>ws_type = wr_cur_type w, ws_codec_id = wr_cur_codec w, ws_raw_len = of_nat raw_len,
                        ws_comp_len = of_nat (length out), ws_blob = out\<rparr>)) (\<lambda>ss.
                     wret (DTL_OK, w\<lparr>wr_sections := ss, wr_in_section := False\<rparr>))))"

definition dtl_writer_set_hmac :: "u8 list \<Rightarrow> dtl_writer \<Rightarrow> dtl_err \<times> dtl_writer" where
  "dtl_writer_set_hmac key w =
     (if wr_err w \<noteq> DTL_OK then (wr_err w, w)
      else (DTL_OK, w\<lparr>wr_has_hmac := True, wr_hmac_key := key\<rparr>))"

fun writer_table :: "nat \<Rightarrow> dtl_wsection list \<Rightarrow> nat \<Rightarrow> u8 list \<Rightarrow> u8 list res" where
  "writer_table cap [] acc buf = Ok buf"
| "writer_table cap (s # ss) acc buf =
     rbind (put_bytes cap buf (dtl_endian_write_u16le (ws_type s))) (\<lambda>buf.
     rbind (put_byte cap buf (ws_codec_id s)) (\<lambda>buf.
     rbind (put_byte cap buf 0) (\<lambda>buf.
     rbind (put_bytes cap buf (dtl_endian_write_u32le (ws_raw_len s))) (\<lambda>buf.
     rbind (put_bytes cap buf (dtl_endian_write_u32le (ws_comp_len s))) (\<lambda>buf.
     rbind (put_bytes cap buf (dtl_endian_write_u32le (of_nat acc))) (\<lambda>buf.
     writer_table cap ss (acc + unat (ws_comp_len s)) buf))))))"

text \<open>Copying \<open>comp_len\<close> bytes of every blob; the copies are adjacent.\<close>

fun writer_blobs :: "nat \<Rightarrow> dtl_wsection list \<Rightarrow> u8 list \<Rightarrow> u8 list res" where
  "writer_blobs cap [] buf = Ok buf"
| "writer_blobs cap (s # ss) buf =
     rbind (slice_at (ws_blob s) 0 (unat (ws_comp_len s))) (\<lambda>bs.
     rbind (put_bytes cap buf bs) (writer_blobs cap ss))"

definition writer_image :: "dtl_writer \<Rightarrow> nat \<Rightarrow> u8 list res" where
  "writer_image w tot =
     rbind (put_bytes tot [] ([0x44, 0x54, 0x4C, 0x01] @ [DTL_VERSION] @ [if wr_has_hmac w then DTL_FLAG_HAS_HMAC else 0] @
       dtl_endian_write_u16le (of_nat (length (wr_sections w))))) (\<lambda>buf.
     rbind (rbind (slice_at buf 0 8) dtl_crc32) (\<lambda>crc.
     rbind (put_bytes tot buf (dtl_endian_write_u32le crc)) (\<lambda>buf.
     rbind (writer_table tot (wr_sections w) 0 buf) (\<lambda>buf.
     rbind (writer_blobs tot (wr_sections w) buf) (\<lambda>buf.
     if wr_has_hmac w
     then rbind (slice_at buf 0 (tot - DTL_HMAC_LEN)) (\<lambda>msg.
          rbind (dtl_hash_mac (wr_hmac_key w) msg) (\<lambda>mac. put_bytes tot buf mac))
     else Ok buf)))))"

text \<open>The error code, the container when there is one, and the writer.\<close>

definition dtl_writer_finish :: "dtl_writer \<Rightarrow> (dtl_err \<times> u8 list option \<times> dtl_writer) wm" where
  "dtl_writer_finish w =
     (if wr_err w \<noteq> DTL_OK then wret (wr_err w, None, w)
      else if wr_in_section w then wret (DTL_ERR_INVAL, None, latch DTL_ERR_INVAL w)
      else let table_size = length (wr_sections w) * 16;
               blob_region = (\<Sum>s \<leftarrow> wr_sections w. unat (ws_comp_len s))
      in if blob_region > 0xFFFFFFFF then wret (DTL_ERR_RANGE, None, latch DTL_ERR_RANGE w)
      else let tot = 12 + table_size + blob_region + (if wr_has_hmac w then DTL_HMAC_LEN else 0)
      in wbind (w_arena_alloc tot) (\<lambda>p.
         case p of None \<Rightarrow> wret (DTL_ERR_OOM, None, latch DTL_ERR_OOM w)
         | Some _ \<Rightarrow> wbind (wlift (writer_image w tot)) (\<lambda>buf. wret (DTL_OK, Some buf, w))))"

end
