(* ===== verification/Writer_Spec.thy ===== *)
theory Writer_Spec
  imports Writer
begin

text \<open>
  What the writer produces.  The abstract log is the list of closed sections and the open one, each with
  its type, codec and TLV items; \<open>writer_sim\<close> relates a writer to it and every call is shown to refine
  the abstract step or to latch an error.  The finished bytes parse back to the abstract log.
\<close>

subsection \<open>Reading through a growing heap\<close>

abbreviation ext :: "mem \<Rightarrow> world \<Rightarrow> bool" where
  "ext m0 wd \<equiv> heap_ext m0 (w_mem wd)"

lemma load_bytes_ext: "mem_ok m \<Longrightarrow> heap_ext m m' \<Longrightarrow> load_bytes m p n = Ok bs \<Longrightarrow> load_bytes m' p n = Ok bs"
  by (auto simp: load_bytes_def dest: ext_obj split: option.splits)

lemma load_cstr_ext: "mem_ok m \<Longrightarrow> heap_ext m m' \<Longrightarrow> load_cstr m p = Ok bs \<Longrightarrow> load_cstr m' p = Ok bs"
  by (auto simp: load_cstr_def dest: ext_obj split: option.splits)

lemma deref_bytes_ext: "mem_ok m \<Longrightarrow> heap_ext m m' \<Longrightarrow> deref_bytes m p n = Ok bs \<Longrightarrow> deref_bytes m' p n = Ok bs"
  using load_bytes_ext [of m m' _ n bs] by (cases p; cases "n = 0") (simp_all add: deref_bytes_def)

lemma arena_alloc_ext_valid: "wvalid (ext m0) (w_arena_alloc n) (\<lambda>_. ext m0) E"
proof (rule wvalidI)
  fix w assume w: "world_ok w" "ext m0 w"
  obtain r a m where al: "dtl_arena_alloc (w_mem w) (w_arena w) n = (r, a, m)" using prod_cases3 by blast
  with world_ok_arena_alloc [OF w(1) al] arena_alloc_ext [OF world_ok_mem [OF w(1)] al] w(2)
  show "wpost (\<lambda>_. ext m0) E (w_arena_alloc n w)" by (auto simp: w_arena_alloc_def intro: heap_ext_trans)
qed

subsection \<open>The accumulator\<close>

definition writer_ok :: "dtl_writer \<Rightarrow> bool" where
  "writer_ok w \<longleftrightarrow> length (wr_tlv w) \<le> wr_cap w \<and> wr_cap w \<le> SIZE_MAX \<and>
     length (wr_sections w) + (if wr_in_section w then 1 else 0) \<le> 64"

lemma grow_Ok:
  "newcap * 2 ^ fuel > SIZE_MAX \<Longrightarrow> newcap \<le> SIZE_MAX \<Longrightarrow> want \<le> SIZE_MAX \<Longrightarrow>
   \<exists>r. writer_grow (Suc fuel) newcap want = Ok r \<and> (\<forall>c. r = Some c \<longrightarrow> want \<le> c \<and> c \<le> SIZE_MAX)"
proof (induction fuel arbitrary: newcap)
  case (Suc fuel)
  show ?case
  proof (cases "newcap < want \<and> newcap \<le> SIZE_MAX div 2")
    case True
    then have "\<exists>r. writer_grow (Suc fuel) (newcap * 2) want = Ok r \<and> (\<forall>c. r = Some c \<longrightarrow> want \<le> c \<and> c \<le> SIZE_MAX)"
      using Suc.prems by (intro Suc.IH) (auto simp: mult.assoc)
    with True show ?thesis by auto
  qed (use Suc.prems in auto)
qed auto

lemma grow_fuel_enough:
  assumes "newcap \<noteq> 0" "newcap \<le> SIZE_MAX" "want \<le> SIZE_MAX"
  shows "\<exists>r. writer_grow GROW_FUEL newcap want = Ok r \<and> (\<forall>c. r = Some c \<longrightarrow> want \<le> c \<and> c \<le> SIZE_MAX)"
proof -
  have "(1 :: nat) * 2 ^ 65 \<le> newcap * 2 ^ 65" using assms(1) by (intro mult_le_mono1) simp
  then have "newcap * 2 ^ 65 > SIZE_MAX" unfolding SIZE_MAX_def by (rule less_le_trans [rotated]) simp
  from grow_Ok [OF this assms(2,3)] show ?thesis by (simp add: GROW_FUEL_def del: writer_grow.simps)
qed

text \<open>Only the accumulator, its capacity and the latched error differ.\<close>

definition same_log :: "dtl_writer \<Rightarrow> dtl_writer \<Rightarrow> bool" where
  "same_log w w' \<longleftrightarrow> wr_sections w' = wr_sections w \<and> wr_in_section w' = wr_in_section w \<and>
     wr_cur_type w' = wr_cur_type w \<and> wr_cur_codec w' = wr_cur_codec w \<and>
     wr_has_hmac w' = wr_has_hmac w \<and> wr_hmac_key w' = wr_hmac_key w"

lemma same_log_refl [simp]: "same_log w w" "same_log w (latch e w)"
  "same_log w (w\<lparr>wr_tlv := t\<rparr>)" "same_log w (w\<lparr>wr_cap := c\<rparr>)"
  by (simp_all add: same_log_def latch_def)

lemma same_log_trans: "same_log a b \<Longrightarrow> same_log b c \<Longrightarrow> same_log a c"
  by (simp add: same_log_def)

lemma latch_simps [simp]:
  "wr_err (latch e w) = e" "wr_tlv (latch e w) = wr_tlv w" "wr_cap (latch e w) = wr_cap w" "wr_sections (latch e w) = wr_sections w"
  "wr_in_section (latch e w) = wr_in_section w" "writer_ok (latch e w) = writer_ok w"
  by (simp_all add: latch_def writer_ok_def)

definition appended :: "dtl_writer \<Rightarrow> u8 list \<Rightarrow> dtl_writer \<Rightarrow> bool" where
  "appended w bs w' \<longleftrightarrow> writer_ok w' \<and> same_log w w' \<and>
     (wr_err w' = DTL_OK \<longrightarrow> wr_err w = DTL_OK \<and> wr_tlv w' = wr_tlv w @ bs)"

lemma appended_refl: "writer_ok w \<Longrightarrow> appended w [] w"
  by (simp add: appended_def)

lemma appended_trans: "appended w a w1 \<Longrightarrow> appended w1 b w2 \<Longrightarrow> appended w (a @ b) w2"
  by (auto simp: appended_def intro: same_log_trans)

lemma appended_latch: "writer_ok w \<Longrightarrow> e \<noteq> DTL_OK \<Longrightarrow> appended w bs (latch e w)"
  by (simp add: appended_def)

lemma reserve_valid:
  assumes "writer_ok w" "n \<le> SIZE_MAX"
  shows "wvalid (ext m0) (dtl_writer_reserve n w) (\<lambda>(ok, w') wd. ext m0 wd \<and> writer_ok w' \<and> same_log w w' \<and>
     (if ok then wr_err w = DTL_OK \<and> wr_err w' = DTL_OK \<and> wr_tlv w' = wr_tlv w \<and> length (wr_tlv w) + n \<le> wr_cap w'
      else wr_err w' \<noteq> DTL_OK)) (\<lambda>_. False)"
proof -
  note ok = assms(1) [unfolded writer_ok_def]
  let ?want = "(length (wr_tlv w) + n) mod 2 ^ 64"
  let ?c = "if wr_cap w \<noteq> 0 then wr_cap w else 64"
  have want: "?want \<le> SIZE_MAX" using mod_less_divisor [of "2 ^ 64" "length (wr_tlv w) + n"] by (simp add: SIZE_MAX_def)
  have c: "?c \<noteq> 0" "?c \<le> SIZE_MAX" using ok by (simp_all add: SIZE_MAX_def)
  from grow_fuel_enough [OF this want] obtain r where
    r: "writer_grow GROW_FUEL ?c ?want = Ok r" "\<forall>x. r = Some x \<longrightarrow> ?want \<le> x \<and> x \<le> SIZE_MAX" by blast
  have nowrap: "?want = length (wr_tlv w) + n" if "\<not> ?want < length (wr_tlv w)"
  proof (rule ccontr)
    assume "?want \<noteq> length (wr_tlv w) + n"
    then have ge: "2 ^ 64 \<le> length (wr_tlv w) + n" by (metis mod_less not_le)
    then have "?want = (length (wr_tlv w) + n - 2 ^ 64) mod 2 ^ 64" by (rule le_mod_geq)
    also have "\<dots> \<le> length (wr_tlv w) + n - 2 ^ 64" by (rule mod_less_eq_dividend)
    also have "\<dots> < length (wr_tlv w)" using ge assms(2) by (simp add: SIZE_MAX_def)
    finally show False using that by simp
  qed
  show ?thesis
    unfolding dtl_writer_reserve_def Let_def r(1) wbind_simps
  proof (intro wvalid_if wvalid_ret, goal_cases)
    case (4)
    then show ?case
    proof (cases r)
      case (Some x)
      then have "length (wr_tlv w) + n \<le> x" "x \<le> SIZE_MAX" using r(2) nowrap 4 by auto
      then have "wvalid (ext m0) (case p of None \<Rightarrow> wret (False, latch DTL_ERR_OOM w) | Some _ \<Rightarrow> wret (True, w\<lparr>wr_cap := x\<rparr>))
        (\<lambda>(ok, w') wd. ext m0 wd \<and> writer_ok w' \<and> same_log w w' \<and>
          (if ok then wr_err w = DTL_OK \<and> wr_err w' = DTL_OK \<and> wr_tlv w' = wr_tlv w \<and> length (wr_tlv w) + n \<le> wr_cap w'
           else wr_err w' \<noteq> DTL_OK)) (\<lambda>_. False)" for p :: "addr option"
        using assms(1) 4(1) by (cases p) (auto intro!: wvalid_ret simp: writer_ok_def)
      then show ?thesis using Some by (auto intro!: wvalid_bind [OF arena_alloc_ext_valid])
    qed (use assms(1) in \<open>auto intro!: wvalid_ret\<close>)
  qed (use assms(1) ok in auto)
qed

definition writes :: "mem \<Rightarrow> (dtl_writer \<Rightarrow> dtl_writer wm) \<Rightarrow> u8 list \<Rightarrow> bool" where
  "writes m0 f bs \<longleftrightarrow> (\<forall>w. writer_ok w \<longrightarrow>
     wvalid (ext m0) (f w) (\<lambda>w' wd. ext m0 wd \<and> appended w bs w') (\<lambda>_. False))"

lemma writesD: "writes m0 f bs \<Longrightarrow> writer_ok w \<Longrightarrow>
  wvalid (ext m0) (f w) (\<lambda>w' wd. ext m0 wd \<and> appended w bs w') (\<lambda>_. False)"
  by (simp add: writes_def)

lemma writes_append:
  assumes "n \<le> SIZE_MAX" "length bs = n" "\<And>m. heap_ext m0 m \<Longrightarrow> src m = Ok bs"
  shows "writes m0 (writer_append n src) bs"
  unfolding writes_def
proof (intro allI impI)
  fix w assume w: "writer_ok w"
  show "wvalid (ext m0) (writer_append n src w) (\<lambda>w' wd. ext m0 wd \<and> appended w bs w') (\<lambda>_. False)"
    unfolding writer_append_def
  proof (rule wvalid_bind [OF reserve_valid [OF w assms(1)]], rule wvalidI, goal_cases)
    case (1 x wd)
    then show ?case
      using assms by (cases x) (auto simp: wret_def wbind_def wlift_def appended_def writer_ok_def same_log_def)
  qed
qed

lemma writes_bind:
  assumes "writes m0 f a" "writes m0 g b"
  shows "writes m0 (\<lambda>w. wbind (f w) g) (a @ b)"
  unfolding writes_def
proof (intro allI impI wvalid_bind)
  fix w assume w: "writer_ok w"
  show "wvalid (ext m0) (f w) (\<lambda>w' wd. ext m0 wd \<and> appended w a w') (\<lambda>_. False)" by (rule writesD [OF assms(1) w])
  show "wvalid (\<lambda>wd. ext m0 wd \<and> appended w a x) (g x) (\<lambda>w' wd. ext m0 wd \<and> appended w (a @ b) w') (\<lambda>_. False)" for x
  proof (cases "appended w a x")
    case True
    then have "writer_ok x" by (simp add: appended_def)
    from writesD [OF assms(2) this] show ?thesis
      by (rule wvalid_weaken) (use True in \<open>auto intro: appended_trans\<close>)
  qed (simp add: wvalid_def)
qed

lemma writes_fixed:
  "writes m0 (dtl_writer_u8 a) [a]" "writes m0 (dtl_writer_u16 b) (dtl_endian_write_u16le b)"
  "writes m0 (dtl_writer_u32 c) (dtl_endian_write_u32le c)"
  by (simp_all add: dtl_writer_u8_def dtl_writer_u16_def dtl_writer_u32_def writes_append SIZE_MAX_def)

lemma writes_deref:
  assumes "mem_ok m0" "deref_bytes m0 p n = Ok bs" "n \<le> 65535"
  shows "writes m0 (dtl_writer_bytes (\<lambda>m. deref_bytes m p n) n) bs"
  unfolding dtl_writer_bytes_def
proof (rule writes_append)
  show "n \<le> SIZE_MAX" using assms(3) by (simp add: SIZE_MAX_def)
  show "length bs = n" by (rule deref_bytes_length [OF assms(2)])
  show "deref_bytes m p n = Ok bs" if "heap_ext m0 m" for m
    using deref_bytes_ext [OF assms(1) that assms(2)] .
qed


subsection \<open>Payloads\<close>

lemma writes_cong: "writes m0 f bs \<Longrightarrow> bs = bs' \<Longrightarrow> writes m0 f bs'"
  by simp

lemma writes_ret: "writes m0 wret []"
  by (auto simp: writes_def appended_refl intro!: wvalid_ret)

text \<open>A guard that reads the heap first.\<close>

lemma writes_read:
  assumes "\<And>m. heap_ext m0 m \<Longrightarrow> rd m = Ok x" "writes m0 (g x) bs"
  shows "writes m0 (\<lambda>w wd. wbind (wlift (rd (w_mem wd))) (\<lambda>x. g x w) wd) bs"
  unfolding writes_def
proof (intro allI impI wvalidI)
  fix w wd assume w: "writer_ok w" "world_ok wd" "ext m0 wd"
  from wvalidD [OF writesD [OF assms(2) w(1)] w(2,3)] assms(1) [OF w(3)]
  show "wpost (\<lambda>w' wd. ext m0 wd \<and> appended w bs w') (\<lambda>_. False) (wbind (wlift (rd (w_mem wd))) (\<lambda>x. g x w) wd)"
    by (simp add: wbind_def wlift_def)
qed

lemma writes_read2:
  assumes "\<And>m. heap_ext m0 m \<Longrightarrow> rd m = Ok x" "\<And>m. heap_ext m0 m \<Longrightarrow> rd' m = Ok y" "writes m0 (g x y) bs"
  shows "writes m0 (\<lambda>w wd. wbind (wlift (rd (w_mem wd))) (\<lambda>x. wbind (wlift (rd' (w_mem wd))) (\<lambda>y. g x y w)) wd) bs"
  unfolding writes_def
proof (intro allI impI wvalidI)
  fix w wd assume w: "writer_ok w" "world_ok wd" "ext m0 wd"
  from wvalidD [OF writesD [OF assms(3) w(1)] w(2,3)] assms(1,2) [OF w(3)]
  show "wpost (\<lambda>w' wd. ext m0 wd \<and> appended w bs w') (\<lambda>_. False)
    (wbind (wlift (rd (w_mem wd))) (\<lambda>x. wbind (wlift (rd' (w_mem wd))) (\<lambda>y. g x y w)) wd)"
    by (simp add: wbind_def wlift_def)
qed

lemma load_piece:
  assumes "load_bytes m p n = Ok bs" "k + 4 \<le> n"
  shows "load_bytes m (fst p, snd p + k) 4 = Ok (take 4 (drop k bs))"
proof -
  obtain cs where cs: "m_objs m (fst p) = Some cs" using assms(1) by (auto simp: load_bytes_def split: option.splits)
  have "take 4 (drop (snd p + k) cs) = take 4 (drop k (take n (drop (snd p) cs)))"
    using assms(2) by (simp add: drop_take add.commute)
  moreover have "set (take 4 (drop k (take n (drop (snd p) cs)))) \<subseteq> set (take n (drop (snd p) cs))"
    by (meson order_trans set_drop_subset set_take_subset)
  ultimately show ?thesis
    using assms cs by (auto simp: load_bytes_def Let_def take_map drop_map split: if_splits)
qed

lemma writes_samples:
  assumes "mem_ok m0" "load_bytes m0 p (4 * (i + n)) = Ok bs"
  shows "writes m0 (writer_samples n (Some p) i) (drop (4 * i) bs)"
  using assms(2)
proof (induction n arbitrary: i)
  case 0
  then have "length bs = 4 * i" using load_bytes_region by fastforce
  then show ?case using writes_ret by (simp add: wret_def [abs_def] writes_def)
next
  case (Suc n)
  have len: "length bs = 4 * (i + Suc n)" using load_bytes_region [OF Suc.prems] by simp
  have l4: "load_bytes m (fst p, snd p + 4 * i) 4 = Ok (take 4 (drop (4 * i) bs))" if "heap_ext m0 m" for m
    using load_piece [OF load_bytes_ext [OF assms(1) that Suc.prems], of "4 * i"] by simp
  have four: "length (take 4 (drop (4 * i) bs)) = 4" using len by simp
  then obtain v where v: "dtl_endian_read_u32le (take 4 (drop (4 * i) bs)) = Ok v" using read_u32le_Ok by (metis le_refl)
  then have wv: "dtl_endian_write_u32le v = take 4 (drop (4 * i) bs)" using write_read_u32le [OF v] by simp
  have "writes m0 (\<lambda>w. wbind (dtl_writer_u32 v w) (writer_samples n (Some p) (i + 1))) (take 4 (drop (4 * i) bs) @ drop (4 * (i + 1)) bs)"
    using writes_bind [OF writes_fixed(3) [of m0 v] Suc.IH [of "i + 1"]] Suc.prems wv by simp
  moreover have "take 4 (drop (4 * i) bs) @ drop (4 * (i + 1)) bs = drop (4 * i) bs"
    using take_drop_append [of 4 "4 * i" bs] by (simp add: add.commute)
  ultimately have "writes m0 (\<lambda>w wd. wbind (wlift (load_bytes (w_mem wd) (fst p, snd p + 4 * i) 4)) (\<lambda>bs.
     wbind (wlift (dtl_endian_read_u32le bs)) (\<lambda>bits.
     wbind (dtl_writer_u32 bits w) (writer_samples n (Some p) (i + 1)))) wd) (drop (4 * i) bs)"
    by (intro writes_read [OF l4]) (simp_all add: v)
  then show ?case by (simp add: writes_def)
qed

lemma writes_pairs:
  assumes "mem_ok m0"
  shows "deref_pairs m0 kvs = Ok vs \<Longrightarrow> n = length kvs \<Longrightarrow> writes m0 (writer_pairs n kvs) (concat (map pair_bytes vs))"
proof (induction n arbitrary: kvs vs)
  case 0
  then show ?case using writes_ret by (auto simp: wret_def [abs_def] writes_def)
next
  case (Suc n)
  then obtain kp vp kvs' where kvs: "kvs = (kp, vp) # kvs'" "n = length kvs'"
    by (cases kvs) auto
  with Suc.prems(1) obtain k v rest where k: "load_cstr m0 kp = Ok k" and v: "load_cstr m0 vp = Ok v"
    and r: "deref_pairs m0 kvs' = Ok rest" "vs = (k, v) # rest" by (auto simp: rbind_eq_Ok_iff)
  have ke: "load_cstr m kp = Ok k" and ve: "load_cstr m vp = Ok v" if "heap_ext m0 m" for m
    using load_cstr_ext [OF assms that] k v by simp_all
  let ?g = "\<lambda>w. if length k > 0xFF \<or> length v > 0xFF then wret (latch DTL_ERR_RANGE w)
     else wbind (dtl_writer_u8 (of_nat (length k)) w) (\<lambda>w.
          wbind (dtl_writer_bytes (\<lambda>m. deref_bytes m (Some kp) (length k)) (length k) w) (\<lambda>w.
          wbind (dtl_writer_u8 (of_nat (length v)) w) (\<lambda>w.
          wbind (dtl_writer_bytes (\<lambda>m. deref_bytes m (Some vp) (length v)) (length v) w) (\<lambda>w.
          writer_pairs n kvs' w))))"
  have "writes m0 ?g (concat (map pair_bytes vs))"
  proof (cases "length k > 0xFF \<or> length v > 0xFF")
    case True
    then show ?thesis by (auto simp: writes_def appended_latch intro!: wvalid_ret)
  next
    case False
    have "writes m0 (\<lambda>w. wbind (dtl_writer_u8 (of_nat (length k)) w) (\<lambda>w.
          wbind (dtl_writer_bytes (\<lambda>m. deref_bytes m (Some kp) (length k)) (length k) w) (\<lambda>w.
          wbind (dtl_writer_u8 (of_nat (length v)) w) (\<lambda>w.
          wbind (dtl_writer_bytes (\<lambda>m. deref_bytes m (Some vp) (length v)) (length v) w) (\<lambda>w.
          writer_pairs n kvs' w))))) ([of_nat (length k)] @ k @ [of_nat (length v)] @ v @ concat (map pair_bytes rest))"
      using False k v r kvs(2)
      by (intro writes_bind writes_fixed writes_deref [OF assms load_cstr_deref] Suc.IH) simp_all
    with False show ?thesis using r(2) by (simp add: pair_bytes_def)
  qed
  then show ?case
    unfolding kvs(1) writer_pairs.simps by - (rule writes_read2 [where x = k and y = v], erule ke, erule ve)
qed

lemma of_nat_unat_len: "length bs = unat (v :: 'a :: len word) \<Longrightarrow> of_nat (length bs) = v"
  by simp

lemma writes_payload:
  assumes m: "mem_ok m0" and v: "record_view m0 r = Ok v" and shape: "rec_shape r"
  shows "writes m0 (dtl_writer_payload r) (payload_of v)"
proof (cases r)
  case (RHeartbeat h)
  then have "writes m0 (\<lambda>w. wbind (dtl_writer_u32 (hb_uptime_s h) w) (dtl_writer_u32 (hb_seq h))) (payload_of v)"
    using v by (auto intro!: writes_bind writes_fixed)
  with RHeartbeat show ?thesis by (simp add: writes_def)
next
  case (RGeo g)
  then have "writes m0 (\<lambda>w. wbind (dtl_writer_u32 (geo_lat_e7 g) w) (\<lambda>w.
     wbind (dtl_writer_u32 (geo_lon_e7 g) w) (dtl_writer_u32 (geo_alt_mm g)))) (payload_of v)"
    using v by (auto intro!: writes_bind writes_fixed)
  with RGeo show ?thesis by (simp add: writes_def)
next
  case (RBattery b)
  then have "payload_of v = [bat_pct b] @ dtl_endian_write_u16le (bat_temp_c_e1 b) @ dtl_endian_write_u32le (bat_cycles b)"
    using v by auto
  moreover have "writes m0 (\<lambda>w. wbind (dtl_writer_u8 (bat_pct b) w) (\<lambda>w.
     wbind (dtl_writer_u16 (bat_temp_c_e1 b) w) (dtl_writer_u32 (bat_cycles b))))
     ([bat_pct b] @ dtl_endian_write_u16le (bat_temp_c_e1 b) @ dtl_endian_write_u32le (bat_cycles b))"
    by (intro writes_bind writes_fixed)
  ultimately show ?thesis using RBattery by (simp add: writes_def)
next
  case (RNet n)
  have "writes m0 (\<lambda>w. wbind (dtl_writer_u8 (net_iface_id n) w) (\<lambda>w.
     wbind (dtl_writer_u32 (net_rx_bytes n) w) (\<lambda>w.
     wbind (dtl_writer_u32 (net_tx_bytes n) w) (\<lambda>w.
     wbind (dtl_writer_u32 (net_rx_pkts n) w) (dtl_writer_u32 (net_tx_pkts n))))))
     ([net_iface_id n] @ dtl_endian_write_u32le (net_rx_bytes n) @ dtl_endian_write_u32le (net_tx_bytes n) @
      dtl_endian_write_u32le (net_rx_pkts n) @ dtl_endian_write_u32le (net_tx_pkts n))"
    by (intro writes_bind writes_fixed)
  with RNet v show ?thesis by (auto simp add: writes_def)
next
  case (RFirmware f)
  have "writes m0 (dtl_writer_bytes (\<lambda>_. slice_at (fw_hash f) 0 8) 8) (fw_hash f)"
    unfolding dtl_writer_bytes_def using shape RFirmware by (intro writes_append) (simp_all add: SIZE_MAX_def)
  then have "writes m0 (\<lambda>w. wbind (dtl_writer_u16 (fw_major f) w) (\<lambda>w.
     wbind (dtl_writer_u16 (fw_minor f) w) (\<lambda>w.
     wbind (dtl_writer_u16 (fw_patch f) w) (dtl_writer_bytes (\<lambda>_. slice_at (fw_hash f) 0 8) 8))))
     (dtl_endian_write_u16le (fw_major f) @ dtl_endian_write_u16le (fw_minor f) @ dtl_endian_write_u16le (fw_patch f) @ fw_hash f)"
    by (intro writes_bind writes_fixed)
  with RFirmware v show ?thesis by (auto simp: writes_def)
next
  case (RSensor s)
  then obtain bs where bs: "deref_bytes m0 (sen_samples s) (unat (sen_count s) * 4) = Ok bs" "v = VSensor (sen_sensor_id s) bs"
    using v by (auto simp: rbind_eq_Ok_iff)
  have len: "length bs = unat (sen_count s) * 4" using deref_bytes_length [OF bs(1)] .
  have "writes m0 (writer_samples (unat (sen_count s)) (sen_samples s) 0) bs"
  proof (cases "sen_count s = 0")
    case True
    with len show ?thesis using writes_ret by (simp add: wret_def [abs_def] writes_def)
  next
    case False
    then obtain p where "sen_samples s = Some p" "load_bytes m0 p (4 * (0 + unat (sen_count s))) = Ok bs"
      using bs(1) by (auto simp: deref_bytes_def mult.commute unat_eq_zero split: option.splits)
    with writes_samples [OF m, of p 0 "unat (sen_count s)" bs] show ?thesis by simp
  qed
  then have "writes m0 (\<lambda>w. wbind (dtl_writer_u16 (sen_sensor_id s) w) (\<lambda>w.
     wbind (dtl_writer_u8 (sen_count s) w) (\<lambda>w. writer_samples (unat (sen_count s)) (sen_samples s) 0 w)))
     (dtl_endian_write_u16le (sen_sensor_id s) @ [sen_count s] @ bs)"
    by (intro writes_bind writes_fixed)
  with RSensor bs(2) len show ?thesis by (simp add: writes_def)
next
  case (REvent e)
  then obtain bs where bs: "deref_bytes m0 (ev_payload e) (unat (ev_payload_len e)) = Ok bs" "v = VEvent (ev_code e) bs"
    using v by (auto simp: rbind_eq_Ok_iff)
  have "writes m0 (\<lambda>w. wbind (dtl_writer_u16 (ev_code e) w) (\<lambda>w.
     wbind (dtl_writer_u16 (ev_payload_len e) w) (\<lambda>w.
     dtl_writer_bytes (\<lambda>m. deref_bytes m (ev_payload e) (unat (ev_payload_len e))) (unat (ev_payload_len e)) w)))
     (dtl_endian_write_u16le (ev_code e) @ dtl_endian_write_u16le (ev_payload_len e) @ bs)"
    by (intro writes_bind writes_fixed writes_deref [OF m bs(1)] unat_le_65535)
  with REvent bs(2) deref_bytes_length [OF bs(1)] show ?thesis by (simp add: writes_def)
next
  case (RDiag d)
  then obtain bs where bs: "deref_bytes m0 (dg_blob d) (unat (dg_blob_len d)) = Ok bs" "v = VDiag (dg_subsystem d) bs"
    using v by (auto simp: rbind_eq_Ok_iff)
  have "writes m0 (\<lambda>w. wbind (dtl_writer_u16 (dg_subsystem d) w) (\<lambda>w.
     wbind (dtl_writer_u16 (dg_blob_len d) w) (\<lambda>w.
     dtl_writer_bytes (\<lambda>m. deref_bytes m (dg_blob d) (unat (dg_blob_len d))) (unat (dg_blob_len d)) w)))
     (dtl_endian_write_u16le (dg_subsystem d) @ dtl_endian_write_u16le (dg_blob_len d) @ bs)"
    by (intro writes_bind writes_fixed writes_deref [OF m bs(1)] unat_le_65535)
  with RDiag bs(2) deref_bytes_length [OF bs(1)] show ?thesis by (simp add: writes_def)
next
  case (RLog l)
  then obtain bs where bs: "deref_bytes m0 (log_msg l) (unat (log_msg_len l)) = Ok bs" "v = VLog (log_severity l) bs"
    using v by (auto simp: rbind_eq_Ok_iff)
  have "writes m0 (\<lambda>w. wbind (dtl_writer_u8 (log_severity l) w) (\<lambda>w.
     wbind (dtl_writer_u16 (log_msg_len l) w) (\<lambda>w.
     dtl_writer_bytes (\<lambda>m. deref_bytes m (log_msg l) (unat (log_msg_len l))) (unat (log_msg_len l)) w)))
     ([log_severity l] @ dtl_endian_write_u16le (log_msg_len l) @ bs)"
    by (intro writes_bind writes_fixed writes_deref [OF m bs(1)] unat_le_65535)
  with RLog bs(2) deref_bytes_length [OF bs(1)] show ?thesis by (simp add: writes_def)
next
  case (RKeyref k)
  then obtain bs where bs: "deref_bytes m0 (kr_label k) (unat (kr_label_len k)) = Ok bs" "v = VKeyref (kr_slot_id k) bs"
    using v by (auto simp: rbind_eq_Ok_iff)
  have "unat (kr_label_len k) \<le> 65535" by (rule order_trans [OF unat_le_255]) simp
  then have "writes m0 (\<lambda>w. wbind (dtl_writer_u8 (kr_slot_id k) w) (\<lambda>w.
     wbind (dtl_writer_u8 (kr_label_len k) w) (\<lambda>w.
     dtl_writer_bytes (\<lambda>m. deref_bytes m (kr_label k) (unat (kr_label_len k))) (unat (kr_label_len k)) w)))
     ([kr_slot_id k] @ [kr_label_len k] @ bs)"
    by (intro writes_bind writes_fixed writes_deref [OF m bs(1)])
  with RKeyref bs(2) deref_bytes_length [OF bs(1)] show ?thesis by (simp add: writes_def)
next
  case (RConfig c)
  then obtain vs where vs: "deref_pairs m0 (cfg_pairs c) = Ok vs" "v = VConfig vs"
    using v by (auto simp: rbind_eq_Ok_iff)
  have "writes m0 (\<lambda>w. wbind (dtl_writer_u8 (cfg_pair_count c) w) (\<lambda>w. writer_pairs (unat (cfg_pair_count c)) (cfg_pairs c) w))
     ([cfg_pair_count c] @ concat (map pair_bytes vs))"
    using shape RConfig by (intro writes_bind writes_fixed writes_pairs [OF m vs(1)]) simp
  moreover have "of_nat (length vs) = cfg_pair_count c"
    using deref_pairs_length [OF vs(1)] shape RConfig by (intro of_nat_unat_len) simp
  ultimately show ?thesis using RConfig vs(2) by (simp add: writes_def)
qed


subsection \<open>Items\<close>

text \<open>What a call that appends one item leaves: the item, or a latched error.\<close>

definition emitted :: "dtl_writer \<Rightarrow> u8 \<Rightarrow> u8 list \<Rightarrow> dtl_err \<times> dtl_writer \<Rightarrow> bool" where
  "emitted w tag bs r \<longleftrightarrow> (case r of (e, w') \<Rightarrow> e = wr_err w' \<and> writer_ok w' \<and> same_log w w' \<and>
     (e = DTL_OK \<longrightarrow> wr_err w = DTL_OK \<and> wr_in_section w \<and> length bs \<le> 0xFFFF \<and> wr_tlv w' = wr_tlv w @ tlv_bytes tag bs))"

lemma emit_finish:
  assumes w1: "appended w [tag] w1" and w2: "appended w1 (dtl_endian_write_u16le 0) w2" and w3: "appended w2 bs w3"
    and sec: "wr_in_section w"
  shows "wvalid (ext m0) (if wr_err w3 \<noteq> DTL_OK then wret (wr_err w3, w3)
       else let plen = size_sub (length (wr_tlv w3)) (length (wr_tlv w2))
       in if plen > 0xFFFF then wret (DTL_ERR_RANGE, latch DTL_ERR_RANGE w3)
          else wbind (wlift (patch_u16 (wr_tlv w3) (length (wr_tlv w1)) (of_nat plen))) (\<lambda>t.
               wret (DTL_OK, w3\<lparr>wr_tlv := t\<rparr>))) (\<lambda>r wd. ext m0 wd \<and> emitted w tag bs r) (\<lambda>_. False)"
proof -
  have ok3: "writer_ok w3" and log: "same_log w w3"
    using w1 w2 w3 by (auto simp: appended_def intro: same_log_trans)
  show ?thesis
  proof (cases "wr_err w3 = DTL_OK")
    case True
    then have t: "wr_tlv w1 = wr_tlv w @ [tag]" "wr_tlv w2 = wr_tlv w1 @ dtl_endian_write_u16le 0" "wr_tlv w3 = wr_tlv w2 @ bs"
      and e: "wr_err w = DTL_OK" using w1 w2 w3 by (auto simp: appended_def)
    have p: "patch_u16 (wr_tlv w3) (length (wr_tlv w1)) (of_nat (length bs)) = Ok (wr_tlv w @ tlv_bytes tag bs)"
      using t by (simp add: patch_u16_def tlv_bytes_def)
    have "length (wr_tlv w @ tlv_bytes tag bs) = length (wr_tlv w3)" using t by simp
    then have "writer_ok (w3\<lparr>wr_tlv := wr_tlv w @ tlv_bytes tag bs\<rparr>)" using ok3 by (simp add: writer_ok_def)
    with True ok3 log e sec p t(3) show ?thesis
      by (auto simp: Let_def emitted_def same_log_def latch_def [of DTL_ERR_RANGE] writer_ok_def intro!: wvalid_ret)
  qed (use ok3 log in \<open>auto simp: emitted_def intro!: wvalid_ret\<close>)
qed

lemma wvalid_fact: "(R \<Longrightarrow> wvalid P f Q E) \<Longrightarrow> wvalid (\<lambda>w. P w \<and> R) f Q E"
  by (simp add: wvalid_def)

lemma emit_valid:
  assumes "writer_ok w" "writes m0 payload bs"
  shows "wvalid (ext m0) (dtl_writer_emit_tlv tag payload w) (\<lambda>r wd. ext m0 wd \<and> emitted w tag bs r) (\<lambda>_. False)"
  unfolding dtl_writer_emit_tlv_def Let_def [of "length _"]
proof (intro wvalid_if)
  show "wvalid (ext m0) (wret (wr_err w, w)) (\<lambda>r wd. ext m0 wd \<and> emitted w tag bs r) (\<lambda>_. False)" if "wr_err w \<noteq> DTL_OK"
    using that assms(1) by (auto simp: emitted_def intro!: wvalid_ret)
  show "wvalid (ext m0) (wret (DTL_ERR_INVAL, latch DTL_ERR_INVAL w)) (\<lambda>r wd. ext m0 wd \<and> emitted w tag bs r) (\<lambda>_. False)"
    using assms(1) by (auto simp: emitted_def intro!: wvalid_ret)
  assume sec: "\<not> \<not> wr_in_section w"
  show "wvalid (ext m0) (wbind (dtl_writer_u8 tag w) (\<lambda>w. wbind (dtl_writer_u16 0 w) (\<lambda>w'. wbind (payload w') (\<lambda>w''.
      if wr_err w'' \<noteq> DTL_OK then wret (wr_err w'', w'')
      else let plen = size_sub (length (wr_tlv w'')) (length (wr_tlv w'))
      in if plen > 0xFFFF then wret (DTL_ERR_RANGE, latch DTL_ERR_RANGE w'')
         else wbind (wlift (patch_u16 (wr_tlv w'') (length (wr_tlv w)) (of_nat plen))) (\<lambda>t.
              wret (DTL_OK, w''\<lparr>wr_tlv := t\<rparr>))))))
    (\<lambda>r wd. ext m0 wd \<and> emitted w tag bs r) (\<lambda>_. False)"
  proof (rule wvalid_bind [OF writesD [OF writes_fixed(1) assms(1)]], rule wvalid_fact)
    fix w1 assume w1: "appended w [tag] w1"
    then have ok1: "writer_ok w1" by (simp add: appended_def)
    show "wvalid (ext m0) (wbind (dtl_writer_u16 0 w1) (\<lambda>w'. wbind (payload w') (\<lambda>w''.
      if wr_err w'' \<noteq> DTL_OK then wret (wr_err w'', w'')
      else let plen = size_sub (length (wr_tlv w'')) (length (wr_tlv w'))
      in if plen > 0xFFFF then wret (DTL_ERR_RANGE, latch DTL_ERR_RANGE w'')
         else wbind (wlift (patch_u16 (wr_tlv w'') (length (wr_tlv w1)) (of_nat plen))) (\<lambda>t.
              wret (DTL_OK, w''\<lparr>wr_tlv := t\<rparr>)))))
      (\<lambda>r wd. ext m0 wd \<and> emitted w tag bs r) (\<lambda>_. False)"
    proof (rule wvalid_bind [OF writesD [OF writes_fixed(2) ok1]], rule wvalid_fact, rule wvalid_bind)
      fix w2 assume w2: "appended w1 (dtl_endian_write_u16le 0) w2"
      then have "writer_ok w2" by (simp add: appended_def)
      then show "wvalid (ext m0) (payload w2) (\<lambda>w' wd. ext m0 wd \<and> appended w2 bs w') (\<lambda>_. False)"
        by (rule writesD [OF assms(2)])
      show "wvalid (\<lambda>wd. ext m0 wd \<and> appended w2 bs w3) (if wr_err w3 \<noteq> DTL_OK then wret (wr_err w3, w3)
        else let plen = size_sub (length (wr_tlv w3)) (length (wr_tlv w2))
        in if plen > 0xFFFF then wret (DTL_ERR_RANGE, latch DTL_ERR_RANGE w3)
           else wbind (wlift (patch_u16 (wr_tlv w3) (length (wr_tlv w1)) (of_nat plen))) (\<lambda>t.
              wret (DTL_OK, w3\<lparr>wr_tlv := t\<rparr>))) (\<lambda>r wd. ext m0 wd \<and> emitted w tag bs r) (\<lambda>_. False)" for w3
        using sec by (intro wvalid_fact emit_finish [OF w1 w2]) auto
    qed
  qed
qed

lemma add_record_valid:
  assumes "writer_ok w" "mem_ok m0" "record_view m0 r = Ok v" "rec_shape r"
  shows "wvalid (ext m0) (dtl_writer_add_record r w) (\<lambda>x wd. ext m0 wd \<and> emitted w (rec_tag r) (payload_of v) x) (\<lambda>_. False)"
  unfolding dtl_writer_add_record_def by (rule emit_valid [OF assms(1) writes_payload [OF assms(2-4)]])

lemma add_raw_valid:
  assumes "writer_ok w" "length bs \<le> 65535"
  shows "wvalid (ext m0) (dtl_writer_add_raw_tlv tag bs w) (\<lambda>x wd. ext m0 wd \<and> emitted w tag bs x) (\<lambda>_. False)"
  unfolding dtl_writer_add_raw_tlv_def dtl_writer_bytes_def
  using assms(2) by (intro emit_valid [OF assms(1)] writes_append) (simp_all add: SIZE_MAX_def)

lemma length_u32s: "length (concat (map dtl_endian_write_u32le vals)) = length vals * 4"
  by (induction vals) auto

lemma add_batch_valid:
  assumes "writer_ok w"
  shows "wvalid (ext m0) (dtl_writer_add_u32_batch tag vals w)
    (\<lambda>x wd. ext m0 wd \<and> emitted w tag (concat (map dtl_endian_write_u32le vals)) x) (\<lambda>_. False)"
  unfolding dtl_writer_add_u32_batch_def
proof (intro wvalid_if wvalid_ret, goal_cases)
  case 3
  have "wvalid (ext m0) (case p of None \<Rightarrow> wret (DTL_ERR_OOM, latch DTL_ERR_OOM w)
           | Some _ \<Rightarrow> let staging = concat (map dtl_endian_write_u32le vals)
               in dtl_writer_emit_tlv tag (dtl_writer_bytes (\<lambda>_. Ok staging) (length vals * 4)) w)
    (\<lambda>x wd. ext m0 wd \<and> emitted w tag (concat (map dtl_endian_write_u32le vals)) x) (\<lambda>_. False)" for p :: "addr option"
  proof (cases p)
    case (Some q)
    have "wvalid (ext m0) (dtl_writer_emit_tlv tag (writer_append (length vals * 4) (\<lambda>_. Ok (concat (map dtl_endian_write_u32le vals)))) w)
      (\<lambda>x wd. ext m0 wd \<and> emitted w tag (concat (map dtl_endian_write_u32le vals)) x) (\<lambda>_. False)"
      using 3 by (intro emit_valid [OF assms] writes_append) (simp_all add: SIZE_MAX_def length_u32s)
    with Some show ?thesis by (simp add: Let_def dtl_writer_bytes_def)
  qed (use assms in \<open>auto simp: emitted_def intro!: wvalid_ret\<close>)
  then show ?case by (intro wvalid_bind [OF arena_alloc_ext_valid])
qed (use assms in \<open>auto simp: emitted_def\<close>)


subsection \<open>The abstract log\<close>

type_synonym item = "u8 \<times> u8 list"
type_synonym asection = "u16 \<times> u8 \<times> item list"

record alog =
  al_done :: "asection list"
  al_open :: "asection option"

definition stream :: "item list \<Rightarrow> u8 list" where
  "stream fs = concat (map (\<lambda>(t, p). tlv_bytes t p) fs)"

definition items_ok :: "item list \<Rightarrow> bool" where
  "items_ok fs \<longleftrightarrow> (\<forall>(t, p) \<in> set fs. length p \<le> 0xFFFF)"

text \<open>A closed section of the writer holds the compressed stream of its items.\<close>

definition wsection_of :: "dtl_wsection \<Rightarrow> asection \<Rightarrow> bool" where
  "wsection_of s a \<longleftrightarrow> (case a of (t, c, fs) \<Rightarrow>
     ws_type s = t \<and> ws_codec_id s = c \<and> items_ok fs \<and>
     0 < length (stream fs) \<and> length (stream fs) \<le> DTL_SECTION_MAX_RAW \<and>
     ws_raw_len s = of_nat (length (stream fs)) \<and>
     length (ws_blob s) \<le> 0xFFFFFFFF \<and> ws_comp_len s = of_nat (length (ws_blob s)) \<and>
     (\<exists>codec m cap. dtl_codec_get c = Some codec \<and> mem_ok m \<and>
        fst (codec_encode codec m (stream fs) cap) = Ok (ws_blob s)))"

definition open_of :: "dtl_writer \<Rightarrow> asection option \<Rightarrow> bool" where
  "open_of w a \<longleftrightarrow> (case a of None \<Rightarrow> \<not> wr_in_section w
     | Some (t, c, fs) \<Rightarrow> wr_in_section w \<and> wr_cur_type w = t \<and> wr_cur_codec w = c \<and> wr_tlv w = stream fs \<and> items_ok fs)"

definition writer_sim :: "dtl_writer \<Rightarrow> alog \<Rightarrow> bool" where
  "writer_sim w al \<longleftrightarrow> writer_ok w \<and>
     (wr_err w = DTL_OK \<longrightarrow> list_all2 wsection_of (wr_sections w) (al_done al) \<and> open_of w (al_open al))"

text \<open>The calls of the public interface and their abstract effect.\<close>

datatype wop =
    WBegin u16 u8
  | WRecord dtl_record
  | WRaw u8 "u8 list"
  | WBatch u8 "u32 list"
  | WEnd
  | WHmac "u8 list"

fun writer_do :: "wop \<Rightarrow> dtl_writer \<Rightarrow> dtl_writer wm" where
  "writer_do (WBegin t c) w = wret (snd (dtl_writer_begin_section t c w))"
| "writer_do (WRecord r) w = wmap snd (dtl_writer_add_record r w)"
| "writer_do (WRaw tag bs) w = wmap snd (dtl_writer_add_raw_tlv tag bs w)"
| "writer_do (WBatch tag vs) w = wmap snd (dtl_writer_add_u32_batch tag vs w)"
| "writer_do WEnd w = wmap snd (dtl_writer_end_section w)"
| "writer_do (WHmac k) w = wret (snd (dtl_writer_set_hmac k w))"

fun writer_run :: "wop list \<Rightarrow> dtl_writer \<Rightarrow> dtl_writer wm" where
  "writer_run [] w = wret w"
| "writer_run (op # ops) w = wbind (writer_do op w) (writer_run ops)"

text \<open>The item a call adds; a record is read in the heap \<open>m\<close>.\<close>

fun op_item :: "mem \<Rightarrow> wop \<Rightarrow> item option" where
  "op_item m (WRecord r) = (case record_view m r of Ok v \<Rightarrow> Some (rec_tag r, payload_of v) | _ \<Rightarrow> None)"
| "op_item m (WRaw tag bs) = Some (tag, bs)"
| "op_item m (WBatch tag vs) = Some (tag, concat (map dtl_endian_write_u32le vs))"
| "op_item m op = None"

definition add_item :: "item option \<Rightarrow> alog \<Rightarrow> alog option" where
  "add_item it al = (case (it, al_open al) of
     (Some it, Some (t, c, fs)) \<Rightarrow>
       if length (snd it) \<le> 0xFFFF then Some (al\<lparr>al_open := Some (t, c, fs @ [it])\<rparr>) else None
   | _ \<Rightarrow> None)"

fun alog_step :: "mem \<Rightarrow> wop \<Rightarrow> alog \<Rightarrow> alog option" where
  "alog_step m (WBegin t c) al =
     (if al_open al = None \<and> length (al_done al) < 64 then Some (al\<lparr>al_open := Some (t, c, [])\<rparr>) else None)"
| "alog_step m WEnd al =
     (case al_open al of None \<Rightarrow> None
      | Some (t, c, fs) \<Rightarrow>
          if 0 < length (stream fs) \<and> length (stream fs) \<le> DTL_SECTION_MAX_RAW \<and> c \<le> 6
          then Some (al\<lparr>al_done := al_done al @ [(t, c, fs)], al_open := None\<rparr>) else None)"
| "alog_step m (WHmac k) al = Some al"
| "alog_step m op al = add_item (op_item m op) al"

fun alog_run :: "mem \<Rightarrow> wop list \<Rightarrow> alog \<Rightarrow> alog option" where
  "alog_run m [] al = Some al"
| "alog_run m (op # ops) al = Option.bind (alog_step m op al) (alog_run m ops)"

definition alog_init :: alog where
  "alog_init = \<lparr>al_done = [], al_open = None\<rparr>"

text \<open>The arguments a call may have: readable records, payloads that a u16 length can state.\<close>

fun op_ok :: "mem \<Rightarrow> wop \<Rightarrow> bool" where
  "op_ok m (WRecord r) \<longleftrightarrow> rec_shape r \<and> (\<exists>v. record_view m r = Ok v)"
| "op_ok m (WRaw tag bs) \<longleftrightarrow> length bs \<le> 65535"
| "op_ok m op \<longleftrightarrow> True"

lemma stream_snoc: "stream (fs @ [(t, p)]) = stream fs @ tlv_bytes t p"
  by (simp add: stream_def)

definition step_post :: "mem \<Rightarrow> wop \<Rightarrow> alog \<Rightarrow> dtl_writer \<Rightarrow> bool" where
  "step_post m op al w' \<longleftrightarrow> writer_ok w' \<and>
     (wr_err w' = DTL_OK \<longrightarrow> (\<exists>al'. alog_step m op al = Some al' \<and> writer_sim w' al'))"

lemma emitted_step:
  assumes "writer_sim w al" "emitted w tag bs (e, w')" "alog_step m op al = add_item (Some (tag, bs)) al"
  shows "step_post m op al w'"
proof (cases "wr_err w' = DTL_OK")
  case True
  then have w: "wr_err w = DTL_OK" "wr_in_section w" "length bs \<le> 0xFFFF" "wr_tlv w' = wr_tlv w @ tlv_bytes tag bs"
    "same_log w w'" "writer_ok w'" using assms(2) by (auto simp: emitted_def)
  then obtain t c fs where o: "al_open al = Some (t, c, fs)" "wr_cur_type w = t" "wr_cur_codec w = c"
    "wr_tlv w = stream fs" "items_ok fs"
    using assms(1) by (auto simp: writer_sim_def open_of_def split: option.splits)
  have "items_ok (fs @ [(tag, bs)])" using o(5) w(3) by (auto simp: items_ok_def)
  with assms w o True show ?thesis
    by (auto simp: step_post_def add_item_def writer_sim_def open_of_def same_log_def stream_snoc)
qed (use assms in \<open>auto simp: step_post_def emitted_def\<close>)

lemma wvalid_map_snd:
  assumes "wvalid P f (\<lambda>x wd. ext m0 wd \<and> emitted w tag bs x) E" "writer_sim w al"
    "alog_step m op al = add_item (Some (tag, bs)) al"
  shows "wvalid P (wmap snd f) (\<lambda>w' wd. ext m0 wd \<and> step_post m op al w') E"
  unfolding wmap_def
  by (rule wvalid_bind [OF assms(1)]) (auto intro!: wvalid_ret emitted_step [OF assms(2) _ assms(3)])


subsection \<open>Closing a section\<close>

lemma compress_post:
  assumes c: "dtl_codec_get i = Some codec"
  shows "world_ok wd \<Longrightarrow> ext m0 wd \<Longrightarrow>
    wpost (\<lambda>r wd'. ext m0 wd' \<and> (\<forall>e. r = Inl e \<longrightarrow> e \<noteq> DTL_OK) \<and>
        (\<forall>ys. r = Inr ys \<longrightarrow> (\<exists>m cap. mem_ok m \<and> fst (codec_encode codec m raw cap) = Ok ys)))
      (\<lambda>_. False) (writer_compress (codec_encode codec) raw cap wd)"
proof (induction cap arbitrary: wd rule: measure_induct_rule [of "\<lambda>cap. DTL_SECTION_MAX_RAW * 2 + 1 - cap"])
  case (less cap)
  note 1 = less.IH less.prems
  obtain p a m where al: "dtl_arena_alloc (w_mem wd) (w_arena wd) cap = (p, a, m)" using prod_cases3 by blast
  have ok: "world_ok (wd\<lparr>w_mem := m, w_arena := a\<rparr>)" by (rule world_ok_arena_alloc [OF 1(2) al])
  then have m: "mem_ok m" using world_ok_mem by fastforce
  have e0: "heap_ext m0 m" using arena_alloc_ext [OF world_ok_mem [OF 1(2)] al] 1(3) by (rule heap_ext_trans [rotated])
  obtain res m' where en: "codec_encode codec m raw cap = (res, m')" by (cases "codec_encode codec m raw cap")
  have pair: "coder_safe (codec_encode codec)" using codec_get_pair [OF c] by (simp add: codec_pair_def)
  have e1: "heap_ext m m'"
    using coder_bounds.frame [OF coder_safe.axioms(1) [OF pair] m en] .
  have ok': "world_ok (wd\<lparr>w_mem := m', w_arena := a\<rparr>)" using world_ok_ext [OF ok, of m'] e1 by (cases wd) simp
  have e2: "heap_ext m0 m'" using heap_ext_trans [OF e0 e1] .
  show ?case
  proof (cases p)
    case None
    with al ok e0 show ?thesis by (subst writer_compress.simps) simp
  next
    case (Some q)
    show ?thesis
    proof (cases res)
      case (Ok ys)
      have "\<exists>m cap. mem_ok m \<and> fst (codec_encode codec m raw cap) = Ok ys"
        by (intro exI [of _ m] exI [of _ cap]) (simp add: m en Ok)
      with Some al en Ok ok' e2 show ?thesis by (subst writer_compress.simps) simp
    next
      case Ub
      then show ?thesis using coder_safe.safe [OF pair m, of raw cap] en by simp
    next
      case (Err rc)
      then have rc: "rc \<in> encode_errs" using codec_encode_err [OF c m, of raw cap rc] en by simp
      show ?thesis
      proof (cases "rc = DTL_ERR_RANGE \<and> cap \<le> DTL_SECTION_MAX_RAW * 2")
        case True
        have "wpost (\<lambda>r wd'. ext m0 wd' \<and> (\<forall>e. r = Inl e \<longrightarrow> e \<noteq> DTL_OK) \<and>
            (\<forall>ys. r = Inr ys \<longrightarrow> (\<exists>m cap. mem_ok m \<and> fst (codec_encode codec m raw cap) = Ok ys))) (\<lambda>_. False)
          (writer_compress (codec_encode codec) raw (cap * 2 + 64) (wd\<lparr>w_mem := m', w_arena := a\<rparr>))"
          by (rule 1(1)) (use True ok' e2 in auto)
        with Some al en Err True show ?thesis by (subst writer_compress.simps) simp
      next
        case False
        with Some al en Err ok' e2 rc show ?thesis by (subst writer_compress.simps) auto
      qed
    qed
  qed
qed


lemma end_section_valid:
  assumes sim: "writer_sim w al"
  shows "wvalid (ext m0) (wmap snd (dtl_writer_end_section w)) (\<lambda>w' wd. ext m0 wd \<and> step_post m WEnd al w') (\<lambda>_. False)"
proof (cases "wr_err w = DTL_OK \<and> wr_in_section w")
  case False
  then show ?thesis using sim
    by (auto simp: dtl_writer_end_section_def step_post_def writer_sim_def intro!: wvalid_ret)
next
  case opn: True
  then obtain t c fs where o: "al_open al = Some (t, c, fs)" "wr_cur_type w = t" "wr_cur_codec w = c"
    "wr_tlv w = stream fs" "items_ok fs"
    and closed: "list_all2 wsection_of (wr_sections w) (al_done al)" and ok: "writer_ok w"
    using sim by (auto simp: writer_sim_def open_of_def split: option.splits)
  have room: "length (wr_sections w) < 64" using ok opn by (simp add: writer_ok_def)
  let ?Q = "\<lambda>w' wd. ext m0 wd \<and> step_post m WEnd al w'"
  have err: "step_post m WEnd al (latch e w)" if "e \<noteq> DTL_OK" for e
    using that ok by (simp add: step_post_def)
  show ?thesis
  proof (cases "length (wr_tlv w) = 0 \<or> length (wr_tlv w) > DTL_SECTION_MAX_RAW \<or> dtl_codec_get c = None")
    case True
    then show ?thesis using opn err o(3)
      by (auto simp: dtl_writer_end_section_def Let_def intro!: wvalid_ret split: option.splits)
  next
    case False
    then obtain codec where codec: "dtl_codec_get c = Some codec" and len: "0 < length (stream fs)"
      "length (stream fs) \<le> DTL_SECTION_MAX_RAW" using o by auto
    have c6: "c \<le> 6" using codec codec_get_iff by blast
    let ?cap = "length (stream fs) + length (stream fs) div 2 + 64"
    let ?R = "\<lambda>r wd'. ext m0 wd' \<and> (\<forall>e. r = Inl e \<longrightarrow> e \<noteq> DTL_OK) \<and>
        (\<forall>ys. r = Inr ys \<longrightarrow> (\<exists>m cap. mem_ok m \<and> fst (codec_encode codec m (stream fs) cap) = Ok ys))"
    let ?new = "\<lambda>out. \<lparr>ws_type = t, ws_codec_id = c, ws_raw_len = of_nat (length (stream fs)),
       ws_comp_len = of_nat (length out), ws_blob = out\<rparr>"
    have comp: "wvalid (ext m0) (writer_compress (codec_encode codec) (stream fs) ?cap) ?R (\<lambda>_. False)"
      by (rule wvalidI) (rule compress_post [OF codec])
    have close: "step_post m WEnd al (w\<lparr>wr_sections := wr_sections w @ [?new out], wr_in_section := False\<rparr>)"
      if out: "length out \<le> 0xFFFFFFFF" "\<exists>m cap. mem_ok m \<and> fst (codec_encode codec m (stream fs) cap) = Ok out" for out
    proof -
      have "wsection_of (?new out) (t, c, fs)"
        using out len o(5) codec by (auto simp: wsection_of_def)
      then have "list_all2 wsection_of (wr_sections w @ [?new out]) (al_done al @ [(t, c, fs)])"
        using closed by (simp add: list_all2_appendI)
      with len c6 o ok opn show ?thesis
        by (auto simp: step_post_def writer_sim_def open_of_def writer_ok_def)
    qed
    have rest: "wvalid (?R r) (wmap snd (case r of Inl rc \<Rightarrow> wret (rc, latch rc w)
       | Inr out \<Rightarrow> if length out > 0xFFFFFFFF then wret (DTL_ERR_RANGE, latch DTL_ERR_RANGE w)
         else wbind (wlift (put_byte DTL_WRITER_MAX_SECTIONS (wr_sections w) (?new out))) (\<lambda>ss.
              wret (DTL_OK, w\<lparr>wr_sections := ss, wr_in_section := False\<rparr>)))) ?Q (\<lambda>_. False)" for r
    proof (cases r)
      case (Inl e)
      then show ?thesis using err by (auto intro!: wvalid_ret)
    next
      case (Inr out)
      show ?thesis
      proof (cases "length out > 0xFFFFFFFF")
        case True
        then show ?thesis using err Inr by (auto intro!: wvalid_ret)
      next
        case False
        then have "length out \<le> 0xFFFFFFFF" by simp
        note cl = close [OF this]
        have "wvalid (\<lambda>wd. ext m0 wd \<and> (\<exists>m cap. mem_ok m \<and> fst (codec_encode codec m (stream fs) cap) = Ok out))
          (wret (w\<lparr>wr_sections := wr_sections w @ [?new out], wr_in_section := False\<rparr>)) ?Q (\<lambda>_. False)"
          by (rule wvalid_ret) (use cl in blast)
        with False Inr room show ?thesis by (auto simp: DTL_WRITER_MAX_SECTIONS_def elim!: wvalid_pre)
      qed
    qed
    have "dtl_writer_end_section w = wbind (writer_compress (codec_encode codec) (stream fs) ?cap) (\<lambda>r.
       case r of Inl rc \<Rightarrow> wret (rc, latch rc w)
       | Inr out \<Rightarrow> if length out > 0xFFFFFFFF then wret (DTL_ERR_RANGE, latch DTL_ERR_RANGE w)
         else wbind (wlift (put_byte DTL_WRITER_MAX_SECTIONS (wr_sections w) (?new out))) (\<lambda>ss.
              wret (DTL_OK, w\<lparr>wr_sections := ss, wr_in_section := False\<rparr>)))"
      unfolding dtl_writer_end_section_def Let_def o(2) [symmetric] o(3) [symmetric] o(4) [symmetric]
      using opn codec len by (simp add: o(3,4) [symmetric])
    then show ?thesis using wvalid_bind [OF comp rest] by simp
  qed
qed

subsection \<open>Refinement\<close>

lemma writer_step_valid:
  assumes sim: "writer_sim w al" and m0: "mem_ok m0" and op: "op_ok m0 op"
  shows "wvalid (ext m0) (writer_do op w) (\<lambda>w' wd. ext m0 wd \<and> step_post m0 op al w') (\<lambda>_. False)"
proof -
  have ok: "writer_ok w" using sim by (simp add: writer_sim_def)
  show ?thesis
  proof (cases op)
    case (WBegin t c)
    have "length (wr_sections w) = length (al_done al)" if "wr_err w = DTL_OK"
      using sim that by (auto simp: writer_sim_def list_all2_lengthD)
    then have "step_post m0 op al (snd (dtl_writer_begin_section t c w))"
      using sim WBegin by (auto simp: dtl_writer_begin_section_def step_post_def writer_sim_def open_of_def
          writer_ok_def DTL_WRITER_MAX_SECTIONS_def stream_def items_ok_def split: option.splits)
    with WBegin show ?thesis by (auto intro!: wvalid_ret)
  next
    case (WRecord r)
    then obtain v where v: "record_view m0 r = Ok v" "rec_shape r" using op by auto
    have "alog_step m0 op al = add_item (Some (rec_tag r, payload_of v)) al" using WRecord v by simp
    from wvalid_map_snd [OF add_record_valid [OF ok m0 v] sim this] WRecord show ?thesis by simp
  next
    case (WRaw tag bs)
    have "alog_step m0 op al = add_item (Some (tag, bs)) al" using WRaw by simp
    from wvalid_map_snd [OF add_raw_valid [OF ok] sim this] WRaw op show ?thesis by simp
  next
    case (WBatch tag vs)
    have "alog_step m0 op al = add_item (Some (tag, concat (map dtl_endian_write_u32le vs))) al" using WBatch by simp
    from wvalid_map_snd [OF add_batch_valid [OF ok] sim this] WBatch show ?thesis by simp
  next
    case WEnd
    with end_section_valid [OF sim] show ?thesis by simp
  next
    case (WHmac k)
    have "step_post m0 op al (snd (dtl_writer_set_hmac k w))"
      using sim WHmac by (auto simp: dtl_writer_set_hmac_def step_post_def writer_sim_def open_of_def writer_ok_def
          split: option.splits)
    with WHmac show ?thesis by (auto intro!: wvalid_ret)
  qed
qed

lemma do_latched: "wr_err w \<noteq> DTL_OK \<Longrightarrow> writer_do op w = wret w"
  by (cases op) (auto simp: dtl_writer_begin_section_def dtl_writer_add_record_def dtl_writer_add_raw_tlv_def
      dtl_writer_emit_tlv_def dtl_writer_add_u32_batch_def dtl_writer_end_section_def dtl_writer_set_hmac_def)

lemma run_latched: "wr_err w \<noteq> DTL_OK \<Longrightarrow> writer_run ops w = wret w"
  by (induction ops) (auto simp: do_latched)

lemma writer_run_valid:
  assumes m0: "mem_ok m0"
  shows "writer_sim w al \<Longrightarrow> list_all (op_ok m0) ops \<Longrightarrow>
    wvalid (ext m0) (writer_run ops w) (\<lambda>w' wd. ext m0 wd \<and> writer_ok w' \<and>
      (wr_err w' = DTL_OK \<longrightarrow> (\<exists>al'. alog_run m0 ops al = Some al' \<and> writer_sim w' al'))) (\<lambda>_. False)"
proof (induction ops arbitrary: w al)
  case Nil
  then show ?case by (auto simp: writer_sim_def intro!: wvalid_ret)
next
  case (Cons op ops)
  let ?Q = "\<lambda>w' wd. ext m0 wd \<and> writer_ok w' \<and>
    (wr_err w' = DTL_OK \<longrightarrow> (\<exists>al'. alog_run m0 (op # ops) al = Some al' \<and> writer_sim w' al'))"
  have "wvalid (ext m0) (writer_run ops w1) ?Q (\<lambda>_. False)" if p: "step_post m0 op al w1" for w1
  proof (cases "wr_err w1 = DTL_OK")
    case True
    with p obtain al1 where "alog_step m0 op al = Some al1" "writer_sim w1 al1" by (auto simp: step_post_def)
    with Cons.IH [OF this(2)] Cons.prems(2) show ?thesis by (auto elim!: wvalid_weaken)
  next
    case False
    with p show ?thesis by (auto simp: run_latched step_post_def intro!: wvalid_ret)
  qed
  then have "wvalid (ext m0) (wbind (writer_do op w) (writer_run ops)) ?Q (\<lambda>_. False)"
    using Cons.prems by (intro wvalid_bind [OF writer_step_valid [OF Cons.prems(1) m0]] wvalid_fact) auto
  then show ?case by simp
qed


subsection \<open>The finished container\<close>

text \<open>The section table of the container, with offsets from \<open>acc\<close> on.\<close>

fun table_of :: "nat \<Rightarrow> dtl_wsection list \<Rightarrow> dtl_section list" where
  "table_of acc [] = []"
| "table_of acc (s # ss) = \<lparr>sec_type = ws_type s, sec_codec_id = ws_codec_id s, sec_raw_len = ws_raw_len s,
     sec_comp_len = ws_comp_len s, sec_offset = of_nat acc, sec_blob = None\<rparr> # table_of (acc + length (ws_blob s)) ss"

definition blob_len_ok :: "dtl_wsection \<Rightarrow> bool" where
  "blob_len_ok s \<longleftrightarrow> unat (ws_comp_len s) = length (ws_blob s)"

definition blobs_of :: "dtl_wsection list \<Rightarrow> u8 list" where
  "blobs_of ss = concat (map ws_blob ss)"

lemma length_blobs_of: "length (blobs_of ss) = (\<Sum>s \<leftarrow> ss. length (ws_blob s))"
  by (simp add: blobs_of_def length_concat comp_def)

lemma sum_comp_len: "list_all blob_len_ok ss \<Longrightarrow> (\<Sum>s \<leftarrow> ss. unat (ws_comp_len s)) = length (blobs_of ss)"
  by (induction ss) (auto simp: blob_len_ok_def blobs_of_def)

lemma table_of_simps [simp]:
  "length (table_of acc ss) = length ss" "\<forall>s \<in> set (table_of acc ss). sec_blob s = None"
  "(\<Sum>s \<leftarrow> table_of acc ss. unat (sec_comp_len s)) = (\<Sum>s \<leftarrow> ss. unat (ws_comp_len s))"
  by (induction ss arbitrary: acc) auto

lemma writer_table_Ok:
  "list_all blob_len_ok ss \<Longrightarrow> length buf + 16 * length ss \<le> cap \<Longrightarrow>
   writer_table cap ss acc buf = Ok (buf @ concat (map section_entry_bytes (table_of acc ss)))"
  by (induction ss arbitrary: acc buf) (auto simp: section_entry_bytes_def blob_len_ok_def)

lemma writer_blobs_Ok:
  "list_all blob_len_ok ss \<Longrightarrow> length buf + length (blobs_of ss) \<le> cap \<Longrightarrow>
   writer_blobs cap ss buf = Ok (buf @ blobs_of ss)"
  by (induction ss arbitrary: buf) (auto simp: blobs_of_def blob_len_ok_def)

definition hmac_flag :: "dtl_writer \<Rightarrow> u8" where
  "hmac_flag w = (if wr_has_hmac w then DTL_FLAG_HAS_HMAC else 0)"

definition container_body :: "dtl_writer \<Rightarrow> u8 list" where
  "container_body w = header_bytes DTL_VERSION (hmac_flag w) (of_nat (length (wr_sections w))) @
     concat (map section_entry_bytes (table_of 0 (wr_sections w))) @ blobs_of (wr_sections w)"

definition container_trailer :: "dtl_writer \<Rightarrow> u8 list" where
  "container_trailer w = (if wr_has_hmac w then mac_ref (wr_hmac_key w) (container_body w) else [])"

lemma length_table_bytes: "length (concat (map section_entry_bytes ss)) = 16 * length ss"
  by (induction ss) auto

lemma magic_bytes: "dtl_endian_write_u32le DTL_MAGIC = [0x44, 0x54, 0x4C, 0x01]"
  by (simp add: dtl_endian_write_u32le_def DTL_MAGIC_def)

lemma writer_image_Ok:
  assumes "list_all blob_len_ok (wr_sections w)"
    and "tot = 12 + length (wr_sections w) * 16 + length (blobs_of (wr_sections w)) + (if wr_has_hmac w then DTL_HMAC_LEN else 0)"
  shows "writer_image w tot = Ok (container_body w @ container_trailer w)"
proof -
  let ?h8 = "header8 DTL_VERSION (hmac_flag w) (of_nat (length (wr_sections w)))"
  have h8: "[0x44, 0x54, 0x4C, 0x01] @ [DTL_VERSION] @ [if wr_has_hmac w then DTL_FLAG_HAS_HMAC else 0] @
       dtl_endian_write_u16le (of_nat (length (wr_sections w))) = ?h8" "length ?h8 = 8"
    by (simp_all add: header8_def magic_bytes hmac_flag_def)
  have hb: "?h8 @ dtl_endian_write_u32le (crc32_ref ?h8) = header_bytes DTL_VERSION (hmac_flag w) (of_nat (length (wr_sections w)))"
    by (simp add: header_bytes_def)
  have lb: "length (container_body w) = 12 + length (wr_sections w) * 16 + length (blobs_of (wr_sections w))"
    by (simp add: container_body_def length_table_bytes)
  have p8: "put_bytes tot [] ?h8 = Ok ?h8" using assms(2) h8(2) by (simp add: put_bytes_def)
  have crc: "rbind (slice_at ?h8 0 8) dtl_crc32 = Ok (crc32_ref ?h8)" using h8(2) by (simp add: slice_at_def dtl_crc32_eq_ref)
  have p12: "put_bytes tot ?h8 (dtl_endian_write_u32le (crc32_ref ?h8)) =
      Ok (header_bytes DTL_VERSION (hmac_flag w) (of_nat (length (wr_sections w))))"
    using assms(2) h8(2) hb by (simp add: put_bytes_def)
  have t: "writer_table tot (wr_sections w) 0 (header_bytes DTL_VERSION (hmac_flag w) (of_nat (length (wr_sections w)))) =
      Ok (header_bytes DTL_VERSION (hmac_flag w) (of_nat (length (wr_sections w))) @
        concat (map section_entry_bytes (table_of 0 (wr_sections w))))"
    using assms by (intro writer_table_Ok) simp_all
  have b: "writer_blobs tot (wr_sections w) (header_bytes DTL_VERSION (hmac_flag w) (of_nat (length (wr_sections w))) @
        concat (map section_entry_bytes (table_of 0 (wr_sections w)))) = Ok (container_body w)"
    using assms writer_blobs_Ok [OF assms(1), of "header_bytes DTL_VERSION (hmac_flag w) (of_nat (length (wr_sections w))) @
        concat (map section_entry_bytes (table_of 0 (wr_sections w)))" tot]
    by (simp add: container_body_def length_table_bytes)
  show ?thesis
    unfolding writer_image_def h8(1) p8 crc rbind_simps p12 t b
    using assms(2) lb by (simp add: container_trailer_def slice_at_def mac_defined put_bytes_def DTL_HMAC_LEN_def)
qed

lemma wsection_blob_ok: "wsection_of s a \<Longrightarrow> blob_len_ok s"
  by (auto simp: wsection_of_def blob_len_ok_def split: prod.splits)

lemma list_all2_blob_ok: "list_all2 wsection_of ss as \<Longrightarrow> list_all blob_len_ok ss"
  by (induction rule: list_all2_induct) (auto simp: wsection_blob_ok)

lemma finish_cases:
  assumes "writer_sim w al" "world_ok wd" "dtl_writer_finish w wd = (r, wd')"
  shows "(\<exists>e w'. r = Ok (e, None, w') \<and> e \<noteq> DTL_OK \<and> wr_err w' = e) \<or>
    r = Ok (DTL_OK, Some (container_body w @ container_trailer w), w) \<and> wr_err w = DTL_OK \<and> \<not> wr_in_section w \<and>
    length (blobs_of (wr_sections w)) \<le> 0xFFFFFFFF"
proof (cases "wr_err w = DTL_OK \<and> \<not> wr_in_section w")
  case True
  then have ok: "list_all blob_len_ok (wr_sections w)" using assms(1) list_all2_blob_ok by (auto simp: writer_sim_def)
  let ?tot = "12 + length (wr_sections w) * 16 + length (blobs_of (wr_sections w)) + (if wr_has_hmac w then DTL_HMAC_LEN else 0)"
  obtain p a m where al: "dtl_arena_alloc (w_mem wd) (w_arena wd) ?tot = (p, a, m)" using prod_cases3 by blast
  show ?thesis
    using assms(3) True writer_image_Ok [OF ok refl] al
    by (cases p) (auto simp: dtl_writer_finish_def Let_def sum_comp_len [OF ok] wbind_def w_arena_alloc_def wret_def wlift_def
        split: if_splits)
next
  case False
  then show ?thesis using assms(3) by (auto simp: dtl_writer_finish_def wret_def split: if_splits)
qed


text \<open>
  A parsed section holds an abstract one: type, codec and raw length agree, the blob lies inside the
  buffer, and the codec unpacks it to the stream of the items wherever the allocations succeed.
\<close>

definition section_holds :: "u8 list \<Rightarrow> dtl_section \<Rightarrow> asection \<Rightarrow> bool" where
  "section_holds buf s a \<longleftrightarrow> (case a of (t, c, fs) \<Rightarrow>
     sec_type s = t \<and> sec_codec_id s = c \<and> unat (sec_raw_len s) = length (stream fs) \<and>
     (\<exists>off codec. sec_blob s = Some off \<and> off + unat (sec_comp_len s) \<le> length buf \<and>
        dtl_codec_get c = Some codec \<and>
        (\<forall>m. mem_ok m \<longrightarrow> heap_never_fails m \<longrightarrow>
           fst (codec_decode codec m (take (unat (sec_comp_len s)) (drop off buf)) (unat (sec_raw_len s))) = Ok (stream fs))))"

lemma table_sections:
  assumes "list_all2 wsection_of ss as" "length pre = base" "blobs = front @ blobs_of ss" "length blobs \<le> 0xFFFFFFFF"
  shows "list_all2 (section_holds (pre @ blobs @ tail)) (map (bind_blob base) (table_of (length front) ss)) as \<and>
    (\<forall>s \<in> set (table_of (length front) ss). section_in_range base (length blobs) (bind_blob base s))"
  using assms(1,3)
proof (induction arbitrary: front rule: list_all2_induct)
  case (Cons s ss a as)
  obtain t c fs where a: "a = (t, c, fs)" by (cases a)
  from Cons(1) obtain codec m cap where sec: "ws_type s = t" "ws_codec_id s = c" "0 < length (stream fs)"
    "length (stream fs) \<le> DTL_SECTION_MAX_RAW" "ws_raw_len s = of_nat (length (stream fs))"
    and codec: "dtl_codec_get c = Some codec" "mem_ok m" "fst (codec_encode codec m (stream fs) cap) = Ok (ws_blob s)"
    unfolding a wsection_of_def by auto
  have comp: "unat (ws_comp_len s) = length (ws_blob s)" using wsection_blob_ok [OF Cons(1)] by (simp add: blob_len_ok_def)
  have raw: "unat (ws_raw_len s) = length (stream fs)"
    unfolding sec(5) using sec(4) by (intro unat_of_nat_u32) (simp add: DTL_SECTION_MAX_RAW_def)
  have b: "blobs = (front @ ws_blob s) @ blobs_of ss" using Cons.prems by (simp add: blobs_of_def)
  have off: "unat (of_nat (length front) :: u32) = length front" using b assms(4) by (intro unat_of_nat_u32) simp
  let ?s = "\<lparr>sec_type = ws_type s, sec_codec_id = ws_codec_id s, sec_raw_len = ws_raw_len s,
     sec_comp_len = ws_comp_len s, sec_offset = of_nat (length front), sec_blob = None\<rparr>"
  have slice: "take (length (ws_blob s)) (drop (base + length front) (pre @ blobs @ tail)) = ws_blob s"
    using b assms(2) by simp
  have dec: "fst (codec_decode codec m' (ws_blob s) (length (stream fs))) = Ok (stream fs)"
    if "mem_ok m'" "heap_never_fails m'" for m'
    using codec_pair.decode_encode [OF codec_get_pair [OF codec(1)] codec(2) that(1) _ codec(3) that(2)] by simp
  have "section_holds (pre @ blobs @ tail) (bind_blob base ?s) a"
    using sec(1,2) raw comp off slice dec codec(1) b assms(2)
    by (auto simp: a section_holds_def bind_blob_def)
  moreover have "section_in_range base (length blobs) (bind_blob base ?s)"
    using raw comp off sec(3,4) b by (auto simp: section_in_range_def bind_blob_def word_less_nat_alt)
  moreover note Cons.IH [OF b]
  ultimately show ?case by simp
qed simp

lemma container_of_writer:
  assumes sim: "list_all2 wsection_of (wr_sections w) as" and ok: "writer_ok w" and small: "length (blobs_of (wr_sections w)) \<le> 0xFFFFFFFF"
  defines "buf \<equiv> container_body w @ container_trailer w"
  shows "fst (dtl_container_parse m a (dtl_buf_init buf)) = Err DTL_ERR_OOM \<or>
    (\<exists>c a' m'. dtl_container_parse m a (dtl_buf_init buf) = (Ok c, a', m') \<and>
       list_all2 (section_holds buf) (cont_sections c) as \<and>
       cont_hmac c = (if wr_has_hmac w then Some (length (container_body w)) else None))"
proof -
  let ?n = "length (wr_sections w)" and ?ss = "table_of 0 (wr_sections w)"
  let ?count = "of_nat ?n :: u16"
  have n: "unat ?count = ?n" using ok by (intro unat_of_nat_u16) (simp add: writer_ok_def)
  let ?pre = "header_bytes DTL_VERSION (hmac_flag w) ?count @ concat (map section_entry_bytes ?ss)"
  let ?base = "12 + 16 * length ?ss"
  have pre: "length ?pre = ?base" by (simp add: length_table_bytes)
  have buf: "buf = ?pre @ blobs_of (wr_sections w) @ container_trailer w" by (simp add: buf_def container_body_def)
  have tr: "length (container_trailer w) = (if hmac_flag w AND DTL_FLAG_HAS_HMAC \<noteq> 0 then 32 else 0)"
    by (simp add: container_trailer_def hmac_flag_def mac_defined DTL_FLAG_HAS_HMAC_def)
  have flags: "hmac_flag w AND NOT DTL_FLAGS_KNOWN = 0"
    by (simp add: hmac_flag_def DTL_FLAGS_KNOWN_def DTL_FLAG_HAS_HMAC_def)
  have len: "length buf \<le> SIZE_MAX"
    using small ok tr by (auto simp: buf length_table_bytes writer_ok_def SIZE_MAX_def)
  note secs = table_sections [OF sim pre, of "blobs_of (wr_sections w)" "[]" "container_trailer w", simplified, OF small,
      unfolded append_assoc, folded buf [unfolded append_assoc]]
  have hf: "hmac_flag w AND DTL_FLAG_HAS_HMAC \<noteq> 0 \<longleftrightarrow> wr_has_hmac w"
    by (simp add: hmac_flag_def DTL_FLAG_HAS_HMAC_def)
  have blen: "buf_len (dtl_buf_init buf) = length buf" by (simp add: dtl_buf_init_def buf_len_def)
  have pos: "buf_pos (dtl_buf_init buf) = 0" by (simp add: dtl_buf_init_def)
  have sum: "(\<Sum>s\<leftarrow>?ss. unat (sec_comp_len s)) \<le> length (blobs_of (wr_sections w))"
    using sum_comp_len [OF list_all2_blob_ok [OF sim]] by simp
  have hm: "length buf - 32 = length (container_body w)" if "wr_has_hmac w"
    using that by (simp add: buf_def container_trailer_def mac_defined)
  have rest: "buf_rest (dtl_buf_init buf) = header_bytes DTL_VERSION (hmac_flag w) ?count @
      concat (map section_entry_bytes ?ss) @ blobs_of (wr_sections w) @ container_trailer w"
    by (simp add: buf_init_ok buf)
  have "(\<exists>a' m'. dtl_container_parse m a (dtl_buf_init buf) =
      (Ok \<lparr>cont_version = DTL_VERSION, cont_flags = hmac_flag w, cont_section_count = ?count,
           cont_sections = map (bind_blob ?base) ?ss,
           cont_hmac = (if hmac_flag w AND DTL_FLAG_HAS_HMAC \<noteq> 0 then Some (buf_len (dtl_buf_init buf) - 32) else None)\<rparr>, a', m'))
    \<or> ?count \<noteq> 0 \<and> fst (dtl_arena_alloc m a (unat ?count * sizeof_dtl_section)) = None \<and>
      fst (dtl_container_parse m a (dtl_buf_init buf)) = Err DTL_ERR_OOM"
    by (rule container_parse_written [OF buf_init_ok(1) _ rest flags _ table_of_simps(2) tr])
      (use n len blen pos sum secs in auto)
  then show ?thesis using secs hf hm blen by auto
qed


subsection \<open>Properties\<close>

lemma writer_init_sim: "writer_sim dtl_writer_init alog_init"
  by (simp add: writer_sim_def writer_ok_def dtl_writer_init_def alog_init_def open_of_def)

lemma writer_run_refines:
  assumes "world_ok wd" "list_all (op_ok (w_mem wd)) ops" "writer_run ops dtl_writer_init wd = (r, wd')"
  shows "\<exists>w. r = Ok w \<and> world_ok wd' \<and> writer_ok w \<and>
    (wr_err w = DTL_OK \<longrightarrow> (\<exists>al. alog_run (w_mem wd) ops alog_init = Some al \<and> writer_sim w al))"
proof -
  note m = world_ok_mem [OF assms(1)]
  have "wpost (\<lambda>w' wd'. ext (w_mem wd) wd' \<and> writer_ok w' \<and>
      (wr_err w' = DTL_OK \<longrightarrow> (\<exists>al'. alog_run (w_mem wd) ops alog_init = Some al' \<and> writer_sim w' al')))
      (\<lambda>_. False) (r, wd')"
    using wvalidD [OF writer_run_valid [OF m writer_init_sim assms(2)] assms(1) heap_ext_refl [OF m]] assms(3) by simp
  then show ?thesis by (cases r) auto
qed

text \<open>
  C13. The writer refines the abstract log: any sequence of calls on readable arguments runs without undefined
  behaviour and keeps the arena and the writer's invariant; as long as no error is latched the calls are
  exactly the abstract steps, and the writer holds the abstract log they build.
\<close>

theorem writer_refines_log:
  assumes "world_ok wd" "list_all (op_ok (w_mem wd)) ops" "writer_run ops dtl_writer_init wd = (r, wd')"
  shows "\<exists>w. r = Ok w \<and> world_ok wd' \<and> writer_ok w \<and>
    (wr_err w = DTL_OK \<longrightarrow> (\<exists>al. alog_run (w_mem wd) ops alog_init = Some al \<and> writer_sim w al))"
  by (rule writer_run_refines [OF assms])

text \<open>
  C12. The bytes the writer emits parse back: for a sequence of calls that ends in a finished container, the
  container parser accepts the buffer (or cannot allocate its table), finds one section per closed section of
  the log with its type and codec, every blob unpacks to the TLV stream of the items added, and an HMAC
  trailer is the MAC of everything before it.
\<close>

theorem writer_container_roundtrip:
  assumes "world_ok wd" "list_all (op_ok (w_mem wd)) ops"
    and "writer_run ops dtl_writer_init wd = (Ok w, wd1)"
    and "dtl_writer_finish w wd1 = (Ok (DTL_OK, Some buf, w2), wd2)"
  shows "\<exists>al. alog_run (w_mem wd) ops alog_init = Some al \<and> al_open al = None \<and>
    (\<exists>body. buf = body @ (if wr_has_hmac w then mac_ref (wr_hmac_key w) body else []) \<and>
     (fst (dtl_container_parse m a (dtl_buf_init buf)) = Err DTL_ERR_OOM \<or>
      (\<exists>c a' m'. dtl_container_parse m a (dtl_buf_init buf) = (Ok c, a', m') \<and>
         list_all2 (section_holds buf) (cont_sections c) (al_done al) \<and>
         cont_hmac c = (if wr_has_hmac w then Some (length body) else None))))"
proof -
  from writer_run_refines [OF assms(1-3)] have wd1: "world_ok wd1" and ok: "writer_ok w"
    and sim: "wr_err w = DTL_OK \<longrightarrow> (\<exists>al. alog_run (w_mem wd) ops alog_init = Some al \<and> writer_sim w al)" by auto
  have "wr_err w = DTL_OK" using assms(4) by (auto simp: dtl_writer_finish_def wret_def split: if_splits)
  with sim obtain al where al: "alog_run (w_mem wd) ops alog_init = Some al" "writer_sim w al" by blast
  from finish_cases [OF al(2) wd1 assms(4)] have
    f: "buf = container_body w @ container_trailer w" "wr_err w = DTL_OK" "\<not> wr_in_section w" "length (blobs_of (wr_sections w)) \<le> 0xFFFFFFFF"
    by auto
  have secs: "list_all2 wsection_of (wr_sections w) (al_done al)" and op: "al_open al = None"
    using al(2) f(2,3) by (auto simp: writer_sim_def open_of_def split: option.splits)
  have "buf = container_body w @ (if wr_has_hmac w then mac_ref (wr_hmac_key w) (container_body w) else [])"
    by (simp add: f(1) container_trailer_def)
  with container_of_writer [OF secs ok f(4), of m a] al(1) op f(1) show ?thesis by blast
qed

text \<open>
  The writer latches: once a call has left an error, every later sequence of calls leaves the writer, the
  heap and the arena exactly as they are, and finishing returns that error and no container.
\<close>

theorem writer_latches:
  assumes "wr_err w \<noteq> DTL_OK"
  shows "writer_run ops w wd = (Ok w, wd) \<and> dtl_writer_finish w wd = (Ok (wr_err w, None, w), wd)"
  using assms by (simp add: run_latched wret_def dtl_writer_finish_def)

text \<open>
  An empty batch is refused with the out-of-memory error whatever memory there is, because the staging
  buffer of zero bytes is the null pointer.
\<close>

theorem writer_empty_batch_oom:
  assumes "wr_err w = DTL_OK"
  shows "dtl_writer_add_u32_batch tag [] w wd = (Ok (DTL_ERR_OOM, w\<lparr>wr_err := DTL_ERR_OOM\<rparr>), wd)"
  using assms by (simp add: dtl_writer_add_u32_batch_def wbind_def w_arena_alloc_def dtl_arena_alloc_def wret_def latch_def)

text \<open>A small log: one STORE section with one raw item.\<close>

definition demo_ops :: "wop list" where
  "demo_ops = [WBegin 1 0, WRaw 0x10 [1, 2], WEnd]"

definition demo_writer :: dtl_writer where
  "demo_writer = \<lparr>wr_sections = [\<lparr>ws_type = 1, ws_codec_id = 0, ws_raw_len = 5, ws_comp_len = 5, ws_blob = [0x10, 2, 0, 1, 2]\<rparr>],
     wr_in_section = False, wr_cur_type = 1, wr_cur_codec = 0, wr_tlv = [0x10, 2, 0, 1, 2], wr_cap = 64,
     wr_has_hmac = False, wr_hmac_key = [], wr_err = DTL_OK\<rparr>"

definition demo_world :: world where
  "demo_world = snd (writer_run demo_ops dtl_writer_init fresh_world)"

lemma grow_fits: "want \<le> newcap \<Longrightarrow> writer_grow GROW_FUEL newcap want = Ok (Some newcap)"
  by (simp add: GROW_FUEL_def numeral_eq_Suc)

lemmas writer_run_simps = record_run demo_ops_def dtl_writer_init_def dtl_writer_begin_section_def
  dtl_writer_add_raw_tlv_def dtl_writer_emit_tlv_def dtl_writer_u8_def dtl_writer_u16_def dtl_writer_bytes_def
  writer_append_def dtl_writer_reserve_def grow_fits dtl_writer_end_section_def writer_compress.simps
  patch_u16_def DTL_SECTION_MAX_RAW_def DTL_WRITER_MAX_SECTIONS_def dtl_codec_get_def dtl_codec_table_def codec_ids
  lift_coder_def dtl_store_encode_def dtl_store_copy_def

lemma demo_run: "writer_run demo_ops dtl_writer_init fresh_world = (Ok demo_writer, demo_world)"
  by (simp add: demo_world_def demo_writer_def writer_run_simps)


lemma demo_finish: "\<exists>buf w2 wd2. dtl_writer_finish demo_writer demo_world = (Ok (DTL_OK, Some buf, w2), wd2)"
proof -
  have ok: "list_all blob_len_ok (wr_sections demo_writer)" by (simp add: demo_writer_def blob_len_ok_def)
  have i: "writer_image demo_writer 33 = Ok (container_body demo_writer @ container_trailer demo_writer)"
    by (rule writer_image_Ok [OF ok]) (simp add: demo_writer_def blobs_of_def)
  have a: "\<exists>p a m. dtl_arena_alloc (w_mem demo_world) (w_arena demo_world) 33 = (Some p, a, m)"
    by (simp add: demo_world_def writer_run_simps)
  show ?thesis using i a by (auto simp: dtl_writer_finish_def demo_writer_def wbind_def w_arena_alloc_def wret_def wlift_def)
qed

theorem writer_refines_log_witness:
  "\<exists>al. alog_run (w_mem fresh_world) demo_ops alog_init = Some al \<and> writer_sim demo_writer al"
proof -
  have "list_all (op_ok (w_mem fresh_world)) demo_ops" by (simp add: demo_ops_def)
  from writer_refines_log [OF fresh_world_ok this demo_run] show ?thesis by (simp add: demo_writer_def)
qed

theorem writer_container_roundtrip_witness:
  "\<exists>buf al w2 wd2. dtl_writer_finish demo_writer demo_world = (Ok (DTL_OK, Some buf, w2), wd2) \<and>
    alog_run (w_mem fresh_world) demo_ops alog_init = Some al \<and> al_done al = [(1, 0, [(0x10, [1, 2])])] \<and>
    (fst (dtl_container_parse (mem_init (\<lambda>_ _. False)) (dtl_arena_init 64) (dtl_buf_init buf)) = Err DTL_ERR_OOM \<or>
     (\<exists>c a' m'. dtl_container_parse (mem_init (\<lambda>_ _. False)) (dtl_arena_init 64) (dtl_buf_init buf) = (Ok c, a', m') \<and>
        list_all2 (section_holds buf) (cont_sections c) (al_done al)))"
proof -
  have ops: "list_all (op_ok (w_mem fresh_world)) demo_ops" by (simp add: demo_ops_def)
  obtain buf w2 wd2 where f: "dtl_writer_finish demo_writer demo_world = (Ok (DTL_OK, Some buf, w2), wd2)" using demo_finish by blast
  have d: "alog_run (w_mem fresh_world) demo_ops alog_init = Some \<lparr>al_done = [(1, 0, [(0x10, [1, 2])])], al_open = None\<rparr>"
    by (simp add: demo_ops_def alog_init_def add_item_def stream_def DTL_SECTION_MAX_RAW_def tlv_bytes_def)
  from writer_container_roundtrip [OF fresh_world_ok ops demo_run f, of "mem_init (\<lambda>_ _. False)" "dtl_arena_init 64"] d f
  show ?thesis by (auto simp: demo_writer_def)
qed

theorem writer_latches_witness:
  "writer_run demo_ops (dtl_writer_init\<lparr>wr_err := DTL_ERR_RANGE\<rparr>) fresh_world =
     (Ok (dtl_writer_init\<lparr>wr_err := DTL_ERR_RANGE\<rparr>), fresh_world)"
  using writer_latches [of "dtl_writer_init\<lparr>wr_err := DTL_ERR_RANGE\<rparr>" demo_ops fresh_world] by simp

theorem writer_empty_batch_oom_witness:
  "fst (dtl_writer_add_u32_batch 0x20 [] dtl_writer_init fresh_world) =
     Ok (DTL_ERR_OOM, dtl_writer_init\<lparr>wr_err := DTL_ERR_OOM\<rparr>)"
  using writer_empty_batch_oom [of dtl_writer_init] by (simp add: dtl_writer_init_def)

end
