(* ===== verification/Query_Lex.thy ===== *)
theory Query_Lex
  imports Core_Err
begin

text \<open>
  \<^verbatim>\<open>src/query/lex.c\<close>: the tokenizer of the filter language.  The source is the array that holds
  the text and its terminator; reading a byte past it is \<open>Ub\<close>, and so is a signed overflow of the
  64-bit accumulator.  A pointer of a token into the source is an offset.  A function that the code lets
  return an error code through its result and a token through \<open>out\<close> returns both.
\<close>

datatype dtl_token_kind =
    DTL_TOK_END
  | DTL_TOK_NUM
  | DTL_TOK_STR
  | DTL_TOK_IDENT
  | DTL_TOK_AND
  | DTL_TOK_OR
  | DTL_TOK_EQ
  | DTL_TOK_NE
  | DTL_TOK_LT
  | DTL_TOK_LE
  | DTL_TOK_GT
  | DTL_TOK_GE
  | DTL_TOK_NOT
  | DTL_TOK_LPAREN
  | DTL_TOK_RPAREN
  | DTL_TOK_DOT

record dtl_token =
  tok_kind :: dtl_token_kind
  tok_num :: int
  tok_s :: "nat option"
  tok_n :: nat

record dtl_lexer =
  lex_src :: "u8 list"
  lex_pos :: nat

text \<open>Character constants, and the range of \<open>int64_t\<close>.\<close>

definition ch :: "char \<Rightarrow> u8" where "ch c = of_char c"

definition INT64_MAX :: int where "INT64_MAX = 9223372036854775807"
definition INT64_MIN :: int where "INT64_MIN = - 9223372036854775808"

definition int64 :: "int \<Rightarrow> int res" where
  "int64 x = (if INT64_MIN \<le> x \<and> x \<le> INT64_MAX then Ok x else Ub)"

definition dtl_lex_is_space :: "u8 \<Rightarrow> bool" where
  "dtl_lex_is_space c \<longleftrightarrow> c = ch CHR '' '' \<or> c = ch CHR 0x09 \<or> c = ch CHR 0x0A \<or> c = ch CHR 0x0D"

definition dtl_lex_is_digit :: "u8 \<Rightarrow> bool" where
  "dtl_lex_is_digit c \<longleftrightarrow> ch CHR ''0'' \<le> c \<and> c \<le> ch CHR ''9''"

definition dtl_lex_is_ident_start :: "u8 \<Rightarrow> bool" where
  "dtl_lex_is_ident_start c \<longleftrightarrow>
     (ch CHR ''a'' \<le> c \<and> c \<le> ch CHR ''z'') \<or> (ch CHR ''A'' \<le> c \<and> c \<le> ch CHR ''Z'') \<or> c = ch CHR ''_''"

definition dtl_lex_is_ident :: "u8 \<Rightarrow> bool" where
  "dtl_lex_is_ident c \<longleftrightarrow> dtl_lex_is_ident_start c \<or> dtl_lex_is_digit c"

definition dtl_lex_init :: "u8 list \<Rightarrow> dtl_lexer" where
  "dtl_lex_init src = \<lparr>lex_src = src, lex_pos = 0\<rparr>"

text \<open>\<open>while (pred(s[pos])) pos++\<close>: where the loop stops.\<close>

function lex_while :: "(u8 \<Rightarrow> bool) \<Rightarrow> u8 list \<Rightarrow> nat \<Rightarrow> nat res" where
  "lex_while pred s pos =
     rbind (byte_at s pos) (\<lambda>c. if pred c then lex_while pred s (pos + 1) else Ok pos)"
  by pat_completeness auto
termination
  by (relation "measure (\<lambda>(pred, s, pos). length s - pos)") (auto simp: byte_at_eq_Ok_iff)

declare lex_while.simps [simp del]

subsection \<open>Numbers and strings\<close>

text \<open>The digit loop: the error code, the accumulator and the position it leaves.\<close>

function lex_digits :: "u8 list \<Rightarrow> nat \<Rightarrow> int \<Rightarrow> (dtl_err \<times> int \<times> nat) res" where
  "lex_digits s pos val =
     rbind (byte_at s pos) (\<lambda>c.
     if dtl_lex_is_digit c then
       (let d = uint c - uint (ch CHR ''0'')
        in if val > (INT64_MAX - d) div 10 then Ok (DTL_ERR_BADQUERY, val, pos)
           else rbind (int64 (val * 10)) (\<lambda>t. rbind (int64 (t + d)) (\<lambda>val. lex_digits s (pos + 1) val)))
     else Ok (DTL_OK, val, pos))"
  by pat_completeness auto
termination
  by (relation "measure (\<lambda>(s, pos, val). length s - pos)") (auto simp: byte_at_eq_Ok_iff)

declare lex_digits.simps [simp del]

definition dtl_lex_number :: "dtl_lexer \<Rightarrow> dtl_token \<Rightarrow> (dtl_err \<times> dtl_token \<times> dtl_lexer) res" where
  "dtl_lex_number lx out =
     (let s = lex_src lx
      in rbind (byte_at s (lex_pos lx)) (\<lambda>c.
         let negative = (c = ch CHR ''-''); pos = (if negative then lex_pos lx + 1 else lex_pos lx)
         in rbind (byte_at s pos) (\<lambda>c.
            if \<not> dtl_lex_is_digit c then Ok (DTL_ERR_BADQUERY, out, lx\<lparr>lex_pos := pos\<rparr>)
            else rbind (lex_digits s pos 0) (\<lambda>(rc, val, pos).
              if rc \<noteq> DTL_OK then Ok (rc, out, lx\<lparr>lex_pos := pos\<rparr>)
              else rbind (int64 (if negative then - val else val)) (\<lambda>num.
                   Ok (DTL_OK, out\<lparr>tok_kind := DTL_TOK_NUM, tok_num := num\<rparr>, lx\<lparr>lex_pos := pos\<rparr>))))))"

text \<open>The string loop: \<open>DTL_OK\<close> and the position of the closing quote, or the error.\<close>

function lex_string_loop :: "u8 list \<Rightarrow> nat \<Rightarrow> (dtl_err \<times> nat) res" where
  "lex_string_loop s pos =
     rbind (byte_at s pos) (\<lambda>c.
     if c = 0 then Ok (DTL_ERR_BADQUERY, pos)
     else if c = ch CHR 0x22 then Ok (DTL_OK, pos)
     else if c = ch CHR 0x5C then
       rbind (byte_at s (pos + 1)) (\<lambda>e.
       if e = 0 then Ok (DTL_ERR_BADQUERY, pos + 1) else lex_string_loop s (pos + 2))
     else lex_string_loop s (pos + 1))"
  by pat_completeness auto
termination
  by (relation "measure (\<lambda>(s, pos). length s - pos)") (auto simp: byte_at_eq_Ok_iff)

declare lex_string_loop.simps [simp del]

definition dtl_lex_string :: "dtl_lexer \<Rightarrow> dtl_token \<Rightarrow> (dtl_err \<times> dtl_token \<times> dtl_lexer) res" where
  "dtl_lex_string lx out =
     (let start = lex_pos lx + 1
      in rbind (lex_string_loop (lex_src lx) start) (\<lambda>(rc, pos).
         if rc \<noteq> DTL_OK then Ok (rc, out, lx\<lparr>lex_pos := pos\<rparr>)
         else Ok (DTL_OK, out\<lparr>tok_kind := DTL_TOK_STR, tok_s := Some start, tok_n := size_sub pos start\<rparr>,
                  lx\<lparr>lex_pos := pos + 1\<rparr>)))"

subsection \<open>Operators\<close>

text \<open>A token of \<open>k\<close> characters; a token whose second character must follow; one that may.\<close>

definition lex_op :: "dtl_lexer \<Rightarrow> dtl_token \<Rightarrow> nat \<Rightarrow> dtl_token_kind \<Rightarrow> (dtl_err \<times> dtl_token \<times> dtl_lexer) res" where
  "lex_op lx out k kind = Ok (DTL_OK, out\<lparr>tok_kind := kind\<rparr>, lx\<lparr>lex_pos := lex_pos lx + k\<rparr>)"

definition lex_pair :: "dtl_lexer \<Rightarrow> dtl_token \<Rightarrow> char \<Rightarrow> dtl_token_kind \<Rightarrow> (dtl_err \<times> dtl_token \<times> dtl_lexer) res" where
  "lex_pair lx out c kind =
     rbind (byte_at (lex_src lx) (lex_pos lx + 1)) (\<lambda>d.
     if d = ch c then lex_op lx out 2 kind else Ok (DTL_ERR_BADQUERY, out, lx))"

definition lex_opt_eq :: "dtl_lexer \<Rightarrow> dtl_token \<Rightarrow> dtl_token_kind \<Rightarrow> dtl_token_kind \<Rightarrow> (dtl_err \<times> dtl_token \<times> dtl_lexer) res" where
  "lex_opt_eq lx out with_eq without =
     rbind (byte_at (lex_src lx) (lex_pos lx + 1)) (\<lambda>d.
     if d = ch CHR ''='' then lex_op lx out 2 with_eq else lex_op lx out 1 without)"

definition lex_switch :: "u8 \<Rightarrow> dtl_lexer \<Rightarrow> dtl_token \<Rightarrow> (dtl_err \<times> dtl_token \<times> dtl_lexer) res" where
  "lex_switch c lx out =
     (if c = ch CHR ''&'' then lex_pair lx out CHR ''&'' DTL_TOK_AND
      else if c = ch CHR ''|'' then lex_pair lx out CHR ''|'' DTL_TOK_OR
      else if c = ch CHR ''='' then lex_pair lx out CHR ''='' DTL_TOK_EQ
      else if c = ch CHR ''!'' then lex_opt_eq lx out DTL_TOK_NE DTL_TOK_NOT
      else if c = ch CHR ''<'' then lex_opt_eq lx out DTL_TOK_LE DTL_TOK_LT
      else if c = ch CHR ''>'' then lex_opt_eq lx out DTL_TOK_GE DTL_TOK_GT
      else if c = ch CHR ''('' then lex_op lx out 1 DTL_TOK_LPAREN
      else if c = ch CHR '')'' then lex_op lx out 1 DTL_TOK_RPAREN
      else if c = ch CHR ''.'' then lex_op lx out 1 DTL_TOK_DOT
      else Ok (DTL_ERR_BADQUERY, out, lx))"

subsection \<open>The next token\<close>

text \<open>A token variable before its first use; the tokenizer sets every field its caller reads.\<close>

definition no_token :: dtl_token where
  "no_token = \<lparr>tok_kind = DTL_TOK_END, tok_num = 0, tok_s = None, tok_n = 0\<rparr>"

definition dtl_lex_next :: "dtl_lexer \<Rightarrow> dtl_token \<Rightarrow> (dtl_err \<times> dtl_token \<times> dtl_lexer) res" where
  "dtl_lex_next lx out =
     rbind (lex_while dtl_lex_is_space (lex_src lx) (lex_pos lx)) (\<lambda>pos.
     let s = lex_src lx; lx = lx\<lparr>lex_pos := pos\<rparr>; out = out\<lparr>tok_s := None, tok_n := 0, tok_num := 0\<rparr>
     in rbind (byte_at s pos) (\<lambda>c.
        if c = 0 then Ok (DTL_OK, out\<lparr>tok_kind := DTL_TOK_END\<rparr>, lx)
        else rbind (if dtl_lex_is_digit c then Ok True
                    else if c = ch CHR ''-'' then rbind (byte_at s (pos + 1)) (\<lambda>d. Ok (dtl_lex_is_digit d))
                    else Ok False) (\<lambda>number.
        if number then dtl_lex_number lx out
        else if dtl_lex_is_ident_start c then
          rbind (lex_while dtl_lex_is_ident s pos) (\<lambda>e.
          Ok (DTL_OK, out\<lparr>tok_kind := DTL_TOK_IDENT, tok_s := Some pos, tok_n := size_sub e pos\<rparr>,
              lx\<lparr>lex_pos := e\<rparr>))
        else if c = ch CHR 0x22 then dtl_lex_string lx out
        else lex_switch c lx out)))"

end
