(* ===== verification/Query_Parse.thy ===== *)
theory Query_Parse
  imports Records_World Query_Lex
begin

text \<open>
  \<^verbatim>\<open>src/query/ast.c\<close>, \<^verbatim>\<open>src/query/parse.c\<close> and the compile half of \<^verbatim>\<open>src/query/query.c\<close>.
  A node of the tree is built once and never changed or shared, so it is a value of a datatype; its
  allocation from the arena, which can fail, is kept, and the bytes of its strings live in the heap.  A
  parser function maps the parser state to \<open>NULL\<close> or a node and the state it leaves.

  The recursion is bounded by the depth counter as in the code.  The two operator loops run on fuel, one
  unit per iteration, from the length of the source; running out would be \<open>Ub\<close>.
\<close>

subsection \<open>Nodes\<close>

datatype dtl_cmp_op = DTL_CMP_EQ | DTL_CMP_NE | DTL_CMP_LT | DTL_CMP_LE | DTL_CMP_GT | DTL_CMP_GE

datatype dtl_ast =
    AOr dtl_ast dtl_ast
  | AAnd dtl_ast dtl_ast
  | ACmp dtl_cmp_op dtl_ast dtl_ast
  | ANot dtl_ast
  | AField addr nat "(addr \<times> nat) option"
  | AInt int
  | AStr addr nat

text \<open>\<open>sizeof(dtl_ast)\<close>: two enums, two pointers, an integer, and two pointers with lengths.\<close>

definition sizeof_ast :: nat where "sizeof_ast = 64"

definition dtl_ast_new :: "dtl_ast \<Rightarrow> dtl_ast option wm" where
  "dtl_ast_new node = wbind (w_arena_alloc sizeof_ast) (\<lambda>p. wret (map_option (\<lambda>_. node) p))"

definition dtl_ast_dup :: "u8 list \<Rightarrow> nat \<Rightarrow> nat \<Rightarrow> addr option wm" where
  "dtl_ast_dup src s n =
     wbind (w_arena_alloc (n + 1)) (\<lambda>buf.
     case buf of None \<Rightarrow> wret None
     | Some p \<Rightarrow>
         wbind (if n \<noteq> 0 then wbind (wlift (slice_at src s n)) (w_store p) else wret ()) (\<lambda>_.
         wbind (w_store (fst p, snd p + n) [0]) (\<lambda>_. wret (Some p))))"

definition dtl_ast_binary :: "(dtl_ast \<Rightarrow> dtl_ast \<Rightarrow> dtl_ast) \<Rightarrow> dtl_ast \<Rightarrow> dtl_ast \<Rightarrow> dtl_ast option wm" where
  "dtl_ast_binary kind left right = dtl_ast_new (kind left right)"

definition dtl_ast_cmp :: "dtl_cmp_op \<Rightarrow> dtl_ast \<Rightarrow> dtl_ast \<Rightarrow> dtl_ast option wm" where
  "dtl_ast_cmp oper left right = dtl_ast_new (ACmp oper left right)"

definition dtl_ast_not :: "dtl_ast \<Rightarrow> dtl_ast option wm" where
  "dtl_ast_not child = dtl_ast_new (ANot child)"

definition dtl_ast_int :: "int \<Rightarrow> dtl_ast option wm" where
  "dtl_ast_int v = dtl_ast_new (AInt v)"

definition dtl_ast_str :: "addr \<Rightarrow> nat \<Rightarrow> dtl_ast option wm" where
  "dtl_ast_str s n = dtl_ast_new (AStr s n)"

text \<open>The node is allocated first, then the copies of its names.\<close>

definition dtl_ast_field :: "u8 list \<Rightarrow> nat \<Rightarrow> nat \<Rightarrow> (nat \<times> nat) option \<Rightarrow> dtl_ast option wm" where
  "dtl_ast_field src s1 n1 second =
     wbind (w_arena_alloc sizeof_ast) (\<lambda>node.
     if node = None then wret None else
     wbind (dtl_ast_dup src s1 n1) (\<lambda>d1.
     case d1 of None \<Rightarrow> wret None
     | Some p1 \<Rightarrow>
         (case second of None \<Rightarrow> wret (Some (AField p1 n1 None))
          | Some (s2, n2) \<Rightarrow>
              wbind (dtl_ast_dup src s2 n2) (\<lambda>d2.
              case d2 of None \<Rightarrow> wret None
              | Some p2 \<Rightarrow> wret (Some (AField p1 n1 (Some (p2, n2))))))))"

subsection \<open>The parser state\<close>

record dtl_parser =
  p_lex :: dtl_lexer
  p_cur :: dtl_token
  p_err :: dtl_err

definition DTL_QUERY_MAX_DEPTH :: nat where "DTL_QUERY_MAX_DEPTH = 64"

definition dtl_parse_advance :: "dtl_parser \<Rightarrow> dtl_parser res" where
  "dtl_parse_advance p =
     rbind (dtl_lex_next (p_lex p) (p_cur p)) (\<lambda>(rc, cur, lx).
     if rc \<noteq> DTL_OK
     then Ok (p\<lparr>p_lex := lx, p_err := if p_err p = DTL_OK then rc else p_err p, p_cur := cur\<lparr>tok_kind := DTL_TOK_END\<rparr>\<rparr>)
     else Ok (p\<lparr>p_lex := lx, p_cur := cur\<rparr>))"

type_synonym parsed_node = "dtl_ast option \<times> dtl_parser"

definition dtl_parse_fail :: "dtl_parser \<Rightarrow> parsed_node wm" where
  "dtl_parse_fail p = wret (None, p\<lparr>p_err := if p_err p = DTL_OK then DTL_ERR_BADQUERY else p_err p\<rparr>)"

text \<open>
  The idioms of the code: \<open>if (x == NULL) return NULL\<close> after a call of a parser function, a constructor
  whose \<open>NULL\<close> latches an out-of-memory error, and an advance.
\<close>

definition pbind :: "parsed_node wm \<Rightarrow> (dtl_ast \<Rightarrow> dtl_parser \<Rightarrow> parsed_node wm) \<Rightarrow> parsed_node wm" where
  "pbind f g = wbind f (\<lambda>(node, p). case node of None \<Rightarrow> wret (None, p) | Some x \<Rightarrow> g x p)"

definition pnode :: "dtl_ast option wm \<Rightarrow> dtl_parser \<Rightarrow> parsed_node wm" where
  "pnode f p = wbind f (\<lambda>node. case node of None \<Rightarrow> wret (None, p\<lparr>p_err := DTL_ERR_OOM\<rparr>)
                                           | Some x \<Rightarrow> wret (Some x, p))"

definition padvance :: "dtl_parser \<Rightarrow> (dtl_parser \<Rightarrow> parsed_node wm) \<Rightarrow> parsed_node wm" where
  "padvance p g = wbind (wlift (dtl_parse_advance p)) g"

text \<open>The decoding loop: \<open>None\<close> for a bad escape, or the number of bytes written.\<close>

fun decode_loop :: "u8 list \<Rightarrow> addr \<Rightarrow> nat \<Rightarrow> nat option wm" where
  "decode_loop [] buf k = wbind (w_store (fst buf, snd buf + k) [0]) (\<lambda>_. wret (Some k))"
| "decode_loop (c # cs) buf k =
     (if c = ch CHR 0x5C then
        (case cs of [] \<Rightarrow> wret None
         | e # cs' \<Rightarrow>
             if e = ch CHR 0x22 \<or> e = ch CHR 0x5C
             then wbind (w_store (fst buf, snd buf + k) [e]) (\<lambda>_. decode_loop cs' buf (k + 1))
             else wret None)
      else wbind (w_store (fst buf, snd buf + k) [c]) (\<lambda>_. decode_loop cs buf (k + 1)))"

text \<open>
  A \<open>NULL\<close> of \<open>dtl_ast_str\<close> is returned as it is: no error is latched here, and \<open>dtl_parse\<close> then
  reports the \<open>NULL\<close> root as a bad query.
\<close>

definition dtl_parse_string :: "dtl_parser \<Rightarrow> nat \<Rightarrow> nat \<Rightarrow> parsed_node wm" where
  "dtl_parse_string p raw rawn =
     wbind (w_arena_alloc (rawn + 1)) (\<lambda>buf.
     case buf of None \<Rightarrow> wret (None, p\<lparr>p_err := DTL_ERR_OOM\<rparr>)
     | Some buf \<Rightarrow>
         wbind (wlift (slice_at (lex_src (p_lex p)) raw rawn)) (\<lambda>bytes.
         wbind (decode_loop bytes buf 0) (\<lambda>k.
         case k of None \<Rightarrow> dtl_parse_fail p
         | Some n \<Rightarrow> wbind (dtl_ast_str buf n) (\<lambda>node. wret (node, p)))))"

definition dtl_parse_cmp_op :: "dtl_token_kind \<Rightarrow> dtl_cmp_op option" where
  "dtl_parse_cmp_op kind = (case kind of
       DTL_TOK_EQ \<Rightarrow> Some DTL_CMP_EQ
     | DTL_TOK_NE \<Rightarrow> Some DTL_CMP_NE
     | DTL_TOK_LT \<Rightarrow> Some DTL_CMP_LT
     | DTL_TOK_LE \<Rightarrow> Some DTL_CMP_LE
     | DTL_TOK_GT \<Rightarrow> Some DTL_CMP_GT
     | DTL_TOK_GE \<Rightarrow> Some DTL_CMP_GE
     | _ \<Rightarrow> None)"

subsection \<open>The parser functions\<close>

text \<open>\<open>while (p->cur.kind == kind) { advance; right = sub(p); left = binary(left, right); }\<close>\<close>

fun parse_chain :: "nat \<Rightarrow> dtl_token_kind \<Rightarrow> (dtl_ast \<Rightarrow> dtl_ast \<Rightarrow> dtl_ast) \<Rightarrow> (dtl_parser \<Rightarrow> parsed_node wm) \<Rightarrow>
    dtl_ast \<Rightarrow> dtl_parser \<Rightarrow> parsed_node wm" where
  "parse_chain 0 kind mk sub left p = wlift Ub"
| "parse_chain (Suc fuel) kind mk sub left p =
     (if tok_kind (p_cur p) = kind then
        padvance p (\<lambda>p.
        pbind (sub p) (\<lambda>right p.
        pbind (pnode (dtl_ast_binary mk left right) p) (\<lambda>left p.
        parse_chain fuel kind mk sub left p)))
      else wret (Some left, p))"

definition chain_fuel :: "dtl_parser \<Rightarrow> nat" where
  "chain_fuel p = length (lex_src (p_lex p)) + 2"

definition tok_start :: "dtl_token \<Rightarrow> nat" where
  "tok_start t = (case tok_s t of Some i \<Rightarrow> i | None \<Rightarrow> 0)"

function dtl_parse_expr :: "nat \<Rightarrow> dtl_parser \<Rightarrow> parsed_node wm"
  and dtl_parse_and :: "nat \<Rightarrow> dtl_parser \<Rightarrow> parsed_node wm"
  and dtl_parse_cmp :: "nat \<Rightarrow> dtl_parser \<Rightarrow> parsed_node wm"
  and dtl_parse_primary :: "nat \<Rightarrow> dtl_parser \<Rightarrow> parsed_node wm"
where
  "dtl_parse_primary depth = (\<lambda>p.
     if p_err p \<noteq> DTL_OK \<or> depth > DTL_QUERY_MAX_DEPTH then dtl_parse_fail p
     else case tok_kind (p_cur p) of
       DTL_TOK_NUM \<Rightarrow>
         pbind (pnode (dtl_ast_int (tok_num (p_cur p))) p) (\<lambda>node p.
         padvance p (\<lambda>p. wret (Some node, p)))
     | DTL_TOK_STR \<Rightarrow>
         pbind (dtl_parse_string p (tok_start (p_cur p)) (tok_n (p_cur p))) (\<lambda>node p.
         padvance p (\<lambda>p. wret (Some node, p)))
     | DTL_TOK_IDENT \<Rightarrow>
         (let src = lex_src (p_lex p); a = tok_start (p_cur p); an = tok_n (p_cur p)
          in padvance p (\<lambda>p.
             if tok_kind (p_cur p) = DTL_TOK_DOT then
               padvance p (\<lambda>p.
               if tok_kind (p_cur p) \<noteq> DTL_TOK_IDENT then dtl_parse_fail p
               else let b = tok_start (p_cur p); bn = tok_n (p_cur p)
                    in padvance p (\<lambda>p. pnode (dtl_ast_field src a an (Some (b, bn))) p))
             else pnode (dtl_ast_field src a an None) p))
     | DTL_TOK_LPAREN \<Rightarrow>
         padvance p (\<lambda>p.
         pbind (dtl_parse_expr (depth + 1) p) (\<lambda>inner p.
         if tok_kind (p_cur p) \<noteq> DTL_TOK_RPAREN then dtl_parse_fail p
         else padvance p (\<lambda>p. wret (Some inner, p))))
     | DTL_TOK_NOT \<Rightarrow>
         padvance p (\<lambda>p.
         pbind (dtl_parse_primary (depth + 1) p) (\<lambda>child p. pnode (dtl_ast_not child) p))
     | _ \<Rightarrow> dtl_parse_fail p)"
| "dtl_parse_cmp depth = (\<lambda>p.
     if p_err p \<noteq> DTL_OK \<or> depth > DTL_QUERY_MAX_DEPTH then dtl_parse_fail p
     else pbind (dtl_parse_primary (depth + 1) p) (\<lambda>left p.
       case dtl_parse_cmp_op (tok_kind (p_cur p)) of
         Some oper \<Rightarrow>
           padvance p (\<lambda>p.
           pbind (dtl_parse_primary (depth + 1) p) (\<lambda>right p.
           pnode (dtl_ast_cmp oper left right) p))
       | None \<Rightarrow> wret (Some left, p)))"
| "dtl_parse_and depth = (\<lambda>p.
     if p_err p \<noteq> DTL_OK \<or> depth > DTL_QUERY_MAX_DEPTH then dtl_parse_fail p
     else pbind (dtl_parse_cmp (depth + 1) p) (\<lambda>left p.
       parse_chain (chain_fuel p) DTL_TOK_AND AAnd (dtl_parse_cmp (depth + 1)) left p))"
| "dtl_parse_expr depth = (\<lambda>p.
     if p_err p \<noteq> DTL_OK \<or> depth > DTL_QUERY_MAX_DEPTH then dtl_parse_fail p
     else pbind (dtl_parse_and (depth + 1) p) (\<lambda>left p.
       parse_chain (chain_fuel p) DTL_TOK_OR AOr (dtl_parse_and (depth + 1)) left p))"
  by pat_completeness auto
termination
  by (relation "measure (\<lambda>x. 65 - (case x of Inl (Inl d) \<Rightarrow> d | Inl (Inr d) \<Rightarrow> d | Inr (Inl d) \<Rightarrow> d | Inr (Inr d) \<Rightarrow> d))")
    (auto simp: DTL_QUERY_MAX_DEPTH_def)

lemmas dtl_parse_simps = dtl_parse_primary.simps dtl_parse_cmp.simps dtl_parse_and.simps dtl_parse_expr.simps

declare dtl_parse_simps [simp del]

definition dtl_parse :: "u8 list \<Rightarrow> dtl_ast wm" where
  "dtl_parse src =
     wbind (wlift (dtl_parse_advance \<lparr>p_lex = dtl_lex_init src, p_cur = no_token, p_err = DTL_OK\<rparr>)) (\<lambda>p.
     wbind (dtl_parse_expr 0 p) (\<lambda>(root, p).
     if p_err p \<noteq> DTL_OK then wfail (p_err p)
     else case root of None \<Rightarrow> wfail DTL_ERR_BADQUERY
          | Some root \<Rightarrow>
              if tok_kind (p_cur p) \<noteq> DTL_TOK_END then wfail DTL_ERR_BADQUERY else wret root))"

record dtl_query =
  q_root :: dtl_ast

text \<open>\<open>sizeof(dtl_query)\<close>: one pointer.\<close>

definition sizeof_query :: nat where "sizeof_query = 8"

definition dtl_query_compile :: "u8 list \<Rightarrow> dtl_query wm" where
  "dtl_query_compile src =
     wbind (dtl_parse src) (\<lambda>root.
     wbind (w_arena_alloc sizeof_query) (\<lambda>q.
     case q of None \<Rightarrow> wfail DTL_ERR_OOM | Some _ \<Rightarrow> wret \<lparr>q_root = root\<rparr>))"

end
