(* ===== verification/Query_Eval.thy ===== *)
theory Query_Eval
  imports Query_Parse Records_Parse
begin

text \<open>
  \<^verbatim>\<open>src/query/eval.c\<close> and the match half of \<^verbatim>\<open>src/query/query.c\<close>: evaluating a tree against one
  record.  Evaluation reads the strings of the tree and of the record through their pointers in the heap
  \<open>m\<close> and changes nothing; a read of memory that is gone is \<open>Ub\<close>.
\<close>

datatype dtl_value = VAL_NONE | VAL_INT int | VAL_STR "addr option" nat

definition dtl_name_eq :: "mem \<Rightarrow> addr \<Rightarrow> nat \<Rightarrow> u8 list \<Rightarrow> bool res" where
  "dtl_name_eq m s n lit = (if length lit = n then rbind (load_bytes m s n) (\<lambda>bs. Ok (bs = lit)) else Ok False)"

definition dtl_ascii_lower :: "u8 \<Rightarrow> u8" where
  "dtl_ascii_lower c = (if ch CHR ''A'' \<le> c \<and> c \<le> ch CHR ''Z'' then c + (ch CHR ''a'' - ch CHR ''A'') else c)"

text \<open>The comparison loop of \<open>dtl_name_ieq\<close> from index \<open>i\<close> on.\<close>

fun name_ieq_loop :: "mem \<Rightarrow> addr \<Rightarrow> nat \<Rightarrow> u8 list \<Rightarrow> bool res" where
  "name_ieq_loop m s i [] = Ok True"
| "name_ieq_loop m s i (l # ls) =
     rbind (load_bytes m (fst s, snd s + i) 1) (\<lambda>bs.
     if dtl_ascii_lower (hd bs) \<noteq> dtl_ascii_lower l then Ok False else name_ieq_loop m s (i + 1) ls)"

definition dtl_name_ieq :: "mem \<Rightarrow> addr \<Rightarrow> nat \<Rightarrow> u8 list \<Rightarrow> bool res" where
  "dtl_name_ieq m s n lit = (if length lit \<noteq> n then Ok False else name_ieq_loop m s 0 lit)"

definition type_names :: "(string \<times> u8) list" where
  "type_names =
    [(''HEARTBEAT'', DTL_REC_HEARTBEAT), (''SENSOR'', DTL_REC_SENSOR), (''EVENT'', DTL_REC_EVENT),
     (''DIAG'', DTL_REC_DIAG), (''GEO'', DTL_REC_GEO), (''BATTERY'', DTL_REC_BATTERY), (''NET'', DTL_REC_NET),
     (''LOG'', DTL_REC_LOG), (''CONFIG'', DTL_REC_CONFIG), (''KEYREF'', DTL_REC_KEYREF),
     (''FIRMWARE'', DTL_REC_FIRMWARE)]"

fun typename_loop :: "mem \<Rightarrow> addr \<Rightarrow> nat \<Rightarrow> (string \<times> u8) list \<Rightarrow> u8 option res" where
  "typename_loop m s n [] = Ok None"
| "typename_loop m s n ((name, tag) # names) =
     rbind (dtl_name_ieq m s n (map ch name)) (\<lambda>eq. if eq then Ok (Some tag) else typename_loop m s n names)"

definition dtl_typename_tag :: "mem \<Rightarrow> addr \<Rightarrow> nat \<Rightarrow> u8 option res" where
  "dtl_typename_tag m s n = typename_loop m s n type_names"

subsection \<open>Fields\<close>

text \<open>A run of \<open>if (dtl_name_eq(s, n, name)) return value;\<close>, and \<open>dtl_val_none()\<close> behind it.\<close>

fun first_field :: "mem \<Rightarrow> addr \<Rightarrow> nat \<Rightarrow> (string \<times> dtl_value) list \<Rightarrow> dtl_value res" where
  "first_field m s n [] = Ok VAL_NONE"
| "first_field m s n ((name, v) # fs) =
     rbind (dtl_name_eq m s n (map ch name)) (\<lambda>eq. if eq then Ok v else first_field m s n fs)"

text \<open>The pairs of a CONFIG record up to its count.\<close>

fun config_field :: "mem \<Rightarrow> addr \<Rightarrow> nat \<Rightarrow> nat \<Rightarrow> (addr \<times> addr) list \<Rightarrow> dtl_value res" where
  "config_field m s n 0 kvs = Ok VAL_NONE"
| "config_field m s n (Suc i) [] = Ub"
| "config_field m s n (Suc i) ((k, v) # kvs) =
     rbind (load_cstr m k) (\<lambda>key.
     rbind (dtl_name_eq m s n key) (\<lambda>eq.
     if eq then rbind (load_cstr m v) (\<lambda>val. Ok (VAL_STR (Some v) (length val)))
     else config_field m s n i kvs))"

fun dtl_field_value :: "mem \<Rightarrow> dtl_record \<Rightarrow> addr \<Rightarrow> nat \<Rightarrow> dtl_value res" where
  "dtl_field_value m (RHeartbeat h) s n = first_field m s n
     [(''seq'', VAL_INT (uint (hb_seq h))), (''uptime'', VAL_INT (uint (hb_uptime_s h)))]"
| "dtl_field_value m (RGeo g) s n = first_field m s n
     [(''lat'', VAL_INT (sint (geo_lat_e7 g))), (''lon'', VAL_INT (sint (geo_lon_e7 g))),
      (''alt'', VAL_INT (sint (geo_alt_mm g)))]"
| "dtl_field_value m (RBattery b) s n = first_field m s n
     [(''pct'', VAL_INT (uint (bat_pct b))), (''temp'', VAL_INT (sint (bat_temp_c_e1 b))),
      (''cycles'', VAL_INT (uint (bat_cycles b)))]"
| "dtl_field_value m (RNet x) s n = first_field m s n
     [(''iface'', VAL_INT (uint (net_iface_id x))), (''rx_bytes'', VAL_INT (uint (net_rx_bytes x))),
      (''tx_bytes'', VAL_INT (uint (net_tx_bytes x))), (''rx_pkts'', VAL_INT (uint (net_rx_pkts x))),
      (''tx_pkts'', VAL_INT (uint (net_tx_pkts x)))]"
| "dtl_field_value m (RFirmware f) s n = first_field m s n
     [(''major'', VAL_INT (uint (fw_major f))), (''minor'', VAL_INT (uint (fw_minor f))),
      (''patch'', VAL_INT (uint (fw_patch f)))]"
| "dtl_field_value m (RSensor x) s n = first_field m s n
     [(''id'', VAL_INT (uint (sen_sensor_id x))), (''count'', VAL_INT (uint (sen_count x)))]"
| "dtl_field_value m (REvent e) s n = first_field m s n
     [(''code'', VAL_INT (uint (ev_code e))), (''len'', VAL_INT (uint (ev_payload_len e)))]"
| "dtl_field_value m (RLog l) s n = first_field m s n
     [(''severity'', VAL_INT (uint (log_severity l))), (''len'', VAL_INT (uint (log_msg_len l))),
      (''msg'', VAL_STR (log_msg l) (unat (log_msg_len l)))]"
| "dtl_field_value m (RConfig c) s n = config_field m s n (unat (cfg_pair_count c)) (cfg_pairs c)"
| "dtl_field_value m (RKeyref k) s n = first_field m s n
     [(''slot'', VAL_INT (uint (kr_slot_id k))), (''label'', VAL_STR (kr_label k) (unat (kr_label_len k)))]"
| "dtl_field_value m (RDiag d) s n = first_field m s n
     [(''subsystem'', VAL_INT (uint (dg_subsystem d))), (''len'', VAL_INT (uint (dg_blob_len d)))]"

definition dtl_resolve :: "mem \<Rightarrow> addr \<Rightarrow> nat \<Rightarrow> (addr \<times> nat) option \<Rightarrow> dtl_record \<Rightarrow> dtl_value res" where
  "dtl_resolve m s1 n1 second rec = (case second of
       None \<Rightarrow>
         rbind (dtl_name_eq m s1 n1 (map ch ''type'')) (\<lambda>is_type.
         if is_type then Ok (VAL_INT (uint (rec_tag rec)))
         else rbind (dtl_typename_tag m s1 n1) (\<lambda>tag.
              case tag of Some t \<Rightarrow> Ok (VAL_INT (uint t)) | None \<Rightarrow> dtl_field_value m rec s1 n1))
     | Some (s2, n2) \<Rightarrow>
         rbind (dtl_typename_tag m s1 n1) (\<lambda>tag.
         case tag of None \<Rightarrow> Ok VAL_NONE
         | Some t \<Rightarrow> if rec_tag rec \<noteq> t then Ok VAL_NONE else dtl_field_value m rec s2 n2))"

subsection \<open>Comparison\<close>

fun dtl_int_cmp :: "int \<Rightarrow> int \<Rightarrow> dtl_cmp_op \<Rightarrow> bool" where
  "dtl_int_cmp a b DTL_CMP_EQ \<longleftrightarrow> a = b"
| "dtl_int_cmp a b DTL_CMP_NE \<longleftrightarrow> a \<noteq> b"
| "dtl_int_cmp a b DTL_CMP_LT \<longleftrightarrow> a < b"
| "dtl_int_cmp a b DTL_CMP_LE \<longleftrightarrow> a \<le> b"
| "dtl_int_cmp a b DTL_CMP_GT \<longleftrightarrow> a > b"
| "dtl_int_cmp a b DTL_CMP_GE \<longleftrightarrow> a \<ge> b"

text \<open>The sign of \<open>memcmp\<close>: the first differing bytes, as unsigned.\<close>

fun c_memcmp :: "u8 list \<Rightarrow> u8 list \<Rightarrow> int" where
  "c_memcmp (x # xs) (y # ys) = (if x < y then - 1 else if y < x then 1 else c_memcmp xs ys)"
| "c_memcmp _ _ = 0"

definition load_ptr :: "mem \<Rightarrow> addr option \<Rightarrow> nat \<Rightarrow> u8 list res" where
  "load_ptr m p n = (case p of None \<Rightarrow> Ub | Some p \<Rightarrow> load_bytes m p n)"

definition dtl_str_cmp :: "mem \<Rightarrow> addr option \<times> nat \<Rightarrow> addr option \<times> nat \<Rightarrow> dtl_cmp_op \<Rightarrow> bool res" where
  "dtl_str_cmp m a b oper =
     (let k = (if snd a < snd b then snd a else snd b)
      in rbind (if k = 0 then Ok 0
                else rbind (load_ptr m (fst a) k) (\<lambda>x. rbind (load_ptr m (fst b) k) (\<lambda>y. Ok (c_memcmp x y)))) (\<lambda>c.
         let c = (if c = 0 then (if snd a < snd b then - 1 else if snd a > snd b then 1 else 0) else c)
         in Ok (dtl_int_cmp c 0 oper)))"

fun dtl_compare :: "mem \<Rightarrow> dtl_value \<Rightarrow> dtl_value \<Rightarrow> dtl_cmp_op \<Rightarrow> bool res" where
  "dtl_compare m VAL_NONE r oper = Ok False"
| "dtl_compare m l VAL_NONE oper = Ok False"
| "dtl_compare m (VAL_INT a) (VAL_INT b) oper = Ok (dtl_int_cmp a b oper)"
| "dtl_compare m (VAL_STR s n) (VAL_STR t k) oper = dtl_str_cmp m (s, n) (t, k) oper"
| "dtl_compare m l r oper = Ok (oper = DTL_CMP_NE)"

fun dtl_truthy :: "dtl_value \<Rightarrow> bool" where
  "dtl_truthy (VAL_INT i) \<longleftrightarrow> i \<noteq> 0"
| "dtl_truthy (VAL_STR s n) \<longleftrightarrow> n \<noteq> 0"
| "dtl_truthy VAL_NONE \<longleftrightarrow> False"

subsection \<open>Evaluation\<close>

fun dtl_eval_value :: "mem \<Rightarrow> dtl_ast \<Rightarrow> dtl_record \<Rightarrow> dtl_value res" where
  "dtl_eval_value m (AInt i) rec = Ok (VAL_INT i)"
| "dtl_eval_value m (AStr s n) rec = Ok (VAL_STR (Some s) n)"
| "dtl_eval_value m (AField s1 n1 second) rec = dtl_resolve m s1 n1 second rec"
| "dtl_eval_value m (ANot a) rec =
     rbind (dtl_eval_value m a rec) (\<lambda>v. Ok (VAL_INT (of_bool (\<not> dtl_truthy v))))"
| "dtl_eval_value m (AAnd a b) rec =
     rbind (dtl_eval_value m a rec) (\<lambda>v.
     if \<not> dtl_truthy v then Ok (VAL_INT 0)
     else rbind (dtl_eval_value m b rec) (\<lambda>v. Ok (VAL_INT (of_bool (dtl_truthy v)))))"
| "dtl_eval_value m (AOr a b) rec =
     rbind (dtl_eval_value m a rec) (\<lambda>v.
     if dtl_truthy v then Ok (VAL_INT 1)
     else rbind (dtl_eval_value m b rec) (\<lambda>v. Ok (VAL_INT (of_bool (dtl_truthy v)))))"
| "dtl_eval_value m (ACmp oper a b) rec =
     rbind (dtl_eval_value m a rec) (\<lambda>l.
     rbind (dtl_eval_value m b rec) (\<lambda>r.
     rbind (dtl_compare m l r oper) (\<lambda>t. Ok (VAL_INT (of_bool t)))))"

definition dtl_query_eval :: "mem \<Rightarrow> dtl_ast \<Rightarrow> dtl_record \<Rightarrow> bool res" where
  "dtl_query_eval m node rec = rbind (dtl_eval_value m node rec) (\<lambda>v. Ok (dtl_truthy v))"

definition dtl_query_match :: "mem \<Rightarrow> dtl_query \<Rightarrow> dtl_record \<Rightarrow> bool res" where
  "dtl_query_match m q rec = dtl_query_eval m (q_root q) rec"

end
