(* ===== verification/Query_Lex_Spec.thy ===== *)
theory Query_Lex_Spec
  imports Query_Lex
begin

text \<open>
  What the tokenizer computes.  \<open>lex_tok\<close> reads one token off a list of bytes; the positional tokenizer
  is shown to agree with it wherever a terminator follows, so it never reads past the terminator.
  \<open>spelled\<close> says what it means for a text to spell a list of tokens, and the token stream of a text is
  shown to be exactly the list it spells.
\<close>

datatype tok = TNum int | TStr "u8 list" | TIdent "u8 list" | TOp dtl_token_kind | TBad

lemmas ch_eval = ch_def dtl_lex_is_space_def dtl_lex_is_digit_def dtl_lex_is_ident_start_def dtl_lex_is_ident_def

subsection \<open>A terminator ahead\<close>

definition pos_ok :: "u8 list \<Rightarrow> nat \<Rightarrow> bool" where
  "pos_ok s pos \<longleftrightarrow> 0 \<in> set (drop pos s)"

lemma pos_ok_lt: "pos_ok s pos \<Longrightarrow> pos < length s"
  by (cases "pos < length s") (simp_all add: pos_ok_def)

lemma pos_ok_byte [simp]: "pos_ok s pos \<Longrightarrow> byte_at s pos = Ok (s ! pos)"
  by (simp add: pos_ok_lt)

lemma pos_ok_drop: "pos_ok s pos \<Longrightarrow> drop pos s = s ! pos # drop (Suc pos) s"
  by (simp add: pos_ok_lt drop_Cons_nth)

lemma pos_ok_Suc: "pos_ok s pos \<Longrightarrow> s ! pos \<noteq> 0 \<Longrightarrow> pos_ok s (Suc pos)"
  using pos_ok_drop [of s pos] by (auto simp: pos_ok_def)

lemma pos_ok_skip: "pos_ok s pos \<Longrightarrow> 0 \<notin> set (take n (drop pos s)) \<Longrightarrow> pos_ok s (pos + n)"
  using take_drop_append [of n pos s] unfolding pos_ok_def by (metis Un_iff set_append)

lemma lex_while_eq:
  assumes "pos_ok s pos" "\<not> pred 0"
  shows "lex_while pred s pos = Ok (pos + length (takeWhile pred (drop pos s)))"
    and "pos_ok s (pos + length (takeWhile pred (drop pos s)))"
proof -
  show "lex_while pred s pos = Ok (pos + length (takeWhile pred (drop pos s)))"
    using assms
  proof (induction pred s pos rule: lex_while.induct)
    case (1 pred s pos)
    show ?case
    proof (cases "pred (s ! pos)")
      case True
      then have "s ! pos \<noteq> 0" using "1.prems"(2) by metis
      then show ?thesis
        using True "1.IH" [of "s ! pos"] "1.prems" pos_ok_Suc [of s pos] pos_ok_drop [of s pos]
        by (simp add: lex_while.simps [of pred s pos])
    qed (use "1.prems" pos_ok_drop [of s pos] in \<open>simp add: lex_while.simps [of pred s pos]\<close>)
  qed
  have "0 \<notin> set (takeWhile pred (drop pos s))" using assms(2) set_takeWhileD by fastforce
  then show "pos_ok s (pos + length (takeWhile pred (drop pos s)))"
    using pos_ok_skip [OF assms(1)] by (metis takeWhile_eq_take)
qed

subsection \<open>Numbers\<close>

definition digit_val :: "u8 \<Rightarrow> int" where
  "digit_val c = uint c - 48"

definition dec_val :: "int \<Rightarrow> u8 list \<Rightarrow> int" where
  "dec_val = foldl (\<lambda>v c. v * 10 + digit_val c)"

lemma dec_val_simps [simp]: "dec_val v [] = v" "dec_val v (c # cs) = dec_val (v * 10 + digit_val c) cs"
  by (simp_all add: dec_val_def)

lemma digit_val_range: "dtl_lex_is_digit c \<Longrightarrow> 0 \<le> digit_val c \<and> digit_val c \<le> 9"
  by (auto simp: ch_eval digit_val_def word_le_def)

lemma dec_val_ge: "0 \<le> v \<Longrightarrow> \<forall>c \<in> set cs. dtl_lex_is_digit c \<Longrightarrow> v \<le> dec_val v cs"
proof (induction cs arbitrary: v)
  case (Cons c cs)
  then have "v \<le> v * 10 + digit_val c" "0 \<le> v * 10 + digit_val c" using digit_val_range [of c] by simp_all
  with Cons.IH [of "v * 10 + digit_val c"] Cons.prems show ?case by simp
qed simp

lemma not_digit_0 [simp]: "\<not> dtl_lex_is_digit 0"
  by (simp add: ch_eval)

lemma lex_digits_eq:
  assumes "pos_ok s pos" "0 \<le> val" "val \<le> INT64_MAX"
  shows "let ds = takeWhile dtl_lex_is_digit (drop pos s)
    in if dec_val val ds \<le> INT64_MAX then lex_digits s pos val = Ok (DTL_OK, dec_val val ds, pos + length ds)
       else \<exists>v p. lex_digits s pos val = Ok (DTL_ERR_BADQUERY, v, p)"
  using assms
proof (induction s pos val rule: lex_digits.induct)
  case (1 s pos val)
  let ?c = "s ! pos"
  show ?case
  proof (cases "dtl_lex_is_digit ?c")
    case True
    let ?d = "digit_val ?c"
    have d: "uint ?c - uint (ch CHR ''0'') = ?d" by (simp add: digit_val_def ch_def)
    have nz: "?c \<noteq> 0" using True by auto
    have ds: "takeWhile dtl_lex_is_digit (drop pos s) = ?c # takeWhile dtl_lex_is_digit (drop (Suc pos) s)"
      using True pos_ok_drop [OF "1.prems"(1)] by simp
    have all: "\<forall>c \<in> set (takeWhile dtl_lex_is_digit (drop (Suc pos) s)). dtl_lex_is_digit c"
      by (auto dest: set_takeWhileD)
    have rd: "0 \<le> ?d" "?d \<le> 9" using digit_val_range [OF True] by auto
    have guard: "val > (INT64_MAX - ?d) div 10 \<longleftrightarrow> val * 10 + ?d > INT64_MAX" by linarith
    show ?thesis
    proof (cases "val * 10 + ?d > INT64_MAX")
      case over: True
      then have "dec_val (val * 10 + ?d) (takeWhile dtl_lex_is_digit (drop (Suc pos) s)) > INT64_MAX"
        using dec_val_ge [OF _ all, of "val * 10 + ?d"] rd "1.prems"(2) by linarith
      then show ?thesis
        using over True "1.prems"(1) by (simp add: lex_digits.simps [of s pos val] Let_def d guard ds)
    next
      case False
      have i: "int64 (val * 10) = Ok (val * 10)" "int64 (val * 10 + ?d) = Ok (val * 10 + ?d)"
        using False rd "1.prems" by (auto simp: int64_def INT64_MIN_def INT64_MAX_def)
      have eq: "lex_digits s pos val = lex_digits s (Suc pos) (val * 10 + ?d)"
        using False True "1.prems"(1) i by (simp add: lex_digits.simps [of s pos val] Let_def d guard)
      show ?thesis
        unfolding eq ds Let_def
        using "1.IH" [of ?c ?d "val * 10" "val * 10 + ?d"] i True guard False d rd "1.prems" nz
          pos_ok_Suc [of s pos]
        by (simp add: Let_def split: if_splits)
    qed
  next
    case False
    then show ?thesis
      using "1.prems" pos_ok_drop [OF "1.prems"(1)] by (simp add: lex_digits.simps [of s pos val] Let_def)
  qed
qed

subsection \<open>Strings\<close>

fun str_body :: "u8 list \<Rightarrow> u8 list option" where
  "str_body [] = None"
| "str_body (c # cs) =
     (if c = 0 then None
      else if c = ch CHR 0x22 then Some []
      else if c = ch CHR 0x5C then
        (case cs of [] \<Rightarrow> None
         | e # cs' \<Rightarrow> if e = 0 then None else map_option (\<lambda>r. c # e # r) (str_body cs'))
      else map_option (Cons c) (str_body cs))"

lemma str_body_prefix:
  "str_body xs = Some r \<Longrightarrow> \<exists>rest. xs = r @ ch CHR 0x22 # rest \<and> 0 \<notin> set r"
proof (induction xs arbitrary: r rule: str_body.induct)
  case (2 c cs)
  then show ?case by (fastforce split: if_splits list.splits)
qed simp

lemma lex_string_loop_eq:
  assumes "pos_ok s pos"
  shows "case str_body (drop pos s) of
      Some r \<Rightarrow> lex_string_loop s pos = Ok (DTL_OK, pos + length r) \<and> pos_ok s (pos + length r + 1)
    | None \<Rightarrow> \<exists>p. lex_string_loop s pos = Ok (DTL_ERR_BADQUERY, p)"
  using assms
proof (induction s pos rule: lex_string_loop.induct)
  case (1 s pos)
  let ?c = "s ! pos"
  note dr = pos_ok_drop [OF "1.prems"] and simps = lex_string_loop.simps [of s pos]
  consider "?c = 0" | "?c \<noteq> 0" "?c = ch CHR 0x22" | "?c \<noteq> 0" "?c = ch CHR 0x5C" "?c \<noteq> ch CHR 0x22"
    | "?c \<noteq> 0" "?c \<noteq> ch CHR 0x22" "?c \<noteq> ch CHR 0x5C" by blast
  then show ?case
  proof cases
    case 2
    then show ?thesis using "1.prems" pos_ok_Suc [OF "1.prems"] by (simp add: dr simps)
  next
    case 3
    have p1: "pos_ok s (Suc pos)" using 3 pos_ok_Suc "1.prems" by simp
    show ?thesis
    proof (cases "s ! Suc pos = 0")
      case False
      then show ?thesis
        using 3 "1.prems" "1.IH"(1) [of ?c "s ! Suc pos"] p1 pos_ok_drop [OF p1] pos_ok_Suc [OF p1 False]
        by (auto simp: dr simps split: option.splits)
    qed (use 3 "1.prems" p1 pos_ok_drop [OF p1] in \<open>simp add: dr simps\<close>)
  next
    case 4
    then show ?thesis
      using "1.prems" "1.IH"(2) [of ?c] pos_ok_Suc [OF "1.prems"] by (auto simp: dr simps split: option.splits)
  qed (use "1.prems" in \<open>simp add: dr simps\<close>)
qed

subsection \<open>One token\<close>

fun op_text :: "dtl_token_kind \<Rightarrow> u8 list" where
  "op_text DTL_TOK_AND = map ch ''&&''"
| "op_text DTL_TOK_OR = map ch ''||''"
| "op_text DTL_TOK_EQ = map ch ''==''"
| "op_text DTL_TOK_NE = map ch ''!=''"
| "op_text DTL_TOK_LT = map ch ''<''"
| "op_text DTL_TOK_LE = map ch ''<=''"
| "op_text DTL_TOK_GT = map ch ''>''"
| "op_text DTL_TOK_GE = map ch ''>=''"
| "op_text DTL_TOK_NOT = map ch ''!''"
| "op_text DTL_TOK_LPAREN = map ch ''(''"
| "op_text DTL_TOK_RPAREN = map ch '')''"
| "op_text DTL_TOK_DOT = map ch ''.''"
| "op_text _ = []"

text \<open>The operators, in the order in which a longer one hides a shorter one.\<close>

definition op_kinds :: "dtl_token_kind list" where
  "op_kinds = [DTL_TOK_AND, DTL_TOK_OR, DTL_TOK_EQ, DTL_TOK_NE, DTL_TOK_LE, DTL_TOK_GE, DTL_TOK_LT,
     DTL_TOK_GT, DTL_TOK_NOT, DTL_TOK_LPAREN, DTL_TOK_RPAREN, DTL_TOK_DOT]"

definition lex_operator :: "u8 list \<Rightarrow> dtl_token_kind option" where
  "lex_operator xs = find (\<lambda>k. take (length (op_text k)) xs = op_text k) op_kinds"

definition lex_tok :: "u8 list \<Rightarrow> (tok \<times> nat) option" where
  "lex_tok xs = (case xs of [] \<Rightarrow> None
     | c # cs \<Rightarrow>
        if dtl_lex_is_digit c \<or> c = ch CHR ''-'' \<and> cs \<noteq> [] \<and> dtl_lex_is_digit (hd cs) then
          (let neg = (c = ch CHR ''-''); ds = takeWhile dtl_lex_is_digit (if neg then cs else xs); n = dec_val 0 ds
           in if n \<le> INT64_MAX then Some (TNum (if neg then - n else n), length ds + (if neg then 1 else 0)) else None)
        else if dtl_lex_is_ident_start c then
          (let i = takeWhile dtl_lex_is_ident xs in Some (TIdent i, length i))
        else if c = ch CHR 0x22 then map_option (\<lambda>r. (TStr r, length r + 2)) (str_body cs)
        else map_option (\<lambda>k. (TOp k, length (op_text k))) (lex_operator xs))"

text \<open>The token a token struct stands for, and the tokenizer's result as such.\<close>

definition tok_view :: "u8 list \<Rightarrow> dtl_token \<Rightarrow> tok" where
  "tok_view s t = (case tok_kind t of
       DTL_TOK_NUM \<Rightarrow> TNum (tok_num t)
     | DTL_TOK_STR \<Rightarrow> TStr (take (tok_n t) (drop (the (tok_s t)) s))
     | DTL_TOK_IDENT \<Rightarrow> TIdent (take (tok_n t) (drop (the (tok_s t)) s))
     | k \<Rightarrow> TOp k)"

text \<open>\<open>out\<close> is a token that starts at the first byte of \<open>xs\<close>, the rest of \<open>s\<close> from \<open>pos\<close> on.\<close>

definition token_at :: "u8 list \<Rightarrow> nat \<Rightarrow> (dtl_err \<times> dtl_token \<times> dtl_lexer) res \<Rightarrow> bool" where
  "token_at s pos r \<longleftrightarrow> (case lex_tok (drop pos s) of
       None \<Rightarrow> \<exists>t lx. r = Ok (DTL_ERR_BADQUERY, t, lx)
     | Some (v, n) \<Rightarrow> 0 < n \<and> pos_ok s (pos + n) \<and>
         (\<exists>t. r = Ok (DTL_OK, t, \<lparr>lex_src = s, lex_pos = pos + n\<rparr>) \<and> tok_view s t = v \<and>
           tok_kind t \<noteq> DTL_TOK_END \<and>
           (tok_kind t \<in> {DTL_TOK_STR, DTL_TOK_IDENT} \<longrightarrow>
             (\<exists>i. tok_s t = Some i \<and> i + tok_n t \<le> length s))))"

lemma takeWhile_take_drop: "take (length (takeWhile P xs)) xs = takeWhile P xs"
  by (metis takeWhile_eq_take)

lemma number_at:
  assumes "pos_ok s pos"
    and "dtl_lex_is_digit (s ! pos) \<or> s ! pos = ch CHR ''-'' \<and> dtl_lex_is_digit (s ! Suc pos)"
  shows "token_at s pos (dtl_lex_number \<lparr>lex_src = s, lex_pos = pos\<rparr> out)"
proof -
  let ?neg = "s ! pos = ch CHR ''-''"
  let ?p = "if ?neg then Suc pos else pos"
  let ?ds = "takeWhile dtl_lex_is_digit (drop ?p s)"
  have minus: "\<not> dtl_lex_is_digit (ch CHR ''-'')" "ch CHR ''-'' \<noteq> 0" by (simp_all add: ch_eval)
  have p: "pos_ok s ?p" using assms(1) minus pos_ok_Suc by auto
  have dig: "dtl_lex_is_digit (s ! ?p)" using assms(2) minus by auto
  have ne: "?ds \<noteq> []" using dig pos_ok_drop [OF p] by simp
  have nn: "0 \<le> dec_val 0 ?ds" by (rule dec_val_ge) (auto dest: set_takeWhileD)
  have pos': "pos_ok s (?p + length ?ds)" using lex_while_eq(2) [OF p] by simp
  note dg = lex_digits_eq [OF p, of 0, unfolded Let_def]
  have lt: "lex_tok (drop pos s) = (if dec_val 0 ?ds \<le> INT64_MAX
      then Some (TNum (if ?neg then - dec_val 0 ?ds else dec_val 0 ?ds), length ?ds + (if ?neg then 1 else 0)) else None)"
    using assms(2) p minus pos_ok_drop [OF assms(1)] pos_ok_drop [OF p]
    by (auto simp: lex_tok_def Let_def)
  show ?thesis
  proof (cases "dec_val 0 ?ds \<le> INT64_MAX")
    case True
    then have i: "int64 (if ?neg then - dec_val 0 ?ds else dec_val 0 ?ds) = Ok (if ?neg then - dec_val 0 ?ds else dec_val 0 ?ds)"
      using nn by (auto simp: int64_def INT64_MIN_def INT64_MAX_def)
    have "dtl_lex_number \<lparr>lex_src = s, lex_pos = pos\<rparr> out = Ok (DTL_OK,
        out\<lparr>tok_kind := DTL_TOK_NUM, tok_num := if ?neg then - dec_val 0 ?ds else dec_val 0 ?ds\<rparr>,
        \<lparr>lex_src = s, lex_pos = ?p + length ?ds\<rparr>)"
      using dg True p dig assms(1) i by (cases ?neg) (simp_all add: dtl_lex_number_def Let_def INT64_MAX_def)
    then show ?thesis
      using True ne pos' by (auto simp: token_at_def lt tok_view_def)
  next
    case False
    then obtain v p' where "lex_digits s ?p 0 = Ok (DTL_ERR_BADQUERY, v, p')"
      using dg by (auto simp: INT64_MAX_def)
    then show ?thesis
      using False p dig assms(1) by (cases ?neg) (simp_all add: token_at_def lt dtl_lex_number_def Let_def)
  qed
qed

lemma string_at:
  assumes "pos_ok s pos" "s ! pos = ch CHR 0x22"
  shows "token_at s pos (dtl_lex_string \<lparr>lex_src = s, lex_pos = pos\<rparr> out)"
proof -
  have nc: "\<not> dtl_lex_is_digit (ch CHR 0x22)" "ch CHR 0x22 \<noteq> ch CHR ''-''"
    "\<not> dtl_lex_is_ident_start (ch CHR 0x22)" "ch CHR 0x22 \<noteq> 0" by (simp_all add: ch_eval)
  have p: "pos_ok s (Suc pos)" using assms nc pos_ok_Suc by simp
  note dr = pos_ok_drop [OF assms(1), unfolded assms(2)]
  have lt: "lex_tok (drop pos s) = map_option (\<lambda>r. (TStr r, length r + 2)) (str_body (drop (Suc pos) s))"
    using nc by (simp add: lex_tok_def dr)
  show ?thesis
  proof (cases "str_body (drop (Suc pos) s)")
    case None
    then show ?thesis using lex_string_loop_eq [OF p] by (auto simp: token_at_def lt dtl_lex_string_def Let_def)
  next
    case (Some r)
    obtain rest where "drop (Suc pos) s = r @ ch CHR 0x22 # rest" using str_body_prefix [OF Some] by blast
    moreover from this have "Suc pos + length r \<le> length s"
      using pos_ok_lt [OF p] by (metis add_le_cancel_left append_take_drop_id le_add1 length_append length_take less_imp_le_nat min.absorb2)
    ultimately show ?thesis
      using Some lex_string_loop_eq [OF p] by (simp add: token_at_def lt dtl_lex_string_def Let_def tok_view_def)
  qed
qed

lemma ident_at:
  assumes "pos_ok s pos" "dtl_lex_is_ident_start (s ! pos)"
  shows "token_at s pos (rbind (lex_while dtl_lex_is_ident s pos) (\<lambda>e.
    Ok (DTL_OK, out\<lparr>tok_kind := DTL_TOK_IDENT, tok_s := Some pos, tok_n := size_sub e pos\<rparr>,
        \<lparr>lex_src = s, lex_pos = e\<rparr>)))"
proof -
  have nz: "\<not> dtl_lex_is_ident 0" by (simp add: ch_eval)
  have nc: "\<not> dtl_lex_is_digit (s ! pos)" "s ! pos \<noteq> ch CHR ''-''"
    using assms(2) by (auto simp: ch_eval word_le_nat_alt)
  have "takeWhile dtl_lex_is_ident (drop pos s) \<noteq> []"
    using assms pos_ok_drop [OF assms(1)] by (simp add: dtl_lex_is_ident_def)
  moreover have "pos + length (takeWhile dtl_lex_is_ident (drop pos s)) \<le> length s"
    using pos_ok_lt [OF lex_while_eq(2) [where pred = dtl_lex_is_ident, OF assms(1) nz]] by simp
  moreover have "lex_tok (drop pos s) = (let i = takeWhile dtl_lex_is_ident (drop pos s) in Some (TIdent i, length i))"
    using nc assms pos_ok_drop [OF assms(1)] by (simp add: lex_tok_def)
  ultimately show ?thesis
    using lex_while_eq [where pred = dtl_lex_is_ident, OF assms(1) nz] by (simp add: token_at_def tok_view_def Let_def takeWhile_take_drop)
qed

lemmas lex_operator_eval = lex_operator_def op_kinds_def ch_def

lemma operator_at:
  assumes "pos_ok s pos" "s ! pos \<noteq> 0" "\<not> dtl_lex_is_digit (s ! pos)" "\<not> dtl_lex_is_ident_start (s ! pos)"
    "s ! pos \<noteq> ch CHR 0x22" "s ! pos = ch CHR ''-'' \<longrightarrow> \<not> dtl_lex_is_digit (s ! Suc pos)"
  shows "token_at s pos (lex_switch (s ! pos) \<lparr>lex_src = s, lex_pos = pos\<rparr> out)"
proof -
  have p: "pos_ok s (Suc pos)" using assms pos_ok_Suc by simp
  obtain c d rest where cd: "s ! pos = c" "s ! Suc pos = d" and dr: "drop pos s = c # d # rest"
    using pos_ok_drop [OF assms(1)] pos_ok_drop [OF p] that by simp
  have lt: "lex_tok (drop pos s) = map_option (\<lambda>k. (TOp k, length (op_text k))) (lex_operator (c # d # rest))"
    using assms dr cd by (auto simp: lex_tok_def)
  have p2: "d \<noteq> 0 \<Longrightarrow> pos_ok s (Suc (Suc pos))" using pos_ok_Suc [OF p] cd by simp
  show ?thesis
    unfolding cd token_at_def lt using p p2 cd
    by (auto simp: lex_switch_def lex_operator_eval lex_pair_def lex_opt_eq_def lex_op_def tok_view_def)
qed

text \<open>
  The next token: the blanks are skipped, and what follows is the end or the token \<open>lex_tok\<close> reads.
\<close>

definition skip_blanks :: "u8 list \<Rightarrow> nat \<Rightarrow> nat" where
  "skip_blanks s pos = pos + length (takeWhile dtl_lex_is_space (drop pos s))"

lemma not_space_0 [simp]: "\<not> dtl_lex_is_space 0"
  by (simp add: ch_eval)

lemmas skip_blanks_eq = lex_while_eq [where pred = dtl_lex_is_space, OF _ not_space_0, folded skip_blanks_def]

lemma lex_next_eq:
  assumes "pos_ok s pos" and "q = skip_blanks s pos"
  shows "if s ! q = 0
    then \<exists>t. dtl_lex_next \<lparr>lex_src = s, lex_pos = pos\<rparr> out = Ok (DTL_OK, t, \<lparr>lex_src = s, lex_pos = q\<rparr>) \<and>
      tok_kind t = DTL_TOK_END
    else token_at s q (dtl_lex_next \<lparr>lex_src = s, lex_pos = pos\<rparr> out)"
proof -
  note q = skip_blanks_eq [OF assms(1), folded assms(2)]
  let ?out = "out\<lparr>tok_s := None, tok_n := 0, tok_num := 0\<rparr>"
  show ?thesis
  proof (cases "s ! q = 0")
    case True
    then show ?thesis using q by (simp add: dtl_lex_next_def Let_def)
  next
    case False
    note p = pos_ok_Suc [OF q(2) False]
    let ?num = "dtl_lex_is_digit (s ! q) \<or> s ! q = ch CHR ''-'' \<and> dtl_lex_is_digit (s ! Suc q)"
    have "dtl_lex_next \<lparr>lex_src = s, lex_pos = pos\<rparr> out =
      (if ?num then dtl_lex_number \<lparr>lex_src = s, lex_pos = q\<rparr> ?out
       else if dtl_lex_is_ident_start (s ! q) then
         rbind (lex_while dtl_lex_is_ident s q) (\<lambda>e.
          Ok (DTL_OK, ?out\<lparr>tok_kind := DTL_TOK_IDENT, tok_s := Some q, tok_n := size_sub e q\<rparr>,
              \<lparr>lex_src = s, lex_pos = e\<rparr>))
       else if s ! q = ch CHR 0x22 then dtl_lex_string \<lparr>lex_src = s, lex_pos = q\<rparr> ?out
       else lex_switch (s ! q) \<lparr>lex_src = s, lex_pos = q\<rparr> ?out)"
      using False q p by (simp add: dtl_lex_next_def Let_def)
    then show ?thesis
      using False number_at [OF q(2)] ident_at [OF q(2)] string_at [OF q(2)] operator_at [OF q(2) False] by simp
  qed
qed

subsection \<open>Spelling\<close>

text \<open>
  \<open>spells t bs\<close>: the bytes \<open>bs\<close> write the token \<open>t\<close>; \<open>follows t rest\<close>: the next byte does not
  make the token longer.
\<close>

fun spells :: "tok \<Rightarrow> u8 list \<Rightarrow> bool" where
  "spells (TNum n) bs \<longleftrightarrow>
     (let neg = (bs \<noteq> [] \<and> hd bs = ch CHR ''-''); ds = (if neg then tl bs else bs)
      in ds \<noteq> [] \<and> list_all dtl_lex_is_digit ds \<and> dec_val 0 ds \<le> INT64_MAX \<and>
         n = (if neg then - dec_val 0 ds else dec_val 0 ds))"
| "spells (TStr r) bs \<longleftrightarrow> bs = [ch CHR 0x22] @ r @ [ch CHR 0x22] \<and> str_body (r @ [ch CHR 0x22]) = Some r"
| "spells (TIdent i) bs \<longleftrightarrow> bs = i \<and> i \<noteq> [] \<and> dtl_lex_is_ident_start (hd i) \<and> list_all dtl_lex_is_ident i"
| "spells (TOp k) bs \<longleftrightarrow> k \<in> set op_kinds \<and> bs = op_text k"
| "spells TBad bs \<longleftrightarrow> False"

fun longer :: "tok \<Rightarrow> u8 \<Rightarrow> bool" where
  "longer (TNum n) c \<longleftrightarrow> dtl_lex_is_digit c"
| "longer (TIdent i) c \<longleftrightarrow> dtl_lex_is_ident c"
| "longer (TOp k) c \<longleftrightarrow> k \<in> {DTL_TOK_NOT, DTL_TOK_LT, DTL_TOK_GT} \<and> c = ch CHR ''=''"
| "longer _ c \<longleftrightarrow> False"

definition follows :: "tok \<Rightarrow> u8 list \<Rightarrow> bool" where
  "follows t rest \<longleftrightarrow> (case rest of [] \<Rightarrow> True | c # _ \<Rightarrow> \<not> longer t c)"

inductive spelled :: "tok list \<Rightarrow> u8 list \<Rightarrow> bool" where
  finish: "list_all dtl_lex_is_space sp \<Longrightarrow> spelled [] (sp @ 0 # rest)"
| token: "list_all dtl_lex_is_space sp \<Longrightarrow> spells t bs \<Longrightarrow> follows t rest \<Longrightarrow> spelled ts rest \<Longrightarrow>
    spelled (t # ts) (sp @ bs @ rest)"

lemma str_body_append: "str_body xs = Some r \<Longrightarrow> str_body (xs @ ys) = Some r"
  by (induction xs arbitrary: r rule: str_body.induct) (auto split: if_splits list.splits)

lemma str_body_self: "str_body xs = Some r \<Longrightarrow> str_body (r @ [ch CHR 0x22]) = Some r"
  by (induction xs arbitrary: r rule: str_body.induct) (auto simp: ch_def split: if_splits list.splits)

lemma lex_operator_sound:
  assumes "lex_operator xs = Some k"
  shows "k \<in> set op_kinds" "take (length (op_text k)) xs = op_text k" "follows (TOp k) (drop (length (op_text k)) xs)"
proof -
  show "k \<in> set op_kinds" "take (length (op_text k)) xs = op_text k"
    using assms by (auto simp: lex_operator_def find_Some_iff)
  show "follows (TOp k) (drop (length (op_text k)) xs)"
    using assms
    by (cases xs; cases "tl xs") (auto simp: lex_operator_eval follows_def split: if_splits list.splits)
qed

lemma op_kinds_cases:
  "k \<in> set op_kinds \<longleftrightarrow> k \<notin> {DTL_TOK_END, DTL_TOK_NUM, DTL_TOK_STR, DTL_TOK_IDENT}"
  by (cases k) (simp_all add: op_kinds_def)

lemma lex_operator_complete:
  assumes "k \<in> set op_kinds" "follows (TOp k) rest"
  shows "lex_operator (op_text k @ rest) = Some k"
  by (cases rest; cases k; insert assms) (simp_all add: lex_operator_eval follows_def)

lemma op_text_first:
  assumes "k \<in> set op_kinds"
  obtains c cs where "op_text k = c # cs" "c \<noteq> 0" "\<not> dtl_lex_is_space c" "\<not> dtl_lex_is_digit c"
    "\<not> dtl_lex_is_ident_start c" "c \<noteq> ch CHR ''-''" "c \<noteq> ch CHR 0x22"
  by (cases k; insert assms) (simp_all add: op_kinds_def ch_eval)

lemma ident_start_first:
  "dtl_lex_is_ident_start c \<Longrightarrow> c \<noteq> 0 \<and> \<not> dtl_lex_is_space c \<and> \<not> dtl_lex_is_digit c \<and> c \<noteq> ch CHR ''-''"
  by (auto simp: ch_eval word_le_nat_alt)

lemma digit_first:
  "dtl_lex_is_digit c \<Longrightarrow> c \<noteq> 0 \<and> \<not> dtl_lex_is_space c \<and> c \<noteq> ch CHR ''-''"
  by (auto simp: ch_eval word_le_nat_alt)

lemma spells_first:
  assumes "spells t bs"
  obtains c cs where "bs = c # cs" "c \<noteq> 0" "\<not> dtl_lex_is_space c"
proof (cases t)
  case (TNum n)
  show ?thesis
  proof (cases bs)
    case (Cons c cs)
    then show ?thesis
      using assms TNum digit_first [of c] that by (auto simp: Let_def ch_eval split: if_splits)
  qed (use assms TNum in simp)
next
  case (TIdent i)
  then show ?thesis using assms ident_start_first [of "hd i"] that by (cases i) auto
next
  case (TOp k)
  then show ?thesis using assms op_text_first [of k] that by auto
qed (use assms that in \<open>auto simp: ch_eval\<close>)

lemma spells_no_nul: "spells t bs \<Longrightarrow> 0 \<notin> set bs"
proof (cases t)
  case (TNum n)
  assume "spells t bs"
  with TNum have "\<forall>c \<in> set bs. c = ch CHR ''-'' \<or> dtl_lex_is_digit c"
    by (cases bs) (auto simp: Let_def list_all_iff split: if_splits)
  then show ?thesis by (auto simp: ch_eval)
next
  case (TStr r)
  assume "spells t bs"
  with TStr str_body_prefix [of "r @ [ch CHR 0x22]" r] show ?thesis by (auto simp: ch_eval)
next
  case (TOp k)
  then show "spells t bs \<Longrightarrow> ?thesis" by (cases k) (simp_all add: ch_eval op_kinds_def)
qed (auto simp: list_all_iff ch_eval)

lemma list_all_takeWhile: "list_all P (takeWhile P xs)"
  by (auto simp: list_all_iff dest: set_takeWhileD)

lemma follows_takeWhile:
  "(\<And>c. longer t c \<longleftrightarrow> P c) \<Longrightarrow> n = length (takeWhile P xs) \<Longrightarrow> follows t (drop n xs)"
  using hd_dropWhile [of P xs]
  by (cases "dropWhile P xs") (simp_all add: follows_def dropWhile_eq_drop [symmetric] del: dropWhile_eq_Nil_conv)

lemma takeWhile_follows:
  "(\<And>c. longer t c \<longleftrightarrow> P c) \<Longrightarrow> list_all P ds \<Longrightarrow> follows t rest \<Longrightarrow> takeWhile P (ds @ rest) = ds"
  by (cases rest) (auto simp: follows_def takeWhile_append list_all_iff)

lemma lex_tok_sound:
  assumes "lex_tok xs = Some (t, n)"
  shows "spells t (take n xs) \<and> follows t (drop n xs)"
proof (cases xs)
  case (Cons c cs)
  let ?neg = "c = ch CHR ''-''"
  let ?ds = "takeWhile dtl_lex_is_digit (if ?neg then cs else xs)"
  consider (num) "dtl_lex_is_digit c \<or> ?neg \<and> cs \<noteq> [] \<and> dtl_lex_is_digit (hd cs)"
    | (ident) "dtl_lex_is_ident_start c" | (str) "c = ch CHR 0x22"
    | (other) "\<not> (dtl_lex_is_digit c \<or> ?neg \<and> cs \<noteq> [] \<and> dtl_lex_is_digit (hd cs))"
       "\<not> dtl_lex_is_ident_start c" "c \<noteq> ch CHR 0x22" by blast
  then show ?thesis
  proof cases
    case num
    then have ne: "?ds \<noteq> []" using Cons digit_first [of c] by (cases cs) auto
    from num assms Cons have n: "n = length ?ds + (if ?neg then 1 else 0)" "dec_val 0 ?ds \<le> INT64_MAX"
      "t = TNum (if ?neg then - dec_val 0 ?ds else dec_val 0 ?ds)"
      by (auto simp: lex_tok_def Let_def split: if_splits)
    have tk: "take n xs = (if ?neg then c # ?ds else ?ds)" "drop n xs = drop (length ?ds) (if ?neg then cs else xs)"
      using n(1) Cons by (simp_all add: takeWhile_take_drop)
    moreover have "hd ?ds \<noteq> ch CHR ''-''" using ne hd_in_set [OF ne] set_takeWhileD digit_first by metis
    ultimately show ?thesis
      using ne n(2,3) follows_takeWhile [of t dtl_lex_is_digit] by (auto simp: Let_def list_all_takeWhile)
  next
    case ident
    then have "lex_tok xs = (let i = takeWhile dtl_lex_is_ident xs in Some (TIdent i, length i))"
      using ident_start_first [OF ident] Cons by (simp add: lex_tok_def)
    with assms have n: "n = length (takeWhile dtl_lex_is_ident xs)" "t = TIdent (takeWhile dtl_lex_is_ident xs)"
      by (simp_all add: Let_def)
    moreover have "follows t (drop n xs)" using n by (intro follows_takeWhile [where P = dtl_lex_is_ident]) auto
    ultimately show ?thesis
      using ident Cons by (auto simp: list_all_takeWhile takeWhile_take_drop dtl_lex_is_ident_def)
  next
    case str
    then obtain r where r: "str_body cs = Some r" "t = TStr r" "n = length r + 2"
      using assms Cons by (auto simp: lex_tok_def ch_eval)
    obtain rest where "cs = r @ ch CHR 0x22 # rest" using str_body_prefix [OF r(1)] by blast
    then show ?thesis using r Cons str str_body_self [OF r(1)] by (simp add: follows_def split: list.split)
  next
    case other
    then obtain k where "lex_operator xs = Some k" "t = TOp k" "n = length (op_text k)"
      using assms Cons by (auto simp: lex_tok_def split: if_splits)
    then show ?thesis using lex_operator_sound [of xs k] by simp
  qed
qed (use assms in \<open>simp add: lex_tok_def\<close>)

lemma lex_tok_complete:
  assumes "spells t bs" "follows t rest"
  shows "lex_tok (bs @ rest) = Some (t, length bs)"
proof (cases t)
  case (TNum n)
  show ?thesis
  proof (cases "hd bs = ch CHR ''-''")
    case True
    then obtain ds where ds: "bs = ch CHR ''-'' # ds" "ds \<noteq> []" "list_all dtl_lex_is_digit ds"
        "dec_val 0 ds \<le> INT64_MAX" "n = - dec_val 0 ds"
      using assms(1) TNum by (cases bs) (auto simp: Let_def)
    have "takeWhile dtl_lex_is_digit (ds @ rest) = ds"
      using takeWhile_follows [of t dtl_lex_is_digit] ds(3) assms(2) TNum by simp
    then show ?thesis using ds TNum by (auto simp: lex_tok_def Let_def list_all_iff ch_eval)
  next
    case False
    then have ds: "bs \<noteq> []" "list_all dtl_lex_is_digit bs" "dec_val 0 bs \<le> INT64_MAX" "n = dec_val 0 bs"
      using assms(1) TNum by (auto simp: Let_def)
    have "takeWhile dtl_lex_is_digit (bs @ rest) = bs"
      using takeWhile_follows [of t dtl_lex_is_digit] ds(2) assms(2) TNum by simp
    then show ?thesis using ds TNum False by (cases bs) (auto simp: lex_tok_def Let_def)
  qed
next
  case (TIdent i)
  have "takeWhile dtl_lex_is_ident (i @ rest) = i"
    using takeWhile_follows [of t dtl_lex_is_ident] assms TIdent by simp
  then show ?thesis
    using assms(1) TIdent ident_start_first [of "hd i"] by (cases i) (auto simp: lex_tok_def Let_def)
next
  case (TStr r)
  have "str_body (r @ ch CHR 0x22 # rest) = Some r" 
    using assms(1) TStr str_body_append [of "r @ [ch CHR 0x22]" r rest] by simp
  then show ?thesis using assms(1) TStr by (simp add: lex_tok_def ch_eval)
next
  case (TOp k)
  then have k: "k \<in> set op_kinds" "bs = op_text k" using assms(1) by simp_all
  obtain c cs where "op_text k = c # cs" "c \<noteq> 0" "\<not> dtl_lex_is_space c" "\<not> dtl_lex_is_digit c"
    "\<not> dtl_lex_is_ident_start c" "c \<noteq> ch CHR ''-''" "c \<noteq> ch CHR 0x22" by (rule op_text_first [OF k(1)])
  then show ?thesis using lex_operator_complete [OF k(1), of rest] assms(2) TOp k by (auto simp: lex_tok_def)
qed (use assms in simp)

subsection \<open>The token stream\<close>

text \<open>
  The tokens of a text up to its terminator; a byte that starts no token ends the stream with \<open>TBad\<close>.
\<close>

lemma lex_tok_pos:
  assumes "lex_tok xs = Some (t, n)"
  shows "0 < n"
proof -
  obtain c cs where "take n xs = c # cs" using spells_first lex_tok_sound [OF assms] by metis
  then show ?thesis by (cases n) auto
qed

function tokens :: "u8 list \<Rightarrow> tok list" where
  "tokens xs = (case dropWhile dtl_lex_is_space xs of [] \<Rightarrow> []
     | c # cs \<Rightarrow>
        if c = 0 then []
        else case lex_tok (c # cs) of None \<Rightarrow> [TBad] | Some (t, n) \<Rightarrow> t # tokens (drop n (c # cs)))"
  by pat_completeness auto
termination
proof (relation "measure length")
  fix xs c cs t n and p :: "tok \<times> nat"
  assume "dropWhile dtl_lex_is_space xs = c # cs" "lex_tok (c # cs) = Some p" "(t, n) = p"
  then show "(drop n (c # cs), xs) \<in> measure length"
    using lex_tok_pos [of "c # cs" t n] length_dropWhile_le [of dtl_lex_is_space xs] by auto
qed simp

declare tokens.simps [simp del]

text \<open>Calling the tokenizer until it reports the end or an error.\<close>

fun lex_run :: "nat \<Rightarrow> dtl_lexer \<Rightarrow> tok list res" where
  "lex_run 0 lx = Ub"
| "lex_run (Suc fuel) lx =
     rbind (dtl_lex_next lx no_token) (\<lambda>(rc, t, lx').
     if rc \<noteq> DTL_OK then Ok [TBad]
     else if tok_kind t = DTL_TOK_END then Ok []
     else rbind (lex_run fuel lx') (\<lambda>ts. Ok (tok_view (lex_src lx) t # ts)))"

lemma skip_blanks_drop: "drop (skip_blanks s pos) s = dropWhile dtl_lex_is_space (drop pos s)"
  by (simp add: skip_blanks_def dropWhile_eq_drop add.commute)

lemma tokens_at:
  assumes "pos_ok s pos" "q = skip_blanks s pos"
  shows "tokens (drop pos s) = (if s ! q = 0 then []
     else case lex_tok (drop q s) of None \<Rightarrow> [TBad] | Some (t, n) \<Rightarrow> t # tokens (drop (q + n) s))"
proof -
  have "pos_ok s q" using skip_blanks_eq(2) [OF assms(1)] assms(2) by simp
  then obtain c cs where dr: "drop q s = c # cs" "c = s ! q" using pos_ok_drop by blast
  moreover have "drop n (c # cs) = drop (q + n) s" for n by (simp add: dr(1) [symmetric] add.commute)
  ultimately show ?thesis
    using skip_blanks_drop [of s pos] assms(2) by (simp add: tokens.simps [of "drop pos s"] split: option.split)
qed

lemma lex_run_tokens:
  assumes "pos_ok s pos" "length s - pos < fuel"
  shows "lex_run fuel \<lparr>lex_src = s, lex_pos = pos\<rparr> = Ok (tokens (drop pos s))"
  using assms
proof (induction fuel arbitrary: pos)
  case (Suc fuel)
  define q where "q = skip_blanks s pos"
  have q: "pos_ok s q" "pos \<le> q" using skip_blanks_eq(2) [OF Suc.prems(1)] by (auto simp: q_def skip_blanks_def)
  note nx = lex_next_eq [OF Suc.prems(1) q_def, of no_token] and tk = tokens_at [OF Suc.prems(1) q_def]
  show ?case
  proof (cases "s ! q = 0")
    case True
    then show ?thesis using nx tk by auto
  next
    case False
    show ?thesis
    proof (cases "lex_tok (drop q s)")
      case None
      then show ?thesis using nx tk False by (auto simp: token_at_def)
    next
      case (Some p)
      then obtain v n t where p: "p = (v, n)" "0 < n" "pos_ok s (q + n)"
        and t: "dtl_lex_next \<lparr>lex_src = s, lex_pos = pos\<rparr> no_token = Ok (DTL_OK, t, \<lparr>lex_src = s, lex_pos = q + n\<rparr>)"
          "tok_view s t = v" "tok_kind t \<noteq> DTL_TOK_END"
        using nx False by (auto simp: token_at_def)
      have "lex_run fuel \<lparr>lex_src = s, lex_pos = q + n\<rparr> = Ok (tokens (drop (q + n) s))"
        using Suc.prems q p pos_ok_lt [OF p(3)] by (intro Suc.IH) auto
      then show ?thesis using tk False Some p t by simp
    qed
  qed
qed simp

lemma tokens_sound:
  "TBad \<notin> set (tokens xs) \<Longrightarrow> 0 \<in> set xs \<Longrightarrow> spelled (tokens xs) xs"
proof (induction xs rule: tokens.induct)
  case (1 xs)
  let ?sp = "takeWhile dtl_lex_is_space xs"
  have "0 \<notin> set ?sp" using set_takeWhileD by fastforce
  then have z: "0 \<in> set (dropWhile dtl_lex_is_space xs)"
    using "1.prems"(2) takeWhile_dropWhile_id [of dtl_lex_is_space xs] by (metis Un_iff set_append)
  then obtain c cs where cs: "dropWhile dtl_lex_is_space xs = c # cs" by (cases "dropWhile dtl_lex_is_space xs") auto
  have xs: "xs = ?sp @ c # cs" using takeWhile_dropWhile_id [of dtl_lex_is_space xs] cs by simp
  show ?case
  proof (cases "c = 0")
    case True
    have "spelled [] (?sp @ 0 # cs)" by (intro spelled.finish list_all_takeWhile)
    then show ?thesis using True xs cs by (simp add: tokens.simps [of xs])
  next
    case False
    then obtain t n where t: "lex_tok (c # cs) = Some (t, n)"
      using "1.prems"(1) cs by (auto simp: tokens.simps [of xs] split: option.splits)
    then have tk: "tokens xs = t # tokens (drop n (c # cs))" using False cs by (simp add: tokens.simps [of xs])
    note sp = lex_tok_sound [OF t]
    have "0 \<notin> set (take n (c # cs))" using sp spells_no_nul by blast
    then have "0 \<in> set (drop n (c # cs))" using z cs by (metis Un_iff append_take_drop_id set_append)
    then have "spelled (tokens (drop n (c # cs))) (drop n (c # cs))"
      using "1.IH" [OF cs False t refl] "1.prems"(1) tk by simp
    then have "spelled (t # tokens (drop n (c # cs))) (?sp @ take n (c # cs) @ drop n (c # cs))"
      using sp by (intro spelled.token) (simp_all add: list_all_takeWhile)
    then show ?thesis using xs tk by simp
  qed
qed

lemma tokens_complete: "spelled ts xs \<Longrightarrow> tokens xs = ts"
proof (induction rule: spelled.induct)
  case (finish sp rest)
  then have "dropWhile dtl_lex_is_space (sp @ 0 # rest) = 0 # rest"
    by (simp add: list_all_iff dropWhile_append)
  then show ?case by (simp add: tokens.simps [of "sp @ 0 # rest"])
next
  case (token sp t bs rest ts)
  obtain c cs where c: "bs = c # cs" "c \<noteq> 0" "\<not> dtl_lex_is_space c" by (rule spells_first [OF token(2)])
  then have "dropWhile dtl_lex_is_space (sp @ bs @ rest) = c # cs @ rest"
    using token(1) by (simp add: list_all_iff dropWhile_append)
  then show ?case
    unfolding tokens.simps [of "sp @ bs @ rest"] using c lex_tok_complete [OF token(2,3)] token.IH by simp
qed

text \<open>
  C17. The tokenizer is exact.  On every NUL-terminated text, calling it until it reports the end reads
  nothing past the terminator, has no signed overflow and ends; it reports no error exactly when the text
  spells a list of tokens - a number within 64 bits in decimal, a quoted string, an identifier or an
  operator, each as long as it can be, with blanks between - and that list is what it returns.
\<close>

theorem lexer_exact:
  assumes "0 \<in> set s"
  shows "\<exists>ts. lex_run (Suc (length s)) (dtl_lex_init s) = Ok ts \<and>
    (TBad \<notin> set ts \<longleftrightarrow> (\<exists>us. spelled us s)) \<and> (\<forall>us. spelled us s \<longrightarrow> ts = us)"
proof -
  have "lex_run (Suc (length s)) (dtl_lex_init s) = Ok (tokens s)"
    using lex_run_tokens [of s 0 "Suc (length s)"] assms by (simp add: pos_ok_def dtl_lex_init_def)
  moreover have "TBad \<notin> set us" if "spelled us s" for us using that by (induction rule: spelled.induct) auto
  ultimately show ?thesis using tokens_sound [OF _ assms] tokens_complete [of _ s] by auto
qed

theorem lexer_exact_witness:
  "lex_run 6 (dtl_lex_init (map ch ''a<=4'' @ [0])) =
     Ok [TIdent (map ch ''a''), TOp DTL_TOK_LE, TNum 4]"
proof -
  have "spelled [TIdent (map ch ''a''), TOp DTL_TOK_LE, TNum 4]
      ([] @ map ch ''a'' @ [] @ map ch ''<='' @ [] @ map ch ''4'' @ [] @ 0 # [])"
    by (intro spelled.intros) (simp_all add: follows_def ch_eval op_kinds_def dec_val_def digit_val_def INT64_MAX_def)
  then show ?thesis
    using lexer_exact [of "map ch ''a<=4'' @ [0]"] by (auto simp: eval_nat_numeral)
qed

end
