(* ===== verification/Query_Grammar.thy ===== *)
theory Query_Grammar
  imports Query_Lex_Spec Query_Parse
begin

text \<open>
  The grammar of the filter language over tokens, with the depth at which each phrase is parsed, and a
  parser for it on token lists.  The parser is shown to accept exactly the phrases of the grammar, so a
  token list has at most one tree.
\<close>

datatype expr =
    EOr expr expr
  | EAnd expr expr
  | ECmp dtl_cmp_op expr expr
  | ENot expr
  | EField "u8 list" "u8 list option"
  | EInt int
  | EStr "u8 list"

text \<open>The bytes a quoted string stands for.\<close>

fun decode_str :: "u8 list \<Rightarrow> u8 list option" where
  "decode_str [] = Some []"
| "decode_str (c # cs) =
     (if c = ch CHR 0x5C then
        (case cs of [] \<Rightarrow> None
         | e # cs' \<Rightarrow> if e = ch CHR 0x22 \<or> e = ch CHR 0x5C then map_option (Cons e) (decode_str cs') else None)
      else map_option (Cons c) (decode_str cs))"

subsection \<open>The grammar\<close>

inductive g_expr :: "nat \<Rightarrow> tok list \<Rightarrow> expr \<Rightarrow> bool"
  and g_and :: "nat \<Rightarrow> tok list \<Rightarrow> expr \<Rightarrow> bool"
  and g_cmp :: "nat \<Rightarrow> tok list \<Rightarrow> expr \<Rightarrow> bool"
  and g_primary :: "nat \<Rightarrow> tok list \<Rightarrow> expr \<Rightarrow> bool"
where
  num: "d \<le> DTL_QUERY_MAX_DEPTH \<Longrightarrow> g_primary d [TNum n] (EInt n)"
| str: "d \<le> DTL_QUERY_MAX_DEPTH \<Longrightarrow> decode_str r = Some s \<Longrightarrow> g_primary d [TStr r] (EStr s)"
| field: "d \<le> DTL_QUERY_MAX_DEPTH \<Longrightarrow> g_primary d [TIdent a] (EField a None)"
| dotted: "d \<le> DTL_QUERY_MAX_DEPTH \<Longrightarrow> g_primary d [TIdent a, TOp DTL_TOK_DOT, TIdent b] (EField a (Some b))"
| paren: "d \<le> DTL_QUERY_MAX_DEPTH \<Longrightarrow> g_expr (d + 1) ts e \<Longrightarrow>
    g_primary d (TOp DTL_TOK_LPAREN # ts @ [TOp DTL_TOK_RPAREN]) e"
| neg: "d \<le> DTL_QUERY_MAX_DEPTH \<Longrightarrow> g_primary (d + 1) ts e \<Longrightarrow> g_primary d (TOp DTL_TOK_NOT # ts) (ENot e)"
| cmp_one: "d \<le> DTL_QUERY_MAX_DEPTH \<Longrightarrow> g_primary (d + 1) ts e \<Longrightarrow> g_cmp d ts e"
| cmp_two: "d \<le> DTL_QUERY_MAX_DEPTH \<Longrightarrow> g_primary (d + 1) ts l \<Longrightarrow> dtl_parse_cmp_op k = Some c \<Longrightarrow>
    g_primary (d + 1) us r \<Longrightarrow> g_cmp d (ts @ TOp k # us) (ECmp c l r)"
| and_one: "d \<le> DTL_QUERY_MAX_DEPTH \<Longrightarrow> g_cmp (d + 1) ts e \<Longrightarrow> g_and d ts e"
| and_more: "g_and d ts l \<Longrightarrow> g_cmp (d + 1) us r \<Longrightarrow> g_and d (ts @ TOp DTL_TOK_AND # us) (EAnd l r)"
| or_one: "d \<le> DTL_QUERY_MAX_DEPTH \<Longrightarrow> g_and (d + 1) ts e \<Longrightarrow> g_expr d ts e"
| or_more: "g_expr d ts l \<Longrightarrow> g_and (d + 1) us r \<Longrightarrow> g_expr d (ts @ TOp DTL_TOK_OR # us) (EOr l r)"

subsection \<open>A parser on token lists\<close>

type_synonym 'a tparser = "tok list \<Rightarrow> ('a \<times> tok list) option"

function ref_chain :: "dtl_token_kind \<Rightarrow> ('a \<Rightarrow> 'a \<Rightarrow> 'a) \<Rightarrow> 'a tparser \<Rightarrow> 'a \<Rightarrow> 'a tparser" where
  "ref_chain k mk sub left ts =
     (if ts \<noteq> [] \<and> hd ts = TOp k then
        (case sub (tl ts) of None \<Rightarrow> None
         | Some (right, rest) \<Rightarrow>
             if length rest < length ts then ref_chain k mk sub (mk left right) rest else None)
      else Some (left, ts))"
  by pat_completeness auto
termination
  by (relation "measure (\<lambda>(k, mk, sub, left, ts). length ts)") auto

declare ref_chain.simps [simp del]

fun cmp_op_of :: "tok list \<Rightarrow> dtl_cmp_op option" where
  "cmp_op_of (TOp k # ts) = dtl_parse_cmp_op k"
| "cmp_op_of _ = None"

function ref_expr :: "nat \<Rightarrow> expr tparser"
  and ref_and :: "nat \<Rightarrow> expr tparser"
  and ref_cmp :: "nat \<Rightarrow> expr tparser"
  and ref_primary :: "nat \<Rightarrow> expr tparser"
where
  "ref_primary d = (\<lambda>ts.
     if d > DTL_QUERY_MAX_DEPTH then None
     else case ts of
       TNum n # ts \<Rightarrow> Some (EInt n, ts)
     | TStr r # ts \<Rightarrow> map_option (\<lambda>s. (EStr s, ts)) (decode_str r)
     | TIdent a # ts \<Rightarrow>
         if ts \<noteq> [] \<and> hd ts = TOp DTL_TOK_DOT
         then (case tl ts of TIdent b # ts \<Rightarrow> Some (EField a (Some b), ts) | _ \<Rightarrow> None)
         else Some (EField a None, ts)
     | TOp DTL_TOK_LPAREN # ts \<Rightarrow>
         (case ref_expr (d + 1) ts of Some (e, rest) \<Rightarrow>
            if rest \<noteq> [] \<and> hd rest = TOp DTL_TOK_RPAREN then Some (e, tl rest) else None
          | None \<Rightarrow> None)
     | TOp DTL_TOK_NOT # ts \<Rightarrow> map_option (\<lambda>(e, rest). (ENot e, rest)) (ref_primary (d + 1) ts)
     | _ \<Rightarrow> None)"
| "ref_cmp d = (\<lambda>ts.
     if d > DTL_QUERY_MAX_DEPTH then None
     else case ref_primary (d + 1) ts of None \<Rightarrow> None
       | Some (l, rest) \<Rightarrow>
           (case cmp_op_of rest of None \<Rightarrow> Some (l, rest)
            | Some c \<Rightarrow> map_option (\<lambda>(r, rest). (ECmp c l r, rest)) (ref_primary (d + 1) (tl rest))))"
| "ref_and d = (\<lambda>ts.
     if d > DTL_QUERY_MAX_DEPTH then None
     else case ref_cmp (d + 1) ts of None \<Rightarrow> None
       | Some (l, rest) \<Rightarrow> ref_chain DTL_TOK_AND EAnd (ref_cmp (d + 1)) l rest)"
| "ref_expr d = (\<lambda>ts.
     if d > DTL_QUERY_MAX_DEPTH then None
     else case ref_and (d + 1) ts of None \<Rightarrow> None
       | Some (l, rest) \<Rightarrow> ref_chain DTL_TOK_OR EOr (ref_and (d + 1)) l rest)"
  by pat_completeness auto
termination
  by (relation "measure (\<lambda>x. 65 - (case x of Inl (Inl d) \<Rightarrow> d | Inl (Inr d) \<Rightarrow> d | Inr (Inl d) \<Rightarrow> d | Inr (Inr d) \<Rightarrow> d))")
    (auto simp: DTL_QUERY_MAX_DEPTH_def)

lemmas ref_simps = ref_primary.simps ref_cmp.simps ref_and.simps ref_expr.simps

declare ref_simps [simp del]

subsection \<open>The parser accepts only phrases of the grammar\<close>

definition sound_for :: "(tok list \<Rightarrow> expr \<Rightarrow> bool) \<Rightarrow> expr tparser \<Rightarrow> bool" where
  "sound_for g f \<longleftrightarrow> (\<forall>ts e rest. f ts = Some (e, rest) \<longrightarrow> (\<exists>us. ts = us @ rest \<and> us \<noteq> [] \<and> g us e))"

lemma sound_forD: "sound_for g f \<Longrightarrow> f ts = Some (e, rest) \<Longrightarrow> \<exists>us. ts = us @ rest \<and> us \<noteq> [] \<and> g us e"
  by (simp add: sound_for_def)

lemma ref_chain_sound:
  assumes "ref_chain k mk sub l ts = Some (e, rest)" "sound_for g sub" "G us l"
    and "\<And>us l vs r. G us l \<Longrightarrow> g vs r \<Longrightarrow> G (us @ TOp k # vs) (mk l r)"
  shows "\<exists>vs. ts = vs @ rest \<and> G (us @ vs) e"
  using assms(1,3)
proof (induction "length ts" arbitrary: l ts us rule: less_induct)
  case less
  show ?case
  proof (cases "ts \<noteq> [] \<and> hd ts = TOp k")
    case True
    then obtain r rest1 where r: "sub (tl ts) = Some (r, rest1)" "length rest1 < length ts"
        "ref_chain k mk sub (mk l r) rest1 = Some (e, rest)"
      using less.prems(1) by (auto simp: ref_chain.simps [of k mk sub l ts] split: option.splits if_splits)
    obtain vs where vs: "tl ts = vs @ rest1" "g vs r" using sound_forD [OF assms(2) r(1)] by blast
    obtain vs' where "rest1 = vs' @ rest" "G ((us @ TOp k # vs) @ vs') e"
      using less.hyps [OF r(2,3) assms(4) [OF less.prems(2) vs(2)]] by blast
    then show ?thesis using True vs(1) by (intro exI [of _ "TOp k # vs @ vs'"]) (cases ts, auto)
  next
    case False
    then show ?thesis using less.prems by (auto simp: ref_chain.simps [of k mk sub l ts])
  qed
qed

lemma cmp_op_ofE: "cmp_op_of ts = Some c \<Longrightarrow> \<exists>k us. ts = TOp k # us \<and> dtl_parse_cmp_op k = Some c"
  by (cases ts rule: cmp_op_of.cases) auto

text \<open>What holds beyond the depth limit, and one level up whenever it holds below, holds at every depth.\<close>

lemma depth_induct [case_names deep step]:
  assumes "\<And>d. d > DTL_QUERY_MAX_DEPTH \<Longrightarrow> P d" and "\<And>d. d \<le> DTL_QUERY_MAX_DEPTH \<Longrightarrow> P (d + 1) \<Longrightarrow> P d"
  shows "P d"
proof (induction "DTL_QUERY_MAX_DEPTH + 1 - d" arbitrary: d)
  case (Suc k)
  then show ?case using assms(2) [of d] by simp
qed (use assms(1) in simp)

lemma ref_deep:
  "d > DTL_QUERY_MAX_DEPTH \<Longrightarrow> ref_primary d ts = None" "d > DTL_QUERY_MAX_DEPTH \<Longrightarrow> ref_cmp d ts = None"
  "d > DTL_QUERY_MAX_DEPTH \<Longrightarrow> ref_and d ts = None" "d > DTL_QUERY_MAX_DEPTH \<Longrightarrow> ref_expr d ts = None"
  by (simp_all add: ref_simps)

lemma primary_sound:
  assumes d: "d \<le> DTL_QUERY_MAX_DEPTH" and sub: "sound_for (g_expr (d + 1)) (ref_expr (d + 1))"
    "sound_for (g_primary (d + 1)) (ref_primary (d + 1))"
  shows "sound_for (g_primary d) (ref_primary d)"
  unfolding sound_for_def
proof (intro allI impI)
  fix ts e rest assume h: "ref_primary d ts = Some (e, rest)"
  obtain t us where ts: "ts = t # us" using h d by (cases ts) (auto simp: ref_primary.simps [of d])
  consider "\<exists>n. t = TNum n" | "\<exists>r. t = TStr r" | "\<exists>a. t = TIdent a" | "t = TOp DTL_TOK_LPAREN" | "t = TOp DTL_TOK_NOT"
    using h d ts by (cases t) (auto simp: ref_primary.simps [of d] split: dtl_token_kind.splits)
  then show "\<exists>us. ts = us @ rest \<and> us \<noteq> [] \<and> g_primary d us e"
  proof cases
    case 1
    then show ?thesis using h d ts num by (auto simp: ref_primary.simps [of d])
  next
    case 2
    then show ?thesis using h d ts str by (auto simp: ref_primary.simps [of d])
  next
    case 3
    then show ?thesis
      using h d ts field [OF d] dotted [OF d]
      by (cases us) (auto simp: ref_primary.simps [of d] split: if_splits list.splits tok.splits)
  next
    case 4
    then have r: "ref_expr (d + 1) us = Some (e, TOp DTL_TOK_RPAREN # rest)"
      using h d ts by (auto simp: ref_primary.simps [of d] neq_Nil_conv split: option.splits if_splits)
    with sound_forD [OF sub(1) r] paren [OF d] 4 ts show ?thesis by fastforce
  next
    case 5
    then obtain e' where r: "ref_primary (d + 1) us = Some (e', rest)" "e = ENot e'"
      using h d ts by (auto simp: ref_primary.simps [of d])
    with sound_forD [OF sub(2) r(1)] neg [OF d] 5 ts show ?thesis by fastforce
  qed
qed

lemma cmp_sound:
  assumes d: "d \<le> DTL_QUERY_MAX_DEPTH" and sub: "sound_for (g_primary (d + 1)) (ref_primary (d + 1))"
  shows "sound_for (g_cmp d) (ref_cmp d)"
  unfolding sound_for_def
proof (intro allI impI)
  fix ts e rest assume h: "ref_cmp d ts = Some (e, rest)"
  then obtain l rest1 where l: "ref_primary (d + 1) ts = Some (l, rest1)"
    using d by (auto simp: ref_cmp.simps [of d] split: option.splits)
  obtain us where us: "ts = us @ rest1" "us \<noteq> []" "g_primary (d + 1) us l" using sound_forD [OF sub l] by blast
  show "\<exists>us. ts = us @ rest \<and> us \<noteq> [] \<and> g_cmp d us e"
  proof (cases "cmp_op_of rest1")
    case None
    then show ?thesis using h l d us cmp_one [OF d us(3)] by (auto simp: ref_cmp.simps [of d])
  next
    case (Some c)
    then obtain r where r: "ref_primary (d + 1) (tl rest1) = Some (r, rest)" "e = ECmp c l r"
      using h l d by (auto simp: ref_cmp.simps [of d])
    obtain k where k: "rest1 = TOp k # tl rest1" "dtl_parse_cmp_op k = Some c" using cmp_op_ofE [OF Some] by auto
    obtain vs where vs: "tl rest1 = vs @ rest" "g_primary (d + 1) vs r" using sound_forD [OF sub r(1)] by blast
    have "ts = (us @ TOp k # vs) @ rest" using us(1) k(1) vs(1) by (metis append.assoc append_Cons)
    then show ?thesis using cmp_two [OF d us(3) k(2) vs(2)] r(2) by blast
  qed
qed

lemma chain_sound:
  assumes "sound_for g sub" and "\<And>us e. g us e \<Longrightarrow> G us e"
    and "\<And>us l vs r. G us l \<Longrightarrow> g vs r \<Longrightarrow> G (us @ TOp k # vs) (mk l r)"
  shows "sound_for G (\<lambda>ts. case sub ts of None \<Rightarrow> None | Some (l, rest) \<Rightarrow> ref_chain k mk sub l rest)"
  unfolding sound_for_def
proof (intro allI impI)
  fix ts e rest assume "(case sub ts of None \<Rightarrow> None | Some (l, rest) \<Rightarrow> ref_chain k mk sub l rest) = Some (e, rest)"
  then obtain l rest1 where l: "sub ts = Some (l, rest1)" "ref_chain k mk sub l rest1 = Some (e, rest)"
    by (auto split: option.splits)
  obtain us where us: "ts = us @ rest1" "us \<noteq> []" "g us l" using sound_forD [OF assms(1) l(1)] by blast
  obtain vs where "rest1 = vs @ rest" "G (us @ vs) e"
    using ref_chain_sound [OF l(2) assms(1) assms(2) [OF us(3)] assms(3)] by blast
  then show "\<exists>us. ts = us @ rest \<and> us \<noteq> [] \<and> G us e" using us by (intro exI [of _ "us @ vs"]) auto
qed

lemma ref_sound:
  "sound_for (g_expr d) (ref_expr d) \<and> sound_for (g_and d) (ref_and d) \<and> sound_for (g_cmp d) (ref_cmp d) \<and>
   sound_for (g_primary d) (ref_primary d)"
proof (induction d rule: depth_induct)
  case (deep d)
  then show ?case by (simp add: sound_for_def ref_deep)
next
  case (step d)
  have "sound_for (g_and d) (ref_and d)"
    using chain_sound [of "g_cmp (d + 1)" "ref_cmp (d + 1)" "g_and d" DTL_TOK_AND EAnd] step and_one and_more
    by (simp add: ref_and.simps [of d])
  moreover have "sound_for (g_expr d) (ref_expr d)"
    using chain_sound [of "g_and (d + 1)" "ref_and (d + 1)" "g_expr d" DTL_TOK_OR EOr] step or_one or_more
    by (simp add: ref_expr.simps [of d])
  ultimately show ?case using primary_sound [of d] cmp_sound [of d] step by simp
qed

subsection \<open>The parser accepts every phrase of the grammar\<close>

definition not_op :: "dtl_token_kind \<Rightarrow> tok list \<Rightarrow> bool" where
  "not_op k ts \<longleftrightarrow> ts = [] \<or> hd ts \<noteq> TOp k"

definition stops :: "tok list \<Rightarrow> bool" where
  "stops ts \<longleftrightarrow> not_op DTL_TOK_DOT ts \<and> cmp_op_of ts = None"

lemma ref_chain_step:
  assumes "sub (us @ rest) = Some (r, rest)"
  shows "ref_chain k mk sub l (TOp k # us @ rest) = ref_chain k mk sub (mk l r) rest"
  using assms by (simp add: ref_chain.simps [of k mk sub l "TOp k # us @ rest"])

lemma ref_chain_stop: "not_op k rest \<Longrightarrow> ref_chain k mk sub l rest = Some (l, rest)"
  by (auto simp: not_op_def ref_chain.simps [of k mk sub l rest])

lemma g_nonempty:
  "g_expr d ts e \<Longrightarrow> ts \<noteq> []" "g_and d ts e \<Longrightarrow> ts \<noteq> []" "g_cmp d ts e \<Longrightarrow> ts \<noteq> []" "g_primary d ts e \<Longrightarrow> ts \<noteq> []"
  by (induction rule: g_expr_g_and_g_cmp_g_primary.inducts) auto

lemma ref_complete:
  "g_expr d ts e \<Longrightarrow> stops rest \<Longrightarrow> not_op DTL_TOK_AND rest \<Longrightarrow>
     ref_expr d (ts @ rest) = ref_chain DTL_TOK_OR EOr (ref_and (d + 1)) e rest"
  "g_and d ts e \<Longrightarrow> stops rest \<Longrightarrow> ref_and d (ts @ rest) = ref_chain DTL_TOK_AND EAnd (ref_cmp (d + 1)) e rest"
  "g_cmp d ts e \<Longrightarrow> stops rest \<Longrightarrow> ref_cmp d (ts @ rest) = Some (e, rest)"
  "g_primary d ts e \<Longrightarrow> not_op DTL_TOK_DOT rest \<Longrightarrow> ref_primary d (ts @ rest) = Some (e, rest)"
proof (induction arbitrary: rest and rest and rest and rest rule: g_expr_g_and_g_cmp_g_primary.inducts)
  case (paren d ts e)
  then have "ref_expr (d + 1) (ts @ TOp DTL_TOK_RPAREN # rest) = Some (e, TOp DTL_TOK_RPAREN # rest)"
    by (simp add: stops_def not_op_def ref_chain_stop dtl_parse_cmp_op_def)
  with paren show ?case by (simp add: ref_primary.simps [of d])
next
  case (cmp_two d ts l k c us r)
  have "k \<noteq> DTL_TOK_DOT" using cmp_two.hyps by (auto simp: dtl_parse_cmp_op_def)
  then have "ref_primary (d + 1) (ts @ TOp k # us @ rest) = Some (l, TOp k # us @ rest)"
    using cmp_two.IH(1) by (simp add: not_op_def)
  with cmp_two show ?case by (simp add: ref_cmp.simps [of d] stops_def)
next
  case (and_more d ts l us r)
  then show ?case using ref_chain_step [of "ref_cmp (d + 1)" us rest r DTL_TOK_AND EAnd l]
    by (simp add: stops_def not_op_def dtl_parse_cmp_op_def)
next
  case (or_one d ts e)
  then show ?case by (simp add: ref_expr.simps [of d] ref_chain_stop)
next
  case (or_more d ts l us r)
  then have "ref_and (d + 1) (us @ rest) = Some (r, rest)" by (simp add: ref_chain_stop)
  with or_more show ?case using ref_chain_step [of "ref_and (d + 1)" us rest r DTL_TOK_OR EOr l]
    by (simp add: stops_def not_op_def dtl_parse_cmp_op_def)
qed (auto simp: ref_primary.simps ref_cmp.simps ref_and.simps not_op_def stops_def)

lemma grammar_exact: "ref_expr d ts = Some (e, []) \<longleftrightarrow> g_expr d ts e"
proof
  assume "ref_expr d ts = Some (e, [])"
  then show "g_expr d ts e" using sound_forD [of "g_expr d" "ref_expr d" ts e "[]"] ref_sound [of d] by simp
next
  assume "g_expr d ts e"
  then show "ref_expr d ts = Some (e, [])"
    using ref_complete(1) [of d ts e "[]"] by (simp add: stops_def not_op_def ref_chain_stop)
qed

end
