(* ===== verification/Query_Parse_Spec.thy ===== *)
theory Query_Parse_Spec
  imports Query_Grammar Records_Spec
begin

text \<open>
  The parser against the grammar.  The tree the code builds is related to an expression by the strings it
  holds in the heap; every parser function is shown to follow the parser on token lists, to be free of
  undefined behaviour, to end, and to fail only where the grammar does or where memory runs out.
\<close>

subsection \<open>Trees in the heap\<close>

fun ast_rel :: "(addr \<times> u8 list) list \<Rightarrow> dtl_ast \<Rightarrow> expr \<Rightarrow> bool" where
  "ast_rel L (AOr a b) (EOr e f) \<longleftrightarrow> ast_rel L a e \<and> ast_rel L b f"
| "ast_rel L (AAnd a b) (EAnd e f) \<longleftrightarrow> ast_rel L a e \<and> ast_rel L b f"
| "ast_rel L (ACmp c a b) (ECmp c' e f) \<longleftrightarrow> c = c' \<and> ast_rel L a e \<and> ast_rel L b f"
| "ast_rel L (ANot a) (ENot e) \<longleftrightarrow> ast_rel L a e"
| "ast_rel L (AField p n None) (EField s None) \<longleftrightarrow> (p, s) \<in> set L \<and> n = length s"
| "ast_rel L (AField p n (Some (q, k))) (EField s (Some t)) \<longleftrightarrow>
     (p, s) \<in> set L \<and> n = length s \<and> (q, t) \<in> set L \<and> k = length t"
| "ast_rel L (AInt i) (EInt j) \<longleftrightarrow> i = j"
| "ast_rel L (AStr p n) (EStr s) \<longleftrightarrow> (p, s) \<in> set L \<and> n = length s"
| "ast_rel L _ _ \<longleftrightarrow> False"

lemma ast_rel_mono: "ast_rel L a e \<Longrightarrow> set L \<subseteq> set L' \<Longrightarrow> ast_rel L' a e"
  by (induction L a e rule: ast_rel.induct) auto

text \<open>The expression a tree stands for, read out of the heap.\<close>

fun ast_view :: "mem \<Rightarrow> dtl_ast \<Rightarrow> expr res" where
  "ast_view m (AOr a b) = rbind (ast_view m a) (\<lambda>e. rbind (ast_view m b) (\<lambda>f. Ok (EOr e f)))"
| "ast_view m (AAnd a b) = rbind (ast_view m a) (\<lambda>e. rbind (ast_view m b) (\<lambda>f. Ok (EAnd e f)))"
| "ast_view m (ACmp c a b) = rbind (ast_view m a) (\<lambda>e. rbind (ast_view m b) (\<lambda>f. Ok (ECmp c e f)))"
| "ast_view m (ANot a) = rbind (ast_view m a) (\<lambda>e. Ok (ENot e))"
| "ast_view m (AField p n q) = rbind (load_bytes m p n) (\<lambda>s.
     case q of None \<Rightarrow> Ok (EField s None)
     | Some (q, k) \<Rightarrow> rbind (load_bytes m q k) (\<lambda>t. Ok (EField s (Some t))))"
| "ast_view m (AInt i) = Ok (EInt i)"
| "ast_view m (AStr p n) = rbind (load_bytes m p n) (\<lambda>s. Ok (EStr s))"

lemma held_load: "held L w \<Longrightarrow> (p, s) \<in> set L \<Longrightarrow> load_bytes (w_mem w) p (length s) = Ok s"
  using load_prefix [of "w_mem w" p "length s" 1 "s @ [0]"] by (auto simp: held_def)

lemma ast_rel_view: "ast_rel L a e \<Longrightarrow> held L w \<Longrightarrow> ast_view (w_mem w) a = Ok e"
  by (induction L a e rule: ast_rel.induct) (auto simp: held_load)

subsection \<open>Memory the parser may use\<close>

text \<open>Enough memory for \<open>k\<close> more allocations, and the strings of \<open>L\<close> in place.\<close>

definition plenty :: "nat \<Rightarrow> world \<Rightarrow> bool" where
  "plenty k w \<longleftrightarrow> heap_never_fails (w_mem w) \<and> a_blocks_cap (w_arena w) * 2 \<le> SIZE_MAX div sizeof_arena_block \<and>
     (length (a_blocks (w_arena w)) + k) * 4 \<le> SIZE_MAX div sizeof_arena_block"

definition ready :: "bool \<Rightarrow> nat \<Rightarrow> (addr \<times> u8 list) list \<Rightarrow> world \<Rightarrow> bool" where
  "ready pl k L w \<longleftrightarrow> held L w \<and> (pl \<longrightarrow> plenty k w)"

lemma plenty_mono: "plenty k w \<Longrightarrow> k' \<le> k \<Longrightarrow> plenty k' w"
  by (auto simp: plenty_def)

lemma ready_mono: "ready pl k L w \<Longrightarrow> k' \<le> k \<Longrightarrow> ready pl k' L w"
  by (auto simp: ready_def dest: plenty_mono)

lemma reserve_cap:
  assumes "dtl_arena_reserve_slot m a = (b, a', m')" "length (a_blocks a) \<le> a_blocks_cap a"
  shows "a_blocks_cap a' = a_blocks_cap a \<or> a_blocks_cap a' = (length (a_blocks a) * 2) mod 2 ^ 64 \<or> a_blocks_cap a' = 4"
  using assms by (auto simp: dtl_arena_reserve_slot_def Let_def DTL_ARENA_MIN_BLOCKS_def split: if_splits prod.splits option.splits)

lemma plenty_alloc:
  assumes "plenty (Suc k) w" "world_ok w" "0 < n" "n \<le> SIZE_MAX - 15"
  shows "\<exists>p a m. dtl_arena_alloc (w_mem w) (w_arena w) n = (Some p, a, m) \<and> plenty k (w\<lparr>w_mem := m, w_arena := a\<rparr>)"
proof -
  have ok: "mem_ok (w_mem w)" "arena_ok (w_mem w) (w_arena w)" using assms(2) by (simp_all add: world_ok_def)
  obtain p a m where al: "dtl_arena_alloc (w_mem w) (w_arena w) n = (Some p, a, m)"
    using arena_alloc_succeeds [of "w_mem w" n "w_arena w"] assms by (auto simp: plenty_def heap_never_fails_def)
  have len: "length (a_blocks a) \<le> Suc (length (a_blocks (w_arena w)))"
    using al ok by (cases rule: arena_alloc_cases) auto
  have "m_oom m = m_oom (w_mem w)" using arena_alloc_mem [OF al ok(1)] by simp
  moreover have "length (a_blocks (w_arena w)) \<le> a_blocks_cap (w_arena w)" using ok(2) by (simp add: arena_ok_def)
  then have "a_blocks_cap a = a_blocks_cap (w_arena w) \<or> a_blocks_cap a = (length (a_blocks (w_arena w)) * 2) mod 2 ^ 64 \<or>
      a_blocks_cap a = 4"
    using al reserve_cap [of "w_mem w" "w_arena w"]
    by (auto simp: dtl_arena_alloc_def Let_def split: if_splits bool.splits prod.splits option.splits)
  then have "a_blocks_cap a * 2 \<le> SIZE_MAX div sizeof_arena_block"
    using assms(1) mod_less_eq_dividend [of "length (a_blocks (w_arena w)) * 2" "2 ^ 64"]
    by (auto simp: plenty_def SIZE_MAX_def sizeof_arena_block_def)
  ultimately show ?thesis
    using al len assms(1) by (auto simp: plenty_def heap_never_fails_def)
qed

lemma alloc_ready:
  assumes "0 < n" "pl \<Longrightarrow> n \<le> SIZE_MAX - 15"
  shows "wvalid (ready pl (Suc k) L) (w_arena_alloc n)
    (\<lambda>p w. case p of None \<Rightarrow> \<not> pl | Some q \<Rightarrow> ready pl k L w \<and> fresh_for L q n w) E"
proof (rule wvalidI)
  fix w assume w: "world_ok w" "ready pl (Suc k) L w"
  then have "wpost (\<lambda>p w. held L w \<and> (\<forall>q. p = Some q \<longrightarrow> fresh_for L q n w)) E (w_arena_alloc n w)"
    using wvalidD [OF arena_fresh w(1)] by (simp add: ready_def)
  moreover have "\<exists>p w'. w_arena_alloc n w = (Ok (Some p), w') \<and> plenty k w'" if pl
    using plenty_alloc [of k w n] w assms that by (fastforce simp: ready_def w_arena_alloc_def)
  ultimately show "wpost (\<lambda>p w. case p of None \<Rightarrow> \<not> pl | Some q \<Rightarrow> ready pl k L w \<and> fresh_for L q n w) E (w_arena_alloc n w)"
    by (auto simp: w_arena_alloc_def ready_def split: prod.splits option.splits)
qed

text \<open>A fresh buffer of \<open>n\<close> bytes at \<open>p\<close> whose first bytes are \<open>bs\<close>.\<close>

definition filled :: "bool \<Rightarrow> nat \<Rightarrow> (addr \<times> u8 list) list \<Rightarrow> addr \<Rightarrow> nat \<Rightarrow> u8 list \<Rightarrow> world \<Rightarrow> bool" where
  "filled pl k L p n bs w \<longleftrightarrow> ready pl k L w \<and> fresh_for L p n w \<and> load_bytes (w_mem w) p (length bs) = Ok bs"

lemma filled_start: "ready pl k L w \<Longrightarrow> fresh_for L p n w \<Longrightarrow> filled pl k L p n [] w"
  by (auto simp: filled_def fresh_for_def region_ok_def load_bytes_def split: option.splits)

lemma filled_store:
  assumes "length bs + length cs \<le> n"
  shows "wvalid (filled pl k L p n bs) (w_store (fst p, snd p + length bs) cs) (\<lambda>_. filled pl k L p n (bs @ cs)) E"
proof (rule wvalidI)
  fix w assume w: "world_ok w" "filled pl k L p n bs w"
  then have f: "fresh_for L p n w" and h: "held L w" and ld: "load_bytes (w_mem w) p (length bs) = Ok bs"
    by (simp_all add: filled_def ready_def)
  have "region_ok (w_mem w) (fst p, snd p + length bs) (length cs)"
    using f assms by (auto simp: fresh_for_def region_ok_def split: option.splits)
  then obtain m where m: "store_bytes (w_mem w) (fst p, snd p + length bs) cs = Ok m" using store_bytes_Ok_iff by blast
  have "held L (w\<lparr>w_mem := m\<rparr>)" using held_store [OF h m f] assms by simp
  moreover have "plenty k (w\<lparr>w_mem := m\<rparr>)" if "plenty k w"
    using that store_bytes_frame [OF m] by (simp add: plenty_def heap_never_fails_def)
  ultimately have "filled pl k L p n (bs @ cs) (w\<lparr>w_mem := m\<rparr>)"
    using w(2) f fresh_for_store [OF m] store_after [OF ld m] by (simp add: filled_def ready_def)
  then show "wpost (\<lambda>_. filled pl k L p n (bs @ cs)) E (w_store (fst p, snd p + length bs) cs w)"
    using m world_ok_store [OF w(1) m] by (simp add: w_store_def)
qed

lemma filled_string: "filled pl k L p n (s @ [0]) w \<Longrightarrow> length s + 1 \<le> n \<Longrightarrow> ready pl k ((p, s) # L) w"
  by (auto simp: filled_def ready_def held_def fresh_for_def anchored_def owned_def)

text \<open>Copying a name out of the source.\<close>

lemma dup_valid:
  assumes "off + n \<le> length src" "pl \<Longrightarrow> length src + 16 \<le> SIZE_MAX"
  shows "wvalid (ready pl (Suc k) L) (dtl_ast_dup src off n)
    (\<lambda>p w. case p of None \<Rightarrow> \<not> pl | Some q \<Rightarrow> ready pl k ((q, take n (drop off src)) # L) w) E"
  unfolding dtl_ast_dup_def
proof (rule wvalid_bind [OF alloc_ready])
  fix buf :: "addr option"
  let ?bs = "take n (drop off src)"
  have len: "length ?bs = n" using assms(1) by simp
  let ?Q = "\<lambda>p w. case p of None \<Rightarrow> \<not> pl | Some q \<Rightarrow> ready pl k ((q, ?bs) # L) w"
  show "wvalid (\<lambda>w. case buf of None \<Rightarrow> \<not> pl | Some q \<Rightarrow> ready pl k L w \<and> fresh_for L q (n + 1) w)
     (case buf of None \<Rightarrow> wret None
      | Some p \<Rightarrow> wbind (if n \<noteq> 0 then wbind (wlift (slice_at src off n)) (w_store p) else wret ())
          (\<lambda>_. wbind (w_store (fst p, snd p + n) [0]) (\<lambda>_. wret (Some p)))) ?Q E"
  proof (cases buf)
    case (Some p)
    have st: "wvalid (filled pl k L p (n + 1) []) (if n \<noteq> 0 then wbind (wlift (slice_at src off n)) (w_store p) else wret ())
        (\<lambda>_. filled pl k L p (n + 1) ?bs) E"
    proof (cases "n = 0")
      case False
      then show ?thesis
        using filled_store [of "[]" ?bs "n + 1" pl k L p E] assms(1) len by simp
    qed (simp add: wvalid_ret)
    have fin: "wvalid (filled pl k L p (n + 1) ?bs) (wbind (w_store (fst p, snd p + n) [0]) (\<lambda>_. wret (Some p))) ?Q E"
    proof (rule wvalid_bind)
      show "wvalid (filled pl k L p (n + 1) ?bs) (w_store (fst p, snd p + n) [0]) (\<lambda>_. filled pl k L p (n + 1) (?bs @ [0])) E"
        using filled_store [of ?bs "[0]" "n + 1" pl k L p E] len by simp
      show "wvalid (filled pl k L p (n + 1) (?bs @ [0])) (wret (Some p)) ?Q E"
        by (rule wvalid_ret) (use filled_string [of pl k L p "n + 1" ?bs] len in simp)
    qed
    show ?thesis
      unfolding Some option.case by (rule wvalid_pre [OF _ wvalid_bind [OF st fin]]) (simp add: filled_start)
  qed (simp add: wvalid_ret)
qed (use assms in auto)

subsection \<open>Outcomes\<close>

text \<open>
  A parser function that returns \<open>NULL\<close> has latched a syntax error and the reference rejects, or memory
  ran out, which the code reports as such or, for a string literal, not at all.
\<close>

definition fails :: "bool \<Rightarrow> bool \<Rightarrow> dtl_parser \<Rightarrow> bool" where
  "fails pl rejected p \<longleftrightarrow> p_err p \<in> {DTL_OK, DTL_ERR_OOM} \<and> \<not> pl \<or> p_err p = DTL_ERR_BADQUERY \<and> rejected"

definition npost :: "(dtl_ast \<Rightarrow> dtl_parser \<Rightarrow> world \<Rightarrow> bool) \<Rightarrow> (dtl_parser \<Rightarrow> bool) \<Rightarrow> parsed_node \<Rightarrow> world \<Rightarrow> bool" where
  "npost R bad = (\<lambda>(node, p) w. case node of None \<Rightarrow> bad p | Some a \<Rightarrow> R a p w)"

lemma npost_simps [simp]: "npost R bad (None, p) w = bad p" "npost R bad (Some a, p) w = R a p w"
  by (simp_all add: npost_def)

lemma pbind_valid:
  assumes "wvalid P f (npost R bad) E" and "\<And>a p. wvalid (R a p) (g a p) (npost R' bad') E"
    and "\<And>p. bad p \<Longrightarrow> bad' p"
  shows "wvalid P (pbind f g) (npost R' bad') E"
  unfolding pbind_def
proof (rule wvalid_bind [OF assms(1)])
  fix x :: parsed_node
  show "wvalid (npost R bad x) (case x of (node, p) \<Rightarrow> case node of None \<Rightarrow> wret (None, p) | Some x \<Rightarrow> g x p) (npost R' bad') E"
  proof (cases x)
    case (Pair node p)
    then show ?thesis using assms(2,3) by (cases node) (simp_all add: npost_def wvalid_ret)
  qed
qed

lemma npost_weaken:
  assumes "wvalid P f (npost R bad) E" "\<And>a p w. R a p w \<Longrightarrow> R' a p w" "\<And>p. bad p \<Longrightarrow> bad' p"
  shows "wvalid P f (npost R' bad') E"
  by (rule wvalid_weaken [OF assms(1)]) (use assms(2,3) in \<open>auto simp: npost_def split: option.splits\<close>)

lemma fail_valid:
  "p_err p \<in> {DTL_OK, DTL_ERR_BADQUERY} \<Longrightarrow> (\<And>w. P w \<Longrightarrow> rej) \<Longrightarrow> wvalid P (dtl_parse_fail p) (npost R (fails pl rej)) E"
  by (auto simp: dtl_parse_fail_def fails_def intro!: wvalid_ret)

lemma pnode_valid:
  assumes "wvalid P f (\<lambda>n w. case n of None \<Rightarrow> \<not> pl | Some a \<Rightarrow> R a w) E"
  shows "wvalid P (pnode f p) (npost (\<lambda>a p' w. p' = p \<and> R a w) (fails pl rej)) E"
  unfolding pnode_def
proof (rule wvalid_bind [OF assms])
  fix n :: "dtl_ast option"
  show "wvalid (\<lambda>w. case n of None \<Rightarrow> \<not> pl | Some a \<Rightarrow> R a w)
      (case n of None \<Rightarrow> wret (None, p\<lparr>p_err := DTL_ERR_OOM\<rparr>) | Some x \<Rightarrow> wret (Some x, p))
      (npost (\<lambda>a p' w. p' = p \<and> R a w) (fails pl rej)) E"
    by (cases n) (auto simp: fails_def intro!: wvalid_ret)
qed

lemma new_valid:
  "wvalid (ready pl (Suc k) L) (dtl_ast_new a) (\<lambda>n w. case n of None \<Rightarrow> \<not> pl | Some a' \<Rightarrow> a' = a \<and> ready pl k L w) E"
  unfolding dtl_ast_new_def
proof (rule wvalid_bind [OF alloc_ready])
  fix q :: "addr option"
  show "wvalid (\<lambda>w. case q of None \<Rightarrow> \<not> pl | Some q \<Rightarrow> ready pl k L w \<and> fresh_for L q sizeof_ast w)
     (wret (map_option (\<lambda>_. a) q)) (\<lambda>n w. case n of None \<Rightarrow> \<not> pl | Some a' \<Rightarrow> a' = a \<and> ready pl k L w) E"
    by (rule wvalid_ret) (cases q; simp)
qed (simp_all add: sizeof_ast_def SIZE_MAX_def)

lemma wvalid_option:
  assumes "\<And>a. wvalid (R a) (g a) Q E" "wvalid (\<lambda>_. N) h Q E"
  shows "wvalid (\<lambda>w. case x of None \<Rightarrow> N | Some a \<Rightarrow> R a w) (case x of None \<Rightarrow> h | Some a \<Rightarrow> g a) Q E"
  using assms by (cases x) simp_all

lemma field_valid:
  assumes "s1 + n1 \<le> length src" "\<forall>s2 n2. second = Some (s2, n2) \<longrightarrow> s2 + n2 \<le> length src"
    "pl \<Longrightarrow> length src + 16 \<le> SIZE_MAX"
    and e: "e = EField (take n1 (drop s1 src)) (map_option (\<lambda>(s2, n2). take n2 (drop s2 src)) second)"
  shows "wvalid (ready pl (Suc (Suc (Suc k))) L) (dtl_ast_field src s1 n1 second)
    (\<lambda>n w. case n of None \<Rightarrow> \<not> pl | Some a \<Rightarrow> \<exists>L'. ast_rel (L' @ L) a e \<and> ready pl k (L' @ L) w) E"
    (is "wvalid _ _ ?Q E")
proof -
  let ?x = "take n1 (drop s1 src)"
  have l1: "length ?x = n1" using assms(1) by simp
  have two: "wvalid (ready pl (Suc k) ((p1, ?x) # L)) (case second of None \<Rightarrow> wret (Some (AField p1 n1 None))
          | Some (s2, n2) \<Rightarrow> wbind (dtl_ast_dup src s2 n2) (\<lambda>d2. case d2 of None \<Rightarrow> wret None
              | Some p2 \<Rightarrow> wret (Some (AField p1 n1 (Some (p2, n2)))))) ?Q E" for p1
  proof (cases second)
    case None
    have "?Q (Some (AField p1 n1 None)) w" if "ready pl (Suc k) ((p1, ?x) # L) w" for w
      using ready_mono [OF that, of k] e None l1 by (auto intro!: exI [of _ "[(p1, ?x)]"])
    then show ?thesis unfolding None by (auto intro: wvalid_ret)
  next
    case (Some q)
    obtain s2 n2 where q: "q = (s2, n2)" by (cases q)
    let ?y = "take n2 (drop s2 src)"
    have b2: "s2 + n2 \<le> length src" using assms(2) Some q by simp
    have "?Q (Some (AField p1 n1 (Some (p2, n2)))) w" if "ready pl k ((p2, ?y) # (p1, ?x) # L) w" for w p2
      using that e Some q l1 b2 by (auto intro!: exI [of _ "[(p2, ?y), (p1, ?x)]"])
    then show ?thesis
      unfolding Some q option.case prod.case
      by (intro wvalid_bind [OF dup_valid [OF b2 assms(3)]] wvalid_option wvalid_ret) auto
  qed
  have one: "wvalid (ready pl (Suc (Suc k)) L) (wbind (dtl_ast_dup src s1 n1) (\<lambda>d1. case d1 of None \<Rightarrow> wret None
     | Some p1 \<Rightarrow> (case second of None \<Rightarrow> wret (Some (AField p1 n1 None))
          | Some (s2, n2) \<Rightarrow> wbind (dtl_ast_dup src s2 n2) (\<lambda>d2. case d2 of None \<Rightarrow> wret None
              | Some p2 \<Rightarrow> wret (Some (AField p1 n1 (Some (p2, n2)))))))) ?Q E"
    by (intro wvalid_bind [OF dup_valid [OF assms(1,3)]] wvalid_option two wvalid_ret) auto
  show ?thesis
    unfolding dtl_ast_field_def
  proof (rule wvalid_bind [OF alloc_ready])
    fix node :: "addr option"
    show "wvalid (\<lambda>w. case node of None \<Rightarrow> \<not> pl | Some q \<Rightarrow> ready pl (Suc (Suc k)) L w \<and> fresh_for L q sizeof_ast w)
       (if node = None then wret None else wbind (dtl_ast_dup src s1 n1) (\<lambda>d1. case d1 of None \<Rightarrow> wret None
     | Some p1 \<Rightarrow> (case second of None \<Rightarrow> wret (Some (AField p1 n1 None))
          | Some (s2, n2) \<Rightarrow> wbind (dtl_ast_dup src s2 n2) (\<lambda>d2. case d2 of None \<Rightarrow> wret None
              | Some p2 \<Rightarrow> wret (Some (AField p1 n1 (Some (p2, n2)))))))) ?Q E"
    proof (cases node)
      case (Some q)
      then show ?thesis using wvalid_pre [OF _ one, of "\<lambda>w. ready pl (Suc (Suc k)) L w \<and> fresh_for L q sizeof_ast w"] by simp
    qed (simp add: wvalid_ret)
  qed (simp_all add: sizeof_ast_def SIZE_MAX_def)
qed

subsection \<open>String literals\<close>

lemma decode_loop_valid:
  "length bs + length raw + 1 \<le> n \<Longrightarrow>
   wvalid (filled pl k L p n bs) (decode_loop raw p (length bs))
     (\<lambda>r w. case r of None \<Rightarrow> decode_str raw = None
       | Some j \<Rightarrow> \<exists>v. decode_str raw = Some v \<and> j = length bs + length v \<and> ready pl k ((p, bs @ v) # L) w) E"
proof (induction raw arbitrary: bs rule: decode_str.induct)
  case 1
  show ?case
    unfolding decode_loop.simps
  proof (rule wvalid_bind)
    show "wvalid (filled pl k L p n bs) (w_store (fst p, snd p + length bs) [0]) (\<lambda>_. filled pl k L p n (bs @ [0])) E"
      using filled_store [of bs "[0]" n pl k L p E] 1 by simp
    show "wvalid (filled pl k L p n (bs @ [0])) (wret (Some (length bs)))
      (\<lambda>r w. case r of None \<Rightarrow> decode_str [] = None
       | Some j \<Rightarrow> \<exists>v. decode_str [] = Some v \<and> j = length bs + length v \<and> ready pl k ((p, bs @ v) # L) w) E"
      by (rule wvalid_ret) (use filled_string [of pl k L p n bs] 1 in simp)
  qed
next
  case (2 c cs)
  have put: "wvalid (filled pl k L p n bs) (w_store (fst p, snd p + length bs) [b]) (\<lambda>_. filled pl k L p n (bs @ [b])) E" for b
    using filled_store [of bs "[b]" n pl k L p E] "2.prems" by simp
  show ?case
  proof (cases "c = ch CHR 0x5C")
    case False
    let ?Q = "\<lambda>r w. case r of None \<Rightarrow> decode_str (c # cs) = None
       | Some j \<Rightarrow> \<exists>v. decode_str (c # cs) = Some v \<and> j = length bs + length v \<and> ready pl k ((p, bs @ v) # L) w"
    have "wvalid (filled pl k L p n (bs @ [c])) (decode_loop cs p (length (bs @ [c]))) ?Q E"
      by (rule wvalid_weaken [OF "2.IH"(2) [OF False, of "bs @ [c]"]])
        (use "2.prems" False in \<open>auto split: option.splits\<close>)
    then have "wvalid (filled pl k L p n (bs @ [c])) (decode_loop cs p (Suc (length bs))) ?Q E" by simp
    with False wvalid_bind [OF put] show ?thesis by simp
  next
    case True
    show ?thesis
    proof (cases cs)
      case Nil
      then show ?thesis using True by (simp add: wvalid_ret)
    next
      case (Cons b cs')
      let ?Q = "\<lambda>r w. case r of None \<Rightarrow> decode_str (c # cs) = None
       | Some j \<Rightarrow> \<exists>v. decode_str (c # cs) = Some v \<and> j = length bs + length v \<and> ready pl k ((p, bs @ v) # L) w"
      show ?thesis
      proof (cases "b = ch CHR 0x22 \<or> b = ch CHR 0x5C")
        case good: True
        have "wvalid (filled pl k L p n (bs @ [b])) (decode_loop cs' p (length (bs @ [b]))) ?Q E"
          by (rule wvalid_weaken [OF "2.IH"(1) [OF True Cons good, of "bs @ [b]"]])
            (use "2.prems" True good Cons in \<open>auto split: option.splits\<close>)
        then have "wvalid (filled pl k L p n (bs @ [b])) (decode_loop cs' p (Suc (length bs))) ?Q E" by simp
        with True Cons good wvalid_bind [OF put] show ?thesis by simp
      next
        case False
        then show ?thesis using True Cons by (simp add: wvalid_ret)
      qed
    qed
  qed
qed

lemma string_valid:
  assumes "off + n \<le> length (lex_src (p_lex p))" "pl \<Longrightarrow> length (lex_src (p_lex p)) + 16 \<le> SIZE_MAX" "p_err p = DTL_OK"
    and raw: "raw = take n (drop off (lex_src (p_lex p)))"
  shows "wvalid (ready pl (Suc (Suc k)) L) (dtl_parse_string p off n)
    (npost (\<lambda>a p' w. p' = p \<and> (\<exists>v L'. decode_str raw = Some v \<and> ast_rel (L' @ L) a (EStr v) \<and> ready pl k (L' @ L) w))
       (fails pl (decode_str raw = None))) E" (is "wvalid _ _ ?Q E")
proof -
  have len: "length raw = n" using assms(1) raw by simp
  have sl: "slice_at (lex_src (p_lex p)) off n = Ok raw" using assms(1) raw by simp
  have str: "wvalid (\<lambda>w. \<exists>v. decode_str raw = Some v \<and> j = length v \<and> ready pl (Suc k) ((buf, v) # L) w)
      (wbind (dtl_ast_str buf j) (\<lambda>node. wret (node, p))) ?Q E" for buf j
  proof (rule wvalid_ex, rule wvalid_conj, rule wvalid_conj)
    fix v assume v: "decode_str raw = Some v" "j = length v"
    show "wvalid (ready pl (Suc k) ((buf, v) # L)) (wbind (dtl_ast_str buf j) (\<lambda>node. wret (node, p))) ?Q E"
      unfolding dtl_ast_str_def
    proof (rule wvalid_bind [OF new_valid], rule wvalid_ret)
      fix node :: "dtl_ast option" and w
      assume "case node of None \<Rightarrow> \<not> pl | Some a' \<Rightarrow> a' = AStr buf j \<and> ready pl k ((buf, v) # L) w"
      then show "?Q (node, p) w"
        using assms(3) v by (cases node) (auto simp: fails_def intro!: exI [of _ "[(buf, v)]"])
    qed
  qed
  have dec: "wvalid (\<lambda>w. ready pl (Suc k) L w \<and> fresh_for L buf (n + 1) w) (wbind (decode_loop raw buf 0) (\<lambda>k.
         case k of None \<Rightarrow> dtl_parse_fail p
         | Some n \<Rightarrow> wbind (dtl_ast_str buf n) (\<lambda>node. wret (node, p)))) ?Q E" for buf
  proof (rule wvalid_pre [where P' = "filled pl (Suc k) L buf (n + 1) []"])
    show "wvalid (filled pl (Suc k) L buf (n + 1) []) (wbind (decode_loop raw buf 0) (\<lambda>k.
         case k of None \<Rightarrow> dtl_parse_fail p
         | Some n \<Rightarrow> wbind (dtl_ast_str buf n) (\<lambda>node. wret (node, p)))) ?Q E"
    proof (rule wvalid_bind)
      show "wvalid (filled pl (Suc k) L buf (n + 1) []) (decode_loop raw buf 0)
        (\<lambda>r w. case r of None \<Rightarrow> decode_str raw = None
          | Some j \<Rightarrow> \<exists>v. decode_str raw = Some v \<and> j = length v \<and> ready pl (Suc k) ((buf, v) # L) w) E"
        by (rule decode_loop_valid [of "[]" raw "n + 1" pl "Suc k" L buf E, unfolded list.size(3) add_0 append_Nil])
          (simp add: len)
      fix r :: "nat option"
      show "wvalid (\<lambda>w. case r of None \<Rightarrow> decode_str raw = None
          | Some j \<Rightarrow> \<exists>v. decode_str raw = Some v \<and> j = length v \<and> ready pl (Suc k) ((buf, v) # L) w)
        (case r of None \<Rightarrow> dtl_parse_fail p | Some n \<Rightarrow> wbind (dtl_ast_str buf n) (\<lambda>node. wret (node, p))) ?Q E"
        by (rule wvalid_option [OF str fail_valid]) (simp_all add: assms(3))
    qed
  qed (simp add: filled_start)
  show ?thesis
    unfolding dtl_parse_string_def
  proof (rule wvalid_bind [OF alloc_ready])
    fix buf :: "addr option"
    show "wvalid (\<lambda>w. case buf of None \<Rightarrow> \<not> pl | Some q \<Rightarrow> ready pl (Suc k) L w \<and> fresh_for L q (n + 1) w)
      (case buf of None \<Rightarrow> wret (None, p\<lparr>p_err := DTL_ERR_OOM\<rparr>)
       | Some buf \<Rightarrow> wbind (wlift (slice_at (lex_src (p_lex p)) off n)) (\<lambda>bytes.
         wbind (decode_loop bytes buf 0) (\<lambda>k. case k of None \<Rightarrow> dtl_parse_fail p
         | Some n \<Rightarrow> wbind (dtl_ast_str buf n) (\<lambda>node. wret (node, p))))) ?Q E"
      unfolding sl wbind_simps by (rule wvalid_option [OF dec]) (simp add: fails_def wvalid_ret)
  qed (use assms in auto)
qed

subsection \<open>The parser state and the tokens ahead\<close>

definition pstate :: "u8 list \<Rightarrow> dtl_parser \<Rightarrow> tok list \<Rightarrow> bool" where
  "pstate s p ts \<longleftrightarrow>
     (if p_err p = DTL_OK then
        lex_src (p_lex p) = s \<and> pos_ok s (lex_pos (p_lex p)) \<and>
        (if tok_kind (p_cur p) = DTL_TOK_END then ts = []
         else ts = tok_view s (p_cur p) # tokens (drop (lex_pos (p_lex p)) s) \<and>
           (tok_kind (p_cur p) \<in> {DTL_TOK_STR, DTL_TOK_IDENT} \<longrightarrow>
             tok_s (p_cur p) \<noteq> None \<and> tok_start (p_cur p) + tok_n (p_cur p) \<le> length s))
      else p_err p = DTL_ERR_BADQUERY \<and> tok_kind (p_cur p) = DTL_TOK_END \<and> ts = [TBad])"

lemma pstate_next:
  assumes "lex_src (p_lex p) = s" "p_err p = DTL_OK" "pos_ok s (lex_pos (p_lex p))"
  shows "\<exists>p'. dtl_parse_advance p = Ok p' \<and> pstate s p' (tokens (drop (lex_pos (p_lex p)) s))"
proof -
  define pos where "pos = lex_pos (p_lex p)"
  define q where "q = skip_blanks s pos"
  have lx: "p_lex p = \<lparr>lex_src = s, lex_pos = pos\<rparr>" using assms(1) by (simp add: pos_def)
  have pos: "pos_ok s pos" using assms(3) by (simp add: pos_def)
  note nx = lex_next_eq [OF pos q_def, of "p_cur p"] and tk = tokens_at [OF pos q_def]
  have q: "pos_ok s q" using skip_blanks_eq(2) [OF pos] by (simp add: q_def)
  show ?thesis
  proof (cases "s ! q = 0")
    case True
    then show ?thesis using nx tk assms(2) q by (auto simp: dtl_parse_advance_def lx pstate_def)
  next
    case False
    show ?thesis
    proof (cases "lex_tok (drop q s)")
      case None
      then obtain t lx' where "dtl_lex_next \<lparr>lex_src = s, lex_pos = pos\<rparr> (p_cur p) = Ok (DTL_ERR_BADQUERY, t, lx')"
        using nx False by (auto simp: token_at_def)
      then have "dtl_parse_advance p = Ok (p\<lparr>p_lex := lx', p_err := DTL_ERR_BADQUERY, p_cur := t\<lparr>tok_kind := DTL_TOK_END\<rparr>\<rparr>)"
        using assms(2) by (simp add: dtl_parse_advance_def lx)
      then show ?thesis using tk False None by (intro exI conjI) (auto simp: pstate_def lx)
    qed (use False nx tk assms(2) in \<open>auto simp: dtl_parse_advance_def lx pstate_def token_at_def tok_start_def\<close>)
  qed
qed

lemma advance_pstate:
  assumes "pstate s p ts" "tok_kind (p_cur p) \<noteq> DTL_TOK_END"
  obtains p' where "dtl_parse_advance p = Ok p'" "pstate s p' (tl ts)"
  using pstate_next [of p s] assms by (auto simp: pstate_def split: if_splits)

lemma padvance_valid:
  assumes "pstate s p ts" "tok_kind (p_cur p) \<noteq> DTL_TOK_END" and "\<And>p'. pstate s p' (tl ts) \<Longrightarrow> wvalid P (g p') Q E"
  shows "wvalid P (padvance p g) Q E"
  using advance_pstate [OF assms(1,2)] assms(3) unfolding padvance_def by (metis wbind_simps(1))

text \<open>The current token is the first token ahead.\<close>

lemma pstate_head:
  assumes "pstate s p ts"
  shows "tok_kind (p_cur p) = DTL_TOK_END \<longleftrightarrow> ts = [] \<or> hd ts = TBad"
    and "tok_kind (p_cur p) = DTL_TOK_NUM \<Longrightarrow> ts = TNum (tok_num (p_cur p)) # tl ts"
    and "tok_kind (p_cur p) = DTL_TOK_STR \<Longrightarrow> ts = TStr (take (tok_n (p_cur p)) (drop (tok_start (p_cur p)) s)) # tl ts"
    and "tok_kind (p_cur p) = DTL_TOK_IDENT \<Longrightarrow> ts = TIdent (take (tok_n (p_cur p)) (drop (tok_start (p_cur p)) s)) # tl ts"
    and "k \<in> set op_kinds \<Longrightarrow> tok_kind (p_cur p) = k \<longleftrightarrow> ts \<noteq> [] \<and> hd ts = TOp k"
    and "tok_kind (p_cur p) \<in> {DTL_TOK_STR, DTL_TOK_IDENT} \<Longrightarrow> tok_start (p_cur p) + tok_n (p_cur p) \<le> length s"
  using assms by (auto simp: pstate_def tok_view_def tok_start_def op_kinds_cases
      split: if_splits dtl_token_kind.splits option.splits)

lemma pstate_err: "pstate s p ts \<Longrightarrow> p_err p \<noteq> DTL_OK \<Longrightarrow> p_err p = DTL_ERR_BADQUERY \<and> ts = [TBad]"
  "pstate s p ts \<Longrightarrow> p_err p \<in> {DTL_OK, DTL_ERR_BADQUERY}"
  by (auto simp: pstate_def split: if_splits)

lemma length_tokens: "length (tokens xs) \<le> length xs"
proof (induction xs rule: tokens.induct)
  case (1 xs)
  show ?case
  proof (cases "dropWhile dtl_lex_is_space xs")
    case (Cons c cs)
    have le: "length (c # cs) \<le> length xs" using length_dropWhile_le [of dtl_lex_is_space xs] Cons by simp
    show ?thesis
    proof (cases "c = 0 \<or> lex_tok (c # cs) = None")
      case True
      then show ?thesis using Cons le by (auto simp: tokens.simps [of xs])
    next
      case False
      then obtain t n where t: "lex_tok (c # cs) = Some (t, n)" by auto
      then have "tokens xs = t # tokens (drop n (c # cs))" using False Cons by (simp add: tokens.simps [of xs])
      then show ?thesis using "1.IH" [OF Cons _ t refl] False le lex_tok_pos [OF t] by auto
    qed
  qed (simp add: tokens.simps [of xs] del: dropWhile_eq_Nil_conv)
qed

lemma chain_fuel_enough: "pstate s p ts \<Longrightarrow> length ts < chain_fuel p"
  using length_tokens [of "drop (lex_pos (p_lex p)) s"]
  by (auto simp: pstate_def chain_fuel_def split: if_splits)

subsection \<open>Simulation\<close>

definition built :: "bool \<Rightarrow> u8 list \<Rightarrow> (addr \<times> u8 list) list \<Rightarrow> nat \<Rightarrow> expr \<Rightarrow> tok list \<Rightarrow> dtl_ast \<Rightarrow> dtl_parser \<Rightarrow> world \<Rightarrow> bool" where
  "built pl s L k e rest a p w \<longleftrightarrow>
     pstate s p rest \<and> (\<exists>L'. ast_rel (L' @ L) a e \<and> ready pl (3 * length rest + k) (L' @ L) w)"

text \<open>Three units of memory per token ahead are enough.\<close>

definition simulates :: "bool \<Rightarrow> u8 list \<Rightarrow> (dtl_parser \<Rightarrow> parsed_node wm) \<Rightarrow> expr tparser \<Rightarrow> bool" where
  "simulates pl s f r \<longleftrightarrow> (\<forall>p ts L k. pstate s p ts \<longrightarrow>
     wvalid (ready pl (3 * length ts + k) L) (f p)
       (npost (\<lambda>a p' w. \<exists>e rest. r ts = Some (e, rest) \<and> built pl s L k e rest a p' w) (fails pl (r ts = None))) (\<lambda>_. False))"

lemma simulatesD:
  "simulates pl s f r \<Longrightarrow> pstate s p ts \<Longrightarrow> wvalid (ready pl (3 * length ts + k) L) (f p)
     (npost (\<lambda>a p' w. \<exists>e rest. r ts = Some (e, rest) \<and> built pl s L k e rest a p' w) (fails pl (r ts = None))) (\<lambda>_. False)"
  by (simp add: simulates_def)

text \<open>A sub-parser run while a tree is kept, and a node built over kept trees.\<close>

lemma sub_keeps:
  assumes "simulates pl s f r" "pstate s p ts"
  shows "wvalid (\<lambda>w. \<exists>L'. ast_rel (L' @ L) left e \<and> ready pl (3 * length ts + k) (L' @ L) w) (f p)
    (npost (\<lambda>a p' w. \<exists>e' rest. r ts = Some (e', rest) \<and> pstate s p' rest \<and>
        (\<exists>L'. ast_rel (L' @ L) left e \<and> ast_rel (L' @ L) a e' \<and> ready pl (3 * length rest + k) (L' @ L) w))
      (fails pl (r ts = None))) (\<lambda>_. False)"
proof (rule wvalid_ex, rule wvalid_conj)
  fix L' assume l: "ast_rel (L' @ L) left e"
  show "wvalid (ready pl (3 * length ts + k) (L' @ L)) (f p)
    (npost (\<lambda>a p' w. \<exists>e' rest. r ts = Some (e', rest) \<and> pstate s p' rest \<and>
        (\<exists>L'. ast_rel (L' @ L) left e \<and> ast_rel (L' @ L) a e' \<and> ready pl (3 * length rest + k) (L' @ L) w))
      (fails pl (r ts = None))) (\<lambda>_. False)"
  proof (rule npost_weaken [OF simulatesD [OF assms]])
    fix a p' w assume "\<exists>e rest. r ts = Some (e, rest) \<and> built pl s (L' @ L) k e rest a p' w"
    then obtain e' rest L'' where "r ts = Some (e', rest)" "pstate s p' rest" "ast_rel ((L'' @ L') @ L) a e'"
      "ready pl (3 * length rest + k) ((L'' @ L') @ L) w" by (auto simp: built_def)
    moreover have "ast_rel ((L'' @ L') @ L) left e" by (rule ast_rel_mono [OF l]) auto
    ultimately show "\<exists>e' rest. r ts = Some (e', rest) \<and> pstate s p' rest \<and>
        (\<exists>L'. ast_rel (L' @ L) left e \<and> ast_rel (L' @ L) a e' \<and> ready pl (3 * length rest + k) (L' @ L) w)" by blast
  qed
qed

lemma node_over:
  "wvalid (\<lambda>w. \<exists>L'. ast_rel (L' @ L) a e \<and> ready pl (Suc j) (L' @ L) w) (pnode (dtl_ast_new a) p)
    (npost (\<lambda>a' p' w. p' = p \<and> a' = a \<and> (\<exists>L'. ast_rel (L' @ L) a e \<and> ready pl j (L' @ L) w)) (fails pl rej)) E"
proof (rule wvalid_ex, rule wvalid_conj)
  fix L' assume "ast_rel (L' @ L) a e"
  then show "wvalid (ready pl (Suc j) (L' @ L)) (pnode (dtl_ast_new a) p)
    (npost (\<lambda>a' p' w. p' = p \<and> a' = a \<and> (\<exists>L'. ast_rel (L' @ L) a e \<and> ready pl j (L' @ L) w)) (fails pl rej)) E"
    by (intro npost_weaken [OF pnode_valid [OF new_valid]]) auto
qed

lemma chain_simulates:
  assumes sub: "simulates pl s sub r" and prog: "\<And>ts e rest. r ts = Some (e, rest) \<Longrightarrow> length rest < length ts"
    and k: "k \<in> set op_kinds" and mk: "\<And>L a b e f. ast_rel L (mk a b) (MK e f) \<longleftrightarrow> ast_rel L a e \<and> ast_rel L b f"
  shows "pstate s p ts \<Longrightarrow> length ts < fuel \<Longrightarrow>
    wvalid (\<lambda>w. \<exists>L'. ast_rel (L' @ L) left e \<and> ready pl (3 * length ts + K) (L' @ L) w) (parse_chain fuel k mk sub left p)
      (npost (\<lambda>a p' w. \<exists>e' rest. ref_chain k MK r e ts = Some (e', rest) \<and> built pl s L K e' rest a p' w)
        (fails pl (ref_chain k MK r e ts = None))) (\<lambda>_. False)"
proof (induction fuel arbitrary: p ts left e)
  case (Suc fuel)
  let ?Q = "npost (\<lambda>a p' w. \<exists>e' rest. ref_chain k MK r e ts = Some (e', rest) \<and> built pl s L K e' rest a p' w)
        (fails pl (ref_chain k MK r e ts = None))"
  show ?case
  proof (cases "tok_kind (p_cur p) = k")
    case False
    then have "ref_chain k MK r e ts = Some (e, ts)"
      using pstate_head(5) [OF Suc.prems(1) k] by (auto simp: ref_chain.simps [of k MK r e ts])
    then show ?thesis using False Suc.prems(1) by (auto simp: built_def intro!: wvalid_ret)
  next
    case True
    then obtain ts' where ts: "ts = TOp k # ts'"
      using pstate_head(5) [OF Suc.prems(1) k] by (cases ts) auto
    have ne: "tok_kind (p_cur p) \<noteq> DTL_TOK_END" using k True by (auto simp: op_kinds_cases)
    have rc: "ref_chain k MK r e ts = (case r ts' of None \<Rightarrow> None | Some (f, rest) \<Rightarrow> ref_chain k MK r (MK e f) rest)"
      unfolding ref_chain.simps [of k MK r e ts] using prog [of ts'] ts by (auto split: option.split)
    have loop: "wvalid (\<lambda>w. \<exists>L'. ast_rel (L' @ L) left e \<and> ready pl (3 * length ts' + (K + 3)) (L' @ L) w)
       (pbind (sub p1) (\<lambda>right p. pbind (pnode (dtl_ast_binary mk left right) p) (\<lambda>left p. parse_chain fuel k mk sub left p)))
       ?Q (\<lambda>_. False)" if p1: "pstate s p1 ts'" for p1
    proof (rule pbind_valid [OF sub_keeps [OF sub p1]])
      fix right p2
      show "wvalid (\<lambda>w. \<exists>f rest. r ts' = Some (f, rest) \<and> pstate s p2 rest \<and>
          (\<exists>L'. ast_rel (L' @ L) left e \<and> ast_rel (L' @ L) right f \<and> ready pl (3 * length rest + (K + 3)) (L' @ L) w))
        (pbind (pnode (dtl_ast_binary mk left right) p2) (\<lambda>left p. parse_chain fuel k mk sub left p)) ?Q (\<lambda>_. False)"
      proof (rule wvalid_ex, rule wvalid_ex, rule wvalid_conj, rule wvalid_conj)
        fix f rest assume f: "r ts' = Some (f, rest)" and p2: "pstate s p2 rest"
        have eq: "ref_chain k MK r e ts = ref_chain k MK r (MK e f) rest" by (simp add: rc f)
        have lt: "length rest < fuel" using prog [OF f] Suc.prems(2) ts by simp
        let ?N = "\<lambda>a p' w. p' = p2 \<and> a = mk left right \<and>
          (\<exists>L'. ast_rel (L' @ L) (mk left right) (MK e f) \<and> ready pl (3 * length rest + K) (L' @ L) w)"
        have again: "wvalid (?N a p') (parse_chain fuel k mk sub a p') ?Q (\<lambda>_. False)" for a p'
          by (rule wvalid_conj, rule wvalid_conj, unfold eq, simp, rule Suc.IH [OF p2 lt])
        show "wvalid (\<lambda>w. \<exists>L'. ast_rel (L' @ L) left e \<and> ast_rel (L' @ L) right f \<and> ready pl (3 * length rest + (K + 3)) (L' @ L) w)
          (pbind (pnode (dtl_ast_binary mk left right) p2) (\<lambda>left p. parse_chain fuel k mk sub left p)) ?Q (\<lambda>_. False)"
          unfolding dtl_ast_binary_def
          by (rule wvalid_pre [OF _ pbind_valid [where R = ?N and bad = "fails pl False", OF node_over again]])
            (auto simp: mk fails_def elim!: ready_mono)
      qed
    qed (auto simp: fails_def rc)
    have "parse_chain (Suc fuel) k mk sub left p = padvance p (\<lambda>p. pbind (sub p) (\<lambda>right p.
        pbind (pnode (dtl_ast_binary mk left right) p) (\<lambda>left p. parse_chain fuel k mk sub left p)))" using True by simp
    moreover have "3 * length ts + K = 3 * length ts' + (K + 3)" using ts by simp
    ultimately show ?thesis using padvance_valid [OF Suc.prems(1) ne] loop ts by (simp only: list.sel)
  qed
qed simp

subsection \<open>The parser functions\<close>

text \<open>The postcondition of a parser function on the tokens \<open>ts\<close> whose reference result is \<open>r\<close>.\<close>

definition outcome :: "bool \<Rightarrow> u8 list \<Rightarrow> (addr \<times> u8 list) list \<Rightarrow> nat \<Rightarrow> (expr \<times> tok list) option \<Rightarrow> parsed_node \<Rightarrow> world \<Rightarrow> bool" where
  "outcome pl s L k r = npost (\<lambda>a p w. \<exists>e rest. r = Some (e, rest) \<and> built pl s L k e rest a p w) (fails pl (r = None))"

lemma simulatesI:
  assumes "\<And>p ts L k. pstate s p ts \<Longrightarrow> p_err p = DTL_OK \<Longrightarrow>
      wvalid (ready pl (3 * length ts + k) L) (f p) (outcome pl s L k (r ts)) (\<lambda>_. False)"
    and "\<And>p. p_err p \<noteq> DTL_OK \<Longrightarrow> f p = dtl_parse_fail p" and "r [TBad] = None"
  shows "simulates pl s f r"
  unfolding simulates_def
proof (intro allI impI)
  fix p ts L k assume p: "pstate s p ts"
  show "wvalid (ready pl (3 * length ts + k) L) (f p)
     (npost (\<lambda>a p' w. \<exists>e rest. r ts = Some (e, rest) \<and> built pl s L k e rest a p' w) (fails pl (r ts = None))) (\<lambda>_. False)"
  proof (cases "p_err p = DTL_OK")
    case True
    then show ?thesis using assms(1) [OF p] by (simp add: outcome_def)
  next
    case False
    then show ?thesis using assms(2,3) pstate_err(1) [OF p] by (simp add: fail_valid)
  qed
qed

lemma outcome_built:
  assumes "r = Some (e, rest)" "pstate s p rest" "3 * length rest + k \<le> j"
  shows "wvalid (\<lambda>w. \<exists>L'. ast_rel (L' @ L) a e \<and> ready pl j (L' @ L) w) (wret (Some a, p)) (outcome pl s L k r) E"
  using assms by (auto simp: outcome_def built_def intro!: wvalid_ret elim!: ready_mono)

lemma outcome_advance:
  assumes "r = Some (e, tl ts)" "pstate s p ts" "tok_kind (p_cur p) \<noteq> DTL_TOK_END" "3 * length (tl ts) + k \<le> j"
  shows "wvalid (\<lambda>w. \<exists>L'. ast_rel (L' @ L) a e \<and> ready pl j (L' @ L) w) (padvance p (\<lambda>p. wret (Some a, p)))
    (outcome pl s L k r) E"
  by (rule padvance_valid [OF assms(2,3)]) (rule outcome_built [OF assms(1) _ assms(4)])

lemma outcome_node:
  assumes "r = Some (e, rest)" "pstate s p rest" "3 * length rest + k < j"
  shows "wvalid (\<lambda>w. \<exists>L'. ast_rel (L' @ L) a e \<and> ready pl j (L' @ L) w) (pnode (dtl_ast_new a) p) (outcome pl s L k r) E"
proof -
  obtain i where j: "j = Suc i" "3 * length rest + k \<le> i" using assms(3) by (cases j) auto
  have "wvalid (\<lambda>w. \<exists>L'. ast_rel (L' @ L) a e \<and> ready pl (Suc i) (L' @ L) w) (pnode (dtl_ast_new a) p)
    (npost (\<lambda>a' p' w. p' = p \<and> a' = a \<and> (\<exists>L'. ast_rel (L' @ L) a e \<and> ready pl i (L' @ L) w)) (fails pl (r = None))) E"
    by (rule node_over)
  then show ?thesis
    unfolding outcome_def j(1)
    by (rule npost_weaken) (use assms(1,2) j(2) in \<open>auto simp: built_def elim!: ready_mono\<close>)
qed

lemma outcome_fail: "p_err p \<in> {DTL_OK, DTL_ERR_BADQUERY} \<Longrightarrow> r = None \<Longrightarrow> wvalid P (dtl_parse_fail p) (outcome pl s L k r) E"
  by (simp add: outcome_def fail_valid)

lemma field_outcome:
  assumes "pl \<Longrightarrow> length s + 16 \<le> SIZE_MAX" "a + an \<le> length s" "\<forall>b bn. second = Some (b, bn) \<longrightarrow> b + bn \<le> length s"
    "r = Some (EField (take an (drop a s)) (map_option (\<lambda>(b, bn). take bn (drop b s)) second), rest)" "pstate s p rest"
    "j = Suc (Suc (Suc (3 * length rest + k)))"
  shows "wvalid (ready pl j L) (pnode (dtl_ast_field s a an second) p) (outcome pl s L k r) E"
  unfolding outcome_def assms(6)
  by (rule npost_weaken [OF pnode_valid [OF field_valid [OF assms(2,3,1) refl]]])
    (use assms(4,5) in \<open>auto simp: built_def fails_def\<close>)

text \<open>A primary, by its first token.\<close>

lemma primary_num:
  assumes "pstate s p ts" "p_err p = DTL_OK" "d \<le> DTL_QUERY_MAX_DEPTH" "tok_kind (p_cur p) = DTL_TOK_NUM"
  shows "wvalid (ready pl (3 * length ts + k) L) (dtl_parse_primary d p) (outcome pl s L k (ref_primary d ts)) (\<lambda>_. False)"
proof -
  obtain n ts' where n: "ts = TNum n # ts'" "n = tok_num (p_cur p)" using pstate_head(2) [OF assms(1,4)] by metis
  let ?N = "\<lambda>a p' w. p' = p \<and> a = AInt n \<and> (\<exists>L'. ast_rel (L' @ L) (AInt n) (EInt n) \<and> ready pl (3 * length ts' + k + 2) (L' @ L) w)"
  have r: "ref_primary d ts = Some (EInt n, tl ts)" using assms(3) n by (simp add: ref_primary.simps)
  have adv: "wvalid (?N a p') (padvance p' (\<lambda>p. wret (Some a, p))) (outcome pl s L k (ref_primary d ts)) (\<lambda>_. False)" for a p'
    by (rule wvalid_conj, rule wvalid_conj, simp only:, rule outcome_advance [OF r assms(1)]) (use assms(4) n in auto)
  have "dtl_parse_primary d p = pbind (pnode (dtl_ast_new (AInt n)) p) (\<lambda>node p. padvance p (\<lambda>p. wret (Some node, p)))"
    using assms n by (simp add: dtl_parse_primary.simps dtl_ast_int_def)
  moreover have "wvalid (ready pl (3 * length ts + k) L) (pbind (pnode (dtl_ast_new (AInt n)) p)
      (\<lambda>node p. padvance p (\<lambda>p. wret (Some node, p)))) (outcome pl s L k (ref_primary d ts)) (\<lambda>_. False)"
    unfolding outcome_def
    by (rule wvalid_pre [OF _ pbind_valid [where R = ?N and bad = "fails pl False", OF node_over adv [unfolded outcome_def]]])
      (use n in \<open>auto simp: fails_def intro!: exI [of _ "[]"] elim!: ready_mono\<close>)
  ultimately show ?thesis by simp
qed

lemma primary_str:
  assumes "pstate s p ts" "p_err p = DTL_OK" "d \<le> DTL_QUERY_MAX_DEPTH" "tok_kind (p_cur p) = DTL_TOK_STR"
    and lim: "pl \<Longrightarrow> length s + 16 \<le> SIZE_MAX"
  shows "wvalid (ready pl (3 * length ts + k) L) (dtl_parse_primary d p) (outcome pl s L k (ref_primary d ts)) (\<lambda>_. False)"
proof -
  have src: "lex_src (p_lex p) = s" using assms(1,2) by (simp add: pstate_def)
  define raw where "raw = take (tok_n (p_cur p)) (drop (tok_start (p_cur p)) (lex_src (p_lex p)))"
  obtain ts' where ts: "ts = TStr raw # ts'" using pstate_head(3) [OF assms(1,4)] src by (metis raw_def)
  have r: "ref_primary d ts = map_option (\<lambda>v. (EStr v, tl ts)) (decode_str raw)" using assms(3) ts by (simp add: ref_primary.simps)
  let ?N = "\<lambda>a p' w. p' = p \<and> (\<exists>v L'. decode_str raw = Some v \<and> ast_rel (L' @ L) a (EStr v) \<and>
      ready pl (3 * length ts' + k + 1) (L' @ L) w)"
  have bound: "tok_start (p_cur p) + tok_n (p_cur p) \<le> length (lex_src (p_lex p))"
    using pstate_head(6) [OF assms(1)] assms(4) src by simp
  have st: "wvalid (ready pl (Suc (Suc (3 * length ts' + k + 1))) L) (dtl_parse_string p (tok_start (p_cur p)) (tok_n (p_cur p)))
      (npost ?N (fails pl (decode_str raw = None))) (\<lambda>_. False)"
    by (rule string_valid [OF bound _ assms(2) raw_def]) (use lim src in auto)
  have adv: "wvalid (?N a p') (padvance p' (\<lambda>p. wret (Some a, p))) (outcome pl s L k (ref_primary d ts)) (\<lambda>_. False)" for a p'
  proof (rule wvalid_conj, rule wvalid_ex)
    fix v assume eq: "p' = p"
    have "wvalid (\<lambda>w. decode_str raw = Some v \<and> (\<exists>L'. ast_rel (L' @ L) a (EStr v) \<and> ready pl (3 * length ts' + k + 1) (L' @ L) w))
        (padvance p (\<lambda>p. wret (Some a, p))) (outcome pl s L k (ref_primary d ts)) (\<lambda>_. False)"
    proof (rule wvalid_conj)
      assume "decode_str raw = Some v"
      then have "ref_primary d ts = Some (EStr v, tl ts)" using r by simp
      then show "wvalid (\<lambda>w. \<exists>L'. ast_rel (L' @ L) a (EStr v) \<and> ready pl (3 * length ts' + k + 1) (L' @ L) w)
        (padvance p (\<lambda>p. wret (Some a, p))) (outcome pl s L k (ref_primary d ts)) (\<lambda>_. False)"
        by (rule outcome_advance [OF _ assms(1)]) (use assms(4) ts in auto)
    qed
    then show "wvalid (\<lambda>w. \<exists>L'. decode_str raw = Some v \<and> ast_rel (L' @ L) a (EStr v) \<and> ready pl (3 * length ts' + k + 1) (L' @ L) w)
        (padvance p' (\<lambda>p. wret (Some a, p))) (outcome pl s L k (ref_primary d ts)) (\<lambda>_. False)"
      unfolding eq by simp
  qed
  have "dtl_parse_primary d p = pbind (dtl_parse_string p (tok_start (p_cur p)) (tok_n (p_cur p)))
      (\<lambda>node p. padvance p (\<lambda>p. wret (Some node, p)))"
    using assms by (simp add: dtl_parse_primary.simps)
  moreover have "wvalid (ready pl (3 * length ts + k) L) (pbind (dtl_parse_string p (tok_start (p_cur p)) (tok_n (p_cur p)))
      (\<lambda>node p. padvance p (\<lambda>p. wret (Some node, p)))) (outcome pl s L k (ref_primary d ts)) (\<lambda>_. False)"
    unfolding outcome_def
    by (rule wvalid_pre [OF _ pbind_valid [OF st adv [unfolded outcome_def]]]) (use ts r in \<open>auto simp: fails_def elim!: ready_mono\<close>)
  ultimately show ?thesis by simp
qed

lemma primary_ident:
  assumes "pstate s p ts" "p_err p = DTL_OK" "d \<le> DTL_QUERY_MAX_DEPTH" "tok_kind (p_cur p) = DTL_TOK_IDENT"
    and lim: "pl \<Longrightarrow> length s + 16 \<le> SIZE_MAX"
  shows "wvalid (ready pl (3 * length ts + k) L) (dtl_parse_primary d p) (outcome pl s L k (ref_primary d ts)) (\<lambda>_. False)"
    (is "?valid (dtl_parse_primary d p)")
proof -
  have src: "lex_src (p_lex p) = s" using assms(1,2) by (simp add: pstate_def)
  define a where "a = take (tok_n (p_cur p)) (drop (tok_start (p_cur p)) s)"
  obtain ts' where ts: "ts = TIdent a # ts'" using pstate_head(4) [OF assms(1,4)] by (metis a_def)
  have ab: "tok_start (p_cur p) + tok_n (p_cur p) \<le> length s" using pstate_head(6) [OF assms(1)] assms(4) by simp
  let ?field = "\<lambda>q. dtl_ast_field s (tok_start (p_cur p)) (tok_n (p_cur p)) q"
  let ?dot = "\<lambda>p. if tok_kind (p_cur p) \<noteq> DTL_TOK_IDENT then dtl_parse_fail p
               else let b = tok_start (p_cur p); bn = tok_n (p_cur p) in padvance p (\<lambda>p. pnode (?field (Some (b, bn))) p)"
  have dot: "?valid (?dot p2)" if p2: "pstate s p2 ts2" and t: "ts' = TOp DTL_TOK_DOT # ts2" for p2 ts2
  proof (cases "tok_kind (p_cur p2) = DTL_TOK_IDENT")
    case True
    define b where "b = take (tok_n (p_cur p2)) (drop (tok_start (p_cur p2)) s)"
    obtain ts3 where ts3: "ts2 = TIdent b # ts3" using pstate_head(4) [OF p2 True] by (metis b_def)
    have bb: "tok_start (p_cur p2) + tok_n (p_cur p2) \<le> length s" using pstate_head(6) [OF p2] True by simp
    have r: "ref_primary d ts = Some (EField a (Some b), ts3)" using assms(3) ts t ts3 by (simp add: ref_primary.simps)
    have "?valid (padvance p2 (\<lambda>p. pnode (?field (Some (tok_start (p_cur p2), tok_n (p_cur p2)))) p))"
    proof (rule padvance_valid [OF p2])
      fix p3 assume "pstate s p3 (tl ts2)"
      then have p3: "pstate s p3 ts3" using ts3 by simp
      have "wvalid (ready pl (Suc (Suc (Suc (3 * length ts3 + k)))) L) (pnode (?field (Some (tok_start (p_cur p2), tok_n (p_cur p2)))) p3)
          (outcome pl s L k (ref_primary d ts)) (\<lambda>_. False)"
        by (rule field_outcome [OF lim ab _ _ p3 refl]) (use bb r in \<open>auto simp: a_def b_def\<close>)
      then show "?valid (pnode (?field (Some (tok_start (p_cur p2), tok_n (p_cur p2)))) p3)"
        by (rule wvalid_pre [rotated]) (use ts t ts3 in \<open>auto elim!: ready_mono\<close>)
    qed (use True in simp)
    then show ?thesis using True by (simp add: Let_def)
  next
    case False
    have "\<not> (\<exists>b ts3. ts2 = TIdent b # ts3)" using p2 False
      by (auto simp: pstate_def tok_view_def split: if_splits dtl_token_kind.splits)
    then have "ref_primary d ts = None" using assms(3) ts t by (auto simp: ref_primary.simps split: list.splits tok.splits)
    with False show ?thesis using pstate_err(2) [OF p2] by (simp add: outcome_fail)
  qed
  have body: "?valid (if tok_kind (p_cur p1) = DTL_TOK_DOT then padvance p1 ?dot else pnode (?field None) p1)"
    if p1: "pstate s p1 ts'" for p1
  proof (cases "tok_kind (p_cur p1) = DTL_TOK_DOT")
    case True
    then obtain ts2 where t: "ts' = TOp DTL_TOK_DOT # ts2"
      using pstate_head(5) [OF p1, of DTL_TOK_DOT] by (cases ts') (auto simp: op_kinds_def)
    have "?valid (padvance p1 ?dot)"
      by (rule padvance_valid [OF p1]) (use True dot t in auto)
    with True show ?thesis by simp
  next
    case False
    have r: "ref_primary d ts = Some (EField a None, ts')"
      using assms(3) ts False pstate_head(5) [OF p1, of DTL_TOK_DOT] by (auto simp: ref_primary.simps op_kinds_def)
    have "wvalid (ready pl (Suc (Suc (Suc (3 * length ts' + k)))) L) (pnode (?field None) p1)
        (outcome pl s L k (ref_primary d ts)) (\<lambda>_. False)"
      by (rule field_outcome [OF lim ab _ _ p1 refl]) (use r in \<open>auto simp: a_def\<close>)
    then have "?valid (pnode (?field None) p1)"
      by (rule wvalid_pre [rotated]) (use ts in \<open>auto elim!: ready_mono\<close>)
    with False show ?thesis by simp
  qed
  have eq: "dtl_parse_primary d p = padvance p (\<lambda>p. if tok_kind (p_cur p) = DTL_TOK_DOT then padvance p ?dot else pnode (?field None) p)"
    using assms src by (simp add: dtl_parse_primary.simps Let_def)
  show ?thesis
    unfolding eq by (rule padvance_valid [OF assms(1)]) (use assms(4) ts body in auto)
qed

text \<open>Continuing after a sub-parser.\<close>

lemma outcome_bind:
  assumes sub: "simulates pl s f r" and p: "pstate s p ts'" and j: "3 * length ts' + k' \<le> j"
    and cont: "\<And>a p1 e rest. r ts' = Some (e, rest) \<Longrightarrow> pstate s p1 rest \<Longrightarrow>
      wvalid (\<lambda>w. \<exists>L'. ast_rel (L' @ L) a e \<and> ready pl (3 * length rest + k') (L' @ L) w) (g a p1) (outcome pl s L k R) (\<lambda>_. False)"
    and none: "r ts' = None \<Longrightarrow> R = None"
  shows "wvalid (ready pl j L) (pbind (f p) g) (outcome pl s L k R) (\<lambda>_. False)"
  unfolding outcome_def
proof (rule wvalid_pre [OF _ pbind_valid [OF simulatesD [OF sub p, of k' L]]])
  fix a p1
  show "wvalid (\<lambda>w. \<exists>e rest. r ts' = Some (e, rest) \<and> built pl s L k' e rest a p1 w) (g a p1)
      (npost (\<lambda>a p w. \<exists>e rest. R = Some (e, rest) \<and> built pl s L k e rest a p w) (fails pl (R = None))) (\<lambda>_. False)"
    unfolding built_def
    by (rule wvalid_ex, rule wvalid_ex, rule wvalid_conj, rule wvalid_conj) (rule cont [unfolded outcome_def built_def])
qed (use j none in \<open>auto simp: fails_def elim: ready_mono\<close>)

lemma primary_paren:
  assumes "pstate s p ts" "p_err p = DTL_OK" "d \<le> DTL_QUERY_MAX_DEPTH" "tok_kind (p_cur p) = DTL_TOK_LPAREN"
    and sub: "simulates pl s (dtl_parse_expr (d + 1)) (ref_expr (d + 1))"
  shows "wvalid (ready pl (3 * length ts + k) L) (dtl_parse_primary d p) (outcome pl s L k (ref_primary d ts)) (\<lambda>_. False)"
proof -
  obtain ts' where ts: "ts = TOp DTL_TOK_LPAREN # ts'"
    using pstate_head(5) [OF assms(1), of DTL_TOK_LPAREN] assms(4) by (cases ts) (auto simp: op_kinds_def)
  have eq: "dtl_parse_primary d p = padvance p (\<lambda>p. pbind (dtl_parse_expr (d + 1) p) (\<lambda>inner p.
         if tok_kind (p_cur p) \<noteq> DTL_TOK_RPAREN then dtl_parse_fail p
         else padvance p (\<lambda>p. wret (Some inner, p))))"
    using assms(2-4) by (simp add: dtl_parse_primary.simps [of d])
  show ?thesis
    unfolding eq
  proof (rule padvance_valid [OF assms(1)])
    fix p1 assume "pstate s p1 (tl ts)"
    then have p1: "pstate s p1 ts'" using ts by simp
    show "wvalid (ready pl (3 * length ts + k) L) (pbind (dtl_parse_expr (d + 1) p1) (\<lambda>inner p.
         if tok_kind (p_cur p) \<noteq> DTL_TOK_RPAREN then dtl_parse_fail p
         else padvance p (\<lambda>p. wret (Some inner, p)))) (outcome pl s L k (ref_primary d ts)) (\<lambda>_. False)"
    proof (rule outcome_bind [OF sub p1, where k' = "k + 3"])
      fix a p2 e rest assume e: "ref_expr (d + 1) ts' = Some (e, rest)" and p2: "pstate s p2 rest"
      have kind: "tok_kind (p_cur p2) = DTL_TOK_RPAREN \<longleftrightarrow> rest \<noteq> [] \<and> hd rest = TOp DTL_TOK_RPAREN"
        using pstate_head(5) [OF p2, of DTL_TOK_RPAREN] by (simp add: op_kinds_def)
      have r: "ref_primary d ts = (if tok_kind (p_cur p2) = DTL_TOK_RPAREN then Some (e, tl rest) else None)"
        using assms(3) ts e kind by (simp add: ref_primary.simps [of d])
      show "wvalid (\<lambda>w. \<exists>L'. ast_rel (L' @ L) a e \<and> ready pl (3 * length rest + (k + 3)) (L' @ L) w)
          (if tok_kind (p_cur p2) \<noteq> DTL_TOK_RPAREN then dtl_parse_fail p2 else padvance p2 (\<lambda>p. wret (Some a, p)))
          (outcome pl s L k (ref_primary d ts)) (\<lambda>_. False)"
      proof (cases "tok_kind (p_cur p2) = DTL_TOK_RPAREN")
        case True
        have "wvalid (\<lambda>w. \<exists>L'. ast_rel (L' @ L) a e \<and> ready pl (3 * length rest + (k + 3)) (L' @ L) w)
          (padvance p2 (\<lambda>p. wret (Some a, p))) (outcome pl s L k (ref_primary d ts)) (\<lambda>_. False)"
          by (rule outcome_advance [OF _ p2]) (use True r in auto)
        with True show ?thesis by simp
      qed (use r pstate_err(2) [OF p2] in \<open>simp add: outcome_fail\<close>)
    qed (use assms(3) ts in \<open>auto simp: ref_primary.simps [of d]\<close>)
  qed (use assms(4) in simp)
qed

lemma primary_not:
  assumes "pstate s p ts" "p_err p = DTL_OK" "d \<le> DTL_QUERY_MAX_DEPTH" "tok_kind (p_cur p) = DTL_TOK_NOT"
    and sub: "simulates pl s (dtl_parse_primary (d + 1)) (ref_primary (d + 1))"
  shows "wvalid (ready pl (3 * length ts + k) L) (dtl_parse_primary d p) (outcome pl s L k (ref_primary d ts)) (\<lambda>_. False)"
proof -
  obtain ts' where ts: "ts = TOp DTL_TOK_NOT # ts'"
    using pstate_head(5) [OF assms(1), of DTL_TOK_NOT] assms(4) by (cases ts) (auto simp: op_kinds_def)
  have eq: "dtl_parse_primary d p = padvance p (\<lambda>p. pbind (dtl_parse_primary (d + 1) p) (\<lambda>child p. pnode (dtl_ast_new (ANot child)) p))"
    using assms(2-4) by (simp add: dtl_parse_primary.simps [of d] dtl_ast_not_def)
  have r: "ref_primary d ts = map_option (\<lambda>(e, rest). (ENot e, rest)) (ref_primary (d + 1) ts')"
    using assms(3) ts by (simp add: ref_primary.simps [of d])
  show ?thesis
    unfolding eq
  proof (rule padvance_valid [OF assms(1)])
    fix p1 assume "pstate s p1 (tl ts)"
    then have p1: "pstate s p1 ts'" using ts by simp
    show "wvalid (ready pl (3 * length ts + k) L) (pbind (dtl_parse_primary (d + 1) p1) (\<lambda>child p. pnode (dtl_ast_new (ANot child)) p))
        (outcome pl s L k (ref_primary d ts)) (\<lambda>_. False)"
    proof (rule outcome_bind [OF sub p1, where k' = "k + 3"])
      fix a p2 e rest assume e: "ref_primary (d + 1) ts' = Some (e, rest)" and p2: "pstate s p2 rest"
      have "wvalid (\<lambda>w. \<exists>L'. ast_rel (L' @ L) (ANot a) (ENot e) \<and> ready pl (3 * length rest + (k + 3)) (L' @ L) w)
          (pnode (dtl_ast_new (ANot a)) p2) (outcome pl s L k (ref_primary d ts)) (\<lambda>_. False)"
        by (rule outcome_node [OF _ p2]) (use r e in auto)
      then show "wvalid (\<lambda>w. \<exists>L'. ast_rel (L' @ L) a e \<and> ready pl (3 * length rest + (k + 3)) (L' @ L) w)
          (pnode (dtl_ast_new (ANot a)) p2) (outcome pl s L k (ref_primary d ts)) (\<lambda>_. False)" by simp
    qed (use ts r in auto)
  qed (use assms(4) in simp)
qed

lemma primary_other:
  assumes "pstate s p ts" "p_err p = DTL_OK" "d \<le> DTL_QUERY_MAX_DEPTH"
    "tok_kind (p_cur p) \<notin> {DTL_TOK_NUM, DTL_TOK_STR, DTL_TOK_IDENT, DTL_TOK_LPAREN, DTL_TOK_NOT}"
  shows "wvalid P (dtl_parse_primary d p) (outcome pl s L k (ref_primary d ts)) E"
proof -
  have "ref_primary d ts = None"
    using assms by (auto simp: ref_primary.simps [of d] pstate_def tok_view_def split: if_splits dtl_token_kind.splits)
  moreover have "dtl_parse_primary d p = dtl_parse_fail p"
    using assms by (auto simp: dtl_parse_primary.simps [of d] split: dtl_token_kind.splits)
  ultimately show ?thesis using assms(2) by (simp add: outcome_fail)
qed

lemma primary_simulates:
  assumes "pl \<Longrightarrow> length s + 16 \<le> SIZE_MAX" "d \<le> DTL_QUERY_MAX_DEPTH"
    "simulates pl s (dtl_parse_expr (d + 1)) (ref_expr (d + 1))"
    "simulates pl s (dtl_parse_primary (d + 1)) (ref_primary (d + 1))"
  shows "simulates pl s (dtl_parse_primary d) (ref_primary d)"
proof (rule simulatesI)
  fix p ts L k assume p: "pstate s p ts" "p_err p = DTL_OK"
  note cases = primary_num [OF p assms(2)] primary_str [OF p assms(2) _ assms(1)] primary_ident [OF p assms(2) _ assms(1)]
    primary_paren [OF p assms(2) _ assms(3)] primary_not [OF p assms(2) _ assms(4)] primary_other [OF p assms(2)]
  show "wvalid (ready pl (3 * length ts + k) L) (dtl_parse_primary d p) (outcome pl s L k (ref_primary d ts)) (\<lambda>_. False)"
    using cases by blast
qed (simp_all add: ref_primary.simps dtl_parse_primary.simps)

lemma outcome_keep:
  assumes sub: "simulates pl s f r" and p: "pstate s p ts'"
    and cont: "\<And>a p1 e' rest. r ts' = Some (e', rest) \<Longrightarrow> pstate s p1 rest \<Longrightarrow>
      wvalid (\<lambda>w. \<exists>L'. ast_rel (L' @ L) left e \<and> ast_rel (L' @ L) a e' \<and> ready pl (3 * length rest + k') (L' @ L) w)
        (g a p1) (outcome pl s L k R) (\<lambda>_. False)"
    and none: "r ts' = None \<Longrightarrow> R = None"
  shows "wvalid (\<lambda>w. \<exists>L'. ast_rel (L' @ L) left e \<and> ready pl (3 * length ts' + k') (L' @ L) w) (pbind (f p) g)
    (outcome pl s L k R) (\<lambda>_. False)"
  unfolding outcome_def
proof (rule pbind_valid [OF sub_keeps [OF sub p]])
  fix a p1
  show "wvalid (\<lambda>w. \<exists>e' rest. r ts' = Some (e', rest) \<and> pstate s p1 rest \<and>
        (\<exists>L'. ast_rel (L' @ L) left e \<and> ast_rel (L' @ L) a e' \<and> ready pl (3 * length rest + k') (L' @ L) w)) (g a p1)
      (npost (\<lambda>a p w. \<exists>e rest. R = Some (e, rest) \<and> built pl s L k e rest a p w) (fails pl (R = None))) (\<lambda>_. False)"
    by (rule wvalid_ex, rule wvalid_ex, rule wvalid_conj, rule wvalid_conj) (rule cont [unfolded outcome_def])
qed (use none in \<open>auto simp: fails_def\<close>)

lemma pstate_cmp_op: "pstate s p ts \<Longrightarrow> cmp_op_of ts = dtl_parse_cmp_op (tok_kind (p_cur p))"
  by (auto simp: pstate_def tok_view_def dtl_parse_cmp_op_def split: if_splits dtl_token_kind.splits)

lemma cmp_simulates:
  assumes d: "d \<le> DTL_QUERY_MAX_DEPTH" and sub: "simulates pl s (dtl_parse_primary (d + 1)) (ref_primary (d + 1))"
  shows "simulates pl s (dtl_parse_cmp d) (ref_cmp d)"
proof (rule simulatesI)
  fix p ts L k assume p: "pstate s p ts" and ok: "p_err p = DTL_OK"
  let ?O = "outcome pl s L k (ref_cmp d ts)"
  let ?g = "\<lambda>left p. case dtl_parse_cmp_op (tok_kind (p_cur p)) of
         Some oper \<Rightarrow> padvance p (\<lambda>p. pbind (dtl_parse_primary (d + 1) p) (\<lambda>right p. pnode (dtl_ast_cmp oper left right) p))
       | None \<Rightarrow> wret (Some left, p)"
  have eq: "dtl_parse_cmp d p = pbind (dtl_parse_primary (d + 1) p) ?g" using d ok by (simp add: dtl_parse_cmp.simps [of d])
  show "wvalid (ready pl (3 * length ts + k) L) (dtl_parse_cmp d p) ?O (\<lambda>_. False)"
    unfolding eq
  proof (rule outcome_bind [OF sub p, where k' = k])
    fix left p1 e rest assume e: "ref_primary (d + 1) ts = Some (e, rest)" and p1: "pstate s p1 rest"
    let ?P = "\<lambda>w. \<exists>L'. ast_rel (L' @ L) left e \<and> ready pl (3 * length rest + k) (L' @ L) w"
    note op = pstate_cmp_op [OF p1]
    show "wvalid ?P (?g left p1) ?O (\<lambda>_. False)"
    proof (cases "dtl_parse_cmp_op (tok_kind (p_cur p1))")
      case None
      then have "ref_cmp d ts = Some (e, rest)" using d e op by (simp add: ref_cmp.simps [of d])
      then have "wvalid ?P (wret (Some left, p1)) ?O (\<lambda>_. False)" by (rule outcome_built [OF _ p1]) simp
      then show ?thesis using None by simp
    next
      case (Some c)
      then obtain kd rest' where rest: "rest = TOp kd # rest'" using op cmp_op_ofE by metis
      have ne: "tok_kind (p_cur p1) \<noteq> DTL_TOK_END" using Some by (auto simp: dtl_parse_cmp_op_def)
      have r: "ref_cmp d ts = map_option (\<lambda>(r, rest). (ECmp c e r, rest)) (ref_primary (d + 1) rest')"
        using d e op Some rest by (simp add: ref_cmp.simps [of d])
      have "wvalid ?P (padvance p1 (\<lambda>p. pbind (dtl_parse_primary (d + 1) p) (\<lambda>right p. pnode (dtl_ast_cmp c left right) p))) ?O (\<lambda>_. False)"
      proof (rule padvance_valid [OF p1 ne])
        fix p2 assume "pstate s p2 (tl rest)"
        then have p2: "pstate s p2 rest'" using rest by simp
        have "wvalid (\<lambda>w. \<exists>L'. ast_rel (L' @ L) left e \<and> ready pl (3 * length rest' + (k + 3)) (L' @ L) w)
          (pbind (dtl_parse_primary (d + 1) p2) (\<lambda>right p. pnode (dtl_ast_cmp c left right) p)) ?O (\<lambda>_. False)"
        proof (rule outcome_keep [OF sub p2])
          fix right p3 f rest3 assume f: "ref_primary (d + 1) rest' = Some (f, rest3)" and p3: "pstate s p3 rest3"
          have "wvalid (\<lambda>w. \<exists>L'. ast_rel (L' @ L) (ACmp c left right) (ECmp c e f) \<and> ready pl (3 * length rest3 + (k + 3)) (L' @ L) w)
            (pnode (dtl_ast_cmp c left right) p3) ?O (\<lambda>_. False)"
            unfolding dtl_ast_cmp_def by (rule outcome_node [OF _ p3]) (use r f in auto)
          then show "wvalid (\<lambda>w. \<exists>L'. ast_rel (L' @ L) left e \<and> ast_rel (L' @ L) right f \<and> ready pl (3 * length rest3 + (k + 3)) (L' @ L) w)
            (pnode (dtl_ast_cmp c left right) p3) ?O (\<lambda>_. False)" by simp
        qed (use r in simp)
        then show "wvalid ?P (pbind (dtl_parse_primary (d + 1) p2) (\<lambda>right p. pnode (dtl_ast_cmp c left right) p)) ?O (\<lambda>_. False)"
          using rest by (simp add: ac_simps)
      qed
      with Some show ?thesis by simp
    qed
  qed (use d in \<open>auto simp: ref_cmp.simps [of d]\<close>)
qed (simp_all add: ref_cmp.simps [of d] dtl_parse_cmp.simps [of d] ref_primary.simps)

lemma level_simulates:
  assumes sub: "simulates pl s sub r" and "sound_for g r" "kd \<in> set op_kinds"
    and mk: "\<And>L a b e f. ast_rel L (mk a b) (MK e f) \<longleftrightarrow> ast_rel L a e \<and> ast_rel L b f"
    and f: "\<And>p. f p = (if p_err p \<noteq> DTL_OK then dtl_parse_fail p
        else pbind (sub p) (\<lambda>left p. parse_chain (chain_fuel p) kd mk sub left p))"
    and R: "\<And>ts. R ts = (case r ts of None \<Rightarrow> None | Some (l, rest) \<Rightarrow> ref_chain kd MK r l rest)" and bad: "r [TBad] = None"
  shows "simulates pl s f R"
proof (rule simulatesI)
  fix p ts L k assume p: "pstate s p ts" and ok: "p_err p = DTL_OK"
  have prog: "length rest < length ts" if "r ts = Some (e, rest)" for ts e rest
    using sound_forD [OF assms(2) that] by auto
  have "wvalid (ready pl (3 * length ts + k) L) (pbind (sub p) (\<lambda>left p. parse_chain (chain_fuel p) kd mk sub left p))
      (outcome pl s L k (R ts)) (\<lambda>_. False)"
  proof (rule outcome_bind [OF sub p, where k' = k])
    fix a p1 e rest assume e: "r ts = Some (e, rest)" and p1: "pstate s p1 rest"
    have "R ts = ref_chain kd MK r e rest" using R e by simp
    then show "wvalid (\<lambda>w. \<exists>L'. ast_rel (L' @ L) a e \<and> ready pl (3 * length rest + k) (L' @ L) w)
        (parse_chain (chain_fuel p1) kd mk sub a p1) (outcome pl s L k (R ts)) (\<lambda>_. False)"
      using chain_simulates [OF sub prog assms(3) mk p1 chain_fuel_enough [OF p1]] by (simp add: outcome_def)
  qed (use R in auto)
  then show "wvalid (ready pl (3 * length ts + k) L) (f p) (outcome pl s L k (R ts)) (\<lambda>_. False)" using f ok by simp
qed (simp_all add: f R bad)

lemma deep_simulates:
  "(\<And>p. f p = dtl_parse_fail p) \<Longrightarrow> (\<And>ts. r ts = None) \<Longrightarrow> simulates pl s f r"
  by (rule simulatesI) (simp_all add: outcome_fail)

lemma parser_simulates:
  assumes lim: "pl \<Longrightarrow> length s + 16 \<le> SIZE_MAX"
  shows "simulates pl s (dtl_parse_expr d) (ref_expr d) \<and> simulates pl s (dtl_parse_and d) (ref_and d) \<and>
    simulates pl s (dtl_parse_cmp d) (ref_cmp d) \<and> simulates pl s (dtl_parse_primary d) (ref_primary d)"
proof (induction d rule: depth_induct)
  case (deep d)
  then show ?case by (auto intro!: deep_simulates simp: ref_deep dtl_parse_simps)
next
  case (step d)
  have "simulates pl s (dtl_parse_and d) (ref_and d)"
    by (rule level_simulates [of pl s "dtl_parse_cmp (d + 1)" "ref_cmp (d + 1)" "g_cmp (d + 1)" DTL_TOK_AND AAnd EAnd])
      (use step ref_sound [of "d + 1"] in \<open>auto simp: op_kinds_def dtl_parse_and.simps [of d] ref_and.simps [of d] ref_cmp.simps ref_primary.simps\<close>)
  moreover have "simulates pl s (dtl_parse_expr d) (ref_expr d)"
    by (rule level_simulates [of pl s "dtl_parse_and (d + 1)" "ref_and (d + 1)" "g_and (d + 1)" DTL_TOK_OR AOr EOr])
      (use step ref_sound [of "d + 1"] in \<open>auto simp: op_kinds_def dtl_parse_expr.simps [of d] ref_expr.simps [of d]
        ref_and.simps ref_cmp.simps ref_primary.simps\<close>)
  ultimately show ?case using step primary_simulates [OF lim] cmp_simulates by blast
qed

subsection \<open>Compiling a query\<close>

lemma parse_valid:
  assumes "0 \<in> set s" and lim: "pl \<Longrightarrow> length s + 16 \<le> SIZE_MAX"
  shows "wvalid (ready pl (3 * length s + k) []) (dtl_parse s)
    (\<lambda>a w. \<exists>e L. g_expr 0 (tokens s) e \<and> ast_rel L a e \<and> ready pl k L w)
    (\<lambda>e. e = DTL_ERR_BADQUERY \<and> ((\<forall>x. \<not> g_expr 0 (tokens s) x) \<or> \<not> pl) \<or> e = DTL_ERR_OOM \<and> \<not> pl)"
    (is "wvalid _ _ ?Q ?E")
proof -
  let ?p = "\<lparr>p_lex = dtl_lex_init s, p_cur = no_token, p_err = DTL_OK\<rparr>"
  obtain p1 where p1: "dtl_parse_advance ?p = Ok p1" "pstate s p1 (tokens s)"
    using pstate_next [of ?p s] assms(1) by (auto simp: dtl_lex_init_def pos_ok_def)
  have run: "wvalid (ready pl (3 * length (tokens s) + k) []) (dtl_parse_expr 0 p1) (outcome pl s [] k (ref_expr 0 (tokens s))) ?E"
    by (rule wvalid_weaken [OF simulatesD [OF conjunct1 [OF parser_simulates [OF lim]] p1(2), folded outcome_def]]) auto
  have fin: "wvalid (outcome pl s [] k (ref_expr 0 (tokens s)) (root, p))
     (if p_err p \<noteq> DTL_OK then wfail (p_err p)
      else case root of None \<Rightarrow> wfail DTL_ERR_BADQUERY
       | Some root \<Rightarrow> if tok_kind (p_cur p) \<noteq> DTL_TOK_END then wfail DTL_ERR_BADQUERY else wret root) ?Q ?E" for root p
  proof (cases root)
    case None
    have "ref_expr 0 (tokens s) = None \<Longrightarrow> \<not> g_expr 0 (tokens s) x" for x using grammar_exact [of 0 "tokens s" x] by simp
    then show ?thesis
      unfolding None by (auto simp: wvalid_def outcome_def fails_def wfail_def)
  next
    case (Some a)
    have key: "if p_err p \<noteq> DTL_OK \<or> tok_kind (p_cur p) \<noteq> DTL_TOK_END
        then p_err p \<in> {DTL_OK, DTL_ERR_BADQUERY} \<and> (\<forall>x. \<not> g_expr 0 (tokens s) x) else ?Q a w"
      if out: "outcome pl s [] k (ref_expr 0 (tokens s)) (Some a, p) w" for w
    proof -
      obtain e rest L where r: "ref_expr 0 (tokens s) = Some (e, rest)" "pstate s p rest"
          "ast_rel L a e" "ready pl (3 * length rest + k) L w"
        using out by (auto simp: outcome_def built_def)
      show ?thesis
      proof (cases "rest = []")
        case True
        then have "g_expr 0 (tokens s) e" using r(1) grammar_exact by blast
        with True r show ?thesis using pstate_head(1) [OF r(2)] pstate_err(1) [OF r(2)] by auto
      next
        case False
        then have "\<not> g_expr 0 (tokens s) x" for x using r(1) grammar_exact [of 0 "tokens s" x] by auto
        moreover have "p_err p \<noteq> DTL_OK \<or> tok_kind (p_cur p) \<noteq> DTL_TOK_END" using r(2) False by (auto simp: pstate_def split: if_splits)
        ultimately show ?thesis using pstate_err(2) [OF r(2)] by auto
      qed
    qed
    show ?thesis
      unfolding Some option.case
      by (rule wvalidI) (use key in \<open>fastforce simp: wfail_def wret_def split: if_splits\<close>)
  qed
  have "wvalid (ready pl (3 * length (tokens s) + k) []) (wbind (dtl_parse_expr 0 p1) (\<lambda>(root, p).
     if p_err p \<noteq> DTL_OK then wfail (p_err p)
     else case root of None \<Rightarrow> wfail DTL_ERR_BADQUERY
       | Some root \<Rightarrow> if tok_kind (p_cur p) \<noteq> DTL_TOK_END then wfail DTL_ERR_BADQUERY else wret root)) ?Q ?E"
    by (rule wvalid_bind [OF run], split prod.split, intro allI impI, simp only:, rule fin)
  then show ?thesis
    unfolding dtl_parse_def p1(1) wbind_simps
    by (rule wvalid_pre [rotated]) (use length_tokens [of s] in \<open>auto elim!: ready_mono\<close>)
qed

end
