(* ===== verification/Query_Spec.thy ===== *)
theory Query_Spec
  imports Query_Eval Query_Parse_Spec Records_Registry
begin

text \<open>
  What a query means.  \<open>q_eval\<close> gives the value of an expression on the value of a record, with field
  tables, the library's lexicographic order on strings and no memory; the evaluator of the code is shown
  to compute it wherever the tree and the record are alive.  With the exactness of the parser, compiling
  a text and matching a record decides the meaning of the one expression the text spells.
\<close>

subsection \<open>Meaning\<close>

datatype qval = QNone | QInt int | QStr "u8 list"

fun q_fields :: "rec_val \<Rightarrow> (u8 list \<times> qval) list" where
  "q_fields (VHeartbeat h) = [(map ch ''seq'', QInt (uint (hb_seq h))), (map ch ''uptime'', QInt (uint (hb_uptime_s h)))]"
| "q_fields (VGeo g) = [(map ch ''lat'', QInt (sint (geo_lat_e7 g))), (map ch ''lon'', QInt (sint (geo_lon_e7 g))),
     (map ch ''alt'', QInt (sint (geo_alt_mm g)))]"
| "q_fields (VBattery b) = [(map ch ''pct'', QInt (uint (bat_pct b))), (map ch ''temp'', QInt (sint (bat_temp_c_e1 b))),
     (map ch ''cycles'', QInt (uint (bat_cycles b)))]"
| "q_fields (VNet x) = [(map ch ''iface'', QInt (uint (net_iface_id x))), (map ch ''rx_bytes'', QInt (uint (net_rx_bytes x))),
     (map ch ''tx_bytes'', QInt (uint (net_tx_bytes x))), (map ch ''rx_pkts'', QInt (uint (net_rx_pkts x))),
     (map ch ''tx_pkts'', QInt (uint (net_tx_pkts x)))]"
| "q_fields (VFirmware f) = [(map ch ''major'', QInt (uint (fw_major f))), (map ch ''minor'', QInt (uint (fw_minor f))),
     (map ch ''patch'', QInt (uint (fw_patch f)))]"
| "q_fields (VSensor i bs) = [(map ch ''id'', QInt (uint i)), (map ch ''count'', QInt (int (length bs div 4)))]"
| "q_fields (VEvent c bs) = [(map ch ''code'', QInt (uint c)), (map ch ''len'', QInt (int (length bs)))]"
| "q_fields (VLog sv bs) = [(map ch ''severity'', QInt (uint sv)), (map ch ''len'', QInt (int (length bs))),
     (map ch ''msg'', QStr bs)]"
| "q_fields (VConfig kvs) = map (\<lambda>(k, v). (k, QStr v)) kvs"
| "q_fields (VKeyref sl bs) = [(map ch ''slot'', QInt (uint sl)), (map ch ''label'', QStr bs)]"
| "q_fields (VDiag c bs) = [(map ch ''subsystem'', QInt (uint c)), (map ch ''len'', QInt (int (length bs)))]"

definition or_none :: "qval option \<Rightarrow> qval" where
  "or_none x = (case x of None \<Rightarrow> QNone | Some q \<Rightarrow> q)"

definition q_field :: "rec_val \<Rightarrow> u8 list \<Rightarrow> qval" where
  "q_field v name = or_none (map_of (q_fields v) name)"

text \<open>The type a name stands for, whatever its case.\<close>

definition q_type :: "u8 list \<Rightarrow> u8 option" where
  "q_type name = map_of (map (\<lambda>(t, tag). (map (dtl_ascii_lower \<circ> ch) t, tag)) type_names) (map dtl_ascii_lower name)"

fun q_resolve :: "rec_val \<Rightarrow> u8 list \<Rightarrow> u8 list option \<Rightarrow> qval" where
  "q_resolve v a None =
     (if a = map ch ''type'' then QInt (uint (val_tag v))
      else case q_type a of Some t \<Rightarrow> QInt (uint t) | None \<Rightarrow> q_field v a)"
| "q_resolve v a (Some b) = (if q_type a = Some (val_tag v) then q_field v b else QNone)"

fun holds :: "dtl_cmp_op \<Rightarrow> bool \<Rightarrow> bool \<Rightarrow> bool" where
  "holds DTL_CMP_EQ lt same = same"
| "holds DTL_CMP_NE lt same = (\<not> same)"
| "holds DTL_CMP_LT lt same = lt"
| "holds DTL_CMP_LE lt same = (lt \<or> same)"
| "holds DTL_CMP_GT lt same = (\<not> lt \<and> \<not> same)"
| "holds DTL_CMP_GE lt same = (\<not> lt)"

fun q_compare :: "dtl_cmp_op \<Rightarrow> qval \<Rightarrow> qval \<Rightarrow> bool" where
  "q_compare oper (QInt a) (QInt b) = holds oper (a < b) (a = b)"
| "q_compare oper (QStr s) (QStr t) = holds oper (ord_class.lexordp s t) (s = t)"
| "q_compare oper QNone r = False"
| "q_compare oper l QNone = False"
| "q_compare oper l r = (oper = DTL_CMP_NE)"

fun q_true :: "qval \<Rightarrow> bool" where
  "q_true (QInt i) \<longleftrightarrow> i \<noteq> 0"
| "q_true (QStr s) \<longleftrightarrow> s \<noteq> []"
| "q_true QNone \<longleftrightarrow> False"

fun q_eval :: "rec_val \<Rightarrow> expr \<Rightarrow> qval" where
  "q_eval v (EInt i) = QInt i"
| "q_eval v (EStr s) = QStr s"
| "q_eval v (EField a b) = q_resolve v a b"
| "q_eval v (ENot e) = QInt (of_bool (\<not> q_true (q_eval v e)))"
| "q_eval v (EAnd e f) = QInt (of_bool (q_true (q_eval v e) \<and> q_true (q_eval v f)))"
| "q_eval v (EOr e f) = QInt (of_bool (q_true (q_eval v e) \<or> q_true (q_eval v f)))"
| "q_eval v (ECmp oper e f) = QInt (of_bool (q_compare oper (q_eval v e) (q_eval v f)))"

definition matches :: "rec_val \<Rightarrow> expr \<Rightarrow> bool" where
  "matches v e \<longleftrightarrow> q_true (q_eval v e)"

subsection \<open>Names\<close>

lemma name_eq_loaded: "load_bytes m s n = Ok nm \<Longrightarrow> dtl_name_eq m s n lit = Ok (nm = lit)"
  using load_bytes_region [of m s n nm] by (auto simp: dtl_name_eq_def)

lemma load_head:
  assumes "load_bytes m p (Suc n) = Ok xs"
  shows "load_bytes m p 1 = Ok [hd xs]" "load_bytes m (fst p, Suc (snd p)) n = Ok (tl xs)" "xs = hd xs # tl xs"
proof -
  obtain cs where cs: "m_objs m (fst p) = Some cs" "snd p + Suc n \<le> length cs"
    "None \<notin> set (take (Suc n) (drop (snd p) cs))" "xs = map the (take (Suc n) (drop (snd p) cs))"
    using assms by (auto simp: load_bytes_def Let_def split: option.splits if_splits)
  have dr: "drop (snd p) cs = cs ! snd p # drop (Suc (snd p)) cs" using cs(2) by (simp add: drop_Cons_nth)
  with cs show "load_bytes m p 1 = Ok [hd xs]" "load_bytes m (fst p, Suc (snd p)) n = Ok (tl xs)" "xs = hd xs # tl xs"
    by (auto simp: load_bytes_def Let_def)
qed

lemma name_ieq_loop_loaded:
  "load_bytes m (fst s, snd s + i) (length ls) = Ok xs \<Longrightarrow>
   name_ieq_loop m s i ls = Ok (map dtl_ascii_lower xs = map dtl_ascii_lower ls)"
proof (induction ls arbitrary: i xs)
  case Nil
  then show ?case using load_bytes_region by fastforce
next
  case (Cons l ls)
  note h = load_head [OF Cons.prems [simplified]]
  obtain x xs' where "xs = x # xs'" using h(3) by metis
  then show ?case using Cons.IH [of "Suc i" xs'] h(1,2) by simp
qed

lemma name_ieq_loaded:
  assumes "load_bytes m s n = Ok nm"
  shows "dtl_name_ieq m s n lit = Ok (map dtl_ascii_lower nm = map dtl_ascii_lower lit)"
proof (cases "length lit = n")
  case True
  then show ?thesis using name_ieq_loop_loaded [of m s 0 lit nm] assms by (simp add: dtl_name_ieq_def)
next
  case False
  then show ?thesis using load_bytes_region [OF assms] by (auto simp: dtl_name_ieq_def dest: map_eq_imp_length_eq)
qed

lemma typename_loop_loaded:
  "load_bytes m s n = Ok nm \<Longrightarrow> typename_loop m s n names =
     Ok (map_of (map (\<lambda>(t, tag). (map (dtl_ascii_lower \<circ> ch) t, tag)) names) (map dtl_ascii_lower nm))"
  by (induction m s n names rule: typename_loop.induct) (auto simp: name_ieq_loaded)

lemma typename_loaded: "load_bytes m s n = Ok nm \<Longrightarrow> dtl_typename_tag m s n = Ok (q_type nm)"
  by (simp add: dtl_typename_tag_def q_type_def typename_loop_loaded)

subsection \<open>Values\<close>

fun val_rel :: "mem \<Rightarrow> dtl_value \<Rightarrow> qval \<Rightarrow> bool" where
  "val_rel m (VAL_INT i) (QInt j) \<longleftrightarrow> i = j"
| "val_rel m (VAL_STR p n) (QStr s) \<longleftrightarrow> deref_bytes m p n = Ok s"
| "val_rel m VAL_NONE QNone \<longleftrightarrow> True"
| "val_rel m _ _ \<longleftrightarrow> False"

lemma val_rel_cases:
  assumes "val_rel m x q"
  obtains i where "x = VAL_INT i" "q = QInt i" | p n s where "x = VAL_STR p n" "q = QStr s" "deref_bytes m p n = Ok s"
  | "x = VAL_NONE" "q = QNone"
  using assms by (cases "(m, x, q)" rule: val_rel.cases) auto

lemma first_field_loaded:
  assumes "load_bytes m s n = Ok nm" "list_all2 (\<lambda>(f, x) (g, q). map ch f = g \<and> val_rel m x q) fs qs"
  shows "\<exists>x. first_field m s n fs = Ok x \<and> val_rel m x (or_none (map_of qs nm))"
  using assms(2)
proof (induction rule: list_all2_induct)
  case Nil
  then show ?case by (simp add: or_none_def)
next
  case (Cons f fs q qs)
  then show ?case by (cases f; cases q) (auto simp: name_eq_loaded [OF assms(1)] or_none_def)
qed

lemma config_field_loaded:
  assumes "load_bytes m s n = Ok nm"
  shows "deref_pairs m kvs = Ok ps \<Longrightarrow> i = length kvs \<Longrightarrow>
    \<exists>x. config_field m s n i kvs = Ok x \<and> val_rel m x (or_none (map_of (map (\<lambda>(k, v). (k, QStr v)) ps) nm))"
proof (induction i arbitrary: kvs ps)
  case 0
  then show ?case by (auto simp: or_none_def)
next
  case (Suc i)
  then obtain k v kvs' where kvs: "kvs = (k, v) # kvs'" by (cases kvs) auto
  then obtain key vl ps' where p: "load_cstr m k = Ok key" "load_cstr m v = Ok vl" "deref_pairs m kvs' = Ok ps'" "ps = (key, vl) # ps'"
    using Suc.prems by (auto simp: rbind_eq_Ok_iff)
  obtain x where "config_field m s n i kvs' = Ok x" "val_rel m x (or_none (map_of (map (\<lambda>(k, v). (k, QStr v)) ps') nm))"
    using Suc.IH [OF p(3)] Suc.prems(2) kvs by auto
  with p kvs show ?case by (auto simp: name_eq_loaded [OF assms] or_none_def load_cstr_deref)
qed

lemma field_value_loaded:
  assumes nm: "load_bytes m s n = Ok nm" and v: "record_view m r = Ok v" and shape: "rec_shape r"
  shows "\<exists>x. dtl_field_value m r s n = Ok x \<and> val_rel m x (q_field v nm)"
proof (cases r)
  case (RConfig c)
  then obtain ps where "deref_pairs m (cfg_pairs c) = Ok ps" "v = VConfig ps" using v by (auto simp: rbind_eq_Ok_iff)
  then show ?thesis using config_field_loaded [OF nm] shape RConfig by (simp add: q_field_def)
qed (use v in \<open>auto simp: q_field_def rbind_eq_Ok_iff deref_bytes_length simp del: first_field.simps map_of.simps list.map
      intro!: first_field_loaded [OF nm]\<close>)

lemma resolve_loaded:
  assumes "load_bytes m s1 n1 = Ok a" "record_view m r = Ok v" "rec_shape r"
    and "case second of None \<Rightarrow> b = None | Some (s2, n2) \<Rightarrow> (\<exists>t. load_bytes m s2 n2 = Ok t \<and> b = Some t)"
  shows "\<exists>x. dtl_resolve m s1 n1 second r = Ok x \<and> val_rel m x (q_resolve v a b)"
proof -
  have tag: "rec_tag r = val_tag v" using record_view_tag [OF assms(2)] by simp
  show ?thesis
  proof (cases second)
    case None
    then show ?thesis
      using assms(4) field_value_loaded [OF assms(1-3)] name_eq_loaded [OF assms(1)] typename_loaded [OF assms(1)] tag
      by (auto simp: dtl_resolve_def split: option.splits)
  next
    case (Some p)
    then show ?thesis
      using assms(4) field_value_loaded [OF _ assms(2,3)] typename_loaded [OF assms(1)] tag
      by (cases p) (auto simp: dtl_resolve_def split: option.splits)
  qed
qed

subsection \<open>Comparison\<close>

lemma memcmp_lex:
  "(let c = c_memcmp (take (min (length s) (length t)) s) (take (min (length s) (length t)) t);
        c = (if c = 0 then (if length s < length t then - 1 else if length s > length t then 1 else 0) else c)
    in (c < 0 \<longleftrightarrow> ord_class.lexordp s t) \<and> (c = 0 \<longleftrightarrow> s = t))"
proof (induction s arbitrary: t)
  case Nil
  then show ?case by (cases t) auto
next
  case (Cons x s)
  show ?case
  proof (cases t)
    case Nil
    then show ?thesis by simp
  next
    case (Cons y t')
    then show ?thesis using Cons.IH [of t'] by (auto simp: Let_def)
  qed
qed

lemma int_cmp_holds: "dtl_int_cmp a b oper = holds oper (a < b) (a = b)"
  by (cases oper) auto

lemma deref_prefix:
  assumes "deref_bytes m p n = Ok s" "j \<le> n" "j \<noteq> 0"
  shows "load_ptr m p j = Ok (take j s)"
proof -
  obtain q where "p = Some q" "load_bytes m q n = Ok s" using assms by (auto simp: deref_bytes_def split: option.splits)
  then show ?thesis using load_prefix [of m q j "n - j" s] assms(2) by (simp add: load_ptr_def)
qed

lemma str_cmp_lex:
  assumes s: "deref_bytes m p n = Ok s" and t: "deref_bytes m q k = Ok t"
  shows "dtl_str_cmp m (p, n) (q, k) oper = Ok (holds oper (ord_class.lexordp s t) (s = t))"
proof -
  define j where "j = min (length s) (length t)"
  define c where "c = (let c = c_memcmp (take j s) (take j t)
    in if c = 0 then (if length s < length t then - 1 else if length s > length t then 1 else 0) else c)"
  have len: "n = length s" "k = length t" using deref_bytes_length s t by auto
  have "dtl_str_cmp m (p, n) (q, k) oper = Ok (dtl_int_cmp c 0 oper)"
    using deref_prefix [OF s, of j] deref_prefix [OF t, of j]
    by (auto simp: dtl_str_cmp_def Let_def c_def len j_def min_def)
  moreover have "(c < 0 \<longleftrightarrow> ord_class.lexordp s t) \<and> (c = 0 \<longleftrightarrow> s = t)"
    using memcmp_lex [of s t] by (simp add: c_def j_def Let_def)
  ultimately show ?thesis by (simp add: int_cmp_holds)
qed

lemma compare_loaded:
  assumes "val_rel m x a" "val_rel m y b"
  shows "dtl_compare m x y oper = Ok (q_compare oper a b)"
  using assms
  by (elim val_rel_cases) (auto simp: int_cmp_holds str_cmp_lex)

lemma truthy_loaded: "val_rel m x q \<Longrightarrow> dtl_truthy x = q_true q"
  by (elim val_rel_cases) (auto dest: deref_bytes_length)

subsection \<open>Evaluation\<close>

lemma eval_loaded:
  assumes "record_view m r = Ok v" "rec_shape r"
  shows "ast_view m a = Ok e \<Longrightarrow> \<exists>x. dtl_eval_value m a r = Ok x \<and> val_rel m x (q_eval v e)"
proof (induction a arbitrary: e)
  case (AOr a b)
  then obtain f g where "ast_view m a = Ok f" "ast_view m b = Ok g" "e = EOr f g" by (auto simp: rbind_eq_Ok_iff)
  with AOr.IH(1) [of f] AOr.IH(2) [of g] show ?case by (auto simp: truthy_loaded)
next
  case (AAnd a b)
  then obtain f g where "ast_view m a = Ok f" "ast_view m b = Ok g" "e = EAnd f g" by (auto simp: rbind_eq_Ok_iff)
  with AAnd.IH(1) [of f] AAnd.IH(2) [of g] show ?case by (auto simp: truthy_loaded)
next
  case (ACmp oper a b)
  then obtain f g where "ast_view m a = Ok f" "ast_view m b = Ok g" "e = ECmp oper f g" by (auto simp: rbind_eq_Ok_iff)
  with ACmp.IH(1) [of f] ACmp.IH(2) [of g] show ?case by (auto simp: compare_loaded)
next
  case (ANot a)
  then obtain f where "ast_view m a = Ok f" "e = ENot f" by (auto simp: rbind_eq_Ok_iff)
  with ANot.IH [of f] show ?case by (auto simp: truthy_loaded)
next
  case (AField s1 n1 second)
  then obtain x where x: "load_bytes m s1 n1 = Ok x" by (auto simp: rbind_eq_Ok_iff)
  show ?case
  proof (cases second)
    case None
    then show ?thesis using resolve_loaded [OF x assms, where second = None and b = None] AField x by auto
  next
    case (Some q)
    then obtain s2 n2 y where "second = Some (s2, n2)" "load_bytes m s2 n2 = Ok y" "e = EField x (Some y)"
      using AField x by (cases q) (auto simp: rbind_eq_Ok_iff)
    then show ?thesis using resolve_loaded [OF x assms, where second = "Some (s2, n2)" and b = "Some y"] by auto
  qed
next
  case (AStr s n)
  then show ?case by (auto simp: rbind_eq_Ok_iff deref_bytes_def dest: load_bytes_region)
qed auto

lemma match_loaded:
  assumes "record_view m r = Ok v" "rec_shape r" "ast_view m (q_root q) = Ok e"
  shows "dtl_query_match m q r = Ok (matches v e)"
  using eval_loaded [OF assms] truthy_loaded by (auto simp: dtl_query_match_def dtl_query_eval_def matches_def)

subsection \<open>Compiling and matching\<close>

lemma compile_valid:
  assumes "0 \<in> set s" and lim: "pl \<Longrightarrow> length s + 16 \<le> SIZE_MAX"
  shows "wvalid (ready pl (3 * length s + 1) []) (dtl_query_compile s)
    (\<lambda>q w. \<exists>e. g_expr 0 (tokens s) e \<and> ast_view (w_mem w) (q_root q) = Ok e)
    (\<lambda>e. e = DTL_ERR_BADQUERY \<and> ((\<forall>x. \<not> g_expr 0 (tokens s) x) \<or> \<not> pl) \<or> e = DTL_ERR_OOM \<and> \<not> pl)"
    (is "wvalid _ _ ?Q ?E")
  unfolding dtl_query_compile_def
proof (rule wvalid_bind [OF parse_valid [OF assms, where k = 1]])
  fix root
  show "wvalid (\<lambda>w. \<exists>e L. g_expr 0 (tokens s) e \<and> ast_rel L root e \<and> ready pl 1 L w)
     (wbind (w_arena_alloc sizeof_query) (\<lambda>q. case q of None \<Rightarrow> wfail DTL_ERR_OOM | Some _ \<Rightarrow> wret \<lparr>q_root = root\<rparr>)) ?Q ?E"
  proof (rule wvalid_ex, rule wvalid_ex, rule wvalid_conj, rule wvalid_conj)
    fix e L assume e: "g_expr 0 (tokens s) e" "ast_rel L root e"
    have al: "wvalid (ready pl 1 L) (w_arena_alloc sizeof_query)
        (\<lambda>p w. case p of None \<Rightarrow> \<not> pl | Some q \<Rightarrow> ready pl 0 L w \<and> fresh_for L q sizeof_query w) ?E"
      using alloc_ready [of sizeof_query pl 0 L ?E] by (simp add: sizeof_query_def SIZE_MAX_def)
    show "wvalid (ready pl 1 L) (wbind (w_arena_alloc sizeof_query)
        (\<lambda>q. case q of None \<Rightarrow> wfail DTL_ERR_OOM | Some _ \<Rightarrow> wret \<lparr>q_root = root\<rparr>)) ?Q ?E"
      by (rule wvalid_bind [OF al], rule wvalid_option)
        (use e ast_rel_view in \<open>auto simp: ready_def intro!: wvalid_ret wvalid_fail\<close>)
  qed
qed

text \<open>A phrase of the grammar has no bad token, so its tokens are spelled by the text.\<close>

lemma phrase_no_bad:
  "g_expr d ts e \<Longrightarrow> TBad \<notin> set ts" "g_and d ts e \<Longrightarrow> TBad \<notin> set ts"
  "g_cmp d ts e \<Longrightarrow> TBad \<notin> set ts" "g_primary d ts e \<Longrightarrow> TBad \<notin> set ts"
  by (induction rule: g_expr_g_and_g_cmp_g_primary.inducts) auto

lemma phrase_spelled: "0 \<in> set s \<Longrightarrow> g_expr d (tokens s) e \<Longrightarrow> spelled (tokens s) s"
  using tokens_sound phrase_no_bad(1) by blast

text \<open>
  C18. Compiling a query never reads past the end of its text, never writes outside the memory it
  allocated and always ends, whatever the text and whatever allocations fail.  When it succeeds, the text
  spells a phrase of the grammar within the depth limit, and the tree it built reads back as the
  expression of that phrase; the only errors it reports are a bad query and lack of memory.
\<close>

theorem query_compile_sound:
  assumes "world_ok w" "0 \<in> set src" "dtl_query_compile src w = (res, w')"
  shows "res \<noteq> Ub \<and> world_ok w' \<and>
    (\<forall>q. res = Ok q \<longrightarrow> (\<exists>ts e. spelled ts src \<and> g_expr 0 ts e \<and> ast_view (w_mem w') (q_root q) = Ok e)) \<and>
    (\<forall>x. res = Err x \<longrightarrow> x \<in> {DTL_ERR_BADQUERY, DTL_ERR_OOM})"
proof -
  have "ready False (3 * length src + 1) [] w" by (simp add: ready_def held_def)
  from wpost_facts [OF wvalidD [OF compile_valid [OF assms(2), of False] assms(1) this], unfolded assms(3) fst_conv snd_conv]
  show ?thesis using phrase_spelled [OF assms(2)] by (auto; blast)
qed

text \<open>
  C19. Every query of the grammar compiles.  With memory for three allocations a byte and one more, a text
  that spells a phrase of the grammar is accepted and its tree reads back as the expression of the phrase,
  which is unique: precedence, left associativity and the escapes of strings are those of the grammar.
\<close>

theorem query_compile_complete:
  assumes "world_ok w" "plenty (3 * length src + 1) w" "length src + 16 \<le> SIZE_MAX"
    and "spelled ts src" "g_expr 0 ts e"
  shows "\<exists>q w'. dtl_query_compile src w = (Ok q, w') \<and> ast_view (w_mem w') (q_root q) = Ok e"
proof -
  have tk: "tokens src = ts" using tokens_complete assms(4) by blast
  have z: "0 \<in> set src" using assms(4) by (induction rule: spelled.induct) auto
  have "ready True (3 * length src + 1) [] w" using assms(2) by (simp add: ready_def held_def)
  note f = wpost_facts [OF wvalidD [OF compile_valid [OF z, of True] assms(1) this], unfolded tk]
  obtain res w' where r: "dtl_query_compile src w = (res, w')" by (cases "dtl_query_compile src w")
  have uniq: "e' = e" if "g_expr 0 ts e'" for e' using that assms(5) grammar_exact by (metis option.inject prod.inject)
  show ?thesis
  proof (cases res)
    case (Ok q)
    then obtain e' where "g_expr 0 ts e'" "ast_view (w_mem w') (q_root q) = Ok e'" using f(3) [of q] assms(3) r by auto
    then show ?thesis using Ok r uniq by auto
  next
    case (Err x)
    then show ?thesis using f(4) [of x] assms(3,5) r by auto
  next
    case Ub
    then show ?thesis using f(1) assms(3) r by simp
  qed
qed

text \<open>
  C20. Matching decides the meaning of the query.  For a tree and a record that are alive, evaluation
  has no undefined behaviour, never reports an error, and answers whether the expression is true of the
  record: fields by name, type names in any case, integers by value and strings in lexicographic order of
  their bytes, an unknown field or another type's field matching nothing, conjunction and disjunction
  as the connectives they stand for.
\<close>

theorem query_match_meaning:
  assumes "ast_view m (q_root q) = Ok e" "record_view m r = Ok v" "rec_shape r"
  shows "dtl_query_match m q r = Ok (matches v e)"
  by (rule match_loaded [OF assms(2,3,1)])

subsection \<open>Nesting\<close>

text \<open>A parenthesis costs four levels of the depth counter.\<close>

lemma ref_expr_no_primary:
  assumes "ref_primary (d + 3) ts = None"
  shows "ref_expr d ts = None"
proof -
  have "ref_cmp (Suc (Suc d)) ts = None" using assms by (simp add: ref_cmp.simps [of "Suc (Suc d)"] numeral_eq_Suc)
  then have "ref_and (Suc d) ts = None" by (simp add: ref_and.simps [of "Suc d"])
  then show ?thesis by (simp add: ref_expr.simps [of d])
qed

lemma ref_nested:
  "DTL_QUERY_MAX_DEPTH < d + 4 * n + 3 \<Longrightarrow> ref_expr d (replicate n (TOp DTL_TOK_LPAREN) @ ts) = None"
proof (induction n arbitrary: d)
  case 0
  then show ?case by (simp add: ref_deep ref_expr_no_primary)
next
  case (Suc n)
  have "ref_primary (d + 3) (TOp DTL_TOK_LPAREN # replicate n (TOp DTL_TOK_LPAREN) @ ts) = None"
    using Suc.IH [of "d + 4"] Suc.prems unfolding ref_primary.simps [of "d + 3"] by (simp add: add.commute)
  then show ?case by (simp add: ref_expr_no_primary)
qed

lemma primary_expr: "d + 3 \<le> DTL_QUERY_MAX_DEPTH \<Longrightarrow> g_primary (d + 3) ts e \<Longrightarrow> g_expr d ts e"
  using or_one [of d ts e] and_one [of "d + 1" ts e] cmp_one [of "d + 2" ts e] by (simp add: numeral_eq_Suc)

lemma nested_phrase:
  "d + 4 * n + 3 \<le> DTL_QUERY_MAX_DEPTH \<Longrightarrow>
   g_expr d (replicate n (TOp DTL_TOK_LPAREN) @ [TNum i] @ replicate n (TOp DTL_TOK_RPAREN)) (EInt i)"
proof (induction n arbitrary: d)
  case 0
  then show ?case using primary_expr [of d "[TNum i]" "EInt i"] num [of "d + 3" i] by simp
next
  case (Suc n)
  have "g_expr (d + 3 + 1) (replicate n (TOp DTL_TOK_LPAREN) @ [TNum i] @ replicate n (TOp DTL_TOK_RPAREN)) (EInt i)"
    using Suc.IH [of "d + 4"] Suc.prems by (simp add: numeral_eq_Suc)
  from paren [OF _ this] primary_expr [of d _ "EInt i"] Suc.prems
  show ?case by (simp add: replicate_append_same)
qed

text \<open>
  Nesting is bounded.  A query that opens with sixteen parentheses is rejected, however it goes on and
  before the recursion passes the depth limit, although fifteen levels are within the grammar.
\<close>

theorem query_nesting_limit:
  assumes "world_ok w" "spelled (replicate 16 (TOp DTL_TOK_LPAREN) @ ts) src"
  shows "\<exists>x w'. dtl_query_compile src w = (Err x, w') \<and> x \<in> {DTL_ERR_BADQUERY, DTL_ERR_OOM} \<and>
    g_expr 0 (replicate 15 (TOp DTL_TOK_LPAREN) @ [TNum i] @ replicate 15 (TOp DTL_TOK_RPAREN)) (EInt i)"
proof -
  have tk: "tokens src = replicate 16 (TOp DTL_TOK_LPAREN) @ ts" using tokens_complete [OF assms(2)] .
  have z: "0 \<in> set src" using assms(2) by (induction rule: spelled.induct) auto
  have no: "\<not> g_expr 0 (tokens src) e" for e
    unfolding tk grammar_exact [symmetric] using ref_nested [of 0 16 ts] by (simp add: DTL_QUERY_MAX_DEPTH_def)
  have "ready False (3 * length src + 1) [] w" by (simp add: ready_def held_def)
  note f = wpost_facts [OF wvalidD [OF compile_valid [OF z, of False] assms(1) this]]
  obtain res w' where r: "dtl_query_compile src w = (res, w')" by (cases "dtl_query_compile src w")
  have ok: "g_expr 0 (replicate 15 (TOp DTL_TOK_LPAREN) @ [TNum i] @ replicate 15 (TOp DTL_TOK_RPAREN)) (EInt i)"
    by (rule nested_phrase) (simp add: DTL_QUERY_MAX_DEPTH_def)
  show ?thesis
  proof (cases res)
    case (Err x)
    then show ?thesis using f(4) [of x] r ok by auto
  qed (use f(1,3) r no in auto)
qed

text \<open>Witnesses: the query \<open>seq<=4\<close> in a world whose allocations all succeed.\<close>

definition demo_text :: "u8 list" where
  "demo_text = map ch ''seq<=4'' @ [0]"

definition demo_expr :: expr where
  "demo_expr = ECmp DTL_CMP_LE (EField (map ch ''seq'') None) (EInt 4)"

lemma demo_spelled: "spelled [TIdent (map ch ''seq''), TOp DTL_TOK_LE, TNum 4] demo_text"
proof -
  have "spelled [TIdent (map ch ''seq''), TOp DTL_TOK_LE, TNum 4]
      ([] @ map ch ''seq'' @ [] @ map ch ''<='' @ [] @ map ch ''4'' @ [] @ 0 # [])"
    by (intro spelled.intros) (simp_all add: follows_def ch_eval op_kinds_def dec_val_def digit_val_def INT64_MAX_def)
  then show ?thesis by (simp add: demo_text_def)
qed

lemma demo_phrase: "g_expr 0 [TIdent (map ch ''seq''), TOp DTL_TOK_LE, TNum 4] demo_expr"
proof -
  have "g_cmp 2 ([TIdent (map ch ''seq'')] @ TOp DTL_TOK_LE # [TNum 4]) demo_expr"
    unfolding demo_expr_def by (intro cmp_two field num) (simp_all add: DTL_QUERY_MAX_DEPTH_def dtl_parse_cmp_op_def)
  then show ?thesis
    using or_one [of 0] and_one [of 1] by (simp add: DTL_QUERY_MAX_DEPTH_def numeral_eq_Suc)
qed

lemma fresh_world_plenty: "k \<le> 1000 \<Longrightarrow> plenty k fresh_world"
  by (simp add: plenty_def fresh_world_def world_init_def mem_init_def heap_never_fails_def dtl_arena_init_def
      SIZE_MAX_def sizeof_arena_block_def)

theorem query_compile_sound_witness: "fst (dtl_query_compile demo_text fresh_world) \<noteq> Ub"
  using query_compile_sound [OF fresh_world_ok, of demo_text "fst (dtl_query_compile demo_text fresh_world)"
      "snd (dtl_query_compile demo_text fresh_world)"] by (simp add: demo_text_def)

theorem query_compile_complete_witness:
  "\<exists>q w'. dtl_query_compile demo_text fresh_world = (Ok q, w') \<and> ast_view (w_mem w') (q_root q) = Ok demo_expr"
proof (rule query_compile_complete [OF fresh_world_ok fresh_world_plenty _ demo_spelled demo_phrase])
  show "3 * length demo_text + 1 \<le> 1000" "length demo_text + 16 \<le> SIZE_MAX"
    by (simp_all add: demo_text_def SIZE_MAX_def)
qed

theorem query_match_meaning_witness:
  "dtl_query_match (w_mem keyref_world) \<lparr>q_root = ACmp DTL_CMP_GE (AStr (0, 0) 1) (AStr (0, 0) 1)\<rparr> keyref_rec = Ok True"
proof -
  have "load_bytes (w_mem keyref_world) (0, 0) 1 = Ok [65]"
    using keyref_rec_view by (auto simp: keyref_rec_def rbind_eq_Ok_iff deref_bytes_def)
  then have "ast_view (w_mem keyref_world) (q_root \<lparr>q_root = ACmp DTL_CMP_GE (AStr (0, 0) 1) (AStr (0, 0) 1)\<rparr>) =
      Ok (ECmp DTL_CMP_GE (EStr [65]) (EStr [65]))" by simp
  from query_match_meaning [OF this keyref_rec_view] show ?thesis by (simp add: matches_def keyref_rec_def)
qed

theorem query_nesting_limit_witness:
  "\<exists>x w'. dtl_query_compile (replicate 16 (ch CHR ''('') @ [0]) fresh_world = (Err x, w') \<and> x \<in> {DTL_ERR_BADQUERY, DTL_ERR_OOM}"
proof -
  have "spelled (replicate n (TOp DTL_TOK_LPAREN) @ []) (replicate n (ch CHR ''('') @ [0])" for n
  proof (induction n)
    case 0
    show ?case using spelled.finish [of "[]" "[]"] by simp
  next
    case (Suc n)
    then show ?case
      using spelled.token [of "[]" "TOp DTL_TOK_LPAREN" "[ch CHR ''('']"] by (simp add: follows_def op_kinds_def split: list.splits)
  qed
  from query_nesting_limit [OF fresh_world_ok this] show ?thesis by blast
qed

subsection \<open>A lost allocation failure\<close>

lemma expr_null:
  assumes "p_err p = DTL_OK" "d + 3 \<le> DTL_QUERY_MAX_DEPTH" "dtl_parse_primary (d + 3) p w = (Ok (None, p'), w')"
  shows "dtl_parse_expr d p w = (Ok (None, p'), w')"
proof -
  have "dtl_parse_cmp (Suc (Suc d)) p w = (Ok (None, p'), w')"
    using assms by (simp add: dtl_parse_cmp.simps [of "Suc (Suc d)"] pbind_def wbind_def wret_def numeral_eq_Suc)
  then have "dtl_parse_and (Suc d) p w = (Ok (None, p'), w')"
    using assms by (simp add: dtl_parse_and.simps [of "Suc d"] pbind_def wbind_def wret_def)
  then show ?thesis
    using assms by (simp add: dtl_parse_expr.simps [of d] pbind_def wbind_def wret_def)
qed

lemma lex_while_run:
  "pos < length s \<Longrightarrow> pred (s ! pos) \<Longrightarrow> lex_while pred s pos = lex_while pred s (Suc pos)"
  "pos < length s \<Longrightarrow> \<not> pred (s ! pos) \<Longrightarrow> lex_while pred s pos = Ok pos"
  by (simp_all add: lex_while.simps [of pred s pos])

lemma lex_digits_run:
  "pos < length s \<Longrightarrow> dtl_lex_is_digit (s ! pos) \<Longrightarrow> val \<le> (INT64_MAX - (uint (s ! pos) - 48)) div 10 \<Longrightarrow>
   int64 (val * 10) = Ok t \<Longrightarrow> int64 (t + (uint (s ! pos) - 48)) = Ok v \<Longrightarrow> lex_digits s pos val = lex_digits s (Suc pos) v"
  "pos < length s \<Longrightarrow> \<not> dtl_lex_is_digit (s ! pos) \<Longrightarrow> lex_digits s pos val = Ok (DTL_OK, val, pos)"
  by (simp_all add: lex_digits.simps [of s pos val] Let_def ch_def)

lemma lex_string_loop_run:
  "pos < length s \<Longrightarrow> s ! pos = ch CHR 0x22 \<Longrightarrow> lex_string_loop s pos = Ok (DTL_OK, pos)"
  "pos < length s \<Longrightarrow> s ! pos \<notin> {0, ch CHR 0x22, ch CHR 0x5C} \<Longrightarrow> lex_string_loop s pos = lex_string_loop s (Suc pos)"
  by (simp_all add: lex_string_loop.simps [of s pos] ch_def)

definition tight_world :: world where
  "tight_world = \<lparr>w_mem = mem_init (\<lambda>_ n. n = 64), w_arena = dtl_arena_init 32, w_pools = pools_init\<rparr>"

lemmas query_run = dtl_query_compile_def dtl_parse_def dtl_parse_advance_def dtl_lex_next_def dtl_lex_init_def
  dtl_lex_string_def dtl_lex_number_def lex_while_run lex_string_loop_run lex_digits_run ch_eval no_token_def Let_def

definition string_parser :: dtl_parser where
  "string_parser = \<lparr>p_lex = \<lparr>lex_src = [34, 97, 34, 0], lex_pos = 3\<rparr>,
     p_cur = \<lparr>tok_kind = DTL_TOK_STR, tok_num = 0, tok_s = Some 1, tok_n = 1\<rparr>, p_err = DTL_OK\<rparr>"

lemma string_advance:
  "dtl_parse_advance \<lparr>p_lex = dtl_lex_init [34, 97, 34, 0], p_cur = no_token, p_err = DTL_OK\<rparr> = Ok string_parser"
  by (simp add: query_run string_parser_def)

lemma string_primary: "\<exists>w. dtl_parse_primary 3 string_parser tight_world = (Ok (None, string_parser), w)"
  by (simp add: dtl_parse_primary.simps [of 3] string_parser_def DTL_QUERY_MAX_DEPTH_def dtl_parse_string_def tok_start_def
      pbind_def tight_world_def world_run arena_run dtl_ast_str_def dtl_ast_new_def sizeof_ast_def ch_def slice_at_def)

text \<open>
  A failure to allocate the node of a string literal is not latched: a quoted letter, which is a query of
  the grammar, is reported as malformed when the environment refuses the one request for 64 bytes.
\<close>

theorem query_string_oom_misreported:
  "fst (dtl_query_compile [34, 97, 34, 0] tight_world) = Err DTL_ERR_BADQUERY \<and>
   spelled [TStr [97]] [34, 97, 34, 0] \<and> g_expr 0 [TStr [97]] (EStr [97])"
proof (intro conjI)
  obtain w where "dtl_parse_primary (0 + 3) string_parser tight_world = (Ok (None, string_parser), w)" using string_primary by auto
  then have "dtl_parse_expr 0 string_parser tight_world = (Ok (None, string_parser), w)"
    by (intro expr_null) (simp_all add: string_parser_def DTL_QUERY_MAX_DEPTH_def)
  then show "fst (dtl_query_compile [34, 97, 34, 0] tight_world) = Err DTL_ERR_BADQUERY"
    unfolding dtl_query_compile_def dtl_parse_def string_advance wbind_simps
    by (simp add: wbind_def wfail_def string_parser_def)
  show "spelled [TStr [97]] [34, 97, 34, 0]"
    using spelled.token [of "[]" "TStr [97]" "[34, 97, 34]" "[0]" "[]"] spelled.finish [of "[]" "[]"]
    by (simp add: ch_eval follows_def)
  show "g_expr 0 [TStr [97]] (EStr [97])"
    using primary_expr [of 0 "[TStr [97]]" "EStr [97]"] str [of 3 "[97]" "[97]"]
    by (simp add: DTL_QUERY_MAX_DEPTH_def ch_eval)
qed

end
