(* ===== verification/Report_Walk.thy ===== *)
theory Report_Walk
  imports Format_Container Codec_Registry Records_Registry
begin

text \<open>
  \<^verbatim>\<open>src/report/walk.c\<close>: the traversal every report shares.  A walk parses a container, decodes its
  sections, iterates the TLV streams, parses the records and calls back once per record and once per
  reported error.  The callbacks are functions on a user state of any type, threaded through the walk;
  the world a walk runs in has the walk's arena as its \<open>w_arena\<close>, so the entry points that open a
  private arena start from a fresh one and leave it emptied.

  The bytes a decoder leaves in its arena buffer are the list it returns: the buffer is allocated for
  one section and only the TLV reader looks at it.
\<close>

subsection \<open>Events and callbacks\<close>

text \<open>An event carries a parsed record; the abstract events below carry its value.\<close>

record 'r dtl_walk_event =
  we_section_type :: u16
  we_codec_id :: u8
  we_section_index :: u16
  we_record_in_sec :: nat
  we_record_index :: nat
  we_rec :: 'r

record dtl_walk_error =
  wx_section_index :: u16
  wx_record_in_sec :: nat
  wx_rc :: dtl_err
  wx_fatal :: bool

type_synonym 'u walk_fn = "dtl_record dtl_walk_event \<Rightarrow> 'u \<Rightarrow> (dtl_err \<times> 'u) wm"
type_synonym 'u walk_error_fn = "dtl_walk_error \<Rightarrow> 'u \<Rightarrow> 'u wm"

text \<open>A NULL callback is \<open>None\<close>.\<close>

record 'u dtl_walk =
  walk_on_record :: "'u walk_fn option"
  walk_on_error :: "'u walk_error_fn option"
  walk_max_decode :: nat

definition walk_with :: "'u walk_fn \<Rightarrow> 'u walk_error_fn option \<Rightarrow> nat \<Rightarrow> 'u dtl_walk" where
  "walk_with on_record on_error max_decode =
     \<lparr>walk_on_record = Some on_record, walk_on_error = on_error, walk_max_decode = max_decode\<rparr>"

lemma walk_with_simps [simp]:
  "walk_on_record (walk_with f g k) = Some f" "walk_on_error (walk_with f g k) = g" "walk_max_decode (walk_with f g k) = k"
  by (simp_all add: walk_with_def)

definition DTL_WALK_DEFAULT_MAX_DECODE :: nat where "DTL_WALK_DEFAULT_MAX_DECODE = 16 * 1024 * 1024"

definition dtl_walk_tag_name :: "u8 \<Rightarrow> string" where
  "dtl_walk_tag_name tag =
     (if tag = DTL_REC_HEARTBEAT then ''HEARTBEAT''
      else if tag = DTL_REC_SENSOR then ''SENSOR''
      else if tag = DTL_REC_EVENT then ''EVENT''
      else if tag = DTL_REC_DIAG then ''DIAG''
      else if tag = DTL_REC_GEO then ''GEO''
      else if tag = DTL_REC_BATTERY then ''BATTERY''
      else if tag = DTL_REC_NET then ''NET''
      else if tag = DTL_REC_LOG then ''LOG''
      else if tag = DTL_REC_CONFIG then ''CONFIG''
      else if tag = DTL_REC_KEYREF then ''KEYREF''
      else if tag = DTL_REC_FIRMWARE then ''FIRMWARE''
      else ''UNKNOWN'')"

definition dtl_walk_report_error :: "'u dtl_walk \<Rightarrow> u16 \<Rightarrow> nat \<Rightarrow> dtl_err \<Rightarrow> bool \<Rightarrow> 'u \<Rightarrow> 'u wm" where
  "dtl_walk_report_error w section_index record_in_sec rc fatal u =
     (case walk_on_error w of None \<Rightarrow> wret u
      | Some f \<Rightarrow> f \<lparr>wx_section_index = section_index, wx_record_in_sec = record_in_sec, wx_rc = rc,
                      wx_fatal = fatal\<rparr> u)"

text \<open>A call whose error code the caller inspects.\<close>

definition wtry :: "'a wm \<Rightarrow> (dtl_err + 'a) wm" where
  "wtry f w = (case f w of (Ok x, w) \<Rightarrow> (Ok (Inr x), w) | (Err e, w) \<Rightarrow> (Ok (Inl e), w) | (Ub, w) \<Rightarrow> (Ub, w))"

definition w_container_parse :: "u8 list \<Rightarrow> dtl_container wm" where
  "w_container_parse data w = (case dtl_container_parse (w_mem w) (w_arena w) (dtl_buf_init data) of
     (r, a, m) \<Rightarrow> (r, w\<lparr>w_mem := m, w_arena := a\<rparr>))"

definition w_decode :: "dtl_codec \<Rightarrow> u8 list \<Rightarrow> nat \<Rightarrow> u8 list wm" where
  "w_decode codec blob cap w = (case codec_decode codec (w_mem w) blob cap of (r, m) \<Rightarrow> (r, w\<lparr>w_mem := m\<rparr>))"

definition mk_event :: "dtl_section \<Rightarrow> u16 \<Rightarrow> nat \<Rightarrow> nat \<Rightarrow> 'r \<Rightarrow> 'r dtl_walk_event" where
  "mk_event sec si record_in_sec record_index rec =
     \<lparr>we_section_type = sec_type sec, we_codec_id = sec_codec_id sec, we_section_index = si,
      we_record_in_sec = record_in_sec, we_record_index = record_index, we_rec = rec\<rparr>"

lemma mk_event_simps [simp]:
  "we_section_type (mk_event sec si n i r) = sec_type sec" "we_codec_id (mk_event sec si n i r) = sec_codec_id sec"
  "we_section_index (mk_event sec si n i r) = si" "we_record_in_sec (mk_event sec si n i r) = n"
  "we_record_index (mk_event sec si n i r) = i" "we_rec (mk_event sec si n i r) = r"
  by (simp_all add: mk_event_def)

subsection \<open>The walk\<close>

text \<open>
  The loop over the TLV stream of one section: the code to return with (\<open>DTL_OK\<close> to go on), the global
  record number and the user state.
\<close>

function walk_records :: "'u dtl_walk \<Rightarrow> 'u walk_fn \<Rightarrow> dtl_section \<Rightarrow> u16 \<Rightarrow> dtl_buf \<Rightarrow> nat \<Rightarrow> nat \<Rightarrow> 'u \<Rightarrow>
    (dtl_err \<times> nat \<times> 'u) wm" where
  "walk_records w on_record sec si stream record_in_sec record_index u =
     (case dtl_tlv_next stream of
        (Ub, _) \<Rightarrow> wlift Ub
      | (Err rc, _) \<Rightarrow>
          wbind (if rc \<noteq> DTL_ERR_TRUNCATED then dtl_walk_report_error w si record_in_sec rc True u else wret u)
            (\<lambda>u. wret (DTL_OK, record_index, u))
      | (Ok tlv, stream') \<Rightarrow>
          wbind (wtry (dtl_record_parse tlv)) (\<lambda>r.
          case r of
            Inl rc \<Rightarrow>
              wbind (dtl_walk_report_error w si record_in_sec rc False u) (\<lambda>u.
              walk_records w on_record sec si stream' (record_in_sec + 1) record_index u)
          | Inr rec \<Rightarrow>
              wbind (on_record (mk_event sec si record_in_sec record_index rec) u) (\<lambda>(rc, u).
              if rc \<noteq> DTL_OK then wret (rc, record_index, u)
              else walk_records w on_record sec si stream' (record_in_sec + 1) (record_index + 1) u)))"
  by pat_completeness auto
termination
proof (relation "measure (\<lambda>(w, f, sec, si, b, _). buf_len b - buf_pos b)", goal_cases)
  case (2 _ _ _ _ stream _ _ _ _ s' t)
  then show ?case using tlv_next_advances [of stream t s'] by (auto simp: buf_len_def)
next
  case (3 _ _ _ _ stream _ _ _ _ s' t)
  then show ?case using tlv_next_advances [of stream t s'] by (auto simp: buf_len_def)
qed simp

declare walk_records.simps [simp del]

text \<open>The loop over the sections.\<close>

fun walk_sections :: "'u dtl_walk \<Rightarrow> 'u walk_fn \<Rightarrow> u8 list \<Rightarrow> nat \<Rightarrow> dtl_section list \<Rightarrow> u16 \<Rightarrow> nat \<Rightarrow> 'u \<Rightarrow>
    (dtl_err \<times> 'u) wm" where
  "walk_sections w on_record data max_decode [] si record_index u = wret (DTL_OK, u)"
| "walk_sections w on_record data max_decode (sec # secs) si record_index u =
     (case dtl_codec_get (sec_codec_id sec) of
        None \<Rightarrow>
          wbind (dtl_walk_report_error w si 0 DTL_ERR_BADRECORD True u) (\<lambda>u.
          walk_sections w on_record data max_decode secs (si + 1) record_index u)
      | Some codec \<Rightarrow>
          let raw_len = unat (sec_raw_len sec)
          in if raw_len > max_decode
             then wbind (dtl_walk_report_error w si 0 DTL_ERR_RANGE True u) (\<lambda>u.
                  walk_sections w on_record data max_decode secs (si + 1) record_index u)
             else
               wbind (w_arena_alloc (if raw_len \<noteq> 0 then raw_len else 1)) (\<lambda>raw.
               case raw of None \<Rightarrow> wret (DTL_ERR_OOM, u)
               | Some _ \<Rightarrow>
               wbind (wlift (case sec_blob sec of None \<Rightarrow> Ub
                      | Some off \<Rightarrow> slice_at data off (unat (sec_comp_len sec)))) (\<lambda>blob.
               wbind (wtry (w_decode codec blob raw_len)) (\<lambda>r.
               case r of
                 Inl rc \<Rightarrow>
                   wbind (dtl_walk_report_error w si 0 rc True u) (\<lambda>u.
                   walk_sections w on_record data max_decode secs (si + 1) record_index u)
               | Inr got \<Rightarrow>
                   wbind (walk_records w on_record sec si (dtl_buf_init got) 0 record_index u)
                     (\<lambda>(rc, record_index, u).
                     if rc \<noteq> DTL_OK then wret (rc, u)
                     else wbind dtl_event_pool_release (\<lambda>_.
                          walk_sections w on_record data max_decode secs (si + 1) record_index u))))))"

definition dtl_walk_memory :: "u8 list \<Rightarrow> 'u dtl_walk \<Rightarrow> 'u \<Rightarrow> (dtl_err \<times> 'u) wm" where
  "dtl_walk_memory data w u =
     (case walk_on_record w of None \<Rightarrow> wret (DTL_ERR_INVAL, u)
      | Some on_record \<Rightarrow>
          wbind (wtry (w_container_parse data)) (\<lambda>r.
          case r of Inl rc \<Rightarrow> wret (rc, u)
          | Inr cont \<Rightarrow>
              let max_decode = (if walk_max_decode w \<noteq> 0 then walk_max_decode w else DTL_WALK_DEFAULT_MAX_DECODE)
              in walk_sections w on_record data max_decode (cont_sections cont) 0 0 u))"

subsection \<open>Files\<close>

text \<open>
  An open stdio stream as the walk uses it: whether the two seeks succeed, what \<open>ftell\<close> reports, and
  the bytes \<open>fread\<close> can deliver.  A file system maps a path to the stream \<open>fopen (path, "rb")\<close> gives.
\<close>

record c_file =
  f_seek_end :: bool
  f_tell :: int
  f_seek_set :: bool
  f_data :: "u8 list"

type_synonym files = "string \<Rightarrow> c_file option"

text \<open>\<open>fread (buf, 1, n, f)\<close>: the bytes it stored.\<close>

definition c_fread :: "addr \<Rightarrow> nat \<Rightarrow> c_file \<Rightarrow> u8 list wm" where
  "c_fread buf n f = wbind (w_store buf (take n (f_data f))) (\<lambda>_. wret (take n (f_data f)))"

definition dtl_walk_absorb :: "files \<Rightarrow> string option \<Rightarrow> nat \<Rightarrow> 'u dtl_walk \<Rightarrow> 'u \<Rightarrow> (dtl_err \<times> 'u) wm" where
  "dtl_walk_absorb fs path max_file w u =
     (case path of None \<Rightarrow> wret (DTL_ERR_INVAL, u)
      | Some path \<Rightarrow>
      if walk_on_record w = None then wret (DTL_ERR_INVAL, u)
      else case fs path of None \<Rightarrow> wret (DTL_ERR_IO, u)
      | Some f \<Rightarrow>
      if \<not> f_seek_end f then wret (DTL_ERR_IO, u)
      else if f_tell f < 0 then wret (DTL_ERR_IO, u)
      else if nat (f_tell f) > max_file then wret (DTL_ERR_RANGE, u)
      else if \<not> f_seek_set f then wret (DTL_ERR_IO, u)
      else let n = nat (f_tell f)
      in wbind (w_arena_alloc (if n \<noteq> 0 then n else 1)) (\<lambda>buf.
         case buf of None \<Rightarrow> wret (DTL_ERR_OOM, u)
         | Some buf \<Rightarrow>
             if n = 0 then dtl_walk_memory [] w u
             else wbind (c_fread buf n f) (\<lambda>got.
                  if length got \<noteq> n then wret (DTL_ERR_IO, u) else dtl_walk_memory got w u)))"

definition w_arena_free :: "unit wm" where
  "w_arena_free w = (case dtl_arena_free (w_mem w) (w_arena w) of
     Ok (a, m) \<Rightarrow> (Ok (), w\<lparr>w_mem := m, w_arena := a\<rparr>) | Err e \<Rightarrow> (Err e, w) | Ub \<Rightarrow> (Ub, w))"

definition w_arena_init :: "nat \<Rightarrow> unit wm" where
  "w_arena_init block w = (Ok (), w\<lparr>w_arena := dtl_arena_init block\<rparr>)"

text \<open>The block size of the arenas of the reports.\<close>

definition report_block :: nat where "report_block = 256 * 1024"

definition dtl_walk_file :: "files \<Rightarrow> string option \<Rightarrow> nat \<Rightarrow> 'u dtl_walk \<Rightarrow> 'u \<Rightarrow> (dtl_err \<times> 'u) wm" where
  "dtl_walk_file fs path max_file w u =
     (if walk_on_record w = None then wret (DTL_ERR_INVAL, u)
      else wbind (w_arena_init report_block) (\<lambda>_.
           wbind (dtl_walk_absorb fs path max_file w u) (\<lambda>r.
           wbind w_arena_free (\<lambda>_. wret r))))"

end
