(* ===== verification/Report_Walk_Spec.thy ===== *)
theory Report_Walk_Spec
  imports Report_Walk
begin

text \<open>
  What a walk shows its callbacks.  The reading of a container is, for every section, either the error
  that makes the walk skip it or the outcomes of its TLV frames; \<open>trace\<close> numbers them into the
  sequence of events.  The locale \<open>walk_client\<close> is the contract of a pair of callbacks that keep no
  pointer into a record: they implement an abstract step on an abstract state.  Its theorem is that the
  walk implements the fold of that step over the trace.
\<close>

subsection \<open>The reading of a container\<close>

type_synonym reading = "dtl_err + rec_val"

definition tlv_reads :: "dtl_tlv \<Rightarrow> reading \<Rightarrow> bool" where
  "tlv_reads t r \<longleftrightarrow> (case r of
     Inl e \<Rightarrow> bad_wire (tlv_tag t) (tlv_val t) e
   | Inr v \<Rightarrow> \<exists>v0. val_wf v0 \<and> val_tag v0 = tlv_tag t \<and> payload_of v0 = tlv_val t \<and> v = c_strings v0)"

text \<open>A stream is a sequence of frames up to the first position where no frame starts.\<close>

definition no_frame :: "u8 list \<Rightarrow> bool" where
  "no_frame bs \<longleftrightarrow> (\<nexists>t r. tlv_wf t \<and> bs = tlv_frame t @ r)"

definition stream_reads :: "u8 list \<Rightarrow> reading list \<Rightarrow> bool" where
  "stream_reads bs rs \<longleftrightarrow> (\<exists>ts tail. bs = concat (map tlv_frame ts) @ tail \<and> (\<forall>t \<in> set ts. tlv_wf t) \<and>
     no_frame tail \<and> list_all2 tlv_reads ts rs)"

definition section_blob :: "u8 list \<Rightarrow> dtl_section \<Rightarrow> u8 list" where
  "section_blob data s = (case sec_blob s of None \<Rightarrow> [] | Some off \<Rightarrow> take (unat (sec_comp_len s)) (drop off data))"

definition decode_outcome :: "u8 list \<Rightarrow> dtl_section \<Rightarrow> u8 list res \<Rightarrow> bool" where
  "decode_outcome data s r \<longleftrightarrow> (\<exists>codec m. dtl_codec_get (sec_codec_id s) = Some codec \<and> mem_ok m \<and>
     fst (codec_decode codec m (section_blob data s) (unat (sec_raw_len s))) = r)"

definition section_reads :: "u8 list \<Rightarrow> nat \<Rightarrow> dtl_section \<Rightarrow> dtl_err + reading list \<Rightarrow> bool" where
  "section_reads data max_decode s r \<longleftrightarrow> (case r of
     Inl e \<Rightarrow> dtl_codec_get (sec_codec_id s) = None \<and> e = DTL_ERR_BADRECORD \<or>
       dtl_codec_get (sec_codec_id s) \<noteq> None \<and> unat (sec_raw_len s) > max_decode \<and> e = DTL_ERR_RANGE \<or>
       unat (sec_raw_len s) \<le> max_decode \<and> decode_outcome data s (Err e)
   | Inr rs \<Rightarrow> unat (sec_raw_len s) \<le> max_decode \<and> (\<exists>bs. decode_outcome data s (Ok bs) \<and> stream_reads bs rs))"

text \<open>The container a buffer holds, whatever the state of the heap.\<close>

definition container_of :: "u8 list \<Rightarrow> dtl_container res" where
  "container_of data =
     rbind (parse_header (dtl_buf_init data)) (\<lambda>((version, flags, count), b).
     rbind (read_table_loop (unat count) b) (\<lambda>(sections, b).
     rbind (locate_blobs b flags) (\<lambda>(blob_len, hmac).
     rbind (dtl_container_resolve_blobs sections (buf_pos b) blob_len) (\<lambda>sections.
     Ok \<lparr>cont_version = version, cont_flags = flags, cont_section_count = count,
         cont_sections = sections, cont_hmac = hmac\<rparr>))))"

text \<open>No decoder leaves its buffers on the sections of the container.  Only LZ77's can.\<close>

definition decodes_safely :: "u8 list \<Rightarrow> bool" where
  "decodes_safely data \<longleftrightarrow> (\<forall>c. container_of data = Ok c \<longrightarrow>
     (\<forall>s \<in> set (cont_sections c). \<not> decode_outcome data s Ub))"

subsection \<open>The trace\<close>

datatype walk_item = Seen "rec_val dtl_walk_event" | Failed dtl_walk_error

text \<open>The values among the items.\<close>

definition seen_values :: "walk_item list \<Rightarrow> rec_val list" where
  "seen_values items = concat (map (\<lambda>x. case x of Seen ev \<Rightarrow> [we_rec ev] | Failed _ \<Rightarrow> []) items)"

definition mk_failed :: "u16 \<Rightarrow> nat \<Rightarrow> dtl_err \<Rightarrow> bool \<Rightarrow> walk_item" where
  "mk_failed si n e fatal =
     Failed \<lparr>wx_section_index = si, wx_record_in_sec = n, wx_rc = e, wx_fatal = fatal\<rparr>"

fun number_records :: "dtl_section \<Rightarrow> u16 \<Rightarrow> nat \<Rightarrow> nat \<Rightarrow> reading list \<Rightarrow> walk_item list" where
  "number_records sec si n i [] = []"
| "number_records sec si n i (Inl e # rs) = mk_failed si n e False # number_records sec si (n + 1) i rs"
| "number_records sec si n i (Inr v # rs) =
     Seen (mk_event sec si n i v) # number_records sec si (n + 1) (i + 1) rs"

definition count_seen :: "reading list \<Rightarrow> nat" where
  "count_seen rs = length (filter (\<lambda>r. \<not> isl r) rs)"

fun trace :: "u16 \<Rightarrow> nat \<Rightarrow> dtl_section list \<Rightarrow> (dtl_err + reading list) list \<Rightarrow> walk_item list" where
  "trace si i (s # ss) (Inl e # rs) = mk_failed si 0 e True # trace (si + 1) i ss rs"
| "trace si i (s # ss) (Inr rd # rs) = number_records s si 0 i rd @ trace (si + 1) (i + count_seen rd) ss rs"
| "trace si i ss rs = []"

text \<open>What a walk over the container in \<open>data\<close> may show.\<close>

definition walk_shows :: "u8 list \<Rightarrow> nat \<Rightarrow> walk_item list \<Rightarrow> bool" where
  "walk_shows data max_decode items \<longleftrightarrow> (\<exists>c rs. container_of data = Ok c \<and>
     list_all2 (section_reads data max_decode) (cont_sections c) rs \<and> items = trace 0 0 (cont_sections c) rs)"

subsection \<open>Triples for the steps of a walk\<close>

lemma wvalid_try:
  assumes "wvalid P f Q E"
  shows "wvalid P (wtry f) (\<lambda>r w. case r of Inl e \<Rightarrow> E e | Inr x \<Rightarrow> Q x w) E'"
proof (rule wvalidI)
  fix w assume "world_ok w" "P w"
  from wvalidD [OF assms this] show "wpost (\<lambda>r w. case r of Inl e \<Rightarrow> E e | Inr x \<Rightarrow> Q x w) E' (wtry f w)"
    by (cases "(Q, E, f w)" rule: wpost.cases) (auto simp: wtry_def)
qed

lemma wpost_OkE:
  assumes "wpost Q (\<lambda>_. False) r"
  obtains x w where "r = (Ok x, w)" "world_ok w" "Q x w"
  using assms by (cases "(Q, \<lambda>_ :: dtl_err. False, r)" rule: wpost.cases) auto

lemma wvalid_given: "(C \<Longrightarrow> wvalid (\<lambda>_. True) f Q E) \<Longrightarrow> wvalid (\<lambda>_. C) f Q E"
  by (auto simp: wvalid_def)

lemma wvalid_pair:
  assumes "\<And>a b. wvalid (P a b) (f a b) Q E"
  shows "wvalid (case x of (a, b) \<Rightarrow> P a b) (case x of (a, b) \<Rightarrow> f a b) Q E"
  using assms by (cases x) auto

lemma wvalid_optional:
  assumes "r = None \<Longrightarrow> wvalid P f Q E" "\<And>x. r = Some x \<Longrightarrow> wvalid P (g x) Q E"
  shows "wvalid P (case r of None \<Rightarrow> f | Some x \<Rightarrow> g x) Q E"
  using assms by (cases r) auto

lemma wvalid_sum:
  assumes "\<And>e. r = Inl e \<Longrightarrow> wvalid P (f e) Q E" "\<And>x. r = Inr x \<Longrightarrow> wvalid P (g x) Q E"
  shows "wvalid P (case r of Inl e \<Rightarrow> f e | Inr x \<Rightarrow> g x) Q E"
  using assms by (cases r) auto

lemma container_parse_pure:
  assumes "dtl_container_parse m a (dtl_buf_init data) = (r, a', m')"
  shows "r = Err DTL_ERR_OOM \<or> r = container_of data"
    and "(a', m') = (a, m) \<or> (\<exists>n p. dtl_arena_alloc m a n = (p, a', m'))"
proof -
  have "(r = Err DTL_ERR_OOM \<or> r = container_of data) \<and>
      ((a', m') = (a, m) \<or> (\<exists>n p. dtl_arena_alloc m a n = (p, a', m')))"
  proof (cases "parse_header (dtl_buf_init data)")
    case (Ok p)
    obtain v f n b1 where p: "p = ((v, f, n), b1)" by (cases p) auto
    obtain r1 a1 m1 where t: "dtl_container_read_table m a b1 n = (r1, a1, m1)" using prod_cases3 by blast
    have "(a1, m1) = (a, m) \<or> (\<exists>n p. dtl_arena_alloc m a n = (p, a1, m1))"
      using t by (auto simp: dtl_container_read_table_def split: if_splits prod.splits option.splits)
    moreover have "a' = a1" "m' = m1"
      using assms Ok p t by (auto simp: dtl_container_parse_def split: result.splits)
    ultimately show ?thesis
      using read_table_cases [OF t] assms Ok p t
      by (cases "read_table_loop (unat n) b1")
        (auto simp: dtl_container_parse_def container_of_def split: result.splits prod.splits)
  qed (use assms in \<open>auto simp: dtl_container_parse_def container_of_def\<close>)
  then show "r = Err DTL_ERR_OOM \<or> r = container_of data"
    and "(a', m') = (a, m) \<or> (\<exists>n p. dtl_arena_alloc m a n = (p, a', m'))" by blast+
qed

lemma container_of_safe: "container_of data \<noteq> Ub"
proof -
  have "read_table_loop (unat n) b \<noteq> Ub" if "parse_header (dtl_buf_init data) = Ok ((v, f, n), b)" for v f n b
    using read_table_loop_safe [OF parse_header_next [OF _ that]] by simp
  then show ?thesis
    using parse_header_safe [of "dtl_buf_init data"]
    by (auto simp: container_of_def rbind_eq_Ub_iff dtl_container_resolve_blobs_def locate_blobs_safe
        total_comp_safe resolve_loop_safe split: if_splits)
qed

lemma buf_reads_not_ok:
  "dtl_buf_read_u8 b \<noteq> Err DTL_OK" "dtl_buf_read_u16 b \<noteq> Err DTL_OK" "dtl_buf_read_u32 b \<noteq> Err DTL_OK"
  by (simp_all add: dtl_buf_read_u8_def dtl_buf_read_u16_def dtl_buf_read_u32_def dtl_endian_read_u16le_def
      dtl_endian_read_u32le_def rbind_eq_Err_iff byte_at_def)

lemma read_table_not_ok: "read_table_loop n b \<noteq> Err DTL_OK"
  by (induction n arbitrary: b) (auto simp: rbind_eq_Err_iff read_section_entry_def buf_reads_not_ok split: if_splits)

lemma resolve_not_ok: "dtl_container_resolve_blobs ss base len \<noteq> Err DTL_OK"
proof -
  have "total_comp ss n \<noteq> Err DTL_OK" for n by (induction ss n rule: total_comp.induct) auto
  moreover have "resolve_loop ss base len \<noteq> Err DTL_OK"
    by (induction ss base len rule: resolve_loop.induct) (auto simp: Let_def rbind_eq_Err_iff split: if_splits)
  ultimately show ?thesis by (auto simp: dtl_container_resolve_blobs_def rbind_eq_Err_iff split: if_splits)
qed

lemma container_of_not_ok: "container_of data \<noteq> Err DTL_OK"
proof -
  have "parse_header b \<noteq> Err DTL_OK" for b
    by (auto simp: parse_header_def rbind_eq_Err_iff buf_reads_not_ok slice_at_def dtl_crc32_eq_ref split: if_splits)
  moreover have "locate_blobs b f \<noteq> Err DTL_OK" for b f by (simp add: locate_blobs_def Let_def)
  ultimately show ?thesis
    by (auto simp: container_of_def rbind_eq_Err_iff read_table_not_ok resolve_not_ok)
qed

lemma container_of_range:
  assumes "container_of data = Ok c" "s \<in> set (cont_sections c)"
  shows "\<exists>base len. section_in_range base len s \<and> base + len \<le> length data"
proof -
  obtain v f k b1 ss b2 n h where
    hd: "parse_header (dtl_buf_init data) = Ok ((v, f, k), b1)" and
    tb: "read_table_loop (unat k) b1 = Ok (ss, b2)" and
    l: "locate_blobs b2 f = Ok (n, h)" and
    r: "dtl_container_resolve_blobs ss (buf_pos b2) n = Ok (cont_sections c)"
    using assms(1) by (auto simp: container_of_def rbind_eq_Ok_iff)
  have b1: "buf_ok b1" using parse_header_next [OF _ hd] by simp
  have b2: "buf_ok b2" using read_table_loop_Ok [OF b1 tb] by (blast intro: consumes_ok)
  have p: "buf_p b2 = data"
    using consumes_pos [OF consumes_trans [OF parse_header_Ok(1) [OF _ hd]]] read_table_loop_Ok [OF b1 tb]
    by (metis buf_init_ok(1,3))
  have "section_in_range (buf_pos b2) n s"
    using r assms(2) by (auto simp: dtl_container_resolve_blobs_def rbind_eq_Ok_iff resolve_loop_Ok_iff split: if_splits)
  then show ?thesis
    using locate_blobs_Ok [OF b2 l] p
    by (intro exI [of _ "buf_pos b2"] exI [of _ n]) (auto simp: buf_len_def split: if_splits)
qed

lemma container_of_blobs:
  assumes "container_of data = Ok c" "s \<in> set (cont_sections c)"
  shows "\<exists>off. sec_blob s = Some off \<and> off + unat (sec_comp_len s) \<le> length data"
  using container_of_range [OF assms] by (auto simp: section_in_range_def)

lemma container_parse_valid:
  "wvalid P (w_container_parse data) (\<lambda>c _. container_of data = Ok c) (\<lambda>e. e = DTL_ERR_OOM \<or> container_of data = Err e)"
proof (rule wvalidI)
  fix w assume w: "world_ok w"
  obtain r a m where p: "dtl_container_parse (w_mem w) (w_arena w) (dtl_buf_init data) = (r, a, m)"
    using prod_cases3 by blast
  have "world_ok (w\<lparr>w_mem := m, w_arena := a\<rparr>)"
    using container_parse_pure(2) [OF p] w world_ok_arena_alloc [OF w] by (cases w) auto
  then show "wpost (\<lambda>c _. container_of data = Ok c) (\<lambda>e. e = DTL_ERR_OOM \<or> container_of data = Err e)
      (w_container_parse data w)"
    using container_parse_pure(1) [OF p] p container_of_safe [of data]
    by (cases r; cases "container_of data") (auto simp: w_container_parse_def)
qed

lemma codec_decode_frame: "dtl_codec_get i = Some codec \<Longrightarrow> mem_ok m \<Longrightarrow> heap_ext m (snd (codec_decode codec m xs cap))"
  using codec_get_pair coder_bounds.frame_snd by (metis codec_pair_def)

lemma decode_valid:
  assumes "dtl_codec_get (sec_codec_id s) = Some codec" "\<not> decode_outcome data s Ub"
  shows "wvalid P (w_decode codec (section_blob data s) (unat (sec_raw_len s)))
     (\<lambda>bs _. decode_outcome data s (Ok bs)) (\<lambda>e. decode_outcome data s (Err e))"
proof (rule wvalidI)
  fix w assume w: "world_ok w"
  obtain r m where d: "codec_decode codec (w_mem w) (section_blob data s) (unat (sec_raw_len s)) = (r, m)" by force
  have "world_ok (w\<lparr>w_mem := m\<rparr>)"
    using world_ok_ext [OF w] codec_decode_frame [OF assms(1) world_ok_mem [OF w]] d by (metis snd_conv)
  moreover have "decode_outcome data s r"
    unfolding decode_outcome_def using assms(1) world_ok_mem [OF w] d by (metis fst_conv)
  ultimately show "wpost (\<lambda>bs _. decode_outcome data s (Ok bs)) (\<lambda>e. decode_outcome data s (Err e))
      (w_decode codec (section_blob data s) (unat (sec_raw_len s)) w)"
    using assms(2) d by (cases r) (auto simp: w_decode_def)
qed

lemma walk_release_valid: "wvalid P dtl_event_pool_release (\<lambda>_ _. True) E"
proof (rule wvalidI)
  fix w assume w: "world_ok w"
  show "wpost (\<lambda>_ _. True) E (dtl_event_pool_release w)"
    unfolding dtl_event_pool_release_def using world_pools [OF w]
    by (intro wpost_mono [OF release_post [OF w]]) (auto simp: pools_ok_def pool_blocks_def)
qed

lemma arena_free_valid: "wvalid P w_arena_free (\<lambda>_ _. True) E"
proof (rule wvalidI)
  fix w assume w: "world_ok w"
  have ok: "arena_ok (w_mem w) (w_arena w)" using w by (simp add: world_ok_def)
  obtain m where f: "dtl_arena_free (w_mem w) (w_arena w) = Ok ((w_arena w)\<lparr>a_blocks := [], a_blocks_cap := 0\<rparr>, m)"
    and o: "\<And>b. m_objs m b = (if b \<in> arena_blocks (w_arena w) then None else m_objs (w_mem w) b)"
    and n: "m_next m = m_next (w_mem w)"
    using arena_free_Ok [OF ok] by blast
  have "world_ok (w\<lparr>w_mem := m, w_arena := (w_arena w)\<lparr>a_blocks := [], a_blocks_cap := 0\<rparr>\<rparr>)"
    using w n by (auto simp: world_ok_def mem_ok_def arena_ok_def arena_blocks_def o split: if_splits)
  then show "wpost (\<lambda>_ _. True) E (w_arena_free w)" by (simp add: w_arena_free_def f)
qed

lemma arena_init_valid: "wvalid P (w_arena_init n) (\<lambda>_ _. True) E"
  using arena_init_ok [of _ n]
  by (intro wvalidI) (simp add: w_arena_init_def world_ok_def dtl_arena_init_def arena_blocks_def)

subsection \<open>Clients\<close>

lemma stream_reads_end: "no_frame bs \<Longrightarrow> stream_reads bs []"
  by (auto simp: stream_reads_def intro: exI [of _ "[]"])

lemma stream_reads_frame:
  assumes "tlv_wf t" "tlv_reads t r" "stream_reads bs rs"
  shows "stream_reads (tlv_frame t @ bs) (r # rs)"
proof -
  obtain ts tail where "bs = concat (map tlv_frame ts) @ tail" "\<forall>t \<in> set ts. tlv_wf t" "no_frame tail"
    "list_all2 tlv_reads ts rs" using assms(3) by (auto simp: stream_reads_def)
  with assms(1,2) show ?thesis
    unfolding stream_reads_def by (intro exI [of _ "t # ts"] exI [of _ tail]) auto
qed

text \<open>A record as a parser returns it: of its shape, and not redacted.\<close>

fun fresh_rec :: "dtl_record \<Rightarrow> bool" where
  "fresh_rec (RDiag d) \<longleftrightarrow> dg_redacted d = 0"
| "fresh_rec (RKeyref k) \<longleftrightarrow> kr_redacted k = 0"
| "fresh_rec r \<longleftrightarrow> rec_shape r"

definition results :: "('a \<Rightarrow> bool) \<Rightarrow> 'a wm \<Rightarrow> bool" where
  "results P f \<longleftrightarrow> (\<forall>w x w'. f w = (Ok x, w') \<longrightarrow> P x)"

lemma results_simps [simp]: "results P (wret x) \<longleftrightarrow> P x" "results P (wfail e)" "results P (wlift r) \<longleftrightarrow> (\<forall>x. r = Ok x \<longrightarrow> P x)"
  by (auto simp: results_def wret_def wfail_def wlift_def)

lemma results_bind: "results Q f \<Longrightarrow> (\<And>x. Q x \<Longrightarrow> results P (g x)) \<Longrightarrow> results P (wbind f g)"
  by (fastforce simp: results_def wbind_def split: prod.splits result.splits)

lemma results_then: "(\<And>x. results P (g x)) \<Longrightarrow> results P (wbind f g)"
  by (rule results_bind [where Q = "\<lambda>_. True"]) (simp_all add: results_def)

lemma results_if: "results P f \<Longrightarrow> results P g \<Longrightarrow> results P (if c then f else g)"
  by simp

lemma results_option: "results P f \<Longrightarrow> (\<And>x. results P (g x)) \<Longrightarrow> results P (case p of None \<Rightarrow> f | Some x \<Rightarrow> g x)"
  by (simp split: option.splits)

lemma results_prod: "(\<And>a b. results P (g a b)) \<Longrightarrow> results P (case x of (a, b) \<Rightarrow> g a b)"
  by (simp split: prod.splits)

lemma results_map: "results (\<lambda>x. P (g x)) f \<Longrightarrow> results P (wmap g f)"
  unfolding wmap_def by (rule results_bind) simp_all

lemmas results_rules = results_if results_then results_option results_prod results_map

lemma config_loop_length: "results (\<lambda>(kvs, b). length kvs = n) (config_pairs_loop n b)"
proof (induction n arbitrary: b)
  case (Suc n)
  show ?case
    by (auto intro!: results_rules results_bind [OF Suc] simp del: split_paired_All)
qed simp

lemma read_bytes_length: "dtl_buf_read_bytes b n = Ok (bs, b') \<Longrightarrow> length bs = n"
  by (auto simp: dtl_buf_read_bytes_def buf_len_def Let_def split: if_splits)

lemma firmware_fresh: "results (\<lambda>f. fresh_rec (RFirmware f)) (dtl_firmware_parse val)"
proof -
  have "results P (wbind (wlift (dtl_buf_read_bytes b n)) (\<lambda>(h, b). g h))"
    if "\<And>h. length h = n \<Longrightarrow> results P (g h)" for P b n and g :: "u8 list \<Rightarrow> dtl_firmware wm"
    by (rule results_bind [where Q = "\<lambda>(h, b). length h = n"]) (auto dest: read_bytes_length intro: that)
  note hash = this
  show ?thesis
    unfolding dtl_firmware_parse_def
    by (rule results_if, simp, rule results_then, rule results_prod, rule results_then, rule results_prod,
        rule results_then, rule results_prod, rule hash) simp
qed

lemma config_fresh: "results (\<lambda>c. fresh_rec (RConfig c)) (dtl_config_parse val)"
proof -
  have "results (\<lambda>c. fresh_rec (RConfig c)) (wbind (config_pairs_loop (unat k) b) (\<lambda>(pairs, b).
      if dtl_buf_remaining b \<noteq> 0 then wfail DTL_ERR_BADRECORD else wret \<lparr>cfg_pair_count = k, cfg_pairs = pairs\<rparr>))" for k b
    by (rule results_bind [OF config_loop_length]) auto
  note pairs = this
  show ?thesis
    unfolding dtl_config_parse_def
    by (rule results_then, rule results_then, rule results_prod, rule results_then, rule pairs)
qed

lemma pooled_fresh:
  "results (\<lambda>d. fresh_rec (RDiag d)) (dtl_diag_parse val)" "results (\<lambda>k. fresh_rec (RKeyref k)) (dtl_keyref_parse val)"
  unfolding dtl_diag_parse_def dtl_keyref_parse_def
  by (intro results_if results_simps(2) results_then results_prod results_option; simp)+

lemma record_parse_fresh: "results fresh_rec (dtl_record_parse t)"
proof -
  have any: "results (\<lambda>x. True) f" for f :: "'x wm" by (simp add: results_def)
  have net: "results fresh_rec (wbind f (\<lambda>n. if net_iface_id n \<ge> 250 then wfail DTL_ERR_BADRECORD else wret (RNet n)))" for f
    by (rule results_then) simp
  show ?thesis
    unfolding dtl_record_parse_def Let_def
    by (intro results_if results_map firmware_fresh config_fresh pooled_fresh net results_simps(2)) (simp_all add: any)
qed

lemma record_parse_reads:
  "wvalid P (wtry (dtl_record_parse t)) (\<lambda>r w. case r of Inl e \<Rightarrow> tlv_reads t (Inl e)
     | Inr rec \<Rightarrow> \<exists>v. tlv_reads t (Inr v) \<and> fresh_rec rec \<and> record_view (w_mem w) rec = Ok v) E"
proof (rule wvalidI)
  fix w assume w: "world_ok w"
  note p = wvalidD [OF record_parse_valid [of t] w TrueI]
  show "wpost (\<lambda>r w. case r of Inl e \<Rightarrow> tlv_reads t (Inl e)
     | Inr rec \<Rightarrow> \<exists>v. tlv_reads t (Inr v) \<and> fresh_rec rec \<and> record_view (w_mem w) rec = Ok v) E (wtry (dtl_record_parse t) w)"
    using p record_parse_fresh [of t]
    by (cases "dtl_record_parse t w"; cases "fst (dtl_record_parse t w)")
      (fastforce simp: wtry_def results_def tlv_reads_def parsed_def)+
qed

text \<open>What a walk over one stream leaves behind, in terms of an abstract step.\<close>

definition stream_post :: "('u \<Rightarrow> 's \<Rightarrow> bool) \<Rightarrow> (walk_item \<Rightarrow> 's \<Rightarrow> 's) \<Rightarrow> dtl_section \<Rightarrow> u16 \<Rightarrow> u8 list \<Rightarrow> nat \<Rightarrow> nat \<Rightarrow> 's \<Rightarrow>
    dtl_err \<times> nat \<times> 'u \<Rightarrow> bool" where
  "stream_post rel step sec si bs n i s = (\<lambda>(rc, i', u'). rc = DTL_ERR_OOM \<or> rc = DTL_OK \<and>
     (\<exists>rs. stream_reads bs rs \<and> i' = i + count_seen rs \<and> rel u' (fold step (number_records sec si n i rs) s)))"

lemma stream_post_failed:
  assumes "tlv_wf t" "tlv_reads t (Inl e)"
    "stream_post rel step sec si bs (n + 1) i (step (mk_failed si n e False) s) x"
  shows "stream_post rel step sec si (tlv_frame t @ bs) n i s x"
proof -
  have "stream_reads (tlv_frame t @ bs) (Inl e # rs) \<and> count_seen (Inl e # rs) = count_seen rs \<and>
      fold step (number_records sec si n i (Inl e # rs)) s =
      fold step (number_records sec si (n + 1) i rs) (step (mk_failed si n e False) s)" if "stream_reads bs rs" for rs
    using stream_reads_frame [OF assms(1,2) that] by (simp add: count_seen_def)
  note * = this
  obtain rc i' u' where x: "x = (rc, i', u')" by (cases x)
  show ?thesis
  proof (cases "rc = DTL_ERR_OOM")
    case False
    with assms(3) x obtain rs where "stream_reads bs rs" "rc = DTL_OK" "i' = i + count_seen rs"
      "rel u' (fold step (number_records sec si (n + 1) i rs) (step (mk_failed si n e False) s))" by (auto simp: stream_post_def)
    with * [of rs] x show ?thesis by (auto simp: stream_post_def intro!: exI [of _ "Inl e # rs"] simp del: number_records.simps)
  qed (simp add: stream_post_def x)
qed

lemma stream_post_seen:
  assumes "tlv_wf t" "tlv_reads t (Inr v)"
    "stream_post rel step sec si bs (n + 1) (i + 1) (step (Seen (mk_event sec si n i v)) s) x"
  shows "stream_post rel step sec si (tlv_frame t @ bs) n i s x"
proof -
  have "stream_reads (tlv_frame t @ bs) (Inr v # rs) \<and> i + 1 + count_seen rs = i + count_seen (Inr v # rs) \<and>
      fold step (number_records sec si n i (Inr v # rs)) s =
      fold step (number_records sec si (n + 1) (i + 1) rs) (step (Seen (mk_event sec si n i v)) s)" if "stream_reads bs rs" for rs
    using stream_reads_frame [OF assms(1,2) that] by (simp add: count_seen_def)
  note * = this
  obtain rc i' u' where x: "x = (rc, i', u')" by (cases x)
  show ?thesis
  proof (cases "rc = DTL_ERR_OOM")
    case False
    with assms(3) x obtain rs where "stream_reads bs rs" "rc = DTL_OK" "i' = i + 1 + count_seen rs"
      "rel u' (fold step (number_records sec si (n + 1) (i + 1) rs) (step (Seen (mk_event sec si n i v)) s))" by (auto simp: stream_post_def)
    with * [of rs] x show ?thesis by (auto simp: stream_post_def intro!: exI [of _ "Inr v # rs"] simp del: number_records.simps)
  qed (simp add: stream_post_def x)
qed

definition sections_post :: "('u \<Rightarrow> 's \<Rightarrow> bool) \<Rightarrow> (walk_item \<Rightarrow> 's \<Rightarrow> 's) \<Rightarrow> u8 list \<Rightarrow> nat \<Rightarrow> dtl_section list \<Rightarrow> u16 \<Rightarrow> nat \<Rightarrow>
    's \<Rightarrow> dtl_err \<times> 'u \<Rightarrow> bool" where
  "sections_post rel step data max_decode secs si i s = (\<lambda>(rc, u'). rc = DTL_ERR_OOM \<or> rc = DTL_OK \<and>
     (\<exists>rs. list_all2 (section_reads data max_decode) secs rs \<and> rel u' (fold step (trace si i secs rs) s)))"

lemma sections_post_skip:
  assumes "section_reads data max_decode sec (Inl e)"
    "sections_post rel step data max_decode secs (si + 1) i (step (mk_failed si 0 e True) s) x"
  shows "sections_post rel step data max_decode (sec # secs) si i s x"
  using assms unfolding sections_post_def by (cases x) (force intro!: exI [of _ "Inl e # _"])

lemma sections_post_stream:
  assumes "section_reads data max_decode sec (Inr rd)"
    "sections_post rel step data max_decode secs (si + 1) (i + count_seen rd)
       (fold step (number_records sec si 0 i rd) s) x"
  shows "sections_post rel step data max_decode (sec # secs) si i s x"
  using assms unfolding sections_post_def by (cases x) (force intro!: exI [of _ "Inr rd # _"])

text \<open>How a walk over the bytes \<open>data\<close> may return.\<close>

definition walk_post :: "('u \<Rightarrow> 's \<Rightarrow> bool) \<Rightarrow> (walk_item \<Rightarrow> 's \<Rightarrow> 's) \<Rightarrow> nat \<Rightarrow> u8 list \<Rightarrow> 's \<Rightarrow> dtl_err \<times> 'u \<Rightarrow> bool" where
  "walk_post rel step max_decode data s = (\<lambda>(rc, u'). rc = DTL_ERR_OOM \<or> container_of data = Err rc \<and> rel u' s \<or>
     rc = DTL_OK \<and> (\<exists>items. walk_shows data max_decode items \<and> rel u' (fold step items s)))"

text \<open>The bytes of a file as the walk takes them in, and how a walk over it may return.\<close>

definition file_bytes :: "files \<Rightarrow> string option \<Rightarrow> nat \<Rightarrow> u8 list res" where
  "file_bytes fs path max_file = (case path of None \<Rightarrow> Err DTL_ERR_INVAL
     | Some p \<Rightarrow> case fs p of None \<Rightarrow> Err DTL_ERR_IO
     | Some f \<Rightarrow> if \<not> f_seek_end f \<or> f_tell f < 0 then Err DTL_ERR_IO
         else if nat (f_tell f) > max_file then Err DTL_ERR_RANGE
         else if \<not> f_seek_set f \<or> length (f_data f) < nat (f_tell f) then Err DTL_ERR_IO
         else Ok (take (nat (f_tell f)) (f_data f)))"

definition file_post :: "('u \<Rightarrow> 's \<Rightarrow> bool) \<Rightarrow> (walk_item \<Rightarrow> 's \<Rightarrow> 's) \<Rightarrow> nat \<Rightarrow> files \<Rightarrow> string option \<Rightarrow> nat \<Rightarrow> 's \<Rightarrow>
    dtl_err \<times> 'u \<Rightarrow> bool" where
  "file_post rel step max_decode fs path max_file s x \<longleftrightarrow> fst x = DTL_ERR_OOM \<or> (case file_bytes fs path max_file of
     Err e \<Rightarrow> fst x = e \<and> rel (snd x) s | Ok data \<Rightarrow> walk_post rel step max_decode data s x | Ub \<Rightarrow> False)"

lemma alloc_for_read:
  "wvalid P (w_arena_alloc (if n \<noteq> 0 then n else 1))
     (\<lambda>q w. case q of None \<Rightarrow> True | Some q \<Rightarrow> region_ok (w_mem w) q (length (take n (f_data f)))) E"
  by (rule wvalid_weaken [OF wvalid_arena_alloc [where P = P and E = E]])
    (auto split: option.splits if_splits intro: region_ok_mono [OF _ min.cobounded2] region_ok_mono [OF _ le0])

lemma fread_valid:
  "wvalid (\<lambda>w. region_ok (w_mem w) q (length (take n (f_data f)))) (c_fread q n f) (\<lambda>got w. got = take n (f_data f)) E"
  unfolding c_fread_def
  by (rule wvalid_bind [where R = "\<lambda>_ _. True"])
    (auto intro!: wvalidI wvalid_ret intro: wpost_mono [OF wpost_store])

text \<open>
  The callbacks of a report: from a record that reads as \<open>v\<close> they take the abstract step for \<open>v\<close>, or
  abort because memory ran out; an error callback takes the step for the error, and a missing one means
  that the report ignores errors.
\<close>

locale walk_client =
  fixes on_record :: "'u walk_fn" and on_error :: "'u walk_error_fn option"
    and rel :: "'u \<Rightarrow> 's \<Rightarrow> bool" and step :: "walk_item \<Rightarrow> 's \<Rightarrow> 's"
  assumes record_step: "rel u s \<Longrightarrow> fresh_rec r \<Longrightarrow> wvalid (\<lambda>w. record_view (w_mem w) r = Ok v) (on_record (mk_event sec si n i r) u)
      (\<lambda>(rc, u') w. rc = DTL_OK \<and> rel u' (step (Seen (mk_event sec si n i v)) s) \<or> rc = DTL_ERR_OOM) (\<lambda>_. False)"
    and error_step: "on_error = Some f \<Longrightarrow> rel u s \<Longrightarrow>
      wvalid (\<lambda>_. True) (f e u) (\<lambda>u' w. rel u' (step (Failed e) s)) (\<lambda>_. False)"
    and error_skip: "on_error = None \<Longrightarrow> rel u s \<Longrightarrow> rel u (step (Failed e) s)"
begin

lemma report_error_valid:
  assumes "rel u s"
  shows "wvalid P (dtl_walk_report_error (walk_with on_record on_error k) si n e fatal u)
    (\<lambda>u' w. rel u' (step (mk_failed si n e fatal) s)) (\<lambda>_. False)"
proof (cases on_error)
  case None
  with error_skip [OF None assms] show ?thesis
    by (auto simp: dtl_walk_report_error_def mk_failed_def intro!: wvalid_ret)
next
  case (Some f)
  with error_step [OF Some assms] show ?thesis
    by (auto simp: dtl_walk_report_error_def mk_failed_def intro: wvalid_pre)
qed

text \<open>One stream.\<close>

lemma walk_records_valid:
  assumes "buf_ok stream" "rel u s"
  shows "wvalid P (walk_records (walk_with on_record on_error k) on_record sec si stream n i u)
    (\<lambda>x w. stream_post rel step sec si (buf_rest stream) n i s x) (\<lambda>_. False)"
  using assms
proof (induction "length (buf_rest stream)" arbitrary: P stream n i u s rule: less_induct)
  case less
  let ?W = "walk_with on_record on_error k"
  from less.prems(1) show ?case
  proof (cases rule: tlv_next_cases)
    case (short s')
    then have "stream_reads (buf_rest stream) []" by (intro stream_reads_end) (simp add: no_frame_def)
    with short less.prems(2) show ?thesis
      by (subst walk_records.simps) (auto simp: stream_post_def count_seen_def intro!: wvalid_ret)
  next
    case (ok t s')
    have IH: "rel u s \<Longrightarrow> wvalid P (walk_records ?W on_record sec si s' n i u)
        (\<lambda>x w. stream_post rel step sec si (buf_rest s') n i s x) (\<lambda>_. False)" for P n i u s
      using less.hyps [OF _ ok(3), of u s P n i] ok(4) by simp
    have failed: "wvalid P (wbind (dtl_walk_report_error ?W si n rc False u)
          (\<lambda>u. walk_records ?W on_record sec si s' (n + 1) i u))
        (\<lambda>x w. stream_post rel step sec si (buf_rest stream) n i s x) (\<lambda>_. False)"
      if "tlv_reads t (Inl rc)" for rc P
      unfolding ok(4)
      by (rule wvalid_bind [OF report_error_valid [OF less.prems(2)]])
        (rule wvalid_given, rule wvalid_weaken [OF IH], auto intro: stream_post_failed [OF ok(2) that])
    have seen: "wvalid (\<lambda>w. \<exists>v. tlv_reads t (Inr v) \<and> fresh_rec rec \<and> record_view (w_mem w) rec = Ok v)
        (wbind (on_record (mk_event sec si n i rec) u) (\<lambda>(rc, u).
          if rc \<noteq> DTL_OK then wret (rc, i, u)
          else walk_records ?W on_record sec si s' (n + 1) (i + 1) u))
        (\<lambda>x w. stream_post rel step sec si (buf_rest stream) n i s x) (\<lambda>_. False)" for rec
    proof (rule wvalid_ex, rule wvalid_conj, rule wvalid_conj, rule wvalid_bind [OF record_step [OF less.prems(2)]])
      fix v and x :: "dtl_err \<times> 'u" assume v: "tlv_reads t (Inr v)"
      obtain rc u' where x: "x = (rc, u')" by (cases x)
      let ?s = "step (Seen (mk_event sec si n i v)) s"
      have go: "wvalid (\<lambda>_. True) (walk_records ?W on_record sec si s' (n + 1) (i + 1) u')
          (\<lambda>x w. stream_post rel step sec si (buf_rest stream) n i s x) (\<lambda>_. False)" if "rel u' ?s"
        unfolding ok(4) by (rule wvalid_weaken [OF IH [OF that]]) (auto intro: stream_post_seen [OF ok(2) v])
      show "wvalid (case x of (rc, u') \<Rightarrow> \<lambda>w. rc = DTL_OK \<and> rel u' ?s \<or> rc = DTL_ERR_OOM)
          (case x of (rc, u) \<Rightarrow> if rc \<noteq> DTL_OK then wret (rc, i, u)
            else walk_records ?W on_record sec si s' (n + 1) (i + 1) u)
          (\<lambda>x w. stream_post rel step sec si (buf_rest stream) n i s x) (\<lambda>_. False)"
        unfolding x prod.case
        by (rule wvalid_given, rule wvalid_if, rule wvalid_ret, force simp: stream_post_def, rule go, blast)
    qed
    show ?thesis
      unfolding walk_records.simps [of _ _ _ _ stream] ok(1) prod.case result.case
      by (rule wvalid_bind [OF record_parse_reads], rule wvalid_sum; simp only: sum.case)
        (rule wvalid_given, erule failed, rule seen)
  qed
qed

text \<open>
  One section, and then the rest of the walk \<open>cont\<close>: after a skipped section, after the records of a
  decoded one, and after the attempt to decode it.
\<close>

lemma section_skip_valid:
  assumes "section_reads data max_decode sec (Inl e)" "rel u s"
    and "\<And>u s. rel u s \<Longrightarrow> wvalid (\<lambda>_. True) (cont u) (\<lambda>x w. sections_post rel step data max_decode secs (si + 1) i s x) (\<lambda>_. False)"
  shows "wvalid P (wbind (dtl_walk_report_error (walk_with on_record on_error k) si 0 e True u) cont)
    (\<lambda>x w. sections_post rel step data max_decode (sec # secs) si i s x) (\<lambda>_. False)"
  by (rule wvalid_bind [OF report_error_valid [OF assms(2)]], rule wvalid_given)
    (rule wvalid_weaken [OF assms(3)], auto intro: sections_post_skip [OF assms(1)])

lemma section_stream_valid:
  assumes got: "decode_outcome data sec (Ok got)" and fits: "unat (sec_raw_len sec) \<le> max_decode" and rel: "rel u s"
    and cont: "\<And>j u s. rel u s \<Longrightarrow> wvalid (\<lambda>_. True) (cont j u)
      (\<lambda>x w. sections_post rel step data max_decode secs (si + 1) j s x) (\<lambda>_. False)"
  shows "wvalid P
      (wbind (walk_records (walk_with on_record on_error k) on_record sec si (dtl_buf_init got) 0 i u) (\<lambda>(rc, j, u).
        if rc \<noteq> DTL_OK then wret (rc, u) else wbind dtl_event_pool_release (\<lambda>_. cont j u)))
      (\<lambda>x w. sections_post rel step data max_decode (sec # secs) si i s x) (\<lambda>_. False)"
proof (rule wvalid_bind [OF walk_records_valid [OF buf_init_ok(1) rel]], rule wvalid_given)
  fix x :: "dtl_err \<times> nat \<times> 'u"
  assume "stream_post rel step sec si (buf_rest (dtl_buf_init got)) 0 i s x"
  moreover obtain rc j u' where x: "x = (rc, j, u')" by (cases x)
  ultimately have post: "stream_post rel step sec si got 0 i s (rc, j, u')" by simp
  have abort: "sections_post rel step data max_decode (sec # secs) si i s (rc, u')" if "rc \<noteq> DTL_OK"
    using post that by (auto simp: stream_post_def sections_post_def)
  have go: "wvalid (\<lambda>_. True) (wbind dtl_event_pool_release (\<lambda>_. cont j u'))
      (\<lambda>x w. sections_post rel step data max_decode (sec # secs) si i s x) (\<lambda>_. False)" if ok: "rc = DTL_OK"
  proof -
    obtain rs where rs: "stream_reads got rs" "j = i + count_seen rs"
      "rel u' (fold step (number_records sec si 0 i rs) s)" using post ok by (auto simp: stream_post_def)
    have reads: "section_reads data max_decode sec (Inr rs)"
      using got fits rs(1) by (auto simp: section_reads_def)
    show ?thesis
      by (rule wvalid_bind [OF walk_release_valid])
        (rule wvalid_weaken [OF cont [OF rs(3)]], auto simp: rs(2) intro: sections_post_stream [OF reads])
  qed
  show "wvalid (\<lambda>_. True) (case x of (rc, j, u) \<Rightarrow> if rc \<noteq> DTL_OK then wret (rc, u)
      else wbind dtl_event_pool_release (\<lambda>_. cont j u))
      (\<lambda>x w. sections_post rel step data max_decode (sec # secs) si i s x) (\<lambda>_. False)"
    unfolding x prod.case by (rule wvalid_if, rule wvalid_ret, erule abort, rule go, simp)
qed

lemma section_decode_valid:
  assumes codec: "dtl_codec_get (sec_codec_id sec) = Some codec" and safe: "\<not> decode_outcome data sec Ub"
    and fits: "unat (sec_raw_len sec) \<le> max_decode" and rel: "rel u s"
    and cont: "\<And>j u s. rel u s \<Longrightarrow> wvalid (\<lambda>_. True) (cont j u)
      (\<lambda>x w. sections_post rel step data max_decode secs (si + 1) j s x) (\<lambda>_. False)"
  shows "wvalid P (wbind (wtry (w_decode codec (section_blob data sec) (unat (sec_raw_len sec)))) (\<lambda>r.
        case r of Inl rc \<Rightarrow> wbind (dtl_walk_report_error (walk_with on_record on_error k) si 0 rc True u) (cont i)
        | Inr got \<Rightarrow>
            wbind (walk_records (walk_with on_record on_error k) on_record sec si (dtl_buf_init got) 0 i u) (\<lambda>(rc, j, u).
              if rc \<noteq> DTL_OK then wret (rc, u) else wbind dtl_event_pool_release (\<lambda>_. cont j u))))
      (\<lambda>x w. sections_post rel step data max_decode (sec # secs) si i s x) (\<lambda>_. False)"
proof (rule wvalid_bind [OF wvalid_try [OF decode_valid [OF codec safe]]], rule wvalid_sum; simp only: sum.case; rule wvalid_given)
  fix e assume "decode_outcome data sec (Err e)"
  then have "section_reads data max_decode sec (Inl e)" using fits by (simp add: section_reads_def)
  then show "wvalid (\<lambda>_. True) (wbind (dtl_walk_report_error (walk_with on_record on_error k) si 0 e True u) (cont i))
      (\<lambda>x w. sections_post rel step data max_decode (sec # secs) si i s x) (\<lambda>_. False)"
    by (rule section_skip_valid [OF _ rel cont])
qed (rule section_stream_valid [OF _ fits rel cont])

text \<open>The sections.\<close>

lemma walk_sections_valid:
  assumes "\<And>sec. sec \<in> set secs \<Longrightarrow> \<not> decode_outcome data sec Ub"
    and "\<And>sec. sec \<in> set secs \<Longrightarrow> \<exists>off. sec_blob sec = Some off \<and> off + unat (sec_comp_len sec) \<le> length data"
    and "rel u s"
  shows "wvalid P (walk_sections (walk_with on_record on_error k) on_record data max_decode secs si i u)
    (\<lambda>x w. sections_post rel step data max_decode secs si i s x) (\<lambda>_. False)"
  using assms
proof (induction secs arbitrary: P si i u s)
  case Nil
  then show ?case by (auto simp: sections_post_def intro!: wvalid_ret exI [of _ "[]"])
next
  case (Cons sec secs)
  have IH: "rel u s \<Longrightarrow> wvalid P (walk_sections (walk_with on_record on_error k) on_record data max_decode secs si i u)
      (\<lambda>x w. sections_post rel step data max_decode secs si i s x) (\<lambda>_. False)" for P si i u s
    using Cons.IH Cons.prems(1,2) by simp
  note skip = section_skip_valid [OF _ Cons.prems(3) IH]
  have blob: "(case sec_blob sec of None \<Rightarrow> Ub | Some off \<Rightarrow> slice_at data off (unat (sec_comp_len sec)))
      = Ok (section_blob data sec)" using Cons.prems(2) [of sec] by (auto simp: section_blob_def)
  show ?case
  proof (cases "dtl_codec_get (sec_codec_id sec)")
    case None
    then have "section_reads data max_decode sec (Inl DTL_ERR_BADRECORD)" by (simp add: section_reads_def)
    then show ?thesis unfolding walk_sections.simps None option.case by (rule skip)
  next
    case (Some codec)
    have big: "section_reads data max_decode sec (Inl DTL_ERR_RANGE)" if "max_decode < unat (sec_raw_len sec)"
      using that Some by (simp add: section_reads_def)
    have dec: "\<not> decode_outcome data sec Ub" using Cons.prems(1) by simp
    show ?thesis
      unfolding walk_sections.simps Some option.case Let_def blob wbind_simps(1)
      by (rule wvalid_if, rule skip, erule big, assumption, rule wvalid_bind [OF wvalid_arena_alloc])
        (rule wvalid_optional, rule wvalid_ret, simp add: sections_post_def,
         rule section_decode_valid [OF Some dec _ Cons.prems(3) IH], simp_all)
  qed
qed

text \<open>The whole walk, over memory and over a file.\<close>

lemma walk_memory_valid:
  assumes "decodes_safely data" "rel u s"
  shows "wvalid P (dtl_walk_memory data (walk_with on_record on_error k) u)
    (\<lambda>x w. walk_post rel step (if k = 0 then DTL_WALK_DEFAULT_MAX_DECODE else k) data s x) (\<lambda>_. False)"
proof -
  let ?k = "if k \<noteq> 0 then k else DTL_WALK_DEFAULT_MAX_DECODE"
  have secs: "wvalid (\<lambda>_. True) (walk_sections (walk_with on_record on_error k) on_record data ?k (cont_sections c) 0 0 u)
      (\<lambda>x w. walk_post rel step (if k = 0 then DTL_WALK_DEFAULT_MAX_DECODE else k) data s x) (\<lambda>_. False)"
    if c: "container_of data = Ok c" for c
    by (rule wvalid_weaken [OF walk_sections_valid [OF _ container_of_blobs [OF c] assms(2)]])
      (use assms(1) c in \<open>auto simp: decodes_safely_def sections_post_def walk_post_def walk_shows_def\<close>, blast+)
  show ?thesis
    unfolding dtl_walk_memory_def walk_with_simps option.case Let_def
    by (rule wvalid_bind [OF wvalid_try [OF container_parse_valid]], rule wvalid_sum; simp only: sum.case)
      (rule wvalid_given, rule wvalid_ret, force simp: walk_post_def assms(2), rule wvalid_given, erule secs)
qed

lemma walk_absorb_valid:
  assumes "\<And>data. file_bytes fs path max_file = Ok data \<Longrightarrow> decodes_safely data" "rel u s"
  shows "wvalid P (dtl_walk_absorb fs path max_file (walk_with on_record on_error k) u)
    (\<lambda>x w. file_post rel step (if k = 0 then DTL_WALK_DEFAULT_MAX_DECODE else k) fs path max_file s x) (\<lambda>_. False)"
proof -
  let ?W = "walk_with on_record on_error k" and ?k = "if k = 0 then DTL_WALK_DEFAULT_MAX_DECODE else k"
  let ?Q = "\<lambda>x (w :: world). file_post rel step ?k fs path max_file s x"
  have stop: "wvalid P (wret (e, u)) ?Q (\<lambda>_. False)" if "file_bytes fs path max_file = Err e" for e P
    by (rule wvalid_ret) (simp add: file_post_def that assms(2))
  have walk: "wvalid P (dtl_walk_memory data ?W u) ?Q (\<lambda>_. False)" if "file_bytes fs path max_file = Ok data" for data P
    by (rule wvalid_weaken [OF walk_memory_valid [OF assms(1) [OF that] assms(2)]]) (simp_all add: file_post_def that)
  show ?thesis
  proof (cases "(path, fs (the path))")
    case (Pair po fo)
    show ?thesis
    proof (cases "\<exists>p f. po = Some p \<and> fo = Some f \<and> f_seek_end f \<and> 0 \<le> f_tell f \<and> nat (f_tell f) \<le> max_file \<and> f_seek_set f")
      case True
      then obtain p f where f: "path = Some p" "fs p = Some f" "f_seek_end f" "0 \<le> f_tell f"
        "nat (f_tell f) \<le> max_file" "f_seek_set f" using Pair by auto
      define n where "n = nat (f_tell f)"
      have bytes: "file_bytes fs path max_file = (if length (take n (f_data f)) \<noteq> n then Err DTL_ERR_IO else Ok (take n (f_data f)))"
        using f by (simp add: file_bytes_def n_def)
      have got: "wvalid P (if length got \<noteq> n then wret (DTL_ERR_IO, u) else dtl_walk_memory got ?W u) ?Q (\<lambda>_. False)"
        if "got = take n (f_data f)" for got P
        using stop [of DTL_ERR_IO] walk [of got] bytes that by (cases "length got = n") auto
      have absorb: "dtl_walk_absorb fs path max_file ?W u =
          wbind (w_arena_alloc (if n \<noteq> 0 then n else 1)) (\<lambda>buf.
           case buf of None \<Rightarrow> wret (DTL_ERR_OOM, u)
           | Some buf \<Rightarrow> if n = 0 then dtl_walk_memory [] ?W u
               else wbind (c_fread buf n f) (\<lambda>got.
                    if length got \<noteq> n then wret (DTL_ERR_IO, u) else dtl_walk_memory got ?W u))"
        unfolding dtl_walk_absorb_def Let_def f(1) option.case f(2) n_def
        using f(3-6) f(4,5) [THEN leD] by (simp only: walk_with_simps option.distinct not_True_eq_False if_False)
      show ?thesis
        unfolding absorb
      proof (rule wvalid_bind [OF alloc_for_read [where f = f]], rule wvalid_optional)
        fix q :: "addr option" and buf assume q: "q = Some buf"
        show "wvalid (\<lambda>w. case q of None \<Rightarrow> True | Some q \<Rightarrow> region_ok (w_mem w) q (length (take n (f_data f))))
            (if n = 0 then dtl_walk_memory [] ?W u else wbind (c_fread buf n f) (\<lambda>got.
               if length got \<noteq> n then wret (DTL_ERR_IO, u) else dtl_walk_memory got ?W u)) ?Q (\<lambda>_. False)"
          unfolding q option.case
          by (rule wvalid_if, rule walk, simp add: bytes, rule wvalid_bind [OF fread_valid], rule wvalid_given, erule got)
      qed (rule wvalid_ret, simp add: file_post_def)
    next
      case False
      then show ?thesis
        using Pair stop unfolding dtl_walk_absorb_def file_bytes_def
        by (auto split: option.splits)
    qed
  qed
qed

lemma walk_file_valid:
  assumes "\<And>data. file_bytes fs path max_file = Ok data \<Longrightarrow> decodes_safely data" "rel u s"
  shows "wvalid P (dtl_walk_file fs path max_file (walk_with on_record on_error k) u)
    (\<lambda>x w. file_post rel step (if k = 0 then DTL_WALK_DEFAULT_MAX_DECODE else k) fs path max_file s x) (\<lambda>_. False)"
  unfolding dtl_walk_file_def
  by (rule wvalid_if, simp, rule wvalid_bind [OF arena_init_valid], rule wvalid_bind [OF walk_absorb_valid [OF assms]])
    (assumption, rule wvalid_given, rule wvalid_bind [OF arena_free_valid], rule wvalid_ret)

text \<open>The reports leave the decode limit at its default.\<close>

lemmas walk_file_default = walk_file_valid [where k = 0, unfolded refl [of "0 :: nat", THEN eqTrueI] if_True]

end

lemma file_post_OK:
  assumes "file_post rel step max_decode fs path max_file s (DTL_OK, u)"
  shows "\<exists>data items. file_bytes fs path max_file = Ok data \<and> walk_shows data max_decode items \<and> rel u (fold step items s)"
proof -
  have "file_bytes fs path max_file \<noteq> Err DTL_OK" by (auto simp: file_bytes_def split: option.splits)
  with assms show ?thesis
    using container_of_not_ok by (auto simp: file_post_def walk_post_def split: result.splits)
qed

lemma file_run:
  assumes "wvalid (\<lambda>_. True) f (\<lambda>x w. file_post rel step max_decode fs path max_file s x) (\<lambda>_. False)" "world_ok w"
  obtains rc u w' where "f w = (Ok (rc, u), w')" "world_ok w'"
    "file_post rel step max_decode fs path max_file s (rc, u)"
  using wvalidD [OF assms TrueI] that by (elim wpost_OkE) auto

subsection \<open>Containers that decode safely\<close>

lemma decodes_safely_no_lz77:
  assumes "\<And>c s. container_of data = Ok c \<Longrightarrow> s \<in> set (cont_sections c) \<Longrightarrow> sec_codec_id s \<noteq> DTL_CODEC_LZ77"
  shows "decodes_safely data"
proof -
  have "fst (codec_decode codec m xs cap) \<noteq> Ub"
    if "dtl_codec_get i = Some codec" "i \<noteq> DTL_CODEC_LZ77" "mem_ok m" for i codec m xs cap
    using coder_safe.safe [OF table_decoders_safe [of codec]] codec_get_Some [OF that(1)] that(2,3) by auto
  with assms show ?thesis by (auto simp: decodes_safely_def decode_outcome_def)
qed

text \<open>A container with one section, stored as it is.\<close>

definition stored_section :: "u16 \<Rightarrow> u8 list \<Rightarrow> dtl_section" where
  "stored_section t bs = \<lparr>sec_type = t, sec_codec_id = DTL_CODEC_STORE, sec_raw_len = of_nat (length bs),
     sec_comp_len = of_nat (length bs), sec_offset = 0, sec_blob = None\<rparr>"

definition stored_container :: "u16 \<Rightarrow> u8 list \<Rightarrow> u8 list" where
  "stored_container t bs = header_bytes DTL_VERSION 0 1 @ section_entry_bytes (stored_section t bs) @ bs"

lemma container_parse_some:
  assumes "\<And>m a. (\<exists>a' m'. dtl_container_parse m a (dtl_buf_init data) = (Ok c, a', m')) \<or>
    fst (dtl_arena_alloc m a n) = None" "0 < n" "n \<le> 65536"
  shows "container_of data = Ok c"
proof -
  have "fst (dtl_arena_alloc (mem_init (\<lambda>_ _. False)) (dtl_arena_init 0) n) \<noteq> None"
    using arena_alloc_succeeds [of "mem_init (\<lambda>_ _. False)" n "dtl_arena_init 0"] assms(2,3)
    by (auto simp: mem_init_def dtl_arena_init_def SIZE_MAX_def)
  then obtain a' m' where "dtl_container_parse (mem_init (\<lambda>_ _. False)) (dtl_arena_init 0) (dtl_buf_init data) = (Ok c, a', m')"
    using assms(1) [of "mem_init (\<lambda>_ _. False)" "dtl_arena_init 0"] by auto
  from container_parse_pure(1) [OF this] show ?thesis by simp
qed

lemma stored_container_of:
  assumes "0 < length bs" "length bs \<le> 1000"
  shows "container_of (stored_container t bs) = Ok \<lparr>cont_version = DTL_VERSION, cont_flags = 0, cont_section_count = 1,
    cont_sections = [bind_blob 28 (stored_section t bs)], cont_hmac = None\<rparr>"
proof (rule container_parse_some [where n = sizeof_dtl_section])
  fix m a
  have [simp]: "unat (of_nat (length bs) :: u32) = length bs" using assms(2) by (simp add: unat_of_nat)
  have sec: "section_in_range 28 (length bs) (bind_blob 28 (stored_section t bs))"
    using assms by (simp add: section_in_range_def stored_section_def bind_blob_def DTL_SECTION_MAX_RAW_def word_less_nat_alt)
  note w = container_parse_written [of "dtl_buf_init (stored_container t bs)" 0 1 "[stored_section t bs]" bs "[]" 28 m a]
  have *: "buf_rest (dtl_buf_init (stored_container t bs)) =
      header_bytes DTL_VERSION 0 1 @ concat (map section_entry_bytes [stored_section t bs]) @ bs @ []"
    "buf_len (dtl_buf_init (stored_container t bs)) \<le> SIZE_MAX" "(\<Sum>s\<leftarrow>[stored_section t bs]. unat (sec_comp_len s)) \<le> length bs"
    "\<forall>s\<in>set [stored_section t bs]. sec_blob s = None"
    using assms(2) by (simp_all add: stored_container_def stored_section_def buf_len_def SIZE_MAX_def)
  show "(\<exists>a' m'. dtl_container_parse m a (dtl_buf_init (stored_container t bs)) = (Ok \<lparr>cont_version = DTL_VERSION,
      cont_flags = 0, cont_section_count = 1, cont_sections = [bind_blob 28 (stored_section t bs)], cont_hmac = None\<rparr>, a', m')) \<or>
      fst (dtl_arena_alloc m a sizeof_dtl_section) = None"
    using w [OF buf_init_ok(1) *(2,1) _ _ *(4) _ _ _ *(3)] sec by (simp, elim disjE) simp_all
qed (simp_all add: sizeof_dtl_section_def)

lemma stored_container_safe: "0 < length bs \<Longrightarrow> length bs \<le> 1000 \<Longrightarrow> decodes_safely (stored_container t bs)"
  by (rule decodes_safely_no_lz77) (auto simp: stored_container_of stored_section_def codec_ids)

text \<open>What a walk over it reads.\<close>

lemma stored_reads:
  assumes "0 < length bs" "length bs \<le> 1000" "walk_shows (stored_container t bs) DTL_WALK_DEFAULT_MAX_DECODE items"
  shows "\<exists>rd. stream_reads bs rd \<and> items = number_records (bind_blob 28 (stored_section t bs)) 0 0 0 rd"
proof -
  let ?s = "bind_blob 28 (stored_section t bs)" and ?d = "stored_container t bs"
  have len: "unat (of_nat (length bs) :: u32) = length bs" using assms(2) by (simp add: unat_of_nat)
  have blob: "section_blob ?d ?s = bs"
    using len by (simp add: section_blob_def bind_blob_def stored_section_def stored_container_def)
  have codec: "dtl_codec_get (sec_codec_id ?s) = Some (codec_entry DTL_CODEC_STORE ''store'' (lift_coder dtl_store_decode) (lift_coder dtl_store_encode))"
    by (simp add: stored_section_def dtl_codec_get_def dtl_codec_table_def)
  have dec: "decode_outcome ?d ?s r \<Longrightarrow> r = Ok bs" for r
    using len codec blob by (auto simp: decode_outcome_def lift_coder_def dtl_store_decode_def dtl_store_copy_def stored_section_def)
  obtain x where x: "section_reads ?d DTL_WALK_DEFAULT_MAX_DECODE ?s x" "items = trace 0 0 [?s] [x]"
    using assms(3) stored_container_of [OF assms(1,2), of t] by (auto simp: walk_shows_def list_all2_Cons1)
  have small: "unat (sec_raw_len ?s) \<le> DTL_WALK_DEFAULT_MAX_DECODE"
    using len assms(2) by (simp add: stored_section_def DTL_WALK_DEFAULT_MAX_DECODE_def)
  show ?thesis
    using x small codec dec by (cases x) (auto simp: section_reads_def)
qed

lemma no_frame_cut:
  assumes "tlv_wf t" "k < length (tlv_frame t)"
  shows "no_frame (take k (tlv_frame t))"
proof (unfold no_frame_def, intro notI, elim exE conjE)
  fix t' r assume t': "tlv_wf t'" "take k (tlv_frame t) = tlv_frame t' @ r"
  have len: "length (tlv_frame t') \<le> k" using arg_cong [OF t'(2), of length] by simp
  then have "3 \<le> k" by simp
  then have "take 3 (tlv_frame t) = take 3 (tlv_frame t')"
    using arg_cong [OF t'(2), of "take 3"] by (simp add: min_def)
  then have "dtl_endian_write_u16le (of_nat (length (tlv_val t))) = dtl_endian_write_u16le (of_nat (length (tlv_val t')))"
    by (simp add: tlv_frame_def tlv_bytes_def)
  then have "(of_nat (length (tlv_val t)) :: u16) = of_nat (length (tlv_val t'))" by (rule rd_u16.wr_inj)
  then have "length (tlv_val t) = length (tlv_val t')"
    using assms(1) t'(1) unat_lt_2p16 [of "tlv_len t"] unat_lt_2p16 [of "tlv_len t'"]
    by (simp add: tlv_wf_def word_unat_eq_iff unat_of_nat)
  with len assms(2) show False by simp
qed

lemma stream_reads_none: "no_frame bs \<Longrightarrow> stream_reads bs rs \<Longrightarrow> rs = []"
proof -
  assume none: "no_frame bs" and "stream_reads bs rs"
  then obtain ts tail where ts: "bs = concat (map tlv_frame ts) @ tail" "\<forall>t \<in> set ts. tlv_wf t" "list_all2 tlv_reads ts rs"
    by (auto simp: stream_reads_def)
  have "ts = []"
  proof (cases ts)
    case (Cons t ts')
    then have "bs = tlv_frame t @ concat (map tlv_frame ts') @ tail" "tlv_wf t" using ts by auto
    with none show ?thesis by (auto simp: no_frame_def)
  qed simp
  with ts(3) show "rs = []" by simp
qed

lemma stream_reads_one:
  assumes "tlv_wf t" "stream_reads (tlv_frame t) rs"
  shows "\<exists>r. rs = [r] \<and> tlv_reads t r"
proof -
  obtain ts tail where ts: "tlv_frame t = concat (map tlv_frame ts) @ tail" "\<forall>t \<in> set ts. tlv_wf t" "no_frame tail" "list_all2 tlv_reads ts rs"
    using assms(2) by (auto simp: stream_reads_def)
  have "ts \<noteq> []" using ts(1,3) assms(1) by (auto simp: no_frame_def)
  then obtain t' ts' where c: "ts = t' # ts'" by (cases ts) auto
  then have f: "tlv_frame t = tlv_frame t' @ concat (map tlv_frame ts') @ tail" and wf: "tlv_wf t'" using ts by auto
  have "\<not> length (tlv_frame t') < length (tlv_frame t)"
  proof
    assume "length (tlv_frame t') < length (tlv_frame t)"
    from no_frame_cut [OF assms(1) this] f have "no_frame (tlv_frame t')" by simp
    with wf show False by (auto simp: no_frame_def)
  qed
  with f have rest: "concat (map tlv_frame ts') = []" and same: "tlv_frame t = tlv_frame t'" using arg_cong [OF f, of length] by auto
  have "ts' = []" using rest by (cases ts') (auto simp: tlv_frame_def tlv_bytes_def)
  moreover have "tlv_tag t' = tlv_tag t" "tlv_val t' = tlv_val t" using same by (auto simp: tlv_frame_def tlv_bytes_def)
  ultimately show ?thesis using ts(4) c by (auto simp: list_all2_Cons1 tlv_reads_def cong: sum.case_cong)
qed

text \<open>A file that holds the bytes.\<close>

definition plain_file :: "u8 list \<Rightarrow> c_file" where
  "plain_file bs = \<lparr>f_seek_end = True, f_tell = int (length bs), f_seek_set = True, f_data = bs\<rparr>"

lemma file_bytes_plain: "fs p = Some (plain_file bs) \<Longrightarrow> length bs \<le> max_file \<Longrightarrow> file_bytes fs (Some p) max_file = Ok bs"
  by (simp add: file_bytes_def plain_file_def)

text \<open>A file with one heartbeat record, for the examples.\<close>

definition beat_stream :: "u8 list" where
  "beat_stream = tlv_frame (rec_tlv (VHeartbeat \<lparr>hb_uptime_s = 60, hb_seq = 1\<rparr>))"

definition beat_files :: files where
  "beat_files path = (if path = ''beat.dtl'' then Some (plain_file (stored_container 1 beat_stream)) else None)"

lemma length_beat_stream: "length beat_stream = 11"
  by (simp add: beat_stream_def)

lemma beat_file: "file_bytes beat_files (Some ''beat.dtl'') 4096 = Ok (stored_container 1 beat_stream)"
  by (rule file_bytes_plain) (simp_all add: beat_files_def stored_container_def length_beat_stream)

lemma beat_safe: "file_bytes beat_files (Some ''beat.dtl'') 4096 = Ok data \<Longrightarrow> decodes_safely data"
  using stored_container_safe [of beat_stream 1] by (simp add: beat_file length_beat_stream)

end
