(* ===== verification/Report_Base.thy ===== *)
theory Report_Base
  imports Report_Walk_Spec Writer_Spec "HOL-Library.Sublist"
begin

text \<open>
  What the reports share: the arena a report allocates from, the growing arrays of
  \<^verbatim>\<open>src/report/\<close> and the conversions of \<open>printf\<close> they use.

  A report keeps a pointer to an arena.  It is either the arena of the walk itself or one of its own
  (the callers of \<open>dtl_walk_file\<close>, whose walk runs on a private arena).  The elements of a growing
  array are a list; its capacity is a number, kept because it decides when the array is reallocated.
  Element counts and byte sizes are natural numbers: a capacity is at most twice the number of records
  of a container plus a constant, so the products of the code stay far below \<open>SIZE_MAX\<close>.
\<close>

datatype arena_ref = Walk_Arena | Own_Arena dtl_arena

fun ref_alloc :: "arena_ref \<Rightarrow> nat \<Rightarrow> (addr option \<times> arena_ref) wm" where
  "ref_alloc Walk_Arena n = wbind (w_arena_alloc n) (\<lambda>p. wret (p, Walk_Arena))"
| "ref_alloc (Own_Arena a) n = (\<lambda>w. case dtl_arena_alloc (w_mem w) a n of
     (p, a, m) \<Rightarrow> (Ok (p, Own_Arena a), w\<lparr>w_mem := m\<rparr>))"

text \<open>
  Room for one more element in an array of \<open>count\<close> elements of \<open>elem\<close> bytes: the capacity after the
  call, or \<open>None\<close> when the array is full and cannot grow.
\<close>

definition vec_reserve :: "nat \<Rightarrow> nat \<Rightarrow> nat \<Rightarrow> nat \<Rightarrow> arena_ref \<Rightarrow> (nat option \<times> arena_ref) wm" where
  "vec_reserve start elem count cap a =
     (if count = cap
      then let new_cap = (if cap \<noteq> 0 then cap * 2 else start)
           in wbind (ref_alloc a (new_cap * elem)) (\<lambda>(p, a).
              wret (case p of None \<Rightarrow> None | Some _ \<Rightarrow> Some new_cap, a))
      else wret (Some cap, a))"

lemma ref_alloc_valid: "wvalid (ext m0) (ref_alloc a n) (\<lambda>_. ext m0) E"
proof (rule wvalidI)
  fix w assume w: "world_ok w" "ext m0 w"
  note ok = world_ok_mem [OF w(1)]
  show "wpost (\<lambda>_. ext m0) E (ref_alloc a n w)"
  proof (cases a)
    case Walk_Arena
    obtain p b m where al: "dtl_arena_alloc (w_mem w) (w_arena w) n = (p, b, m)" using prod_cases3 by blast
    then show ?thesis
      using Walk_Arena world_ok_arena_alloc [OF w(1) al] heap_ext_trans [OF w(2) arena_alloc_ext [OF ok al]]
      by (simp add: wbind_def w_arena_alloc_def wret_def)
  next
    case (Own_Arena b)
    obtain p b' m where al: "dtl_arena_alloc (w_mem w) b n = (p, b', m)" using prod_cases3 by blast
    then show ?thesis
      using Own_Arena arena_alloc_ext [OF ok al] world_ok_ext [OF w(1)] heap_ext_trans [OF w(2)] by simp
  qed
qed

lemma vec_reserve_valid: "wvalid (ext m0) (vec_reserve start elem count cap a) (\<lambda>_. ext m0) E"
  unfolding vec_reserve_def Let_def
  by (rule wvalid_if, rule wvalid_bind [OF ref_alloc_valid]) (auto intro!: wvalid_ret)

text \<open>A triple for every heap the run extends, applied to the heap it starts from.\<close>

lemma wvalid_snapshot:
  assumes "\<And>m0. mem_ok m0 \<Longrightarrow> P m0 \<Longrightarrow> wvalid (ext m0) f (\<lambda>x w. ext m0 w \<and> Q x) E"
  shows "wvalid (\<lambda>w. P (w_mem w)) f (\<lambda>x w. Q x) E"
proof (rule wvalidI)
  fix w assume w: "world_ok w" "P (w_mem w)"
  note ok = world_ok_mem [OF w(1)]
  show "wpost (\<lambda>x w. Q x) E (f w)"
    by (rule wpost_mono [OF wvalidD [OF assms [OF ok w(2)] w(1) heap_ext_refl [OF ok]]]) simp_all
qed

lemma wvalid_any:
  assumes "\<And>m0. wvalid (ext m0) f (\<lambda>_. ext m0) E"
  shows "wvalid P f (\<lambda>_ _. True) E"
proof -
  have "wvalid (\<lambda>w. (\<lambda>_. True) (w_mem w)) f (\<lambda>x w. (\<lambda>_. True) x) E"
    by (rule wvalid_snapshot) (simp add: assms)
  then show ?thesis by (rule wvalid_weaken) simp_all
qed

lemmas ref_alloc_any = wvalid_any [OF ref_alloc_valid]
lemmas vec_reserve_any = wvalid_any [OF vec_reserve_valid]

text \<open>Decimal and hexadecimal digits.\<close>

definition digit :: "nat \<Rightarrow> char" where
  "digit d = char_of (if d < 10 then 48 + d else 87 + d)"

fun digits :: "nat \<Rightarrow> nat \<Rightarrow> string" where
  "digits b n = (if n < b \<or> b < 2 then [digit n] else digits b (n div b) @ [digit (n mod b)])"

declare digits.simps [simp del]

definition fmt_u :: "nat \<Rightarrow> string" where "fmt_u n = digits 10 n"

definition fmt_d :: "int \<Rightarrow> string" where "fmt_d i = (if i < 0 then ''-'' @ fmt_u (nat (- i)) else fmt_u (nat i))"

definition fmt_x :: "nat \<Rightarrow> nat \<Rightarrow> string" where
  "fmt_x width n = replicate (width - length (digits 16 n)) CHR ''0'' @ digits 16 n"

text \<open>What \<open>snprintf\<close> leaves in a buffer of \<open>cap\<close> bytes.\<close>

definition snprintf_buf :: "nat \<Rightarrow> string \<Rightarrow> string" where
  "snprintf_buf cap s = take (cap - 1) s"

end
