(* ===== verification/Report_Index.thy ===== *)
theory Report_Index
  imports Report_Base
begin

text \<open>
  \<^verbatim>\<open>src/report/index.c\<close>: the tag index over a container.  The chunk list hanging off \<open>head\<close> is the
  list of its chunks, a chunk the list of the \<open>count\<close> entries it holds; \<open>tail\<close> is the last chunk.  The
  index allocates from the caller's arena, which is not the arena of the walk.  The index is a client of the walk that refines a plain list of entries.
\<close>

record dtl_index_entry =
  ie_tag :: u8
  ie_section_index :: u16
  ie_record_in_sec :: u32
  ie_record_index :: u32

type_synonym dtl_index_chunk = "dtl_index_entry list"

record dtl_index =
  ix_a :: arena_ref
  ix_chunks :: "dtl_index_chunk list"
  ix_total :: nat
  ix_per_tag :: "u8 \<Rightarrow> nat"

definition sizeof_index_chunk :: nat where "sizeof_index_chunk = 256 * 12 + 8 + 8"

text \<open>The chunk at \<open>tail\<close> with room for one more entry: an error code and the index.\<close>

definition index_room :: "dtl_index \<Rightarrow> (dtl_err \<times> dtl_index) wm" where
  "index_room idx =
     (if ix_chunks idx = [] \<or> length (last (ix_chunks idx)) = 256
      then wbind (ref_alloc (ix_a idx) sizeof_index_chunk) (\<lambda>(ch, a).
           case ch of None \<Rightarrow> wret (DTL_ERR_OOM, idx\<lparr>ix_a := a\<rparr>)
           | Some _ \<Rightarrow> wret (DTL_OK, idx\<lparr>ix_a := a, ix_chunks := ix_chunks idx @ [[]]\<rparr>))
      else wret (DTL_OK, idx))"

definition dtl_index_append :: "dtl_index \<Rightarrow> dtl_record dtl_walk_event \<Rightarrow> (dtl_err \<times> dtl_index) wm" where
  "dtl_index_append idx ev =
     wbind (index_room idx) (\<lambda>(rc, idx).
     if rc \<noteq> DTL_OK then wret (rc, idx)
     else let e = \<lparr>ie_tag = rec_tag (we_rec ev), ie_section_index = we_section_index ev,
                   ie_record_in_sec = of_nat (we_record_in_sec ev), ie_record_index = of_nat (we_record_index ev)\<rparr>
          in wret (DTL_OK, idx\<lparr>ix_chunks := butlast (ix_chunks idx) @ [last (ix_chunks idx) @ [e]],
                               ix_per_tag := (ix_per_tag idx)(ie_tag e := ix_per_tag idx (ie_tag e) + 1),
                               ix_total := ix_total idx + 1\<rparr>))"

definition dtl_index_on_record :: "dtl_index walk_fn" where
  "dtl_index_on_record ev user = dtl_index_append user ev"

definition index_zero :: "dtl_arena \<Rightarrow> dtl_index" where
  "index_zero a = \<lparr>ix_a = Own_Arena a, ix_chunks = [], ix_total = 0, ix_per_tag = (\<lambda>_. 0)\<rparr>"

definition dtl_index_build :: "files \<Rightarrow> string option \<Rightarrow> nat \<Rightarrow> dtl_arena \<Rightarrow> (dtl_err \<times> dtl_index) wm" where
  "dtl_index_build fs path max_file a =
     dtl_walk_file fs path max_file (walk_with dtl_index_on_record None 0) (index_zero a)"

text \<open>The scan: the number of matches and the state of the callback, which may be missing.\<close>

fun index_scan :: "u8 \<Rightarrow> (dtl_index_entry \<Rightarrow> 'u \<Rightarrow> 'u) option \<Rightarrow> dtl_index_entry list \<Rightarrow> nat \<times> 'u \<Rightarrow> nat \<times> 'u" where
  "index_scan tag cb [] st = st"
| "index_scan tag cb (e # es) (matched, user) =
     index_scan tag cb es
       (if ie_tag e = tag
        then (matched + 1, case cb of None \<Rightarrow> user | Some f \<Rightarrow> f e user)
        else (matched, user))"

definition dtl_index_foreach_tag :: "dtl_index \<Rightarrow> u8 \<Rightarrow> (dtl_index_entry \<Rightarrow> 'u \<Rightarrow> 'u) option \<Rightarrow> 'u \<Rightarrow> nat \<times> 'u" where
  "dtl_index_foreach_tag idx tag cb user = fold (index_scan tag cb) (ix_chunks idx) (0, user)"

subsection \<open>The entries of an index\<close>

definition entry_of :: "rec_val dtl_walk_event \<Rightarrow> dtl_index_entry" where
  "entry_of ev = \<lparr>ie_tag = val_tag (we_rec ev), ie_section_index = we_section_index ev,
     ie_record_in_sec = of_nat (we_record_in_sec ev), ie_record_index = of_nat (we_record_index ev)\<rparr>"

fun index_step :: "walk_item \<Rightarrow> dtl_index_entry list \<Rightarrow> dtl_index_entry list" where
  "index_step (Seen ev) es = es @ [entry_of ev]"
| "index_step (Failed e) es = es"

definition seen_entries :: "walk_item list \<Rightarrow> dtl_index_entry list" where
  "seen_entries items = concat (map (\<lambda>x. case x of Seen ev \<Rightarrow> [entry_of ev] | Failed _ \<Rightarrow> []) items)"

definition tag_count :: "u8 \<Rightarrow> dtl_index_entry list \<Rightarrow> nat" where
  "tag_count t es = length (filter (\<lambda>e. ie_tag e = t) es)"

definition index_rel :: "dtl_index \<Rightarrow> dtl_index_entry list \<Rightarrow> bool" where
  "index_rel idx es \<longleftrightarrow> concat (ix_chunks idx) = es \<and> (\<forall>c \<in> set (ix_chunks idx). length c \<le> 256) \<and>
     ix_total idx = length es \<and> (\<forall>t. ix_per_tag idx t = tag_count t es)"

lemma index_steps: "fold index_step items es = es @ seen_entries items"
  by (induction items arbitrary: es rule: rev_induct) (auto simp: seen_entries_def split: walk_item.splits)

lemma index_scan_filter:
  "index_scan tag cb es (n, u) = (n + tag_count tag es, fold (case cb of None \<Rightarrow> \<lambda>_ u. u | Some f \<Rightarrow> f) (filter (\<lambda>e. ie_tag e = tag) es) u)"
  by (induction es arbitrary: n u) (auto simp: tag_count_def split: option.splits)

lemma index_scan_append: "index_scan tag cb (xs @ ys) st = index_scan tag cb ys (index_scan tag cb xs st)"
  by (induction tag cb xs st rule: index_scan.induct) auto

lemma foreach_scan: "dtl_index_foreach_tag idx tag cb u = index_scan tag cb (concat (ix_chunks idx)) (0, u)"
proof -
  have "fold (index_scan tag cb) cs st = index_scan tag cb (concat cs) st" for cs st
    by (induction cs arbitrary: st) (simp_all add: index_scan_append)
  then show ?thesis by (simp add: dtl_index_foreach_tag_def)
qed

text \<open>After making room, the entries are the same and the last chunk is not full.\<close>

lemma index_room_valid:
  assumes "index_rel idx es"
  shows "wvalid P (index_room idx) (\<lambda>(rc, idx') w. rc = DTL_ERR_OOM \<or> rc = DTL_OK \<and> index_rel idx' es \<and>
    ix_chunks idx' \<noteq> [] \<and> length (last (ix_chunks idx')) < 256) E"
proof -
  have grown: "index_rel (idx\<lparr>ix_a := a, ix_chunks := ix_chunks idx @ [[]]\<rparr>) es"
    "ix_chunks idx = [] \<Longrightarrow> index_rel (idx\<lparr>ix_a := a, ix_chunks := [[]]\<rparr>) es" for a
    using assms by (simp_all add: index_rel_def)
  have full: "length (last (ix_chunks idx)) < 256" if "ix_chunks idx \<noteq> []" "length (last (ix_chunks idx)) \<noteq> 256"
    using assms last_in_set [OF that(1)] that(2) by (fastforce simp: index_rel_def)
  show ?thesis
    unfolding index_room_def
    by (rule wvalid_if, rule wvalid_bind [OF ref_alloc_any])
      (auto intro!: wvalid_ret simp: grown assms full split: option.splits)
qed

lemma index_append_rel:
  assumes "index_rel idx es" "ix_chunks idx \<noteq> []" "length (last (ix_chunks idx)) < 256"
  shows "index_rel (idx\<lparr>ix_chunks := butlast (ix_chunks idx) @ [last (ix_chunks idx) @ [e]],
     ix_per_tag := (ix_per_tag idx)(ie_tag e := ix_per_tag idx (ie_tag e) + 1), ix_total := ix_total idx + 1\<rparr>) (es @ [e])"
proof -
  have "concat (ix_chunks idx) = concat (butlast (ix_chunks idx)) @ last (ix_chunks idx)"
    using append_butlast_last_id [OF assms(2)] by (metis append_Nil2 concat.simps concat_append)
  with assms show ?thesis by (auto simp: index_rel_def tag_count_def dest: in_set_butlastD)
qed

interpretation index: walk_client dtl_index_on_record None index_rel index_step
proof unfold_locales
  fix u es r v sec si n i assume rel: "index_rel u es"
  let ?e = "entry_of (mk_event sec si n i v)"
  have eq: "dtl_index_append u (mk_event sec si n i r) = wbind (index_room u) (\<lambda>(rc, idx).
      if rc \<noteq> DTL_OK then wret (rc, idx)
      else wret (DTL_OK, idx\<lparr>ix_chunks := butlast (ix_chunks idx) @ [last (ix_chunks idx) @ [?e]],
                             ix_per_tag := (ix_per_tag idx)(ie_tag ?e := ix_per_tag idx (ie_tag ?e) + 1),
                             ix_total := ix_total idx + 1\<rparr>))" if "rec_tag r = val_tag v"
    by (simp add: dtl_index_append_def entry_of_def mk_event_def that Let_def cong: if_cong)
  show "wvalid (\<lambda>w. record_view (w_mem w) r = Ok v) (dtl_index_on_record (mk_event sec si n i r) u)
      (\<lambda>(rc, u') w. rc = DTL_OK \<and> index_rel u' (index_step (Seen (mk_event sec si n i v)) es) \<or> rc = DTL_ERR_OOM) (\<lambda>_. False)"
  proof (rule wvalid_pre [where P' = "\<lambda>w. rec_tag r = val_tag v \<and> True"], simp add: record_view_tag, rule wvalid_conj)
    assume tag: "rec_tag r = val_tag v"
    show "wvalid (\<lambda>_. True) (dtl_index_on_record (mk_event sec si n i r) u)
        (\<lambda>(rc, u') w. rc = DTL_OK \<and> index_rel u' (index_step (Seen (mk_event sec si n i v)) es) \<or> rc = DTL_ERR_OOM) (\<lambda>_. False)"
      unfolding dtl_index_on_record_def index_step.simps eq [OF tag]
      by (rule wvalid_bind [OF index_room_valid [OF rel]], rule wvalid_pair, rule wvalid_given, rule wvalid_if; rule wvalid_ret)
        (auto intro: index_append_rel [simplified])
  qed
qed simp_all



end
