(* ===== verification/Report_Validate.thy ===== *)
theory Report_Validate
  imports Report_Base
begin

text \<open>
  \<^verbatim>\<open>src/report/validate.c\<close>: the validator.  It is a client of the walk whose report collects issues;
  an issue that finds no memory is dropped, as the code does, so a report refines a sublist of the
  issues of the container: what it lists is real, in order and counted right.
\<close>

datatype dtl_validate_severity = DTL_VALIDATE_INFO | DTL_VALIDATE_WARNING | DTL_VALIDATE_ERROR

record dtl_issue =
  is_severity :: dtl_validate_severity
  is_section_index :: u16
  is_record_in_sec :: nat
  is_message :: string

record dtl_validate_report =
  vr_issues :: "dtl_issue list"
  vr_issue_cap :: nat
  vr_records_checked :: nat
  vr_sections_checked :: nat
  vr_error_count :: nat
  vr_warning_count :: nat
  vr_a :: arena_ref

definition sizeof_issue :: nat where "sizeof_issue = 112"

definition dtl_validate_add :: "dtl_validate_severity \<Rightarrow> u16 \<Rightarrow> nat \<Rightarrow> string \<Rightarrow> dtl_validate_report \<Rightarrow>
    dtl_validate_report wm" where
  "dtl_validate_add sev section_index record_in_sec msg rep =
     wbind (vec_reserve 32 sizeof_issue (length (vr_issues rep)) (vr_issue_cap rep) (vr_a rep)) (\<lambda>(cap, a).
     case cap of None \<Rightarrow> wret (rep\<lparr>vr_a := a\<rparr>)
     | Some cap \<Rightarrow>
         wret (rep\<lparr>vr_a := a, vr_issue_cap := cap,
                   vr_issues := vr_issues rep @ [\<lparr>is_severity = sev, is_section_index = section_index,
                     is_record_in_sec = record_in_sec, is_message = snprintf_buf 96 msg\<rparr>],
                   vr_error_count := vr_error_count rep + (if sev = DTL_VALIDATE_ERROR then 1 else 0),
                   vr_warning_count := vr_warning_count rep + (if sev = DTL_VALIDATE_WARNING then 1 else 0)\<rparr>))"

definition add_when :: "bool \<Rightarrow> dtl_validate_severity \<Rightarrow> u16 \<Rightarrow> nat \<Rightarrow> string \<Rightarrow> dtl_validate_report \<Rightarrow>
    dtl_validate_report wm" where
  "add_when c sev si n msg rep = (if c then dtl_validate_add sev si n msg rep else wret rep)"

text \<open>The loop over the pairs of a configuration: \<open>pairs[i].key[0]\<close> is read from the heap.\<close>

fun validate_pairs :: "u16 \<Rightarrow> nat \<Rightarrow> nat \<Rightarrow> (addr \<times> addr) list \<Rightarrow> dtl_validate_report \<Rightarrow> dtl_validate_report wm" where
  "validate_pairs si n i [] rep = wret rep"
| "validate_pairs si n i ((k, v) # kvs) rep =
     wbind (\<lambda>w. (load_bytes (w_mem w) k 1, w)) (\<lambda>c.
     wbind (add_when (c = [0]) DTL_VALIDATE_ERROR si n (''config pair '' @ fmt_u i @ '' has empty key'') rep)
       (validate_pairs si n (i + 1) kvs))"

fun dtl_validate_record :: "u16 \<Rightarrow> nat \<Rightarrow> dtl_record \<Rightarrow> dtl_validate_report \<Rightarrow> dtl_validate_report wm" where
  "dtl_validate_record si n (RHeartbeat h) rep =
     add_when (hb_seq h = 0) DTL_VALIDATE_WARNING si n ''heartbeat with seq 0'' rep"
| "dtl_validate_record si n (RSensor s) rep =
     add_when (sen_count s = 0) DTL_VALIDATE_INFO si n ''sensor record with no samples'' rep"
| "dtl_validate_record si n (REvent e) rep =
     add_when (ev_payload_len e = 0) DTL_VALIDATE_WARNING si n
       (''event 0x'' @ fmt_x 4 (unat (ev_code e)) @ '' with empty payload'') rep"
| "dtl_validate_record si n (RDiag d) rep =
     add_when (dg_blob_len d = 0 \<and> dg_redacted d = 0) DTL_VALIDATE_WARNING si n
       (''diag subsystem '' @ fmt_u (unat (dg_subsystem d)) @ '' with empty blob'') rep"
| "dtl_validate_record si n (RGeo g) rep =
     wbind (add_when (sint (geo_lat_e7 g) > 900000000 \<or> sint (geo_lat_e7 g) < - 900000000) DTL_VALIDATE_ERROR si n
       (''latitude '' @ fmt_d (sint (geo_lat_e7 g)) @ '' out of range'') rep)
     (add_when (sint (geo_lon_e7 g) > 1800000000 \<or> sint (geo_lon_e7 g) < - 1800000000) DTL_VALIDATE_ERROR si n
       (''longitude '' @ fmt_d (sint (geo_lon_e7 g)) @ '' out of range''))"
| "dtl_validate_record si n (RBattery b) rep =
     add_when (bat_pct b > 100) DTL_VALIDATE_ERROR si n
       (''battery pct '' @ fmt_u (unat (bat_pct b)) @ '' over 100'') rep"
| "dtl_validate_record si n (RNet t) rep =
     wbind (add_when (net_rx_pkts t = 0 \<and> net_rx_bytes t \<noteq> 0) DTL_VALIDATE_WARNING si n
       ''rx_bytes nonzero with zero rx_pkts'' rep)
     (add_when (net_tx_pkts t = 0 \<and> net_tx_bytes t \<noteq> 0) DTL_VALIDATE_WARNING si n
       ''tx_bytes nonzero with zero tx_pkts'')"
| "dtl_validate_record si n (RLog l) rep =
     wbind (add_when (log_severity l > 7) DTL_VALIDATE_WARNING si n
       (''log severity '' @ fmt_u (unat (log_severity l)) @ '' above syslog range'') rep)
     (add_when (log_msg_len l = 0) DTL_VALIDATE_INFO si n ''empty log message'')"
| "dtl_validate_record si n (RConfig c) rep =
     wbind (wlift (slice_at (cfg_pairs c) 0 (unat (cfg_pair_count c)))) (\<lambda>kvs. validate_pairs si n 0 kvs rep)"
| "dtl_validate_record si n (RKeyref k) rep =
     add_when (kr_slot_id k = 0) DTL_VALIDATE_WARNING si n ''keyref references reserved slot 0'' rep"
| "dtl_validate_record si n (RFirmware f) rep =
     add_when (fw_major f = 0 \<and> fw_minor f = 0 \<and> fw_patch f = 0) DTL_VALIDATE_WARNING si n ''firmware version 0.0.0'' rep"

definition dtl_validate_on_record :: "dtl_validate_report walk_fn" where
  "dtl_validate_on_record ev rep =
     wbind (dtl_validate_record (we_section_index ev) (we_record_in_sec ev) (we_rec ev)
              (rep\<lparr>vr_records_checked := vr_records_checked rep + 1\<rparr>)) (\<lambda>rep. wret (DTL_OK, rep))"

definition dtl_validate_on_error :: "dtl_validate_report walk_error_fn" where
  "dtl_validate_on_error we rep =
     dtl_validate_add DTL_VALIDATE_ERROR (wx_section_index we) (wx_record_in_sec we)
       (''decode/parse failure: '' @ dtl_strerror (wx_rc we)) rep"

definition dtl_validate_setup :: "arena_ref \<Rightarrow> dtl_validate_report \<times> dtl_validate_report dtl_walk" where
  "dtl_validate_setup a =
     (\<lparr>vr_issues = [], vr_issue_cap = 0, vr_records_checked = 0, vr_sections_checked = 0, vr_error_count = 0,
       vr_warning_count = 0, vr_a = a\<rparr>, walk_with dtl_validate_on_record (Some dtl_validate_on_error) 0)"

definition dtl_validate_finish :: "dtl_err \<times> dtl_validate_report \<Rightarrow> (dtl_err \<times> dtl_validate_report) wm" where
  "dtl_validate_finish = (\<lambda>(rc, rep).
     if rc \<noteq> DTL_OK
     then wbind (dtl_validate_add DTL_VALIDATE_ERROR 0 0 (''container rejected: '' @ dtl_strerror rc) rep)
            (\<lambda>rep. wret (DTL_OK, rep))
     else wret (DTL_OK, rep))"

definition dtl_validate_file :: "files \<Rightarrow> string option \<Rightarrow> nat \<Rightarrow> dtl_arena \<Rightarrow> (dtl_err \<times> dtl_validate_report) wm" where
  "dtl_validate_file fs path max_file a =
     (case dtl_validate_setup (Own_Arena a) of (report, w) \<Rightarrow>
        wbind (dtl_walk_file fs path max_file w report) dtl_validate_finish)"

definition dtl_validate_memory :: "u8 list \<Rightarrow> (dtl_err \<times> dtl_validate_report) wm" where
  "dtl_validate_memory data =
     (case dtl_validate_setup Walk_Arena of (report, w) \<Rightarrow>
        wbind (dtl_walk_memory data w report) dtl_validate_finish)"

subsection \<open>The issues of a container\<close>

text \<open>What the checks say of a value, as a list of severities and messages.\<close>

fun pair_findings :: "nat \<Rightarrow> (u8 list \<times> u8 list) list \<Rightarrow> (dtl_validate_severity \<times> string) list" where
  "pair_findings i [] = []"
| "pair_findings i ((k, v) # kvs) =
     (if k = [] then [(DTL_VALIDATE_ERROR, ''config pair '' @ fmt_u i @ '' has empty key'')] else []) @ pair_findings (i + 1) kvs"

definition finding :: "bool \<Rightarrow> dtl_validate_severity \<Rightarrow> string \<Rightarrow> (dtl_validate_severity \<times> string) list" where
  "finding c sev msg = (if c then [(sev, msg)] else [])"

fun findings_of :: "rec_val \<Rightarrow> (dtl_validate_severity \<times> string) list" where
  "findings_of (VHeartbeat h) = finding (hb_seq h = 0) DTL_VALIDATE_WARNING ''heartbeat with seq 0''"
| "findings_of (VSensor i bs) = finding (bs = []) DTL_VALIDATE_INFO ''sensor record with no samples''"
| "findings_of (VEvent c bs) = finding (bs = []) DTL_VALIDATE_WARNING (''event 0x'' @ fmt_x 4 (unat c) @ '' with empty payload'')"
| "findings_of (VDiag c bs) = finding (bs = []) DTL_VALIDATE_WARNING (''diag subsystem '' @ fmt_u (unat c) @ '' with empty blob'')"
| "findings_of (VGeo g) =
     finding (\<bar>sint (geo_lat_e7 g)\<bar> > 900000000) DTL_VALIDATE_ERROR (''latitude '' @ fmt_d (sint (geo_lat_e7 g)) @ '' out of range'') @
     finding (\<bar>sint (geo_lon_e7 g)\<bar> > 1800000000) DTL_VALIDATE_ERROR (''longitude '' @ fmt_d (sint (geo_lon_e7 g)) @ '' out of range'')"
| "findings_of (VBattery b) = finding (bat_pct b > 100) DTL_VALIDATE_ERROR (''battery pct '' @ fmt_u (unat (bat_pct b)) @ '' over 100'')"
| "findings_of (VNet t) =
     finding (net_rx_pkts t = 0 \<and> net_rx_bytes t \<noteq> 0) DTL_VALIDATE_WARNING ''rx_bytes nonzero with zero rx_pkts'' @
     finding (net_tx_pkts t = 0 \<and> net_tx_bytes t \<noteq> 0) DTL_VALIDATE_WARNING ''tx_bytes nonzero with zero tx_pkts''"
| "findings_of (VLog s bs) =
     finding (s > 7) DTL_VALIDATE_WARNING (''log severity '' @ fmt_u (unat s) @ '' above syslog range'') @
     finding (bs = []) DTL_VALIDATE_INFO ''empty log message''"
| "findings_of (VConfig kvs) = pair_findings 0 kvs"
| "findings_of (VKeyref s bs) = finding (s = 0) DTL_VALIDATE_WARNING ''keyref references reserved slot 0''"
| "findings_of (VFirmware f) = finding (fw_major f = 0 \<and> fw_minor f = 0 \<and> fw_patch f = 0) DTL_VALIDATE_WARNING ''firmware version 0.0.0''"

definition issue_at :: "u16 \<Rightarrow> nat \<Rightarrow> dtl_validate_severity \<times> string \<Rightarrow> dtl_issue" where
  "issue_at si n f = \<lparr>is_severity = fst f, is_section_index = si, is_record_in_sec = n, is_message = snprintf_buf 96 (snd f)\<rparr>"

fun item_issues :: "walk_item \<Rightarrow> dtl_issue list" where
  "item_issues (Seen ev) = map (issue_at (we_section_index ev) (we_record_in_sec ev)) (findings_of (we_rec ev))"
| "item_issues (Failed e) = [issue_at (wx_section_index e) (wx_record_in_sec e)
     (DTL_VALIDATE_ERROR, ''decode/parse failure: '' @ dtl_strerror (wx_rc e))]"

definition count_sev :: "dtl_validate_severity \<Rightarrow> dtl_issue list \<Rightarrow> nat" where
  "count_sev sev is = length (filter (\<lambda>x. is_severity x = sev) is)"

text \<open>The abstract state: the number of records, and the issues a validator with memory to spare lists.\<close>

definition report_rel :: "dtl_validate_report \<Rightarrow> nat \<times> dtl_issue list \<Rightarrow> bool" where
  "report_rel rep s \<longleftrightarrow> vr_records_checked rep = fst s \<and> subseq (vr_issues rep) (snd s) \<and>
     vr_error_count rep = count_sev DTL_VALIDATE_ERROR (vr_issues rep) \<and>
     vr_warning_count rep = count_sev DTL_VALIDATE_WARNING (vr_issues rep)"

fun validate_step :: "walk_item \<Rightarrow> nat \<times> dtl_issue list \<Rightarrow> nat \<times> dtl_issue list" where
  "validate_step (Seen ev) (k, is) = (k + 1, is @ item_issues (Seen ev))"
| "validate_step (Failed e) (k, is) = (k, is @ item_issues (Failed e))"

lemma report_rel_drop: "report_rel rep (k, is) \<Longrightarrow> report_rel (rep\<lparr>vr_a := a\<rparr>) (k, is @ js)"
  by (auto simp: report_rel_def intro: subseq_rev_drop_many)

lemma report_rel_add:
  "report_rel rep (k, is) \<Longrightarrow> report_rel (rep\<lparr>vr_a := a, vr_issue_cap := c, vr_issues := vr_issues rep @ [x],
     vr_error_count := vr_error_count rep + (if is_severity x = DTL_VALIDATE_ERROR then 1 else 0),
     vr_warning_count := vr_warning_count rep + (if is_severity x = DTL_VALIDATE_WARNING then 1 else 0)\<rparr>) (k, is @ [x])"
  by (auto simp: report_rel_def count_sev_def intro: list_emb_append_mono)

lemma validate_add_valid:
  assumes "report_rel rep (k, is)"
  shows "wvalid (ext m0) (dtl_validate_add sev si n msg rep)
    (\<lambda>rep' w. ext m0 w \<and> report_rel rep' (k, is @ [issue_at si n (sev, msg)])) E"
  unfolding dtl_validate_add_def
  by (rule wvalid_bind [OF vec_reserve_valid])
    (use report_rel_add [OF assms, where x = "issue_at si n (sev, msg)"] in
     \<open>auto intro!: wvalid_ret simp: report_rel_drop [OF assms] issue_at_def split: option.splits prod.splits\<close>)

lemma add_when_valid:
  assumes "report_rel rep (k, is)" "c \<longleftrightarrow> c'"
  shows "wvalid (ext m0) (add_when c sev si n msg rep)
    (\<lambda>rep' w. ext m0 w \<and> report_rel rep' (k, is @ map (issue_at si n) (finding c' sev msg))) E"
  using validate_add_valid [OF assms(1)] assms by (auto simp: add_when_def finding_def intro: wvalid_ret)

lemma add_both_valid:
  assumes "report_rel rep (k, is)" "c \<longleftrightarrow> c'" "d \<longleftrightarrow> d'"
  shows "wvalid (ext m0) (wbind (add_when c sev si n msg rep) (add_when d sev2 si n msg2))
    (\<lambda>rep' w. ext m0 w \<and> report_rel rep' (k, is @ map (issue_at si n) (finding c' sev msg @ finding d' sev2 msg2))) E"
proof (rule wvalid_bind [OF add_when_valid [OF assms(1,2)]])
  fix rep'
  let ?is = "is @ map (issue_at si n) (finding c' sev msg)"
  show "wvalid (\<lambda>w. ext m0 w \<and> report_rel rep' (k, ?is)) (add_when d sev2 si n msg2 rep')
      (\<lambda>rep' w. ext m0 w \<and> report_rel rep' (k, is @ map (issue_at si n) (finding c' sev msg @ finding d' sev2 msg2))) E"
    using add_when_valid [of rep' k ?is d d' m0 sev2 si n msg2 E] assms(3) by (auto simp: wvalid_def)
qed

lemma load_first_byte:
  assumes "load_cstr m p = Ok s"
  shows "\<exists>c. load_bytes m p 1 = Ok [c] \<and> (c = 0 \<longleftrightarrow> s = [])"
proof -
  obtain cs where cs: "m_objs m (fst p) = Some cs" "cstr_cells (drop (snd p) cs) = Ok s" "snd p \<le> length cs"
    using assms by (auto simp: load_cstr_def split: option.splits if_splits)
  then obtain c r where "drop (snd p) cs = Some c # r" "c = 0 \<longleftrightarrow> s = []"
    by (cases "drop (snd p) cs" rule: cstr_cells.cases) (auto simp: rbind_eq_Ok_iff split: if_splits)
  moreover from this(1) have "snd p < length cs" by (metis drop_eq_Nil2 leI list.distinct(1))
  ultimately show ?thesis using cs(1) by (simp add: load_bytes_def)
qed

lemma deref_empty:
  "deref_bytes m p (unat x) = Ok bs \<Longrightarrow> x = 0 \<longleftrightarrow> bs = []" "deref_bytes m p (unat x * 4) = Ok bs \<Longrightarrow> x = 0 \<longleftrightarrow> bs = []"
  using deref_bytes_length [of m p "unat x" bs] deref_bytes_length [of m p "unat x * 4" bs] by (auto simp: unat_eq_zero)

lemma validate_pairs_valid:
  assumes "mem_ok m0" "deref_pairs m0 kvs = Ok vs" "report_rel rep (k, is)"
  shows "wvalid (ext m0) (validate_pairs si n i kvs rep)
    (\<lambda>rep' w. ext m0 w \<and> report_rel rep' (k, is @ map (issue_at si n) (pair_findings i vs))) E"
  using assms(2,3)
proof (induction kvs arbitrary: vs rep i "is")
  case Nil
  then show ?case by (auto intro: wvalid_ret)
next
  case (Cons kv kvs)
  obtain a b where kv: "kv = (a, b)" by (cases kv)
  obtain ks vs' ws where d: "load_cstr m0 a = Ok ks" "deref_pairs m0 kvs = Ok ws" "vs = (ks, vs') # ws"
    using Cons.prems(1) kv by (auto simp: rbind_eq_Ok_iff)
  obtain c where c: "load_bytes m0 a 1 = Ok [c]" "c = 0 \<longleftrightarrow> ks = []" using load_first_byte [OF d(1)] by auto
  let ?f = "finding (ks = []) DTL_VALIDATE_ERROR (''config pair '' @ fmt_u i @ '' has empty key'')"
  have read: "wvalid (ext m0) (\<lambda>w. (load_bytes (w_mem w) a 1, w)) (\<lambda>x w. ext m0 w \<and> x = [c]) E"
    using load_bytes_ext [OF assms(1) _ c(1)] by (intro wvalidI) (simp del: One_nat_def)
  have add: "wvalid (\<lambda>w. ext m0 w \<and> x = [c]) (add_when (x = [0]) DTL_VALIDATE_ERROR si n
        (''config pair '' @ fmt_u i @ '' has empty key'') rep)
      (\<lambda>rep' w. ext m0 w \<and> report_rel rep' (k, is @ map (issue_at si n) ?f)) E" for x
    using add_when_valid [OF Cons.prems(2), of "c = 0" "ks = []" m0] c(2) by (auto simp: wvalid_def)
  have rest: "wvalid (\<lambda>w. ext m0 w \<and> report_rel rep' (k, is @ map (issue_at si n) ?f)) (validate_pairs si n (i + 1) kvs rep')
      (\<lambda>rep' w. ext m0 w \<and> report_rel rep' (k, is @ map (issue_at si n) (pair_findings i vs))) E" for rep'
    using Cons.IH [OF d(2), of rep' "is @ map (issue_at si n) ?f" "i + 1"] d(3) by (auto simp: wvalid_def finding_def)
  show ?case
    unfolding kv validate_pairs.simps by (rule wvalid_bind [OF read], rule wvalid_bind [OF add], rule rest)
qed

lemma validate_record_valid:
  assumes "mem_ok m0" "record_view m0 r = Ok v" "fresh_rec r" "report_rel rep (k, is)"
  shows "wvalid (ext m0) (dtl_validate_record si n r rep)
    (\<lambda>rep' w. ext m0 w \<and> report_rel rep' (k, is @ map (issue_at si n) (findings_of v))) E"
proof (cases r)
  case (RConfig c)
  then obtain vs where "deref_pairs m0 (cfg_pairs c) = Ok vs" "v = VConfig vs"
    using assms(2) by (auto simp: rbind_eq_Ok_iff)
  with RConfig assms(3) validate_pairs_valid [OF assms(1) _ assms(4)] show ?thesis by simp
qed (insert assms(2,3), auto simp: rbind_eq_Ok_iff simp del: map_append dest: deref_empty
    intro!: add_when_valid [OF assms(4)] add_both_valid [OF assms(4)])

interpretation validate: walk_client dtl_validate_on_record "Some dtl_validate_on_error" report_rel validate_step
proof unfold_locales
  fix rep s r v sec si n i assume rel: "report_rel rep s" and fresh: "fresh_rec r"
  obtain k "is" where s: "s = (k, is)" by (cases s)
  have rel': "report_rel (rep\<lparr>vr_records_checked := vr_records_checked rep + 1\<rparr>) (k + 1, is)"
    using rel s by (simp add: report_rel_def)
  let ?Q = "\<lambda>(rc, rep'). rc = DTL_OK \<and> report_rel rep' (validate_step (Seen (mk_event sec si n i v)) s) \<or> rc = DTL_ERR_OOM"
  have "wvalid (\<lambda>w. record_view (w_mem w) r = Ok v) (dtl_validate_on_record (mk_event sec si n i r) rep)
      (\<lambda>x w. ?Q x) (\<lambda>_. False)"
  proof (rule wvalid_snapshot)
    fix m0 assume m0: "mem_ok m0" "record_view m0 r = Ok v"
    show "wvalid (ext m0) (dtl_validate_on_record (mk_event sec si n i r) rep) (\<lambda>x w. ext m0 w \<and> ?Q x) (\<lambda>_. False)"
      unfolding dtl_validate_on_record_def mk_event_simps
      by (rule wvalid_bind [OF validate_record_valid [OF m0 fresh rel']]) (auto intro!: wvalid_ret simp: s)
  qed
  then show "wvalid (\<lambda>w. record_view (w_mem w) r = Ok v) (dtl_validate_on_record (mk_event sec si n i r) rep)
      (\<lambda>(rc, rep') w. rc = DTL_OK \<and> report_rel rep' (validate_step (Seen (mk_event sec si n i v)) s) \<or> rc = DTL_ERR_OOM)
      (\<lambda>_. False)" by (simp add: case_prod_unfold)
next
  fix f rep s e assume f: "Some dtl_validate_on_error = Some f" and rel: "report_rel rep s"
  obtain k "is" where s: "s = (k, is)" by (cases s)
  have "wvalid (\<lambda>w. (\<lambda>_. True) (w_mem w)) (dtl_validate_on_error e rep)
      (\<lambda>rep' w. report_rel rep' (validate_step (Failed e) s)) (\<lambda>_. False)"
    unfolding dtl_validate_on_error_def s validate_step.simps item_issues.simps
    by (rule wvalid_snapshot, rule validate_add_valid) (use rel s in simp)
  with f show "wvalid (\<lambda>_. True) (f e rep) (\<lambda>rep' w. report_rel rep' (validate_step (Failed e) s)) (\<lambda>_. False)" by simp
qed simp

lemma validate_steps:
  "fold validate_step items (k, is) =
    (k + length (seen_values items), is @ concat (map item_issues items))"
  by (induction items arbitrary: k "is") (auto simp: seen_values_def split: walk_item.splits elim: validate_step.cases)

definition rejected :: "dtl_err \<Rightarrow> dtl_issue" where
  "rejected e = issue_at 0 0 (DTL_VALIDATE_ERROR, ''container rejected: '' @ dtl_strerror e)"

text \<open>What the report says about a container.\<close>

definition report_of :: "u8 list \<Rightarrow> dtl_validate_report \<Rightarrow> bool" where
  "report_of data rep \<longleftrightarrow>
     vr_error_count rep = count_sev DTL_VALIDATE_ERROR (vr_issues rep) \<and>
     vr_warning_count rep = count_sev DTL_VALIDATE_WARNING (vr_issues rep) \<and>
     ((\<exists>e. container_of data = Err e \<and> vr_records_checked rep = 0 \<and> subseq (vr_issues rep) [rejected e]) \<or>
      (\<exists>items. walk_shows data DTL_WALK_DEFAULT_MAX_DECODE items \<and>
         vr_records_checked rep = length (seen_values items) \<and>
         subseq (vr_issues rep) (concat (map item_issues items))))"

lemma validate_finish_valid:
  assumes "walk_post report_rel validate_step DTL_WALK_DEFAULT_MAX_DECODE data (0, []) (rc, rep)" "rc \<noteq> DTL_ERR_OOM"
  shows "wvalid P (dtl_validate_finish (rc, rep)) (\<lambda>(rc, rep') w. rc = DTL_OK \<and> report_of data rep') (\<lambda>_. False)"
proof (cases "rc = DTL_OK")
  case True
  with assms(1) show ?thesis
    using container_of_not_ok [of data]
    by (auto simp: dtl_validate_finish_def walk_post_def validate_steps report_rel_def report_of_def intro!: wvalid_ret)
next
  case False
  with assms have c: "container_of data = Err rc" and rel: "report_rel rep (0, [])" by (auto simp: walk_post_def)
  have "wvalid (\<lambda>w. (\<lambda>_. True) (w_mem w)) (dtl_validate_add DTL_VALIDATE_ERROR 0 0 (''container rejected: '' @ dtl_strerror rc) rep)
      (\<lambda>rep' w. report_rel rep' (0, [rejected rc])) (\<lambda>_. False)"
    by (rule wvalid_snapshot) (use validate_add_valid [OF rel] in \<open>simp add: rejected_def\<close>)
  then have add: "wvalid P (dtl_validate_add DTL_VALIDATE_ERROR 0 0 (''container rejected: '' @ dtl_strerror rc) rep)
      (\<lambda>rep' w. report_rel rep' (0, [rejected rc])) (\<lambda>_. False)" by (rule wvalid_weaken) simp_all
  show ?thesis
    unfolding dtl_validate_finish_def prod.case if_P [OF False]
    by (rule wvalid_bind [OF add], rule wvalid_ret) (auto simp: report_rel_def report_of_def c)
qed

text \<open>The walk of a validation in memory, and that it ran out of memory.\<close>

definition validate_walk :: "u8 list \<Rightarrow> (dtl_err \<times> dtl_validate_report) wm" where
  "validate_walk data = dtl_walk_memory data (snd (dtl_validate_setup Walk_Arena)) (fst (dtl_validate_setup Walk_Arena))"

definition walk_oom :: "u8 list \<Rightarrow> world \<Rightarrow> bool" where
  "walk_oom data w \<longleftrightarrow> (\<exists>rep. fst (validate_walk data w) = Ok (DTL_ERR_OOM, rep))"

lemma finish_oom_valid: "wvalid P (dtl_validate_finish (DTL_ERR_OOM, rep)) (\<lambda>(rc, rep') w. rc = DTL_OK) (\<lambda>_. False)"
proof -
  have "wvalid P (dtl_validate_add sev si n msg rep) (\<lambda>_ _. True) (\<lambda>_. False)" for sev si n msg
    unfolding dtl_validate_add_def
    by (rule wvalid_bind [OF vec_reserve_any]) (auto intro!: wvalid_ret split: option.splits prod.splits)
  then show ?thesis by (auto simp: dtl_validate_finish_def intro!: wvalid_bind [where R = "\<lambda>_ _. True"] wvalid_ret)
qed

lemma validate_memory_run:
  assumes "world_ok w" "decodes_safely data"
  obtains rep w' where "dtl_validate_memory data w = (Ok (DTL_OK, rep), w')" "world_ok w'"
    "report_of data rep \<or> walk_oom data w"
proof -
  let ?init = "fst (dtl_validate_setup Walk_Arena)"
  have rel: "report_rel ?init (0, [])" by (simp add: dtl_validate_setup_def report_rel_def count_sev_def)
  have W: "snd (dtl_validate_setup Walk_Arena) = walk_with dtl_validate_on_record (Some dtl_validate_on_error) 0"
    by (simp add: dtl_validate_setup_def)
  obtain rc rep w1 where 1: "validate_walk data w = (Ok (rc, rep), w1)" "world_ok w1"
    and post: "walk_post report_rel validate_step DTL_WALK_DEFAULT_MAX_DECODE data (0, []) (rc, rep)"
    using wvalidD [OF validate.walk_memory_valid [OF assms(2) rel, where k = 0] assms(1) TrueI] unfolding validate_walk_def W
    by (auto elim!: wpost_OkE)
  have run: "dtl_validate_memory data w = dtl_validate_finish (rc, rep) w1"
    using 1(1) by (simp add: dtl_validate_memory_def validate_walk_def wbind_def case_prod_unfold)
  show thesis
  proof (cases "rc = DTL_ERR_OOM")
    case True
    then obtain rep' w' where "dtl_validate_finish (rc, rep) w1 = (Ok (DTL_OK, rep'), w')" "world_ok w'"
      using wvalidD [OF finish_oom_valid [of "\<lambda>_. True" rep] 1(2) TrueI] by (auto elim!: wpost_OkE)
    with run True 1(1) that show thesis by (auto simp: walk_oom_def)
  next
    case False
    then obtain rep' w' where "dtl_validate_finish (rc, rep) w1 = (Ok (DTL_OK, rep'), w')" "world_ok w'" "report_of data rep'"
      using wvalidD [OF validate_finish_valid [OF post] 1(2) TrueI] by (auto elim!: wpost_OkE)
    with run that show thesis by auto
  qed
qed



subsection \<open>Truncated streams\<close>

text \<open>
  C23. The validator does not see that a stream is cut: a container whose section ends in the middle of
  a record gets a report without any issue, unless the walk runs out of memory.  The walk takes the
  failure of the framing for the end of the stream, so it is never reported.
\<close>

theorem validate_accepts_truncated:
  assumes "world_ok w" "tlv_wf t" "0 < k" "k < length (tlv_frame t)" "k \<le> 1000"
  shows "\<exists>rep w'. dtl_validate_memory (stored_container tp (take k (tlv_frame t))) w = (Ok (DTL_OK, rep), w') \<and>
    (vr_issues rep = [] \<and> vr_error_count rep = 0 \<and> vr_records_checked rep = 0 \<or>
     walk_oom (stored_container tp (take k (tlv_frame t))) w)"
proof -
  let ?bs = "take k (tlv_frame t)"
  have len: "0 < length ?bs" "length ?bs \<le> 1000" using assms(3-5) by auto
  have none: "items = []" if "walk_shows (stored_container tp ?bs) DTL_WALK_DEFAULT_MAX_DECODE items" for items
    using stored_reads [OF len that] stream_reads_none [OF no_frame_cut [OF assms(2,4)]] by force
  obtain rep w' where r: "dtl_validate_memory (stored_container tp ?bs) w = (Ok (DTL_OK, rep), w')"
    "report_of (stored_container tp ?bs) rep \<or> walk_oom (stored_container tp ?bs) w"
    using validate_memory_run [OF assms(1) stored_container_safe [OF len, of tp]] by metis
  have "vr_issues rep = [] \<and> vr_error_count rep = 0 \<and> vr_records_checked rep = 0"
    if "report_of (stored_container tp ?bs) rep"
    using that stored_container_of [OF len, of tp]
    by (auto simp: report_of_def count_sev_def seen_values_def dest!: none list_emb_Nil2)
  with r show ?thesis by blast
qed

theorem validate_accepts_truncated_witness:
  "\<exists>rep w'. dtl_validate_memory (stored_container 1 (take 5 beat_stream)) fresh_world = (Ok (DTL_OK, rep), w') \<and>
    (vr_issues rep = [] \<and> vr_error_count rep = 0 \<and> vr_records_checked rep = 0 \<or>
     walk_oom (stored_container 1 (take 5 beat_stream)) fresh_world)"
proof -
  have "tlv_wf (rec_tlv (VHeartbeat \<lparr>hb_uptime_s = 60, hb_seq = 1\<rparr>))" by (simp add: tlv_wf_def rec_tlv_def)
  from validate_accepts_truncated [OF fresh_world_ok this, of 5 1] show ?thesis
    unfolding beat_stream_def by simp
qed

end
