(* ===== verification/Report_Topk.thy ===== *)
theory Report_Topk
  imports Report_Base "HOL-Library.Multiset"
begin

text \<open>
  \<^verbatim>\<open>src/report/topk.c\<close>: ranking records by a numeric field.  The code extracts a field as a \<open>double\<close>;
  every field has at most 32 bits, so the conversion is exact and the values are integers here.  The
  extractors read a member of the union and are only called on records of the right tag; on another
  record they are undefined.
\<close>

subsection \<open>Rankable fields\<close>

definition dtl_topk_hb_uptime :: "dtl_record \<Rightarrow> int res" where
  "dtl_topk_hb_uptime r = (case r of RHeartbeat h \<Rightarrow> Ok (uint (hb_uptime_s h)) | _ \<Rightarrow> Ub)"

definition dtl_topk_hb_seq :: "dtl_record \<Rightarrow> int res" where
  "dtl_topk_hb_seq r = (case r of RHeartbeat h \<Rightarrow> Ok (uint (hb_seq h)) | _ \<Rightarrow> Ub)"

definition dtl_topk_bat_pct :: "dtl_record \<Rightarrow> int res" where
  "dtl_topk_bat_pct r = (case r of RBattery b \<Rightarrow> Ok (uint (bat_pct b)) | _ \<Rightarrow> Ub)"

definition dtl_topk_bat_temp :: "dtl_record \<Rightarrow> int res" where
  "dtl_topk_bat_temp r = (case r of RBattery b \<Rightarrow> Ok (sint (bat_temp_c_e1 b)) | _ \<Rightarrow> Ub)"

definition dtl_topk_bat_cycles :: "dtl_record \<Rightarrow> int res" where
  "dtl_topk_bat_cycles r = (case r of RBattery b \<Rightarrow> Ok (uint (bat_cycles b)) | _ \<Rightarrow> Ub)"

definition dtl_topk_geo_lat :: "dtl_record \<Rightarrow> int res" where
  "dtl_topk_geo_lat r = (case r of RGeo g \<Rightarrow> Ok (sint (geo_lat_e7 g)) | _ \<Rightarrow> Ub)"

definition dtl_topk_geo_lon :: "dtl_record \<Rightarrow> int res" where
  "dtl_topk_geo_lon r = (case r of RGeo g \<Rightarrow> Ok (sint (geo_lon_e7 g)) | _ \<Rightarrow> Ub)"

definition dtl_topk_geo_alt :: "dtl_record \<Rightarrow> int res" where
  "dtl_topk_geo_alt r = (case r of RGeo g \<Rightarrow> Ok (sint (geo_alt_mm g)) | _ \<Rightarrow> Ub)"

definition dtl_topk_net_rxb :: "dtl_record \<Rightarrow> int res" where
  "dtl_topk_net_rxb r = (case r of RNet n \<Rightarrow> Ok (uint (net_rx_bytes n)) | _ \<Rightarrow> Ub)"

definition dtl_topk_net_txb :: "dtl_record \<Rightarrow> int res" where
  "dtl_topk_net_txb r = (case r of RNet n \<Rightarrow> Ok (uint (net_tx_bytes n)) | _ \<Rightarrow> Ub)"

definition dtl_topk_net_rxp :: "dtl_record \<Rightarrow> int res" where
  "dtl_topk_net_rxp r = (case r of RNet n \<Rightarrow> Ok (uint (net_rx_pkts n)) | _ \<Rightarrow> Ub)"

definition dtl_topk_net_txp :: "dtl_record \<Rightarrow> int res" where
  "dtl_topk_net_txp r = (case r of RNet n \<Rightarrow> Ok (uint (net_tx_pkts n)) | _ \<Rightarrow> Ub)"

definition dtl_topk_sensor_id :: "dtl_record \<Rightarrow> int res" where
  "dtl_topk_sensor_id r = (case r of RSensor s \<Rightarrow> Ok (uint (sen_sensor_id s)) | _ \<Rightarrow> Ub)"

definition dtl_topk_sensor_count :: "dtl_record \<Rightarrow> int res" where
  "dtl_topk_sensor_count r = (case r of RSensor s \<Rightarrow> Ok (uint (sen_count s)) | _ \<Rightarrow> Ub)"

definition dtl_topk_event_code :: "dtl_record \<Rightarrow> int res" where
  "dtl_topk_event_code r = (case r of REvent e \<Rightarrow> Ok (uint (ev_code e)) | _ \<Rightarrow> Ub)"

definition dtl_topk_event_plen :: "dtl_record \<Rightarrow> int res" where
  "dtl_topk_event_plen r = (case r of REvent e \<Rightarrow> Ok (uint (ev_payload_len e)) | _ \<Rightarrow> Ub)"

definition dtl_topk_log_sev :: "dtl_record \<Rightarrow> int res" where
  "dtl_topk_log_sev r = (case r of RLog l \<Rightarrow> Ok (uint (log_severity l)) | _ \<Rightarrow> Ub)"

definition dtl_topk_config_pairs :: "dtl_record \<Rightarrow> int res" where
  "dtl_topk_config_pairs r = (case r of RConfig c \<Rightarrow> Ok (uint (cfg_pair_count c)) | _ \<Rightarrow> Ub)"

definition dtl_topk_diag_blob :: "dtl_record \<Rightarrow> int res" where
  "dtl_topk_diag_blob r = (case r of RDiag d \<Rightarrow> Ok (uint (dg_blob_len d)) | _ \<Rightarrow> Ub)"

record dtl_topk_field =
  tf_name :: string
  tf_tag :: u8
  tf_extract :: "dtl_record \<Rightarrow> int res"

definition topk_field :: "string \<Rightarrow> u8 \<Rightarrow> (dtl_record \<Rightarrow> int res) \<Rightarrow> dtl_topk_field" where
  "topk_field name tag f = \<lparr>tf_name = name, tf_tag = tag, tf_extract = f\<rparr>"

definition kFields :: "dtl_topk_field list" where
  "kFields =
    [topk_field ''heartbeat.uptime_s'' DTL_REC_HEARTBEAT dtl_topk_hb_uptime,
     topk_field ''heartbeat.seq'' DTL_REC_HEARTBEAT dtl_topk_hb_seq,
     topk_field ''battery.pct'' DTL_REC_BATTERY dtl_topk_bat_pct,
     topk_field ''battery.temp_c_e1'' DTL_REC_BATTERY dtl_topk_bat_temp,
     topk_field ''battery.cycles'' DTL_REC_BATTERY dtl_topk_bat_cycles,
     topk_field ''geo.lat_e7'' DTL_REC_GEO dtl_topk_geo_lat,
     topk_field ''geo.lon_e7'' DTL_REC_GEO dtl_topk_geo_lon,
     topk_field ''geo.alt_mm'' DTL_REC_GEO dtl_topk_geo_alt,
     topk_field ''net.rx_bytes'' DTL_REC_NET dtl_topk_net_rxb,
     topk_field ''net.tx_bytes'' DTL_REC_NET dtl_topk_net_txb,
     topk_field ''net.rx_pkts'' DTL_REC_NET dtl_topk_net_rxp,
     topk_field ''net.tx_pkts'' DTL_REC_NET dtl_topk_net_txp,
     topk_field ''sensor.sensor_id'' DTL_REC_SENSOR dtl_topk_sensor_id,
     topk_field ''sensor.count'' DTL_REC_SENSOR dtl_topk_sensor_count,
     topk_field ''event.code'' DTL_REC_EVENT dtl_topk_event_code,
     topk_field ''event.payload_len'' DTL_REC_EVENT dtl_topk_event_plen,
     topk_field ''log.severity'' DTL_REC_LOG dtl_topk_log_sev,
     topk_field ''config.pair_count'' DTL_REC_CONFIG dtl_topk_config_pairs,
     topk_field ''diag.blob_len'' DTL_REC_DIAG dtl_topk_diag_blob]"

fun topk_scan :: "dtl_topk_field list \<Rightarrow> string \<Rightarrow> dtl_topk_field option" where
  "topk_scan [] name = None"
| "topk_scan (f # fs) name = (if name = tf_name f then Some f else topk_scan fs name)"

definition dtl_topk_lookup :: "string \<Rightarrow> dtl_topk_field option" where
  "dtl_topk_lookup name = topk_scan kFields name"

definition dtl_topk_field_exists :: "string \<Rightarrow> bool" where
  "dtl_topk_field_exists name \<longleftrightarrow> dtl_topk_lookup name \<noteq> None"

subsection \<open>Collection\<close>

record dtl_topk_entry =
  te_value :: int
  te_record_index :: nat

record dtl_topk_ctx =
  tk_field :: dtl_topk_field
  tk_a :: arena_ref
  tk_entries :: "dtl_topk_entry list"
  tk_cap :: nat

definition sizeof_topk_entry :: nat where "sizeof_topk_entry = 16"

definition dtl_topk_on_record :: "dtl_topk_ctx walk_fn" where
  "dtl_topk_on_record ev ctx =
     (if rec_tag (we_rec ev) \<noteq> tf_tag (tk_field ctx) then wret (DTL_OK, ctx)
      else wbind (vec_reserve 64 sizeof_topk_entry (length (tk_entries ctx)) (tk_cap ctx) (tk_a ctx)) (\<lambda>(cap, a).
           case cap of None \<Rightarrow> wret (DTL_ERR_OOM, ctx\<lparr>tk_a := a\<rparr>)
           | Some cap \<Rightarrow>
               wbind (wlift (tf_extract (tk_field ctx) (we_rec ev))) (\<lambda>v.
               wret (DTL_OK, ctx\<lparr>tk_a := a, tk_cap := cap, tk_entries := tk_entries ctx @
                 [\<lparr>te_value = v, te_record_index = we_record_index ev\<rparr>]\<rparr>))))"

subsection \<open>Sorting\<close>

text \<open>The inner loop moves smaller entries up until the place of the key is found.\<close>

fun topk_shift :: "dtl_topk_entry list \<Rightarrow> dtl_topk_entry \<Rightarrow> nat \<Rightarrow> dtl_topk_entry list" where
  "topk_shift e key 0 = e[0 := key]"
| "topk_shift e key (Suc j) =
     (if te_value (e ! j) < te_value key then topk_shift (e[Suc j := e ! j]) key j else e[Suc j := key])"

definition dtl_topk_sort :: "dtl_topk_entry list \<Rightarrow> dtl_topk_entry list" where
  "dtl_topk_sort e = fold (\<lambda>i e. topk_shift e (e ! i) i) [1..<length e] e"

text \<open>
  The report, as data: the field, the number of candidates and the rows.  The release of the local
  arena at the end is not part of it.
\<close>

record topk_output =
  to_field :: string
  to_candidates :: nat
  to_rows :: "dtl_topk_entry list"

definition topk_report :: "files \<Rightarrow> string option \<Rightarrow> nat \<Rightarrow> string \<Rightarrow> nat \<Rightarrow> (dtl_err \<times> topk_output option) wm" where
  "topk_report fs path max_file field n =
     (case dtl_topk_lookup field of None \<Rightarrow> wret (DTL_ERR_INVAL, None)
      | Some fld \<Rightarrow>
          wbind (dtl_walk_file fs path max_file (walk_with dtl_topk_on_record None 0)
            \<lparr>tk_field = fld, tk_a = Own_Arena (dtl_arena_init report_block), tk_entries = [], tk_cap = 0\<rparr>) (\<lambda>(rc, ctx).
          if rc \<noteq> DTL_OK then wret (rc, None)
          else let entries = dtl_topk_sort (tk_entries ctx);
                   shown = (if n = 0 \<or> n > length entries then length entries else n)
               in wret (DTL_OK, Some \<lparr>to_field = tf_name fld, to_candidates = length entries,
                                      to_rows = take shown entries\<rparr>)))"

subsection \<open>The sort is the stable descending sort\<close>

text \<open>The inner loop inserts the key behind the entries that are not smaller.\<close>

lemma topk_shift_inserts:
  "\<exists>p q. xs = p @ q \<and> topk_shift (xs @ x # rest) key (length xs) = p @ key # q @ rest \<and>
     (\<forall>y \<in> set q. te_value y < te_value key) \<and> (p = [] \<or> te_value key \<le> te_value (last p))"
proof (induction xs arbitrary: x rest rule: rev_induct)
  case Nil
  show ?case by (simp add: exI [of _ "[]"])
next
  case (snoc y xs)
  show ?case
  proof (cases "te_value y < te_value key")
    case True
    have shift: "topk_shift ((xs @ [y]) @ x # rest) key (length (xs @ [y])) = topk_shift (xs @ y # y # rest) key (length xs)"
      using True by (simp add: nth_append list_update_append)
    obtain p q where pq: "xs = p @ q" "topk_shift (xs @ y # y # rest) key (length xs) = p @ key # q @ y # rest"
      "\<forall>z \<in> set q. te_value z < te_value key" "p = [] \<or> te_value key \<le> te_value (last p)"
      using snoc.IH [of y "y # rest"] by blast
    show ?thesis
      unfolding shift using pq True by (intro exI [of _ p] exI [of _ "q @ [y]"]) auto
  next
    case False
    then show ?thesis
      by (intro exI [of _ "xs @ [y]"] exI [of _ "[]"]) (simp add: nth_append list_update_append)
  qed
qed

abbreviation rank :: "dtl_topk_entry \<Rightarrow> int" where "rank e \<equiv> - te_value e"

lemma insert_stable:
  assumes "sorted (map rank (p @ q))" "\<forall>y \<in> set q. te_value y < te_value key" "p = [] \<or> te_value key \<le> te_value (last p)"
  shows "sorted (map rank (p @ key # q))"
    and "filter (\<lambda>y. rank y = k) (p @ key # q) = filter (\<lambda>y. rank y = k) (p @ q @ [key])"
proof -
  have "te_value key \<le> te_value y" if "y \<in> set p" for y
  proof -
    from that obtain p' z where p: "p = p' @ [z]" by (cases p rule: rev_cases) auto
    with assms(1) that have "te_value z \<le> te_value y" by (auto simp: sorted_append)
    with assms(3) p show ?thesis by simp
  qed
  with assms(1,2) show "sorted (map rank (p @ key # q))" by (force simp: sorted_append)
  show "filter (\<lambda>y. rank y = k) (p @ key # q) = filter (\<lambda>y. rank y = k) (p @ q @ [key])"
  proof -
    have "filter (\<lambda>y. rank y = rank key) q = []" using assms(2) by (auto simp: filter_empty_conv)
    then show ?thesis by auto
  qed
qed

lemma topk_sort_prefix:
  assumes "n < length e"
  shows "\<exists>xs. fold (\<lambda>i e. topk_shift e (e ! i) i) [1..<Suc n] e = xs @ drop (Suc n) e \<and> mset xs = mset (take (Suc n) e) \<and>
    sorted (map rank xs) \<and> (\<forall>k. filter (\<lambda>y. rank y = k) xs = filter (\<lambda>y. rank y = k) (take (Suc n) e))"
  using assms
proof (induction n)
  case 0
  then show ?case by (cases e) auto
next
  case (Suc n)
  let ?x = "e ! Suc n" and ?rest = "drop (Suc (Suc n)) e"
  obtain xs where xs: "fold (\<lambda>i e. topk_shift e (e ! i) i) [1..<Suc n] e = xs @ drop (Suc n) e"
    "mset xs = mset (take (Suc n) e)" "sorted (map rank xs)"
    "\<And>k. filter (\<lambda>y. rank y = k) xs = filter (\<lambda>y. rank y = k) (take (Suc n) e)"
    using Suc by auto
  have len: "length xs = Suc n" using arg_cong [OF xs(2), of size] Suc.prems by simp
  have d: "drop (Suc n) e = ?x # ?rest" using Suc.prems by (simp add: Cons_nth_drop_Suc)
  obtain p q where pq: "xs = p @ q" "topk_shift (xs @ ?x # ?rest) ?x (length xs) = p @ ?x # q @ ?rest"
    "\<forall>y \<in> set q. te_value y < te_value ?x" "p = [] \<or> te_value ?x \<le> te_value (last p)"
    using topk_shift_inserts [of xs ?x ?rest ?x] by blast
  have "fold (\<lambda>i e. topk_shift e (e ! i) i) [1..<Suc (Suc n)] e = topk_shift (xs @ ?x # ?rest) ?x (length xs)"
    using xs(1) d len by (simp add: nth_append)
  moreover have "take (Suc (Suc n)) e = take (Suc n) e @ [?x]" using Suc.prems by (simp add: take_Suc_conv_app_nth)
  ultimately show ?case
    using insert_stable [OF xs(3) [unfolded pq(1)] pq(3,4)] xs(2,4) pq(1,2)
    by (intro exI [of _ "p @ ?x # q"]) simp
qed

lemma topk_sort_eq: "dtl_topk_sort e = sort_key rank e"
proof (cases e)
  case (Cons x e')
  obtain xs where xs: "dtl_topk_sort e = xs" "mset xs = mset e" "sorted (map rank xs)"
    "\<And>k. filter (\<lambda>y. rank y = k) xs = filter (\<lambda>y. rank y = k) e"
    using topk_sort_prefix [of "length e'" e] Cons by (auto simp: dtl_topk_sort_def)
  have "filter (\<lambda>y. rank k = rank y) xs = filter (\<lambda>y. rank k = rank y) e" for k
    using xs(4) [of "rank k"] by (simp add: eq_commute)
  from properties_for_sort_key [OF xs(2) this xs(3)] xs(1) show ?thesis by simp
qed (simp add: dtl_topk_sort_def)

text \<open>
  C24. The insertion sort of the report is the stable descending sort: for every array of entries it
  returns exactly the library's stable sort by descending value, so equal values keep wire order.
\<close>

theorem topk_sort_is_stable_sort: "dtl_topk_sort e = sort_key (\<lambda>x. - te_value x) e"
  by (rule topk_sort_eq)

subsection \<open>The candidates\<close>

text \<open>The numeric fields of a value by name.\<close>

fun val_fields :: "rec_val \<Rightarrow> (string \<times> int) list" where
  "val_fields (VHeartbeat h) = [(''heartbeat.uptime_s'', uint (hb_uptime_s h)), (''heartbeat.seq'', uint (hb_seq h))]"
| "val_fields (VSensor i bs) = [(''sensor.sensor_id'', uint i), (''sensor.count'', int (length bs div 4))]"
| "val_fields (VEvent c bs) = [(''event.code'', uint c), (''event.payload_len'', int (length bs))]"
| "val_fields (VDiag c bs) = [(''diag.blob_len'', int (length bs))]"
| "val_fields (VGeo g) = [(''geo.lat_e7'', sint (geo_lat_e7 g)), (''geo.lon_e7'', sint (geo_lon_e7 g)),
     (''geo.alt_mm'', sint (geo_alt_mm g))]"
| "val_fields (VBattery b) = [(''battery.pct'', uint (bat_pct b)), (''battery.temp_c_e1'', sint (bat_temp_c_e1 b)),
     (''battery.cycles'', uint (bat_cycles b))]"
| "val_fields (VNet n) = [(''net.rx_bytes'', uint (net_rx_bytes n)), (''net.tx_bytes'', uint (net_tx_bytes n)),
     (''net.rx_pkts'', uint (net_rx_pkts n)), (''net.tx_pkts'', uint (net_tx_pkts n))]"
| "val_fields (VLog s bs) = [(''log.severity'', uint s)]"
| "val_fields (VConfig kvs) = [(''config.pair_count'', int (length kvs))]"
| "val_fields (VKeyref s bs) = []"
| "val_fields (VFirmware f) = []"

definition field_tag_ok :: "dtl_topk_field \<Rightarrow> dtl_record \<Rightarrow> rec_val \<Rightarrow> bool" where
  "field_tag_ok fld r v \<longleftrightarrow> (if rec_tag r = tf_tag fld
     then \<exists>x. tf_extract fld r = Ok x \<and> map_of (val_fields v) (tf_name fld) = Some x
     else map_of (val_fields v) (tf_name fld) = None)"

lemmas topk_extractors = dtl_topk_hb_uptime_def dtl_topk_hb_seq_def dtl_topk_bat_pct_def dtl_topk_bat_temp_def
  dtl_topk_bat_cycles_def dtl_topk_geo_lat_def dtl_topk_geo_lon_def dtl_topk_geo_alt_def dtl_topk_net_rxb_def
  dtl_topk_net_txb_def dtl_topk_net_rxp_def dtl_topk_net_txp_def dtl_topk_sensor_id_def dtl_topk_sensor_count_def
  dtl_topk_event_code_def dtl_topk_event_plen_def dtl_topk_log_sev_def dtl_topk_config_pairs_def dtl_topk_diag_blob_def

lemmas topk_run = kFields_def topk_field_def field_tag_ok_def topk_extractors rec_tags

lemma fields_extract:
  assumes "record_view m r = Ok v" "fresh_rec r"
  shows "\<forall>fld \<in> set kFields. field_tag_ok fld r v"
proof (cases r)
  case (RSensor s)
  then obtain bs where v: "v = VSensor (sen_sensor_id s) bs" "deref_bytes m (sen_samples s) (unat (sen_count s) * 4) = Ok bs"
    using assms(1) by (auto simp: rbind_eq_Ok_iff)
  then have "int (length bs div 4) = uint (sen_count s)" using deref_bytes_length [OF v(2)] by simp
  then show ?thesis by (simp add: RSensor v(1) topk_run)
next
  case (REvent e)
  then obtain bs where v: "v = VEvent (ev_code e) bs" "deref_bytes m (ev_payload e) (unat (ev_payload_len e)) = Ok bs"
    using assms(1) by (auto simp: rbind_eq_Ok_iff)
  then have "int (length bs) = uint (ev_payload_len e)" using deref_bytes_length [OF v(2)] by simp
  then show ?thesis by (simp add: REvent v(1) topk_run)
next
  case (RDiag d)
  then obtain bs where v: "v = VDiag (dg_subsystem d) bs" "deref_bytes m (dg_blob d) (unat (dg_blob_len d)) = Ok bs"
    using assms(1) by (auto simp: rbind_eq_Ok_iff)
  then have "int (length bs) = uint (dg_blob_len d)" using deref_bytes_length [OF v(2)] by simp
  then show ?thesis by (simp add: RDiag v(1) topk_run)
next
  case (RLog l)
  then obtain bs where "v = VLog (log_severity l) bs" using assms(1) by (auto simp: rbind_eq_Ok_iff)
  then show ?thesis by (simp add: RLog topk_run)
next
  case (RKeyref k)
  then obtain bs where "v = VKeyref (kr_slot_id k) bs" using assms(1) by (auto simp: rbind_eq_Ok_iff)
  then show ?thesis by (simp add: RKeyref topk_run)
next
  case (RConfig c)
  then obtain vs where v: "v = VConfig vs" "deref_pairs m (cfg_pairs c) = Ok vs" using assms(1) by (auto simp: rbind_eq_Ok_iff)
  then have "int (length vs) = uint (cfg_pair_count c)" using deref_pairs_length [OF v(2)] assms(2) RConfig
    by (simp only: fresh_rec.simps rec_shape.simps uint_nat)
  then show ?thesis by (simp add: RConfig v(1) topk_run)
qed (use assms(1) in \<open>auto simp: topk_run\<close>)

text \<open>The entries the items of a walk contribute.\<close>

fun field_entries :: "string \<Rightarrow> walk_item \<Rightarrow> dtl_topk_entry list" where
  "field_entries name (Seen ev) = (case map_of (val_fields (we_rec ev)) name of None \<Rightarrow> []
     | Some x \<Rightarrow> [\<lparr>te_value = x, te_record_index = we_record_index ev\<rparr>])"
| "field_entries name (Failed e) = []"

definition topk_step :: "dtl_topk_field \<Rightarrow> walk_item \<Rightarrow> dtl_topk_entry list \<Rightarrow> dtl_topk_entry list" where
  "topk_step fld x es = es @ field_entries (tf_name fld) x"

definition topk_rel :: "dtl_topk_field \<Rightarrow> dtl_topk_ctx \<Rightarrow> dtl_topk_entry list \<Rightarrow> bool" where
  "topk_rel fld ctx es \<longleftrightarrow> fld \<in> set kFields \<and> tk_field ctx = fld \<and> tk_entries ctx = es"

lemma topk_steps: "fold (topk_step fld) items es = es @ concat (map (field_entries (tf_name fld)) items)"
  by (induction items arbitrary: es) (simp_all add: topk_step_def)

lemma topk_on_record_valid:
  assumes "topk_rel fld ctx es" "field_tag_ok fld r v"
  shows "wvalid P (dtl_topk_on_record (mk_event sec si n i r) ctx)
    (\<lambda>(rc, ctx') w. rc = DTL_OK \<and> topk_rel fld ctx' (topk_step fld (Seen (mk_event sec si n i v)) es) \<or> rc = DTL_ERR_OOM) (\<lambda>_. False)"
proof (cases "rec_tag r = tf_tag fld")
  case True
  then obtain x where x: "tf_extract fld r = Ok x" "map_of (val_fields v) (tf_name fld) = Some x"
    using assms(2) by (auto simp: field_tag_ok_def)
  have f: "tk_field ctx = fld" using assms(1) by (simp add: topk_rel_def)
  have skip: "(if rec_tag r \<noteq> tf_tag fld then a else b) = b" for a b :: "(dtl_err \<times> dtl_topk_ctx) wm" using True by simp
  show ?thesis
    unfolding dtl_topk_on_record_def mk_event_simps f skip x(1) wbind_simps
    by (rule wvalid_bind [OF vec_reserve_any])
      (use assms(1) x(2) in \<open>auto simp: topk_rel_def topk_step_def intro!: wvalid_ret split: option.splits\<close>)
next
  case False
  with assms show ?thesis
    by (auto simp: dtl_topk_on_record_def topk_rel_def topk_step_def field_tag_ok_def intro!: wvalid_ret)
qed

interpretation topk: walk_client dtl_topk_on_record None "topk_rel fld" "topk_step fld" for fld
proof unfold_locales
  fix ctx es r v sec si n i assume rel: "topk_rel fld ctx es" and fresh: "fresh_rec r"
  have "fld \<in> set kFields" using rel by (simp add: topk_rel_def)
  then have ok: "record_view m r = Ok v \<Longrightarrow> field_tag_ok fld r v" for m using fields_extract [OF _ fresh] by blast
  show "wvalid (\<lambda>w. record_view (w_mem w) r = Ok v) (dtl_topk_on_record (mk_event sec si n i r) ctx)
      (\<lambda>(rc, ctx') w. rc = DTL_OK \<and> topk_rel fld ctx' (topk_step fld (Seen (mk_event sec si n i v)) es) \<or> rc = DTL_ERR_OOM) (\<lambda>_. False)"
    by (rule wvalid_pre [where P' = "\<lambda>w. field_tag_ok fld r v \<and> True"], simp add: ok, rule wvalid_conj, rule topk_on_record_valid [OF rel])
qed (simp_all add: topk_step_def)

lemma topk_scan_Some: "topk_scan fs name = Some f \<Longrightarrow> f \<in> set fs \<and> tf_name f = name"
  by (induction fs) (auto split: if_splits)



end
