(* ===== verification/Report_Timeline.thy ===== *)
theory Report_Timeline
  imports Report_Base
begin

text \<open>
  \<^verbatim>\<open>src/report/timeline.c\<close>: the sessions between heartbeats.  A slot of the histogram \<open>per_tag\<close> is
  \<open>None\<close> until it is written: the sessions are arena memory, and opening a session writes the slot of
  the heartbeat only.  Reading such a slot is undefined, as for every other uninitialised byte of the
  development.
\<close>

record dtl_timeline_session =
  ts_uptime_s :: u32
  ts_seq :: u32
  ts_record_count :: nat
  ts_per_tag :: "u8 \<Rightarrow> nat option"
  ts_first_record_index :: nat

record dtl_timeline =
  tl_sessions :: "dtl_timeline_session list"
  tl_session_cap :: nat
  tl_gap_count :: nat
  tl_ordering_violations :: nat
  tl_unattributed_records :: nat
  tl_a :: arena_ref

record dtl_timeline_options =
  topt_expected_interval_s :: u32
  topt_tolerance :: u32

text \<open>The cursor \<open>cur\<close> is the number of the session being filled.\<close>

record dtl_timeline_ctx =
  tc_tl :: dtl_timeline
  tc_cur :: "nat option"
  tc_expected :: u32
  tc_tolerance :: u32

definition sizeof_session :: nat where "sizeof_session = 4 + 4 + 8 + 256 * 8 + 8"

text \<open>The comparison of a heartbeat with the one before: the counters for gaps and for violations.\<close>

definition timeline_compare :: "u32 \<Rightarrow> u32 \<Rightarrow> u32 \<Rightarrow> u32 \<Rightarrow> nat \<times> nat \<Rightarrow> nat \<times> nat" where
  "timeline_compare tolerance expected prev uptime counts =
     (let delta = uptime - prev
      in if uptime < prev then (fst counts, snd counts + 1)
         else if (ucast delta :: u64) > ucast tolerance * ucast expected then (fst counts + 1, snd counts)
         else counts)"

definition dtl_timeline_open_session :: "dtl_timeline_ctx \<Rightarrow> dtl_heartbeat \<Rightarrow> nat \<Rightarrow> (dtl_err \<times> dtl_timeline_ctx) wm" where
  "dtl_timeline_open_session ctx h record_index =
     (let tl = tc_tl ctx; n = length (tl_sessions tl)
      in wbind (vec_reserve 16 sizeof_session n (tl_session_cap tl) (tl_a tl)) (\<lambda>(cap, a).
         case cap of None \<Rightarrow> wret (DTL_ERR_OOM, ctx\<lparr>tc_tl := tl\<lparr>tl_a := a\<rparr>\<rparr>)
         | Some cap \<Rightarrow>
             let cur = (if n = tl_session_cap tl then (if n \<noteq> 0 then Some (n - 1) else None) else tc_cur ctx);
                 s = \<lparr>ts_uptime_s = hb_uptime_s h, ts_seq = hb_seq h, ts_record_count = 1,
                      ts_per_tag = (\<lambda>_. None)(DTL_REC_HEARTBEAT := Some 1), ts_first_record_index = record_index\<rparr>;
                 counts = (case cur of None \<Rightarrow> (tl_gap_count tl, tl_ordering_violations tl)
                   | Some i \<Rightarrow> timeline_compare (tc_tolerance ctx) (tc_expected ctx) (ts_uptime_s (tl_sessions tl ! i))
                       (ts_uptime_s s) (tl_gap_count tl, tl_ordering_violations tl))
             in wret (DTL_OK, ctx\<lparr>tc_tl := tl\<lparr>tl_a := a, tl_session_cap := cap, tl_sessions := tl_sessions tl @ [s],
                                               tl_gap_count := fst counts, tl_ordering_violations := snd counts\<rparr>,
                                   tc_cur := Some n\<rparr>)))"

definition session_count :: "u8 \<Rightarrow> dtl_timeline_session \<Rightarrow> dtl_timeline_session res" where
  "session_count tag s = (case ts_per_tag s tag of None \<Rightarrow> Ub
     | Some k \<Rightarrow> Ok (s\<lparr>ts_record_count := ts_record_count s + 1, ts_per_tag := (ts_per_tag s)(tag := Some (k + 1))\<rparr>))"

definition dtl_timeline_on_record :: "dtl_timeline_ctx walk_fn" where
  "dtl_timeline_on_record ev ctx =
     (case we_rec ev of
        RHeartbeat h \<Rightarrow> dtl_timeline_open_session ctx h (we_record_index ev)
      | r \<Rightarrow>
          (case tc_cur ctx of
             None \<Rightarrow> wret (DTL_OK, ctx\<lparr>tc_tl := (tc_tl ctx)\<lparr>tl_unattributed_records := tl_unattributed_records (tc_tl ctx) + 1\<rparr>\<rparr>)
           | Some i \<Rightarrow>
               wbind (wlift (session_count (rec_tag r) (tl_sessions (tc_tl ctx) ! i))) (\<lambda>s.
               wret (DTL_OK, ctx\<lparr>tc_tl := (tc_tl ctx)\<lparr>tl_sessions := (tl_sessions (tc_tl ctx))[i := s]\<rparr>\<rparr>))))"

definition dtl_timeline_expected :: "dtl_timeline_options option \<Rightarrow> u32" where
  "dtl_timeline_expected opts = (case opts of Some p \<Rightarrow> if topt_expected_interval_s p \<noteq> 0 then topt_expected_interval_s p else 60
     | None \<Rightarrow> 60)"

definition dtl_timeline_tolerance :: "dtl_timeline_options option \<Rightarrow> u32" where
  "dtl_timeline_tolerance opts = (case opts of Some p \<Rightarrow> if topt_tolerance p \<noteq> 0 then topt_tolerance p else 2 | None \<Rightarrow> 2)"

definition timeline_zero :: "dtl_timeline_options option \<Rightarrow> dtl_arena \<Rightarrow> dtl_timeline_ctx" where
  "timeline_zero opts a =
     \<lparr>tc_tl = \<lparr>tl_sessions = [], tl_session_cap = 0, tl_gap_count = 0, tl_ordering_violations = 0,
              tl_unattributed_records = 0, tl_a = Own_Arena a\<rparr>,
      tc_cur = None, tc_expected = dtl_timeline_expected opts, tc_tolerance = dtl_timeline_tolerance opts\<rparr>"

definition dtl_timeline_build :: "files \<Rightarrow> string option \<Rightarrow> nat \<Rightarrow> dtl_timeline_options option \<Rightarrow> dtl_arena \<Rightarrow>
    (dtl_err \<times> dtl_timeline) wm" where
  "dtl_timeline_build fs path max_file opts a =
     wbind (dtl_walk_file fs path max_file (walk_with dtl_timeline_on_record None 0) (timeline_zero opts a))
       (\<lambda>(rc, ctx). wret (rc, tc_tl ctx))"

subsection \<open>Gaps and violations\<close>

text \<open>The comparisons of a sequence of uptimes, over the integers.\<close>

fun adjacent :: "'a list \<Rightarrow> ('a \<times> 'a) list" where
  "adjacent (x # y # xs) = (x, y) # adjacent (y # xs)"
| "adjacent _ = []"

definition is_gap :: "u32 \<Rightarrow> u32 \<Rightarrow> u32 \<times> u32 \<Rightarrow> bool" where
  "is_gap tolerance expected p \<longleftrightarrow> uint (snd p) - uint (fst p) > uint tolerance * uint expected"

definition is_reset :: "u32 \<times> u32 \<Rightarrow> bool" where
  "is_reset p \<longleftrightarrow> uint (snd p) < uint (fst p)"

text \<open>A timeline made of the heartbeats \<open>ups\<close>.\<close>

definition timeline_inv :: "u32 list \<Rightarrow> dtl_timeline_ctx \<Rightarrow> bool" where
  "timeline_inv ups ctx \<longleftrightarrow> map ts_uptime_s (tl_sessions (tc_tl ctx)) = ups \<and>
     tc_cur ctx = (if ups = [] then None else Some (length ups - 1)) \<and>
     tl_gap_count (tc_tl ctx) = length (filter (is_gap (tc_tolerance ctx) (tc_expected ctx)) (adjacent ups)) \<and>
     tl_ordering_violations (tc_tl ctx) = length (filter is_reset (adjacent ups))"

lemma adjacent_snoc: "xs \<noteq> [] \<Longrightarrow> adjacent (xs @ [y]) = adjacent xs @ [(last xs, y)]"
  by (induction xs rule: adjacent.induct) auto

lemma adjacent_map: "adjacent (map f xs) = map (map_prod f f) (adjacent xs)"
  by (induction xs rule: adjacent.induct) auto

text \<open>The unsigned comparison of the code is the comparison of the integers.\<close>

lemma timeline_compare_exact:
  "timeline_compare tol ex prev up (g, r) =
     (g + (if is_gap tol ex (prev, up) then 1 else 0), r + (if is_reset (prev, up) then 1 else 0))"
proof -
  have "uint tol * uint ex < 2 ^ 32 * 2 ^ 32"
    by (intro mult_strict_mono) (use uint_lt2p [of tol] uint_lt2p [of ex] in auto)
  then have "uint (ucast tol * ucast ex :: u64) = uint tol * uint ex"
    by (simp add: uint_word_ariths uint_up_ucast is_up)
  moreover have "uint (up - prev) = uint up - uint prev" if "prev \<le> up"
    using that by (simp add: uint_sub_lem word_le_def)
  moreover have "uint (ucast (up - prev) :: u64) = uint (up - prev)" by (simp add: uint_up_ucast is_up)
  moreover have "uint prev \<le> uint up" if "uint tol * uint ex < uint up - uint prev"
  proof -
    have "0 \<le> uint tol * uint ex" by (rule mult_nonneg_nonneg) simp_all
    with that show ?thesis by linarith
  qed
  ultimately show ?thesis
    by (auto simp: timeline_compare_def Let_def is_gap_def is_reset_def word_less_def word_le_def not_less)
qed

text \<open>The events of a walk handed to the callback one after the other, up to the first error.\<close>

fun timeline_feed :: "dtl_record dtl_walk_event list \<Rightarrow> dtl_timeline_ctx \<Rightarrow> (dtl_err \<times> dtl_timeline_ctx) wm" where
  "timeline_feed [] ctx = wret (DTL_OK, ctx)"
| "timeline_feed (ev # evs) ctx = wbind (dtl_timeline_on_record ev ctx) (\<lambda>(rc, ctx).
     if rc \<noteq> DTL_OK then wret (rc, ctx) else timeline_feed evs ctx)"

definition beat :: "dtl_record dtl_walk_event \<Rightarrow> dtl_heartbeat \<Rightarrow> bool" where
  "beat ev h \<longleftrightarrow> we_rec ev = RHeartbeat h"

abbreviation same_limits :: "dtl_timeline_ctx \<Rightarrow> dtl_timeline_ctx \<Rightarrow> bool" where
  "same_limits c c' \<equiv> tc_tolerance c' = tc_tolerance c \<and> tc_expected c' = tc_expected c"

definition timeline_fed :: "u32 list \<Rightarrow> dtl_timeline_ctx \<Rightarrow> dtl_err \<times> dtl_timeline_ctx \<Rightarrow> bool" where
  "timeline_fed ups ctx x \<longleftrightarrow> fst x = DTL_ERR_OOM \<or>
     fst x = DTL_OK \<and> timeline_inv ups (snd x) \<and> same_limits ctx (snd x)"

lemma open_session_valid:
  assumes "timeline_inv ups ctx"
  shows "wvalid P (dtl_timeline_open_session ctx h i) (\<lambda>x _. timeline_fed (ups @ [hb_uptime_s h]) ctx x) E"
proof -
  note inv = assms [unfolded timeline_inv_def]
  have len: "length (tl_sessions (tc_tl ctx)) = length ups" using inv by (metis length_map)
  have prev: "ts_uptime_s (tl_sessions (tc_tl ctx) ! (length ups - 1)) = last ups" if "ups \<noteq> []"
    using that inv len by (metis last_conv_nth length_map map_is_Nil_conv nth_map diff_less length_greater_0_conv zero_less_one)
  show ?thesis
  proof (cases "ups = []")
    case True
    then show ?thesis
      unfolding dtl_timeline_open_session_def Let_def using inv len
      by (intro wvalid_bind [OF vec_reserve_any])
        (auto simp: timeline_fed_def timeline_inv_def intro!: wvalid_ret split: option.splits)
  next
    case False
    then show ?thesis
      unfolding dtl_timeline_open_session_def Let_def using inv len prev
      by (intro wvalid_bind [OF vec_reserve_any])
        (auto simp: timeline_fed_def timeline_inv_def timeline_compare_exact adjacent_snoc intro!: wvalid_ret split: option.splits)
  qed
qed

lemma timeline_feed_valid:
  assumes "list_all2 beat evs hs" "timeline_inv ups ctx"
  shows "wvalid P (timeline_feed evs ctx) (\<lambda>x _. timeline_fed (ups @ map hb_uptime_s hs) ctx x) E"
  using assms
proof (induction evs hs arbitrary: ups ctx P rule: list_all2_induct)
  case Nil
  then show ?case by (auto simp: timeline_fed_def intro: wvalid_ret)
next
  case (Cons ev evs h hs)
  let ?Q = "timeline_fed (ups @ map hb_uptime_s (h # hs)) ctx"
  have first: "wvalid P (dtl_timeline_on_record ev ctx) (\<lambda>x _. timeline_fed (ups @ [hb_uptime_s h]) ctx x) E"
    using Cons.hyps(1) open_session_valid [OF Cons.prems] by (simp add: beat_def dtl_timeline_on_record_def)
  have later: "wvalid (\<lambda>_. True) (if rc \<noteq> DTL_OK then wret (rc, ctx') else timeline_feed evs ctx') (\<lambda>x _. ?Q x) E"
    if fed: "timeline_fed (ups @ [hb_uptime_s h]) ctx (rc, ctx')" for rc ctx'
  proof (cases "rc = DTL_OK")
    case True
    then show ?thesis
      using fed wvalid_weaken [OF Cons.IH [of "ups @ [hb_uptime_s h]" ctx' "\<lambda>_. True"], where Q = "\<lambda>x _. ?Q x" and P = "\<lambda>_. True" and E = E]
      by (auto simp: timeline_fed_def)
  next
    case False
    with fed show ?thesis by (auto simp: timeline_fed_def intro: wvalid_ret)
  qed
  show ?case
    unfolding timeline_feed.simps
    by (rule wvalid_bind [OF first], rule wvalid_given) (simp only: split_beta, rule later, simp only: prod.collapse)
qed

text \<open>
  C26. The verdict on the heartbeats is exact: after any sequence of heartbeats the timeline has one
  session per heartbeat, the violations are the adjacent pairs whose uptime falls and the gaps the
  adjacent pairs whose distance is above tolerance times expected interval, over the integers: neither
  the subtraction nor the product of the code wraps.  The only other outcome is that memory runs out.
\<close>

theorem timeline_counts_exact:
  assumes "world_ok w" "map we_rec evs = map RHeartbeat hs"
  shows "\<exists>rc ctx w'. timeline_feed evs (timeline_zero opts a) w = (Ok (rc, ctx), w') \<and> world_ok w' \<and>
    (rc = DTL_ERR_OOM \<or> rc = DTL_OK \<and>
     (let tl = tc_tl ctx; pairs = adjacent (map (\<lambda>h. (uint (hb_uptime_s h))) hs)
      in map ts_uptime_s (tl_sessions tl) = map hb_uptime_s hs \<and>
         tl_ordering_violations tl = length (filter (\<lambda>(x, y). y < x) pairs) \<and>
         tl_gap_count tl = length (filter (\<lambda>(x, y). y - x >
           uint (dtl_timeline_tolerance opts) * uint (dtl_timeline_expected opts)) pairs)))"
proof -
  have beats: "list_all2 beat evs hs"
    using assms(2) by (induction hs arbitrary: evs) (auto simp: beat_def)
  have zero: "timeline_inv [] (timeline_zero opts a)" by (simp add: timeline_inv_def timeline_zero_def)
  have lim: "tc_tolerance (timeline_zero opts a) = dtl_timeline_tolerance opts"
    "tc_expected (timeline_zero opts a) = dtl_timeline_expected opts" by (simp_all add: timeline_zero_def)
  obtain x w' where r: "timeline_feed evs (timeline_zero opts a) w = (Ok x, w')" "world_ok w'"
    "timeline_fed ([] @ map hb_uptime_s hs) (timeline_zero opts a) x"
    by (rule wpost_OkE [OF wvalidD [OF timeline_feed_valid [OF beats zero] assms(1) TrueI]])
  show ?thesis
    unfolding Let_def using r
    by (cases x) (auto simp: timeline_fed_def timeline_inv_def lim adjacent_map filter_map o_def is_gap_def [abs_def] is_reset_def [abs_def] split_beta)
qed

definition beat_at :: "u32 \<Rightarrow> dtl_record dtl_walk_event" where
  "beat_at t = \<lparr>we_section_type = 0, we_codec_id = 0, we_section_index = 0, we_record_in_sec = 0, we_record_index = 0,
     we_rec = RHeartbeat \<lparr>hb_uptime_s = t, hb_seq = 0\<rparr>\<rparr>"

theorem timeline_counts_exact_witness:
  "\<exists>rc ctx w'. timeline_feed (map beat_at [10, 70, 400, 5]) (timeline_zero None (dtl_arena_init report_block)) fresh_world = (Ok (rc, ctx), w') \<and>
    (rc = DTL_ERR_OOM \<or> tl_ordering_violations (tc_tl ctx) = 1 \<and> tl_gap_count (tc_tl ctx) = 1)"
  using timeline_counts_exact [OF fresh_world_ok, where evs = "map beat_at [10, 70, 400, 5]" and opts = None and
      hs = "map (\<lambda>t. \<lparr>hb_uptime_s = t, hb_seq = 0\<rparr>) [10, 70, 400, 5]" and a = "dtl_arena_init report_block"]
  by (auto simp: beat_at_def Let_def dtl_timeline_tolerance_def dtl_timeline_expected_def)

text \<open>
  C27. Every other record of a session reads uninitialised memory: opening a session sets one slot of
  its histogram, so the first record after a heartbeat that is not itself a heartbeat increments a slot
  that was never written.
\<close>

theorem timeline_histogram_uninitialised:
  assumes "we_rec ev = RHeartbeat h" "dtl_timeline_on_record ev ctx w = (Ok (DTL_OK, ctx'), w')"
    "rec_tag (we_rec ev') \<noteq> DTL_REC_HEARTBEAT"
  shows "fst (dtl_timeline_on_record ev' ctx' w') = Ub"
proof -
  obtain xs s where c: "tl_sessions (tc_tl ctx') = xs @ [s]" "tc_cur ctx' = Some (length xs)"
    "ts_per_tag s = (\<lambda>_. None)(DTL_REC_HEARTBEAT := Some 1)"
    using assms(1,2)
    by (auto simp: dtl_timeline_on_record_def dtl_timeline_open_session_def Let_def wbind_def wret_def
        split: prod.splits result.splits option.splits)
  with assms(3) show ?thesis
    by (cases "we_rec ev'") (auto simp: dtl_timeline_on_record_def session_count_def wbind_def wlift_def)
qed

definition net_event :: "dtl_record dtl_walk_event" where
  "net_event = mk_event \<lparr>sec_type = 0, sec_codec_id = 0, sec_raw_len = 0, sec_comp_len = 0, sec_offset = 0, sec_blob = None\<rparr> 0 1 1
     (RNet \<lparr>net_iface_id = 1, net_rx_bytes = 0, net_tx_bytes = 0, net_rx_pkts = 0, net_tx_pkts = 0\<rparr>)"

theorem timeline_histogram_uninitialised_witness:
  "\<exists>ctx w. dtl_timeline_on_record (beat_at 10) (timeline_zero None (dtl_arena_init report_block)) fresh_world = (Ok (DTL_OK, ctx), w) \<and>
    fst (dtl_timeline_on_record net_event ctx w) = Ub"
proof -
  have "\<exists>ctx w. dtl_timeline_on_record (beat_at 10) (timeline_zero None (dtl_arena_init report_block)) fresh_world = (Ok (DTL_OK, ctx), w)"
    by (simp add: dtl_timeline_on_record_def dtl_timeline_open_session_def beat_at_def timeline_zero_def vec_reserve_def
        sizeof_session_def report_block_def world_run arena_run)
  then show ?thesis
    using timeline_histogram_uninitialised [of "beat_at 10" "\<lparr>hb_uptime_s = 10, hb_seq = 0\<rparr>" _ _ _ _ net_event]
    by (auto simp: beat_at_def net_event_def rec_tags)
qed

end
