(* ===== verification/Report_Emit.thy ===== *)
theory Report_Emit
  imports Report_Base Query_Spec
begin

text \<open>
  The tools that rewrite a container: \<^verbatim>\<open>src/report/repack.c\<close>, \<^verbatim>\<open>sign.c\<close> and \<^verbatim>\<open>select.c\<close>.  Each walks its
  input once, keeps a shallow copy of the records together with the section they came from, and replays
  them through the writer.  The replay loop is the same text in all of them (and in \<^verbatim>\<open>dedup.c\<close> and
  \<^verbatim>\<open>sample.c\<close>), so it is one definition here; \<open>section_open\<close> and \<open>cur_section\<close> are one optional
  section number.

  All of them use one arena for the walk, for the retained items and for the writer: the arena of the
  world.  A shallow copy is the record itself, whose pointers are addresses in the heap.
\<close>

subsection \<open>Output files\<close>

text \<open>
  \<open>fopen (path, "wb")\<close> fails or gives a stream; \<open>fwrite\<close> stores as many bytes as the stream takes.
  A tool's result carries what ended up in the output file, \<open>None\<close> when it was never opened.
\<close>

type_synonym sinks = "string \<Rightarrow> nat option"

definition write_out :: "sinks \<Rightarrow> string \<Rightarrow> u8 list \<Rightarrow> dtl_err \<times> u8 list option" where
  "write_out snk path bytes = (case snk path of None \<Rightarrow> (DTL_ERR_IO, None)
     | Some room \<Rightarrow>
         if length bytes \<noteq> 0 \<and> length (take room bytes) \<noteq> length bytes then (DTL_ERR_IO, Some (take room bytes))
         else (DTL_OK, Some bytes))"

subsection \<open>Retained records\<close>

record dtl_repack_item =
  ri_section_index :: u16
  ri_section_type :: u16
  ri_rec :: dtl_record

record dtl_sign_item =
  si_section_index :: u16
  si_section_type :: u16
  si_codec_id :: u8
  si_rec :: dtl_record

type_synonym dtl_select_item = dtl_sign_item

text \<open>The growing array of the retained items; its memory comes from the arena of the walk.\<close>

record 'i item_vec =
  iv_items :: "'i list"
  iv_cap :: nat

definition item_push :: "nat \<Rightarrow> 'i \<Rightarrow> 'i item_vec \<Rightarrow> (dtl_err \<times> 'i item_vec) wm" where
  "item_push elem it ctx =
     wbind (vec_reserve 64 elem (length (iv_items ctx)) (iv_cap ctx) Walk_Arena) (\<lambda>(cap, _).
     case cap of None \<Rightarrow> wret (DTL_ERR_OOM, ctx)
     | Some cap \<Rightarrow> wret (DTL_OK, ctx\<lparr>iv_cap := cap, iv_items := iv_items ctx @ [it]\<rparr>))"

definition no_items :: "'i item_vec" where "no_items = \<lparr>iv_items = [], iv_cap = 0\<rparr>"

text \<open>The sizes of the items: a record is a tag and a union of at most 24 bytes.\<close>

definition sizeof_record :: nat where "sizeof_record = 32"
definition sizeof_item :: nat where "sizeof_item = 8 + sizeof_record"

definition dtl_repack_on_record :: "dtl_repack_item item_vec walk_fn" where
  "dtl_repack_on_record ev ctx =
     item_push sizeof_item \<lparr>ri_section_index = we_section_index ev, ri_section_type = we_section_type ev, ri_rec = we_rec ev\<rparr> ctx"

definition dtl_sign_on_record :: "dtl_sign_item item_vec walk_fn" where
  "dtl_sign_on_record ev ctx =
     item_push sizeof_item \<lparr>si_section_index = we_section_index ev, si_section_type = we_section_type ev,
       si_codec_id = we_codec_id ev, si_rec = we_rec ev\<rparr> ctx"

definition dtl_select_on_record :: "dtl_query \<Rightarrow> dtl_select_item item_vec walk_fn" where
  "dtl_select_on_record q ev ctx = (\<lambda>w.
     wbind (wlift (dtl_query_match (w_mem w) q (we_rec ev))) (\<lambda>hit.
     if \<not> hit then wret (DTL_OK, ctx)
     else item_push sizeof_item \<lparr>si_section_index = we_section_index ev, si_section_type = we_section_type ev,
            si_codec_id = we_codec_id ev, si_rec = we_rec ev\<rparr> ctx) w)"

subsection \<open>The replay\<close>

text \<open>What the loop needs of an item: section number, section type, output codec and record.\<close>

type_synonym emit_item = "u16 \<times> u16 \<times> u8 \<times> dtl_record"

definition open_section :: "u16 option \<Rightarrow> u16 \<Rightarrow> u8 \<Rightarrow> dtl_writer \<Rightarrow> (dtl_err \<times> dtl_writer) wm" where
  "open_section cur t codec w =
     wbind (case cur of None \<Rightarrow> wret (DTL_OK, w) | Some _ \<Rightarrow> dtl_writer_end_section w) (\<lambda>(rc, w).
     if rc \<noteq> DTL_OK then wret (rc, w)
     else case dtl_writer_begin_section t codec w of (h, w) \<Rightarrow>
       if h < 0 then wret (DTL_ERR_OOM, w) else wret (DTL_OK, w))"

fun emit_loop :: "emit_item list \<Rightarrow> u16 option \<Rightarrow> dtl_writer \<Rightarrow> (dtl_err \<times> u16 option \<times> dtl_writer) wm" where
  "emit_loop [] cur w = wret (DTL_OK, cur, w)"
| "emit_loop ((si, t, codec, r) # its) cur w =
     wbind (if cur \<noteq> Some si then open_section cur t codec w else wret (DTL_OK, w)) (\<lambda>(rc, w).
     if rc \<noteq> DTL_OK then wret (rc, cur, w)
     else wbind (dtl_writer_add_record r w) (\<lambda>(rc, w).
          if rc \<noteq> DTL_OK then wret (rc, Some si, w) else emit_loop its (Some si) w))"

definition emit_items :: "emit_item list \<Rightarrow> dtl_writer \<Rightarrow> (dtl_err \<times> dtl_writer) wm" where
  "emit_items its w =
     wbind (emit_loop its None w) (\<lambda>(rc, cur, w).
     if rc \<noteq> DTL_OK then wret (rc, w)
     else case cur of None \<Rightarrow> wret (DTL_OK, w) | Some _ \<Rightarrow> dtl_writer_end_section w)"

definition emit_output :: "sinks \<Rightarrow> string \<Rightarrow> dtl_writer \<Rightarrow> (dtl_err \<times> u8 list option) wm" where
  "emit_output snk out_path w =
     wbind (dtl_writer_finish w) (\<lambda>(rc, bytes, w).
     if rc \<noteq> DTL_OK then wret (rc, None)
     else case bytes of None \<Rightarrow> wlift Ub | Some bytes \<Rightarrow> wret (write_out snk out_path bytes))"

text \<open>The \<open>done\<close> label: release the arena, return what was decided.\<close>

definition with_arena :: "'a wm \<Rightarrow> 'a wm" where
  "with_arena f = wbind (w_arena_init report_block) (\<lambda>_. wbind f (\<lambda>r. wbind w_arena_free (\<lambda>_. wret r)))"

definition emit_and_write :: "emit_item list \<Rightarrow> sinks \<Rightarrow> string \<Rightarrow> (dtl_err \<times> u8 list option) wm" where
  "emit_and_write its snk out_path =
     wbind (emit_items its dtl_writer_init) (\<lambda>(rc, wr).
     if rc \<noteq> DTL_OK then wret (rc, None) else emit_output snk out_path wr)"

subsection \<open>The tools\<close>

definition dtl_repack_file :: "files \<Rightarrow> sinks \<Rightarrow> string \<Rightarrow> string \<Rightarrow> u8 \<Rightarrow> nat \<Rightarrow> (dtl_err \<times> u8 list option) wm" where
  "dtl_repack_file fs snk in_path out_path codec max_file =
     (if dtl_codec_get codec = None then wret (DTL_ERR_INVAL, None)
      else with_arena (
        wbind (dtl_walk_absorb fs (Some in_path) max_file (walk_with dtl_repack_on_record None 0) no_items) (\<lambda>(rc, ctx).
        if rc \<noteq> DTL_OK then wret (rc, None)
        else emit_and_write (map (\<lambda>it. (ri_section_index it, ri_section_type it, codec, ri_rec it)) (iv_items ctx)) snk out_path)))"

definition sign_items :: "dtl_sign_item list \<Rightarrow> emit_item list" where
  "sign_items its = map (\<lambda>it. (si_section_index it, si_section_type it, si_codec_id it, si_rec it)) its"

definition dtl_sign_file :: "files \<Rightarrow> sinks \<Rightarrow> string \<Rightarrow> string \<Rightarrow> u8 list \<Rightarrow> nat \<Rightarrow> (dtl_err \<times> u8 list option) wm" where
  "dtl_sign_file fs snk in_path out_path key max_file =
     (if length key = 0 then wret (DTL_ERR_INVAL, None)
      else with_arena (
        wbind (dtl_walk_absorb fs (Some in_path) max_file (walk_with dtl_sign_on_record None 0) no_items) (\<lambda>(rc, ctx).
        if rc \<noteq> DTL_OK then wret (rc, None)
        else wbind (emit_items (sign_items (iv_items ctx)) dtl_writer_init) (\<lambda>(rc, wr).
          if rc \<noteq> DTL_OK then wret (rc, None)
          else case dtl_writer_set_hmac key wr of (rc, wr) \<Rightarrow>
            if rc \<noteq> DTL_OK then wret (rc, None) else emit_output snk out_path wr))))"

text \<open>The number of kept records is reported once the output file was opened.\<close>

definition dtl_select_file :: "files \<Rightarrow> sinks \<Rightarrow> string \<Rightarrow> string \<Rightarrow> u8 list \<Rightarrow> nat \<Rightarrow>
    (dtl_err \<times> u8 list option \<times> nat option) wm" where
  "dtl_select_file fs snk in_path out_path expr max_file =
     with_arena (
       wbind (wtry (dtl_query_compile expr)) (\<lambda>r.
       case r of Inl rc \<Rightarrow> wret (rc, None, None)
       | Inr q \<Rightarrow>
           wbind (dtl_walk_absorb fs (Some in_path) max_file (walk_with (dtl_select_on_record q) None 0) no_items) (\<lambda>(rc, ctx).
           if rc \<noteq> DTL_OK then wret (rc, None, None)
           else wbind (emit_and_write (sign_items (iv_items ctx)) snk out_path) (\<lambda>(rc, written).
                wret (rc, written, if written = None then None else Some (length (iv_items ctx)))))))"

end
