(* ===== verification/Report_Emit_Spec.thy ===== *)
theory Report_Emit_Spec
  imports Report_Emit
begin

text \<open>
  What the rewriting tools produce.  The replay loop is a run of writer calls, so the refinement of the
  writer applies to it; the sections it opens are the runs of equal section numbers.  The locale
  \<open>retaining_tool\<close> is the contract of a callback that keeps every record.  A retained record whose fields
  are all in the record itself reads the same in every later heap; for containers of such records the
  output holds exactly the records of the input.
\<close>

subsection \<open>The replay as writer calls\<close>

fun item_ops :: "emit_item list \<Rightarrow> u16 option \<Rightarrow> wop list" where
  "item_ops [] cur = (if cur = None then [] else [WEnd])"
| "item_ops ((si, t, codec, r) # its) cur =
     (if cur = Some si then [] else (if cur = None then [] else [WEnd]) @ [WBegin t codec]) @ WRecord r # item_ops its (Some si)"

lemma writer_run_append: "writer_run (xs @ ys) w = wbind (writer_run xs w) (writer_run ys)"
proof (induction xs arbitrary: w)
  case (Cons op xs)
  then show ?case by (auto simp: wbind_def fun_eq_iff split: prod.splits result.splits)
qed simp

lemma wbind_assoc: "wbind (wbind f g) h = wbind f (\<lambda>x. wbind (g x) h)"
  by (auto simp: wbind_def fun_eq_iff split: prod.splits result.splits)

lemma wbind_if: "wbind (if c then f else g) h = (if c then wbind f h else wbind g h)"
  by simp

lemma wbind_cong: "(\<And>x. g x = g' x) \<Longrightarrow> wbind f g = wbind f g'"
  by (rule arg_cong [where f = "wbind f"]) (rule ext)

text \<open>A call that returns an error has latched it.\<close>

definition latches :: "(dtl_err \<times> dtl_writer) wm \<Rightarrow> bool" where
  "latches f \<longleftrightarrow> (\<forall>wd rc w wd'. f wd = (Ok (rc, w), wd') \<longrightarrow> rc \<noteq> DTL_OK \<longrightarrow> wr_err w \<noteq> DTL_OK)"

lemma latches_ret: "(rc \<noteq> DTL_OK \<Longrightarrow> wr_err w \<noteq> DTL_OK) \<Longrightarrow> latches (wret (rc, w))"
  by (auto simp: latches_def wret_def)

lemma latches_bind: "(\<And>x. latches (g x)) \<Longrightarrow> latches (wbind f g)"
  by (fastforce simp: latches_def wbind_def split: prod.splits result.splits)

lemma add_record_latches: "latches (dtl_writer_add_record r w)"
  unfolding dtl_writer_add_record_def dtl_writer_emit_tlv_def Let_def
  by (auto intro!: latches_ret latches_bind)

lemma end_section_latches: "latches (dtl_writer_end_section w)"
proof -
  have "latches (case r of Inl rc \<Rightarrow> wret (rc, latch rc w) | Inr out \<Rightarrow> if length out > 0xFFFFFFFF then wret (DTL_ERR_RANGE, latch DTL_ERR_RANGE w)
     else wbind (f out) (\<lambda>ss. wret (DTL_OK, w\<lparr>wr_sections := ss, wr_in_section := False\<rparr>)))" for r and f :: "u8 list \<Rightarrow> dtl_wsection list wm"
    by (cases r) (auto intro!: latches_ret latches_bind)
  then show ?thesis
    unfolding dtl_writer_end_section_def Let_def
    by (auto intro!: latches_ret latches_bind split: option.splits)
qed

text \<open>After an error the remaining calls would do nothing, so stopping there is the same.\<close>

lemma latches_stop:
  assumes "latches f" "\<And>w. wr_err w \<noteq> DTL_OK \<Longrightarrow> wmap k (h w) = wret w" "\<And>rc w. k (stop rc w) = w"
  shows "wmap k (wbind f (\<lambda>(rc, w). if rc \<noteq> DTL_OK then wret (stop rc w) else h w)) = wbind (wmap snd f) (\<lambda>w. wmap k (h w))"
proof
  fix wd
  show "wmap k (wbind f (\<lambda>(rc, w). if rc \<noteq> DTL_OK then wret (stop rc w) else h w)) wd = wbind (wmap snd f) (\<lambda>w. wmap k (h w)) wd"
  proof (cases "f wd")
    case (Pair r wd')
    show ?thesis
    proof (cases r)
      case (Ok x)
      obtain rc w where x: "x = (rc, w)" by (cases x)
      show ?thesis
      proof (cases "rc = DTL_OK")
        case False
        with assms(1) Pair Ok x have "wr_err w \<noteq> DTL_OK" by (auto simp: latches_def)
        with assms(2,3) Pair Ok x False show ?thesis by (simp add: wmap_def wbind_def wret_def)
      qed (use Pair Ok x in \<open>simp add: wmap_def wbind_def wret_def split: prod.splits result.splits\<close>)
    qed (use Pair in \<open>simp_all add: wmap_def wbind_def wret_def\<close>)
  qed
qed

lemma open_section_latches: "latches (open_section cur t c w)"
proof -
  have "latches (case dtl_writer_begin_section t c w of (h, w) \<Rightarrow> if h < 0 then wret (DTL_ERR_OOM, w) else wret (DTL_OK, w))" for w
    by (auto simp: dtl_writer_begin_section_def intro!: latches_ret)
  moreover have "latches (wbind f (\<lambda>(rc, w). if rc \<noteq> DTL_OK then wret (rc, w) else g w))"
    if f: "latches f" and g: "\<And>w. latches (g w)" for f g
    using f g by (fastforce simp: latches_def wbind_def wret_def split: prod.splits result.splits if_splits)
  ultimately show ?thesis
    unfolding open_section_def
    by (cases cur; simp only: option.case wbind_simps prod.case simp_thms if_False end_section_latches)
qed

lemma open_section_run:
  "wmap snd (open_section cur t c w) = writer_run ((if cur = None then [] else [WEnd]) @ [WBegin t c]) w"
proof -
  have opened: "wmap snd (case dtl_writer_begin_section t c w of (h, w) \<Rightarrow> if h < 0 then wret (DTL_ERR_OOM, w) else wret (DTL_OK, w))
    = writer_run [WBegin t c] w" for w
    by (cases "dtl_writer_begin_section t c w") (simp add: wmap_def wbind_def wret_def fun_eq_iff)
  have stop: "wmap snd (case dtl_writer_begin_section t c w of (h, w) \<Rightarrow> if h < 0 then wret (DTL_ERR_OOM, w) else wret (DTL_OK, w))
    = wret w" if "wr_err w \<noteq> DTL_OK" for w using run_latched [OF that] by (simp only: opened)
  show ?thesis
  proof (cases cur)
    case None
    then show ?thesis using opened [of w] by (simp add: open_section_def)
  next
    case (Some si)
    show ?thesis
      unfolding open_section_def Some option.case
      by (subst latches_stop [OF end_section_latches stop]) (simp_all only: opened snd_conv append.simps writer_run.simps(2) [of WEnd] writer_do.simps
          option.distinct if_False simp_thms)
  qed
qed

lemma emit_loop_run:
  "wmap snd (wbind (emit_loop its cur w) (\<lambda>(rc, cur, w). if rc \<noteq> DTL_OK then wret (rc, w)
     else case cur of None \<Rightarrow> wret (DTL_OK, w) | Some _ \<Rightarrow> dtl_writer_end_section w)) = writer_run (item_ops its cur) w"
proof (induction its arbitrary: cur w)
  case Nil
  have "wbind f (writer_run []) = f" for f :: "dtl_writer wm"
    by (auto simp: wbind_def wret_def fun_eq_iff split: prod.splits result.splits)
  note id = this
  show ?case
  proof (cases cur)
    case None
    then show ?thesis by (simp add: wmap_def)
  next
    case (Some si)
    then show ?thesis by (simp add: wmap_def id del: writer_run.simps(1))
  qed
next
  case (Cons it its)
  obtain si t c r where it: "it = (si, t, c, r)" by (cases it)
  let ?close = "\<lambda>(rc, cur, w). if rc \<noteq> DTL_OK then wret (rc, w)
     else case cur of None \<Rightarrow> wret (DTL_OK, w) | Some _ \<Rightarrow> dtl_writer_end_section w"
  define rec where "rec w = wbind (dtl_writer_add_record r w) (\<lambda>(rc, w).
      if rc \<noteq> DTL_OK then wret (rc, w) else wbind (emit_loop its (Some si) w) ?close)" for w
  have rec_run: "wmap snd (rec w) = writer_run (WRecord r # item_ops its (Some si)) w" for w
    unfolding rec_def
    by (subst latches_stop [OF add_record_latches])
      (simp_all only: Cons.IH run_latched snd_conv simp_thms writer_run.simps(2) [of "WRecord _"] writer_do.simps)
  have unfold: "wbind (emit_loop (it # its) cur w) ?close =
      wbind (if cur \<noteq> Some si then open_section cur t c w else wret (DTL_OK, w)) (\<lambda>(rc, w). if rc \<noteq> DTL_OK then wret (rc, w) else rec w)"
    unfolding it emit_loop.simps wbind_assoc rec_def 
    by (intro wbind_cong, simp add: wbind_if split_beta wbind_assoc, intro impI wbind_cong) (simp add: split_beta)
  have "latches (if cur \<noteq> Some si then open_section cur t c w else wret (DTL_OK, w))"
    by (auto intro: open_section_latches latches_ret)
  then have "wmap snd (wbind (emit_loop (it # its) cur w) ?close) =
      wbind (wmap snd (if cur \<noteq> Some si then open_section cur t c w else wret (DTL_OK, w))) (\<lambda>w. wmap snd (rec w))"
    unfolding unfold by (rule latches_stop) (simp_all only: rec_run run_latched snd_conv simp_thms)
  moreover have "wbind (wmap snd (if cur \<noteq> Some si then open_section cur t c w else wret (DTL_OK, w))) (\<lambda>w. wmap snd (rec w)) =
      writer_run (item_ops (it # its) cur) w"
  proof (cases "cur = Some si")
    case True
    then show ?thesis using rec_run [of w] by (simp add: it wmap_def)
  next
    case False
    then have "item_ops (it # its) cur = ((if cur = None then [] else [WEnd]) @ [WBegin t c]) @ WRecord r # item_ops its (Some si)"
      by (simp add: it)
    then show ?thesis using False by (simp only: open_section_run rec_run if_True simp_thms writer_run_append)
  qed
  ultimately show ?case by (rule trans)
qed

lemma emit_items_run: "wmap snd (emit_items its w) = writer_run (item_ops its None) w"
  unfolding emit_items_def by (rule emit_loop_run)

subsection \<open>The sections of the replay\<close>

text \<open>A run of items with the same section number becomes a section; its type and codec are those of its first item.\<close>

type_synonym placed = "u16 \<times> u16 \<times> u8 \<times> item"

fun sections_of :: "placed list \<Rightarrow> (u16 \<times> asection) option \<Rightarrow> asection list" where
  "sections_of [] None = []"
| "sections_of [] (Some (_, a)) = [a]"
| "sections_of ((si, t, c, x) # its) None = sections_of its (Some (si, t, c, [x]))"
| "sections_of ((si, t, c, x) # its) (Some (sj, t', c', xs)) =
     (if si = sj then sections_of its (Some (si, t', c', xs @ [x]))
      else (t', c', xs) # sections_of its (Some (si, t, c, [x])))"

definition placed_as :: "mem \<Rightarrow> emit_item \<Rightarrow> placed \<Rightarrow> bool" where
  "placed_as m it p \<longleftrightarrow> (case (it, p) of ((si, t, c, r), (si', t', c', x)) \<Rightarrow> si' = si \<and> t' = t \<and> c' = c \<and>
     rec_shape r \<and> (\<exists>v. record_view m r = Ok v \<and> x = (rec_tag r, payload_of v)))"

lemma alog_run_record:
  assumes "record_view m r = Ok v" "x = (rec_tag r, payload_of v)"
  shows "alog_run m (WRecord r # ops) al = Some al' \<longleftrightarrow> (\<exists>t c xs. al_open al = Some (t, c, xs) \<and> length (snd x) \<le> 0xFFFF \<and>
    alog_run m ops (al\<lparr>al_open := Some (t, c, xs @ [x])\<rparr>) = Some al')"
  using assms by (cases "al_open al") (auto simp: add_item_def split: if_splits)

lemma alog_run_begin:
  "alog_run m (WBegin t c # ops) al = Some al' \<longleftrightarrow> al_open al = None \<and> length (al_done al) < 64 \<and>
     alog_run m ops (al\<lparr>al_open := Some (t, c, [])\<rparr>) = Some al'"
  by auto

lemma alog_run_end:
  "alog_run m (WEnd # ops) al = Some al' \<longleftrightarrow> (\<exists>a. al_open al = Some a \<and> 0 < length (stream (snd (snd a))) \<and>
     length (stream (snd (snd a))) \<le> DTL_SECTION_MAX_RAW \<and> fst (snd a) \<le> 6 \<and>
     alog_run m ops (al\<lparr>al_done := al_done al @ [a], al_open := None\<rparr>) = Some al')"
  by (cases "al_open al") (auto split: if_splits)

lemma alog_run_items:
  assumes "list_all2 (placed_as m) its ps" "alog_run m (item_ops its cur) al = Some al'"
    and "cur = map_option fst now" "al_open al = map_option snd now"
  shows "al_done al' = al_done al @ sections_of ps now \<and> al_open al' = None"
  using assms
proof (induction its ps arbitrary: cur al now rule: list_all2_induct)
  case Nil
  then show ?case by (cases now) (auto simp: alog_run_end simp del: alog_run.simps(2))
next
  case (Cons it its p ps)
  obtain si t c r x v where it: "it = (si, t, c, r)" "p = (si, t, c, x)" and rv: "record_view m r = Ok v" "x = (rec_tag r, payload_of v)"
    using Cons.hyps(1) by (cases it; cases p) (auto simp: placed_as_def)
  have later: "al_done al' = al_done a1 @ sections_of ps (Some (si, t1, c1, ys)) \<and> al_open al' = None"
    if "alog_run m (item_ops its (Some si)) a1 = Some al'" "al_open a1 = Some (t1, c1, ys)" for a1 t1 c1 ys
    using Cons.IH [OF that(1), of "Some (si, t1, c1, ys)"] that(2) by simp
  note run = Cons.prems(1) [unfolded it item_ops.simps Cons.prems(2)]
  show ?case
  proof (cases now)
    case None
    then show ?thesis
      using run later [of "al\<lparr>al_open := Some (t, c, [x])\<rparr>" t c "[x]"] it(2)
      by (simp add: alog_run_begin alog_run_record [OF rv] del: alog_run.simps(2))
  next
    case (Some n)
    obtain sj t' c' xs where n: "n = (sj, t', c', xs)" by (cases n)
    have o: "al_open al = Some (t', c', xs)" using Cons.prems(3) Some n by simp
    show ?thesis
    proof (cases "sj = si")
      case True
      then show ?thesis
        using run later [of "al\<lparr>al_open := Some (t', c', xs @ [x])\<rparr>" t' c' "xs @ [x]"] it(2) Some n o
        by (simp add: alog_run_record [OF rv] del: alog_run.simps(2))
    next
      case False
      then show ?thesis
        using run later [of "al\<lparr>al_done := al_done al @ [(t', c', xs)], al_open := Some (t, c, [x])\<rparr>" t c "[x]"] it(2) Some n o
        by (auto simp: alog_run_begin alog_run_end alog_run_record [OF rv] simp del: alog_run.simps(2))
    qed
  qed
qed

text \<open>The items in order, and the codecs.\<close>

definition section_items :: "asection \<Rightarrow> item list" where "section_items a = snd (snd a)"
definition section_codec :: "asection \<Rightarrow> u8" where "section_codec a = fst (snd a)"

lemma sections_items:
  "concat (map section_items (sections_of ps now)) =
     (case now of None \<Rightarrow> [] | Some (_, a) \<Rightarrow> section_items a) @ map (\<lambda>(_, _, _, x). x) ps"
  by (induction ps now rule: sections_of.induct) (auto simp: section_items_def)

lemma sections_codecs:
  "section_codec ` set (sections_of ps now) \<subseteq> (case now of None \<Rightarrow> {} | Some (_, a) \<Rightarrow> {section_codec a}) \<union> (\<lambda>(_, _, c, _). c) ` set ps"
  by (induction ps now rule: sections_of.induct) (auto simp: section_codec_def split: if_splits)

subsection \<open>The output file\<close>

lemma finish_world: "world_ok wd \<Longrightarrow> dtl_writer_finish w wd = (r, wd') \<Longrightarrow> world_ok wd'"
  by (cases "dtl_arena_alloc (w_mem wd) (w_arena wd) (12 + length (wr_sections w) * 16 + (\<Sum>s \<leftarrow> wr_sections w. unat (ws_comp_len s)) +
        (if wr_has_hmac w then DTL_HMAC_LEN else 0))")
    (auto simp: dtl_writer_finish_def Let_def wbind_def wret_def w_arena_alloc_def wlift_def dest: world_ok_arena_alloc
      split: if_splits option.splits result.splits)

text \<open>A file that holds a finished container of the given sections.\<close>

definition holds_sections :: "u8 list \<Rightarrow> asection list \<Rightarrow> bool" where
  "holds_sections buf as \<longleftrightarrow> (\<exists>c. container_of buf = Ok c \<and> list_all2 (section_holds buf) (cont_sections c) as)"

lemma container_parse_alloc:
  assumes "fst (dtl_container_parse m a (dtl_buf_init data)) = Err DTL_ERR_OOM" "container_of data \<noteq> Err DTL_ERR_OOM"
  shows "\<exists>k :: u16. k \<noteq> 0 \<and> fst (dtl_arena_alloc m a (unat k * sizeof_dtl_section)) = None"
proof (cases "parse_header (dtl_buf_init data)")
  case (Ok p)
  obtain v f n b where p: "p = ((v, f, n), b)" by (cases p) auto
  show ?thesis
  proof (rule ccontr)
    assume no: "\<not> ?thesis"
    then have "fst (dtl_container_read_table m a b n) = read_table_loop (unat n) b"
      by (cases "dtl_arena_alloc m a (unat n * sizeof_dtl_section)") (force simp: dtl_container_read_table_def split: option.splits)
    then have "fst (dtl_container_parse m a (dtl_buf_init data)) = container_of data"
      using Ok p by (cases "dtl_container_read_table m a b n")
        (auto simp: dtl_container_parse_def container_of_def split: result.splits prod.splits)
    then show False using assms by simp
  qed
qed (use assms in \<open>auto simp: dtl_container_parse_def container_of_def\<close>)

lemma container_of_no_oom: "container_of data \<noteq> Err DTL_ERR_OOM"
proof -
  have buf: "dtl_buf_read_u8 b \<noteq> Err DTL_ERR_OOM" "dtl_buf_read_u16 b \<noteq> Err DTL_ERR_OOM" "dtl_buf_read_u32 b \<noteq> Err DTL_ERR_OOM" for b
    by (simp_all add: dtl_buf_read_u8_def dtl_buf_read_u16_def dtl_buf_read_u32_def dtl_endian_read_u16le_def
        dtl_endian_read_u32le_def rbind_eq_Err_iff byte_at_def)
  have table: "read_table_loop n b \<noteq> Err DTL_ERR_OOM" for n b
    by (induction n arbitrary: b) (auto simp: rbind_eq_Err_iff read_section_entry_def buf split: if_splits)
  have "total_comp ss n \<noteq> Err DTL_ERR_OOM" for ss n by (induction ss n rule: total_comp.induct) auto
  moreover have "resolve_loop ss base len \<noteq> Err DTL_ERR_OOM" for ss base len
    by (induction ss base len rule: resolve_loop.induct) (auto simp: Let_def rbind_eq_Err_iff split: if_splits)
  ultimately have "dtl_container_resolve_blobs ss base len \<noteq> Err DTL_ERR_OOM" for ss base len
    by (auto simp: dtl_container_resolve_blobs_def rbind_eq_Err_iff split: if_splits)
  moreover have "parse_header b \<noteq> Err DTL_ERR_OOM" for b
    by (auto simp: parse_header_def rbind_eq_Err_iff buf slice_at_def dtl_crc32_eq_ref split: if_splits)
  moreover have "locate_blobs b f \<noteq> Err DTL_ERR_OOM" for b f by (simp add: locate_blobs_def Let_def)
  ultimately show ?thesis by (auto simp: container_of_def rbind_eq_Err_iff table)
qed

lemma container_parse_succeeds:
  "fst (dtl_container_parse (mem_init (\<lambda>_ _. False)) (dtl_arena_init 0) (dtl_buf_init data)) = container_of data"
proof -
  let ?m = "mem_init (\<lambda>_ _. False)" and ?a = "dtl_arena_init 0"
  have "fst (dtl_arena_alloc ?m ?a (unat k * sizeof_dtl_section)) \<noteq> None" if "k \<noteq> 0" for k :: u16
  proof -
    have "unat k < 2 ^ 16" by (rule order_less_le_trans [OF unsigned_less]) simp
    then have le: "unat k \<le> 65535" by simp
    have "unat k * sizeof_dtl_section \<le> SIZE_MAX - 15"
      by (rule order_trans [OF mult_le_mono1 [OF le]]) (simp add: sizeof_dtl_section_def SIZE_MAX_def)
    then have "\<exists>p a' m'. dtl_arena_alloc ?m ?a (unat k * sizeof_dtl_section) = (Some p, a', m')"
      using that by (intro arena_alloc_succeeds) (simp_all add: mem_init_def dtl_arena_init_def sizeof_dtl_section_def unat_gt_0)
    then show ?thesis by auto
  qed
  then have "fst (dtl_container_parse ?m ?a (dtl_buf_init data)) \<noteq> Err DTL_ERR_OOM"
    using container_parse_alloc [OF _ container_of_no_oom] by blast
  then show ?thesis
    using container_parse_pure(1) [of ?m ?a data] by (cases "dtl_container_parse ?m ?a (dtl_buf_init data)") auto
qed

text \<open>Finishing a run of calls and writing the file.\<close>

lemma output_exact:
  assumes "world_ok wd" "list_all (op_ok (w_mem wd)) ops" "writer_run ops dtl_writer_init wd = (Ok w, wd1)"
  shows "\<exists>rc out wd2. emit_output snk path w wd1 = (Ok (rc, out), wd2) \<and> world_ok wd2 \<and>
    (rc = DTL_OK \<longrightarrow> (\<exists>al body. alog_run (w_mem wd) ops alog_init = Some al \<and>
       out = Some (body @ (if wr_has_hmac w then mac_ref (wr_hmac_key w) body else [])) \<and> holds_sections (the out) (al_done al)))"
proof -
  from writer_run_refines [OF assms] have wd1: "world_ok wd1" and ok: "writer_ok w"
    and sim: "wr_err w = DTL_OK \<longrightarrow> (\<exists>al. alog_run (w_mem wd) ops alog_init = Some al \<and> writer_sim w al)" by auto
  obtain r wd2 where f: "dtl_writer_finish w wd1 = (r, wd2)" by force
  note wd2 = finish_world [OF wd1 f]
  show ?thesis
  proof (cases "wr_err w = DTL_OK")
    case False
    then have "r = Ok (wr_err w, None, w)" using f by (simp add: dtl_writer_finish_def wret_def)
    with False f wd2 show ?thesis by (simp add: emit_output_def wbind_def wret_def)
  next
    case True
    with sim obtain al where al: "alog_run (w_mem wd) ops alog_init = Some al" "writer_sim w al" by blast
    from finish_cases [OF al(2) wd1 f] show ?thesis
    proof (elim disjE exE conjE)
      fix e w' assume "r = Ok (e, None, w')" "e \<noteq> DTL_OK"
      with f wd2 show ?thesis by (simp add: emit_output_def wbind_def wret_def)
    next
      assume r: "r = Ok (DTL_OK, Some (container_body w @ container_trailer w), w)" and op: "\<not> wr_in_section w"
        and small: "length (blobs_of (wr_sections w)) \<le> 0xFFFFFFFF"
      let ?buf = "container_body w @ container_trailer w"
      have secs: "list_all2 wsection_of (wr_sections w) (al_done al)" using al(2) True by (simp add: writer_sim_def)
      have "holds_sections ?buf (al_done al)"
        using container_of_writer [OF secs ok small, of "mem_init (\<lambda>_ _. False)" "dtl_arena_init 0"]
          container_parse_succeeds [of ?buf] container_of_no_oom [of ?buf] by (metis (no_types, lifting) fst_conv holds_sections_def)
      moreover obtain rc out where o: "write_out snk path ?buf = (rc, out)" by force
      moreover have "rc = DTL_OK \<Longrightarrow> out = Some ?buf" using o by (auto simp: write_out_def split: option.splits if_splits)
      ultimately show ?thesis
        using f wd2 r al(1) by (auto simp: emit_output_def wbind_def wret_def container_trailer_def)
    qed
  qed
qed

lemma items_op_ok: "list_all2 (placed_as m) its ps \<Longrightarrow> list_all (op_ok m) (item_ops its cur)"
  by (induction its ps arbitrary: cur rule: list_all2_induct) (auto simp: placed_as_def split: prod.splits)

lemma emit_items_Ok:
  assumes "world_ok wd" "list_all2 (placed_as (w_mem wd)) its ps"
  obtains rc w wd1 where "emit_items its dtl_writer_init wd = (Ok (rc, w), wd1)" "writer_run (item_ops its None) dtl_writer_init wd = (Ok w, wd1)"
    "world_ok wd1"
proof -
  obtain r wd1 where r: "writer_run (item_ops its None) dtl_writer_init wd = (r, wd1)" by force
  with writer_run_refines [OF assms(1) items_op_ok [OF assms(2)] r] obtain w where w: "r = Ok w" "world_ok wd1" by auto
  have "wmap snd (emit_items its dtl_writer_init) wd = (Ok w, wd1)" using r w by (simp add: emit_items_run)
  then obtain rc where "emit_items its dtl_writer_init wd = (Ok (rc, w), wd1)"
    by (auto simp: wmap_def wbind_def wret_def split: prod.splits result.splits)
  with that r w show thesis by blast
qed

text \<open>Emitting live items: the sections of the output are the runs of the items.\<close>

lemma emit_and_write_exact:
  assumes "world_ok wd" "list_all2 (placed_as (w_mem wd)) its ps"
  shows "\<exists>rc out wd'. emit_and_write its snk path wd = (Ok (rc, out), wd') \<and> world_ok wd' \<and>
    (rc = DTL_OK \<longrightarrow> (\<exists>buf. out = Some buf \<and> holds_sections buf (sections_of ps None)))"
proof -
  obtain rc w wd1 where e: "emit_items its dtl_writer_init wd = (Ok (rc, w), wd1)"
    "writer_run (item_ops its None) dtl_writer_init wd = (Ok w, wd1)" "world_ok wd1" by (rule emit_items_Ok [OF assms])
  show ?thesis
  proof (cases "rc = DTL_OK")
    case False
    then show ?thesis using e by (simp add: emit_and_write_def wbind_def wret_def)
  next
    case True
    note x = output_exact [OF assms(1) items_op_ok [OF assms(2), of None] e(2), of snk path]
    have "al_done al = sections_of ps None" if "alog_run (w_mem wd) (item_ops its None) alog_init = Some al" for al
      using alog_run_items [OF assms(2) that, of None] by (simp add: alog_init_def)
    with x True e(1) show ?thesis by (fastforce simp: emit_and_write_def wbind_def)
  qed
qed

subsection \<open>Records without pointers\<close>

fun flat :: "rec_val \<Rightarrow> bool" where
  "flat (VHeartbeat _) \<longleftrightarrow> True"
| "flat (VGeo _) \<longleftrightarrow> True"
| "flat (VBattery _) \<longleftrightarrow> True"
| "flat (VNet _) \<longleftrightarrow> True"
| "flat (VFirmware _) \<longleftrightarrow> True"
| "flat _ \<longleftrightarrow> False"

definition flat_container :: "u8 list \<Rightarrow> nat \<Rightarrow> bool" where
  "flat_container data max_decode \<longleftrightarrow> (\<forall>items. walk_shows data max_decode items \<longrightarrow> (\<forall>v \<in> set (seen_values items). flat v))"

lemma flat_view:
  assumes "record_view m r = Ok v" "flat v" "fresh_rec r"
  shows "record_view m' r = Ok v \<and> rec_shape r"
  using assms by (cases r) (auto simp: rbind_eq_Ok_iff)

lemma flat_c_strings: "flat (c_strings v) \<Longrightarrow> c_strings v = v"
  by (cases v) auto

lemma flat_payload: "flat v \<Longrightarrow> val_wf v \<Longrightarrow> length (payload_of v) \<le> 0xFFFF"
  by (cases v) auto

subsection \<open>Retaining every record\<close>

text \<open>What a retained item keeps of the event with value \<open>ev\<close>: its section, its tag and, for a flat record, its value.\<close>

definition retained :: "u16 \<times> u16 \<times> dtl_record \<Rightarrow> rec_val dtl_walk_event \<Rightarrow> bool" where
  "retained it ev \<longleftrightarrow> (case it of (si, t, r) \<Rightarrow> si = we_section_index ev \<and> t = we_section_type ev \<and>
     rec_tag r = val_tag (we_rec ev) \<and> (flat (we_rec ev) \<longrightarrow> rec_shape r \<and> (\<forall>m. record_view m r = Ok (we_rec ev))))"

fun seen_step :: "walk_item \<Rightarrow> rec_val dtl_walk_event list \<Rightarrow> rec_val dtl_walk_event list" where
  "seen_step (Seen ev) evs = evs @ [ev]"
| "seen_step (Failed e) evs = evs"

fun seen_events :: "walk_item list \<Rightarrow> rec_val dtl_walk_event list" where
  "seen_events [] = []"
| "seen_events (Seen ev # xs) = ev # seen_events xs"
| "seen_events (Failed e # xs) = seen_events xs"

lemma seen_steps: "fold seen_step items evs = evs @ seen_events items"
  by (induction items arbitrary: evs rule: seen_events.induct) auto

lemma seen_values_events: "seen_values items = map we_rec (seen_events items)"
  by (induction items rule: seen_events.induct) (auto simp: seen_values_def)

text \<open>
  The contract of a tool's callback: it keeps every record, as an item \<open>mk ev\<close> of which \<open>place\<close> reads the
  section number and type and the record of the event back.
\<close>

locale retaining_tool =
  fixes on_record :: "'i item_vec walk_fn" and elem :: nat and mk :: "dtl_record dtl_walk_event \<Rightarrow> 'i"
    and place :: "'i \<Rightarrow> u16 \<times> u16 \<times> dtl_record"
  assumes keeps: "on_record ev ctx = item_push elem (mk ev) ctx"
    and place: "place (mk ev) = (we_section_index ev, we_section_type ev, we_rec ev)"
begin

definition vec_rel :: "'i item_vec \<Rightarrow> rec_val dtl_walk_event list \<Rightarrow> bool" where
  "vec_rel ctx evs \<longleftrightarrow> list_all2 retained (map place (iv_items ctx)) evs"

lemma push_valid:
  assumes "vec_rel ctx evs" "retained (place it) ev"
  shows "wvalid P (item_push elem it ctx) (\<lambda>(rc, ctx') w. rc = DTL_OK \<and> vec_rel ctx' (evs @ [ev]) \<or> rc = DTL_ERR_OOM) (\<lambda>_. False)"
  unfolding item_push_def
  by (rule wvalid_bind [OF vec_reserve_any])
    (use assms in \<open>auto simp: vec_rel_def intro!: wvalid_ret list_all2_appendI split: option.splits\<close>)

sublocale walk_client on_record None vec_rel seen_step
proof unfold_locales
  fix ctx evs r v sec si n i assume rel: "vec_rel ctx evs" and fresh: "fresh_rec r"
  have kept: "retained (place (mk (mk_event sec si n i r))) (mk_event sec si n i v)" if "record_view m r = Ok v" for m
    using flat_view [OF that _ fresh] record_view_tag [OF that] by (auto simp: place retained_def)
  show "wvalid (\<lambda>w. record_view (w_mem w) r = Ok v) (on_record (mk_event sec si n i r) ctx)
      (\<lambda>(rc, ctx') w. rc = DTL_OK \<and> vec_rel ctx' (seen_step (Seen (mk_event sec si n i v)) evs) \<or> rc = DTL_ERR_OOM) (\<lambda>_. False)"
    unfolding keeps seen_step.simps
    by (rule wvalid_pre [where P' = "\<lambda>w. retained (place (mk (mk_event sec si n i r))) (mk_event sec si n i v) \<and> True"],
        simp add: kept, rule wvalid_conj, rule push_valid [OF rel])
qed simp_all

lemma absorb_retains:
  assumes "\<And>data. file_bytes fs path max_file = Ok data \<Longrightarrow> decodes_safely data" "world_ok w"
  obtains rc ctx w' where "dtl_walk_absorb fs path max_file (walk_with on_record None 0) no_items w = (Ok (rc, ctx), w')" "world_ok w'"
    "rc = DTL_OK \<longrightarrow> (\<exists>data items. file_bytes fs path max_file = Ok data \<and> walk_shows data DTL_WALK_DEFAULT_MAX_DECODE items \<and>
       list_all2 retained (map place (iv_items ctx)) (seen_events items))"
proof -
  have rel: "vec_rel no_items []" by (simp add: vec_rel_def no_items_def)
  have "wvalid (\<lambda>_. True) (dtl_walk_absorb fs path max_file (walk_with on_record None 0) no_items)
      (\<lambda>x w. file_post vec_rel seen_step DTL_WALK_DEFAULT_MAX_DECODE fs path max_file [] x) (\<lambda>_. False)"
    using walk_absorb_valid [OF assms(1) rel, where k = 0 and P = "\<lambda>_. True"] by simp
  from file_run [OF this assms(2)] obtain rc ctx w' where
    r: "dtl_walk_absorb fs path max_file (walk_with on_record None 0) no_items w = (Ok (rc, ctx), w')" "world_ok w'"
    "file_post vec_rel seen_step DTL_WALK_DEFAULT_MAX_DECODE fs path max_file [] (rc, ctx)" by blast
  show thesis
    using file_post_OK [of vec_rel seen_step DTL_WALK_DEFAULT_MAX_DECODE fs path max_file "[]" ctx] r
    by (intro that [OF r(1,2)]) (auto simp: seen_steps vec_rel_def)
qed

end

interpretation repack: retaining_tool dtl_repack_on_record sizeof_item
  "\<lambda>ev. \<lparr>ri_section_index = we_section_index ev, ri_section_type = we_section_type ev, ri_rec = we_rec ev\<rparr>"
  "\<lambda>it. (ri_section_index it, ri_section_type it, ri_rec it)"
  by unfold_locales (simp_all add: dtl_repack_on_record_def)

interpretation sign: retaining_tool dtl_sign_on_record sizeof_item
  "\<lambda>ev. \<lparr>si_section_index = we_section_index ev, si_section_type = we_section_type ev, si_codec_id = we_codec_id ev, si_rec = we_rec ev\<rparr>"
  "\<lambda>it. (si_section_index it, si_section_type it, si_rec it)"
  by unfold_locales (simp_all add: dtl_sign_on_record_def)

subsection \<open>Reading the output\<close>

definition val_item :: "rec_val \<Rightarrow> item" where "val_item v = (val_tag v, payload_of v)"

lemma retained_placed:
  assumes "list_all2 retained (map place its) evs" "\<forall>ev \<in> set evs. flat (we_rec ev)"
    "\<And>it. emit it = (fst (place it), fst (snd (place it)), codec it, snd (snd (place it)))"
  shows "\<exists>ps. list_all2 (placed_as m) (map emit its) ps \<and> map (\<lambda>(_, _, _, x). x) ps = map (\<lambda>ev. val_item (we_rec ev)) evs \<and>
    (\<lambda>(_, _, c, _). c) ` set ps \<subseteq> codec ` set its"
  using assms(1,2)
proof (induction its arbitrary: evs)
  case (Cons it its)
  then obtain ev evs' where evs: "evs = ev # evs'" and r: "retained (place it) ev" and rest: "list_all2 retained (map place its) evs'"
    by (auto simp: list_all2_Cons1)
  obtain ps where ps: "list_all2 (placed_as m) (map emit its) ps" "map (\<lambda>(_, _, _, x). x) ps = map (\<lambda>ev. val_item (we_rec ev)) evs'"
    "(\<lambda>(_, _, c, _). c) ` set ps \<subseteq> codec ` set its" using Cons.IH [OF rest] Cons.prems(2) evs by auto
  let ?p = "(fst (place it), fst (snd (place it)), codec it, val_item (we_rec ev))"
  have "placed_as m (emit it) ?p"
    using r Cons.prems(2) evs by (cases "place it") (auto simp: assms(3) placed_as_def retained_def val_item_def)
  with ps evs show ?case by (intro exI [of _ "?p # ps"]) auto
qed simp

lemma concat_eq_map:
  assumes "concat xss = map f ys"
  shows "\<exists>yss. xss = map (map f) yss \<and> concat yss = ys"
  using assms
proof (induction xss arbitrary: ys)
  case (Cons xs xss)
  then obtain us vs where "ys = us @ vs" "xs = map f us" "concat xss = map f vs" by (auto simp: append_eq_map_conv)
  with Cons.IH [of vs] show ?case by (metis concat.simps(2) list.simps(9))
qed simp

text \<open>Values that survive being written and read: their strings end where they are written to end.\<close>

definition readable :: "rec_val \<Rightarrow> bool" where
  "readable v \<longleftrightarrow> val_wf v \<and> c_strings v = v \<and> length (payload_of v) \<le> 0xFFFF"

lemma flat_readable: "flat v \<Longrightarrow> val_wf v \<Longrightarrow> readable v"
  using flat_payload [of v] by (cases v) (simp_all add: readable_def)

lemma stream_reads_values:
  assumes "\<forall>v \<in> set vs. readable v"
  shows "stream_reads (stream (map val_item vs)) (map Inr vs)"
  using assms
proof (induction vs)
  case Nil
  have "no_frame []" by (auto simp: no_frame_def tlv_frame_def tlv_bytes_def)
  then show ?case by (simp add: stream_def stream_reads_end)
next
  case (Cons v vs)
  have "tlv_wf (rec_tlv v)"
    using Cons.prems by (simp add: readable_def tlv_wf_def rec_tlv_def unat_of_nat_u16)
  moreover have "tlv_reads (rec_tlv v) (Inr v)"
    using Cons.prems by (auto simp: readable_def tlv_reads_def intro!: exI [of _ v])
  ultimately have "stream_reads (tlv_frame (rec_tlv v) @ stream (map val_item vs)) (Inr v # map Inr vs)"
    using Cons by (intro stream_reads_frame) simp_all
  then show ?case by (simp add: stream_def val_item_def o_def tlv_frame_def)
qed

lemma section_holds_reads:
  assumes "section_holds buf s a" "section_items a = map val_item vs" "\<forall>v \<in> set vs. readable v" "unat (sec_raw_len s) \<le> max_decode"
  shows "section_reads buf max_decode s (Inr (map Inr vs))"
proof -
  obtain t c where a: "a = (t, c, map val_item vs)" using assms(2) by (cases a) (auto simp: section_items_def)
  let ?m = "mem_init (\<lambda>_ _. False)"
  have m: "mem_ok ?m" "heap_never_fails ?m" by (simp_all add: mem_init_def mem_ok_def heap_never_fails_def)
  obtain off codec where "sec_blob s = Some off" "dtl_codec_get (sec_codec_id s) = Some codec"
    "fst (codec_decode codec ?m (take (unat (sec_comp_len s)) (drop off buf)) (unat (sec_raw_len s))) = Ok (stream (map val_item vs))"
    using assms(1) m by (auto simp: section_holds_def a)
  then have "decode_outcome buf s (Ok (stream (map val_item vs)))"
    unfolding decode_outcome_def section_blob_def using m(1) by (intro exI [of _ codec] exI [of _ ?m]) simp
  with stream_reads_values [OF assms(3)] assms(4) show ?thesis by (auto simp: section_reads_def)
qed

lemma seen_values_trace:
  assumes "length secs = length vss"
  shows "seen_values (trace si i secs (map (\<lambda>vs. Inr (map Inr vs)) vss)) = concat vss"
proof -
  have n: "seen_values (number_records sec si n i (map Inr vs)) = vs" for sec si n i and vs :: "rec_val list"
    by (induction vs arbitrary: n i) (auto simp: seen_values_def)
  have app: "seen_values (xs @ ys) = seen_values xs @ seen_values ys" for xs ys by (simp add: seen_values_def)
  from assms show ?thesis
    by (induction secs vss arbitrary: si i rule: list_induct2) (simp_all add: app n, simp add: seen_values_def)
qed

lemma holds_sections_shows:
  assumes "holds_sections buf as" "concat (map section_items as) = map val_item vs" "\<forall>v \<in> set vs. readable v"
  shows "\<exists>items. walk_shows buf DTL_SECTION_MAX_RAW items \<and> seen_values items = vs"
proof -
  obtain c where c: "container_of buf = Ok c" and secs: "list_all2 (section_holds buf) (cont_sections c) as"
    using assms(1) by (auto simp: holds_sections_def)
  obtain vss where vss: "map section_items as = map (map val_item) vss" "concat vss = vs"
    using concat_eq_map [OF assms(2)] by blast
  have len: "length (cont_sections c) = length vss" using list_all2_lengthD [OF secs] vss(1) by (metis length_map)
  have raw: "unat (sec_raw_len s) \<le> DTL_SECTION_MAX_RAW" if "s \<in> set (cont_sections c)" for s
    using container_of_range [OF c that] by (auto simp: section_in_range_def)
  have "list_all2 (section_reads buf DTL_SECTION_MAX_RAW) (cont_sections c) (map (\<lambda>vs. Inr (map Inr vs)) vss)"
  proof (rule list_all2_all_nthI)
    fix i assume i: "i < length (cont_sections c)"
    have "section_items (as ! i) = map val_item (vss ! i)"
      using arg_cong [OF vss(1), of "\<lambda>xs. xs ! i"] i len list_all2_lengthD [OF secs] by simp
    moreover have "\<forall>v \<in> set (vss ! i). readable v" using assms(3) vss(2) i len by (metis UN_iff nth_mem set_concat)
    ultimately show "section_reads buf DTL_SECTION_MAX_RAW (cont_sections c ! i) (map (\<lambda>vs. Inr (map Inr vs)) vss ! i)"
      using section_holds_reads [OF list_all2_nthD [OF secs i]] raw [OF nth_mem [OF i]] i len by simp
  qed (simp add: len)
  with c seen_values_trace [OF len] vss(2) show ?thesis by (auto simp: walk_shows_def)
qed

text \<open>The values a walk shows are those of well-formed records.\<close>

lemma stream_reads_wf: "stream_reads bs rs \<Longrightarrow> Inr v \<in> set rs \<Longrightarrow> \<exists>v0. val_wf v0 \<and> v = c_strings v0"
proof -
  assume "stream_reads bs rs" "Inr v \<in> set rs"
  then obtain ts where "list_all2 tlv_reads ts rs" by (auto simp: stream_reads_def)
  with \<open>Inr v \<in> set rs\<close> obtain t where "tlv_reads t (Inr v)" by (metis in_set_conv_nth list_all2_conv_all_nth)
  then show ?thesis by (auto simp: tlv_reads_def)
qed

lemma seen_number_records: "v \<in> set (seen_values (number_records sec si n i rs)) \<Longrightarrow> Inr v \<in> set rs"
  by (induction sec si n i rs rule: number_records.induct) (auto simp: seen_values_def mk_failed_def)

lemma seen_trace:
  "v \<in> set (seen_values (trace si i secs rs)) \<Longrightarrow> list_all2 (section_reads data k) secs rs \<Longrightarrow> \<exists>v0. val_wf v0 \<and> v = c_strings v0"
proof (induction si i secs rs rule: trace.induct)
  case (1 si i s ss e rs)
  then show ?case by (auto simp: seen_values_def mk_failed_def)
next
  case (2 si i s ss rd rs)
  have "seen_values (number_records s si 0 i rd @ trace (si + 1) (i + count_seen rd) ss rs) =
      seen_values (number_records s si 0 i rd) @ seen_values (trace (si + 1) (i + count_seen rd) ss rs)" by (simp add: seen_values_def)
  with 2 show ?case
    by (auto dest!: seen_number_records simp: section_reads_def intro: stream_reads_wf)
qed (simp_all add: seen_values_def)

lemma shown_flat_wf:
  assumes "walk_shows data k items" "v \<in> set (seen_values items)" "flat v"
  shows "val_wf v"
  using assms seen_trace flat_c_strings by (fastforce simp: walk_shows_def)

text \<open>Rewriting the retained records of a container without pointers preserves them.\<close>

lemma rewrite_preserves:
  assumes "list_all2 retained (map place its) (seen_events items)" "walk_shows data k items" "flat_container data k"
    "\<And>it. emit it = (fst (place it), fst (snd (place it)), codec it, snd (snd (place it)))"
  obtains ps where "list_all2 (placed_as m) (map emit its) ps"
    "\<And>buf. holds_sections buf (sections_of ps None) \<Longrightarrow> \<exists>items'. walk_shows buf DTL_SECTION_MAX_RAW items' \<and> seen_values items' = seen_values items"
    "section_codec ` set (sections_of ps None) \<subseteq> codec ` set its"
proof -
  have fl: "\<forall>v \<in> set (seen_values items). flat v" using assms(2,3) by (auto simp: flat_container_def)
  then have "\<forall>ev \<in> set (seen_events items). flat (we_rec ev)" by (simp add: seen_values_events)
  from retained_placed [OF assms(1) this assms(4)] obtain ps where ps: "list_all2 (placed_as m) (map emit its) ps"
    "map (\<lambda>(_, _, _, x). x) ps = map (\<lambda>ev. val_item (we_rec ev)) (seen_events items)"
    "(\<lambda>(_, _, c, _). c) ` set ps \<subseteq> codec ` set its" by blast
  have "concat (map section_items (sections_of ps None)) = map val_item (seen_values items)"
    using sections_items [of ps None] ps(2) by (simp add: seen_values_events)
  moreover have "\<forall>v \<in> set (seen_values items). readable v" using fl shown_flat_wf [OF assms(2)] flat_readable by blast
  ultimately show thesis
    using that [OF ps(1)] holds_sections_shows sections_codecs [of ps None] ps(3) by (metis (no_types, lifting) Un_empty_left option.case(1) subset_trans)
qed

subsection \<open>The tools\<close>

lemma with_arena_run:
  assumes "world_ok w" "\<And>w. world_ok w \<Longrightarrow> \<exists>r w'. f w = (Ok r, w') \<and> world_ok w' \<and> Q r"
  shows "\<exists>r w'. with_arena f w = (Ok r, w') \<and> world_ok w' \<and> Q r"
proof -
  have "wvalid (\<lambda>_. True) f (\<lambda>r _. Q r) (\<lambda>_. False)" by (rule wvalidI) (use assms(2) in fastforce)
  then have "wvalid (\<lambda>_. True) (with_arena f) (\<lambda>r _. Q r) (\<lambda>_. False)"
    unfolding with_arena_def
    by (rule wvalid_bind [OF arena_init_valid, OF wvalid_bind]) (rule wvalid_given, rule wvalid_bind [OF arena_free_valid], rule wvalid_ret)
  from wvalidD [OF this assms(1) TrueI] show ?thesis by (elim wpost_OkE) blast
qed

lemma holds_codec:
  assumes "holds_sections buf as" "section_codec ` set as \<subseteq> C"
  shows "\<exists>c. container_of buf = Ok c \<and> sec_codec_id ` set (cont_sections c) \<subseteq> C"
proof -
  obtain c where c: "container_of buf = Ok c" "list_all2 (section_holds buf) (cont_sections c) as"
    using assms(1) by (auto simp: holds_sections_def)
  have "sec_codec_id s \<in> C" if "s \<in> set (cont_sections c)" for s
  proof -
    from c(2) that obtain a where "a \<in> set as" "section_holds buf s a" by (metis in_set_conv_nth list_all2_conv_all_nth)
    then show ?thesis using assms(2) by (cases a) (auto simp: section_holds_def section_codec_def)
  qed
  with c(1) show ?thesis by blast
qed

text \<open>The input and the output of a rewriting tool show the same records.\<close>

definition same_records :: "u8 list \<Rightarrow> u8 list \<Rightarrow> bool" where
  "same_records data buf \<longleftrightarrow> (\<exists>items items'. walk_shows data DTL_WALK_DEFAULT_MAX_DECODE items \<and>
     walk_shows buf DTL_SECTION_MAX_RAW items' \<and> seen_values items' = seen_values items)"

definition rewrite_of :: "mem \<Rightarrow> u8 list \<Rightarrow> emit_item list \<Rightarrow> placed list \<Rightarrow> bool" where
  "rewrite_of m data its ps \<longleftrightarrow> list_all2 (placed_as m) its ps \<and>
     (\<forall>buf. holds_sections buf (sections_of ps None) \<longrightarrow> same_records data buf) \<and>
     section_codec ` set (sections_of ps None) \<subseteq> (\<lambda>(_, _, c, _). c) ` set its"

context retaining_tool
begin

lemma absorb_rewrites:
  assumes "\<And>data. file_bytes fs path max_file = Ok data \<Longrightarrow> decodes_safely data \<and> flat_container data DTL_WALK_DEFAULT_MAX_DECODE"
    and "world_ok w" and emit: "\<And>it. emit it = (fst (place it), fst (snd (place it)), codec it, snd (snd (place it)))"
  obtains rc ctx w' where "dtl_walk_absorb fs path max_file (walk_with on_record None 0) no_items w = (Ok (rc, ctx), w')" "world_ok w'"
    "rc = DTL_OK \<longrightarrow> (\<exists>data ps. file_bytes fs path max_file = Ok data \<and> rewrite_of (w_mem w') data (map emit (iv_items ctx)) ps)"
proof -
  have safe: "decodes_safely data" if "file_bytes fs path max_file = Ok data" for data using assms(1) [OF that] by simp
  obtain rc ctx w' where r: "dtl_walk_absorb fs path max_file (walk_with on_record None 0) no_items w = (Ok (rc, ctx), w')" "world_ok w'"
    and items: "rc = DTL_OK \<longrightarrow> (\<exists>data items. file_bytes fs path max_file = Ok data \<and>
      walk_shows data DTL_WALK_DEFAULT_MAX_DECODE items \<and> list_all2 retained (map place (iv_items ctx)) (seen_events items))"
    by (rule absorb_retains [OF safe assms(2)])
  have "\<exists>data ps. file_bytes fs path max_file = Ok data \<and> rewrite_of (w_mem w') data (map emit (iv_items ctx)) ps" if ok: "rc = DTL_OK"
  proof -
    from items ok obtain data items where di: "file_bytes fs path max_file = Ok data"
      "walk_shows data DTL_WALK_DEFAULT_MAX_DECODE items" "list_all2 retained (map place (iv_items ctx)) (seen_events items)" by blast
    obtain ps where ps: "list_all2 (placed_as (w_mem w')) (map emit (iv_items ctx)) ps"
      "\<And>buf. holds_sections buf (sections_of ps None) \<Longrightarrow> \<exists>items'. walk_shows buf DTL_SECTION_MAX_RAW items' \<and> seen_values items' = seen_values items"
      "section_codec ` set (sections_of ps None) \<subseteq> codec ` set (iv_items ctx)"
      using assms(1) [OF di(1)] by (auto intro: rewrite_preserves [OF di(3,2) _ emit, where m = "w_mem w'"])
    have "(\<lambda>(_, _, c, _). c) ` set (map emit (iv_items ctx)) = codec ` set (iv_items ctx)" by (auto simp: emit image_iff)
    with ps di(2) have "rewrite_of (w_mem w') data (map emit (iv_items ctx)) ps" unfolding rewrite_of_def same_records_def by blast
    with di(1) show ?thesis by blast
  qed
  with r that show thesis by blast
qed

end

lemma repack_run:
  assumes "world_ok w" "dtl_codec_get codec \<noteq> None"
    "\<And>data. file_bytes fs (Some in_path) max_file = Ok data \<Longrightarrow> decodes_safely data \<and> flat_container data DTL_WALK_DEFAULT_MAX_DECODE"
  shows "\<exists>r w'. dtl_repack_file fs snk in_path out_path codec max_file w = (Ok r, w') \<and> world_ok w' \<and>
    (fst r = DTL_OK \<longrightarrow> (\<exists>data buf c. file_bytes fs (Some in_path) max_file = Ok data \<and> snd r = Some buf \<and> same_records data buf \<and>
       container_of buf = Ok c \<and> sec_codec_id ` set (cont_sections c) \<subseteq> {codec}))" (is "\<exists>r w'. _ = _ \<and> _ \<and> ?Q r")
proof -
  let ?emit = "\<lambda>it. (ri_section_index it, ri_section_type it, codec, ri_rec it)"
  have body: "\<exists>r w'. wbind (dtl_walk_absorb fs (Some in_path) max_file (walk_with dtl_repack_on_record None 0) no_items)
      (\<lambda>(rc, ctx). if rc \<noteq> DTL_OK then wret (rc, None) else emit_and_write (map ?emit (iv_items ctx)) snk out_path) w = (Ok r, w') \<and>
      world_ok w' \<and> ?Q r" if w: "world_ok w" for w
  proof -
    obtain rc ctx w1 where r: "dtl_walk_absorb fs (Some in_path) max_file (walk_with dtl_repack_on_record None 0) no_items w = (Ok (rc, ctx), w1)"
      "world_ok w1" and ps: "rc = DTL_OK \<longrightarrow> (\<exists>data ps. file_bytes fs (Some in_path) max_file = Ok data \<and>
        rewrite_of (w_mem w1) data (map ?emit (iv_items ctx)) ps)"
      by (rule repack.absorb_rewrites [OF assms(3) w, where emit = ?emit and codec = "\<lambda>_. codec"]) simp_all
    show ?thesis
    proof (cases "rc = DTL_OK")
      case True
      from ps True obtain data ps where d: "file_bytes fs (Some in_path) max_file = Ok data"
        and live: "list_all2 (placed_as (w_mem w1)) (map ?emit (iv_items ctx)) ps"
        and same: "\<And>buf. holds_sections buf (sections_of ps None) \<Longrightarrow> same_records data buf"
        and "section_codec ` set (sections_of ps None) \<subseteq> (\<lambda>(_, _, c, _). c) ` set (map ?emit (iv_items ctx))"
        unfolding rewrite_of_def by blast
      then have codec: "section_codec ` set (sections_of ps None) \<subseteq> {codec}" by auto
      from emit_and_write_exact [OF r(2) live, of snk out_path] obtain rc' out w' where
        e: "emit_and_write (map ?emit (iv_items ctx)) snk out_path w1 = (Ok (rc', out), w')" "world_ok w'"
          "rc' = DTL_OK \<longrightarrow> (\<exists>buf. out = Some buf \<and> holds_sections buf (sections_of ps None))" by blast
      have "?Q (rc', out)" using e(3) d same holds_codec [OF _ codec] by (metis fst_conv snd_conv)
      with e(1,2) r(1) True show ?thesis by (simp add: wbind_def)
    qed (use r in \<open>auto simp: wbind_def wret_def\<close>)
  qed
  show ?thesis
    unfolding dtl_repack_file_def using assms(2) with_arena_run [OF assms(1) body] by (simp only: if_False)
qed

text \<open>A signed file: the body and the keyed hash of the body.\<close>

lemma run_hmac:
  assumes "writer_run ops dtl_writer_init wd = (Ok w, wd1)"
  shows "writer_run (ops @ [WHmac key]) dtl_writer_init wd = (Ok (snd (dtl_writer_set_hmac key w)), wd1)"
  using assms by (simp add: writer_run_append wbind_def wret_def)

lemma sign_run:
  assumes "world_ok w" "key \<noteq> []"
    "\<And>data. file_bytes fs (Some in_path) max_file = Ok data \<Longrightarrow> decodes_safely data \<and> flat_container data DTL_WALK_DEFAULT_MAX_DECODE"
  shows "\<exists>r w'. dtl_sign_file fs snk in_path out_path key max_file w = (Ok r, w') \<and> world_ok w' \<and>
    (fst r = DTL_OK \<longrightarrow> (\<exists>data body. file_bytes fs (Some in_path) max_file = Ok data \<and> snd r = Some (body @ mac_ref key body) \<and>
       same_records data (body @ mac_ref key body)))" (is "\<exists>r w'. _ = _ \<and> _ \<and> ?Q r")
proof -
  let ?emit = "\<lambda>it. (si_section_index it, si_section_type it, si_codec_id it, si_rec it)"
  let ?absorb = "dtl_walk_absorb fs (Some in_path) max_file (walk_with dtl_sign_on_record None 0) no_items"
  let ?rest = "\<lambda>(rc, ctx). if rc \<noteq> DTL_OK then wret (rc, None)
        else wbind (emit_items (sign_items (iv_items ctx)) dtl_writer_init) (\<lambda>(rc, wr).
          if rc \<noteq> DTL_OK then wret (rc, None)
          else case dtl_writer_set_hmac key wr of (rc, wr) \<Rightarrow>
            if rc \<noteq> DTL_OK then wret (rc, None) else emit_output snk out_path wr)"
  have body: "\<exists>r w'. wbind ?absorb ?rest w = (Ok r, w') \<and> world_ok w' \<and> ?Q r" if w: "world_ok w" for w
  proof -
    obtain rc ctx w1 where r: "?absorb w = (Ok (rc, ctx), w1)" "world_ok w1"
      and ps: "rc = DTL_OK \<longrightarrow> (\<exists>data ps. file_bytes fs (Some in_path) max_file = Ok data \<and>
        rewrite_of (w_mem w1) data (map ?emit (iv_items ctx)) ps)"
      by (rule sign.absorb_rewrites [OF assms(3) w, where emit = ?emit and codec = si_codec_id]) simp_all
    show ?thesis
    proof (cases "rc = DTL_OK")
      case True
      from ps True obtain data ps where d: "file_bytes fs (Some in_path) max_file = Ok data"
        and live: "list_all2 (placed_as (w_mem w1)) (sign_items (iv_items ctx)) ps"
        and same: "\<And>buf. holds_sections buf (sections_of ps None) \<Longrightarrow> same_records data buf"
        unfolding rewrite_of_def sign_items_def by blast
      obtain rc1 wr w2 where e: "emit_items (sign_items (iv_items ctx)) dtl_writer_init w1 = (Ok (rc1, wr), w2)"
        "writer_run (item_ops (sign_items (iv_items ctx)) None) dtl_writer_init w1 = (Ok wr, w2)" "world_ok w2"
        by (rule emit_items_Ok [OF r(2) live])
      obtain rc2 wr2 where h: "dtl_writer_set_hmac key wr = (rc2, wr2)" by force
      show ?thesis
      proof (cases "rc1 = DTL_OK \<and> rc2 = DTL_OK")
        case False
        with r True e h show ?thesis by (auto simp: wbind_def wret_def)
      next
        case signed: True
        then have hm: "wr_has_hmac wr2" "wr_hmac_key wr2 = key"
          using h by (auto simp: dtl_writer_set_hmac_def split: if_splits)
        let ?ops = "item_ops (sign_items (iv_items ctx)) None @ [WHmac key]"
        have ok: "list_all (op_ok (w_mem w1)) ?ops" using items_op_ok [OF live] by simp
        have run: "writer_run ?ops dtl_writer_init w1 = (Ok wr2, w2)" using run_hmac [OF e(2), of key] h by simp
        have done_: "al_done al = sections_of ps None" if "alog_run (w_mem w1) ?ops alog_init = Some al" for al
        proof -
          have app: "alog_run m (xs @ [WHmac key]) al0 = alog_run m xs al0" for m xs al0
            by (induction xs arbitrary: al0) (auto split: Option.bind_splits)
          from alog_run_items [OF live that [unfolded app], of None] show ?thesis by (simp add: alog_init_def)
        qed
        obtain rc' out w' where o: "emit_output snk out_path wr2 w2 = (Ok (rc', out), w')" "world_ok w'"
          "rc' = DTL_OK \<longrightarrow> (\<exists>al body. alog_run (w_mem w1) ?ops alog_init = Some al \<and>
            out = Some (body @ mac_ref key body) \<and> holds_sections (the out) (al_done al))"
          using output_exact [OF r(2) ok run, of snk out_path, unfolded hm(2) eqTrueI [OF hm(1)] if_True] by blast
        have "?Q (rc', out)" using o(3) d same done_ by (metis fst_conv option.sel snd_conv)
        with o(1,2) r(1) True e(1) h signed show ?thesis by (simp add: wbind_def)
      qed
    qed (use r in \<open>auto simp: wbind_def wret_def\<close>)
  qed
  show ?thesis
    unfolding dtl_sign_file_def using assms(2) with_arena_run [OF assms(1) body] by (simp only: length_0_conv if_False)
qed

text \<open>The file of the examples has no pointers.\<close>

lemma beat_flat: "flat_container (stored_container 1 beat_stream) DTL_WALK_DEFAULT_MAX_DECODE"
  unfolding flat_container_def
proof (intro allI impI ballI)
  fix items v assume s: "walk_shows (stored_container 1 beat_stream) DTL_WALK_DEFAULT_MAX_DECODE items" "v \<in> set (seen_values items)"
  let ?v = "VHeartbeat \<lparr>hb_uptime_s = 60, hb_seq = 1\<rparr>"
  obtain rd where rd: "stream_reads beat_stream rd" "items = number_records (bind_blob 28 (stored_section 1 beat_stream)) 0 0 0 rd"
    using stored_reads [OF _ _ s(1)] by (auto simp: length_beat_stream)
  have "tlv_wf (rec_tlv ?v)" by (simp add: tlv_wf_def rec_tlv_def)
  from stream_reads_one [OF this rd(1) [unfolded beat_stream_def]] seen_number_records [OF s(2) [unfolded rd(2)]]
  have "tlv_reads (rec_tlv ?v) (Inr v)" by auto
  then obtain v0 where "val_tag v0 = DTL_REC_HEARTBEAT" "v = c_strings v0" by (auto simp: tlv_reads_def)
  then show "flat v" by (cases v0) (auto simp: rec_tags)
qed

end
