(* ===== verification/Report_Diff.thy ===== *)
theory Report_Diff
  imports Report_Emit_Spec
begin

text \<open>
  \<^verbatim>\<open>src/report/diff.c\<close> and \<^verbatim>\<open>dedup.c\<close>: comparing records field by field, comparing two files and dropping
  duplicates.  The text a comparison leaves in \<open>why\<close> is kept as data: the field and the two values it
  prints; the printed lines of a comparison of files are data too.
\<close>

subsection \<open>Records\<close>

datatype diff_reason =
    DiffTag u8 u8
  | DiffField string int int
  | DiffSample u8 u32 u32
  | DiffPayload u16 u16
  | DiffBlob u16 u16
  | DiffMessage
  | DiffPair u8
  | DiffLabel
  | DiffHash

text \<open>The macro \<open>DTL_DIFF_U\<close> for a sequence of fields: the first that differs.\<close>

fun diff_fields :: "(string \<times> int \<times> int) list \<Rightarrow> diff_reason option" where
  "diff_fields [] = None"
| "diff_fields ((f, a, b) # fs) = (if a \<noteq> b then Some (DiffField f a b) else diff_fields fs)"

text \<open>Each comparison returns when it has found a difference.\<close>

definition diff_then :: "diff_reason option \<Rightarrow> diff_reason option res \<Rightarrow> diff_reason option res" where
  "diff_then a b = (case a of Some r \<Rightarrow> Ok (Some r) | None \<Rightarrow> b)"

definition dtl_bytes_equal :: "mem \<Rightarrow> addr option \<Rightarrow> nat \<Rightarrow> addr option \<Rightarrow> nat \<Rightarrow> bool res" where
  "dtl_bytes_equal m a an b bn =
     (if an \<noteq> bn then Ok False
      else if an = 0 then Ok True
      else rbind (deref_bytes m a an) (\<lambda>x. rbind (deref_bytes m b an) (\<lambda>y. Ok (x = y))))"

definition dtl_str_equal :: "mem \<Rightarrow> addr option \<Rightarrow> addr option \<Rightarrow> bool res" where
  "dtl_str_equal m a b = (case (a, b) of
     (Some p, Some q) \<Rightarrow> rbind (load_cstr m p) (\<lambda>x. rbind (load_cstr m q) (\<lambda>y. Ok (x = y)))
   | _ \<Rightarrow> Ok (a = b))"

text \<open>The operator \<open>!=\<close> on the \<open>float\<close> with the given bits: NaN differs from everything, the two zeros are equal.\<close>

definition float_nan :: "u32 \<Rightarrow> bool" where
  "float_nan b \<longleftrightarrow> take_bit 31 b > 0x7F800000"

definition float_ne :: "u32 \<Rightarrow> u32 \<Rightarrow> bool" where
  "float_ne a b \<longleftrightarrow> float_nan a \<or> float_nan b \<or> a \<noteq> b \<and> \<not> (take_bit 31 a = 0 \<and> take_bit 31 b = 0)"

definition sample_at :: "mem \<Rightarrow> addr option \<Rightarrow> nat \<Rightarrow> u32 res" where
  "sample_at m p i = (case p of None \<Rightarrow> Ub
     | Some p \<Rightarrow> rbind (load_bytes m (fst p, snd p + 4 * i) 4) dtl_endian_read_u32le)"

fun diff_samples :: "mem \<Rightarrow> addr option \<Rightarrow> addr option \<Rightarrow> nat \<Rightarrow> nat \<Rightarrow> diff_reason option res" where
  "diff_samples m a b i 0 = Ok None"
| "diff_samples m a b i (Suc n) =
     rbind (sample_at m a i) (\<lambda>x. rbind (sample_at m b i) (\<lambda>y.
     if float_ne x y then Ok (Some (DiffSample (of_nat i) x y)) else diff_samples m a b (i + 1) n))"

fun diff_pairs :: "mem \<Rightarrow> (addr \<times> addr) list \<Rightarrow> (addr \<times> addr) list \<Rightarrow> nat \<Rightarrow> nat \<Rightarrow> diff_reason option res" where
  "diff_pairs m as bs i 0 = Ok None"
| "diff_pairs m ((ka, va) # as) ((kb, vb) # bs) i (Suc n) =
     rbind (dtl_str_equal m (Some ka) (Some kb)) (\<lambda>k.
     if \<not> k then Ok (Some (DiffPair (of_nat i)))
     else rbind (dtl_str_equal m (Some va) (Some vb)) (\<lambda>v.
          if \<not> v then Ok (Some (DiffPair (of_nat i))) else diff_pairs m as bs (i + 1) n))"
| "diff_pairs m _ _ i (Suc n) = Ub"

definition diff_unless :: "bool res \<Rightarrow> diff_reason \<Rightarrow> diff_reason option res" where
  "diff_unless e r = rbind e (\<lambda>e. Ok (if e then None else Some r))"

text \<open>The members of the two unions are only read when the tags agree.\<close>

definition dtl_record_compare :: "mem \<Rightarrow> dtl_record \<Rightarrow> dtl_record \<Rightarrow> bool \<Rightarrow> diff_reason option res" where
  "dtl_record_compare m ra rb ign =
     (if rec_tag ra \<noteq> rec_tag rb then Ok (Some (DiffTag (rec_tag ra) (rec_tag rb)))
      else case ra of
        RHeartbeat a \<Rightarrow> (case rb of RHeartbeat b \<Rightarrow>
           Ok (diff_fields [(''u.heartbeat.uptime_s'', uint (hb_uptime_s a), uint (hb_uptime_s b)),
                            (''u.heartbeat.seq'', uint (hb_seq a), uint (hb_seq b))])
          | _ \<Rightarrow> Ub)
      | RSensor a \<Rightarrow> (case rb of RSensor b \<Rightarrow>
           diff_then (diff_fields [(''u.sensor.sensor_id'', uint (sen_sensor_id a), uint (sen_sensor_id b)),
                                   (''u.sensor.count'', uint (sen_count a), uint (sen_count b))])
             (diff_samples m (sen_samples a) (sen_samples b) 0 (unat (sen_count a)))
          | _ \<Rightarrow> Ub)
      | REvent a \<Rightarrow> (case rb of REvent b \<Rightarrow>
           diff_then (diff_fields [(''u.event.code'', uint (ev_code a), uint (ev_code b))])
             (diff_unless (dtl_bytes_equal m (ev_payload a) (unat (ev_payload_len a)) (ev_payload b) (unat (ev_payload_len b)))
               (DiffPayload (ev_payload_len a) (ev_payload_len b)))
          | _ \<Rightarrow> Ub)
      | RDiag a \<Rightarrow> (case rb of RDiag b \<Rightarrow>
           diff_then (diff_fields ([(''u.diag.subsystem'', uint (dg_subsystem a), uint (dg_subsystem b))] @
                                   (if \<not> ign then [(''u.diag.redacted'', uint (dg_redacted a), uint (dg_redacted b))] else [])))
             (diff_unless (dtl_bytes_equal m (dg_blob a) (unat (dg_blob_len a)) (dg_blob b) (unat (dg_blob_len b)))
               (DiffBlob (dg_blob_len a) (dg_blob_len b)))
          | _ \<Rightarrow> Ub)
      | RGeo a \<Rightarrow> (case rb of RGeo b \<Rightarrow>
           Ok (diff_fields [(''u.geo.lat_e7'', sint (geo_lat_e7 a), sint (geo_lat_e7 b)),
                            (''u.geo.lon_e7'', sint (geo_lon_e7 a), sint (geo_lon_e7 b)),
                            (''u.geo.alt_mm'', sint (geo_alt_mm a), sint (geo_alt_mm b))])
          | _ \<Rightarrow> Ub)
      | RBattery a \<Rightarrow> (case rb of RBattery b \<Rightarrow>
           Ok (diff_fields [(''u.battery.pct'', uint (bat_pct a), uint (bat_pct b)),
                            (''u.battery.temp_c_e1'', sint (bat_temp_c_e1 a), sint (bat_temp_c_e1 b)),
                            (''u.battery.cycles'', uint (bat_cycles a), uint (bat_cycles b))])
          | _ \<Rightarrow> Ub)
      | RNet a \<Rightarrow> (case rb of RNet b \<Rightarrow>
           Ok (diff_fields [(''u.net.iface_id'', uint (net_iface_id a), uint (net_iface_id b)),
                            (''u.net.rx_bytes'', uint (net_rx_bytes a), uint (net_rx_bytes b)),
                            (''u.net.tx_bytes'', uint (net_tx_bytes a), uint (net_tx_bytes b)),
                            (''u.net.rx_pkts'', uint (net_rx_pkts a), uint (net_rx_pkts b)),
                            (''u.net.tx_pkts'', uint (net_tx_pkts a), uint (net_tx_pkts b))])
          | _ \<Rightarrow> Ub)
      | RLog a \<Rightarrow> (case rb of RLog b \<Rightarrow>
           diff_then (diff_fields [(''u.log.severity'', uint (log_severity a), uint (log_severity b))])
             (diff_unless (dtl_str_equal m (log_msg a) (log_msg b)) DiffMessage)
          | _ \<Rightarrow> Ub)
      | RConfig a \<Rightarrow> (case rb of RConfig b \<Rightarrow>
           diff_then (diff_fields [(''u.config.pair_count'', uint (cfg_pair_count a), uint (cfg_pair_count b))])
             (diff_pairs m (cfg_pairs a) (cfg_pairs b) 0 (unat (cfg_pair_count a)))
          | _ \<Rightarrow> Ub)
      | RKeyref a \<Rightarrow> (case rb of RKeyref b \<Rightarrow>
           diff_then (diff_fields ([(''u.keyref.slot_id'', uint (kr_slot_id a), uint (kr_slot_id b))] @
                                   (if \<not> ign then [(''u.keyref.redacted'', uint (kr_redacted a), uint (kr_redacted b))] else [])))
             (if \<not> ign then diff_unless (dtl_str_equal m (kr_label a) (kr_label b)) DiffLabel else Ok None)
          | _ \<Rightarrow> Ub)
      | RFirmware a \<Rightarrow> (case rb of RFirmware b \<Rightarrow>
           diff_then (diff_fields [(''u.firmware.major'', uint (fw_major a), uint (fw_major b)),
                                   (''u.firmware.minor'', uint (fw_minor a), uint (fw_minor b)),
                                   (''u.firmware.patch'', uint (fw_patch a), uint (fw_patch b))])
             (diff_unless (rbind (slice_at (fw_hash a) 0 8) (\<lambda>x. rbind (slice_at (fw_hash b) 0 8) (\<lambda>y. Ok (x = y)))) DiffHash)
          | _ \<Rightarrow> Ub))"

definition dtl_diff_records_equal :: "mem \<Rightarrow> dtl_record \<Rightarrow> dtl_record \<Rightarrow> bool \<Rightarrow> bool res" where
  "dtl_diff_records_equal m ra rb ign = rbind (dtl_record_compare m ra rb ign) (\<lambda>r. Ok (r = None))"

subsection \<open>Files\<close>

type_synonym dtl_record_vec = "dtl_record item_vec"

definition dtl_vec_push :: "dtl_record \<Rightarrow> dtl_record_vec \<Rightarrow> (dtl_err \<times> dtl_record_vec) wm" where
  "dtl_vec_push r v = item_push sizeof_record r v"

definition dtl_vec_on_record :: "dtl_record_vec walk_fn" where
  "dtl_vec_on_record ev v = dtl_vec_push (we_rec ev) v"

definition dtl_diff_collect :: "u8 list \<Rightarrow> (dtl_err \<times> dtl_record_vec) wm" where
  "dtl_diff_collect data = dtl_walk_memory data (walk_with dtl_vec_on_record None 0) no_items"

text \<open>The bytes of a file, read into the arena.\<close>

definition dtl_diff_read :: "files \<Rightarrow> string \<Rightarrow> nat \<Rightarrow> (dtl_err \<times> u8 list) wm" where
  "dtl_diff_read fs path max_file =
     (case fs path of None \<Rightarrow> wret (DTL_ERR_IO, [])
      | Some f \<Rightarrow>
      if \<not> f_seek_end f then wret (DTL_ERR_IO, [])
      else if f_tell f < 0 then wret (DTL_ERR_IO, [])
      else if nat (f_tell f) > max_file then wret (DTL_ERR_RANGE, [])
      else if \<not> f_seek_set f then wret (DTL_ERR_IO, [])
      else let n = nat (f_tell f)
      in wbind (w_arena_alloc (if n \<noteq> 0 then n else 1)) (\<lambda>buf.
         case buf of None \<Rightarrow> wret (DTL_ERR_OOM, [])
         | Some buf \<Rightarrow>
             if n = 0 then wret (DTL_OK, [])
             else wbind (c_fread buf n f) (\<lambda>got.
                  if length got \<noteq> n then wret (DTL_ERR_IO, []) else wret (DTL_OK, got))))"

record dtl_diff_options =
  do_ignore_redaction :: bool
  do_max_report :: nat

datatype diff_line = DiffAt nat diff_reason | OnlyIn nat string u8 | Suppressed nat

text \<open>The counters and lines after one more difference.\<close>

definition diff_note :: "nat \<Rightarrow> diff_line \<Rightarrow> nat \<times> nat \<times> diff_line list \<Rightarrow> nat \<times> nat \<times> diff_line list" where
  "diff_note max_report ln s = (case s of (diffs, reported, out) \<Rightarrow>
     if max_report = 0 \<or> reported < max_report then (diffs + 1, reported + 1, out @ [ln]) else (diffs + 1, reported, out))"

fun diff_common :: "mem \<Rightarrow> bool \<Rightarrow> nat \<Rightarrow> dtl_record list \<Rightarrow> dtl_record list \<Rightarrow> nat \<Rightarrow> nat \<times> nat \<times> diff_line list \<Rightarrow>
    (nat \<times> nat \<times> diff_line list) res" where
  "diff_common m ign mx (ra # as) (rb # bs) i s =
     rbind (dtl_record_compare m ra rb ign) (\<lambda>r.
     diff_common m ign mx as bs (i + 1) (case r of None \<Rightarrow> s | Some why \<Rightarrow> diff_note mx (DiffAt i why) s))"
| "diff_common m ign mx _ _ i s = Ok s"

fun diff_extra :: "nat \<Rightarrow> string \<Rightarrow> nat \<Rightarrow> dtl_record list \<Rightarrow> nat \<times> nat \<times> diff_line list \<Rightarrow> nat \<times> nat \<times> diff_line list" where
  "diff_extra mx path i [] s = s"
| "diff_extra mx path i (r # rs) s = diff_extra mx path (i + 1) rs (diff_note mx (OnlyIn i path (rec_tag r)) s)"

definition diff_vectors :: "mem \<Rightarrow> string \<Rightarrow> string \<Rightarrow> bool \<Rightarrow> nat \<Rightarrow> dtl_record list \<Rightarrow> dtl_record list \<Rightarrow>
    (nat \<times> diff_line list) res" where
  "diff_vectors m path_a path_b ign mx as bs =
     (let common = (if length as < length bs then length as else length bs)
      in rbind (diff_common m ign mx (take common as) (take common bs) 0 (0, 0, [])) (\<lambda>s.
         case diff_extra mx path_b common (drop common bs) (diff_extra mx path_a common (drop common as) s) of
           (diffs, reported, out) \<Rightarrow>
             Ok (diffs, out @ (if diffs > reported then [Suppressed (diffs - reported)] else []))))"

definition dtl_diff_files :: "files \<Rightarrow> string \<Rightarrow> string \<Rightarrow> nat \<Rightarrow> dtl_diff_options option \<Rightarrow>
    (dtl_err \<times> nat \<times> diff_line list) wm" where
  "dtl_diff_files fs path_a path_b max_file opts =
     (let ign = (case opts of Some p \<Rightarrow> do_ignore_redaction p | None \<Rightarrow> False);
          mx = (case opts of Some p \<Rightarrow> do_max_report p | None \<Rightarrow> 0)
      in with_arena (
           wbind (dtl_diff_read fs path_a max_file) (\<lambda>(rc, data_a).
           if rc \<noteq> DTL_OK then wret (rc, 0, [])
           else wbind (dtl_diff_read fs path_b max_file) (\<lambda>(rc, data_b).
           if rc \<noteq> DTL_OK then wret (rc, 0, [])
           else wbind (dtl_diff_collect data_a) (\<lambda>(rc, va).
           if rc \<noteq> DTL_OK then wret (rc, 0, [])
           else wbind (dtl_diff_collect data_b) (\<lambda>(rc, vb).
           if rc \<noteq> DTL_OK then wret (rc, 0, [])
           else (\<lambda>w. wbind (wlift (diff_vectors (w_mem w) path_a path_b ign mx (iv_items va) (iv_items vb))) (\<lambda>(diffs, out).
                wret (DTL_OK, diffs, out)) w)))))))"

subsection \<open>Dropping duplicates\<close>

record dtl_dedup_item =
  dd_section_index :: u16
  dd_section_type :: u16
  dd_codec_id :: u8
  dd_keep :: bool
  dd_rec :: dtl_record

definition dtl_dedup_on_record :: "dtl_dedup_item item_vec walk_fn" where
  "dtl_dedup_on_record ev ctx =
     item_push sizeof_item \<lparr>dd_section_index = we_section_index ev, dd_section_type = we_section_type ev,
       dd_codec_id = we_codec_id ev, dd_keep = True, dd_rec = we_rec ev\<rparr> ctx"

text \<open>The inner loop: whether one of the entries \<open>js\<close> is kept and equal to \<open>it\<close>.\<close>

fun dedup_inner :: "mem \<Rightarrow> dtl_dedup_item list \<Rightarrow> dtl_dedup_item \<Rightarrow> nat list \<Rightarrow> bool res" where
  "dedup_inner m items it [] = Ok False"
| "dedup_inner m items it (j # js) =
     (if \<not> dd_keep (items ! j) then dedup_inner m items it js
      else if rec_tag (dd_rec (items ! j)) \<noteq> rec_tag (dd_rec it) then dedup_inner m items it js
      else rbind (dtl_diff_records_equal m (dd_rec (items ! j)) (dd_rec it) True) (\<lambda>eq.
           if eq then Ok True else dedup_inner m items it js))"

fun dedup_outer :: "mem \<Rightarrow> dtl_dedup_item list \<Rightarrow> nat \<Rightarrow> nat list \<Rightarrow> (nat \<times> dtl_dedup_item list) res" where
  "dedup_outer m items dropped [] = Ok (dropped, items)"
| "dedup_outer m items dropped (i # is) =
     (if \<not> dd_keep (items ! i) then dedup_outer m items dropped is
      else rbind (dedup_inner m items (items ! i) [0..<i]) (\<lambda>dup.
           if dup then dedup_outer m (items[i := (items ! i)\<lparr>dd_keep := False\<rparr>]) (dropped + 1) is
           else dedup_outer m items dropped is))"

definition dtl_dedup_mark :: "mem \<Rightarrow> dtl_dedup_item list \<Rightarrow> (nat \<times> dtl_dedup_item list) res" where
  "dtl_dedup_mark m items = dedup_outer m items 0 [0..<length items]"

definition dtl_dedup_file :: "files \<Rightarrow> sinks \<Rightarrow> string \<Rightarrow> string \<Rightarrow> nat \<Rightarrow> (dtl_err \<times> u8 list option \<times> nat option) wm" where
  "dtl_dedup_file fs snk in_path out_path max_file =
     with_arena (
       wbind (dtl_walk_absorb fs (Some in_path) max_file (walk_with dtl_dedup_on_record None 0) no_items) (\<lambda>(rc, ctx).
       if rc \<noteq> DTL_OK then wret (rc, None, None)
       else (\<lambda>w. wbind (wlift (dtl_dedup_mark (w_mem w) (iv_items ctx))) (\<lambda>(dropped, items).
            wbind (emit_and_write (map (\<lambda>it. (dd_section_index it, dd_section_type it, dd_codec_id it, dd_rec it)) (filter dd_keep items))
              snk out_path) (\<lambda>(rc, written).
            wret (rc, written, Some dropped))) w)))"

subsection \<open>What the comparison decides\<close>

text \<open>The samples of a sensor payload.\<close>

definition word_of :: "u8 list \<Rightarrow> u32" where
  "word_of bs = (case dtl_endian_read_u32le bs of Ok v \<Rightarrow> v | _ \<Rightarrow> 0)"

definition sample_of :: "u8 list \<Rightarrow> nat \<Rightarrow> u32" where
  "sample_of bs i = word_of (take 4 (drop (4 * i) bs))"

text \<open>
  Equality as the comparison understands it: samples as floating-point numbers, log messages up to
  their first NUL, key references without their label when redaction is ignored, everything else by value.
\<close>

definition cmp_same :: "bool \<Rightarrow> rec_val \<Rightarrow> rec_val \<Rightarrow> bool" where
  "cmp_same ign v w = (case v of
     VSensor i bs \<Rightarrow> (case w of VSensor j cs \<Rightarrow> i = j \<and> length bs = length cs \<and>
       (\<forall>k < length bs div 4. \<not> float_ne (sample_of bs k) (sample_of cs k)) | _ \<Rightarrow> False)
   | VLog s bs \<Rightarrow> (case w of VLog t cs \<Rightarrow> s = t \<and> c_string bs = c_string cs | _ \<Rightarrow> False)
   | VKeyref s bs \<Rightarrow> (case w of VKeyref t cs \<Rightarrow> s = t \<and> (ign \<or> c_string bs = c_string cs) | _ \<Rightarrow> False)
   | _ \<Rightarrow> v = w)"

text \<open>A parsed record whose value is \<open>v\<close> and whose strings are terminated.\<close>

definition terminated :: "mem \<Rightarrow> dtl_record \<Rightarrow> rec_val \<Rightarrow> bool" where
  "terminated m r v = (case (r, v) of
     (RLog l, VLog s bs) \<Rightarrow> (\<exists>p. log_msg l = Some p \<and> load_cstr m p = Ok (c_string bs))
   | (RKeyref k, VKeyref s bs) \<Rightarrow> (\<exists>p. kr_label k = Some p \<and> load_cstr m p = Ok (c_string bs))
   | _ \<Rightarrow> True)"

definition readable :: "mem \<Rightarrow> dtl_record \<Rightarrow> rec_val \<Rightarrow> bool" where
  "readable m r v \<longleftrightarrow> record_view m r = Ok v \<and> fresh_rec r \<and> terminated m r v"

lemma diff_fields_None: "diff_fields fs = None \<longleftrightarrow> (\<forall>(f, a, b) \<in> set fs. a = b)"
  by (induction fs rule: diff_fields.induct) auto

lemma records_equal_then:
  "rbind (diff_then a b) (\<lambda>r. Ok (r = None)) = (if a = None then rbind b (\<lambda>r. Ok (r = None)) else Ok False)"
  by (cases a) (simp_all add: diff_then_def)

lemma records_equal_unless: "rbind (diff_unless e r) (\<lambda>r. Ok (r = None)) = e"
  by (cases e) (simp_all add: diff_unless_def)

lemma word_values_eq: "uint x = uint y \<longleftrightarrow> x = y" "sint x = sint y \<longleftrightarrow> x = y" for x y :: "'a :: len word"
  by (auto intro: unsigned_word_eqI signed_word_eqI)

text \<open>The comparison of two records of one kind.\<close>

lemmas compare_kinds =
  dtl_record_compare_def [of _ "RHeartbeat a" "RHeartbeat b" for a b, simplified]
  dtl_record_compare_def [of _ "RSensor a" "RSensor b" for a b, simplified]
  dtl_record_compare_def [of _ "REvent a" "REvent b" for a b, simplified]
  dtl_record_compare_def [of _ "RDiag a" "RDiag b" for a b, simplified]
  dtl_record_compare_def [of _ "RGeo a" "RGeo b" for a b, simplified]
  dtl_record_compare_def [of _ "RBattery a" "RBattery b" for a b, simplified]
  dtl_record_compare_def [of _ "RNet a" "RNet b" for a b, simplified]
  dtl_record_compare_def [of _ "RLog a" "RLog b" for a b, simplified]
  dtl_record_compare_def [of _ "RConfig a" "RConfig b" for a b, simplified]
  dtl_record_compare_def [of _ "RKeyref a" "RKeyref b" for a b, simplified]
  dtl_record_compare_def [of _ "RFirmware a" "RFirmware b" for a b, simplified]

lemmas compare_simps = dtl_diff_records_equal_def compare_kinds cmp_same_def records_equal_then records_equal_unless
  diff_fields_None word_values_eq

lemma bytes_equal_live:
  assumes "deref_bytes m a an = Ok x" "deref_bytes m b bn = Ok y"
  shows "dtl_bytes_equal m a an b bn = Ok (x = y)"
proof -
  have len: "length x = an" "length y = bn" using assms deref_bytes_length by auto
  show ?thesis
  proof (cases "an = bn \<and> an \<noteq> 0")
    case True
    with assms show ?thesis by (simp add: dtl_bytes_equal_def)
  next
    case False
    with len show ?thesis by (auto simp: dtl_bytes_equal_def)
  qed
qed

lemma str_equal_live: "load_cstr m p = Ok x \<Longrightarrow> load_cstr m q = Ok y \<Longrightarrow> dtl_str_equal m (Some p) (Some q) = Ok (x = y)"
  by (simp add: dtl_str_equal_def)

lemma sample_live:
  assumes "load_bytes m p (4 * n) = Ok bs" "i < n"
  shows "sample_at m (Some p) i = Ok (sample_of bs i)"
proof -
  have l: "load_bytes m (fst p, snd p + 4 * i) 4 = Ok (take 4 (drop (4 * i) bs))"
    using load_piece [OF assms(1), of "4 * i"] assms(2) by simp
  have "length (take 4 (drop (4 * i) bs)) = 4" using load_bytes_region [OF assms(1)] assms(2) by simp
  then obtain v where "dtl_endian_read_u32le (take 4 (drop (4 * i) bs)) = Ok v" using read_u32le_Ok by (metis le_refl)
  with l show ?thesis by (simp add: sample_at_def sample_of_def word_of_def)
qed

lemma samples_live:
  assumes "load_bytes m p (4 * c) = Ok xs" "load_bytes m q (4 * c) = Ok ys" "i + n = c"
  shows "\<exists>r. diff_samples m (Some p) (Some q) i n = Ok r \<and>
    (r = None \<longleftrightarrow> (\<forall>k. i \<le> k \<and> k < c \<longrightarrow> \<not> float_ne (sample_of xs k) (sample_of ys k)))"
  using assms(3)
proof (induction n arbitrary: i)
  case (Suc n)
  then have s: "sample_at m (Some p) i = Ok (sample_of xs i)" "sample_at m (Some q) i = Ok (sample_of ys i)"
    using sample_live [OF assms(1)] sample_live [OF assms(2)] by simp_all
  show ?case
  proof (cases "float_ne (sample_of xs i) (sample_of ys i)")
    case True
    then show ?thesis using s Suc.prems by auto
  next
    case False
    obtain r where "diff_samples m (Some p) (Some q) (i + 1) n = Ok r"
      "r = None \<longleftrightarrow> (\<forall>k. i + 1 \<le> k \<and> k < c \<longrightarrow> \<not> float_ne (sample_of xs k) (sample_of ys k))"
      using Suc.IH [of "i + 1"] Suc.prems by auto
    then show ?thesis using s False by (auto simp: Suc_le_eq) (metis le_eq_less_or_eq)+
  qed
qed auto

lemma pairs_live:
  assumes "deref_pairs m as = Ok xs" "deref_pairs m bs = Ok ys" "length as = n" "length bs = n"
  shows "\<exists>r. diff_pairs m as bs i n = Ok r \<and> (r = None \<longleftrightarrow> xs = ys)"
  using assms
proof (induction n arbitrary: as bs xs ys i)
  case (Suc n)
  obtain ka va as' where as: "as = (ka, va) # as'" "length as' = n" using Suc.prems(3) by (cases as) auto
  obtain kb vb bs' where bs: "bs = (kb, vb) # bs'" "length bs' = n" using Suc.prems(4) by (cases bs) auto
  obtain k1 v1 xs' where x: "load_cstr m ka = Ok k1" "load_cstr m va = Ok v1" "deref_pairs m as' = Ok xs'" "xs = (k1, v1) # xs'"
    using Suc.prems(1) as by (auto simp: rbind_eq_Ok_iff)
  obtain k2 v2 ys' where y: "load_cstr m kb = Ok k2" "load_cstr m vb = Ok v2" "deref_pairs m bs' = Ok ys'" "ys = (k2, v2) # ys'"
    using Suc.prems(2) bs by (auto simp: rbind_eq_Ok_iff)
  obtain r where "diff_pairs m as' bs' (i + 1) n = Ok r" "r = None \<longleftrightarrow> xs' = ys'"
    using Suc.IH [OF x(3) y(3) as(2) bs(2)] by blast
  with as bs x y show ?case by (auto simp: str_equal_live)
qed simp

lemma compare_sensors:
  assumes "record_view m (RSensor a) = Ok va" "record_view m (RSensor b) = Ok vb"
  shows "dtl_diff_records_equal m (RSensor a) (RSensor b) ign = Ok (cmp_same ign va vb)"
proof -
  obtain xs ys where v: "va = VSensor (sen_sensor_id a) xs" "vb = VSensor (sen_sensor_id b) ys"
    and d: "deref_bytes m (sen_samples a) (unat (sen_count a) * 4) = Ok xs" "deref_bytes m (sen_samples b) (unat (sen_count b) * 4) = Ok ys"
    using assms by (auto simp: rbind_eq_Ok_iff)
  have len: "length xs = unat (sen_count a) * 4" "length ys = unat (sen_count b) * 4" using d deref_bytes_length by auto
  show ?thesis
  proof (cases "sen_sensor_id a = sen_sensor_id b \<and> sen_count a = sen_count b")
    case False
    then have "sen_sensor_id a = sen_sensor_id b \<Longrightarrow> length xs \<noteq> length ys" using len by (auto simp: word_unat_eq_iff)
    with False v show ?thesis by (auto simp: compare_simps)
  next
    case True
    have "\<exists>r. diff_samples m (sen_samples a) (sen_samples b) 0 (unat (sen_count a)) = Ok r \<and>
        (r = None \<longleftrightarrow> (\<forall>k < unat (sen_count a). \<not> float_ne (sample_of xs k) (sample_of ys k)))"
    proof (cases "sen_count a = 0")
      case False
      then obtain p q where pq: "sen_samples a = Some p" "sen_samples b = Some q"
        "load_bytes m p (4 * unat (sen_count a)) = Ok xs" "load_bytes m q (4 * unat (sen_count a)) = Ok ys"
        using d True by (auto simp: deref_bytes_def unat_eq_0 mult.commute split: option.splits)
      from samples_live [OF pq(3,4), of 0] pq(1,2) show ?thesis by simp
    qed simp
    with True v len show ?thesis by (auto simp: compare_simps)
  qed
qed

lemma compare_configs:
  assumes "record_view m (RConfig a) = Ok va" "record_view m (RConfig b) = Ok vb" "fresh_rec (RConfig a)" "fresh_rec (RConfig b)"
  shows "dtl_diff_records_equal m (RConfig a) (RConfig b) ign = Ok (cmp_same ign va vb)"
proof -
  obtain xs ys where v: "va = VConfig xs" "vb = VConfig ys" and d: "deref_pairs m (cfg_pairs a) = Ok xs" "deref_pairs m (cfg_pairs b) = Ok ys"
    using assms(1,2) by (auto simp: rbind_eq_Ok_iff)
  have n: "unat (cfg_pair_count a) = length (cfg_pairs a)" "unat (cfg_pair_count b) = length (cfg_pairs b)" using assms(3,4) by simp_all
  show ?thesis
  proof (cases "cfg_pair_count a = cfg_pair_count b")
    case True
    have "length (cfg_pairs b) = length (cfg_pairs a)" using n True by metis
    from pairs_live [OF d refl this, of 0] obtain r
      where "diff_pairs m (cfg_pairs a) (cfg_pairs b) 0 (unat (cfg_pair_count a)) = Ok r" "r = None \<longleftrightarrow> xs = ys"
      unfolding n(1) by blast
    then show ?thesis by (simp add: v True compare_simps)
  next
    case False
    then have "unat (cfg_pair_count a) \<noteq> unat (cfg_pair_count b)" by (auto dest: unsigned_word_eqI)
    then have "xs \<noteq> ys" using n deref_pairs_length [OF d(1)] deref_pairs_length [OF d(2)] by auto
    with False show ?thesis by (simp add: v compare_simps)
  qed
qed

lemma compare_live:
  assumes "readable m ra va" "readable m rb vb"
  shows "dtl_diff_records_equal m ra rb ign = Ok (cmp_same ign va vb)"
proof (cases "rec_tag ra = rec_tag rb")
  case False
  then have "val_tag va \<noteq> val_tag vb" using assms record_view_tag by (metis readable_def)
  then have "\<not> cmp_same ign va vb" by (auto simp: cmp_same_def split: rec_val.splits)
  with False show ?thesis by (simp add: dtl_diff_records_equal_def dtl_record_compare_def)
next
  case True
  note live = assms [unfolded readable_def]
  show ?thesis
  proof (cases ra)
    case (RSensor a)
    with True obtain b where "rb = RSensor b" by (cases rb) (auto simp: rec_tags)
    with RSensor live show ?thesis using compare_sensors by blast
  next
    case (RConfig a)
    with True obtain b where "rb = RConfig b" by (cases rb) (auto simp: rec_tags)
    with RConfig live show ?thesis using compare_configs by blast
  next
    case (RHeartbeat a)
    with True obtain b where "rb = RHeartbeat b" by (cases rb) (auto simp: rec_tags)
    with RHeartbeat live show ?thesis by (cases a; cases b) (auto simp: compare_simps)
  next
    case (RGeo a)
    with True obtain b where "rb = RGeo b" by (cases rb) (auto simp: rec_tags)
    with RGeo live show ?thesis by (cases a; cases b) (auto simp: compare_simps)
  next
    case (RBattery a)
    with True obtain b where "rb = RBattery b" by (cases rb) (auto simp: rec_tags)
    with RBattery live show ?thesis by (cases a; cases b) (auto simp: compare_simps)
  next
    case (RNet a)
    with True obtain b where "rb = RNet b" by (cases rb) (auto simp: rec_tags)
    with RNet live show ?thesis by (cases a; cases b) (auto simp: compare_simps)
  next
    case (RFirmware a)
    with True obtain b where "rb = RFirmware b" by (cases rb) (auto simp: rec_tags)
    with RFirmware live show ?thesis by (cases a; cases b) (auto simp: compare_simps slice_at_def)
  next
    case (REvent a)
    with True obtain b where "rb = REvent b" by (cases rb) (auto simp: rec_tags)
    with REvent live show ?thesis by (auto simp: compare_simps rbind_eq_Ok_iff bytes_equal_live)
  next
    case (RDiag a)
    with True obtain b where "rb = RDiag b" by (cases rb) (auto simp: rec_tags)
    with RDiag live show ?thesis by (auto simp: compare_simps rbind_eq_Ok_iff bytes_equal_live)
  next
    case (RLog a)
    with True obtain b where "rb = RLog b" by (cases rb) (auto simp: rec_tags)
    with RLog live show ?thesis by (auto simp: compare_simps rbind_eq_Ok_iff terminated_def str_equal_live)
  next
    case (RKeyref a)
    with True obtain b where "rb = RKeyref b" by (cases rb) (auto simp: rec_tags)
    then obtain x y p q where v: "va = VKeyref (kr_slot_id a) x" "vb = VKeyref (kr_slot_id b) y" "kr_redacted a = 0" "kr_redacted b = 0"
      and s: "kr_label a = Some p" "kr_label b = Some q" "load_cstr m p = Ok (c_string x)" "load_cstr m q = Ok (c_string y)"
      using RKeyref live by (auto simp: rbind_eq_Ok_iff terminated_def)
    show ?thesis
      unfolding RKeyref \<open>rb = RKeyref b\<close> by (simp add: v s compare_simps str_equal_live [OF s(3,4)] split: if_splits)
  qed
qed

text \<open>
  C32. Comparing two parsed records that are still alive decides equality of their values: it has no
  undefined behaviour and answers whether the two values agree, with samples compared as floating-point
  numbers, log messages up to their first NUL and, when redaction is ignored, key references without
  their labels.
\<close>

theorem diff_records_equal_exact:
  assumes "readable m ra va" "readable m rb vb"
  shows "dtl_diff_records_equal m ra rb ign = Ok (cmp_same ign va vb)"
  by (rule compare_live [OF assms])

theorem diff_records_equal_exact_witness:
  "dtl_diff_records_equal (w_mem fresh_world) (RHeartbeat \<lparr>hb_uptime_s = 1, hb_seq = 2\<rparr>) (RHeartbeat \<lparr>hb_uptime_s = 1, hb_seq = 3\<rparr>) False = Ok False"
  using diff_records_equal_exact [of "w_mem fresh_world" "RHeartbeat \<lparr>hb_uptime_s = 1, hb_seq = 2\<rparr>" "VHeartbeat \<lparr>hb_uptime_s = 1, hb_seq = 2\<rparr>"
      "RHeartbeat \<lparr>hb_uptime_s = 1, hb_seq = 3\<rparr>" "VHeartbeat \<lparr>hb_uptime_s = 1, hb_seq = 3\<rparr>" False]
  by (simp add: readable_def terminated_def cmp_same_def)

subsection \<open>What is dropped\<close>

text \<open>Which elements are kept when every element equal to a kept one before it is dropped.\<close>

fun firsts :: "('v \<Rightarrow> 'v \<Rightarrow> bool) \<Rightarrow> 'v list \<Rightarrow> 'v list \<Rightarrow> bool list" where
  "firsts R seen [] = []"
| "firsts R seen (v # vs) =
     (if \<exists>u \<in> set seen. R u v then False # firsts R seen vs else True # firsts R (seen @ [v]) vs)"

lemma length_firsts [simp]: "length (firsts R seen vs) = length vs"
  by (induction vs arbitrary: seen) auto

text \<open>An entry that is still marked to be kept.\<close>

definition live_item :: "mem \<Rightarrow> dtl_dedup_item \<Rightarrow> rec_val \<Rightarrow> bool" where
  "live_item m it v \<longleftrightarrow> readable m (dd_rec it) v"

definition set_keep :: "dtl_dedup_item \<Rightarrow> bool \<Rightarrow> dtl_dedup_item" where
  "set_keep it k = it\<lparr>dd_keep := k\<rparr>"

lemma set_keep_simps [simp]:
  "dd_keep (set_keep it k) = k" "dd_rec (set_keep it k) = dd_rec it" "live_item m (set_keep it k) v = live_item m it v"
  by (simp_all add: set_keep_def live_item_def)

lemma set_keep_same: "dd_keep it \<Longrightarrow> set_keep it True = it"
  by (simp add: set_keep_def)

lemma inner_exact:
  assumes "list_all2 (live_item m) items vs" "live_item m it v" "\<forall>j \<in> set js. j < length items"
  shows "dedup_inner m items it js = Ok (\<exists>j \<in> set js. dd_keep (items ! j) \<and> cmp_same True (vs ! j) v)"
  using assms(3)
proof (induction js)
  case (Cons j js)
  then have j: "readable m (dd_rec (items ! j)) (vs ! j)" "readable m (dd_rec it) v"
    using assms(1,2) by (auto simp: live_item_def list_all2_conv_all_nth)
  have "\<not> cmp_same True (vs ! j) v" if "rec_tag (dd_rec (items ! j)) \<noteq> rec_tag (dd_rec it)"
    using compare_live [OF j, of True] that by (simp add: dtl_diff_records_equal_def dtl_record_compare_def)
  with Cons compare_live [OF j, of True] show ?case by auto
qed simp

lemma kept_before:
  assumes "length us = length pre" "length ks = length pre"
  shows "(\<exists>j \<in> set [0..<length pre]. dd_keep ((map2 set_keep pre ks @ post) ! j) \<and> R ((us @ vs) ! j) v) \<longleftrightarrow>
    (\<exists>u \<in> set (map fst (filter snd (zip us ks))). R u v)"
  using assms by (auto simp: nth_append set_zip Bex_def)

lemma outer_exact:
  assumes "list_all2 (live_item m) pre us" "length ks = length pre" "list_all2 (live_item m) post vs" "\<forall>it \<in> set post. dd_keep it"
    and "seen = map fst (filter snd (zip us ks))"
  shows "dedup_outer m (map2 set_keep pre ks @ post) d [length pre..<length pre + length post] =
    Ok (d + length (filter Not (firsts (cmp_same True) seen vs)),
        map2 set_keep pre ks @ map2 set_keep post (firsts (cmp_same True) seen vs))"
  using assms
proof (induction post arbitrary: pre us ks vs seen d)
  case (Cons it post)
  obtain v vs' where vs: "vs = v # vs'" "live_item m it v" "list_all2 (live_item m) post vs'"
    using Cons.prems(3) by (auto simp: list_all2_Cons1)
  have len: "length us = length pre" "length (map2 set_keep pre ks) = length pre"
    using Cons.prems(1,2) by (auto simp: list_all2_lengthD)
  let ?items = "map2 set_keep pre ks @ it # post"
  have live: "list_all2 (live_item m) ?items (us @ v # vs')"
  proof (rule list_all2_appendI)
    show "list_all2 (live_item m) (map2 set_keep pre ks) us" using Cons.prems(1,2) by (auto simp: list_all2_conv_all_nth)
  qed (use vs in simp)
  have at: "?items ! length pre = it" using len by (simp add: nth_append)
  define dup where "dup \<longleftrightarrow> (\<exists>u \<in> set seen. cmp_same True u v)"
  have inner: "dedup_inner m ?items it [0..<length pre] = Ok dup"
    using inner_exact [OF live vs(2), of "[0..<length pre]"] kept_before [OF len(1) Cons.prems(2), of "it # post" "cmp_same True" "v # vs'" v] len
    by (simp add: dup_def Cons.prems(5))
  have next_: "dedup_outer m (map2 set_keep (pre @ [it]) (ks @ [k]) @ post) d' [Suc (length pre)..<Suc (length pre) + length post] =
      Ok (d' + length (filter Not (firsts (cmp_same True) (if k then seen @ [v] else seen) vs')),
          map2 set_keep (pre @ [it]) (ks @ [k]) @ map2 set_keep post (firsts (cmp_same True) (if k then seen @ [v] else seen) vs'))" for k d'
    using Cons.IH [of "pre @ [it]" "us @ [v]" "ks @ [k]" vs' "if k then seen @ [v] else seen" d'] Cons.prems vs len
    by (simp add: list_all2_appendI)
  have split: "map2 set_keep (pre @ [it]) (ks @ [k]) = map2 set_keep pre ks @ [set_keep it k]" for k
    using Cons.prems(2) by simp
  have upd: "?items[length pre := set_keep it False] = map2 set_keep (pre @ [it]) (ks @ [False]) @ post"
    using len split by (simp add: list_update_append)
  define js where "js = [Suc (length pre)..<Suc (length pre) + length post]"
  have range: "[length pre..<length pre + length (it # post)] = length pre # js"
    unfolding js_def by (rule trans [OF upt_conv_Cons]) simp_all
  note rest = next_ [folded js_def]
  have keep: "dd_keep it" using Cons.prems(4) by simp
  show ?case
  proof (cases dup)
    case True
    have "dedup_outer m ?items d (length pre # js) = dedup_outer m (map2 set_keep (pre @ [it]) (ks @ [False]) @ post) (d + 1) js"
      using True inner at keep unfolding upd [symmetric] by (simp add: set_keep_def [of it, symmetric])
    then show ?thesis using rest [of False "d + 1"] True unfolding range split by (simp add: vs(1) dup_def)
  next
    case False
    have "dedup_outer m ?items d (length pre # js) = dedup_outer m (map2 set_keep (pre @ [it]) (ks @ [True]) @ post) d js"
      using False inner at keep unfolding split by (simp add: set_keep_same)
    then show ?thesis using rest [of True d] False unfolding range split by (simp add: vs(1) dup_def)
  qed
qed simp

text \<open>
  C33. Deduplication keeps exactly the first occurrences: on records that are alive the two nested loops
  end without undefined behaviour, mark a record as dropped exactly when an earlier kept record is equal
  to it, change nothing else, and return the number of dropped records.
\<close>

theorem dedup_keeps_first:
  assumes "list_all2 (\<lambda>it v. dd_keep it \<and> readable m (dd_rec it) v) items vs"
  shows "dtl_dedup_mark m items = Ok (length (filter Not (firsts (cmp_same True) [] vs)),
    map2 (\<lambda>it k. it\<lparr>dd_keep := k\<rparr>) items (firsts (cmp_same True) [] vs))"
proof -
  have "list_all2 (live_item m) items vs" "\<forall>it \<in> set items. dd_keep it"
    using assms by (auto simp: live_item_def list_all2_conv_all_nth in_set_conv_nth)
  from outer_exact [of m "[]" "[]" "[]", OF _ _ this, of "[]" 0] show ?thesis
    by (simp add: dtl_dedup_mark_def set_keep_def [abs_def])
qed

theorem dedup_keeps_first_witness:
  "let beat = \<lambda>t. \<lparr>dd_section_index = 0, dd_section_type = 0, dd_codec_id = 0, dd_keep = True,
         dd_rec = RHeartbeat \<lparr>hb_uptime_s = t, hb_seq = 0\<rparr>\<rparr>
   in dtl_dedup_mark (w_mem fresh_world) [beat 1, beat 2, beat 1] = Ok (1, [beat 1, beat 2, (beat 1)\<lparr>dd_keep := False\<rparr>])"
  unfolding Let_def
  by (subst dedup_keeps_first [where vs = "map (\<lambda>t. VHeartbeat \<lparr>hb_uptime_s = t, hb_seq = 0\<rparr>) [1, 2, 1]"])
    (simp_all add: readable_def terminated_def cmp_same_def)

end
