(* ===== verification/Report_Sample.thy ===== *)
theory Report_Sample
  imports Report_Emit_Spec
begin

unbundle bit_operations_syntax

text \<open>
  \<^verbatim>\<open>src/report/sample.c\<close>: deterministic reservoir sampling.  The generator's rejection loop has no bound of
  its own; it is a partial function here and is shown to return for every state, because the generator
  cannot stay among the rejected values: its characteristic polynomial has an odd number of terms.
\<close>

subsection \<open>The generator\<close>

definition dtl_sample_rng_seed :: "u32 \<Rightarrow> u32" where
  "dtl_sample_rng_seed seed = (if seed \<noteq> 0 then seed else 0x9E3779B9)"

definition dtl_sample_rng_next :: "u32 \<Rightarrow> u32" where
  "dtl_sample_rng_next x0 =
     (let x1 = x0 XOR push_bit 13 x0;
          x2 = x1 XOR drop_bit 17 x1
      in x2 XOR push_bit 5 x2)"

text \<open>The \<open>do\<close> loop: the first value below the limit, which is also the new state.\<close>

partial_function (option) rng_reject :: "u32 \<Rightarrow> u32 \<Rightarrow> u32 option" where
  "rng_reject limit s = (let v = dtl_sample_rng_next s in if v \<ge> limit then rng_reject limit v else Some v)"

declare rng_reject.simps [code]

definition UINT32_MAX :: u32 where "UINT32_MAX = 0xFFFFFFFF"

definition dtl_sample_rng_below :: "u32 \<Rightarrow> u32 \<Rightarrow> (u32 \<times> u32) option" where
  "dtl_sample_rng_below s bound =
     (if bound \<le> 1 then Some (0, s)
      else map_option (\<lambda>v. (v mod bound, v)) (rng_reject (UINT32_MAX - UINT32_MAX mod bound) s))"

subsection \<open>Sampling\<close>

type_synonym dtl_sample_item = dtl_sign_item

definition dtl_sample_on_record :: "dtl_sample_item item_vec walk_fn" where
  "dtl_sample_on_record ev ctx =
     item_push sizeof_item \<lparr>si_section_index = we_section_index ev, si_section_type = we_section_type ev,
       si_codec_id = we_codec_id ev, si_rec = we_rec ev\<rparr> ctx"

text \<open>The replacement loop over the records \<open>is\<close>; the reservoir is a block of \<open>n\<close> slots.\<close>

fun sample_fill :: "nat list \<Rightarrow> nat \<Rightarrow> u32 \<Rightarrow> nat list \<Rightarrow> nat list res" where
  "sample_fill [] n rng reservoir = Ok reservoir"
| "sample_fill (i # is) n rng reservoir =
     (case dtl_sample_rng_below rng (of_nat (i + 1)) of
        None \<Rightarrow> Ub
      | Some (j, rng) \<Rightarrow>
          if unat j \<le> n
          then if unat j < length reservoir then sample_fill is n rng (reservoir[unat j := i]) else Ub
          else sample_fill is n rng reservoir)"

definition mark_step :: "nat \<Rightarrow> bool list res \<Rightarrow> bool list res" where
  "mark_step r sel = rbind sel (\<lambda>s. if r < length s then Ok (s[r := True]) else Ub)"

definition sample_mark :: "nat \<Rightarrow> nat list \<Rightarrow> bool list res" where
  "sample_mark count reservoir =
     fold mark_step reservoir (Ok (replicate count False))"

text \<open>The reservoir is a block of the heap that nobody releases.\<close>

definition dtl_sample_choose :: "nat \<Rightarrow> nat \<Rightarrow> u32 \<Rightarrow> (dtl_err \<times> bool list) wm" where
  "dtl_sample_choose count n seed =
     wbind (w_arena_alloc (if count \<noteq> 0 then count else 1)) (\<lambda>sel.
     case sel of None \<Rightarrow> wret (DTL_ERR_OOM, [])
     | Some _ \<Rightarrow>
         if n = 0 \<or> n \<ge> count then wret (DTL_OK, replicate count False)
         else wbind (w_malloc (n * 8)) (\<lambda>res.
              case res of None \<Rightarrow> wret (DTL_ERR_OOM, [])
              | Some _ \<Rightarrow>
                  wbind (wlift (sample_fill [n..<count] n (dtl_sample_rng_seed seed) [0..<n])) (\<lambda>reservoir.
                  wbind (wlift (sample_mark count reservoir)) (\<lambda>selected.
                  wret (DTL_OK, selected)))))"

definition dtl_sample_file :: "files \<Rightarrow> sinks \<Rightarrow> string \<Rightarrow> string \<Rightarrow> nat \<Rightarrow> u32 \<Rightarrow> nat \<Rightarrow> (dtl_err \<times> u8 list option \<times> nat option) wm" where
  "dtl_sample_file fs snk in_path out_path n seed max_file =
     with_arena (
       wbind (dtl_walk_absorb fs (Some in_path) max_file (walk_with dtl_sample_on_record None 0) no_items) (\<lambda>(rc, ctx).
       if rc \<noteq> DTL_OK then wret (rc, None, None)
       else let count = length (iv_items ctx)
            in wbind (dtl_sample_choose count n seed) (\<lambda>(rc, selected).
               if rc \<noteq> DTL_OK then wret (rc, None, None)
               else let copy_all = (n = 0 \<or> n \<ge> count);
                        chosen = map fst (filter (\<lambda>(it, s). copy_all \<or> s) (zip (iv_items ctx) selected))
                    in wbind (emit_and_write (sign_items chosen) snk out_path) (\<lambda>(rc, written).
                       wret (rc, written, if rc = DTL_OK then Some (length chosen) else None)))))"

subsection \<open>The generator is linear\<close>

lemma next_linear: "dtl_sample_rng_next (x XOR y) = dtl_sample_rng_next x XOR dtl_sample_rng_next y"
  by (simp add: dtl_sample_rng_next_def Let_def push_bit_xor drop_bit_xor ac_simps)

lemma next_zero: "dtl_sample_rng_next 0 = 0"
  by (simp add: dtl_sample_rng_next_def)

text \<open>A polynomial in the generator, highest coefficient first, applied to a state.\<close>

fun rng_poly :: "bool list \<Rightarrow> u32 \<Rightarrow> u32 \<Rightarrow> u32" where
  "rng_poly [] x acc = acc"
| "rng_poly (c # cs) x acc = rng_poly cs x (dtl_sample_rng_next acc XOR (if c then x else 0))"

lemma poly_linear: "rng_poly cs (x XOR y) (a XOR b) = rng_poly cs x a XOR rng_poly cs y b"
proof (induction cs arbitrary: a b)
  case (Cons c cs)
  have "dtl_sample_rng_next (a XOR b) XOR (if c then x XOR y else 0) =
    (dtl_sample_rng_next a XOR (if c then x else 0)) XOR (dtl_sample_rng_next b XOR (if c then y else 0))"
    by (simp add: next_linear ac_simps)
  then show ?case by (simp add: Cons.IH)
qed simp

lemma poly_next: "rng_poly cs (dtl_sample_rng_next x) (dtl_sample_rng_next a) = dtl_sample_rng_next (rng_poly cs x a)"
proof (induction cs arbitrary: a)
  case (Cons c cs)
  have "dtl_sample_rng_next (dtl_sample_rng_next a) XOR (if c then dtl_sample_rng_next x else 0) =
    dtl_sample_rng_next (dtl_sample_rng_next a XOR (if c then x else 0))" by (simp add: next_linear next_zero)
  then show ?case by (simp add: Cons.IH)
qed simp

lemma poly_snoc: "rng_poly (cs @ [c]) x a = dtl_sample_rng_next (rng_poly cs x a) XOR (if c then x else 0)"
  by (induction cs arbitrary: a) simp_all

lemma poly_zero: "rng_poly cs 0 0 = 0"
  by (induction cs) (simp_all add: next_zero)

text \<open>The characteristic polynomial of the generator.\<close>

definition rng_char :: "bool list" where
  "rng_char = [True, False, False, False, False, False, False, False, False, False, False, True, True, True, True, True, False,
     True, True, False, False, False, False, True, False, False, True, False, False, False, False, False, True]"

lemma poly_parity:
  "(\<And>k. k < length cs \<Longrightarrow> bit ((dtl_sample_rng_next ^^ k) x) 31) \<Longrightarrow> bit (rng_poly cs x 0) 31 \<longleftrightarrow> odd (length (filter (\<lambda>c. c) cs))"
proof (induction cs arbitrary: x rule: rev_induct)
  case (snoc c cs)
  have "bit ((dtl_sample_rng_next ^^ k) (dtl_sample_rng_next x)) 31" if "k < length cs" for k
    using snoc.prems [of "Suc k"] that by (simp add: funpow_swap1)
  from snoc.IH [OF this] have "bit (rng_poly cs (dtl_sample_rng_next x) 0) 31 \<longleftrightarrow> odd (length (filter (\<lambda>c. c) cs))" .
  moreover have "rng_poly cs (dtl_sample_rng_next x) 0 = dtl_sample_rng_next (rng_poly cs x 0)"
    using poly_next [of cs x 0] by (simp add: next_zero)
  moreover have "bit x 31" using snoc.prems [of 0] by simp
  ultimately show ?case by (simp add: poly_snoc bit_xor_iff)
qed simp

text \<open>A linear function that vanishes on the powers of two vanishes.\<close>

lemma linear_zero:
  fixes f :: "u32 \<Rightarrow> u32"
  assumes "\<And>x y. f (x XOR y) = f x XOR f y" "f 0 = 0" "\<And>i. i < 32 \<Longrightarrow> f (push_bit i 1) = 0"
  shows "f x = 0"
proof -
  have "f (take_bit n x) = 0" if "n \<le> 32" for n
    using that
  proof (induction n)
    case (Suc n)
    have "take_bit (Suc n) x = take_bit n x XOR (if bit x n then push_bit n 1 else 0)"
      by (rule bit_word_eqI) (auto simp: bit_take_bit_iff bit_xor_iff bit_exp_iff push_bit_eq_mult less_Suc_eq)
    with Suc assms(2) assms(3) [of n] show ?case by (simp add: assms(1))
  qed (simp add: assms(2))
  from this [of 32] show ?thesis by (simp add: take_bit_length_eq [where 'a = 32, simplified])
qed

text \<open>The polynomial annihilates every state: it is enough to try the powers of two.\<close>

text \<open>Evaluation goes through the integers.\<close>

definition mix_left :: "nat \<Rightarrow> int \<Rightarrow> int" where "mix_left k x = x XOR (x * 2 ^ k mod 4294967296)"
definition mix_right :: "nat \<Rightarrow> int \<Rightarrow> int" where "mix_right k x = x XOR x div 2 ^ k"
definition int_next :: "int \<Rightarrow> int" where "int_next x = mix_left 5 (mix_right 17 (mix_left 13 x))"

fun int_poly :: "bool list \<Rightarrow> int \<Rightarrow> int \<Rightarrow> int" where
  "int_poly [] x acc = acc"
| "int_poly (True # cs) x acc = int_poly cs x (int_next acc XOR x)"
| "int_poly (False # cs) x acc = int_poly cs x (int_next acc)"

lemmas int_run = int_next_def mix_left_def mix_right_def rng_char_def

lemma uint_mix_left: "uint (x XOR push_bit k x :: u32) = mix_left k (uint x)"
  by (simp only: mix_left_def uint_xor unsigned_push_bit_eq) (simp add: push_bit_eq_mult take_bit_eq_mod)

lemma uint_mix_right: "uint (x XOR drop_bit k x :: u32) = mix_right k (uint x)"
proof -
  have "take_bit 32 (uint x) = uint x" using uint_lt2p [of x] by (simp add: take_bit_int_eq_self)
  then show ?thesis by (simp add: mix_right_def uint_xor unsigned_drop_bit_eq flip: drop_bit_eq_div)
qed

lemma uint_next: "uint (dtl_sample_rng_next x) = int_next (uint x)"
  unfolding dtl_sample_rng_next_def Let_def int_next_def
  by (simp only: uint_mix_left uint_mix_right)

lemma uint_poly: "uint (rng_poly cs x a) = int_poly cs (uint x) (uint a)"
proof (induction cs arbitrary: a)
  case (Cons c cs)
  then show ?case by (cases c) (simp_all add: uint_next uint_xor)
qed simp

lemma char_powers_low:
  "int_poly rng_char 1 0 = 0" "int_poly rng_char 2 0 = 0" "int_poly rng_char 4 0 = 0" "int_poly rng_char 8 0 = 0" "int_poly rng_char 16 0 = 0" "int_poly rng_char 32 0 = 0" "int_poly rng_char 64 0 = 0" "int_poly rng_char 128 0 = 0" "int_poly rng_char 256 0 = 0" "int_poly rng_char 512 0 = 0" "int_poly rng_char 1024 0 = 0" "int_poly rng_char 2048 0 = 0" "int_poly rng_char 4096 0 = 0" "int_poly rng_char 8192 0 = 0" "int_poly rng_char 16384 0 = 0" "int_poly rng_char 32768 0 = 0"
  by (simp_all add: int_run)

lemma char_powers_high:
  "int_poly rng_char 65536 0 = 0" "int_poly rng_char 131072 0 = 0" "int_poly rng_char 262144 0 = 0" "int_poly rng_char 524288 0 = 0" "int_poly rng_char 1048576 0 = 0" "int_poly rng_char 2097152 0 = 0" "int_poly rng_char 4194304 0 = 0" "int_poly rng_char 8388608 0 = 0" "int_poly rng_char 16777216 0 = 0" "int_poly rng_char 33554432 0 = 0" "int_poly rng_char 67108864 0 = 0" "int_poly rng_char 134217728 0 = 0" "int_poly rng_char 268435456 0 = 0" "int_poly rng_char 536870912 0 = 0" "int_poly rng_char 1073741824 0 = 0" "int_poly rng_char 2147483648 0 = 0"
  by (simp_all add: int_run)

lemma char_powers: "i < 32 \<Longrightarrow> rng_poly rng_char (push_bit i 1) 0 = 0"
proof -
  assume "i < 32"
  have "(2 :: int) ^ i < 2 ^ 32" by (rule power_strict_increasing) (use \<open>i < 32\<close> in simp_all)
  then have "uint (rng_poly rng_char (push_bit i 1) 0) = int_poly rng_char (2 ^ i) 0"
    by (simp only: uint_poly unsigned_push_bit_eq) (simp add: push_bit_eq_mult take_bit_eq_mod)
  moreover have "i \<in> {0..<32}" using \<open>i < 32\<close> by simp
  then have "int_poly rng_char (2 ^ i) 0 = 0"
    unfolding atLeastLessThan_upt by (simp add: upt_rec) (elim disjE; simp only: char_powers_low char_powers_high, simp add: char_powers_low char_powers_high)
  ultimately show ?thesis by (simp add: word_uint_eq_iff)
qed

lemma rng_char_annihilates: "rng_poly rng_char x 0 = 0"
  by (rule linear_zero [where f = "\<lambda>x. rng_poly rng_char x 0"])
    (use poly_linear [of rng_char _ _ 0 0] char_powers in \<open>simp_all add: poly_zero\<close>)

subsection \<open>The rejection loop ends\<close>

text \<open>Within 33 steps the generator produces a value with its top bit clear.\<close>

lemma next_leaves_top: "\<exists>k \<le> 33. \<not> bit ((dtl_sample_rng_next ^^ Suc k) x) 31"
proof (rule ccontr)
  assume "\<not> ?thesis"
  then have "bit ((dtl_sample_rng_next ^^ k) (dtl_sample_rng_next x)) 31" if "k < length rng_char" for k
    using that by (simp add: rng_char_def funpow_swap1)
  from poly_parity [of rng_char, OF this] show False
    by (simp add: rng_char_annihilates) (simp add: rng_char_def)
qed

lemma reject_returns:
  assumes "(dtl_sample_rng_next ^^ Suc k) s < limit"
  shows "\<exists>v. rng_reject limit s = Some v \<and> v < limit"
  using assms
proof (induction k arbitrary: s)
  case 0
  then show ?case by (subst rng_reject.simps) (simp add: Let_def not_le [symmetric] del: not_le)
next
  case (Suc k)
  show ?case
  proof (cases "dtl_sample_rng_next s < limit")
    case True
    then show ?thesis by (subst rng_reject.simps) (simp add: Let_def not_le [symmetric] del: not_le)
  next
    case False
    have "(dtl_sample_rng_next ^^ Suc k) (dtl_sample_rng_next s) < limit" using Suc.prems by (simp add: funpow_swap1)
    from Suc.IH [OF this] False show ?thesis by (subst rng_reject.simps) (simp add: Let_def not_le [symmetric] del: not_le)
  qed
qed

text \<open>The rejected values all have their top bit set.\<close>

lemma limit_large:
  assumes "1 < bound"
  shows "(0x80000000 :: u32) \<le> UINT32_MAX - UINT32_MAX mod bound"
proof -
  define b where "b = unat bound"
  have b: "1 < b" using assms by (simp add: b_def word_less_nat_alt)
  have mx: "unat UINT32_MAX = 4294967295" by (simp add: UINT32_MAX_def)
  have md: "unat (UINT32_MAX mod bound) = 4294967295 mod b" by (simp add: unat_mod_distrib mx b_def)
  have "unat (UINT32_MAX - UINT32_MAX mod bound) = 4294967295 - 4294967295 mod b"
    using md mx by (subst unat_sub) (simp_all add: word_le_nat_alt)
  moreover have "4294967295 mod b \<le> 2147483647"
  proof (cases "b \<le> 2147483648")
    case True
    then show ?thesis using mod_less_divisor [of b 4294967295] b by linarith
  next
    case False
    have "b < 2 ^ 32" unfolding b_def by (rule order_less_le_trans [OF unsigned_less]) simp
    then have "4294967295 mod b = 4294967295 - b" using False by (simp add: mod_if [of _ b])
    then show ?thesis using False by simp
  qed
  ultimately show ?thesis by (simp add: word_le_nat_alt)
qed

lemma top_clear: "\<not> bit (x :: u32) 31 \<Longrightarrow> x < 0x80000000"
proof -
  assume no: "\<not> bit x 31"
  have "take_bit 31 x = x"
    by (rule bit_word_eqI) (use no in \<open>auto simp: bit_take_bit_iff less_Suc_eq numeral_eq_Suc\<close>)
  moreover have "unat (take_bit 31 x) < 2 ^ 31" unfolding unsigned_take_bit_eq by (rule take_bit_nat_less_exp)
  ultimately show ?thesis by (simp add: word_less_nat_alt)
qed

lemma below_returns:
  obtains v s' where "dtl_sample_rng_below s bound = Some (v, s')" "1 < bound \<longrightarrow> v < bound" "bound \<le> 1 \<longrightarrow> v = 0"
proof (cases "bound \<le> 1")
  case True
  then show thesis using that [of 0 s] by (simp add: dtl_sample_rng_below_def leD)
next
  case False
  then have b: "1 < bound" by simp
  obtain k where "\<not> bit ((dtl_sample_rng_next ^^ Suc k) s) 31" using next_leaves_top by blast
  then have "(dtl_sample_rng_next ^^ Suc k) s < UINT32_MAX - UINT32_MAX mod bound"
    using top_clear limit_large [OF b] by (meson order_less_le_trans)
  from reject_returns [OF this] obtain v where v: "rng_reject (UINT32_MAX - UINT32_MAX mod bound) s = Some v" by blast
  have "v mod bound < bound" using b by (simp add: word_mod_less_divisor order_less_trans [of 0 1])
  with v False that show thesis by (simp add: dtl_sample_rng_below_def)
qed

text \<open>
  C30. A draw always returns: for every state of the generator and every bound the rejection loop ends,
  and the value is below the bound (0 for the bounds 0 and 1).
\<close>

theorem rng_below_returns:
  "\<exists>v s'. dtl_sample_rng_below s bound = Some (v, s') \<and> (if bound \<le> 1 then v = 0 else v < bound)"
  using below_returns [of s bound] by (metis not_le)

subsection \<open>The selection\<close>

fun draws :: "nat list \<Rightarrow> u32 \<Rightarrow> nat list" where
  "draws [] s = []"
| "draws (i # is) s = (case dtl_sample_rng_below s (of_nat (i + 1)) of None \<Rightarrow> [] | Some (j, s) \<Rightarrow> unat j # draws is s)"

text \<open>The reservoir holds distinct records below \<open>b\<close>.\<close>

lemma distinct_update:
  assumes "distinct xs" "\<forall>x \<in> set xs. x < b" "j < length xs"
  shows "distinct (xs[j := b]) \<and> (\<forall>x \<in> set (xs[j := b]). x < Suc b)"
proof -
  have "b \<notin> set xs" using assms(2) by blast
  moreover have "\<forall>x \<in> set (xs[j := b]). x < Suc b" using assms(2) set_update_subset_insert [of xs j b] by (auto simp: less_Suc_eq)
  ultimately show ?thesis using assms(1) by (simp add: distinct_list_update)
qed

lemma fill_exact:
  assumes "length res = n" "distinct res" "\<forall>x \<in> set res. x < b"
  shows "if n \<in> set (draws [b..<c] s) then sample_fill [b..<c] n s res = Ub
    else \<exists>res'. sample_fill [b..<c] n s res = Ok res' \<and> length res' = n \<and> distinct res' \<and> (\<forall>x \<in> set res'. x < max b c)"
  using assms
proof (induction "c - b" arbitrary: b s res)
  case 0
  then show ?case by auto
next
  case (Suc d)
  then have u: "[b..<c] = b # [Suc b..<c]" and mx: "max (Suc b) c = c" "max b c = c" by (simp_all add: upt_rec)
  obtain j s' where j: "dtl_sample_rng_below s (of_nat (b + 1)) = Some (j, s')" using below_returns by metis
  have later: "if n \<in> set (draws [Suc b..<c] s') then sample_fill [Suc b..<c] n s' r = Ub
      else \<exists>res'. sample_fill [Suc b..<c] n s' r = Ok res' \<and> length res' = n \<and> distinct res' \<and> (\<forall>x \<in> set res'. x < c)"
    if "length r = n" "distinct r" "\<forall>x \<in> set r. x < Suc b" for r
    using Suc.hyps(1) [of "Suc b" r s'] Suc.hyps(2) that unfolding mx by (simp split: if_splits)
  have keep: "\<forall>x \<in> set res. x < Suc b" using Suc.prems(3) by (simp add: less_SucI)
  show ?case
  proof (cases "unat j" n rule: linorder_cases)
    case less
    then show ?thesis
      using later [of "res[unat j := b]"] distinct_update [OF Suc.prems(2,3), of "unat j"] Suc.prems(1) j u mx by simp
  next
    case equal
    then show ?thesis using Suc.prems(1) j u by simp
  next
    case greater
    then show ?thesis using later [OF Suc.prems(1,2) keep] j u mx by simp
  qed
qed

lemma mark_exact:
  assumes "\<forall>x \<in> set res. x < length sel"
  shows "fold mark_step res (Ok sel) =
    Ok (map (\<lambda>i. sel ! i \<or> i \<in> set res) [0..<length sel])"
  using assms
proof (induction res arbitrary: sel)
  case Nil
  show ?case by (simp add: map_nth)
next
  case (Cons r res)
  have "fold mark_step (r # res) (Ok sel) =
      fold mark_step res (Ok (sel[r := True]))"
    using Cons.prems by (simp add: mark_step_def)
  also have "\<dots> = Ok (map (\<lambda>i. sel[r := True] ! i \<or> i \<in> set res) [0..<length (sel[r := True])])"
    by (rule Cons.IH) (use Cons.prems in simp)
  also have "length (sel[r := True]) = length sel" by simp
  also have "map (\<lambda>i. sel[r := True] ! i \<or> i \<in> set res) [0..<length sel] = map (\<lambda>i. sel ! i \<or> i \<in> set (r # res)) [0..<length sel]"
    by (rule map_cong) (use Cons.prems in \<open>auto simp: nth_list_update split: if_splits\<close>)
  finally show ?case .
qed

lemma sample_fill_run:
  assumes "0 < n" "n < count"
  shows "if n \<in> set (draws [n..<count] s) then sample_fill [n..<count] n s [0..<n] = Ub
    else \<exists>res. sample_fill [n..<count] n s [0..<n] = Ok res \<and> length res = n \<and> distinct res \<and> (\<forall>x \<in> set res. x < count)"
  using fill_exact [of "[0..<n]" n n count s] assms(2) by (auto simp: max_def split: if_splits)

text \<open>Without the allocations, which can only fail.\<close>

lemma choose_run:
  assumes "0 < n" "n < count"
  shows "fst (dtl_sample_choose count n seed w) = Ok (DTL_ERR_OOM, []) \<or> fst (dtl_sample_choose count n seed w) =
    rbind (sample_fill [n..<count] n (dtl_sample_rng_seed seed) [0..<n]) (\<lambda>res. rbind (sample_mark count res) (\<lambda>sel. Ok (DTL_OK, sel)))"
proof -
  obtain p w1 where al: "w_arena_alloc count w = (Ok p, w1)"
    by (cases "dtl_arena_alloc (w_mem w) (w_arena w) count") (simp add: w_arena_alloc_def)
  obtain q w2 where ml: "w_malloc (n * 8) w1 = (Ok q, w2)"
    by (cases "c_malloc (w_mem w1) (n * 8)") (simp add: w_malloc_def)
  have c: "(if count \<noteq> 0 then count else 1) = count" "\<not> (n = 0 \<or> n \<ge> count)" using assms by auto
  show ?thesis
    unfolding dtl_sample_choose_def c
    using al ml c(2) by (cases p; cases q)
      (auto simp: wbind_def wret_def wlift_def split: result.splits)
qed

text \<open>
  C31. Sampling \<open>n\<close> of more than \<open>n\<close> records selects exactly \<open>n\<close> of them unless one of the draws is
  \<open>n\<close> itself; in that case the code writes behind the end of the reservoir, because the test for a slot
  is \<open>j <= n\<close>.  Apart from that the only failure is lack of memory.
\<close>

theorem sample_choose_exact:
  assumes "0 < n" "n < count" "fst (dtl_sample_choose count n seed w) = r"
  shows "r = Ok (DTL_ERR_OOM, []) \<or>
     (if n \<in> set (draws [n..<count] (dtl_sample_rng_seed seed)) then r = Ub
      else \<exists>sel. r = Ok (DTL_OK, sel) \<and> length sel = count \<and> length (filter (\<lambda>s. s) sel) = n)"
proof -
  let ?s = "dtl_sample_rng_seed seed"
  note fill = sample_fill_run [OF assms(1,2), of ?s]
  show ?thesis
  proof (cases "n \<in> set (draws [n..<count] ?s)")
    case True
    then show ?thesis using choose_run [OF assms(1,2), of seed w] fill assms(3) by auto
  next
    case False
    with fill obtain res where res: "sample_fill [n..<count] n ?s [0..<n] = Ok res" "length res = n" "distinct res" "\<forall>x \<in> set res. x < count"
      by auto
    let ?sel = "map (\<lambda>i. i \<in> set res) [0..<count]"
    have mark: "sample_mark count res = Ok ?sel" unfolding sample_mark_def by (subst mark_exact) (use res(4) in auto)
    have "set (filter (\<lambda>i. i \<in> set res) [0..<count]) = set res" using res(4) by auto
    then have "length (filter (\<lambda>s. s) ?sel) = card (set res)"
      using distinct_card [of "filter (\<lambda>i. i \<in> set res) [0..<count]"] by (simp add: filter_map o_def)
    with res(2,3) have "length (filter (\<lambda>s. s) ?sel) = n" by (simp add: distinct_card)
    with False choose_run [OF assms(1,2), of seed w] res(1) mark assms(3) show ?thesis by auto
  qed
qed

lemma first_draw: "draws [1..<2] (dtl_sample_rng_seed 1) = [1]"
proof -
  have n: "dtl_sample_rng_next 1 = 270369" by (simp add: dtl_sample_rng_next_def)
  have "rng_reject 0xFFFFFFFE 1 = Some 270369" by (subst rng_reject.simps) (simp add: n)
  moreover have "\<not> (2 :: u32) \<le> 1" by (simp add: word_le_nat_alt)
  ultimately show ?thesis by (simp add: upt_rec dtl_sample_rng_below_def UINT32_MAX_def dtl_sample_rng_seed_def)
qed

theorem sample_choose_exact_witness: "fst (dtl_sample_choose 2 1 1 fresh_world) = Ub"
proof -
  have "fst (dtl_sample_choose 2 1 1 fresh_world) \<noteq> Ok (DTL_ERR_OOM, [])"
    by (simp add: dtl_sample_choose_def world_run arena_run split: result.splits)
  with sample_choose_exact [of 1 2 1 fresh_world, OF _ _ refl] first_draw show ?thesis by auto
qed

end
