(* ===== verification/Report_Merge.thy ===== *)
theory Report_Merge
  imports Report_Emit_Spec
begin

text \<open>
  \<^verbatim>\<open>src/report/merge.c\<close> and \<^verbatim>\<open>split.c\<close>: regrouping records by tag.  The merge keeps its per-tag arrays in blocks
  of the heap and caches the base of the array it used last; a block is a number here, its liveness is
  that of the heap, and the records stored in it are kept beside it.  Storing to a released block is
  undefined.  The split keeps its arrays in the arena.
\<close>

subsection \<open>Merging\<close>

record dtl_merge_ctx =
  mc_by_tag :: "u8 \<Rightarrow> nat option"
  mc_count :: "u8 \<Rightarrow> nat"
  mc_cap :: "u8 \<Rightarrow> nat"
  mc_recent_base :: "nat option"
  mc_recent_tag :: int
  mc_block :: "nat \<Rightarrow> dtl_record list"

text \<open>\<open>slot[i] = r\<close> in a block of records.\<close>

definition store_record :: "nat \<Rightarrow> nat \<Rightarrow> dtl_record \<Rightarrow> (nat \<Rightarrow> dtl_record list) \<Rightarrow> (nat \<Rightarrow> dtl_record list) wm" where
  "store_record b i r blocks = (\<lambda>w. case m_objs (w_mem w) b of
     None \<Rightarrow> (Ub, w)
   | Some cells \<Rightarrow>
       if (i + 1) * sizeof_record \<le> length cells
       then (Ok (blocks(b := take i (blocks b) @ r # drop (i + 1) (blocks b))), w) else (Ub, w))"

text \<open>Growth: allocate, copy, release the old block.\<close>

definition merge_grow :: "u8 \<Rightarrow> dtl_merge_ctx \<Rightarrow> (dtl_err \<times> dtl_merge_ctx) wm" where
  "merge_grow tag ctx =
     (if mc_count ctx tag = mc_cap ctx tag
      then let new_cap = (if mc_cap ctx tag \<noteq> 0 then mc_cap ctx tag * 2 else 16)
           in wbind (w_malloc (new_cap * sizeof_record)) (\<lambda>grown.
              case grown of None \<Rightarrow> wret (DTL_ERR_OOM, ctx)
              | Some g \<Rightarrow>
                  wbind (w_free (mc_by_tag ctx tag)) (\<lambda>_.
                  wret (DTL_OK, ctx\<lparr>mc_block := (mc_block ctx)(g := (case mc_by_tag ctx tag of None \<Rightarrow> []
                                        | Some b \<Rightarrow> take (mc_count ctx tag) (mc_block ctx b))),
                                    mc_by_tag := (mc_by_tag ctx)(tag \<mapsto> g), mc_cap := (mc_cap ctx)(tag := new_cap)\<rparr>)))
      else wret (DTL_OK, ctx))"

definition merge_slot :: "u8 \<Rightarrow> dtl_merge_ctx \<Rightarrow> nat option" where
  "merge_slot tag ctx = (if mc_recent_tag ctx = uint tag \<and> mc_recent_base ctx \<noteq> None then mc_recent_base ctx else mc_by_tag ctx tag)"

definition dtl_merge_on_record :: "dtl_merge_ctx walk_fn" where
  "dtl_merge_on_record ev ctx =
     (let tag = rec_tag (we_rec ev)
      in wbind (merge_grow tag ctx) (\<lambda>(rc, ctx).
         if rc \<noteq> DTL_OK then wret (rc, ctx)
         else case merge_slot tag ctx of
                None \<Rightarrow> wlift Ub
              | Some slot \<Rightarrow>
                  wbind (store_record slot (mc_count ctx tag) (we_rec ev) (mc_block ctx)) (\<lambda>blocks.
                  wret (DTL_OK, ctx\<lparr>mc_block := blocks, mc_recent_tag := uint tag, mc_recent_base := Some slot,
                                    mc_count := (mc_count ctx)(tag := mc_count ctx tag + 1)\<rparr>))))"

definition dtl_merge_absorb :: "files \<Rightarrow> string \<Rightarrow> nat \<Rightarrow> dtl_merge_ctx \<Rightarrow> (dtl_err \<times> dtl_merge_ctx) wm" where
  "dtl_merge_absorb fs path max_file ctx = dtl_walk_absorb fs (Some path) max_file (walk_with dtl_merge_on_record None 0) ctx"

fun merge_inputs :: "files \<Rightarrow> string list \<Rightarrow> nat \<Rightarrow> dtl_merge_ctx \<Rightarrow> (dtl_err \<times> dtl_merge_ctx) wm" where
  "merge_inputs fs [] max_file ctx = wret (DTL_OK, ctx)"
| "merge_inputs fs (p # ps) max_file ctx =
     wbind (dtl_merge_absorb fs p max_file ctx) (\<lambda>(rc, ctx).
     if rc \<noteq> DTL_OK then wret (rc, ctx) else merge_inputs fs ps max_file ctx)"

fun add_records :: "dtl_record list \<Rightarrow> dtl_writer \<Rightarrow> (dtl_err \<times> dtl_writer) wm" where
  "add_records [] w = wret (DTL_OK, w)"
| "add_records (r # rs) w =
     wbind (dtl_writer_add_record r w) (\<lambda>(rc, w). if rc \<noteq> DTL_OK then wret (rc, w) else add_records rs w)"

text \<open>One section of type \<open>tag\<close>, stored as it is.\<close>

definition tag_section :: "u8 \<Rightarrow> dtl_record list \<Rightarrow> dtl_writer \<Rightarrow> (dtl_err \<times> dtl_writer) wm" where
  "tag_section tag rs w =
     (case dtl_writer_begin_section (ucast tag) DTL_CODEC_STORE w of (h, w) \<Rightarrow>
      if h < 0 then wret (DTL_ERR_OOM, w)
      else wbind (add_records rs w) (\<lambda>(rc, w).
           if rc \<noteq> DTL_OK then wret (rc, w) else dtl_writer_end_section w))"

fun tag_sections :: "u8 list \<Rightarrow> (u8 \<Rightarrow> dtl_record list) \<Rightarrow> dtl_writer \<Rightarrow> (dtl_err \<times> dtl_writer) wm" where
  "tag_sections [] recs w = wret (DTL_OK, w)"
| "tag_sections (t # ts) recs w =
     (if recs t = [] then tag_sections ts recs w
      else wbind (tag_section t (recs t) w) (\<lambda>(rc, w).
           if rc \<noteq> DTL_OK then wret (rc, w) else tag_sections ts recs w))"

definition all_tags :: "u8 list" where "all_tags = map of_nat [0..<256]"

definition merge_zero :: dtl_merge_ctx where
  "merge_zero = \<lparr>mc_by_tag = (\<lambda>_. None), mc_count = (\<lambda>_. 0), mc_cap = (\<lambda>_. 0), mc_recent_base = None, mc_recent_tag = -1,
     mc_block = (\<lambda>_. [])\<rparr>"

definition merge_records :: "dtl_merge_ctx \<Rightarrow> u8 \<Rightarrow> dtl_record list" where
  "merge_records ctx tag = (case mc_by_tag ctx tag of None \<Rightarrow> [] | Some b \<Rightarrow> take (mc_count ctx tag) (mc_block ctx b))"

text \<open>The arrays are released at the end.\<close>

definition merge_free :: "dtl_merge_ctx \<Rightarrow> unit wm" where
  "merge_free ctx = w_free_all (concat (map (\<lambda>t. case mc_by_tag ctx t of None \<Rightarrow> [] | Some b \<Rightarrow> [b]) all_tags))"

text \<open>
  The table \<open>by_tag\<close> is cleared only after all three tables have been allocated, but the clean-up reads it
  whenever it exists.
\<close>

definition dtl_merge_files :: "files \<Rightarrow> sinks \<Rightarrow> string list \<Rightarrow> nat \<Rightarrow> string \<Rightarrow> (dtl_err \<times> u8 list option) wm" where
  "dtl_merge_files fs snk paths max_file out_path =
     (if length paths = 0 then wret (DTL_ERR_INVAL, None)
      else with_arena (
        wbind (w_arena_alloc (256 * 8)) (\<lambda>by_tag.
        wbind (w_arena_alloc (256 * 8)) (\<lambda>count.
        wbind (w_arena_alloc (256 * 8)) (\<lambda>cap.
        if by_tag = None \<or> count = None \<or> cap = None
        then (if by_tag = None then wret (DTL_ERR_OOM, None) else wlift Ub)
        else wbind (merge_inputs fs paths max_file merge_zero) (\<lambda>(rc, ctx).
             wbind (if rc \<noteq> DTL_OK then wret (rc, None)
                    else wbind (tag_sections all_tags (merge_records ctx) dtl_writer_init) (\<lambda>(rc, wr).
                         if rc \<noteq> DTL_OK then wret (rc, None) else emit_output snk out_path wr)) (\<lambda>r.
             wbind (merge_free ctx) (\<lambda>_. wret r))))))))"

subsection \<open>Splitting\<close>

record dtl_split_ctx =
  sp_recs :: "u8 \<Rightarrow> dtl_record list"
  sp_cap :: "u8 \<Rightarrow> nat"

definition dtl_split_on_record :: "dtl_split_ctx walk_fn" where
  "dtl_split_on_record ev ctx =
     (let tag = rec_tag (we_rec ev)
      in wbind (vec_reserve 16 sizeof_record (length (sp_recs ctx tag)) (sp_cap ctx tag) Walk_Arena) (\<lambda>(cap, _).
         case cap of None \<Rightarrow> wret (DTL_ERR_OOM, ctx)
         | Some cap \<Rightarrow> wret (DTL_OK, ctx\<lparr>sp_cap := (sp_cap ctx)(tag := cap),
                                         sp_recs := (sp_recs ctx)(tag := sp_recs ctx tag @ [we_rec ev])\<rparr>)))"

text \<open>The files written so far are the last component.\<close>

definition dtl_split_write_tag :: "sinks \<Rightarrow> u8 \<Rightarrow> dtl_record list \<Rightarrow> string \<Rightarrow> string \<Rightarrow> (dtl_err \<times> (string \<times> u8 list) list) wm" where
  "dtl_split_write_tag snk tag recs out_dir pfx =
     (let path = snprintf_buf 1024 (out_dir @ ''/'' @ pfx @ ''_'' @ dtl_walk_tag_name tag @ ''.dtl'')
      in wbind (tag_section tag recs dtl_writer_init) (\<lambda>(rc, wr).
         if rc \<noteq> DTL_OK then wret (rc, [])
         else wbind (emit_output snk path wr) (\<lambda>(rc, written).
              wret (rc, case written of None \<Rightarrow> [] | Some bytes \<Rightarrow> [(path, bytes)]))))"

fun split_tags :: "sinks \<Rightarrow> u8 list \<Rightarrow> (u8 \<Rightarrow> dtl_record list) \<Rightarrow> string \<Rightarrow> string \<Rightarrow> (dtl_err \<times> (string \<times> u8 list) list) wm" where
  "split_tags snk [] recs out_dir pfx = wret (DTL_OK, [])"
| "split_tags snk (t # ts) recs out_dir pfx =
     (if recs t = [] then split_tags snk ts recs out_dir pfx
      else wbind (dtl_split_write_tag snk t (recs t) out_dir pfx) (\<lambda>(rc, f).
           if rc \<noteq> DTL_OK then wret (rc, f)
           else wbind (split_tags snk ts recs out_dir pfx) (\<lambda>(rc, fs). wret (rc, f @ fs))))"

definition dtl_split_file :: "files \<Rightarrow> sinks \<Rightarrow> string \<Rightarrow> nat \<Rightarrow> string \<Rightarrow> string \<Rightarrow> (dtl_err \<times> (string \<times> u8 list) list) wm" where
  "dtl_split_file fs snk path max_file out_dir pfx =
     with_arena (
       wbind (w_arena_alloc (256 * 8)) (\<lambda>by_tag.
       wbind (w_arena_alloc (256 * 8)) (\<lambda>count.
       wbind (w_arena_alloc (256 * 8)) (\<lambda>cap.
       if by_tag = None \<or> count = None \<or> cap = None then wret (DTL_ERR_OOM, [])
       else wbind (dtl_walk_absorb fs (Some path) max_file (walk_with dtl_split_on_record None 0) \<lparr>sp_recs = (\<lambda>_. []), sp_cap = (\<lambda>_. 0)\<rparr>) (\<lambda>(rc, ctx).
            if rc \<noteq> DTL_OK then wret (rc, []) else split_tags snk all_tags (sp_recs ctx) out_dir pfx)))))"

subsection \<open>The cached base\<close>

text \<open>The events of a walk handed to the callback one after the other, up to the first error.\<close>

fun merge_feed :: "dtl_record dtl_walk_event list \<Rightarrow> dtl_merge_ctx \<Rightarrow> (dtl_err \<times> dtl_merge_ctx) wm" where
  "merge_feed [] ctx = wret (DTL_OK, ctx)"
| "merge_feed (ev # evs) ctx = wbind (dtl_merge_on_record ev ctx) (\<lambda>(rc, ctx).
     if rc \<noteq> DTL_OK then wret (rc, ctx) else merge_feed evs ctx)"

text \<open>The first array of a tag while it fills up: \<open>k\<close> of its 16 slots are used and its base is cached.\<close>

definition merge_filling :: "u8 \<Rightarrow> nat \<Rightarrow> nat \<Rightarrow> dtl_merge_ctx \<Rightarrow> world \<Rightarrow> bool" where
  "merge_filling tag k b ctx w \<longleftrightarrow> mc_by_tag ctx tag = Some b \<and> mc_count ctx tag = k \<and> mc_cap ctx tag = 16 \<and>
     mc_recent_base ctx = Some b \<and> mc_recent_tag ctx = uint tag \<and> b < m_next (w_mem w) \<and>
     (\<exists>cells. m_objs (w_mem w) b = Some cells \<and> length cells = 16 * sizeof_record)"

lemma merge_first:
  assumes "rec_tag (we_rec ev) = tag"
  shows "\<exists>rc ctx w'. dtl_merge_on_record ev merge_zero w = (Ok (rc, ctx), w') \<and>
    (rc = DTL_ERR_OOM \<or> rc = DTL_OK \<and> (\<exists>b. merge_filling tag 1 b ctx w'))"
  using assms
  by (auto simp: dtl_merge_on_record_def merge_grow_def merge_zero_def merge_slot_def merge_filling_def store_record_def
      wbind_def wret_def w_malloc_def w_free_def c_malloc_def c_free_def sizeof_record_def Let_def)

lemma merge_next:
  assumes "merge_filling tag k b ctx w" "k < 16" "rec_tag (we_rec ev) = tag"
  shows "\<exists>ctx'. dtl_merge_on_record ev ctx w = (Ok (DTL_OK, ctx'), w) \<and> merge_filling tag (k + 1) b ctx' w"
  using assms
  by (auto simp: dtl_merge_on_record_def merge_grow_def merge_slot_def merge_filling_def store_record_def
      wbind_def wret_def sizeof_record_def Let_def)

lemma merge_full:
  assumes "merge_filling tag 16 b ctx w" "rec_tag (we_rec ev) = tag"
  shows "fst (dtl_merge_on_record ev ctx w) = Ub \<or> (\<exists>ctx'. fst (dtl_merge_on_record ev ctx w) = Ok (DTL_ERR_OOM, ctx'))"
  using assms
  by (auto simp: dtl_merge_on_record_def merge_grow_def merge_slot_def merge_filling_def store_record_def
      wbind_def wret_def w_malloc_def w_free_def c_malloc_def c_free_def Let_def)

lemma merge_run_full:
  assumes "merge_filling tag k b ctx w" "k \<le> 16" "16 < k + length evs" "\<forall>ev \<in> set evs. rec_tag (we_rec ev) = tag"
  shows "fst (merge_feed evs ctx w) = Ub \<or> (\<exists>ctx'. fst (merge_feed evs ctx w) = Ok (DTL_ERR_OOM, ctx'))"
  using assms
proof (induction evs arbitrary: k ctx)
  case (Cons ev evs)
  have tag: "rec_tag (we_rec ev) = tag" using Cons.prems(4) by simp
  show ?case
  proof (cases "k < 16")
    case True
    then obtain ctx' where "dtl_merge_on_record ev ctx w = (Ok (DTL_OK, ctx'), w)" "merge_filling tag (k + 1) b ctx' w"
      using merge_next [OF Cons.prems(1) _ tag] by blast
    with Cons.IH [of "k + 1" ctx'] True Cons.prems(3,4) show ?thesis by (simp add: wbind_def)
  next
    case False
    then have "merge_filling tag 16 b ctx w" using Cons.prems(1,2) by (metis le_antisym not_less)
    from merge_full [OF this tag] show ?thesis
      by (cases "dtl_merge_on_record ev ctx w") (auto simp: wbind_def wret_def)
  qed
qed simp

text \<open>
  C34. Merging stores to a released block: whenever the first seventeen records have the same tag, the
  seventeenth makes the array of that tag grow, which releases the old block, and is then stored through
  the cached base of that block (unless the allocation fails).
\<close>

theorem merge_stores_to_released:
  assumes "17 \<le> length evs" "\<forall>ev \<in> set evs. rec_tag (we_rec ev) = tag"
  shows "fst (merge_feed evs merge_zero w) = Ub \<or> (\<exists>ctx. fst (merge_feed evs merge_zero w) = Ok (DTL_ERR_OOM, ctx))"
proof (cases evs)
  case (Cons ev evs')
  then have "rec_tag (we_rec ev) = tag" using assms(2) by simp
  from merge_first [OF this, of w] obtain rc ctx w' where
    r: "dtl_merge_on_record ev merge_zero w = (Ok (rc, ctx), w')" "rc = DTL_ERR_OOM \<or> rc = DTL_OK \<and> (\<exists>b. merge_filling tag 1 b ctx w')"
    by blast
  then show ?thesis
    using merge_run_full [of tag 1 _ ctx w' evs'] assms Cons by (auto simp: wbind_def wret_def)
qed (use assms in simp)

definition beat_event :: "dtl_record dtl_walk_event" where
  "beat_event = \<lparr>we_section_type = 0, we_codec_id = 0, we_section_index = 0, we_record_in_sec = 0, we_record_index = 0,
     we_rec = RHeartbeat \<lparr>hb_uptime_s = 0, hb_seq = 0\<rparr>\<rparr>"

theorem merge_stores_to_released_witness: "fst (merge_feed (replicate 17 beat_event) merge_zero fresh_world) = Ub"
proof -
  have "merge_feed evs ctx w \<noteq> (Ok (DTL_ERR_OOM, ctx'), w')" if "heap_never_fails (w_mem w)" for evs ctx w ctx' w'
    using that
  proof (induction evs arbitrary: ctx w)
    case (Cons ev evs)
    have "dtl_merge_on_record ev ctx w = (Ok (rc, c), v) \<Longrightarrow> rc \<noteq> DTL_ERR_OOM \<and> heap_never_fails (w_mem v)" for rc c v
      using Cons.prems
      by (auto simp: dtl_merge_on_record_def merge_grow_def store_record_def wbind_def wret_def w_malloc_def w_free_def wlift_def
          c_malloc_def c_free_def Let_def heap_never_fails_def split: if_splits option.splits prod.splits result.splits)
    with Cons.IH show ?case by (auto simp: wbind_def wret_def split: prod.splits result.splits if_splits)
  qed (simp add: wret_def)
  moreover have "heap_never_fails (w_mem fresh_world)" by (simp add: fresh_world_def world_init_def mem_init_def heap_never_fails_def)
  ultimately have "fst (merge_feed (replicate 17 beat_event) merge_zero fresh_world) \<noteq> Ok (DTL_ERR_OOM, ctx)" for ctx
    by (metis prod.collapse)
  with merge_stores_to_released [of "replicate 17 beat_event" "rec_tag (we_rec beat_event)" fresh_world] show ?thesis by auto
qed

end
