(* ===== verification/Report_Text.thy ===== *)
theory Report_Text
  imports Report_Emit_Spec
begin

text \<open>
  Text as the exporters print it and the importers read it: the bytes of a literal, what
  \<open>strtoul\<close> and \<open>strtol\<close> make of a C string (64-bit \<open>long\<close>, the C locale), and hexadecimal
  pairs.  Every number the exporters print with \<open>%u\<close>, \<open>%d\<close> or \<open>%02x\<close> is read back unchanged.
\<close>

definition str :: "string \<Rightarrow> u8 list" where "str s = map ch s"

lemma str_simps [simp]: "str [] = []" "str (c # s) = ch c # str s" "str (s @ t) = str s @ str t" "length (str s) = length s"
  by (simp_all add: str_def)

subsection \<open>strtoul and strtol\<close>

definition c_isspace :: "u8 \<Rightarrow> bool" where "c_isspace c \<longleftrightarrow> c = 0x20 \<or> 0x09 \<le> c \<and> c \<le> 0x0D"
definition c_isdigit :: "u8 \<Rightarrow> bool" where "c_isdigit c \<longleftrightarrow> 0x30 \<le> c \<and> c \<le> 0x39"

fun dec_scan :: "nat \<Rightarrow> u8 list \<Rightarrow> nat \<times> u8 list" where
  "dec_scan acc [] = (acc, [])"
| "dec_scan acc (c # s) = (if c_isdigit c then dec_scan (acc * 10 + (unat c - 0x30)) s else (acc, c # s))"

text \<open>White space, a sign, digits: the sign, the number and what follows it, \<open>None\<close> when there are no digits.\<close>

definition c_sign :: "u8 list \<Rightarrow> bool \<times> u8 list" where
  "c_sign s = (case s of [] \<Rightarrow> (False, []) | c # t \<Rightarrow> if c = 0x2D then (True, t) else if c = 0x2B then (False, t) else (False, s))"

definition c_number :: "u8 list \<Rightarrow> (bool \<times> nat \<times> u8 list) option" where
  "c_number s = (case c_sign (dropWhile c_isspace s) of (neg, t) \<Rightarrow>
     if t \<noteq> [] \<and> c_isdigit (hd t) then case dec_scan 0 t of (v, rest) \<Rightarrow> Some (neg, v, rest) else None)"

text \<open>The value and the text from \<open>end\<close> on, \<open>None\<close> when \<open>end\<close> is the start of the text.\<close>

definition c_strtoul :: "u8 list \<Rightarrow> (nat \<times> u8 list) option" where
  "c_strtoul s = (case c_number s of None \<Rightarrow> None
     | Some (neg, v, rest) \<Rightarrow> Some (if v \<ge> 2 ^ 64 then 2 ^ 64 - 1 else if neg then (2 ^ 64 - v) mod 2 ^ 64 else v, rest))"

definition c_strtol :: "u8 list \<Rightarrow> (int \<times> u8 list) option" where
  "c_strtol s = (case c_number s of None \<Rightarrow> None
     | Some (neg, v, rest) \<Rightarrow> Some (if neg then max (- (2 ^ 63)) (- int v) else min (2 ^ 63 - 1) (int v), rest))"

text \<open>\<open>*end == 0\<close>.\<close>

definition at_nul :: "u8 list \<Rightarrow> bool" where "at_nul s \<longleftrightarrow> s = [] \<or> hd s = 0"

definition text_u32 :: "u8 list \<Rightarrow> u32 option" where
  "text_u32 s = (case c_strtoul s of None \<Rightarrow> None
     | Some (v, rest) \<Rightarrow> if \<not> at_nul rest \<or> v > 0xFFFFFFFF then None else Some (of_nat v))"

definition text_i32 :: "u8 list \<Rightarrow> u32 option" where
  "text_i32 s = (case c_strtol s of None \<Rightarrow> None
     | Some (v, rest) \<Rightarrow> if \<not> at_nul rest then None else Some (of_int v))"

subsection \<open>Hexadecimal\<close>

definition hexval :: "u8 \<Rightarrow> nat option" where
  "hexval c = (if 0x30 \<le> c \<and> c \<le> 0x39 then Some (unat c - 0x30)
     else if 0x61 \<le> c \<and> c \<le> 0x66 then Some (unat c - 0x61 + 10)
     else if 0x41 \<le> c \<and> c \<le> 0x46 then Some (unat c - 0x41 + 10) else None)"

fun hex_pairs :: "u8 list \<Rightarrow> u8 list option" where
  "hex_pairs (hi # lo # s) = (case (hexval hi, hexval lo) of
     (Some h, Some l) \<Rightarrow> map_option (Cons (of_nat (16 * h + l))) (hex_pairs s)
   | _ \<Rightarrow> None)"
| "hex_pairs _ = Some []"

text \<open>Decoding into a buffer of \<open>cap\<close> bytes.\<close>

definition text_hex :: "u8 list \<Rightarrow> nat \<Rightarrow> u8 list option" where
  "text_hex s cap = (if length s mod 2 \<noteq> 0 \<or> length s div 2 > cap then None else hex_pairs s)"

text \<open>Printing with \<open>%02x\<close>.\<close>

definition hex_bytes :: "u8 list \<Rightarrow> u8 list" where "hex_bytes bs = concat (map (\<lambda>b. str (fmt_x 2 (unat b))) bs)"

subsection \<open>What is printed is read back\<close>

lemma ch_char_of: "n < 256 \<Longrightarrow> ch (char_of n) = of_nat n"
  unfolding ch_def by (metis mod_less of_char_of of_nat_of_char)

lemma ch_digit: "d < 16 \<Longrightarrow> ch (digit d) = of_nat (if d < 10 then 48 + d else 87 + d)"
  unfolding digit_def by (rule ch_char_of) simp

lemma unat_ch_digit: "d < 16 \<Longrightarrow> unat (ch (digit d)) = (if d < 10 then 48 + d else 87 + d)"
  by (simp add: ch_digit unat_of_nat del: of_nat_add)

lemma digit_byte: "d < 10 \<Longrightarrow> c_isdigit (ch (digit d)) \<and> unat (ch (digit d)) - 0x30 = d"
  using unat_ch_digit [of d] by (simp add: c_isdigit_def word_le_nat_alt)

lemma dec_scan_digits: "dec_scan acc (str (digits 10 n) @ s) = dec_scan (acc * 10 ^ length (digits 10 n) + n) s"
proof (induction n arbitrary: s rule: less_induct)
  case (less n)
  show ?case
  proof (cases "n < 10")
    case True
    then show ?thesis using digit_byte [of n] by (subst (1 2) digits.simps) simp
  next
    case False
    then have d: "digits 10 n = digits 10 (n div 10) @ [digit (n mod 10)]" by (subst digits.simps) simp
    have "dec_scan acc (str (digits 10 n) @ s) =
        dec_scan ((acc * 10 ^ length (digits 10 (n div 10)) + n div 10) * 10 + n mod 10) s"
      using less.IH [of "n div 10" "ch (digit (n mod 10)) # s"] False digit_byte [of "n mod 10"] by (simp add: d)
    also have "(acc * 10 ^ length (digits 10 (n div 10)) + n div 10) * 10 + n mod 10 = acc * 10 ^ length (digits 10 n) + n"
      by (simp add: d algebra_simps)
    finally show ?thesis .
  qed
qed

lemma digits_nonempty: "digits 10 n \<noteq> []"
  by (subst digits.simps) simp

lemma digits_all: "c \<in> set (digits 10 n) \<Longrightarrow> c_isdigit (ch c)"
proof (induction n rule: less_induct)
  case (less n)
  show ?case
  proof (cases "n < 10")
    case True
    then show ?thesis using less.prems digit_byte [of n] by (subst (asm) digits.simps) simp
  next
    case False
    then have "c \<in> set (digits 10 (n div 10)) \<or> c = digit (n mod 10)" using less.prems by (subst (asm) digits.simps) auto
    then show ?thesis using less.IH [of "n div 10"] False digit_byte [of "n mod 10"] by auto
  qed
qed

lemma isdigit_facts: "c_isdigit c \<Longrightarrow> \<not> c_isspace c \<and> c \<noteq> 0x2D \<and> c \<noteq> 0x2B"
  by (auto simp: c_isdigit_def c_isspace_def word_le_nat_alt)

lemma number_digits:
  assumes "rest = [] \<or> \<not> c_isdigit (hd rest)"
  shows "c_number (str (fmt_u n) @ rest) = Some (False, n, rest)" "c_number (0x2D # str (fmt_u n) @ rest) = Some (True, n, rest)"
proof -
  have sc: "dec_scan 0 (str (fmt_u n) @ rest) = (n, rest)"
    using assms dec_scan_digits [of 0 n rest] by (cases rest) (auto simp: fmt_u_def)
  obtain c s where cs: "digits 10 n = c # s" using digits_nonempty by (cases "digits 10 n") auto
  then have d: "c_isdigit (ch c)" using digits_all [of c n] by simp
  then have "c_sign (dropWhile c_isspace (str (fmt_u n) @ rest)) = (False, str (fmt_u n) @ rest)"
    using isdigit_facts [OF d] by (simp add: fmt_u_def cs c_sign_def)
  with sc d show "c_number (str (fmt_u n) @ rest) = Some (False, n, rest)" by (simp add: c_number_def fmt_u_def cs)
  show "c_number (0x2D # str (fmt_u n) @ rest) = Some (True, n, rest)"
    using sc d by (simp add: c_number_def fmt_u_def cs c_isspace_def c_sign_def)
qed

lemma text_u32_fmt: "n < 2 ^ 32 \<Longrightarrow> text_u32 (str (fmt_u n)) = Some (of_nat n)"
  using number_digits(1) [of "[]" n] by (simp add: text_u32_def c_strtoul_def at_nul_def)

lemma text_u32_word: "LENGTH('a :: len) \<le> 32 \<Longrightarrow> text_u32 (str (fmt_u (unat (v :: 'a word)))) = Some (ucast v)"
proof -
  assume "LENGTH('a) \<le> 32"
  then have "unat v < 2 ^ 32" by (intro order_less_le_trans [OF unsigned_less] power_increasing) simp_all
  from text_u32_fmt [OF this] show ?thesis by simp
qed

lemma text_i32_fmt:
  assumes "- (2 ^ 63) \<le> i" "i < 2 ^ 63"
  shows "text_i32 (str (fmt_d i)) = Some (of_int i)"
proof (cases "i < 0")
  case True
  then have "str (fmt_d i) = 0x2D # str (fmt_u (nat (- i)))" by (simp add: fmt_d_def ch_def)
  then show ?thesis using number_digits(2) [of "[]" "nat (- i)"] True assms by (simp add: text_i32_def c_strtol_def at_nul_def)
next
  case False
  then show ?thesis using number_digits(1) [of "[]" "nat i"] assms by (simp add: fmt_d_def text_i32_def c_strtol_def at_nul_def)
qed

lemma hexval_digit: "d < 16 \<Longrightarrow> hexval (ch (digit d)) = Some d"
  using unat_ch_digit [of d] by (auto simp: hexval_def word_le_nat_alt)

lemma fmt_x_2: "n < 256 \<Longrightarrow> fmt_x 2 n = [digit (n div 16), digit (n mod 16)]"
proof (cases "n < 16")
  case True
  then have "digits 16 n = [digit n]" by (subst digits.simps) simp
  moreover have "digit 0 = CHR ''0''" by (simp add: digit_def char_of_eq_iff)
  ultimately show ?thesis using True by (simp add: fmt_x_def)
next
  case False
  assume "n < 256"
  then have "digits 16 (n div 16) = [digit (n div 16)]" by (subst digits.simps) auto
  then have "digits 16 n = [digit (n div 16), digit (n mod 16)]" using False by (subst digits.simps) simp
  then show ?thesis by (simp add: fmt_x_def)
qed

lemma unat_u8_less: "unat (b :: u8) < 256"
  by (rule order_less_le_trans [OF unsigned_less]) simp

lemma nibbles: "unat (b :: u8) div 16 < 16 \<and> unat b mod 16 < 16"
  using unat_u8_less [of b] by (simp add: div_less_iff_less_mult)

lemma hex_byte: "str (fmt_x 2 (unat (b :: u8))) = [ch (digit (unat b div 16)), ch (digit (unat b mod 16))]"
  by (simp add: fmt_x_2 [OF unat_u8_less])

lemma length_hex_bytes [simp]: "length (hex_bytes bs) = 2 * length bs"
  by (induction bs) (simp_all add: hex_bytes_def hex_byte)

lemma hex_pairs_bytes: "hex_pairs (hex_bytes bs) = Some bs"
proof (induction bs)
  case (Cons b bs)
  have "unat b div 16 < 16" "unat b mod 16 < 16" using nibbles by auto
  moreover have "of_nat (16 * (unat b div 16) + unat b mod 16) = b" by (simp only: mult_div_mod_eq) simp
  ultimately show ?case using Cons by (simp add: hex_bytes_def hex_byte hexval_digit)
qed (simp add: hex_bytes_def)

lemma text_hex_bytes: "length bs \<le> cap \<Longrightarrow> text_hex (hex_bytes bs) cap = Some bs"
  by (simp add: text_hex_def hex_pairs_bytes)

text \<open>The characters of a printed number.\<close>

definition plain_char :: "u8 \<Rightarrow> bool" where "plain_char c \<longleftrightarrow> c \<noteq> 0 \<and> c \<noteq> 0x0A \<and> c \<noteq> 0x0D \<and> c \<noteq> 0x22 \<and> c \<noteq> 0x2C"

lemma plain_u: "list_all plain_char (str (fmt_u n))"
proof -
  have "plain_char c" if "c_isdigit c" for c using that by (auto simp: c_isdigit_def plain_char_def word_le_nat_alt)
  then show ?thesis using digits_all by (auto simp: fmt_u_def str_def list_all_iff)
qed

lemma plain_d: "list_all plain_char (str (fmt_d i))"
  using plain_u by (simp add: fmt_d_def ch_def plain_char_def)

lemma plain_hex: "list_all plain_char (hex_bytes bs)"
proof (induction bs)
  case (Cons b bs)
  have p: "plain_char (ch (digit d))" if "d < 16" for d
    using unat_ch_digit [OF that] by (auto simp: plain_char_def split: if_splits)
  have "unat b div 16 < 16" "unat b mod 16 < 16" using nibbles by auto
  with Cons p show ?case by (simp add: hex_bytes_def hex_byte)
qed (simp add: hex_bytes_def)

end
