(* ===== verification/Report_Csv.thy ===== *)
theory Report_Csv
  imports Report_Text
begin

text \<open>
  CSV in both directions: the CSV half of \<^verbatim>\<open>src/report/export.c\<close> and the whole of
  \<^verbatim>\<open>src/report/import.c\<close>.

  The exporter's output stream is the list of the bytes written.  How a float is printed with
  \<open>%.6g\<close> and what \<open>strtof\<close> reads are parameters of the definitions that use them: the C standard
  leaves their accuracy to the implementation.  Both are functions between bit patterns and text;
  \<open>strtof\<close> yields \<open>None\<close> when it reads nothing.

  A field buffer of the tokenizer is the list of its characters, of which there are at most 4095; the
  text a row is parsed from includes its terminating NUL, and reading past it is undefined.
\<close>

subsection \<open>Export\<close>

definition dtl_export_csv_string :: "u8 list \<Rightarrow> u8 list" where
  "dtl_export_csv_string s = [0x22] @ concat (map (\<lambda>c. if c = 0x22 then [0x22, c] else [c]) s) @ [0x22]"

definition dtl_export_hex :: "mem \<Rightarrow> addr option \<Rightarrow> nat \<Rightarrow> u8 list res" where
  "dtl_export_hex m p n = rbind (deref_bytes m p n) (\<lambda>bs. Ok (hex_bytes bs))"

definition dtl_export_csv_header :: "u8 list" where
  "dtl_export_csv_header = str ''index,tag,f0,f1,f2,f3,f4,f5'' @ [0x0A]"

text \<open>The loops over the samples and the pairs; \<open>n\<close> is how often the body runs.\<close>

fun csv_samples :: "(u32 \<Rightarrow> u8 list) \<Rightarrow> mem \<Rightarrow> addr option \<Rightarrow> nat \<Rightarrow> nat \<Rightarrow> u8 list res" where
  "csv_samples g6 m p i 0 = Ok []"
| "csv_samples g6 m p i (Suc n) =
     rbind (case p of None \<Rightarrow> Ub | Some p \<Rightarrow> load_bytes m (fst p, snd p + 4 * i) 4) (\<lambda>bs.
     rbind (dtl_endian_read_u32le bs) (\<lambda>bits.
     rbind (csv_samples g6 m p (i + 1) n) (\<lambda>out. Ok (str '','' @ g6 bits @ out))))"

fun csv_pairs :: "mem \<Rightarrow> nat \<Rightarrow> (addr \<times> addr) list \<Rightarrow> u8 list res" where
  "csv_pairs m 0 kvs = Ok []"
| "csv_pairs m (Suc n) [] = Ub"
| "csv_pairs m (Suc n) ((k, v) # kvs) =
     rbind (load_cstr m k) (\<lambda>k. rbind (load_cstr m v) (\<lambda>v. rbind (csv_pairs m n kvs) (\<lambda>out.
     Ok (str '','' @ dtl_export_csv_string k @ str '','' @ dtl_export_csv_string v @ out))))"

definition u_field :: "'a :: len word \<Rightarrow> u8 list" where "u_field v = str '','' @ str (fmt_u (unat v))"
definition d_field :: "'a :: len word \<Rightarrow> u8 list" where "d_field v = str '','' @ str (fmt_d (sint v))"

fun csv_tail :: "(u32 \<Rightarrow> u8 list) \<Rightarrow> mem \<Rightarrow> dtl_record \<Rightarrow> u8 list res" where
  "csv_tail g6 m (RHeartbeat h) = Ok (u_field (hb_uptime_s h) @ u_field (hb_seq h) @ str '',,,,'')"
| "csv_tail g6 m (RSensor s) =
     rbind (csv_samples g6 m (sen_samples s) 0 (min (unat (sen_count s)) 4)) (\<lambda>out.
     Ok (u_field (sen_sensor_id s) @ u_field (sen_count s) @ out))"
| "csv_tail g6 m (REvent e) =
     rbind (dtl_export_hex m (ev_payload e) (unat (ev_payload_len e))) (\<lambda>hex.
     Ok (u_field (ev_code e) @ u_field (ev_payload_len e) @ str '','' @ hex @ str '',,''))"
| "csv_tail g6 m (RDiag d) =
     rbind (dtl_export_hex m (dg_blob d) (if dg_redacted d \<noteq> 0 then 0 else unat (dg_blob_len d))) (\<lambda>hex.
     Ok (u_field (dg_subsystem d) @ u_field (dg_blob_len d) @ u_field (dg_redacted d) @ str '','' @ hex @ str '',,''))"
| "csv_tail g6 m (RGeo g) = Ok (d_field (geo_lat_e7 g) @ d_field (geo_lon_e7 g) @ d_field (geo_alt_mm g) @ str '',,,'')"
| "csv_tail g6 m (RBattery b) = Ok (u_field (bat_pct b) @ d_field (bat_temp_c_e1 b) @ u_field (bat_cycles b) @ str '',,,'')"
| "csv_tail g6 m (RNet n) = Ok (u_field (net_iface_id n) @ u_field (net_rx_bytes n) @ u_field (net_tx_bytes n) @
     u_field (net_rx_pkts n) @ u_field (net_tx_pkts n) @ str '','')"
| "csv_tail g6 m (RLog l) =
     rbind (deref_bytes m (log_msg l) (unat (log_msg_len l))) (\<lambda>msg.
     Ok (u_field (log_severity l) @ str '','' @ dtl_export_csv_string msg @ str '',,,''))"
| "csv_tail g6 m (RConfig c) =
     rbind (csv_pairs m (min (unat (cfg_pair_count c)) 2) (cfg_pairs c)) (\<lambda>out. Ok (u_field (cfg_pair_count c) @ out))"
| "csv_tail g6 m (RKeyref k) =
     rbind (deref_bytes m (kr_label k) (if kr_redacted k \<noteq> 0 then 0 else unat (kr_label_len k))) (\<lambda>label.
     Ok (u_field (kr_slot_id k) @ u_field (kr_redacted k) @ str '','' @ dtl_export_csv_string label @ str '',,,''))"
| "csv_tail g6 m (RFirmware f) =
     rbind (slice_at (fw_hash f) 0 8) (\<lambda>hash.
     Ok (u_field (fw_major f) @ u_field (fw_minor f) @ u_field (fw_patch f) @ str '','' @ hex_bytes hash @ str '',,''))"

definition dtl_export_csv_record :: "(u32 \<Rightarrow> u8 list) \<Rightarrow> mem \<Rightarrow> dtl_record \<Rightarrow> nat \<Rightarrow> u8 list res" where
  "dtl_export_csv_record g6 m r index =
     rbind (csv_tail g6 m r) (\<lambda>tl. Ok (str (fmt_u index) @ str '','' @ str (dtl_walk_tag_name (rec_tag r)) @ tl @ [0x0A]))"

subsection \<open>The row tokenizer\<close>

definition DTL_IMPORT_MAX_FIELDS :: nat where "DTL_IMPORT_MAX_FIELDS = 8"
definition DTL_IMPORT_FIELD_CAP :: nat where "DTL_IMPORT_FIELD_CAP = 4096"

text \<open>The two inner loops: the field so far and the unread text; the result is positioned behind the closing quote or on the separator.\<close>

fun csv_quoted :: "u8 list \<Rightarrow> u8 list \<Rightarrow> (u8 list \<times> u8 list) res" where
  "csv_quoted fld [] = Ub"
| "csv_quoted fld (c # p) =
     (if c = 0 then Err DTL_ERR_BADRECORD
      else if c = 0x22
      then (case p of [] \<Rightarrow> Ub
            | d # p' \<Rightarrow>
                if d = 0x22
                then if length fld + 1 \<ge> DTL_IMPORT_FIELD_CAP then Err DTL_ERR_BADRECORD else csv_quoted (fld @ [0x22]) p'
                else Ok (fld, p))
      else if length fld + 1 \<ge> DTL_IMPORT_FIELD_CAP then Err DTL_ERR_BADRECORD
      else csv_quoted (fld @ [c]) p)"

fun csv_plain :: "u8 list \<Rightarrow> u8 list \<Rightarrow> (u8 list \<times> u8 list) res" where
  "csv_plain fld [] = Ub"
| "csv_plain fld (c # p) =
     (if c = 0x2C \<or> c = 0 then Ok (fld, c # p)
      else if length fld + 1 \<ge> DTL_IMPORT_FIELD_CAP then Err DTL_ERR_BADRECORD
      else csv_plain (fld @ [c]) p)"

definition csv_field :: "u8 list \<Rightarrow> (u8 list \<times> u8 list) res" where
  "csv_field p = (case p of [] \<Rightarrow> Ub
     | c # p' \<Rightarrow>
         if c = 0x22
         then rbind (csv_quoted [] p') (\<lambda>(fld, p).
              case p of [] \<Rightarrow> Ub | d # _ \<Rightarrow> if d \<noteq> 0x2C \<and> d \<noteq> 0 then Err DTL_ERR_BADRECORD else Ok (fld, p))
         else csv_plain [] p)"

text \<open>The loop over the fields; the first argument is the number of field slots left.\<close>

fun csv_fields :: "nat \<Rightarrow> u8 list list \<Rightarrow> u8 list \<Rightarrow> u8 list list res" where
  "csv_fields 0 row p = Err DTL_ERR_BADRECORD"
| "csv_fields (Suc n) row p =
     rbind (csv_field p) (\<lambda>(fld, p).
     case p of [] \<Rightarrow> Ub | c # p' \<Rightarrow> if c = 0 then Ok (row @ [fld]) else csv_fields n (row @ [fld]) p')"

definition dtl_csv_parse_row :: "u8 list \<Rightarrow> u8 list list res" where
  "dtl_csv_parse_row line = (case line of [] \<Rightarrow> Ub
     | c # _ \<Rightarrow> if c = 0 then Err DTL_ERR_TRUNCATED else csv_fields DTL_IMPORT_MAX_FIELDS [] line)"

subsection \<open>Rows to records\<close>

definition kTags :: "(string \<times> u8) list" where
  "kTags = [(''HEARTBEAT'', DTL_REC_HEARTBEAT), (''SENSOR'', DTL_REC_SENSOR), (''EVENT'', DTL_REC_EVENT), (''DIAG'', DTL_REC_DIAG),
     (''GEO'', DTL_REC_GEO), (''BATTERY'', DTL_REC_BATTERY), (''NET'', DTL_REC_NET), (''LOG'', DTL_REC_LOG),
     (''CONFIG'', DTL_REC_CONFIG), (''KEYREF'', DTL_REC_KEYREF), (''FIRMWARE'', DTL_REC_FIRMWARE)]"

definition dtl_import_tag :: "u8 list \<Rightarrow> u8 option" where
  "dtl_import_tag name = map_of (map (\<lambda>(n, t). (str n, t)) kTags) name"

text \<open>The macros \<open>DTL_U\<close> and \<open>DTL_I\<close>.\<close>

definition csv_u :: "u8 list list \<Rightarrow> nat \<Rightarrow> u32 wm" where
  "csv_u row ix = (if length row \<le> ix then wfail DTL_ERR_BADRECORD
     else case text_u32 (row ! ix) of None \<Rightarrow> wfail DTL_ERR_BADRECORD | Some v \<Rightarrow> wret v)"

definition csv_i :: "u8 list list \<Rightarrow> nat \<Rightarrow> u32 wm" where
  "csv_i row ix = (if length row \<le> ix then wfail DTL_ERR_BADRECORD
     else case text_i32 (row ! ix) of None \<Rightarrow> wfail DTL_ERR_BADRECORD | Some v \<Rightarrow> wret v)"

definition w_alloc_or_oom :: "nat \<Rightarrow> addr wm" where
  "w_alloc_or_oom n = wbind (w_arena_alloc n) (\<lambda>p. case p of None \<Rightarrow> wfail DTL_ERR_OOM | Some p \<Rightarrow> wret p)"

definition w_require :: "bool \<Rightarrow> unit wm" where
  "w_require b = (if b then wret () else wfail DTL_ERR_BADRECORD)"

definition dtl_field_dup :: "u8 list \<Rightarrow> addr option wm" where
  "dtl_field_dup f = wbind (w_arena_alloc (length f + 1)) (\<lambda>p.
     case p of None \<Rightarrow> wret None | Some p \<Rightarrow> wbind (w_store p (f @ [0])) (\<lambda>_. wret (Some p)))"

text \<open>The sample loop: \<open>fs\<close> are the fields from index \<open>fi\<close> on.\<close>

fun import_samples :: "(u8 list \<Rightarrow> u32 option) \<Rightarrow> addr \<Rightarrow> nat \<Rightarrow> u8 list list \<Rightarrow> nat \<Rightarrow> nat wm" where
  "import_samples strtof p want [] cnt = wret cnt"
| "import_samples strtof p want (f # fs) cnt =
     (if \<not> cnt < want then wret cnt
      else if f = [] then import_samples strtof p want fs cnt
      else case strtof f of None \<Rightarrow> wfail DTL_ERR_BADRECORD
           | Some bits \<Rightarrow> wbind (w_store (fst p, snd p + 4 * cnt) (dtl_endian_write_u32le bits)) (\<lambda>_.
                          import_samples strtof p want fs (cnt + 1)))"

definition import_sensor :: "(u8 list \<Rightarrow> u32 option) \<Rightarrow> u8 list list \<Rightarrow> dtl_sensor wm" where
  "import_sensor strtof row =
     wbind (w_alloc_or_oom (4 * 4)) (\<lambda>samples.
     wbind (csv_u row 2) (\<lambda>u0. wbind (csv_u row 3) (\<lambda>u1.
     wbind (w_require (\<not> (u0 > 0xFFFF \<or> u1 > 4))) (\<lambda>_.
     wbind (import_samples strtof samples (unat u1) (drop 4 row) 0) (\<lambda>cnt.
     wbind (w_require (cnt = unat u1)) (\<lambda>_.
     wret \<lparr>sen_sensor_id = ucast u0, sen_count = of_nat cnt, sen_samples = if cnt \<noteq> 0 then Some samples else None\<rparr>))))))"

text \<open>A failed conversion leaves a prefix of the bytes in a buffer no one reads, so only a complete one is stored.\<close>

definition store_hex :: "u8 list \<Rightarrow> addr \<Rightarrow> nat \<Rightarrow> nat wm" where
  "store_hex f p cap = (case text_hex f cap of None \<Rightarrow> wfail DTL_ERR_BADRECORD
     | Some bs \<Rightarrow> wbind (w_store p bs) (\<lambda>_. wret (length bs)))"

definition import_event :: "u8 list list \<Rightarrow> dtl_event wm" where
  "import_event row =
     wbind (csv_u row 2) (\<lambda>u0. wbind (csv_u row 3) (\<lambda>u1.
     wbind (w_require (\<not> (u0 > 0xFFFF \<or> u1 > 0xFFFF))) (\<lambda>_.
     wbind (w_alloc_or_oom (if u1 \<noteq> 0 then unat u1 else 1)) (\<lambda>payload.
     wbind (if length row > 4 \<and> row ! 4 \<noteq> []
            then wbind (store_hex (row ! 4) payload (unat u1)) (\<lambda>n. w_require (n = unat u1))
            else w_require (u1 = 0)) (\<lambda>_.
     wret \<lparr>ev_code = ucast u0, ev_payload_len = ucast u1, ev_payload = if u1 \<noteq> 0 then Some payload else None\<rparr>)))))"

definition import_log :: "u8 list list \<Rightarrow> dtl_log wm" where
  "import_log row =
     wbind (csv_u row 2) (\<lambda>u0.
     wbind (w_require (\<not> (u0 > 255 \<or> length row \<le> 3))) (\<lambda>_.
     wbind (dtl_field_dup (row ! 3)) (\<lambda>msg.
     case msg of None \<Rightarrow> wfail DTL_ERR_OOM
     | Some msg \<Rightarrow>
         wbind (w_require (\<not> length (row ! 3) > 0xFFFF)) (\<lambda>_.
         wret \<lparr>log_severity = ucast u0, log_msg_len = of_nat (length (row ! 3)), log_msg = Some msg\<rparr>))))"

text \<open>The pairs: \<open>fi\<close> is the field of the next key; both copies are made before either is tested.\<close>

fun import_pairs :: "u8 list list \<Rightarrow> nat \<Rightarrow> nat \<Rightarrow> (addr \<times> addr) list wm" where
  "import_pairs row fi 0 = wret []"
| "import_pairs row fi (Suc n) =
     (if fi + 1 \<ge> length row then wfail DTL_ERR_BADRECORD
      else wbind (dtl_field_dup (row ! fi)) (\<lambda>k. wbind (dtl_field_dup (row ! (fi + 1))) (\<lambda>v.
           case (k, v) of (Some k, Some v) \<Rightarrow> wbind (import_pairs row (fi + 2) n) (\<lambda>kvs. wret ((k, v) # kvs))
           | _ \<Rightarrow> wfail DTL_ERR_OOM)))"

definition import_config :: "u8 list list \<Rightarrow> dtl_config wm" where
  "import_config row =
     wbind (csv_u row 2) (\<lambda>u0.
     wbind (w_require (\<not> u0 > 2)) (\<lambda>_.
     wbind (w_alloc_or_oom ((if u0 \<noteq> 0 then unat u0 else 1) * sizeof_config_pair)) (\<lambda>_.
     wbind (import_pairs row 3 (unat u0)) (\<lambda>kvs.
     wret \<lparr>cfg_pair_count = ucast u0, cfg_pairs = kvs\<rparr>))))"

definition import_keyref :: "u8 list list \<Rightarrow> dtl_keyref wm" where
  "import_keyref row =
     wbind (csv_u row 2) (\<lambda>u0.
     wbind (w_require (\<not> (u0 > 255 \<or> length row \<le> 4))) (\<lambda>_.
     wbind (dtl_field_dup (row ! 4)) (\<lambda>label.
     case label of None \<Rightarrow> wfail DTL_ERR_OOM
     | Some label \<Rightarrow>
         wbind (w_require (\<not> length (row ! 4) > 255)) (\<lambda>_.
         wret \<lparr>kr_slot_id = ucast u0, kr_label_len = of_nat (length (row ! 4)), kr_label = Some label, kr_redacted = 0\<rparr>))))"

definition import_diag :: "u8 list list \<Rightarrow> dtl_diag wm" where
  "import_diag row =
     wbind (csv_u row 2) (\<lambda>u0. wbind (csv_u row 3) (\<lambda>u1.
     wbind (w_require (\<not> (u0 > 0xFFFF \<or> u1 > 0xFFFF))) (\<lambda>_.
     wbind (if length row > 5 \<and> row ! 5 \<noteq> []
            then let have_n = length (row ! 5) div 2
                 in wbind (w_malloc (if have_n \<noteq> 0 then have_n else 1)) (\<lambda>b.
                    case b of None \<Rightarrow> wfail DTL_ERR_OOM
                    | Some b \<Rightarrow> wbind (store_hex (row ! 5) (b, 0) have_n) (\<lambda>_. wret (b, 0)))
            else wbind (w_require (u1 = 0)) (\<lambda>_. w_alloc_or_oom 1)) (\<lambda>blob.
     wret \<lparr>dg_subsystem = ucast u0, dg_blob_len = ucast u1, dg_blob = if u1 \<noteq> 0 then Some blob else None, dg_redacted = 0\<rparr>))))"

definition import_firmware :: "u8 list list \<Rightarrow> dtl_firmware wm" where
  "import_firmware row =
     wbind (csv_u row 2) (\<lambda>u0. wbind (csv_u row 3) (\<lambda>u1. wbind (csv_u row 4) (\<lambda>u2.
     wbind (w_require (\<not> (u0 > 0xFFFF \<or> u1 > 0xFFFF \<or> u2 > 0xFFFF))) (\<lambda>_.
     wbind (w_require (\<not> length row \<le> 5)) (\<lambda>_.
     case text_hex (row ! 5) 8 of None \<Rightarrow> wfail DTL_ERR_BADRECORD
     | Some hash \<Rightarrow>
         wbind (w_require (length hash = 8)) (\<lambda>_.
         wret \<lparr>fw_major = ucast u0, fw_minor = ucast u1, fw_patch = ucast u2, fw_hash = hash\<rparr>))))))"

definition import_battery :: "u8 list list \<Rightarrow> dtl_battery wm" where
  "import_battery row =
     wbind (csv_u row 2) (\<lambda>u0. wbind (csv_i row 3) (\<lambda>s0. wbind (csv_u row 4) (\<lambda>u1.
     wbind (w_require (\<not> (u0 > 255 \<or> sint s0 < -32768 \<or> sint s0 > 32767))) (\<lambda>_.
     wret \<lparr>bat_pct = ucast u0, bat_temp_c_e1 = ucast s0, bat_cycles = u1\<rparr>))))"

definition import_net :: "u8 list list \<Rightarrow> dtl_net wm" where
  "import_net row =
     wbind (csv_u row 2) (\<lambda>u0. wbind (csv_u row 3) (\<lambda>u1. wbind (csv_u row 4) (\<lambda>u2.
     wbind (csv_u row 5) (\<lambda>u3. wbind (csv_u row 6) (\<lambda>u4.
     wbind (w_require (\<not> u0 > 255)) (\<lambda>_.
     wret \<lparr>net_iface_id = ucast u0, net_rx_bytes = u1, net_tx_bytes = u2, net_rx_pkts = u3, net_tx_pkts = u4\<rparr>))))))"

definition import_geo :: "u8 list list \<Rightarrow> dtl_geo wm" where
  "import_geo row =
     wbind (csv_i row 2) (\<lambda>s0. wbind (csv_i row 3) (\<lambda>s1. wbind (csv_i row 4) (\<lambda>s2.
     wret \<lparr>geo_lat_e7 = s0, geo_lon_e7 = s1, geo_alt_mm = s2\<rparr>)))"

definition import_heartbeat :: "u8 list list \<Rightarrow> dtl_heartbeat wm" where
  "import_heartbeat row = wbind (csv_u row 2) (\<lambda>u0. wbind (csv_u row 3) (\<lambda>u1. wret \<lparr>hb_uptime_s = u0, hb_seq = u1\<rparr>))"

definition dtl_import_row :: "(u8 list \<Rightarrow> u32 option) \<Rightarrow> u8 list list \<Rightarrow> dtl_record wm" where
  "dtl_import_row strtof row =
     (if length row < 2 then wfail DTL_ERR_BADRECORD
      else case dtl_import_tag (row ! 1) of None \<Rightarrow> wfail DTL_ERR_BADRECORD
      | Some tag \<Rightarrow>
          if tag = DTL_REC_HEARTBEAT then wmap RHeartbeat (import_heartbeat row)
          else if tag = DTL_REC_GEO then wmap RGeo (import_geo row)
          else if tag = DTL_REC_BATTERY then wmap RBattery (import_battery row)
          else if tag = DTL_REC_NET then wmap RNet (import_net row)
          else if tag = DTL_REC_FIRMWARE then wmap RFirmware (import_firmware row)
          else if tag = DTL_REC_SENSOR then wmap RSensor (import_sensor strtof row)
          else if tag = DTL_REC_EVENT then wmap REvent (import_event row)
          else if tag = DTL_REC_LOG then wmap RLog (import_log row)
          else if tag = DTL_REC_CONFIG then wmap RConfig (import_config row)
          else if tag = DTL_REC_KEYREF then wmap RKeyref (import_keyref row)
          else if tag = DTL_REC_DIAG then wmap RDiag (import_diag row)
          else wfail DTL_ERR_BADRECORD)"

subsection \<open>The import\<close>

definition IMPORT_LINE_CAP :: nat where "IMPORT_LINE_CAP = 8192"

fun take_line :: "u8 list \<Rightarrow> u8 list \<times> u8 list" where
  "take_line [] = ([], [])"
| "take_line (c # s) = (if c = 0x0A then ([], s) else case take_line s of (l, r) \<Rightarrow> (c # l, r))"

lemma take_line_shorter: "take_line s = (l, r) \<Longrightarrow> s \<noteq> [] \<Longrightarrow> length r < length s"
proof (induction s arbitrary: l)
  case (Cons c s)
  then show ?case by (cases "s = []") (auto split: prod.splits if_splits)
qed simp

definition strip_cr :: "u8 list \<Rightarrow> u8 list" where
  "strip_cr l = rev (dropWhile (\<lambda>c. c = 0x0D) (rev l))"

text \<open>The state of the loop: line number, records imported, whether the section is open, the writer.\<close>

record csv_import =
  ci_line_no :: nat
  ci_imported :: nat
  ci_open :: bool
  ci_writer :: dtl_writer

text \<open>Adding a record, opening the one section first when it is not open yet; the JSON importer has the same text.\<close>

definition import_emit :: "dtl_record \<Rightarrow> bool \<Rightarrow> dtl_writer \<Rightarrow> dtl_writer wm" where
  "import_emit r section_open w =
     wbind (if section_open then wret w
            else case dtl_writer_begin_section 1 DTL_CODEC_STORE w of
                   (h, w) \<Rightarrow> if h < 0 then wfail DTL_ERR_OOM else wret w) (\<lambda>w.
     wbind (dtl_writer_add_record r w) (\<lambda>(rc, w). if rc \<noteq> DTL_OK then wfail rc else wret w))"

definition import_add :: "dtl_record \<Rightarrow> csv_import \<Rightarrow> csv_import wm" where
  "import_add r st = wbind (import_emit r (ci_open st) (ci_writer st)) (\<lambda>w.
     wret (st\<lparr>ci_imported := ci_imported st + 1, ci_open := True, ci_writer := w\<rparr>))"

definition import_line :: "(u8 list \<Rightarrow> u32 option) \<Rightarrow> u8 list \<Rightarrow> csv_import \<Rightarrow> csv_import wm" where
  "import_line strtof raw st =
     (if length raw \<ge> IMPORT_LINE_CAP then wfail DTL_ERR_BADRECORD
      else let line = strip_cr raw; st = st\<lparr>ci_line_no := ci_line_no st + 1\<rparr>
      in if line = [] then wret st
         else if ci_line_no st = 1 \<and> take 10 line = str ''index,tag,'' then wret st
         else case dtl_csv_parse_row (line @ [0]) of
                Ub \<Rightarrow> wlift Ub
              | Err rc \<Rightarrow> if rc = DTL_ERR_TRUNCATED then wret st else wfail rc
              | Ok row \<Rightarrow> wbind (dtl_import_row strtof row) (\<lambda>r. import_add r st))"

function import_lines :: "(u8 list \<Rightarrow> u32 option) \<Rightarrow> u8 list \<Rightarrow> csv_import \<Rightarrow> csv_import wm" where
  "import_lines strtof data st =
     (if data = [] then wret st
      else case take_line data of (raw, rest) \<Rightarrow> wbind (import_line strtof raw st) (import_lines strtof rest))"
  by pat_completeness auto
termination
proof (relation "measure (\<lambda>(f, data, st). length data)", goal_cases)
  case (2 strtof data st raw rest x)
  then show ?case using take_line_shorter [of data raw rest] by simp
qed simp

declare import_lines.simps [simp del]

text \<open>The container and the number of records; an early return is an \<open>Err\<close>.\<close>

definition import_finish :: "bool \<Rightarrow> nat \<Rightarrow> dtl_writer \<Rightarrow> (u8 list \<times> nat) wm" where
  "import_finish open_sec n w =
     wbind (if open_sec then dtl_writer_end_section w else wret (DTL_OK, w)) (\<lambda>(rc, w).
     if rc \<noteq> DTL_OK then wfail rc
     else wbind (dtl_writer_finish w) (\<lambda>(rc, bytes, w).
          if rc \<noteq> DTL_OK then wfail rc
          else case bytes of None \<Rightarrow> wlift Ub | Some bytes \<Rightarrow> wret (bytes, n)))"

definition dtl_import_csv_memory :: "(u8 list \<Rightarrow> u32 option) \<Rightarrow> u8 list \<Rightarrow> (u8 list \<times> nat) wm" where
  "dtl_import_csv_memory strtof data =
     wbind (import_lines strtof data \<lparr>ci_line_no = 0, ci_imported = 0, ci_open = False, ci_writer = dtl_writer_init\<rparr>) (\<lambda>st.
     import_finish (ci_open st) (ci_imported st) (ci_writer st))"

text \<open>
  Both importers read and write their files in the same way.  The result is the code returned, the
  contents of the output file, and the record count, which is set even when writing fails.
\<close>

definition import_file_with :: "(u8 list \<Rightarrow> (u8 list \<times> nat) wm) \<Rightarrow> files \<Rightarrow> sinks \<Rightarrow> string \<Rightarrow> string \<Rightarrow> nat \<Rightarrow>
    (dtl_err \<times> u8 list option \<times> nat option) wm" where
  "import_file_with import_memory fs snk in_path out_path max_file =
     (case fs in_path of None \<Rightarrow> wret (DTL_ERR_IO, None, None)
      | Some f \<Rightarrow>
      if \<not> f_seek_end f then wret (DTL_ERR_IO, None, None)
      else if f_tell f < 0 then wret (DTL_ERR_IO, None, None)
      else if nat (f_tell f) > max_file then wret (DTL_ERR_RANGE, None, None)
      else if \<not> f_seek_set f then wret (DTL_ERR_IO, None, None)
      else let n = nat (f_tell f)
      in with_arena (wbind (w_arena_alloc (if n \<noteq> 0 then n else 1)) (\<lambda>buf.
         case buf of None \<Rightarrow> wret (DTL_ERR_OOM, None, None)
         | Some buf \<Rightarrow>
             wbind (if n \<noteq> 0 then c_fread buf n f else wret []) (\<lambda>got.
             if length got \<noteq> n then wret (DTL_ERR_IO, None, None)
             else wbind (wtry (import_memory got)) (\<lambda>r.
                  case r of Inl rc \<Rightarrow> wret (rc, None, None)
                  | Inr (bytes, k) \<Rightarrow> case write_out snk out_path bytes of (rc, out) \<Rightarrow> wret (rc, out, Some k))))))"

definition dtl_import_csv_file :: "(u8 list \<Rightarrow> u32 option) \<Rightarrow> files \<Rightarrow> sinks \<Rightarrow> string \<Rightarrow> string \<Rightarrow> nat \<Rightarrow>
    (dtl_err \<times> u8 list option \<times> nat option) wm" where
  "dtl_import_csv_file strtof = import_file_with (dtl_import_csv_memory strtof)"

end
