(* ===== verification/Report_Csv_Spec.thy ===== *)
theory Report_Csv_Spec
  imports Report_Csv
begin

text \<open>
  The CSV exporter and importer fit together.  A row is a list of cells, quoted or plain; the tokenizer
  inverts how cells are joined, and is safe and bounded on every line.  The row of a record is given by
  the cells of its value, and importing those cells yields a record with that value.
\<close>

subsection \<open>Cells and rows\<close>

type_synonym cell_of_row = "bool \<times> u8 list"

definition cell_text :: "cell_of_row \<Rightarrow> u8 list" where
  "cell_text c = (if fst c then dtl_export_csv_string (snd c) else snd c)"

definition cell_ok :: "cell_of_row \<Rightarrow> bool" where
  "cell_ok c \<longleftrightarrow> length (snd c) \<le> 4095 \<and> 0 \<notin> set (snd c) \<and> 0x0A \<notin> set (snd c) \<and> (\<not> fst c \<longrightarrow> list_all plain_char (snd c))"

definition row_tail :: "cell_of_row list \<Rightarrow> u8 list" where
  "row_tail cs = concat (map (\<lambda>c. 0x2C # cell_text c) cs)"

definition row_text :: "cell_of_row list \<Rightarrow> u8 list" where
  "row_text cs = cell_text (hd cs) @ row_tail (tl cs)"

lemma row_tail_simps [simp]: "row_tail [] = []" "row_tail (c # cs) = 0x2C # cell_text c @ row_tail cs"
  "row_tail (as @ bs) = row_tail as @ row_tail bs"
  by (simp_all add: row_tail_def)

lemma quoted_cell:
  assumes "length fld + length s \<le> 4095" "0 \<notin> set s" "d \<noteq> 0x22"
  shows "csv_quoted fld (concat (map (\<lambda>c. if c = 0x22 then [0x22, c] else [c]) s) @ 0x22 # d # rest) = Ok (fld @ s, d # rest)"
  using assms
proof (induction s arbitrary: fld)
  case (Cons c s)
  then show ?case using Cons.IH [of "fld @ [c]"] by (simp add: DTL_IMPORT_FIELD_CAP_def)
qed simp

lemma plain_cell:
  assumes "length fld + length s \<le> 4095" "list_all plain_char s" "d = 0x2C \<or> d = 0"
  shows "csv_plain fld (s @ d # rest) = Ok (fld @ s, d # rest)"
  using assms
proof (induction s arbitrary: fld)
  case (Cons c s)
  then show ?case using Cons.IH [of "fld @ [c]"] by (simp add: DTL_IMPORT_FIELD_CAP_def plain_char_def)
qed auto

lemma field_cell:
  assumes "cell_ok c" "d = 0x2C \<or> d = 0"
  shows "csv_field (cell_text c @ d # rest) = Ok (snd c, d # rest)"
proof (cases "fst c")
  case True
  have "d \<noteq> 0x22" using assms(2) by auto
  with True quoted_cell [of "[]" "snd c" d rest] assms show ?thesis
    by (auto simp: csv_field_def cell_text_def cell_ok_def dtl_export_csv_string_def)
next
  case False
  then have "csv_plain [] (snd c @ d # rest) = Ok (snd c, d # rest)"
    using plain_cell [of "[]" "snd c" d rest] assms by (simp add: cell_ok_def)
  moreover have "hd (snd c @ d # rest) \<noteq> 0x22"
    using False assms by (cases "snd c") (auto simp: cell_ok_def plain_char_def)
  ultimately show ?thesis
    using False by (cases "snd c @ d # rest") (auto simp: csv_field_def cell_text_def)
qed

lemma fields_cells:
  assumes "list_all cell_ok cs" "cs \<noteq> []" "length cs \<le> n"
  shows "csv_fields n row (row_text cs @ [0]) = Ok (row @ map snd cs)"
  using assms
proof (induction cs arbitrary: n row)
  case (Cons c cs)
  then obtain k where n: "n = Suc k" by (cases n) auto
  show ?case
  proof (cases cs)
    case Nil
    then show ?thesis using Cons.prems field_cell [of c 0 "[]"] by (simp add: n row_text_def)
  next
    case (Cons c' cs')
    then have ne: "cs \<noteq> []" and t: "row_text (c # cs) @ [0] = cell_text c @ 0x2C # row_text cs @ [0]" by (simp_all add: row_text_def)
    have "csv_field (row_text (c # cs) @ [0]) = Ok (snd c, 0x2C # row_text cs @ [0])"
      unfolding t using Cons.prems by (intro field_cell) simp_all
    moreover have "csv_fields k (row @ [snd c]) (row_text cs @ [0]) = Ok ((row @ [snd c]) @ map snd cs)"
      using Cons.prems ne n by (intro Cons.IH) simp_all
    ultimately show ?thesis by (simp add: n)
  qed
qed simp

text \<open>On every line the tokenizer stays inside the line and its fixed arrays.\<close>

lemma quoted_bounds:
  assumes "0 \<in> set p" "length fld \<le> 4095"
  shows "csv_quoted fld p \<noteq> Ub \<and> (\<forall>f p'. csv_quoted fld p = Ok (f, p') \<longrightarrow> length f \<le> 4095 \<and> 0 \<in> set p')"
  using assms
proof (induction fld p rule: csv_quoted.induct)
  case (2 fld c p)
  consider "c = 0" | "c = 0x22" | "c \<noteq> 0" "c \<noteq> 0x22" by blast
  then show ?case
  proof cases
    case 2
    then have "0 \<in> set p" using "2.prems"(1) by simp
    then obtain d p' where p: "p = d # p'" by (cases p) auto
    show ?thesis
    proof (cases "d = 0x22 \<and> length fld + 1 < DTL_IMPORT_FIELD_CAP")
      case True
      then have "0 \<in> set p'" using \<open>0 \<in> set p\<close> p by auto
      with "2.IH"(1) [OF _ 2 p] True 2 p show ?thesis by (simp add: DTL_IMPORT_FIELD_CAP_def)
    qed (use 2 p \<open>0 \<in> set p\<close> "2.prems"(2) in auto)
  next
    case 3
    then have "0 \<in> set p" using "2.prems"(1) by auto
    with "2.IH"(2) 3 show ?thesis by (cases "length fld + 1 \<ge> DTL_IMPORT_FIELD_CAP") (auto simp: DTL_IMPORT_FIELD_CAP_def)
  qed simp
qed simp

lemma plain_bounds:
  assumes "0 \<in> set p" "length fld \<le> 4095"
  shows "csv_plain fld p \<noteq> Ub \<and> (\<forall>f p'. csv_plain fld p = Ok (f, p') \<longrightarrow> length f \<le> 4095 \<and> 0 \<in> set p')"
  using assms by (induction fld p rule: csv_plain.induct) (auto simp: DTL_IMPORT_FIELD_CAP_def)

lemma field_bounds:
  assumes "0 \<in> set p"
  shows "csv_field p \<noteq> Ub \<and> (\<forall>f p'. csv_field p = Ok (f, p') \<longrightarrow> length f \<le> 4095 \<and> 0 \<in> set p')"
proof (cases p)
  case (Cons c p')
  show ?thesis
  proof (cases "c = 0x22")
    case True
    then have "0 \<in> set p'" using assms Cons by auto
    from quoted_bounds [OF this, of "[]"] True Cons show ?thesis
      by (cases "csv_quoted [] p'") (auto simp: csv_field_def split: list.splits if_splits)
  next
    case False
    then show ?thesis using plain_bounds [OF assms, of "[]"] Cons by (simp add: csv_field_def)
  qed
qed (use assms in simp)

lemma fields_bounds:
  assumes "0 \<in> set p" "list_all (\<lambda>f. length f \<le> 4095) row" "length row + n = 8"
  shows "csv_fields n row p \<noteq> Ub \<and> (\<forall>r. csv_fields n row p = Ok r \<longrightarrow> length r \<le> 8 \<and> list_all (\<lambda>f. length f \<le> 4095) r)"
  using assms
proof (induction n row p rule: csv_fields.induct)
  case (2 n row p)
  from field_bounds [OF 2(2)] consider e where "csv_field p = Err e"
    | f c p' where "csv_field p = Ok (f, c # p')" "length f \<le> 4095" "0 \<in> set (c # p')"
    by (cases "csv_field p") (auto, metis list.set_cases)
  then show ?case
  proof cases
    case (2 f c p')
    show ?thesis
    proof (cases "c = 0")
      case True
      with 2 \<open>list_all _ row\<close> \<open>length row + Suc n = 8\<close> show ?thesis by simp
    next
      case False
      then have "0 \<in> set p'" using 2 by simp
      with "2.IH" [OF 2(1) refl refl False] False 2 \<open>list_all _ row\<close> \<open>length row + Suc n = 8\<close> show ?thesis by simp
    qed
  qed simp
qed simp

subsection \<open>The row of a record\<close>

text \<open>The samples of a sensor value, little-endian words of four bytes.\<close>

fun words :: "u8 list \<Rightarrow> u32 list" where
  "words (a # b # c # d # bs) = (ucast a OR push_bit 8 (ucast b) OR push_bit 16 (ucast c) OR push_bit 24 (ucast d)) # words bs"
| "words _ = []"

abbreviation plain_cell_of :: "u8 list \<Rightarrow> cell_of_row" where "plain_cell_of s \<equiv> (False, s)"

definition u_cell :: "'a :: len word \<Rightarrow> cell_of_row" where "u_cell v = (False, str (fmt_u (unat v)))"
definition d_cell :: "'a :: len word \<Rightarrow> cell_of_row" where "d_cell v = (False, str (fmt_d (sint v)))"

fun csv_cells :: "(u32 \<Rightarrow> u8 list) \<Rightarrow> rec_val \<Rightarrow> cell_of_row list" where
  "csv_cells g6 (VHeartbeat h) = [u_cell (hb_uptime_s h), u_cell (hb_seq h)] @ replicate 4 (False, [])"
| "csv_cells g6 (VSensor i bs) = [u_cell i, u_cell (of_nat (length bs div 4) :: u8)] @ map (\<lambda>b. (False, g6 b)) (take 4 (words bs))"
| "csv_cells g6 (VEvent c bs) = [u_cell c, u_cell (of_nat (length bs) :: u16), (False, hex_bytes bs)] @ replicate 2 (False, [])"
| "csv_cells g6 (VDiag c bs) = [u_cell c, u_cell (of_nat (length bs) :: u16), u_cell (0 :: u8), (False, hex_bytes bs)] @ replicate 2 (False, [])"
| "csv_cells g6 (VGeo g) = [d_cell (geo_lat_e7 g), d_cell (geo_lon_e7 g), d_cell (geo_alt_mm g)] @ replicate 3 (False, [])"
| "csv_cells g6 (VBattery b) = [u_cell (bat_pct b), d_cell (bat_temp_c_e1 b), u_cell (bat_cycles b)] @ replicate 3 (False, [])"
| "csv_cells g6 (VNet n) = [u_cell (net_iface_id n), u_cell (net_rx_bytes n), u_cell (net_tx_bytes n), u_cell (net_rx_pkts n),
     u_cell (net_tx_pkts n), (False, [])]"
| "csv_cells g6 (VLog s msg) = [u_cell s, (True, msg)] @ replicate 3 (False, [])"
| "csv_cells g6 (VConfig kvs) = u_cell (of_nat (length kvs) :: u8) # concat (map (\<lambda>(k, v). [(True, k), (True, v)]) (take 2 kvs))"
| "csv_cells g6 (VKeyref s l) = [u_cell s, u_cell (0 :: u8), (True, l)] @ replicate 3 (False, [])"
| "csv_cells g6 (VFirmware f) = [u_cell (fw_major f), u_cell (fw_minor f), u_cell (fw_patch f), (False, hex_bytes (fw_hash f))] @
     replicate 2 (False, [])"

definition value_row :: "(u32 \<Rightarrow> u8 list) \<Rightarrow> nat \<Rightarrow> rec_val \<Rightarrow> cell_of_row list" where
  "value_row g6 i v = (False, str (fmt_u i)) # (False, str (dtl_walk_tag_name (val_tag v))) # csv_cells g6 v"

fun unredacted :: "dtl_record \<Rightarrow> bool" where
  "unredacted (RDiag d) \<longleftrightarrow> dg_redacted d = 0"
| "unredacted (RKeyref k) \<longleftrightarrow> kr_redacted k = 0"
| "unredacted _ \<longleftrightarrow> True"

lemma cell_texts [simp]:
  "cell_text (False, s) = s" "cell_text (True, s) = dtl_export_csv_string s" "cell_text (u_cell v) = str (fmt_u (unat v))"
  "cell_text (d_cell v) = str (fmt_d (sint v))"
  by (simp_all add: cell_text_def u_cell_def d_cell_def)

lemma comma: "ch CHR '','' = 0x2C"
  by (simp add: ch_def)

lemma field_texts [simp]: "u_field v = 0x2C # str (fmt_u (unat v))" "d_field w = 0x2C # str (fmt_d (sint w))"
  by (simp_all add: u_field_def d_field_def comma)

lemma words_step: "length bs \<ge> 4 \<Longrightarrow> \<exists>v. dtl_endian_read_u32le (take 4 bs) = Ok v \<and> words bs = v # words (drop 4 bs)"
  by (cases bs rule: words.cases) (simp_all add: dtl_endian_read_u32le_def)

lemma csv_samples_cells:
  assumes "load_bytes m p (4 * (i + k)) = Ok bs" "n \<le> k"
  shows "csv_samples g6 m (Some p) i n = Ok (row_tail (map (\<lambda>b. (False, g6 b)) (take n (words (drop (4 * i) bs)))))"
  using assms
proof (induction n arbitrary: i k)
  case (Suc n)
  have len: "length bs = 4 * (i + k)" using load_bytes_region [OF Suc.prems(1)] by simp
  obtain k' where k: "k = Suc k'" using Suc.prems(2) by (cases k) auto
  obtain v where v: "dtl_endian_read_u32le (take 4 (drop (4 * i) bs)) = Ok v" "words (drop (4 * i) bs) = v # words (drop (4 * (i + 1)) bs)"
    using words_step [of "drop (4 * i) bs"] len k by (auto simp: add.commute)
  have "load_bytes m (fst p, snd p + 4 * i) 4 = Ok (take 4 (drop (4 * i) bs))"
    using load_piece [OF Suc.prems(1), of "4 * i"] k by simp
  moreover have "csv_samples g6 m (Some p) (i + 1) n = Ok (row_tail (map (\<lambda>b. (False, g6 b)) (take n (words (drop (4 * (i + 1)) bs)))))"
    using Suc.IH [of "i + 1" k'] Suc.prems k by simp
  ultimately show ?case using v by (simp add: comma)
qed simp

lemma csv_pairs_cells:
  "deref_pairs m kvs = Ok vs \<Longrightarrow> n \<le> length kvs \<Longrightarrow>
    csv_pairs m n kvs = Ok (row_tail (concat (map (\<lambda>(k, v). [(True, k), (True, v)]) (take n vs))))"
  by (induction m n kvs arbitrary: vs rule: csv_pairs.induct) (auto simp: rbind_eq_Ok_iff comma)

lemma replicate_cells:
  "replicate 2 x = [x, x]" "replicate 3 x = [x, x, x]" "replicate 4 x = [x, x, x, x]"
  by (simp_all add: numeral_eq_Suc)

lemma export_row:
  assumes "record_view m r = Ok v" "rec_shape r" "unredacted r"
  shows "csv_tail g6 m r = Ok (row_tail (csv_cells g6 v)) \<and> rec_tag r = val_tag v"
proof (cases r)
  case (RSensor s)
  then obtain bs where bs: "deref_bytes m (sen_samples s) (unat (sen_count s) * 4) = Ok bs" "v = VSensor (sen_sensor_id s) bs"
    using assms(1) by (auto simp: rbind_eq_Ok_iff)
  have len: "length bs = unat (sen_count s) * 4" by (rule deref_bytes_length [OF bs(1)])
  have "csv_samples g6 m (sen_samples s) 0 (min (unat (sen_count s)) 4) = Ok (row_tail (map (\<lambda>b. (False, g6 b)) (take 4 (words bs))))"
  proof (cases "sen_count s = 0")
    case False
    then obtain p where p: "sen_samples s = Some p" "load_bytes m p (4 * (0 + unat (sen_count s))) = Ok bs"
      using bs(1) by (auto simp: deref_bytes_def mult.commute unat_eq_zero split: option.splits)
    have "length (words bs) = length bs div 4" by (induction bs rule: words.induct) auto
    then have "take (min (unat (sen_count s)) 4) (words bs) = take 4 (words bs)" using len by (simp add: min_def)
    with csv_samples_cells [OF p(2), of "min (unat (sen_count s)) 4" g6] p(1) show ?thesis by simp
  qed (use len in simp)
  with RSensor bs(2) len show ?thesis by (simp add: of_nat_unat_len)
next
  case (RConfig c)
  then obtain vs where vs: "deref_pairs m (cfg_pairs c) = Ok vs" "v = VConfig vs" using assms(1) by (auto simp: rbind_eq_Ok_iff)
  have l: "length vs = unat (cfg_pair_count c)" using deref_pairs_length [OF vs(1)] assms(2) RConfig by simp
  then have "take (min (unat (cfg_pair_count c)) 2) vs = take 2 vs" by (simp add: min_def)
  moreover have "min (unat (cfg_pair_count c)) 2 \<le> length (cfg_pairs c)" using assms(2) RConfig by simp
  ultimately have "csv_pairs m (min (unat (cfg_pair_count c)) 2) (cfg_pairs c) =
      Ok (row_tail (concat (map (\<lambda>(k, v). [(True, k), (True, v)]) (take 2 vs))))" using csv_pairs_cells [OF vs(1)] by simp
  with RConfig vs(2) of_nat_unat_len [OF l]
  show ?thesis by simp
next
  case (REvent e)
  then obtain bs where bs: "deref_bytes m (ev_payload e) (unat (ev_payload_len e)) = Ok bs" "v = VEvent (ev_code e) bs"
    using assms(1) by (auto simp: rbind_eq_Ok_iff)
  with REvent deref_bytes_length [OF bs(1)] show ?thesis by (simp add: dtl_export_hex_def comma replicate_cells)
next
  case (RDiag d)
  then obtain bs where bs: "deref_bytes m (dg_blob d) (unat (dg_blob_len d)) = Ok bs" "v = VDiag (dg_subsystem d) bs"
    using assms(1) by (auto simp: rbind_eq_Ok_iff)
  with RDiag assms(3) deref_bytes_length [OF bs(1)] show ?thesis by (simp add: dtl_export_hex_def comma replicate_cells)
next
  case (RLog l)
  then obtain bs where bs: "deref_bytes m (log_msg l) (unat (log_msg_len l)) = Ok bs" "v = VLog (log_severity l) bs"
    using assms(1) by (auto simp: rbind_eq_Ok_iff)
  with RLog show ?thesis by (simp add: comma replicate_cells)
next
  case (RKeyref k)
  then obtain bs where bs: "deref_bytes m (kr_label k) (unat (kr_label_len k)) = Ok bs" "v = VKeyref (kr_slot_id k) bs"
    using assms(1) by (auto simp: rbind_eq_Ok_iff)
  with RKeyref assms(3) show ?thesis by (simp add: comma replicate_cells)
qed (use assms in \<open>auto simp: comma replicate_cells\<close>)

lemma export_record_row:
  assumes "record_view m r = Ok v" "rec_shape r" "unredacted r"
  shows "dtl_export_csv_record g6 m r i = Ok (row_text (value_row g6 i v) @ [0x0A])"
  using export_row [OF assms, of g6] by (simp add: dtl_export_csv_record_def row_text_def value_row_def comma)

subsection \<open>Reading a row back\<close>

text \<open>
  What a value must satisfy to survive a CSV row: strings without NUL and newline, at most four samples
  that the two float conversions preserve, at most two pairs, fields and payloads that fit a field buffer.
\<close>

definition csv_string_ok :: "nat \<Rightarrow> u8 list \<Rightarrow> bool" where
  "csv_string_ok n s \<longleftrightarrow> length s \<le> n \<and> 0 \<notin> set s \<and> 0x0A \<notin> set s"

fun csv_ok :: "(u8 list \<Rightarrow> u32 option) \<Rightarrow> (u32 \<Rightarrow> u8 list) \<Rightarrow> rec_val \<Rightarrow> bool" where
  "csv_ok strtof g6 (VSensor i bs) \<longleftrightarrow> length bs mod 4 = 0 \<and> length bs \<le> 16 \<and>
     list_all (\<lambda>b. g6 b \<noteq> [] \<and> length (g6 b) \<le> 4095 \<and> list_all plain_char (g6 b) \<and> strtof (g6 b) = Some b) (words bs)"
| "csv_ok strtof g6 (VEvent c bs) \<longleftrightarrow> length bs \<le> 2047"
| "csv_ok strtof g6 (VDiag c bs) \<longleftrightarrow> length bs \<le> 2047"
| "csv_ok strtof g6 (VLog s msg) \<longleftrightarrow> csv_string_ok 4095 msg"
| "csv_ok strtof g6 (VConfig kvs) \<longleftrightarrow> length kvs \<le> 2 \<and> list_all (\<lambda>(k, v). csv_string_ok 4095 k \<and> csv_string_ok 4095 v) kvs"
| "csv_ok strtof g6 (VKeyref s l) \<longleftrightarrow> csv_string_ok 255 l"
| "csv_ok strtof g6 (VFirmware f) \<longleftrightarrow> length (fw_hash f) = 8"
| "csv_ok strtof g6 _ \<longleftrightarrow> True"

definition yields :: "dtl_record wm \<Rightarrow> rec_val \<Rightarrow> bool" where
  "yields f v \<longleftrightarrow> wvalid (\<lambda>_. True) f (\<lambda>r w. record_view (w_mem w) r = Ok v \<and> rec_shape r \<and> rec_tag r = val_tag v) (\<lambda>e. e = DTL_ERR_OOM)"

lemma yields_ret: "(\<And>m. record_view m r = Ok v) \<Longrightarrow> rec_shape r \<Longrightarrow> rec_tag r = val_tag v \<Longrightarrow> yields (wret r) v"
  unfolding yields_def by (rule wvalid_ret) simp

lemma ucast_up_down: "LENGTH('a :: len) \<le> LENGTH('b :: len) \<Longrightarrow> ucast (ucast (v :: 'a word) :: 'b word) = v"
  by (rule bit_word_eqI) (auto simp: bit_simps)

lemma up_down [simp]: "ucast (ucast (a :: u8) :: u32) = a" "ucast (ucast (b :: u16) :: u32) = b"
  by (simp_all add: ucast_up_down)

lemma unat_up: "LENGTH('a :: len) \<le> LENGTH('b :: len) \<Longrightarrow> unat (ucast (v :: 'a word) :: 'b word) = unat v"
  by transfer (simp add: min_def take_bit_take_bit)

lemma up_small [simp]: "\<not> (ucast (a :: u8) :: u32) > 255" "\<not> (ucast (b :: u16) :: u32) > 0xFFFF" "\<not> 255 < (ucast (a :: u8) :: u32)"
  "unat (ucast (a :: u8) :: u32) = unat a" "unat (ucast (b :: u16) :: u32) = unat b"
proof -
  have "unat a < 2 ^ 8" "unat b < 2 ^ 16" by (rule order_less_le_trans [OF unsigned_less], simp)+
  then have "unat a \<le> 255" "unat b \<le> 65535" by simp_all
  then show "\<not> (ucast a :: u32) > 255" "\<not> (ucast b :: u32) > 0xFFFF" "\<not> 255 < (ucast (a :: u8) :: u32)"
    by (simp_all add: word_less_nat_alt unat_up not_less)
  show "unat (ucast a :: u32) = unat a" "unat (ucast b :: u32) = unat b" by (simp_all add: unat_up)
qed

lemma read_u_cell [simp]: "text_u32 (snd (u_cell (v :: 'a :: len word))) = Some (ucast v)" if "LENGTH('a) \<le> 32"
  using text_u32_word [OF that, of v] by (simp add: u_cell_def)

lemma sint_i32: "- (2 ^ 63) \<le> sint (v :: 'a :: len word) \<and> sint v < 2 ^ 63" if "LENGTH('a) \<le> 32"
proof -
  have "(2 :: int) ^ (LENGTH('a) - 1) \<le> 2 ^ 63" using that by (intro power_increasing) auto
  moreover have "- (2 ^ (LENGTH('a) - 1)) \<le> sint v" "sint v < 2 ^ (LENGTH('a) - 1)" by (rule sint_ge, rule sint_lt)
  ultimately show ?thesis by linarith
qed

lemma read_d_cell [simp]: "text_i32 (snd (d_cell (v :: 'a :: len word))) = Some (scast v)" if "LENGTH('a) \<le> 32"
  using text_i32_fmt sint_i32 [OF that, of v] by (simp add: d_cell_def)

lemma csv_u_known: "ix < length row \<Longrightarrow> text_u32 (row ! ix) = Some v \<Longrightarrow> csv_u row ix = wret v"
  by (simp add: csv_u_def)

lemma csv_i_known: "ix < length row \<Longrightarrow> text_i32 (row ! ix) = Some v \<Longrightarrow> csv_i row ix = wret v"
  by (simp add: csv_i_def)

lemma require_known [simp]: "b \<Longrightarrow> w_require b = wret ()"
  by (simp add: w_require_def)

lemma wmap_ret [simp]: "wmap f (wret x) = wret (f x)"
  by (simp add: wmap_def)

lemmas import_simps = csv_u_known csv_i_known u_cell_def [symmetric]

lemma yields_flat:
  "yields (wmap RHeartbeat (import_heartbeat (a # b # map snd (csv_cells g6 (VHeartbeat h))))) (VHeartbeat h)"
  "yields (wmap RGeo (import_geo (a # b # map snd (csv_cells g6 (VGeo g))))) (VGeo g)"
  "yields (wmap RNet (import_net (a # b # map snd (csv_cells g6 (VNet n))))) (VNet n)"
  by (auto simp: import_heartbeat_def import_geo_def import_net_def csv_u_known csv_i_known intro!: yields_ret)

lemma yields_battery: "yields (wmap RBattery (import_battery (x # y # map snd (csv_cells g6 (VBattery b))))) (VBattery b)"
proof -
  have "sint (scast (bat_temp_c_e1 b) :: u32) = sint (bat_temp_c_e1 b)" by (simp add: sint_up_scast is_up)
  moreover have "- 32768 \<le> sint (bat_temp_c_e1 b)" "sint (bat_temp_c_e1 b) \<le> 32767"
    using sint_ge [of "bat_temp_c_e1 b"] sint_lt [of "bat_temp_c_e1 b"] by simp_all
  moreover have "ucast (scast (bat_temp_c_e1 b) :: u32) = bat_temp_c_e1 b" by (rule bit_word_eqI) (auto simp: bit_simps)
  ultimately show ?thesis by (auto simp: import_battery_def csv_u_known csv_i_known intro!: yields_ret)
qed

lemma yields_firmware:
  "csv_ok sf g6 (VFirmware f) \<Longrightarrow> yields (wmap RFirmware (import_firmware (x # y # map snd (csv_cells g6 (VFirmware f))))) (VFirmware f)"
  by (auto simp: import_firmware_def csv_u_known text_hex_bytes intro!: yields_ret)

text \<open>Records with pointers: the buffers are allocated, filled and read back.\<close>

lemma dup_store:
  "wvalid (\<lambda>w. held L w \<and> fresh_for L q (length s + 1) w) (w_store q (s @ [0])) (\<lambda>_. held ((q, s) # L)) E"
proof (rule wvalidI)
  fix w assume w: "world_ok w" and P: "held L w \<and> fresh_for L q (length s + 1) w"
  then obtain m where m: "store_bytes (w_mem w) q (s @ [0]) = Ok m"
    using store_bytes_Ok_iff [of "w_mem w" q "s @ [0]"] by (auto simp: fresh_for_def)
  have "held L (w\<lparr>w_mem := m\<rparr>)" using P by (intro held_store [OF _ m]) auto
  moreover have "load_bytes m q (length s + 1) = Ok (s @ [0])" using load_store_same [OF m] by simp
  ultimately have "held ((q, s) # L) (w\<lparr>w_mem := m\<rparr>)" using P by (auto simp: held_def fresh_for_def anchored_def)
  with m world_ok_store [OF w m] show "wpost (\<lambda>_. held ((q, s) # L)) E (w_store q (s @ [0]) w)" by (simp add: w_store_def)
qed

lemma dup_step:
  assumes "\<And>q. wvalid (held ((q, s) # L)) (g (Some q)) Q E" "wvalid (held L) (g None) Q E"
  shows "wvalid (held L) (wbind (dtl_field_dup s) g) Q E"
  unfolding dtl_field_dup_def wbind_assoc
proof (rule wvalid_bind [OF arena_fresh], goal_cases)
  case (1 p)
  show ?case
  proof (cases p)
    case None
    then show ?thesis using assms(2) by (auto intro: wvalid_pre [rotated])
  next
    case (Some q)
    have "wvalid (\<lambda>w. held L w \<and> fresh_for L q (length s + 1) w) (wbind (w_store q (s @ [0])) (\<lambda>_. g (Some q))) Q E"
      by (rule wvalid_bind [OF dup_store]) (rule assms(1))
    then show ?thesis using Some by (simp add: wbind_assoc)
  qed
qed

lemma held_bytes: "held ((p, s) # L) w \<Longrightarrow> deref_bytes (w_mem w) (Some p) (length s) = Ok s"
  using load_prefix [of "w_mem w" p "length s" 1 "s @ [0]"] by (auto simp: held_def deref_bytes_def)

lemma yields_dup:
  assumes "\<And>m p. deref_bytes m (Some p) (length s) = Ok s \<Longrightarrow> record_view m (f p) = Ok v"
    "\<And>p. rec_shape (f p)" "\<And>p. rec_tag (f p) = val_tag v"
  shows "yields (wbind (dtl_field_dup s) (\<lambda>p. case p of None \<Rightarrow> wfail DTL_ERR_OOM | Some p \<Rightarrow> wret (f p))) v"
proof -
  have "wvalid (held []) (wbind (dtl_field_dup s) (\<lambda>p. case p of None \<Rightarrow> wfail DTL_ERR_OOM | Some p \<Rightarrow> wret (f p)))
    (\<lambda>r w. record_view (w_mem w) r = Ok v \<and> rec_shape r \<and> rec_tag r = val_tag v) (\<lambda>e. e = DTL_ERR_OOM)"
  proof (rule dup_step, goal_cases)
    case (1 q)
    show ?case unfolding option.case by (rule wvalid_ret) (metis held_bytes assms)
  qed (simp add: wvalid_fail)
  then show ?thesis unfolding yields_def by (rule wvalid_pre [rotated]) (simp add: held_def)
qed

lemma wmap_option: "wmap f (case p of None \<Rightarrow> wfail e | Some x \<Rightarrow> wret (g x)) = (case p of None \<Rightarrow> wfail e | Some x \<Rightarrow> wret (f (g x)))"
  by (cases p) (simp_all add: wmap_def)

lemma yields_log:
  assumes "csv_ok sf g6 (VLog s msg)"
  shows "yields (wmap RLog (import_log (x # y # map snd (csv_cells g6 (VLog s msg))))) (VLog s msg)"
proof -
  have l: "length msg \<le> 4095" using assms by (simp add: csv_string_ok_def)
  then have u: "unat (of_nat (length msg) :: u16) = length msg" by (simp add: unat_of_nat_u16)
  have "wmap RLog (import_log (x # y # map snd (csv_cells g6 (VLog s msg)))) =
    wbind (dtl_field_dup msg) (\<lambda>p. case p of None \<Rightarrow> wfail DTL_ERR_OOM
      | Some p \<Rightarrow> wret (RLog \<lparr>log_severity = s, log_msg_len = of_nat (length msg), log_msg = Some p\<rparr>))"
    using l by (simp add: import_log_def csv_u_known wmap_bind wmap_option cong: option.case_cong)
  then show ?thesis using u by (simp only:) (rule yields_dup, simp_all)
qed

lemma yields_keyref:
  assumes "csv_ok sf g6 (VKeyref s l)"
  shows "yields (wmap RKeyref (import_keyref (x # y # map snd (csv_cells g6 (VKeyref s l))))) (VKeyref s l)"
proof -
  have len: "length l \<le> 255" using assms by (simp add: csv_string_ok_def)
  then have u: "unat (of_nat (length l) :: u8) = length l" by (simp add: unat_of_nat_u8)
  have "wmap RKeyref (import_keyref (x # y # map snd (csv_cells g6 (VKeyref s l)))) =
    wbind (dtl_field_dup l) (\<lambda>p. case p of None \<Rightarrow> wfail DTL_ERR_OOM
      | Some p \<Rightarrow> wret (RKeyref \<lparr>kr_slot_id = s, kr_label_len = of_nat (length l), kr_label = Some p, kr_redacted = 0\<rparr>))"
    using len by (simp add: import_keyref_def csv_u_known wmap_bind wmap_option cong: option.case_cong)
  then show ?thesis using u by (simp only:) (rule yields_dup, simp_all)
qed

lemma pairs_valid:
  assumes "drop fi row = concat (map (\<lambda>(k, v). [k, v]) kvs) @ rest"
  shows "wvalid (held L) (import_pairs row fi (length kvs)) (\<lambda>ps w. length ps = length kvs \<and> held (placed ps kvs @ L) w) (\<lambda>e. e = DTL_ERR_OOM)"
  using assms
proof (induction kvs arbitrary: fi L)
  case (Cons kv kvs)
  obtain k v where kv: "kv = (k, v)" by (cases kv)
  then have d: "drop fi row = k # v # concat (map (\<lambda>(k, v). [k, v]) kvs) @ rest" using Cons.prems by simp
  have len: "\<not> fi + 1 \<ge> length row" using arg_cong [OF d, of length] by simp
  have at: "row ! fi = k" "row ! (fi + 1) = v"
    using nth_drop [of fi row 0] nth_drop [of fi row 1] len d by simp_all
  have rest: "drop (fi + 2) row = concat (map (\<lambda>(k, v). [k, v]) kvs) @ rest"
    using arg_cong [OF d, of "drop 2"] by (simp add: add.commute)
  let ?Q = "\<lambda>ps w. length ps = length (kv # kvs) \<and> held (placed ps (kv # kvs) @ L) w" and ?E = "\<lambda>e. e = DTL_ERR_OOM"
  have last: "wvalid (held ((vp, v) # (kp, k) # L)) (wbind (import_pairs row (fi + 2) (length kvs)) (\<lambda>ps. wret ((kp, vp) # ps))) ?Q ?E" for kp vp
    by (rule wvalid_bind [OF Cons.IH [OF rest]], rule wvalid_ret) (auto simp: kv elim: held_mono)
  show ?case
    unfolding list.size(4) add.right_neutral add_Suc_right import_pairs.simps if_not_P [OF len] at
  proof (intro dup_step, goal_cases)
    case (1 kp vp)
    show ?case using last [of vp kp] by simp
  qed (simp_all add: wvalid_fail)
qed (auto intro!: wvalid_ret)

lemma alloc_or_oom_valid:
  "wvalid (\<lambda>_. True) (w_alloc_or_oom n) (\<lambda>p w. region_ok (w_mem w) p n) (\<lambda>e. e = DTL_ERR_OOM)"
  unfolding w_alloc_or_oom_def
proof (rule wvalid_bind [OF wvalid_arena_alloc], goal_cases)
  case (1 p)
  then show ?case by (cases p) (auto intro!: wvalid_ret wvalid_fail)
qed

lemma alloc_step: "(\<And>p. wvalid (\<lambda>w. region_ok (w_mem w) p n) (g p) Q (\<lambda>e. e = DTL_ERR_OOM)) \<Longrightarrow>
    wvalid (\<lambda>_. True) (wbind (w_alloc_or_oom n) g) Q (\<lambda>e. e = DTL_ERR_OOM)"
  by (rule wvalid_bind [OF alloc_or_oom_valid])

lemma store_step:
  assumes "length bs \<le> n" "wvalid (\<lambda>w. load_bytes (w_mem w) p (length bs) = Ok bs) g Q E"
  shows "wvalid (\<lambda>w. region_ok (w_mem w) p n) (wbind (w_store p bs) (\<lambda>_. g)) Q E"
proof (rule wvalidI)
  fix w assume w: "world_ok w" and reg: "region_ok (w_mem w) p n"
  have "wpost (\<lambda>_ w. load_bytes (w_mem w) p (length bs) = Ok bs) E (w_store p bs w)"
    by (rule wpost_mono [OF wpost_store [OF w region_ok_mono [OF reg assms(1)]]]) (auto simp: load_store_same)
  then show "wpost Q E (wbind (w_store p bs) (\<lambda>_. g) w)"
    by (rule wpost_bind) (rule wvalidD [OF assms(2)])
qed

lemma yields_config:
  assumes "csv_ok sf g6 (VConfig kvs)"
  shows "yields (wmap RConfig (import_config (x # y # map snd (csv_cells g6 (VConfig kvs))))) (VConfig kvs)"
proof -
  let ?row = "x # y # map snd (csv_cells g6 (VConfig kvs))"
  have n: "length kvs \<le> 2" and ok: "\<forall>(k, v) \<in> set kvs. 0 \<notin> set k \<and> 0 \<notin> set v"
    using assms by (auto simp: csv_string_ok_def list_all_iff)
  define u :: u32 where "u = ucast (of_nat (length kvs) :: u8)"
  have un: "unat (of_nat (length kvs) :: u8) = length kvs" using n by (simp add: unat_of_nat_u8)
  then have u: "unat u = length kvs" "\<not> u > 2" using n by (simp_all add: u_def word_less_nat_alt)
  have row: "drop 3 ?row = concat (map (\<lambda>(k, v). [k, v]) kvs) @ []"
    using n by (simp add: map_concat o_def split_def)
  have same: "map (map_prod c_string c_string) kvs = kvs"
  proof -
    have id: "c_string s = s" if "0 \<notin> set s" for s using that by (auto simp: c_string_def takeWhile_eq_all_conv)
    show ?thesis by (rule map_idI) (use ok id in fastforce)
  qed
  have view: "record_view (w_mem w) (RConfig \<lparr>cfg_pair_count = ucast u, cfg_pairs = ps\<rparr>) = Ok (VConfig kvs)"
    if "length ps = length kvs" "held (placed ps kvs @ []) w" for ps w
    using held_deref [OF that(2,1)] same by simp
  have "wvalid (\<lambda>_. True) (wbind (w_alloc_or_oom ((if u \<noteq> 0 then unat u else 1) * sizeof_config_pair)) (\<lambda>_.
      wbind (import_pairs ?row 3 (unat u)) (\<lambda>ps. wret (RConfig \<lparr>cfg_pair_count = ucast u, cfg_pairs = ps\<rparr>))))
    (\<lambda>r w. record_view (w_mem w) r = Ok (VConfig kvs) \<and> rec_shape r \<and> rec_tag r = val_tag (VConfig kvs)) (\<lambda>e. e = DTL_ERR_OOM)"
    unfolding u(1)
  proof (rule alloc_step, rule wvalid_pre [OF _ wvalid_bind [OF pairs_valid [OF row, of "[]"]]], simp add: held_def, rule wvalid_ret)
    fix ps w assume "length ps = length kvs \<and> held (placed ps kvs @ []) w"
    with view [of ps w] un show "record_view (w_mem w) (RConfig \<lparr>cfg_pair_count = ucast u, cfg_pairs = ps\<rparr>) = Ok (VConfig kvs) \<and>
        rec_shape (RConfig \<lparr>cfg_pair_count = ucast u, cfg_pairs = ps\<rparr>) \<and> rec_tag (RConfig \<lparr>cfg_pair_count = ucast u, cfg_pairs = ps\<rparr>) = val_tag (VConfig kvs)"
      by (simp add: u_def)
  qed
  moreover have "csv_u ?row 2 = wret u" by (simp add: csv_u_known u_def)
  ultimately show ?thesis using u(2) by (simp add: yields_def import_config_def wmap_bind del: csv_cells.simps)
qed

lemma yields_event:
  assumes "csv_ok sf g6 (VEvent c bs)"
  shows "yields (wmap REvent (import_event (x # y # map snd (csv_cells g6 (VEvent c bs))))) (VEvent c bs)"
proof -
  define u :: u32 where "u = ucast (of_nat (length bs) :: u16)"
  have un: "unat (of_nat (length bs) :: u16) = length bs" using assms by (simp add: unat_of_nat_u16)
  then have "unat u = length bs" "\<not> u > 0xFFFF" by (simp_all add: u_def)
  then have u: "unat u = length bs" "\<not> u > 0xFFFF" "u = 0 \<longleftrightarrow> bs = []" using unat_eq_zero [of u] by auto
  let ?r = "\<lambda>p. REvent \<lparr>ev_code = c, ev_payload_len = ucast u, ev_payload = if u \<noteq> 0 then Some p else None\<rparr>"
  let ?Q = "\<lambda>r w. record_view (w_mem w) r = Ok (VEvent c bs) \<and> rec_shape r \<and> rec_tag r = val_tag (VEvent c bs)"
  have "wvalid (\<lambda>w. region_ok (w_mem w) p (if u \<noteq> 0 then unat u else 1))
      (wbind (if hex_bytes bs \<noteq> [] then wbind (store_hex (hex_bytes bs) p (unat u)) (\<lambda>n. w_require (n = unat u)) else w_require (u = 0))
        (\<lambda>_. wret (?r p))) ?Q (\<lambda>e. e = DTL_ERR_OOM)" for p
  proof (cases "bs = []")
    case True
    then have z: "u = 0" "hex_bytes bs = []" using u(3) by (simp_all only: simp_thms hex_bytes_def list.map concat.simps)
    have v: "record_view m (?r p) = Ok (VEvent c bs)" for m using z(1) True by (simp add: deref_bytes_def)
    have "wvalid (\<lambda>w. region_ok (w_mem w) p (if u \<noteq> 0 then unat u else 1)) (wret (?r p)) ?Q (\<lambda>e. e = DTL_ERR_OOM)"
      by (rule wvalid_ret) (simp only: v rec_shape.simps rec_tag.simps val_tag.simps simp_thms)
    then show ?thesis by (simp only: z simp_thms if_False require_known wbind_simps)
  next
    case False
    then have ne: "hex_bytes bs \<noteq> []" by (cases bs) (auto simp: hex_bytes_def hex_byte)
    have "wvalid (\<lambda>w. region_ok (w_mem w) p (length bs)) (wbind (w_store p bs) (\<lambda>_. wret (?r p))) ?Q (\<lambda>e. e = DTL_ERR_OOM)"
      by (rule store_step, simp, rule wvalid_ret) (use False u un in \<open>simp add: deref_bytes_def u_def\<close>)
    with False ne u show ?thesis by (simp add: store_hex_def text_hex_bytes wbind_assoc)
  qed
  then have "wvalid (\<lambda>_. True) (wbind (w_alloc_or_oom (if u \<noteq> 0 then unat u else 1)) (\<lambda>p.
      wbind (if hex_bytes bs \<noteq> [] then wbind (store_hex (hex_bytes bs) p (unat u)) (\<lambda>n. w_require (n = unat u)) else w_require (u = 0))
        (\<lambda>_. wret (?r p)))) ?Q (\<lambda>e. e = DTL_ERR_OOM)" by (rule alloc_step)
  moreover define row where "row = x # y # map snd (csv_cells g6 (VEvent c bs))"
  moreover have "csv_u row 2 = wret (ucast c)" "csv_u row 3 = wret u" "row ! 4 = hex_bytes bs" "length row > 4"
    by (simp_all add: row_def csv_u_known u_def)
  ultimately show ?thesis using u(2) by (simp only: yields_def import_event_def row_def [symmetric] wmap_bind wbind_simps require_known simp_thms up_small up_down wmap_ret)
qed

lemma malloc_valid: "wvalid (\<lambda>_. True) (w_malloc n) (\<lambda>p w. \<forall>b. p = Some b \<longrightarrow> region_ok (w_mem w) (b, 0) n) E"
proof (rule wvalidI)
  fix w assume w: "world_ok w"
  obtain p m where ml: "c_malloc (w_mem w) n = (p, m)" by fastforce
  then show "wpost (\<lambda>p w. \<forall>b. p = Some b \<longrightarrow> region_ok (w_mem w) (b, 0) n) E (w_malloc n w)"
    using world_ok_malloc [OF w ml] c_malloc_obj [of "w_mem w" n _ m] by (auto simp: w_malloc_def region_ok_def)
qed

lemma yields_diag:
  assumes "csv_ok sf g6 (VDiag c bs)"
  shows "yields (wmap RDiag (import_diag (x # y # map snd (csv_cells g6 (VDiag c bs))))) (VDiag c bs)"
proof -
  define u :: u32 where "u = ucast (of_nat (length bs) :: u16)"
  have un: "unat (of_nat (length bs) :: u16) = length bs" using assms by (simp add: unat_of_nat_u16)
  then have "unat u = length bs" "\<not> u > 0xFFFF" by (simp_all add: u_def)
  then have u: "unat u = length bs" "\<not> u > 0xFFFF" "u = 0 \<longleftrightarrow> bs = []" using unat_eq_zero [of u] by auto
  let ?r = "\<lambda>p. RDiag \<lparr>dg_subsystem = c, dg_blob_len = ucast u, dg_blob = if u \<noteq> 0 then Some p else None, dg_redacted = 0\<rparr>"
  let ?Q = "\<lambda>r w. record_view (w_mem w) r = Ok (VDiag c bs) \<and> rec_shape r \<and> rec_tag r = val_tag (VDiag c bs)"
  define row where "row = x # y # map snd (csv_cells g6 (VDiag c bs))"
  have row: "csv_u row 2 = wret (ucast c)" "csv_u row 3 = wret u" "row ! 5 = hex_bytes bs" "length row > 5"
    by (simp_all add: row_def csv_u_known u_def)
  have "wvalid (\<lambda>_. True)
      (wbind (if length row > 5 \<and> row ! 5 \<noteq> []
            then let have_n = length (row ! 5) div 2
                 in wbind (w_malloc (if have_n \<noteq> 0 then have_n else 1)) (\<lambda>b.
                    case b of None \<Rightarrow> wfail DTL_ERR_OOM
                    | Some b \<Rightarrow> wbind (store_hex (row ! 5) (b, 0) have_n) (\<lambda>_. wret (b, 0)))
            else wbind (w_require (u = 0)) (\<lambda>_. w_alloc_or_oom 1)) (\<lambda>p. wret (?r p))) ?Q (\<lambda>e. e = DTL_ERR_OOM)"
  proof (cases "bs = []")
    case True
    then have z: "u = 0" "row ! 5 = []" using u(3) row(3) by (auto simp: hex_bytes_def)
    have v: "record_view m (?r p) = Ok (VDiag c bs)" for m p using z(1) True by (simp add: deref_bytes_def)
    have "wvalid (\<lambda>_. True) (wbind (w_alloc_or_oom 1) (\<lambda>p. wret (?r p))) ?Q (\<lambda>e. e = DTL_ERR_OOM)"
      by (rule alloc_step, rule wvalid_ret) (simp only: v rec_shape.simps rec_tag.simps val_tag.simps simp_thms)
    with z show ?thesis by simp
  next
    case False
    then have ne: "hex_bytes bs \<noteq> []" "u \<noteq> 0" using u(3) by (auto simp: hex_bytes_def hex_byte neq_Nil_conv)
    have "wvalid (\<lambda>w. \<forall>b. q = Some b \<longrightarrow> region_ok (w_mem w) (b, 0) (length bs)) (case q of None \<Rightarrow> wfail DTL_ERR_OOM
        | Some b \<Rightarrow> wbind (w_store (b, 0) bs) (\<lambda>_. wret (?r (b, 0)))) ?Q (\<lambda>e. e = DTL_ERR_OOM)" for q
    proof (cases q)
      case (Some b)
      have "wvalid (\<lambda>w. region_ok (w_mem w) (b, 0) (length bs)) (wbind (w_store (b, 0) bs) (\<lambda>_. wret (?r (b, 0)))) ?Q (\<lambda>e. e = DTL_ERR_OOM)"
        by (rule store_step, simp, rule wvalid_ret) (use False ne(2) un in \<open>simp add: deref_bytes_def u_def\<close>)
      then show ?thesis using Some by simp
    qed (simp add: wvalid_fail)
    from wvalid_bind [OF malloc_valid this] have "wvalid (\<lambda>_. True) (wbind (w_malloc (length bs)) (\<lambda>q. case q of None \<Rightarrow> wfail DTL_ERR_OOM
        | Some b \<Rightarrow> wbind (w_store (b, 0) bs) (\<lambda>_. wret (?r (b, 0))))) ?Q (\<lambda>e. e = DTL_ERR_OOM)" .
    moreover have "wbind (case q of None \<Rightarrow> wfail DTL_ERR_OOM | Some b \<Rightarrow> wbind (w_store (b, 0) bs) (\<lambda>_. wret (b, 0))) (\<lambda>p. wret (?r p)) =
        (case q of None \<Rightarrow> wfail DTL_ERR_OOM | Some b \<Rightarrow> wbind (w_store (b, 0) bs) (\<lambda>_. wret (?r (b, 0))))" for q
      by (cases q) (simp_all add: wbind_assoc)
    ultimately show ?thesis using False ne row(3,4) by (simp add: store_hex_def text_hex_bytes wbind_assoc)
  qed
  then show ?thesis using u(2)
    by (simp only: yields_def import_diag_def row_def [symmetric] row(1,2) wmap_bind wbind_simps require_known simp_thms up_small up_down wmap_ret)
qed

text \<open>The sample loop fills the buffer from the front.\<close>

lemma samples_valid:
  assumes "list_all (\<lambda>b. g6 b \<noteq> [] \<and> sf (g6 b) = Some b) ws" "4 * (cnt + length ws) \<le> 16"
  shows "wvalid (\<lambda>w. region_ok (w_mem w) p 16 \<and> load_bytes (w_mem w) p (4 * cnt) = Ok sofar)
    (import_samples sf p (cnt + length ws) (map g6 ws) cnt)
    (\<lambda>k w. k = cnt + length ws \<and> load_bytes (w_mem w) p (4 * k) = Ok (sofar @ concat (map dtl_endian_write_u32le ws))) E"
  using assms
proof (induction ws arbitrary: cnt sofar)
  case (Cons b ws)
  have "wvalid (\<lambda>w. region_ok (w_mem w) p 16 \<and> load_bytes (w_mem w) p (4 * cnt) = Ok sofar)
      (w_store (fst p, snd p + 4 * cnt) (dtl_endian_write_u32le b))
      (\<lambda>_ w. region_ok (w_mem w) p 16 \<and> load_bytes (w_mem w) p (4 * (cnt + 1)) = Ok (sofar @ dtl_endian_write_u32le b)) E"
  proof (rule wvalidI)
    fix w assume w: "world_ok w" and P: "region_ok (w_mem w) p 16 \<and> load_bytes (w_mem w) p (4 * cnt) = Ok sofar"
    have "region_ok (w_mem w) (fst p, snd p + 4 * cnt) (length (dtl_endian_write_u32le b))"
      using P Cons.prems(2) by (auto simp: region_ok_def split: option.splits)
    then obtain m where m: "store_bytes (w_mem w) (fst p, snd p + 4 * cnt) (dtl_endian_write_u32le b) = Ok m"
      using store_bytes_Ok_iff by blast
    have "load_bytes m p (4 * (cnt + 1)) = Ok (sofar @ dtl_endian_write_u32le b)"
      using store_after [OF conjunct2 [OF P] m] by (simp add: add.commute)
    with m world_ok_store [OF w m] P store_bytes_region_ok [OF m] show "wpost (\<lambda>_ w. region_ok (w_mem w) p 16 \<and>
        load_bytes (w_mem w) p (4 * (cnt + 1)) = Ok (sofar @ dtl_endian_write_u32le b)) E (w_store (fst p, snd p + 4 * cnt) (dtl_endian_write_u32le b) w)"
      by (simp add: w_store_def)
  qed
  from wvalid_bind [OF this Cons.IH [of "cnt + 1"]] Cons.prems show ?case by simp
qed (auto intro!: wvalid_ret)

lemma words_bytes: "length bs mod 4 = 0 \<Longrightarrow> concat (map dtl_endian_write_u32le (words bs)) = bs"
proof (induction bs rule: words.induct)
  case (1 a b c d bs)
  have "dtl_endian_read_u32le [a, b, c, d] = Ok (ucast a OR push_bit 8 (ucast b) OR push_bit 16 (ucast c) OR push_bit 24 (ucast d))"
    by (simp add: dtl_endian_read_u32le_def)
  from write_read_u32le [OF this] 1 show ?case by simp
qed simp_all

lemma length_words: "length (words bs) = length bs div 4"
  by (induction bs rule: words.induct) auto

lemma yields_sensor:
  assumes "csv_ok sf g6 (VSensor i bs)"
  shows "yields (wmap RSensor (import_sensor sf (x # y # map snd (csv_cells g6 (VSensor i bs))))) (VSensor i bs)"
proof -
  define u :: u32 where "u = ucast (of_nat (length bs div 4) :: u8)"
  have k: "length bs = 4 * length (words bs)" "length (words bs) \<le> 4" and ok: "list_all (\<lambda>b. g6 b \<noteq> [] \<and> sf (g6 b) = Some b) (words bs)"
    using assms by (auto simp: length_words list_all_iff)
  then have un: "unat (of_nat (length bs div 4) :: u8) = length (words bs)" by (simp add: unat_of_nat_u8)
  then have u: "unat u = length (words bs)" "\<not> u > 4" using k(2) by (simp_all add: u_def word_less_nat_alt)
  define row where "row = x # y # map snd (csv_cells g6 (VSensor i bs))"
  have row: "csv_u row 2 = wret (ucast i)" "csv_u row 3 = wret u" "drop 4 row = map g6 (words bs)"
    using k(2) by (simp_all add: row_def csv_u_known u_def o_def)
  let ?r = "\<lambda>cnt p. RSensor \<lparr>sen_sensor_id = i, sen_count = of_nat cnt, sen_samples = if cnt \<noteq> 0 then Some p else None\<rparr>"
  let ?Q = "\<lambda>r w. record_view (w_mem w) r = Ok (VSensor i bs) \<and> rec_shape r \<and> rec_tag r = val_tag (VSensor i bs)"
  have fill: "wvalid (\<lambda>w. region_ok (w_mem w) p 16) (import_samples sf p (length (words bs)) (map g6 (words bs)) 0)
      (\<lambda>n w. n = length (words bs) \<and> load_bytes (w_mem w) p (length bs) = Ok bs) (\<lambda>e. e = DTL_ERR_OOM)" for p
  proof -
    have four: "4 * (0 + length (words bs)) \<le> 16" using k by simp
    have all: "concat (map dtl_endian_write_u32le (words bs)) = bs" by (rule words_bytes) (simp add: k(1))
    have none: "load_bytes m p (4 * 0) = Ok []" if "region_ok m p 16" for m
      using that by (auto simp: load_bytes_def region_ok_def split: option.splits)
    from samples_valid [OF ok four, of p "[]" "\<lambda>e. e = DTL_ERR_OOM"]
    have "wvalid (\<lambda>w. region_ok (w_mem w) p 16 \<and> load_bytes (w_mem w) p (4 * 0) = Ok [])
        (import_samples sf p (length (words bs)) (map g6 (words bs)) 0)
        (\<lambda>n w. n = length (words bs) \<and> load_bytes (w_mem w) p (4 * n) = Ok bs) (\<lambda>e. e = DTL_ERR_OOM)"
      by (simp only: add_0 append_Nil all)
    then show ?thesis by (rule wvalid_weaken) (use none in \<open>auto simp: k(1)\<close>)
  qed
  have "wvalid (\<lambda>_. True) (wbind (w_alloc_or_oom (4 * 4)) (\<lambda>p. wbind (import_samples sf p (length (words bs)) (map g6 (words bs)) 0) (\<lambda>cnt.
      wbind (w_require (cnt = length (words bs))) (\<lambda>_. wret (?r cnt p))))) ?Q (\<lambda>e. e = DTL_ERR_OOM)"
  proof (rule alloc_step, rule wvalid_bind [OF wvalid_pre [OF _ fill]], simp, rule wvalidI)
    fix p n w assume w: "world_ok w" and P: "n = length (words bs) \<and> load_bytes (w_mem w) p (length bs) = Ok bs"
    have "unat (of_nat n :: u8) * 4 = length bs" using P k by (simp add: unat_of_nat_u8)
    moreover have "n \<noteq> 0 \<or> bs = []" using P k(1) by auto
    ultimately have "record_view (w_mem w) (?r n p) = Ok (VSensor i bs)" using P by (auto simp: deref_bytes_def)
    with P w show "wpost ?Q (\<lambda>e. e = DTL_ERR_OOM) (wbind (w_require (n = length (words bs))) (\<lambda>_. wret (?r n p)) w)"
      by (simp only: require_known wbind_simps wret_def wpost.simps rec_shape.simps rec_tag.simps val_tag.simps simp_thms)
  qed
  then show ?thesis using u
    by (simp only: yields_def import_sensor_def row_def [symmetric] row wmap_bind wbind_simps require_known simp_thms up_small up_down wmap_ret)
qed

lemma import_tag_known: "dtl_import_tag (str (dtl_walk_tag_name (val_tag v))) = Some (val_tag v)"
  by (cases v) (simp_all add: dtl_import_tag_def kTags_def dtl_walk_tag_name_def rec_tags ch_def)

lemma import_row_tag:
  fixes a b xs
  defines "row \<equiv> a # b # xs"
  shows "dtl_import_tag b = Some DTL_REC_HEARTBEAT \<Longrightarrow> dtl_import_row sf row = wmap RHeartbeat (import_heartbeat row)"
    "dtl_import_tag b = Some DTL_REC_GEO \<Longrightarrow> dtl_import_row sf row = wmap RGeo (import_geo row)"
    "dtl_import_tag b = Some DTL_REC_BATTERY \<Longrightarrow> dtl_import_row sf row = wmap RBattery (import_battery row)"
    "dtl_import_tag b = Some DTL_REC_NET \<Longrightarrow> dtl_import_row sf row = wmap RNet (import_net row)"
    "dtl_import_tag b = Some DTL_REC_FIRMWARE \<Longrightarrow> dtl_import_row sf row = wmap RFirmware (import_firmware row)"
    "dtl_import_tag b = Some DTL_REC_SENSOR \<Longrightarrow> dtl_import_row sf row = wmap RSensor (import_sensor sf row)"
    "dtl_import_tag b = Some DTL_REC_EVENT \<Longrightarrow> dtl_import_row sf row = wmap REvent (import_event row)"
    "dtl_import_tag b = Some DTL_REC_LOG \<Longrightarrow> dtl_import_row sf row = wmap RLog (import_log row)"
    "dtl_import_tag b = Some DTL_REC_CONFIG \<Longrightarrow> dtl_import_row sf row = wmap RConfig (import_config row)"
    "dtl_import_tag b = Some DTL_REC_KEYREF \<Longrightarrow> dtl_import_row sf row = wmap RKeyref (import_keyref row)"
    "dtl_import_tag b = Some DTL_REC_DIAG \<Longrightarrow> dtl_import_row sf row = wmap RDiag (import_diag row)"
  by (simp_all add: row_def dtl_import_row_def rec_tags)

lemma import_row_yields:
  assumes "csv_ok sf g6 v"
  shows "yields (dtl_import_row sf (map snd (value_row g6 i v))) v"
proof -
  note rules = yields_flat yields_battery yields_firmware yields_sensor yields_event yields_log yields_config yields_keyref yields_diag
  have "yields (dtl_import_row sf (a # b # map snd (csv_cells g6 v))) v" if "dtl_import_tag b = Some (val_tag v)" for a b
    using that assms by (cases v) (simp_all only: import_row_tag rules val_tag.simps)
  from this [OF import_tag_known] show ?thesis by (simp add: value_row_def)
qed

end
