(* ===== verification/Report_Import.thy ===== *)
theory Report_Import
  imports Report_Csv_Spec
begin

text \<open>
  What both importers do with the records they build: add them to one section of a writer and finish
  it.  The codes the writer can return from there are bounded, and the finished container holds the
  values of the records in order.
\<close>

subsection \<open>The errors of the writer\<close>

definition size_errs :: "dtl_err set" where "size_errs = {DTL_ERR_OOM, DTL_ERR_RANGE}"

lemma size_errs [simp]: "DTL_ERR_OOM \<in> size_errs" "DTL_ERR_RANGE \<in> size_errs" "DTL_OK \<notin> size_errs"
  by (simp_all add: size_errs_def)

definition bounded_errs :: "dtl_writer \<Rightarrow> dtl_writer wm \<Rightarrow> bool" where
  "bounded_errs w f \<longleftrightarrow> results (\<lambda>w'. wr_err w' = wr_err w \<or> wr_err w' \<in> size_errs) f"

lemma bounded_ret: "wr_err w' = wr_err w \<or> wr_err w' \<in> size_errs \<Longrightarrow> bounded_errs w (wret w')"
  by (simp add: bounded_errs_def)

lemma bounded_bind:
  assumes "bounded_errs w f" "\<And>w'. bounded_errs w' (g w')"
  shows "bounded_errs w (wbind f g)"
  unfolding bounded_errs_def
  by (rule results_bind [OF assms(1) [unfolded bounded_errs_def]]) (use assms(2) in \<open>fastforce simp: bounded_errs_def results_def\<close>)

lemma bounded_read: "(\<And>x. bounded_errs w (g x)) \<Longrightarrow> bounded_errs w (\<lambda>wd. wbind (wlift (rd wd)) g wd)"
  by (fastforce simp: bounded_errs_def results_def wbind_def wlift_def split: result.splits prod.splits)

lemma bounded_read2:
  "(\<And>x y. bounded_errs w (g x y)) \<Longrightarrow> bounded_errs w (\<lambda>wd. wbind (wlift (rd wd)) (\<lambda>x. wbind (wlift (rd' wd)) (g x)) wd)"
  by (fastforce simp: bounded_errs_def results_def wbind_def wlift_def split: result.splits prod.splits)

lemma bounded_if: "bounded_errs w f \<Longrightarrow> bounded_errs w g \<Longrightarrow> bounded_errs w (if c then f else g)"
  by simp

lemma bounded_lift: "(\<And>x. bounded_errs w (g x)) \<Longrightarrow> bounded_errs w (wbind (wlift r) g)"
  by (fastforce simp: bounded_errs_def results_def wbind_def wlift_def split: result.splits prod.splits)

lemma reserve_errs: "results (\<lambda>(ok, w'). wr_err w' = wr_err w \<or> wr_err w' \<in> size_errs) (dtl_writer_reserve n w)"
  unfolding dtl_writer_reserve_def Let_def by (intro results_rules) simp_all

lemma append_errs: "bounded_errs w (writer_append n src w)"
  unfolding writer_append_def bounded_errs_def
proof (rule results_bind [OF reserve_errs], clarify)
  fix ok and w' :: dtl_writer assume e: "wr_err w' = wr_err w \<or> wr_err w' \<in> size_errs"
  have "bounded_errs w (\<lambda>wd. wbind (wlift (src (w_mem wd))) (\<lambda>bs.
      wbind (wlift (put_bytes (wr_cap w') (wr_tlv w') bs)) (\<lambda>t. wret (w'\<lparr>wr_tlv := t\<rparr>))) wd)"
    using e by (intro bounded_read bounded_lift bounded_ret) simp
  with e show "results (\<lambda>w'. wr_err w' = wr_err w \<or> wr_err w' \<in> size_errs) (if \<not> ok then wret w'
      else (\<lambda>wd. wbind (wlift (src (w_mem wd))) (\<lambda>bs.
        wbind (wlift (put_bytes (wr_cap w') (wr_tlv w') bs)) (\<lambda>t. wret (w'\<lparr>wr_tlv := t\<rparr>))) wd))"
    by (simp add: bounded_errs_def)
qed

lemma scalar_errs: "bounded_errs w (dtl_writer_u8 a w)" "bounded_errs w (dtl_writer_u16 b w)" "bounded_errs w (dtl_writer_u32 c w)"
  "bounded_errs w (dtl_writer_bytes src n w)"
  by (simp_all add: dtl_writer_u8_def dtl_writer_u16_def dtl_writer_u32_def dtl_writer_bytes_def append_errs)

lemma samples_errs: "bounded_errs w (writer_samples n p i w)"
  by (induction n arbitrary: i w) (auto intro!: bounded_ret bounded_read bounded_lift bounded_bind scalar_errs)

lemma pairs_errs: "bounded_errs w (writer_pairs n kvs w)"
proof (induction n arbitrary: kvs w)
  case (Suc n)
  show ?case
  proof (cases kvs)
    case (Cons kv kvs')
    obtain kp vp where "kv = (kp, vp)" by (cases kv)
    with Cons Suc show ?thesis
      by (simp only: writer_pairs.simps) (intro bounded_read2 bounded_if bounded_bind scalar_errs bounded_ret; simp)
  qed (simp add: bounded_errs_def)
qed (simp add: bounded_errs_def)

lemma payload_errs: "bounded_errs w (dtl_writer_payload r w)"
  by (cases r) (auto intro!: bounded_bind scalar_errs samples_errs pairs_errs)

lemma add_record_errs:
  assumes "wr_err w = DTL_OK" "wr_in_section w"
  shows "results (\<lambda>(rc, w'). rc = DTL_OK \<or> rc \<in> size_errs) (dtl_writer_add_record r w)"
proof -
  have "results (\<lambda>(rc, w'). rc = DTL_OK \<or> rc \<in> size_errs) (if wr_err w3 \<noteq> DTL_OK then wret (wr_err w3, w3)
       else let plen = size_sub (length (wr_tlv w3)) k
       in if plen > 0xFFFF then wret (DTL_ERR_RANGE, latch DTL_ERR_RANGE w3)
          else wbind (wlift (patch_u16 (wr_tlv w3) j (of_nat plen))) (\<lambda>t. wret (DTL_OK, w3\<lparr>wr_tlv := t\<rparr>)))"
    if "wr_err w3 = DTL_OK \<or> wr_err w3 \<in> size_errs" for w3 j k
    using that by (auto simp: Let_def intro: results_then)
  note last = this
  have "results (\<lambda>w1. wr_err w1 = DTL_OK \<or> wr_err w1 \<in> size_errs) f" if "bounded_errs w' f" "wr_err w' = DTL_OK \<or> wr_err w' \<in> size_errs" for w' f
    using that unfolding bounded_errs_def results_def by metis
  note keep = this
  show ?thesis
    unfolding dtl_writer_add_record_def dtl_writer_emit_tlv_def Let_def [of "length _"] using assms
    by (simp del: not_less, intro results_bind [OF keep [OF scalar_errs(1)]] results_bind [OF keep [OF scalar_errs(2)]] results_bind [OF keep [OF payload_errs]])
      (simp_all add: last)
qed

subsection \<open>One section of records\<close>

definition import_log_of :: "rec_val list \<Rightarrow> alog" where
  "import_log_of vs = \<lparr>al_done = [], al_open = if vs = [] then None else Some (1, DTL_CODEC_STORE, map val_item vs)\<rparr>"

definition import_sim :: "dtl_writer \<Rightarrow> rec_val list \<Rightarrow> bool" where
  "import_sim w vs \<longleftrightarrow> wr_err w = DTL_OK \<and> \<not> wr_has_hmac w \<and> writer_sim w (import_log_of vs)"

lemma import_sim_init: "import_sim dtl_writer_init []"
  using writer_init_sim by (simp add: import_sim_def import_log_of_def dtl_writer_init_def alog_init_def)

lemma import_begin:
  assumes "import_sim w []"
  obtains h w' where "dtl_writer_begin_section 1 DTL_CODEC_STORE w = (h, w')" "\<not> h < 0" "wr_err w' = DTL_OK" "\<not> wr_has_hmac w'"
    "writer_sim w' \<lparr>al_done = [], al_open = Some (1, DTL_CODEC_STORE, [])\<rparr>"
  using assms
  by (auto simp: import_sim_def import_log_of_def writer_sim_def open_of_def dtl_writer_begin_section_def DTL_WRITER_MAX_SECTIONS_def
      writer_ok_def stream_def items_ok_def)

lemma wvalid_results: "wvalid P f Q E \<Longrightarrow> results R f \<Longrightarrow> wvalid P f (\<lambda>x w. Q x w \<and> R x) E"
proof (rule wvalidI)
  fix w assume a: "wvalid P f Q E" "results R f" "world_ok w" "P w"
  from wvalidD [OF a(1,3,4)] a(2) show "wpost (\<lambda>x w. Q x w \<and> R x) E (f w)"
    by (cases "(Q, E, f w)" rule: wpost.cases) (auto simp: results_def)
qed

lemma add_record_import:
  assumes "mem_ok m0" "record_view m0 r = Ok v" "rec_shape r" "rec_tag r = val_tag v"
    and w: "wr_err w = DTL_OK" "\<not> wr_has_hmac w" "writer_sim w \<lparr>al_done = [], al_open = Some (1, DTL_CODEC_STORE, map val_item vs)\<rparr>"
  shows "wvalid (ext m0) (wbind (dtl_writer_add_record r w) (\<lambda>(rc, w). if rc \<noteq> DTL_OK then wfail rc else wret w))
    (\<lambda>w' _. import_sim w' (vs @ [v])) (\<lambda>e. e \<in> size_errs)"
proof -
  let ?al = "\<lparr>al_done = [], al_open = Some (1, DTL_CODEC_STORE, map val_item vs)\<rparr>"
  have ok: "writer_ok w" and sec: "wr_in_section w" using w by (auto simp: writer_sim_def open_of_def)
  have add: "wvalid (ext m0) (dtl_writer_add_record r w) (\<lambda>x _. emitted w (rec_tag r) (payload_of v) x \<and>
      (case x of (rc, w') \<Rightarrow> rc = DTL_OK \<or> rc \<in> size_errs)) (\<lambda>e. e \<in> size_errs)"
    by (rule wvalid_weaken [OF wvalid_results [OF add_record_valid [OF ok assms(1-3)] add_record_errs [OF w(1) sec, of r]]]) simp_all
  show ?thesis
  proof (rule wvalid_bind [OF add])
    fix x :: "dtl_err \<times> dtl_writer"
    obtain rc w' where x: "x = (rc, w')" by (cases x)
    show "wvalid (\<lambda>_. emitted w (rec_tag r) (payload_of v) x \<and> (case x of (rc, w') \<Rightarrow> rc = DTL_OK \<or> rc \<in> size_errs))
        (case x of (rc, w) \<Rightarrow> if rc \<noteq> DTL_OK then wfail rc else wret w) (\<lambda>w' _. import_sim w' (vs @ [v])) (\<lambda>e. e \<in> size_errs)"
    proof (cases "rc = DTL_OK")
      case True
      have "import_sim w' (vs @ [v])" if e: "emitted w (rec_tag r) (payload_of v) (rc, w')"
      proof -
        have "step_post m0 (WRaw (rec_tag r) (payload_of v)) ?al w'" by (rule emitted_step [OF w(3) e]) simp
        with e True w(2) assms(4) show ?thesis
          by (auto simp: step_post_def emitted_def import_sim_def import_log_of_def add_item_def val_item_def same_log_def split: if_splits)
      qed
      with True x show ?thesis by (auto intro!: wvalid_ret)
    qed (use x in \<open>auto intro!: wvalid_fail\<close>)
  qed
qed

lemma emit_import:
  assumes "mem_ok m0" "record_view m0 r = Ok v" "rec_shape r" "rec_tag r = val_tag v" "import_sim w vs"
  shows "wvalid (ext m0) (import_emit r (vs \<noteq> []) w) (\<lambda>w' _. import_sim w' (vs @ [v])) (\<lambda>e. e \<in> size_errs)"
proof (cases "vs = []")
  case True
  then obtain h w' where b: "dtl_writer_begin_section 1 DTL_CODEC_STORE w = (h, w')" "\<not> h < 0" "wr_err w' = DTL_OK" "\<not> wr_has_hmac w'"
    "writer_sim w' \<lparr>al_done = [], al_open = Some (1, DTL_CODEC_STORE, [])\<rparr>" using assms(5) import_begin by metis
  from add_record_import [OF assms(1-4) b(3,4), of "[]"] b(1,2,5) True show ?thesis by (simp add: import_emit_def)
next
  case False
  with assms(5) have "wr_err w = DTL_OK" "\<not> wr_has_hmac w" "writer_sim w \<lparr>al_done = [], al_open = Some (1, DTL_CODEC_STORE, map val_item vs)\<rparr>"
    by (simp_all add: import_sim_def import_log_of_def)
  from add_record_import [OF assms(1-4) this] False show ?thesis by (simp add: import_emit_def)
qed

subsection \<open>Finishing\<close>

text \<open>The identity codec never fails on a buffer of the size the writer starts with.\<close>

lemma store_known: "\<exists>codec. dtl_codec_get DTL_CODEC_STORE = Some codec"
  using codec_get_iff [of DTL_CODEC_STORE] by (simp add: DTL_CODEC_STORE_def)

lemma store_encode_known:
  "dtl_codec_get DTL_CODEC_STORE = Some codec \<Longrightarrow> length raw \<le> cap \<Longrightarrow> codec_encode codec m raw cap = (Ok raw, m)"
  by (auto simp: dtl_codec_get_def dtl_codec_table_def codec_ids codec_entry_def lift_coder_def dtl_store_encode_def dtl_store_copy_def put_bytes_def)

lemma store_compress:
  "length raw \<le> cap \<Longrightarrow> dtl_codec_get DTL_CODEC_STORE = Some codec \<Longrightarrow>
    results (\<lambda>r. r = Inl DTL_ERR_OOM \<or> r = Inr raw) (writer_compress (codec_encode codec) raw cap)"
  by (auto simp: results_def writer_compress.simps [of "codec_encode codec"] store_encode_known split: prod.splits option.splits)

lemma end_section_errs:
  assumes "wr_err w = DTL_OK" "wr_in_section w" "wr_cur_codec w = DTL_CODEC_STORE"
  shows "results (\<lambda>(rc, w'). rc \<in> size_errs \<or> rc = DTL_OK \<and> wr_err w' = DTL_OK \<and> wr_has_hmac w' = wr_has_hmac w) (dtl_writer_end_section w)"
proof -
  obtain codec where c: "dtl_codec_get DTL_CODEC_STORE = Some codec" using store_known by blast
  let ?n = "length (wr_tlv w)"
  show ?thesis
    unfolding dtl_writer_end_section_def Let_def using assms c
    by (simp, intro impI results_bind [OF store_compress [OF _ c]]) (auto intro!: results_then split: sum.splits)
qed

lemma finish_errs:
  assumes "wr_err w = DTL_OK" "\<not> wr_in_section w"
  shows "results (\<lambda>(rc, bytes, w'). rc = DTL_OK \<or> rc \<in> size_errs) (dtl_writer_finish w)"
  unfolding dtl_writer_finish_def Let_def using assms by (auto intro!: results_then split: option.splits)

lemma finish_holds:
  assumes "writer_sim w al" "wr_err w = DTL_OK" "\<not> wr_has_hmac w" "\<not> wr_in_section w"
  shows "wvalid (\<lambda>_. True) (dtl_writer_finish w) (\<lambda>(rc, bytes, w') _. rc \<in> size_errs \<or>
    rc = DTL_OK \<and> (\<exists>buf. bytes = Some buf \<and> holds_sections buf (al_done al))) E"
proof (rule wvalidI)
  fix wd assume wd: "world_ok wd"
  obtain r wd' where f: "dtl_writer_finish w wd = (r, wd')" by force
  note wd' = finish_world [OF wd f]
  have errs: "rc = DTL_OK \<or> rc \<in> size_errs" if "r = Ok (rc, b, w')" for rc b w'
    using finish_errs [OF assms(2,4)] f that unfolding results_def by fastforce
  from finish_cases [OF assms(1) wd f] show "wpost (\<lambda>(rc, bytes, w') _. rc \<in> size_errs \<or>
    rc = DTL_OK \<and> (\<exists>buf. bytes = Some buf \<and> holds_sections buf (al_done al))) E (dtl_writer_finish w wd)"
  proof (elim disjE exE conjE)
    fix e w' assume "r = Ok (e, None, w')" "e \<noteq> DTL_OK"
    with errs f wd' show ?thesis by auto
  next
    assume r: "r = Ok (DTL_OK, Some (container_body w @ container_trailer w), w)"
      and small: "length (blobs_of (wr_sections w)) \<le> 0xFFFFFFFF"
    let ?buf = "container_body w @ container_trailer w"
    have secs: "list_all2 wsection_of (wr_sections w) (al_done al)" and ok: "writer_ok w"
      using assms(1,2) by (simp_all add: writer_sim_def)
    have "holds_sections ?buf (al_done al)"
      using container_of_writer [OF secs ok small, of "mem_init (\<lambda>_ _. False)" "dtl_arena_init 0"]
        container_parse_succeeds [of ?buf] container_of_no_oom [of ?buf] by (metis (no_types, lifting) fst_conv holds_sections_def)
    with f wd' r show ?thesis by simp
  qed
qed

definition import_sections :: "rec_val list \<Rightarrow> asection list" where
  "import_sections vs = (if vs = [] then [] else [(1, DTL_CODEC_STORE, map val_item vs)])"

lemma end_section_import:
  assumes "import_sim w vs" "vs \<noteq> []"
  shows "wvalid (\<lambda>_. True) (dtl_writer_end_section w) (\<lambda>(rc, w') _. rc \<in> size_errs \<or> rc = DTL_OK \<and> wr_err w' = DTL_OK \<and> \<not> wr_has_hmac w' \<and>
    writer_sim w' \<lparr>al_done = import_sections vs, al_open = None\<rparr>) E"
proof -
  have w: "wr_err w = DTL_OK" "\<not> wr_has_hmac w" "wr_in_section w" "wr_cur_codec w = DTL_CODEC_STORE" and sim: "writer_sim w (import_log_of vs)"
    using assms by (auto simp: import_sim_def import_log_of_def writer_sim_def open_of_def)
  have step: "wvalid (\<lambda>wd. (\<lambda>_. True) (w_mem wd)) (wmap snd (dtl_writer_end_section w)) (\<lambda>w' _. step_post mem_any WEnd (import_log_of vs) w') E" for mem_any E
    by (rule wvalid_snapshot) (rule wvalid_weaken [OF end_section_valid [OF sim]], simp_all)
  show ?thesis
  proof (rule wvalidI)
    fix wd assume wd: "world_ok wd"
    obtain r wd' where e: "dtl_writer_end_section w wd = (r, wd')" by force
    from wvalidD [OF step [of "w_mem wd" "\<lambda>_. False"] wd TrueI] e obtain rc w' where r: "r = Ok (rc, w')" "world_ok wd'"
      and post: "step_post (w_mem wd) WEnd (import_log_of vs) w'"
      by (cases r) (auto simp: wmap_def wbind_def wret_def)
    have "rc \<in> size_errs \<or> rc = DTL_OK \<and> wr_err w' = DTL_OK \<and> \<not> wr_has_hmac w'"
      using end_section_errs [OF w(1,3,4)] e r w(2) by (auto simp: results_def)
    moreover have "writer_sim w' \<lparr>al_done = import_sections vs, al_open = None\<rparr>" if "wr_err w' = DTL_OK"
      using post that assms(2) by (auto simp: step_post_def import_log_of_def import_sections_def split: if_splits)
    ultimately show "wpost (\<lambda>(rc, w') _. rc \<in> size_errs \<or> rc = DTL_OK \<and> wr_err w' = DTL_OK \<and> \<not> wr_has_hmac w' \<and>
        writer_sim w' \<lparr>al_done = import_sections vs, al_open = None\<rparr>) E (dtl_writer_end_section w wd)"
      using e r by auto
  qed
qed

lemma import_finish_valid:
  assumes "import_sim w vs"
  shows "wvalid (\<lambda>_. True) (import_finish (vs \<noteq> []) n w) (\<lambda>(buf, k) _. k = n \<and> holds_sections buf (import_sections vs)) (\<lambda>e. e \<in> size_errs)"
proof -
  let ?al = "\<lparr>al_done = import_sections vs, al_open = None\<rparr>"
  have last: "wvalid (\<lambda>_. True) (wbind (dtl_writer_finish w') (\<lambda>(rc, bytes, w).
          if rc \<noteq> DTL_OK then wfail rc else case bytes of None \<Rightarrow> wlift Ub | Some bytes \<Rightarrow> wret (bytes, n)))
      (\<lambda>(buf, k) _. k = n \<and> holds_sections buf (import_sections vs)) (\<lambda>e. e \<in> size_errs)"
    if "wr_err w' = DTL_OK" "\<not> wr_has_hmac w'" "writer_sim w' ?al" for w'
  proof -
    have "\<not> wr_in_section w'" using that by (auto simp: writer_sim_def open_of_def)
    from finish_holds [OF that(3,1,2) this] show ?thesis
      by (rule wvalid_bind) (auto simp: wvalid_def wret_def wfail_def split: option.splits prod.splits)
  qed
  show ?thesis
  proof (cases "vs = []")
    case True
    then show ?thesis using last [of w] assms by (simp add: import_finish_def import_sim_def import_log_of_def import_sections_def)
  next
    case False
    show ?thesis
      unfolding import_finish_def using False
    proof (simp only: if_True simp_thms, intro wvalid_bind [OF end_section_import [OF assms False]])
      fix x :: "dtl_err \<times> dtl_writer"
      obtain rc w' where "x = (rc, w')" by (cases x)
      then show "wvalid (case x of (rc, w') \<Rightarrow> \<lambda>_. rc \<in> size_errs \<or> rc = DTL_OK \<and> wr_err w' = DTL_OK \<and> \<not> wr_has_hmac w' \<and> writer_sim w' ?al)
        (case x of (rc, w) \<Rightarrow> if rc \<noteq> DTL_OK then wfail rc else wbind (dtl_writer_finish w) (\<lambda>(rc, bytes, w).
          if rc \<noteq> DTL_OK then wfail rc else case bytes of None \<Rightarrow> wlift Ub | Some bytes \<Rightarrow> wret (bytes, n)))
        (\<lambda>(buf, k) _. k = n \<and> holds_sections buf (import_sections vs)) (\<lambda>e. e \<in> size_errs)"
        using last [of w'] by (cases "rc = DTL_OK") (auto simp: wvalid_def wfail_def)
    qed
  qed
qed

text \<open>A walk over the finished container shows the imported values.\<close>

lemma import_sections_show:
  assumes "holds_sections buf (import_sections vs)" "list_all readable vs"
  shows "\<exists>items. walk_shows buf DTL_SECTION_MAX_RAW items \<and> seen_values items = vs"
proof -
  have "concat (map section_items (import_sections vs)) = map val_item vs" by (simp add: import_sections_def section_items_def)
  from holds_sections_shows [OF assms(1) this] assms(2) show ?thesis
    by (simp add: list_all_iff)
qed

end
