(* ===== verification/Report_Export.thy ===== *)
theory Report_Export
  imports Report_Import
begin

text \<open>
  \<^verbatim>\<open>src/report/export.c\<close>: the JSON printer and the export of a whole container in either format.  The
  stream \<open>out\<close> is the list of the bytes written to it; \<open>g6\<close> and \<open>g9\<close> are the conversions \<open>%.6g\<close> and
  \<open>%.9g\<close> of a float given by its bits.
\<close>

datatype dtl_export_format = DTL_EXPORT_CSV | DTL_EXPORT_JSON

subsection \<open>JSON\<close>

definition json_char :: "u8 \<Rightarrow> u8 list" where
  "json_char c = (if c = 0x22 then [0x5C, 0x22]
     else if c = 0x5C then [0x5C, 0x5C]
     else if c = 0x0A then [0x5C, 0x6E]
     else if c = 0x0D then [0x5C, 0x72]
     else if c = 0x09 then [0x5C, 0x74]
     else if c < 0x20 then [0x5C, 0x75] @ str (fmt_x 4 (unat c))
     else [c])"

definition dtl_export_json_string :: "u8 list \<Rightarrow> u8 list" where
  "dtl_export_json_string s = [0x22] @ concat (map json_char s) @ [0x22]"

definition quoted :: "string \<Rightarrow> u8 list" where "quoted s = [0x22] @ str s @ [0x22]"
definition member :: "string \<Rightarrow> u8 list" where "member name = str '','' @ quoted name @ str '':''"
definition member_u :: "string \<Rightarrow> 'a :: len word \<Rightarrow> u8 list" where "member_u name v = member name @ str (fmt_u (unat v))"
definition member_d :: "string \<Rightarrow> 'a :: len word \<Rightarrow> u8 list" where "member_d name v = member name @ str (fmt_d (sint v))"
definition member_hex :: "string \<Rightarrow> u8 list \<Rightarrow> u8 list" where "member_hex name hex = member name @ [0x22] @ hex @ [0x22]"
definition member_bool :: "string \<Rightarrow> u8 \<Rightarrow> u8 list" where
  "member_bool name v = member name @ (if v \<noteq> 0 then str ''true'' else str ''false'')"

fun json_samples :: "(u32 \<Rightarrow> u8 list) \<Rightarrow> mem \<Rightarrow> addr option \<Rightarrow> nat \<Rightarrow> nat \<Rightarrow> u8 list res" where
  "json_samples g9 m p i 0 = Ok []"
| "json_samples g9 m p i (Suc n) =
     rbind (case p of None \<Rightarrow> Ub | Some p \<Rightarrow> load_bytes m (fst p, snd p + 4 * i) 4) (\<lambda>bs.
     rbind (dtl_endian_read_u32le bs) (\<lambda>bits.
     rbind (json_samples g9 m p (i + 1) n) (\<lambda>out. Ok ((if i \<noteq> 0 then str '','' else []) @ g9 bits @ out))))"

fun json_pairs :: "mem \<Rightarrow> bool \<Rightarrow> nat \<Rightarrow> (addr \<times> addr) list \<Rightarrow> u8 list res" where
  "json_pairs m first 0 kvs = Ok []"
| "json_pairs m first (Suc n) [] = Ub"
| "json_pairs m first (Suc n) ((k, v) # kvs) =
     rbind (load_cstr m k) (\<lambda>k. rbind (load_cstr m v) (\<lambda>v. rbind (json_pairs m False n kvs) (\<lambda>out.
     Ok ((if first then [] else str '','') @ dtl_export_json_string k @ str '':'' @ dtl_export_json_string v @ out))))"

fun dtl_export_json_kv_tail :: "(u32 \<Rightarrow> u8 list) \<Rightarrow> mem \<Rightarrow> dtl_record \<Rightarrow> u8 list res" where
  "dtl_export_json_kv_tail g9 m (RHeartbeat h) = Ok (member_u ''uptime_s'' (hb_uptime_s h) @ member_u ''seq'' (hb_seq h))"
| "dtl_export_json_kv_tail g9 m (RSensor s) =
     rbind (json_samples g9 m (sen_samples s) 0 (unat (sen_count s))) (\<lambda>out.
     Ok (member_u ''sensor_id'' (sen_sensor_id s) @ member ''samples'' @ str ''['' @ out @ str '']''))"
| "dtl_export_json_kv_tail g9 m (REvent e) =
     rbind (dtl_export_hex m (ev_payload e) (unat (ev_payload_len e))) (\<lambda>hex.
     Ok (member_u ''code'' (ev_code e) @ member_hex ''payload_hex'' hex))"
| "dtl_export_json_kv_tail g9 m (RDiag d) =
     rbind (dtl_export_hex m (dg_blob d) (if dg_redacted d \<noteq> 0 then 0 else unat (dg_blob_len d))) (\<lambda>hex.
     Ok (member_u ''subsystem'' (dg_subsystem d) @ member_bool ''redacted'' (dg_redacted d) @ member_hex ''blob_hex'' hex))"
| "dtl_export_json_kv_tail g9 m (RGeo g) =
     Ok (member_d ''lat_e7'' (geo_lat_e7 g) @ member_d ''lon_e7'' (geo_lon_e7 g) @ member_d ''alt_mm'' (geo_alt_mm g))"
| "dtl_export_json_kv_tail g9 m (RBattery b) =
     Ok (member_u ''pct'' (bat_pct b) @ member_d ''temp_c_e1'' (bat_temp_c_e1 b) @ member_u ''cycles'' (bat_cycles b))"
| "dtl_export_json_kv_tail g9 m (RNet n) =
     Ok (member_u ''iface_id'' (net_iface_id n) @ member_u ''rx_bytes'' (net_rx_bytes n) @ member_u ''tx_bytes'' (net_tx_bytes n) @
         member_u ''rx_pkts'' (net_rx_pkts n) @ member_u ''tx_pkts'' (net_tx_pkts n))"
| "dtl_export_json_kv_tail g9 m (RLog l) =
     rbind (deref_bytes m (log_msg l) (unat (log_msg_len l))) (\<lambda>msg.
     Ok (member_u ''severity'' (log_severity l) @ member ''msg'' @ dtl_export_json_string msg))"
| "dtl_export_json_kv_tail g9 m (RConfig c) =
     rbind (json_pairs m True (unat (cfg_pair_count c)) (cfg_pairs c)) (\<lambda>out. Ok (member ''pairs'' @ str ''{'' @ out @ str ''}''))"
| "dtl_export_json_kv_tail g9 m (RKeyref k) =
     rbind (deref_bytes m (kr_label k) (if kr_redacted k \<noteq> 0 then 0 else unat (kr_label_len k))) (\<lambda>label.
     Ok (member_u ''slot_id'' (kr_slot_id k) @ member_bool ''redacted'' (kr_redacted k) @ member ''label'' @ dtl_export_json_string label))"
| "dtl_export_json_kv_tail g9 m (RFirmware f) =
     rbind (slice_at (fw_hash f) 0 8) (\<lambda>hash.
     Ok (member ''version'' @ [0x22] @ str (fmt_u (unat (fw_major f))) @ str ''.'' @ str (fmt_u (unat (fw_minor f))) @ str ''.'' @
         str (fmt_u (unat (fw_patch f))) @ [0x22] @ member_hex ''hash_hex'' (hex_bytes hash)))"

definition dtl_export_json_record :: "(u32 \<Rightarrow> u8 list) \<Rightarrow> mem \<Rightarrow> dtl_record \<Rightarrow> nat \<Rightarrow> bool \<Rightarrow> u8 list res" where
  "dtl_export_json_record g9 m r index first =
     rbind (dtl_export_json_kv_tail g9 m r) (\<lambda>tl.
     Ok ((if first then [] else str '','') @ [0x0A] @ str ''  {'' @ quoted ''index'' @ str '':'' @ str (fmt_u index) @
         member_u ''tag'' (rec_tag r) @ member ''type'' @ quoted (dtl_walk_tag_name (rec_tag r)) @ tl @ str ''}''))"

subsection \<open>The export\<close>

definition dtl_export_record :: "(u32 \<Rightarrow> u8 list) \<Rightarrow> (u32 \<Rightarrow> u8 list) \<Rightarrow> dtl_export_format \<Rightarrow> mem \<Rightarrow> dtl_record \<Rightarrow> nat \<Rightarrow> u8 list res" where
  "dtl_export_record g6 g9 fmt m r index =
     (if fmt = DTL_EXPORT_JSON then dtl_export_json_record g9 m r index True else dtl_export_csv_record g6 m r index)"

record dtl_export_ctx =
  ec_out :: "u8 list"
  ec_fmt :: dtl_export_format
  ec_emitted :: nat

definition dtl_export_on_record :: "(u32 \<Rightarrow> u8 list) \<Rightarrow> (u32 \<Rightarrow> u8 list) \<Rightarrow> dtl_export_ctx walk_fn" where
  "dtl_export_on_record g6 g9 ev ctx = (\<lambda>w.
     wbind (wlift (if ec_fmt ctx = DTL_EXPORT_JSON
              then dtl_export_json_record g9 (w_mem w) (we_rec ev) (we_record_index ev) (ec_emitted ctx = 0)
              else dtl_export_csv_record g6 (w_mem w) (we_rec ev) (we_record_index ev))) (\<lambda>text.
     wret (DTL_OK, ctx\<lparr>ec_out := ec_out ctx @ text, ec_emitted := ec_emitted ctx + 1\<rparr>)) w)"

definition dtl_export_file :: "(u32 \<Rightarrow> u8 list) \<Rightarrow> (u32 \<Rightarrow> u8 list) \<Rightarrow> files \<Rightarrow> string option \<Rightarrow> nat \<Rightarrow> dtl_export_format \<Rightarrow>
    (dtl_err \<times> u8 list) wm" where
  "dtl_export_file g6 g9 fs path max_file fmt =
     wbind (dtl_walk_file fs path max_file (walk_with (dtl_export_on_record g6 g9) None 0)
       \<lparr>ec_out = (if fmt = DTL_EXPORT_JSON then str ''['' else dtl_export_csv_header), ec_fmt = fmt, ec_emitted = 0\<rparr>) (\<lambda>(rc, ctx).
     wret (rc, ec_out ctx @ (if fmt = DTL_EXPORT_JSON then [0x0A] @ str '']'' @ [0x0A] else [])))"

definition dtl_export_parse_format :: "string \<Rightarrow> dtl_export_format option" where
  "dtl_export_parse_format name = (if name = ''csv'' then Some DTL_EXPORT_CSV else if name = ''json'' then Some DTL_EXPORT_JSON else None)"

subsection \<open>The text of a container\<close>

fun comma_join :: "u8 list list \<Rightarrow> u8 list" where
  "comma_join [] = []"
| "comma_join (x # xs) = x @ concat (map (Cons 0x2C) xs)"

text \<open>What a record that reads as \<open>v\<close> looks like, in either format.\<close>

fun json_members :: "(u32 \<Rightarrow> u8 list) \<Rightarrow> rec_val \<Rightarrow> u8 list" where
  "json_members g9 (VHeartbeat h) = member_u ''uptime_s'' (hb_uptime_s h) @ member_u ''seq'' (hb_seq h)"
| "json_members g9 (VSensor i bs) = member_u ''sensor_id'' i @ member ''samples'' @ str ''['' @
     comma_join (map g9 (words bs)) @ str '']''"
| "json_members g9 (VEvent c bs) = member_u ''code'' c @ member_hex ''payload_hex'' (hex_bytes bs)"
| "json_members g9 (VDiag c bs) = member_u ''subsystem'' c @ member_bool ''redacted'' 0 @ member_hex ''blob_hex'' (hex_bytes bs)"
| "json_members g9 (VGeo g) = member_d ''lat_e7'' (geo_lat_e7 g) @ member_d ''lon_e7'' (geo_lon_e7 g) @ member_d ''alt_mm'' (geo_alt_mm g)"
| "json_members g9 (VBattery b) = member_u ''pct'' (bat_pct b) @ member_d ''temp_c_e1'' (bat_temp_c_e1 b) @ member_u ''cycles'' (bat_cycles b)"
| "json_members g9 (VNet n) = member_u ''iface_id'' (net_iface_id n) @ member_u ''rx_bytes'' (net_rx_bytes n) @
     member_u ''tx_bytes'' (net_tx_bytes n) @ member_u ''rx_pkts'' (net_rx_pkts n) @ member_u ''tx_pkts'' (net_tx_pkts n)"
| "json_members g9 (VLog s msg) = member_u ''severity'' s @ member ''msg'' @ dtl_export_json_string msg"
| "json_members g9 (VConfig kvs) = member ''pairs'' @ str ''{'' @
     comma_join (map (\<lambda>(k, v). dtl_export_json_string k @ str '':'' @ dtl_export_json_string v) kvs) @ str ''}''"
| "json_members g9 (VKeyref s l) = member_u ''slot_id'' s @ member_bool ''redacted'' 0 @ member ''label'' @ dtl_export_json_string l"
| "json_members g9 (VFirmware f) = member ''version'' @ [0x22] @ str (fmt_u (unat (fw_major f))) @ str ''.'' @
     str (fmt_u (unat (fw_minor f))) @ str ''.'' @ str (fmt_u (unat (fw_patch f))) @ [0x22] @ member_hex ''hash_hex'' (hex_bytes (fw_hash f))"

definition json_object :: "(u32 \<Rightarrow> u8 list) \<Rightarrow> nat \<Rightarrow> rec_val \<Rightarrow> u8 list" where
  "json_object g9 i v = str ''  {'' @ quoted ''index'' @ str '':'' @ str (fmt_u i) @ member_u ''tag'' (val_tag v) @
     member ''type'' @ quoted (dtl_walk_tag_name (val_tag v)) @ json_members g9 v @ str ''}''"

lemma json_samples_text:
  assumes "load_bytes m p (4 * (i + n)) = Ok bs"
  shows "json_samples g9 m (Some p) i n = Ok (let ts = map g9 (words (drop (4 * i) bs)) in if i = 0 then comma_join ts else concat (map (Cons 0x2C) ts))"
  using assms
proof (induction n arbitrary: i)
  case 0
  then have "length bs = 4 * i" using load_bytes_region by fastforce
  then show ?case by simp
next
  case (Suc n)
  have len: "length bs = 4 * (i + Suc n)" using load_bytes_region [OF Suc.prems] by simp
  obtain v where v: "dtl_endian_read_u32le (take 4 (drop (4 * i) bs)) = Ok v" "words (drop (4 * i) bs) = v # words (drop (4 * (i + 1)) bs)"
    using words_step [of "drop (4 * i) bs"] len by (auto simp: add.commute)
  have "load_bytes m (fst p, snd p + 4 * i) 4 = Ok (take 4 (drop (4 * i) bs))"
    using load_piece [OF Suc.prems, of "4 * i"] by simp
  with Suc.IH [of "i + 1"] Suc.prems v show ?case by (simp add: Let_def comma o_def)
qed

lemma json_pairs_text:
  "deref_pairs m kvs = Ok vs \<Longrightarrow> json_pairs m first (length kvs) kvs =
    Ok (let ts = map (\<lambda>(k, v). dtl_export_json_string k @ str '':'' @ dtl_export_json_string v) vs
        in if first then comma_join ts else concat (map (Cons 0x2C) ts))"
  by (induction m kvs arbitrary: vs first rule: deref_pairs.induct) (auto simp: rbind_eq_Ok_iff Let_def comma o_def)

lemma export_members:
  assumes "record_view m r = Ok v" "rec_shape r" "unredacted r"
  shows "dtl_export_json_kv_tail g9 m r = Ok (json_members g9 v)"
proof (cases r)
  case (RSensor s)
  then obtain bs where bs: "deref_bytes m (sen_samples s) (unat (sen_count s) * 4) = Ok bs" "v = VSensor (sen_sensor_id s) bs"
    using assms(1) by (auto simp: rbind_eq_Ok_iff)
  show ?thesis
  proof (cases "sen_count s = 0")
    case True
    then show ?thesis using bs RSensor by (simp add: deref_bytes_def)
  next
    case False
    then obtain p where p: "sen_samples s = Some p" "load_bytes m p (4 * (0 + unat (sen_count s))) = Ok bs"
      using bs(1) by (auto simp: deref_bytes_def mult.commute unat_eq_zero split: option.splits)
    from json_samples_text [OF p(2), of g9] p(1) bs(2) RSensor show ?thesis by (simp add: Let_def)
  qed
next
  case (RConfig c)
  then obtain vs where vs: "deref_pairs m (cfg_pairs c) = Ok vs" "v = VConfig vs" using assms(1) by (auto simp: rbind_eq_Ok_iff)
  from json_pairs_text [OF vs(1), of True] vs(2) assms(2) RConfig show ?thesis by (simp add: Let_def)
qed (use assms in \<open>auto simp: rbind_eq_Ok_iff dtl_export_hex_def\<close>)

lemma export_json_text:
  assumes "record_view m r = Ok v" "rec_shape r" "unredacted r"
  shows "dtl_export_json_record g9 m r i first = Ok ((if first then [] else [0x2C]) @ [0x0A] @ json_object g9 i v)"
  using export_members [OF assms, of g9] export_row [OF assms] by (simp add: dtl_export_json_record_def json_object_def comma)

text \<open>The abstract export: the text of the values a walk shows, with their record numbers.\<close>

definition exported_text :: "(u32 \<Rightarrow> u8 list) \<Rightarrow> (u32 \<Rightarrow> u8 list) \<Rightarrow> dtl_export_format \<Rightarrow> nat \<Rightarrow> bool \<Rightarrow> rec_val \<Rightarrow> u8 list" where
  "exported_text g6 g9 fmt i first v = (case fmt of
     DTL_EXPORT_JSON \<Rightarrow> (if first then [] else [0x2C]) @ [0x0A] @ json_object g9 i v
   | DTL_EXPORT_CSV \<Rightarrow> row_text (value_row g6 i v) @ [0x0A])"

definition export_head :: "dtl_export_format \<Rightarrow> u8 list" where
  "export_head fmt = (if fmt = DTL_EXPORT_JSON then str ''['' else dtl_export_csv_header)"

definition export_foot :: "dtl_export_format \<Rightarrow> u8 list" where
  "export_foot fmt = (if fmt = DTL_EXPORT_JSON then [0x0A] @ str '']'' @ [0x0A] else [])"

fun export_step :: "(u32 \<Rightarrow> u8 list) \<Rightarrow> (u32 \<Rightarrow> u8 list) \<Rightarrow> dtl_export_format \<Rightarrow> walk_item \<Rightarrow> u8 list \<times> nat \<Rightarrow> u8 list \<times> nat" where
  "export_step g6 g9 fmt (Seen ev) (out, n) = (out @ exported_text g6 g9 fmt (we_record_index ev) (n = 0) (we_rec ev), n + 1)"
| "export_step g6 g9 fmt (Failed e) s = s"

definition export_rel :: "dtl_export_format \<Rightarrow> dtl_export_ctx \<Rightarrow> u8 list \<times> nat \<Rightarrow> bool" where
  "export_rel fmt ctx s \<longleftrightarrow> ec_fmt ctx = fmt \<and> (ec_out ctx, ec_emitted ctx) = s"

lemma fresh_unredacted: "fresh_rec r \<Longrightarrow> unredacted r \<and> rec_shape r"
  by (cases r) auto

interpretation export: walk_client "dtl_export_on_record g6 g9" None "export_rel fmt" "export_step g6 g9 fmt" for g6 g9 fmt
proof unfold_locales
  fix ctx s r v sec si n i assume rel: "export_rel fmt ctx s" and fresh: "fresh_rec r"
  show "wvalid (\<lambda>w. record_view (w_mem w) r = Ok v) (dtl_export_on_record g6 g9 (mk_event sec si n i r) ctx)
      (\<lambda>(rc, ctx') w. rc = DTL_OK \<and> export_rel fmt ctx' (export_step g6 g9 fmt (Seen (mk_event sec si n i v)) s) \<or> rc = DTL_ERR_OOM) (\<lambda>_. False)"
  proof (rule wvalidI)
    fix w assume w: "world_ok w" and v: "record_view (w_mem w) r = Ok v"
    have shape: "rec_shape r" "unredacted r" using fresh_unredacted [OF fresh] by simp_all
    show "wpost (\<lambda>(rc, ctx') w. rc = DTL_OK \<and> export_rel fmt ctx' (export_step g6 g9 fmt (Seen (mk_event sec si n i v)) s) \<or> rc = DTL_ERR_OOM)
        (\<lambda>_. False) (dtl_export_on_record g6 g9 (mk_event sec si n i r) ctx w)"
      using w rel export_record_row [OF v shape] export_json_text [OF v shape]
      by (cases fmt; cases s) (auto simp: dtl_export_on_record_def wret_def export_rel_def exported_text_def)
  qed
qed (simp_all add: export_rel_def)

lemma export_folds:
  "fold (export_step g6 g9 fmt) items (out, n) =
     (out @ concat (map (\<lambda>(k, ev). exported_text g6 g9 fmt (we_record_index ev) (k = 0) (we_rec ev)) (enumerate n (seen_events items))),
      n + length (seen_events items))"
proof (induction items arbitrary: out n)
  case (Cons it items)
  then show ?case by (cases it) simp_all
qed simp

lemma export_file_exact:
  assumes "world_ok w" "\<And>data. file_bytes fs path max_file = Ok data \<Longrightarrow> decodes_safely data"
  shows "\<exists>rc out w'. dtl_export_file g6 g9 fs path max_file fmt w = (Ok (rc, out), w') \<and> world_ok w' \<and>
    (rc = DTL_OK \<longrightarrow> (\<exists>data items. file_bytes fs path max_file = Ok data \<and> walk_shows data DTL_WALK_DEFAULT_MAX_DECODE items \<and>
       out = export_head fmt @ concat (map (\<lambda>(k, ev). exported_text g6 g9 fmt (we_record_index ev) (k = 0) (we_rec ev))
         (enumerate 0 (seen_events items))) @ export_foot fmt))"
proof -
  let ?ctx = "\<lparr>ec_out = (if fmt = DTL_EXPORT_JSON then str ''['' else dtl_export_csv_header), ec_fmt = fmt, ec_emitted = 0\<rparr>"
  have "export_rel fmt ?ctx (export_head fmt, 0)" by (simp add: export_rel_def export_head_def)
  from file_run [OF export.walk_file_default [OF assms(2) this] assms(1)]
  obtain rc u w' where run: "dtl_walk_file fs path max_file (walk_with (dtl_export_on_record g6 g9) None 0) ?ctx w = (Ok (rc, u), w')" "world_ok w'"
    and post: "file_post (export_rel fmt) (export_step g6 g9 fmt) DTL_WALK_DEFAULT_MAX_DECODE fs path max_file (export_head fmt, 0) (rc, u)"
    by (metis (no_types, lifting))
  have "\<exists>data items. file_bytes fs path max_file = Ok data \<and> walk_shows data DTL_WALK_DEFAULT_MAX_DECODE items \<and>
      ec_out u = export_head fmt @ concat (map (\<lambda>(k, ev). exported_text g6 g9 fmt (we_record_index ev) (k = 0) (we_rec ev)) (enumerate 0 (seen_events items)))"
    if "rc = DTL_OK"
    using file_post_OK [OF post [unfolded that]] by (auto simp: export_folds export_rel_def)
  with run show ?thesis
    by (fastforce simp: dtl_export_file_def export_foot_def wbind_def wret_def)
qed

end
