(* ===== verification/Report_Csv_Trip.thy ===== *)
theory Report_Csv_Trip
  imports Report_Export
begin

text \<open>
  The CSV importer undoes the CSV exporter: the rows of values that fit a row are tokenized, rebuilt and
  written, and the container that results shows the same values in the same order.
\<close>

subsection \<open>The cells of a value are well formed\<close>

lemma length_digits: "n < 10 ^ k \<Longrightarrow> 0 < k \<Longrightarrow> length (digits 10 n) \<le> k"
proof (induction k arbitrary: n)
  case (Suc k)
  show ?case
  proof (cases "n < 10")
    case True
    then show ?thesis by (subst digits.simps) simp
  next
    case False
    then have d: "digits 10 n = digits 10 (n div 10) @ [digit (n mod 10)]" by (subst digits.simps) simp
    have "0 < k" using False Suc.prems by (cases k) auto
    moreover have "n div 10 < 10 ^ k" using Suc.prems by (simp add: div_less_iff_less_mult mult.commute)
    ultimately show ?thesis using Suc.IH [of "n div 10"] d by simp
  qed
qed simp

lemma length_fmt_u: "n < 2 ^ 64 \<Longrightarrow> length (fmt_u n) \<le> 20"
  unfolding fmt_u_def by (rule length_digits) simp_all

lemma plain_cell_ok: "list_all plain_char s \<Longrightarrow> length s \<le> 4095 \<Longrightarrow> cell_ok (False, s)"
  by (auto simp: cell_ok_def list_all_iff plain_char_def)

lemma u_cell_ok: "LENGTH('a :: len) \<le> 64 \<Longrightarrow> cell_ok (u_cell (v :: 'a word))"
proof -
  assume "LENGTH('a) \<le> 64"
  then have "unat v < 2 ^ 64" by (intro order_less_le_trans [OF unsigned_less] power_increasing) simp_all
  then show ?thesis unfolding u_cell_def using length_fmt_u [of "unat v"] by (intro plain_cell_ok plain_u) simp
qed

lemma d_cell_ok: "LENGTH('a :: len) \<le> 32 \<Longrightarrow> cell_ok (d_cell (v :: 'a word))"
proof -
  assume l: "LENGTH('a) \<le> 32"
  have "nat (- sint v) < 2 ^ 64" "nat (sint v) < 2 ^ 64" using sint_i32 [OF l, of v] by auto
  then have "length (fmt_d (sint v)) \<le> 21" 
    using length_fmt_u [of "nat (- sint v)"] length_fmt_u [of "nat (sint v)"] by (auto simp: fmt_d_def)
  then show ?thesis unfolding d_cell_def by (intro plain_cell_ok plain_d) simp
qed

lemma empty_cell_ok: "cell_ok (False, [])"
  by (simp add: cell_ok_def)

lemma csv_cells_ok: "csv_ok sf g6 v \<Longrightarrow> list_all cell_ok (csv_cells g6 v) \<and> length (csv_cells g6 v) \<le> 6"
proof (cases v)
  case (VSensor i bs)
  moreover assume "csv_ok sf g6 v"
  ultimately have "length (words bs) \<le> 4" "\<forall>b \<in> set (take 4 (words bs)). cell_ok (False, g6 b)"
    by (auto simp: length_words list_all_iff intro!: plain_cell_ok dest: in_set_takeD)
  with VSensor show ?thesis by (auto simp: u_cell_ok list_all_iff)
next
  case (VConfig kvs)
  moreover assume "csv_ok sf g6 v"
  ultimately have l: "length kvs \<le> 2" "\<forall>(k, v) \<in> set kvs. cell_ok (True, k) \<and> cell_ok (True, v)"
    by (auto simp: csv_string_ok_def cell_ok_def list_all_iff)
  moreover have "length (concat (map (\<lambda>(k, v). [(True, k), (True, v)]) kvs)) = 2 * length kvs" by (induction kvs) auto
  ultimately show ?thesis using VConfig by (auto simp: u_cell_ok list_all_iff)
qed (auto simp: u_cell_ok d_cell_ok empty_cell_ok list_all_iff csv_string_ok_def intro!: plain_cell_ok [OF plain_hex] simp: cell_ok_def [of "(True, _)"])

lemma tag_name_ok: "cell_ok (False, str (dtl_walk_tag_name (val_tag v)))"
  by (cases v) (simp_all add: dtl_walk_tag_name_def rec_tags cell_ok_def plain_char_def ch_def)

text \<open>The line of a value fits the line buffer.\<close>

definition csv_line_ok :: "(u8 list \<Rightarrow> u32 option) \<Rightarrow> (u32 \<Rightarrow> u8 list) \<Rightarrow> nat \<Rightarrow> rec_val \<Rightarrow> bool" where
  "csv_line_ok sf g6 i v \<longleftrightarrow> csv_ok sf g6 v \<and> i < 2 ^ 64 \<and> length (row_text (value_row g6 i v)) < IMPORT_LINE_CAP"

lemma value_row_ok:
  assumes "csv_line_ok sf g6 i v"
  shows "list_all cell_ok (value_row g6 i v)" "length (value_row g6 i v) \<le> 8" "value_row g6 i v \<noteq> []"
proof -
  have "cell_ok (False, str (fmt_u i))"
    using assms length_fmt_u [of i] by (intro plain_cell_ok plain_u) (simp add: csv_line_ok_def)
  then show "list_all cell_ok (value_row g6 i v)" "length (value_row g6 i v) \<le> 8" "value_row g6 i v \<noteq> []"
    using assms csv_cells_ok [of sf g6 v] tag_name_ok [of v] by (auto simp: value_row_def csv_line_ok_def)
qed

lemma cell_clean: "cell_ok c \<Longrightarrow> 0x0A \<notin> set (cell_text c) \<and> 0 \<notin> set (cell_text c)"
  by (auto simp: cell_ok_def cell_text_def dtl_export_csv_string_def)

lemma row_clean:
  assumes "list_all cell_ok cs" "cs \<noteq> []"
  shows "0x0A \<notin> set (row_text cs)" "0 \<notin> set (row_text cs)"
proof -
  have "0x0A \<notin> set (row_tail ds) \<and> 0 \<notin> set (row_tail ds)" if "list_all cell_ok ds" for ds
    using that by (induction ds) (auto simp: cell_clean)
  then show "0x0A \<notin> set (row_text cs)" "0 \<notin> set (row_text cs)"
    using assms cell_clean [of "hd cs"] by (cases cs; auto simp: row_text_def)+
qed

lemma cell_no_cr: "cell_ok c \<Longrightarrow> cell_text c \<noteq> [] \<Longrightarrow> last (cell_text c) \<noteq> 0x0D"
proof (cases "fst c")
  case False
  moreover assume "cell_ok c" "cell_text c \<noteq> []"
  ultimately have "list_all plain_char (cell_text c)" "last (cell_text c) \<in> set (cell_text c)" by (simp_all add: cell_ok_def cell_text_def)
  then show ?thesis by (auto simp: list_all_iff plain_char_def)
qed (simp add: cell_text_def dtl_export_csv_string_def)

lemma tail_no_cr: "list_all cell_ok ds \<Longrightarrow> ds \<noteq> [] \<Longrightarrow> row_tail ds \<noteq> [] \<and> last (row_tail ds) \<noteq> 0x0D"
proof (induction ds)
  case (Cons c ds)
  then show ?case using cell_no_cr [of c] by (cases "ds = []") auto
qed simp

lemma strip_cr_id: "l \<noteq> [] \<Longrightarrow> last l \<noteq> 0x0D \<Longrightarrow> strip_cr l = l"
  by (cases l rule: rev_cases) (simp_all add: strip_cr_def)

lemma parse_cells:
  assumes "list_all cell_ok cs" "cs \<noteq> []" "length cs \<le> 8" "row_text cs \<noteq> []"
  shows "dtl_csv_parse_row (row_text cs @ [0]) = Ok (map snd cs)"
  using fields_cells [OF assms(1,2), of 8 "[]"] row_clean(2) [OF assms(1,2)] assms(3,4)
  by (cases "row_text cs") (auto simp: dtl_csv_parse_row_def DTL_IMPORT_MAX_FIELDS_def)

subsection \<open>Importing the line of a value\<close>

definition csv_state :: "nat \<Rightarrow> rec_val list \<Rightarrow> csv_import \<Rightarrow> bool" where
  "csv_state k vs st \<longleftrightarrow> ci_line_no st = k \<and> ci_imported st = length vs \<and> ci_open st = (vs \<noteq> []) \<and> import_sim (ci_writer st) vs"

lemma import_add_valid:
  assumes "csv_state k vs st"
  shows "wvalid (\<lambda>w. record_view (w_mem w) r = Ok v \<and> rec_shape r \<and> rec_tag r = val_tag v) (import_add r st)
    (\<lambda>st' _. csv_state k (vs @ [v]) st') (\<lambda>e. e \<in> size_errs)"
proof (rule wvalidI)
  fix w assume w: "world_ok w" and r: "record_view (w_mem w) r = Ok v \<and> rec_shape r \<and> rec_tag r = val_tag v"
  note m = world_ok_mem [OF w]
  have "wvalid (ext (w_mem w)) (import_add r st) (\<lambda>st' _. csv_state k (vs @ [v]) st') (\<lambda>e. e \<in> size_errs)"
    unfolding import_add_def
    using assms emit_import [of "w_mem w" r v "ci_writer st" vs] m r
    by (intro wvalid_bind [where R = "\<lambda>w' _. import_sim w' (vs @ [v])"]) (auto simp: csv_state_def intro!: wvalid_ret)
  from wvalidD [OF this w heap_ext_refl [OF m]] show "wpost (\<lambda>st' _. csv_state k (vs @ [v]) st') (\<lambda>e. e \<in> size_errs) (import_add r st w)" .
qed

lemma import_line_valid:
  assumes "csv_line_ok sf g6 i v" "csv_state (Suc k) vs st"
  shows "wvalid (\<lambda>_. True) (import_line sf (row_text (value_row g6 i v)) st) (\<lambda>st' _. csv_state (Suc (Suc k)) (vs @ [v]) st') (\<lambda>e. e \<in> size_errs)"
proof -
  let ?line = "row_text (value_row g6 i v)"
  note row = value_row_ok [OF assms(1)]
  have "tl (value_row g6 i v) \<noteq> []" "list_all cell_ok (tl (value_row g6 i v))"
    using row by (auto simp: value_row_def)
  then have "?line \<noteq> []" "last ?line \<noteq> 0x0D" using tail_no_cr [of "tl (value_row g6 i v)"] by (auto simp: row_text_def)
  then have strip: "strip_cr ?line = ?line" "?line \<noteq> []" by (simp_all add: strip_cr_id)
  have parse: "dtl_csv_parse_row (?line @ [0]) = Ok (map snd (value_row g6 i v))"
    by (rule parse_cells [OF row(1,3,2) strip(2)])
  let ?st = "st\<lparr>ci_line_no := ci_line_no st + 1\<rparr>"
  have st: "csv_state (Suc (Suc k)) vs ?st" using assms(2) by (simp add: csv_state_def)
  have y: "wvalid (\<lambda>_. True) (dtl_import_row sf (map snd (value_row g6 i v)))
      (\<lambda>r w. record_view (w_mem w) r = Ok v \<and> rec_shape r \<and> rec_tag r = val_tag v) (\<lambda>e. e \<in> size_errs)"
    by (rule wvalid_weaken [OF import_row_yields [of sf g6 v i, unfolded yields_def]]) (use assms(1) in \<open>auto simp: csv_line_ok_def\<close>)
  have "import_line sf ?line st = wbind (dtl_import_row sf (map snd (value_row g6 i v))) (\<lambda>r. import_add r ?st)"
    using assms strip by (simp add: import_line_def Let_def parse csv_line_ok_def csv_state_def)
  then show ?thesis using wvalid_bind [OF y import_add_valid [OF st]] by simp
qed

lemma take_line_row: "0x0A \<notin> set l \<Longrightarrow> take_line (l @ 0x0A # rest) = (l, rest)"
  by (induction l) auto

text \<open>The lines of values, numbered in any way.\<close>

definition csv_lines :: "(u32 \<Rightarrow> u8 list) \<Rightarrow> (nat \<times> rec_val) list \<Rightarrow> u8 list" where
  "csv_lines g6 ivs = concat (map (\<lambda>(i, v). row_text (value_row g6 i v) @ [0x0A]) ivs)"

lemma import_lines_valid:
  assumes "list_all (\<lambda>(i, v). csv_line_ok sf g6 i v) ivs" "csv_state (Suc k) vs st"
  shows "wvalid (\<lambda>_. True) (import_lines sf (csv_lines g6 ivs) st) (\<lambda>st' _. \<exists>k. csv_state k (vs @ map snd ivs) st') (\<lambda>e. e \<in> size_errs)"
  using assms
proof (induction ivs arbitrary: k vs st)
  case Nil
  then show ?case by (subst import_lines.simps) (auto simp: csv_lines_def intro!: wvalid_ret)
next
  case (Cons iv ivs)
  obtain i v where iv: "iv = (i, v)" by (cases iv)
  then have ok: "csv_line_ok sf g6 i v" using Cons.prems by simp
  have t: "csv_lines g6 (iv # ivs) = row_text (value_row g6 i v) @ 0x0A # csv_lines g6 ivs" by (simp add: csv_lines_def iv)
  have "0x0A \<notin> set (row_text (value_row g6 i v))" using row_clean(1) value_row_ok [OF ok] by blast
  from take_line_row [OF this] have un: "import_lines sf (csv_lines g6 (iv # ivs)) st =
      wbind (import_line sf (row_text (value_row g6 i v)) st) (import_lines sf (csv_lines g6 ivs))"
    by (subst import_lines.simps) (simp add: t)
  have "wvalid (\<lambda>_. csv_state (Suc (Suc k)) (vs @ [v]) st') (import_lines sf (csv_lines g6 ivs) st')
      (\<lambda>st' _. \<exists>k. csv_state k (vs @ map snd (iv # ivs)) st') (\<lambda>e. e \<in> size_errs)" for st'
    by (rule wvalid_given) (use Cons.IH [of "Suc k" "vs @ [v]" st'] Cons.prems(1) iv in simp)
  then show ?case unfolding un by (rule wvalid_bind [OF import_line_valid [OF ok Cons.prems(2)]])
qed

lemma import_csv_valid:
  assumes "list_all (\<lambda>(i, v). csv_line_ok sf g6 i v) ivs"
  shows "wvalid (\<lambda>_. True) (dtl_import_csv_memory sf (dtl_export_csv_header @ csv_lines g6 ivs))
    (\<lambda>(buf, n) _. n = length ivs \<and> holds_sections buf (import_sections (map snd ivs))) (\<lambda>e. e \<in> size_errs)"
proof -
  let ?st = "\<lparr>ci_line_no = 0, ci_imported = 0, ci_open = False, ci_writer = dtl_writer_init\<rparr>"
  let ?head = "str ''index,tag,f0,f1,f2,f3,f4,f5''"
  have nl: "0x0A \<notin> set ?head" and cr: "?head \<noteq> []" "last ?head \<noteq> 0x0D" by (simp_all add: ch_def)
  have line: "import_line sf ?head ?st = wret (?st\<lparr>ci_line_no := 1\<rparr>)"
    using strip_cr_id [OF cr] by (simp add: import_line_def IMPORT_LINE_CAP_def Let_def)
  have "import_lines sf (dtl_export_csv_header @ csv_lines g6 ivs) ?st = import_lines sf (csv_lines g6 ivs) (?st\<lparr>ci_line_no := 1\<rparr>)"
    using take_line_row [OF nl, of "csv_lines g6 ivs"] line by (subst import_lines.simps) (simp add: dtl_export_csv_header_def)
  moreover have "csv_state (Suc 0) [] (?st\<lparr>ci_line_no := 1\<rparr>)" by (simp add: csv_state_def import_sim_init)
  ultimately have "wvalid (\<lambda>_. True) (import_lines sf (dtl_export_csv_header @ csv_lines g6 ivs) ?st)
      (\<lambda>st _. \<exists>k. csv_state k (map snd ivs) st) (\<lambda>e. e \<in> size_errs)"
    using import_lines_valid [OF assms, of 0 "[]"] by simp
  moreover have "wvalid (\<lambda>_. \<exists>k. csv_state k (map snd ivs) st) (import_finish (ci_open st) (ci_imported st) (ci_writer st))
      (\<lambda>(buf, n) _. n = length ivs \<and> holds_sections buf (import_sections (map snd ivs))) (\<lambda>e. e \<in> size_errs)" for st
    by (rule wvalid_given) (use import_finish_valid [of "ci_writer st" "map snd ivs" "length ivs"] in \<open>auto simp: csv_state_def\<close>)
  ultimately show ?thesis unfolding dtl_import_csv_memory_def by (rule wvalid_bind)
qed

subsection \<open>Properties\<close>

text \<open>
  C36. The row tokenizer: on every line it stays inside the line and its arrays (at most 8 fields of at most
  4095 characters), and it inverts how the exporter joins and quotes cells: a row of one to eight cells
  whose contents have no NUL and no newline, and no comma or quote outside quotes, is split into exactly
  those contents.
\<close>

theorem csv_tokenizer_exact:
  "dtl_csv_parse_row (line @ [0]) \<noteq> Ub \<and>
   (\<forall>row. dtl_csv_parse_row (line @ [0]) = Ok row \<longrightarrow> length row \<le> 8 \<and> list_all (\<lambda>f. length f \<le> 4095) row) \<and>
   (\<forall>cs. list_all cell_ok cs \<and> cs \<noteq> [] \<and> length cs \<le> 8 \<and> line = row_text cs \<and> line \<noteq> [] \<longrightarrow>
      dtl_csv_parse_row (line @ [0]) = Ok (map snd cs))"
proof (intro conjI)
  have "0 \<in> set (line @ [0])" by simp
  from fields_bounds [OF this, of "[]" 8]
  have b: "csv_fields 8 [] (line @ [0]) \<noteq> Ub"
    "\<And>r. csv_fields 8 [] (line @ [0]) = Ok r \<Longrightarrow> length r \<le> 8 \<and> list_all (\<lambda>f. length f \<le> 4095) r" by simp_all
  have row: "dtl_csv_parse_row (line @ [0]) =
      (if hd (line @ [0]) = 0 then Err DTL_ERR_TRUNCATED else csv_fields 8 [] (line @ [0]))"
    by (simp add: dtl_csv_parse_row_def DTL_IMPORT_MAX_FIELDS_def split: list.split)
  show "dtl_csv_parse_row (line @ [0]) \<noteq> Ub" using b(1) by (simp add: row)
  show "\<forall>row. dtl_csv_parse_row (line @ [0]) = Ok row \<longrightarrow> length row \<le> 8 \<and> list_all (\<lambda>f. length f \<le> 4095) row"
    using b(2) by (simp add: row)
qed (use parse_cells in blast)

theorem csv_tokenizer_exact_witness:
  "dtl_csv_parse_row (row_text [(False, str ''7''), (True, str ''a,b'' @ [0x22])] @ [0]) = Ok [str ''7'', str ''a,b'' @ [0x22]]"
proof -
  have "row_text [(False, str ''7''), (True, str ''a,b'' @ [0x22])] \<noteq> []"
    "list_all cell_ok [(False, str ''7''), (True, str ''a,b'' @ [0x22])]"
    by (simp_all add: row_text_def cell_ok_def plain_char_def ch_def)
  then show ?thesis using csv_tokenizer_exact [of "row_text [(False, str ''7''), (True, str ''a,b'' @ [0x22])]"] by fastforce
qed

text \<open>A container whose records all fit CSV rows.\<close>

definition csv_container :: "(u8 list \<Rightarrow> u32 option) \<Rightarrow> (u32 \<Rightarrow> u8 list) \<Rightarrow> u8 list \<Rightarrow> bool" where
  "csv_container sf g6 data \<longleftrightarrow> (\<forall>items. walk_shows data DTL_WALK_DEFAULT_MAX_DECODE items \<longrightarrow>
     list_all (\<lambda>ev. csv_line_ok sf g6 (we_record_index ev) (we_rec ev) \<and> readable (we_rec ev)) (seen_events items))"

lemma export_csv_lines:
  "concat (map (\<lambda>(k, ev). exported_text g6 g9 DTL_EXPORT_CSV (we_record_index ev) (k = 0) (we_rec ev)) (enumerate n evs)) =
     csv_lines g6 (map (\<lambda>ev. (we_record_index ev, we_rec ev)) evs)"
  by (induction evs arbitrary: n) (simp_all add: csv_lines_def exported_text_def)


lemma beat_csv: "csv_container sf g6 (stored_container 1 beat_stream)"
  unfolding csv_container_def
proof (intro allI impI)
  fix items assume s: "walk_shows (stored_container 1 beat_stream) DTL_WALK_DEFAULT_MAX_DECODE items"
  let ?v = "VHeartbeat \<lparr>hb_uptime_s = 60, hb_seq = 1\<rparr>"
  obtain rd where rd: "stream_reads beat_stream rd" "items = number_records (bind_blob 28 (stored_section 1 beat_stream)) 0 0 0 rd"
    using stored_reads [OF _ _ s] by (auto simp: length_beat_stream)
  have "tlv_wf (rec_tlv ?v)" by (simp add: tlv_wf_def rec_tlv_def)
  from stream_reads_one [OF this rd(1) [unfolded beat_stream_def]] obtain r where r: "rd = [r]" "tlv_reads (rec_tlv ?v) r" by blast
  have line: "csv_line_ok sf g6 0 (VHeartbeat h)" for h
  proof -
    have "unat (hb_uptime_s h) < 2 ^ 64" "unat (hb_seq h) < 2 ^ 64" by (rule order_less_le_trans [OF unsigned_less], simp)+
    then have "length (fmt_u (unat (hb_uptime_s h))) \<le> 20" "length (fmt_u (unat (hb_seq h))) \<le> 20" "length (fmt_u 0) \<le> 20"
      using length_fmt_u by simp_all
    then show ?thesis
      by (simp add: csv_line_ok_def row_text_def value_row_def replicate_cells IMPORT_LINE_CAP_def dtl_walk_tag_name_def)
  qed
  show "list_all (\<lambda>ev. csv_line_ok sf g6 (we_record_index ev) (we_rec ev) \<and> readable (we_rec ev)) (seen_events items)"
  proof (cases r)
    case (Inr v)
    with r(2) obtain v0 where "val_tag v0 = DTL_REC_HEARTBEAT" "v = c_strings v0" "val_wf v0" by (auto simp: tlv_reads_def)
    then obtain h where "v = VHeartbeat h" by (cases v0) (auto simp: rec_tags)
    with line [of h] Inr rd(2) r(1) flat_readable [of v] show ?thesis by simp
  qed (use rd(2) r(1) in \<open>simp add: mk_failed_def\<close>)
qed



text \<open>A store into an object keeps its size, so reading more than the size stays undefined.\<close>

lemma short_block_read:
  assumes "c_malloc m k = (Some b, m1)" "store_bytes m1 (b, 0) bs = Ok m2" "k < n"
  shows "load_bytes m2 (b, 0) n = Ub"
proof -
  have "\<not> region_ok m1 (b, 0) n" using c_malloc_obj [OF assms(1)] assms(3) by (simp add: region_ok_def)
  then show ?thesis unfolding store_bytes_region_ok [OF assms(2), symmetric]
    by (auto simp: load_bytes_def region_ok_def split: option.splits)
qed

text \<open>
  C37. Importing a diagnostic row whose declared length exceeds its hex bytes: the row is accepted (unless
  memory runs out), and the record carries the declared length with a block as large as the bytes present,
  so reading the declared length from it, as the writer does next, leaves the block.
\<close>

theorem import_diag_overread:
  assumes "bs \<noteq> []" "length bs < n" "n \<le> 0xFFFF" "c \<le> 0xFFFF"
  shows "\<exists>r w'. dtl_import_row sf [x, str ''DIAG'', str (fmt_u c), str (fmt_u n), y, hex_bytes bs] w = (r, w') \<and>
    (r = Err DTL_ERR_OOM \<or> (\<exists>d. r = Ok (RDiag d) \<and> unat (dg_blob_len d) = n \<and>
       deref_bytes (w_mem w') (dg_blob d) (unat (dg_blob_len d)) = Ub))"
proof -
  define name where "name = str ''DIAG''"
  let ?row = "[x, name, str (fmt_u c), str (fmt_u n), y, hex_bytes bs]"
  have small: "\<not> (of_nat n :: u32) > 0xFFFF" "\<not> (of_nat c :: u32) > 0xFFFF" "(of_nat n :: u32) \<noteq> 0"
    "unat (ucast (of_nat n :: u32) :: u16) = n"
  proof -
    have un: "unat (of_nat n :: u32) = n" "unat (of_nat c :: u32) = c" using assms(3,4) by (simp_all add: unat_of_nat)
    with assms(3,4) show "\<not> (of_nat n :: u32) > 0xFFFF" "\<not> (of_nat c :: u32) > 0xFFFF" by (simp_all add: word_less_nat_alt)
    show "(of_nat n :: u32) \<noteq> 0" using un(1) assms(2) by (metis not_less_zero unsigned_0)
    show "unat (ucast (of_nat n :: u32) :: u16) = n" using un assms(3) by (simp add: unsigned_ucast_eq take_bit_nat_eq_self)
  qed
  have tag: "dtl_import_tag name = Some DTL_REC_DIAG" by (simp add: name_def dtl_import_tag_def kTags_def ch_def)
  have run: "dtl_import_row sf ?row = wmap RDiag (import_diag ?row)" by (simp add: dtl_import_row_def tag rec_tags)
  have u: "csv_u ?row 2 = wret (of_nat c)" "csv_u ?row 3 = wret (of_nat n)"
    using assms(3,4) by (simp_all add: csv_u_known text_u32_fmt)
  have hex: "hex_bytes bs \<noteq> []" using assms(1) by (auto simp: hex_bytes_def hex_byte neq_Nil_conv)
  obtain q m where ml: "c_malloc (w_mem w) (length bs) = (q, m)" by fastforce
  note steps = run [unfolded name_def] import_diag_def u [unfolded name_def]
  show ?thesis
  proof (cases q)
    case None
    with ml hex assms(1) small show ?thesis unfolding steps
      by (simp add: Let_def w_malloc_def wbind_def wret_def wfail_def w_require_def wmap_def)
  next
    case (Some b)
    have "region_ok m (b, 0) (length bs)" using c_malloc_obj ml Some by (simp add: region_ok_def)
    then obtain m2 where st: "store_bytes m (b, 0) bs = Ok m2" using store_bytes_Ok_iff by blast
    from short_block_read [OF ml [unfolded Some] st assms(2)] ml Some st hex assms(1,2) small show ?thesis unfolding steps
      by (simp add: Let_def w_malloc_def w_store_def store_hex_def text_hex_bytes wbind_def wret_def w_require_def wmap_def
          deref_bytes_def)
  qed
qed

theorem import_diag_overread_witness:
  "\<exists>r w'. dtl_import_row (\<lambda>_. None) [[], str ''DIAG'', str (fmt_u 1), str (fmt_u 4), [], hex_bytes [0xAB]] fresh_world = (r, w') \<and>
    (r = Err DTL_ERR_OOM \<or> (\<exists>d. r = Ok (RDiag d) \<and> deref_bytes (w_mem w') (dg_blob d) 4 = Ub))"
  using import_diag_overread [of "[0xAB]" 4 1 "\<lambda>_. None" "[]" "[]" fresh_world] by auto

end
