(* ===== verification/Report_Json.thy ===== *)
theory Report_Json
  imports Report_Export
begin

text \<open>
  \<^verbatim>\<open>src/report/jimport.c\<close>: the JSON reader, the conversion of an object to a record and the import.

  A node of the tree is built once and never changed, so it is a value of a datatype; what it takes from
  the arena, which can fail, is kept.  The growing buffers of the reader are the lists of what they hold
  together with their capacity, a natural number (it stays far below \<open>SIZE_MAX\<close>, since the arena holds that
  many bytes), and storing behind the capacity is undefined.  The cursor is the unread
  text.  A reader function yields \<open>None\<close> where the code returns \<open>NULL\<close>; every caller then gives up, so the
  depth counter, which the code does not restore on all of these paths, matters only on success and is the
  number of levels left.  The loops over elements and members run on fuel, one unit per iteration;
  running out would be \<open>Ub\<close>.
\<close>

subsection \<open>The reader\<close>

datatype dtl_json_node =
    JNull
  | JBool bool
  | JNum "u8 list"
  | JStr "u8 list"
  | JArr "dtl_json_node list"
  | JObj "(u8 list \<times> dtl_json_node) list"

text \<open>An enum and a union of two words; two pointers; one pointer.\<close>

definition sizeof_json_node :: nat where "sizeof_json_node = 24"
definition sizeof_json_pair :: nat where "sizeof_json_pair = 16"
definition sizeof_json_item :: nat where "sizeof_json_item = 8"

definition DTL_JSON_MAX_DEPTH :: nat where "DTL_JSON_MAX_DEPTH = 64"

definition json_space :: "u8 \<Rightarrow> bool" where
  "json_space c \<longleftrightarrow> c = 0x20 \<or> c = 0x09 \<or> c = 0x0A \<or> c = 0x0D"

definition dtl_json_skip_ws :: "u8 list \<Rightarrow> u8 list" where
  "dtl_json_skip_ws s = dropWhile json_space s"

definition dtl_json_expect :: "u8 \<Rightarrow> u8 list \<Rightarrow> u8 list option" where
  "dtl_json_expect c s = (case dtl_json_skip_ws s of [] \<Rightarrow> None | d # t \<Rightarrow> if d \<noteq> c then None else Some t)"

text \<open>Leaving on \<open>NULL\<close>.\<close>

definition jbind :: "'a option wm \<Rightarrow> ('a \<Rightarrow> 'b option wm) \<Rightarrow> 'b option wm" where
  "jbind f g = wbind f (\<lambda>r. case r of None \<Rightarrow> wret None | Some x \<Rightarrow> g x)"

definition jlift :: "'a option \<Rightarrow> 'a option wm" where "jlift = wret"

fun json_hex4 :: "nat \<Rightarrow> nat \<Rightarrow> u8 list \<Rightarrow> (nat \<times> u8 list) option" where
  "json_hex4 0 v s = Some (v, s)"
| "json_hex4 (Suc k) v [] = None"
| "json_hex4 (Suc k) v (h # s) = (case hexval h of None \<Rightarrow> None | Some d \<Rightarrow> json_hex4 k (16 * v + d) s)"

text \<open>The character an escape stands for, from the letter behind the backslash on.\<close>

definition json_escape :: "u8 list \<Rightarrow> (u8 \<times> u8 list) option" where
  "json_escape s = (case s of [] \<Rightarrow> None
     | c # t \<Rightarrow>
         if c = 0x6E then Some (0x0A, t)
         else if c = 0x74 then Some (0x09, t)
         else if c = 0x72 then Some (0x0D, t)
         else if c = 0x62 then Some (0x08, t)
         else if c = 0x66 then Some (0x0C, t)
         else if c = 0x2F \<or> c = 0x5C \<or> c = 0x22 then Some (c, t)
         else if c = 0x75 then
           (case json_hex4 4 0 t of None \<Rightarrow> None
            | Some (v, t) \<Rightarrow> if v > 0x7F then None else Some (of_nat v, t))
         else None)"

definition json_next :: "u8 \<Rightarrow> u8 list \<Rightarrow> (u8 \<times> u8 list) option" where
  "json_next c t = (if c = 0x5C then json_escape t else Some (c, t))"

lemma hex4_shorter: "json_hex4 k v s = Some (v', t) \<Longrightarrow> length t \<le> length s"
  by (induction k v s rule: json_hex4.induct) (auto split: option.splits)

lemma json_next_shorter: "json_next c t = Some (d, u) \<Longrightarrow> length u \<le> length t"
  by (auto simp: json_next_def json_escape_def split: if_splits list.splits option.splits prod.splits dest!: hex4_shorter)

text \<open>A full buffer is doubled in the arena before the character is stored.\<close>

definition json_push :: "u8 \<Rightarrow> u8 list \<Rightarrow> nat \<Rightarrow> (u8 list \<times> nat) option wm" where
  "json_push c buf cap =
     jbind (if length buf + 1 \<ge> cap
            then jbind (w_arena_alloc (cap * 2)) (\<lambda>_. wret (Some (cap * 2)))
            else wret (Some cap)) (\<lambda>cap.
     wbind (wlift (put_byte cap buf c)) (\<lambda>buf. wret (Some (buf, cap))))"

function json_chars :: "u8 list \<Rightarrow> nat \<Rightarrow> u8 list \<Rightarrow> (u8 list \<times> u8 list) option wm" where
  "json_chars buf cap s = (case s of [] \<Rightarrow> wret None
     | c # t \<Rightarrow>
         if c = 0x22 then wbind (wlift (put_byte cap buf 0)) (\<lambda>_. wret (Some (buf, t)))
         else case json_next c t of None \<Rightarrow> wret None
              | Some (d, u) \<Rightarrow> jbind (json_push d buf cap) (\<lambda>(buf, cap). json_chars buf cap u))"
  by pat_completeness auto
termination
  by (relation "measure (\<lambda>(buf, cap, s). length s)") (auto dest: json_next_shorter)

declare json_chars.simps [simp del]

text \<open>The cursor is on the opening quote.\<close>

definition dtl_json_parse_string :: "u8 list \<Rightarrow> (u8 list \<times> u8 list) option wm" where
  "dtl_json_parse_string s = jbind (w_arena_alloc 32) (\<lambda>_. json_chars [] 32 (tl s))"

definition dtl_json_new :: "dtl_json_node \<Rightarrow> dtl_json_node option wm" where
  "dtl_json_new nd = jbind (w_arena_alloc sizeof_json_node) (\<lambda>_. wret (Some nd))"

text \<open>Room for one more element, and storing it.\<close>

definition json_room :: "nat \<Rightarrow> nat \<Rightarrow> nat \<Rightarrow> nat option wm" where
  "json_room size_of count cap =
     jbind (if count = cap
            then jbind (w_arena_alloc (cap * 2 * size_of)) (\<lambda>_. wret (Some (cap * 2)))
            else wret (Some cap)) (\<lambda>cap.
     wbind (wlift (if count < cap then Ok () else Ub)) (\<lambda>_. wret (Some cap)))"

type_synonym json_reader = "u8 list \<Rightarrow> (dtl_json_node \<times> u8 list) option wm"

text \<open>What follows an element: a comma and the next one, or the closing bracket.\<close>

definition json_after :: "u8 \<Rightarrow> u8 list \<Rightarrow> (bool \<times> u8 list) option" where
  "json_after close s = (case dtl_json_skip_ws s of [] \<Rightarrow> None
     | c # t \<Rightarrow> if c = 0x2C then Some (True, t) else if c = close then Some (False, t) else None)"

fun json_elems :: "json_reader \<Rightarrow> nat \<Rightarrow> dtl_json_node list \<Rightarrow> nat \<Rightarrow> u8 list \<Rightarrow> (dtl_json_node list \<times> u8 list) option wm" where
  "json_elems pv 0 items cap s = wlift Ub"
| "json_elems pv (Suc f) items cap s =
     jbind (pv s) (\<lambda>(v, s).
     jbind (json_room sizeof_json_item (length items) cap) (\<lambda>cap.
     jbind (jlift (json_after 0x5D s)) (\<lambda>(more, s).
     if more then json_elems pv f (items @ [v]) cap s else wret (Some (items @ [v], s)))))"

text \<open>Both allocations precede the test of either; the cursor is on the bracket.\<close>

definition json_open :: "nat \<Rightarrow> unit option wm" where
  "json_open bytes = wbind (w_arena_alloc sizeof_json_node) (\<lambda>nd. wbind (w_arena_alloc bytes) (\<lambda>items.
     wret (if nd = None \<or> items = None then None else Some ())))"

definition dtl_json_parse_array :: "json_reader \<Rightarrow> json_reader" where
  "dtl_json_parse_array pv s =
     jbind (json_open (8 * sizeof_json_item)) (\<lambda>_.
     let s = dtl_json_skip_ws (tl s)
     in if s \<noteq> [] \<and> hd s = 0x5D then wret (Some (JArr [], tl s))
        else jbind (json_elems pv (length s + 1) [] 8 s) (\<lambda>(items, s). wret (Some (JArr items, s))))"

fun json_fields :: "json_reader \<Rightarrow> nat \<Rightarrow> (u8 list \<times> dtl_json_node) list \<Rightarrow> nat \<Rightarrow> u8 list \<Rightarrow>
    ((u8 list \<times> dtl_json_node) list \<times> u8 list) option wm" where
  "json_fields pv 0 pairs cap s = wlift Ub"
| "json_fields pv (Suc f) pairs cap s =
     (let s = dtl_json_skip_ws s
      in if s = [] \<or> hd s \<noteq> 0x22 then wret None
      else jbind (dtl_json_parse_string s) (\<lambda>(key, s).
           jbind (jlift (dtl_json_expect 0x3A s)) (\<lambda>s.
           jbind (pv s) (\<lambda>(v, s).
           jbind (json_room sizeof_json_pair (length pairs) cap) (\<lambda>cap.
           jbind (jlift (json_after 0x7D s)) (\<lambda>(more, s).
           if more then json_fields pv f (pairs @ [(key, v)]) cap s else wret (Some (pairs @ [(key, v)], s))))))))"

definition dtl_json_parse_object :: "json_reader \<Rightarrow> json_reader" where
  "dtl_json_parse_object pv s =
     jbind (json_open (8 * sizeof_json_pair)) (\<lambda>_.
     let s = dtl_json_skip_ws (tl s)
     in if s \<noteq> [] \<and> hd s = 0x7D then wret (Some (JObj [], tl s))
        else jbind (json_fields pv (length s + 1) [] 8 s) (\<lambda>(pairs, s). wret (Some (JObj pairs, s))))"

text \<open>The literals: the text must start with the word.\<close>

definition json_word :: "string \<Rightarrow> dtl_json_node \<Rightarrow> json_reader" where
  "json_word word nd s = (if take (length word) s \<noteq> str word then wret None
     else jbind (dtl_json_new nd) (\<lambda>nd. wret (Some (nd, drop (length word) s))))"

text \<open>The end of a number: digits, a fraction, an exponent.\<close>

definition json_fraction :: "u8 list \<Rightarrow> u8 list" where
  "json_fraction s = (case s of [] \<Rightarrow> [] | c # t \<Rightarrow> if c = 0x2E then dropWhile c_isdigit t else s)"

definition json_exponent :: "u8 list \<Rightarrow> u8 list" where
  "json_exponent s = (case s of [] \<Rightarrow> []
     | c # t \<Rightarrow> if c = 0x65 \<or> c = 0x45
                then dropWhile c_isdigit (case t of [] \<Rightarrow> [] | d # u \<Rightarrow> if d = 0x2B \<or> d = 0x2D then u else t)
                else s)"

definition json_number :: "u8 list \<Rightarrow> (u8 list \<times> u8 list) option" where
  "json_number s =
     (let t = (if hd s = 0x2D then tl s else s)
      in if t = [] \<or> \<not> c_isdigit (hd t) then None
         else let u = json_exponent (json_fraction (dropWhile c_isdigit t))
              in Some (take (length s - length u) s, u))"

primrec dtl_json_parse_value :: "nat \<Rightarrow> json_reader" where
  "dtl_json_parse_value 0 s = wret None"
| "dtl_json_parse_value (Suc levels) s =
     (case dtl_json_skip_ws s of [] \<Rightarrow> wret None
      | c # t \<Rightarrow>
          if c = 0x7B then dtl_json_parse_object (dtl_json_parse_value levels) (c # t)
          else if c = 0x5B then dtl_json_parse_array (dtl_json_parse_value levels) (c # t)
          else if c = 0x22 then jbind (dtl_json_parse_string (c # t)) (\<lambda>(x, s). jbind (dtl_json_new (JStr x)) (\<lambda>nd. wret (Some (nd, s))))
          else if c = 0x74 then json_word ''true'' (JBool True) (c # t)
          else if c = 0x66 then json_word ''false'' (JBool False) (c # t)
          else if c = 0x6E then json_word ''null'' JNull (c # t)
          else jbind (jlift (json_number (c # t))) (\<lambda>(x, s).
               jbind (w_arena_alloc (length x + 1)) (\<lambda>_.
               jbind (dtl_json_new (JNum x)) (\<lambda>nd. wret (Some (nd, s))))))"

subsection \<open>Members of an object\<close>

definition dtl_json_get :: "dtl_json_node \<Rightarrow> string \<Rightarrow> dtl_json_node option" where
  "dtl_json_get nd key = (case nd of JObj kvs \<Rightarrow> map_of (map (\<lambda>(k, v). (c_string k, v)) kvs) (str key) | _ \<Rightarrow> None)"

definition dtl_json_u32 :: "dtl_json_node \<Rightarrow> string \<Rightarrow> u32 option" where
  "dtl_json_u32 nd key = (case dtl_json_get nd key of Some (JNum x) \<Rightarrow> text_u32 x | _ \<Rightarrow> None)"

definition dtl_json_i32 :: "dtl_json_node \<Rightarrow> string \<Rightarrow> u32 option" where
  "dtl_json_i32 nd key = (case dtl_json_get nd key of Some (JNum x) \<Rightarrow> text_i32 x | _ \<Rightarrow> None)"

definition dtl_json_bool :: "dtl_json_node \<Rightarrow> string \<Rightarrow> bool option" where
  "dtl_json_bool nd key = (case dtl_json_get nd key of Some (JBool b) \<Rightarrow> Some b | _ \<Rightarrow> None)"

text \<open>The C string of a member.\<close>

definition dtl_json_str :: "dtl_json_node \<Rightarrow> string \<Rightarrow> u8 list option" where
  "dtl_json_str nd key = (case dtl_json_get nd key of Some (JStr x) \<Rightarrow> Some (c_string x) | _ \<Rightarrow> None)"

definition w_given :: "'a option \<Rightarrow> 'a wm" where
  "w_given x = (case x of None \<Rightarrow> wfail DTL_ERR_BADRECORD | Some v \<Rightarrow> wret v)"

abbreviation json_u :: "dtl_json_node \<Rightarrow> string \<Rightarrow> u32 wm" where "json_u nd key \<equiv> w_given (dtl_json_u32 nd key)"
abbreviation json_i :: "dtl_json_node \<Rightarrow> string \<Rightarrow> u32 wm" where "json_i nd key \<equiv> w_given (dtl_json_i32 nd key)"


subsection \<open>Objects to records\<close>

text \<open>The sample is stored before its conversion is tested; a text that is no number converts to zero.\<close>

fun jimport_samples :: "(u8 list \<Rightarrow> u32 option) \<Rightarrow> addr \<Rightarrow> nat \<Rightarrow> dtl_json_node list \<Rightarrow> unit wm" where
  "jimport_samples strtof p i [] = wret ()"
| "jimport_samples strtof p i (it # items) =
     (case it of JNum x \<Rightarrow>
        wbind (w_store (fst p, snd p + 4 * i) (dtl_endian_write_u32le (case strtof x of None \<Rightarrow> 0 | Some b \<Rightarrow> b))) (\<lambda>_.
        if strtof x = None then wfail DTL_ERR_BADRECORD else jimport_samples strtof p (i + 1) items)
      | _ \<Rightarrow> wfail DTL_ERR_BADRECORD)"

definition w_malloc_or_oom :: "nat \<Rightarrow> addr wm" where
  "w_malloc_or_oom n = wbind (w_malloc n) (\<lambda>b. case b of None \<Rightarrow> wfail DTL_ERR_OOM | Some b \<Rightarrow> wret (b, 0))"

definition json_items :: "dtl_json_node option \<Rightarrow> dtl_json_node list option" where
  "json_items nd = (case nd of Some (JArr items) \<Rightarrow> if length items > 0xFFFF then None else Some items | _ \<Rightarrow> None)"

definition jimport_sensor :: "(u8 list \<Rightarrow> u32 option) \<Rightarrow> dtl_json_node \<Rightarrow> dtl_sensor wm" where
  "jimport_sensor strtof obj =
     wbind (json_u obj ''sensor_id'') (\<lambda>u0.
     wbind (w_require (\<not> u0 > 0xFFFF)) (\<lambda>_.
     wbind (w_given (json_items (dtl_json_get obj ''samples''))) (\<lambda>items.
     let scount = (of_nat (length items) :: u8)
     in wbind (w_malloc_or_oom ((if scount \<noteq> 0 then unat scount else 1) * 4)) (\<lambda>samples.
        wbind (jimport_samples strtof samples 0 items) (\<lambda>_.
        wret \<lparr>sen_sensor_id = ucast u0, sen_count = scount, sen_samples = if length items \<noteq> 0 then Some samples else None\<rparr>)))))"

text \<open>The payload of an event and of a diagnostic: the bytes of a hex text in a buffer of their number and one more.\<close>

definition jimport_bytes :: "u8 list \<Rightarrow> (addr option \<times> u16) wm" where
  "jimport_bytes hex =
     wbind (w_alloc_or_oom (length hex div 2 + 1)) (\<lambda>p.
     wbind (store_hex hex p (length hex div 2)) (\<lambda>n.
     wbind (w_require (\<not> n > 0xFFFF)) (\<lambda>_.
     wret (if n \<noteq> 0 then Some p else None, of_nat n))))"

definition jimport_event :: "dtl_json_node \<Rightarrow> dtl_event wm" where
  "jimport_event obj =
     wbind (json_u obj ''code'') (\<lambda>u0.
     wbind (w_require (\<not> u0 > 0xFFFF)) (\<lambda>_.
     wbind (w_given (dtl_json_str obj ''payload_hex'')) (\<lambda>hex.
     wbind (jimport_bytes hex) (\<lambda>(payload, n).
     wret \<lparr>ev_code = ucast u0, ev_payload_len = n, ev_payload = payload\<rparr>))))"

definition jimport_diag :: "dtl_json_node \<Rightarrow> dtl_diag wm" where
  "jimport_diag obj =
     wbind (json_u obj ''subsystem'') (\<lambda>u0.
     wbind (w_given (dtl_json_bool obj ''redacted'')) (\<lambda>redacted.
     wbind (w_require (\<not> u0 > 0xFFFF)) (\<lambda>_.
     wbind (w_given (if redacted then Some [] else dtl_json_str obj ''blob_hex'')) (\<lambda>hex.
     wbind (jimport_bytes hex) (\<lambda>(blob, n).
     wret \<lparr>dg_subsystem = ucast u0, dg_blob_len = n, dg_blob = blob, dg_redacted = if redacted then 1 else 0\<rparr>)))))"

definition jimport_log :: "dtl_json_node \<Rightarrow> dtl_log wm" where
  "jimport_log obj =
     wbind (json_u obj ''severity'') (\<lambda>u0.
     wbind (w_require (\<not> u0 > 255)) (\<lambda>_.
     wbind (w_given (dtl_json_str obj ''msg'')) (\<lambda>msg.
     wbind (w_require (\<not> length msg > 0xFFFF)) (\<lambda>_.
     wbind (dtl_field_dup msg) (\<lambda>p.
     case p of None \<Rightarrow> wfail DTL_ERR_OOM
     | Some p \<Rightarrow> wret \<lparr>log_severity = ucast u0, log_msg_len = of_nat (length msg), log_msg = Some p\<rparr>)))))"

text \<open>
  The pairs: both copies are allocated before either is tested; the pair is then stored at its index.
  Pointers have no bytes in the model, so the store claims its cells only and the pairs are kept aside.
\<close>

fun jimport_pairs :: "addr \<Rightarrow> nat \<Rightarrow> (u8 list \<times> dtl_json_node) list \<Rightarrow> (addr \<times> addr) list wm" where
  "jimport_pairs p i [] = wret []"
| "jimport_pairs p i ((key, nd) # kvs) =
     (case nd of JStr x \<Rightarrow>
        wbind (w_arena_alloc (length (c_string key) + 1)) (\<lambda>kcopy. wbind (w_arena_alloc (length (c_string x) + 1)) (\<lambda>vcopy.
        case (kcopy, vcopy) of (Some k, Some v) \<Rightarrow>
          wbind (w_store k (c_string key @ [0])) (\<lambda>_. wbind (w_store v (c_string x @ [0])) (\<lambda>_.
          wbind (w_store (fst p, snd p + sizeof_config_pair * i) (replicate sizeof_config_pair 0)) (\<lambda>_.
          wbind (jimport_pairs p (i + 1) kvs) (\<lambda>kvs. wret ((k, v) # kvs)))))
        | _ \<Rightarrow> wfail DTL_ERR_OOM))
      | _ \<Rightarrow> wfail DTL_ERR_BADRECORD)"

definition json_pairs_of :: "dtl_json_node option \<Rightarrow> (u8 list \<times> dtl_json_node) list option" where
  "json_pairs_of nd = (case nd of Some (JObj kvs) \<Rightarrow> if length kvs > 0xFFFF then None else Some kvs | _ \<Rightarrow> None)"

definition jimport_config :: "dtl_json_node \<Rightarrow> dtl_config wm" where
  "jimport_config obj =
     wbind (w_given (json_pairs_of (dtl_json_get obj ''pairs''))) (\<lambda>kvs.
     let pcount = (of_nat (length kvs) :: u8)
     in wbind (w_malloc_or_oom ((if pcount \<noteq> 0 then unat pcount else 1) * sizeof_config_pair)) (\<lambda>pairs.
        wbind (jimport_pairs pairs 0 kvs) (\<lambda>kvs. wret \<lparr>cfg_pair_count = pcount, cfg_pairs = kvs\<rparr>)))"

definition jimport_keyref :: "dtl_json_node \<Rightarrow> dtl_keyref wm" where
  "jimport_keyref obj =
     wbind (json_u obj ''slot_id'') (\<lambda>u0.
     wbind (w_given (dtl_json_bool obj ''redacted'')) (\<lambda>redacted.
     wbind (w_require (\<not> u0 > 255)) (\<lambda>_.
     let label = (if redacted then [] else case dtl_json_str obj ''label'' of None \<Rightarrow> [] | Some l \<Rightarrow> l)
     in wbind (w_require (\<not> length label > 255)) (\<lambda>_.
        wbind (dtl_field_dup label) (\<lambda>p.
        case p of None \<Rightarrow> wfail DTL_ERR_OOM
        | Some p \<Rightarrow> wret \<lparr>kr_slot_id = ucast u0, kr_label_len = of_nat (length label), kr_label = Some p,
            kr_redacted = if redacted then 1 else 0\<rparr>)))))"

text \<open>
  \<open>sscanf\<close> with \<open>%u.%u.%u\<close>: \<open>None\<close> when fewer than three numbers are assigned.  A number that no
  \<open>unsigned\<close> represents is undefined.
\<close>

definition scan_u :: "u8 list \<Rightarrow> (u32 \<times> u8 list) option res" where
  "scan_u s = (case c_strtoul s of None \<Rightarrow> Ok None
     | Some (v, rest) \<Rightarrow> if v > 0xFFFFFFFF then Ub else Ok (Some (of_nat v, rest)))"

definition scan_dot :: "u8 list \<Rightarrow> u8 list option" where
  "scan_dot s = (case s of [] \<Rightarrow> None | c # t \<Rightarrow> if c = 0x2E then Some t else None)"

fun scan_version :: "nat \<Rightarrow> u8 list \<Rightarrow> u32 list option res" where
  "scan_version 0 s = Ok (Some [])"
| "scan_version (Suc n) s = rbind (scan_u s) (\<lambda>r. case r of None \<Rightarrow> Ok None
     | Some (v, s) \<Rightarrow> if n = 0 then Ok (Some [v])
         else case scan_dot s of None \<Rightarrow> Ok None
              | Some s \<Rightarrow> rbind (scan_version n s) (\<lambda>r. Ok (map_option (Cons v) r)))"

definition jimport_firmware :: "dtl_json_node \<Rightarrow> dtl_firmware wm" where
  "jimport_firmware obj =
     wbind (w_given (dtl_json_str obj ''version'')) (\<lambda>ver.
     wbind (w_given (dtl_json_str obj ''hash_hex'')) (\<lambda>hex.
     wbind (wlift (scan_version 3 ver)) (\<lambda>r.
     case r of Some [mj, mi, pa] \<Rightarrow>
       wbind (w_require (\<not> (mj > 0xFFFF \<or> mi > 0xFFFF \<or> pa > 0xFFFF))) (\<lambda>_.
       wbind (w_given (text_hex hex 8)) (\<lambda>hash.
       wbind (w_require (length hash = 8)) (\<lambda>_.
       wret \<lparr>fw_major = ucast mj, fw_minor = ucast mi, fw_patch = ucast pa, fw_hash = hash\<rparr>)))
     | _ \<Rightarrow> wfail DTL_ERR_BADRECORD)))"

definition jimport_heartbeat :: "dtl_json_node \<Rightarrow> dtl_heartbeat wm" where
  "jimport_heartbeat obj =
     wbind (json_u obj ''uptime_s'') (\<lambda>u0. wbind (json_u obj ''seq'') (\<lambda>u1. wret \<lparr>hb_uptime_s = u0, hb_seq = u1\<rparr>))"

definition jimport_geo :: "dtl_json_node \<Rightarrow> dtl_geo wm" where
  "jimport_geo obj =
     wbind (json_i obj ''lat_e7'') (\<lambda>s0. wbind (json_i obj ''lon_e7'') (\<lambda>s1. wbind (json_i obj ''alt_mm'') (\<lambda>s2.
     wret \<lparr>geo_lat_e7 = s0, geo_lon_e7 = s1, geo_alt_mm = s2\<rparr>)))"

definition jimport_battery :: "dtl_json_node \<Rightarrow> dtl_battery wm" where
  "jimport_battery obj =
     wbind (json_u obj ''pct'') (\<lambda>u0. wbind (json_i obj ''temp_c_e1'') (\<lambda>s0. wbind (json_u obj ''cycles'') (\<lambda>u1.
     wbind (w_require (\<not> (u0 > 255 \<or> sint s0 < -32768 \<or> sint s0 > 32767))) (\<lambda>_.
     wret \<lparr>bat_pct = ucast u0, bat_temp_c_e1 = ucast s0, bat_cycles = u1\<rparr>))))"

definition jimport_net :: "dtl_json_node \<Rightarrow> dtl_net wm" where
  "jimport_net obj =
     wbind (json_u obj ''iface_id'') (\<lambda>u0. wbind (json_u obj ''rx_bytes'') (\<lambda>u1. wbind (json_u obj ''tx_bytes'') (\<lambda>u2.
     wbind (json_u obj ''rx_pkts'') (\<lambda>u3. wbind (json_u obj ''tx_pkts'') (\<lambda>u4.
     wbind (w_require (\<not> u0 > 255)) (\<lambda>_.
     wret \<lparr>net_iface_id = ucast u0, net_rx_bytes = u1, net_tx_bytes = u2, net_rx_pkts = u3, net_tx_pkts = u4\<rparr>))))))"

definition dtl_jimport_record :: "(u8 list \<Rightarrow> u32 option) \<Rightarrow> dtl_json_node \<Rightarrow> dtl_record wm" where
  "dtl_jimport_record strtof obj =
     wbind (json_u obj ''tag'') (\<lambda>u0.
     wbind (w_require (\<not> u0 > 0xFF)) (\<lambda>_.
     let tag = (ucast u0 :: u8)
     in if tag = DTL_REC_HEARTBEAT then wmap RHeartbeat (jimport_heartbeat obj)
        else if tag = DTL_REC_SENSOR then wmap RSensor (jimport_sensor strtof obj)
        else if tag = DTL_REC_EVENT then wmap REvent (jimport_event obj)
        else if tag = DTL_REC_DIAG then wmap RDiag (jimport_diag obj)
        else if tag = DTL_REC_GEO then wmap RGeo (jimport_geo obj)
        else if tag = DTL_REC_BATTERY then wmap RBattery (jimport_battery obj)
        else if tag = DTL_REC_NET then wmap RNet (jimport_net obj)
        else if tag = DTL_REC_LOG then wmap RLog (jimport_log obj)
        else if tag = DTL_REC_CONFIG then wmap RConfig (jimport_config obj)
        else if tag = DTL_REC_KEYREF then wmap RKeyref (jimport_keyref obj)
        else if tag = DTL_REC_FIRMWARE then wmap RFirmware (jimport_firmware obj)
        else wfail DTL_ERR_BADRECORD))"

subsection \<open>The import\<close>

definition dtl_json_root :: "u8 list \<Rightarrow> dtl_json_node list wm" where
  "dtl_json_root data =
     (let s = dtl_json_skip_ws data
      in if s = [] \<or> hd s \<noteq> 0x5B then wfail DTL_ERR_BADRECORD
         else wbind (dtl_json_parse_array (dtl_json_parse_value DTL_JSON_MAX_DEPTH) s) (\<lambda>r.
              case r of Some (JArr items, s) \<Rightarrow> if dtl_json_skip_ws s \<noteq> [] then wfail DTL_ERR_BADRECORD else wret items
              | _ \<Rightarrow> wfail DTL_ERR_BADRECORD))"

fun jimport_items :: "(u8 list \<Rightarrow> u32 option) \<Rightarrow> dtl_json_node list \<Rightarrow> bool \<Rightarrow> dtl_writer \<Rightarrow> (bool \<times> dtl_writer) wm" where
  "jimport_items strtof [] section_open w = wret (section_open, w)"
| "jimport_items strtof (nd # items) section_open w =
     wbind (dtl_jimport_record strtof nd) (\<lambda>r.
     wbind (import_emit r section_open w) (\<lambda>w. jimport_items strtof items True w))"

definition dtl_import_json_memory :: "(u8 list \<Rightarrow> u32 option) \<Rightarrow> u8 list \<Rightarrow> (u8 list \<times> nat) wm" where
  "dtl_import_json_memory strtof data =
     wbind (dtl_json_root data) (\<lambda>items.
     wbind (jimport_items strtof items False dtl_writer_init) (\<lambda>(section_open, w).
     import_finish section_open (length items) w))"

definition dtl_import_json_file :: "(u8 list \<Rightarrow> u32 option) \<Rightarrow> files \<Rightarrow> sinks \<Rightarrow> string \<Rightarrow> string \<Rightarrow> nat \<Rightarrow>
    (dtl_err \<times> u8 list option \<times> nat option) wm" where
  "dtl_import_json_file strtof = import_file_with (dtl_import_json_memory strtof)"

end
