(* ===== verification/Report_Json_Spec.thy ===== *)
theory Report_Json_Spec
  imports Report_Json Query_Parse_Spec
begin

text \<open>
  The JSON reader: on every text it ends without undefined behaviour and consumes input, and with enough
  memory it reads back every text that the printer makes of a tree.
\<close>

subsection \<open>Safety\<close>

lemma jbind_simps [simp]: "jbind (wret None) g = wret None" "jbind (wret (Some x)) g = g x" "jbind (jlift None) g = wret None"
  "jbind (jlift (Some x)) g = g x"
  by (simp_all add: jbind_def jlift_def)

lemma jbind_valid:
  assumes "wvalid P f R E" "\<And>x. wvalid (R (Some x)) (g x) Q E" "\<And>w. R None w \<Longrightarrow> Q None w"
  shows "wvalid P (jbind f g) Q E"
  unfolding jbind_def
proof (rule wvalid_bind [OF assms(1)])
  fix r show "wvalid (R r) (case r of None \<Rightarrow> wret None | Some x \<Rightarrow> g x) Q E"
    using assms(2,3) by (cases r) (auto intro: wvalid_ret)
qed

text \<open>A step that ends, and that leaves at most \<open>n\<close> characters when it succeeds.\<close>

definition leaves :: "nat \<Rightarrow> ('a \<times> u8 list) option wm \<Rightarrow> bool" where
  "leaves n f \<longleftrightarrow> wvalid (\<lambda>_. True) f (\<lambda>r _. \<forall>x t. r = Some (x, t) \<longrightarrow> length t \<le> n) (\<lambda>_. False)"

definition quiet :: "('a option \<Rightarrow> bool) \<Rightarrow> 'a option wm \<Rightarrow> bool" where
  "quiet Q f \<longleftrightarrow> wvalid (\<lambda>_. True) f (\<lambda>r _. Q r) (\<lambda>_. False)"

lemma leaves_ret: "length t \<le> n \<Longrightarrow> leaves n (wret (Some (x, t)))" "leaves n (wret None)"
  by (auto simp: leaves_def intro: wvalid_ret)

lemma leaves_if: "leaves n f \<Longrightarrow> leaves n g \<Longrightarrow> leaves n (if b then f else g)"
  by simp

lemma leaves_mono: "leaves m f \<Longrightarrow> m \<le> n \<Longrightarrow> leaves n f"
  unfolding leaves_def by (erule wvalid_weaken) auto

lemma leaves_bind:
  assumes "leaves m f" "\<And>x t. length t \<le> m \<Longrightarrow> leaves n (g (x, t))"
  shows "leaves n (jbind f g)"
  unfolding leaves_def
proof (rule jbind_valid [OF assms(1) [unfolded leaves_def]])
  fix y :: "'a \<times> u8 list"
  obtain x t where "y = (x, t)" by (cases y)
  then show "wvalid (\<lambda>_. \<forall>x t. Some y = Some (x, t) \<longrightarrow> length t \<le> m) (g y) (\<lambda>r _. \<forall>x t. r = Some (x, t) \<longrightarrow> length t \<le> n) (\<lambda>_. False)"
    using assms(2) [of t x, unfolded leaves_def] by - (rule wvalid_given, simp)
qed auto

lemma leaves_then:
  assumes "quiet Q f" "\<And>x. Q (Some x) \<Longrightarrow> leaves n (g x)"
  shows "leaves n (jbind f g)"
  unfolding leaves_def
  by (rule jbind_valid [OF assms(1) [unfolded quiet_def]], rule wvalid_given) (auto simp: assms(2) [unfolded leaves_def])

lemma alloc_quiet: "quiet (\<lambda>_. True) (w_arena_alloc n)"
  unfolding quiet_def by (rule wvalid_weaken [OF wvalid_arena_alloc]) auto

lemma quiet_ret: "Q r \<Longrightarrow> quiet Q (wret r)"
  unfolding quiet_def by (rule wvalid_ret)

lemma quiet_bind:
  assumes "quiet Q f" "\<And>x. Q (Some x) \<Longrightarrow> quiet R (g x)" "R None"
  shows "quiet R (jbind f g)"
  unfolding quiet_def
  by (rule jbind_valid [OF assms(1) [unfolded quiet_def]], rule wvalid_given) (auto simp: assms(2,3) [unfolded quiet_def])

lemma push_quiet:
  assumes "length buf < cap"
  shows "quiet (\<lambda>r. \<forall>b k. r = Some (b, k) \<longrightarrow> length b < k) (json_push c buf cap)"
proof -
  have "quiet (\<lambda>r. \<forall>k. r = Some k \<longrightarrow> length buf + 1 < k)
      (if length buf + 1 \<ge> cap then jbind (w_arena_alloc (cap * 2)) (\<lambda>_. wret (Some (cap * 2))) else wret (Some cap))"
    using assms by (auto intro!: quiet_ret quiet_bind [OF alloc_quiet])
  then show ?thesis unfolding json_push_def by (rule quiet_bind) (auto intro!: quiet_ret)
qed

lemma chars_leaves: "length buf < cap \<Longrightarrow> leaves (length s) (json_chars buf cap s)"
proof (induction buf cap s rule: json_chars.induct)
  case (1 buf cap s)
  show ?case
  proof (cases s)
    case (Cons c t)
    show ?thesis
    proof (cases "c = 0x22 \<or> json_next c t = None")
      case True
      then show ?thesis using Cons 1(2) by (subst json_chars.simps) (auto intro!: leaves_ret)
    next
      case False
      then obtain d u where n: "json_next c t = Some (d, u)" "c \<noteq> 0x22" by auto
      have "leaves (length s) (json_chars b k u)" if "length b < k" for b k
        using 1(1) [OF Cons n(2) n(1) refl that] json_next_shorter [OF n(1)] Cons by (auto intro: leaves_mono)
      then have "leaves (length s) (jbind (json_push d buf cap) (\<lambda>(buf, cap). json_chars buf cap u))"
        by (intro leaves_then [OF push_quiet [OF 1(2)]]) auto
      then show ?thesis using n Cons by (subst json_chars.simps) simp
    qed
  qed (subst json_chars.simps, simp add: leaves_ret)
qed

lemma string_leaves: "s \<noteq> [] \<Longrightarrow> leaves (length s - 1) (dtl_json_parse_string s)"
  unfolding dtl_json_parse_string_def
  by (rule leaves_then [OF alloc_quiet]) (use chars_leaves [of "[]" 32 "tl s"] in auto)

lemma new_quiet: "quiet (\<lambda>_. True) (dtl_json_new nd)"
  unfolding dtl_json_new_def by (rule quiet_bind [OF alloc_quiet]) (auto intro: quiet_ret)

lemma room_quiet: "count \<le> cap \<Longrightarrow> 0 < cap \<Longrightarrow> quiet (\<lambda>r. \<forall>k. r = Some k \<longrightarrow> count < k) (json_room sz count cap)"
  unfolding json_room_def
  by (rule quiet_bind [where Q = "\<lambda>r. \<forall>k. r = Some k \<longrightarrow> count < k"])
    (auto intro!: quiet_ret quiet_bind [OF alloc_quiet])

lemma open_quiet: "quiet (\<lambda>_. True) (json_open n)"
  unfolding json_open_def quiet_def
  by (rule wvalid_bind [OF wvalid_arena_alloc], rule wvalid_bind [OF wvalid_arena_alloc], rule wvalid_ret) simp

lemma skip_shorter: "length (dtl_json_skip_ws s) \<le> length s"
  by (simp add: dtl_json_skip_ws_def length_dropWhile_le)

lemma after_shorter: "json_after c s = Some (m, t) \<Longrightarrow> length t < length s"
  using skip_shorter [of s] by (auto simp: json_after_def split: list.splits if_splits)

lemma expect_shorter: "dtl_json_expect c s = Some t \<Longrightarrow> length t < length s"
  using skip_shorter [of s] by (auto simp: dtl_json_expect_def split: list.splits if_splits)

text \<open>A reader of values, as the loops see it: it consumes at least one character.\<close>

definition consuming :: "json_reader \<Rightarrow> bool" where
  "consuming pv \<longleftrightarrow> (\<forall>s. leaves (length s - 1) (pv s) \<and> (s = [] \<longrightarrow> pv s = wret None))"

lemma elems_leaves:
  assumes "consuming pv"
  shows "length items \<le> cap \<Longrightarrow> 0 < cap \<Longrightarrow> length s < f \<Longrightarrow> leaves (length s - 1) (json_elems pv f items cap s)"
proof (induction f arbitrary: items cap s)
  case (Suc f)
  show ?case
  proof (cases "s = []")
    case True
    then show ?thesis using assms by (simp add: consuming_def leaves_ret)
  next
    case False
    have last: "leaves (length s - 1) (jbind (jlift (json_after 0x5D t)) (\<lambda>(more, s).
        if more then json_elems pv f (items @ [v]) k s else wret (Some (items @ [v], s))))"
      if "length t \<le> length s - 1" "length items < k" for t v k
    proof (cases "json_after 0x5D t")
      case (Some mt)
      obtain m u where mt: "mt = (m, u)" by (cases mt)
      then have "length u < length t" using Some after_shorter by blast
      then have "leaves (length s - 1) (json_elems pv f (items @ [v]) k u)" "length u \<le> length s - 1"
        using that Suc.prems(3) leaves_mono [OF Suc.IH [of "items @ [v]" k u], of "length s - 1"] by auto
      then show ?thesis using Some mt by (auto intro!: leaves_ret)
    qed (simp add: leaves_ret)
    have "leaves (length s - 1) (jbind (json_room sizeof_json_item (length items) cap) (\<lambda>cap. jbind (jlift (json_after 0x5D t)) (\<lambda>(more, s).
        if more then json_elems pv f (items @ [v]) cap s else wret (Some (items @ [v], s)))))"
      if "length t \<le> length s - 1" for t v
      by (rule leaves_then [OF room_quiet [OF Suc.prems(1,2)]], rule last [OF that]) simp
    moreover have "leaves (length s - 1) (pv s)" using assms by (simp add: consuming_def)
    ultimately show ?thesis unfolding json_elems.simps by - (rule leaves_bind, assumption, simp only: prod.case)
  qed
qed simp

lemma fields_leaves:
  assumes "consuming pv"
  shows "length pairs \<le> cap \<Longrightarrow> 0 < cap \<Longrightarrow> length s < f \<Longrightarrow> leaves (length s - 1) (json_fields pv f pairs cap s)"
proof (induction f arbitrary: pairs cap s)
  case (Suc f)
  define s' where "s' = dtl_json_skip_ws s"
  have s': "length s' \<le> length s" by (simp add: s'_def skip_shorter)
  show ?case
  proof (cases "s' = [] \<or> hd s' \<noteq> 0x22")
    case True
    then show ?thesis by (auto simp: s'_def [symmetric] Let_def leaves_ret)
  next
    case False
    have last: "leaves (length s - 1) (jbind (jlift (json_after 0x7D t)) (\<lambda>(more, s).
        if more then json_fields pv f (pairs @ [(key, v)]) k s else wret (Some (pairs @ [(key, v)], s))))"
      if "length t \<le> length s - 1" "length pairs < k" for t key v k
    proof (cases "json_after 0x7D t")
      case (Some mt)
      obtain m u where mt: "mt = (m, u)" by (cases mt)
      then have "length u < length t" using Some after_shorter by blast
      then have "leaves (length s - 1) (json_fields pv f (pairs @ [(key, v)]) k u)" "length u \<le> length s - 1"
        using that Suc.prems(3) leaves_mono [OF Suc.IH [of "pairs @ [(key, v)]" k u], of "length s - 1"] by auto
      then show ?thesis using Some mt by (auto intro!: leaves_ret)
    qed (simp add: leaves_ret)
    have room: "leaves (length s - 1) (jbind (json_room sizeof_json_pair (length pairs) cap) (\<lambda>cap. jbind (jlift (json_after 0x7D t)) (\<lambda>(more, s).
        if more then json_fields pv f (pairs @ [(key, v)]) cap s else wret (Some (pairs @ [(key, v)], s)))))"
      if "length t \<le> length s - 1" for t key v
      by (rule leaves_then [OF room_quiet [OF Suc.prems(1,2)]], rule last [OF that]) simp
    have mid: "leaves (length s - 1) (jbind (jlift (dtl_json_expect 0x3A t)) (\<lambda>s. jbind (pv s) (\<lambda>(v, s).
           jbind (json_room sizeof_json_pair (length pairs) cap) (\<lambda>cap. jbind (jlift (json_after 0x7D s)) (\<lambda>(more, s).
           if more then json_fields pv f (pairs @ [(key, v)]) cap s else wret (Some (pairs @ [(key, v)], s)))))))"
      if t: "length t \<le> length s - 1" for t key
    proof (cases "dtl_json_expect 0x3A t")
      case (Some u)
      then have "leaves (length s - 1) (pv u)" using assms t expect_shorter [OF Some] by (auto simp: consuming_def intro: leaves_mono)
      then show ?thesis unfolding Some jbind_simps by (rule leaves_bind) (simp only: prod.case room)
    qed (simp add: leaves_ret)
    have "leaves (length s - 1) (dtl_json_parse_string s')"
      using False s' by (intro leaves_mono [OF string_leaves]) auto
    then show ?thesis using False mid
      by (auto simp: s'_def [symmetric] Let_def intro!: leaves_bind [where m = "length s - 1"])
  qed
qed simp

lemma array_leaves:
  assumes "consuming pv" "s \<noteq> []"
  shows "leaves (length s - 1) (dtl_json_parse_array pv s)"
proof -
  define t where "t = dtl_json_skip_ws (tl s)"
  have "leaves (length s - 1) (jbind (json_elems pv (length t + 1) [] 8 t) (\<lambda>(items, s). wret (Some (JArr items, s))))"
    using skip_shorter [of "tl s"] elems_leaves [OF assms(1), of "[]" 8 t "length t + 1"]
    by (intro leaves_bind [where m = "length s - 1"]) (auto simp: t_def intro: leaves_mono intro!: leaves_ret)
  then show ?thesis using skip_shorter [of "tl s"] unfolding dtl_json_parse_array_def
    by (intro leaves_then [OF open_quiet]) (auto simp: Let_def t_def [symmetric] intro!: leaves_ret)
qed

lemma object_leaves:
  assumes "consuming pv" "s \<noteq> []"
  shows "leaves (length s - 1) (dtl_json_parse_object pv s)"
proof -
  define t where "t = dtl_json_skip_ws (tl s)"
  have "leaves (length s - 1) (jbind (json_fields pv (length t + 1) [] 8 t) (\<lambda>(pairs, s). wret (Some (JObj pairs, s))))"
    using skip_shorter [of "tl s"] fields_leaves [OF assms(1), of "[]" 8 t "length t + 1"]
    by (intro leaves_bind [where m = "length s - 1"]) (auto simp: t_def intro: leaves_mono intro!: leaves_ret)
  then show ?thesis using skip_shorter [of "tl s"] unfolding dtl_json_parse_object_def
    by (intro leaves_then [OF open_quiet]) (auto simp: Let_def t_def [symmetric] intro!: leaves_ret)
qed

lemma word_leaves: "s \<noteq> [] \<Longrightarrow> word \<noteq> [] \<Longrightarrow> leaves (length s - 1) (json_word word nd s)"
  by (cases word) (auto simp: json_word_def intro!: leaves_then [OF new_quiet] leaves_ret)

lemma number_shorter:
  assumes "json_number s = Some (x, t)" "s \<noteq> []"
  shows "length t < length s"
proof -
  define u where "u = (if hd s = 0x2D then tl s else s)"
  have u: "u \<noteq> []" "c_isdigit (hd u)" "t = json_exponent (json_fraction (dropWhile c_isdigit u))"
    using assms(1) by (auto simp: json_number_def Let_def u_def split: if_splits)
  have "length (dropWhile c_isdigit (tl u)) < length u" using u(1) length_dropWhile_le [of c_isdigit "tl u"] by (cases u) auto
  then have "length (dropWhile c_isdigit u) < length u" using u(1,2) by (cases u) auto
  moreover have "length (json_fraction r) \<le> length r" for r
    using length_dropWhile_le [of c_isdigit "tl r"] by (auto simp: json_fraction_def split: list.splits)
  moreover have "length (json_exponent r) \<le> length r" for r
    using length_dropWhile_le [of c_isdigit "tl r"] length_dropWhile_le [of c_isdigit "tl (tl r)"]
    by (auto simp: json_exponent_def split: list.splits)
  ultimately have "length t < length u" unfolding u(3) by (meson le_less_trans)
  then show ?thesis by (auto simp: u_def split: if_splits)
qed

lemma value_consuming: "consuming (dtl_json_parse_value levels)"
proof (induction levels)
  case 0
  then show ?case by (simp add: consuming_def leaves_ret)
next
  case (Suc levels)
  have "leaves (length s - 1) (dtl_json_parse_value (Suc levels) s)" for s
  proof (cases "dtl_json_skip_ws s")
    case (Cons c t)
    note short = skip_shorter [of s, unfolded Cons]
    let ?pv = "dtl_json_parse_value levels"
    have parts: "leaves (length t) (dtl_json_parse_object ?pv (c # t))" "leaves (length t) (dtl_json_parse_array ?pv (c # t))"
      "word \<noteq> [] \<Longrightarrow> leaves (length t) (json_word word nd (c # t))"
      "leaves (length t) (jbind (dtl_json_parse_string (c # t)) (\<lambda>(x, s). jbind (dtl_json_new (JStr x)) (\<lambda>nd. wret (Some (nd, s)))))"
      for word nd
      using object_leaves [OF Suc, of "c # t"] array_leaves [OF Suc, of "c # t"] word_leaves [of "c # t" word nd]
      by (auto intro!: leaves_bind [OF string_leaves [of "c # t"]] leaves_then [OF new_quiet] leaves_ret)
    have number: "leaves (length t) (jbind (jlift (json_number (c # t))) (\<lambda>(x, s). jbind (w_arena_alloc (length x + 1)) (\<lambda>_.
               jbind (dtl_json_new (JNum x)) (\<lambda>nd. wret (Some (nd, s))))))"
    proof (cases "json_number (c # t)")
      case (Some xu)
      then obtain x u where u: "json_number (c # t) = Some (x, u)" by (cases xu) auto
      from number_shorter [OF u] show ?thesis unfolding u
        by (auto intro!: leaves_ret leaves_then [OF new_quiet] leaves_then [OF alloc_quiet])
    qed (simp add: leaves_ret)
    have "leaves (length t) (dtl_json_parse_value (Suc levels) s)" unfolding dtl_json_parse_value.simps Cons list.case
      by (intro leaves_if parts number) simp_all
    then show ?thesis by (rule leaves_mono) (use short in simp)
  qed (simp add: leaves_ret)
  then show ?case by (simp add: consuming_def dtl_json_skip_ws_def)
qed

subsection \<open>Steps with a known result\<close>

text \<open>
  With \<open>pl\<close>, \<open>plenty\<close> of memory: the step takes at most \<open>c\<close> allocations and yields \<open>x\<close>; without it the step may
  also yield \<open>NULL\<close>.
\<close>

definition spare :: "bool \<Rightarrow> nat \<Rightarrow> world \<Rightarrow> bool" where "spare pl k w \<longleftrightarrow> (pl \<longrightarrow> plenty k w)"

definition gives :: "bool \<Rightarrow> nat \<Rightarrow> 'a option wm \<Rightarrow> 'a \<Rightarrow> bool" where
  "gives pl c f x \<longleftrightarrow> (\<forall>k. wvalid (spare pl (c + k)) f (\<lambda>r w. case r of None \<Rightarrow> \<not> pl | Some y \<Rightarrow> y = x \<and> spare pl k w) (\<lambda>_. False))"

lemma spare_mono: "spare pl k w \<Longrightarrow> k' \<le> k \<Longrightarrow> spare pl k' w"
  by (auto simp: spare_def dest: plenty_mono)

lemma gives_ret: "gives pl c (wret (Some x)) x"
  unfolding gives_def by (intro allI wvalid_ret) (simp, erule spare_mono, simp)

lemma gives_mono: "gives pl c f x \<Longrightarrow> c \<le> d \<Longrightarrow> gives pl d f x"
  unfolding gives_def
proof (intro allI)
  fix k assume f: "\<forall>k. wvalid (spare pl (c + k)) f (\<lambda>r w. case r of None \<Rightarrow> \<not> pl | Some y \<Rightarrow> y = x \<and> spare pl k w) (\<lambda>_. False)" and "c \<le> d"
  show "wvalid (spare pl (d + k)) f (\<lambda>r w. case r of None \<Rightarrow> \<not> pl | Some y \<Rightarrow> y = x \<and> spare pl k w) (\<lambda>_. False)"
    by (rule wvalid_pre [OF _ f [rule_format, of k]], erule spare_mono) (use \<open>c \<le> d\<close> in simp)
qed

lemma gives_bind:
  assumes "gives pl c f x" "gives pl d (g x) y"
  shows "gives pl (c + d) (jbind f g) y"
  unfolding gives_def
proof (intro allI, rule jbind_valid)
  fix k
  from assms(1) show "wvalid (spare pl (c + d + k)) f (\<lambda>r w. case r of None \<Rightarrow> \<not> pl | Some z \<Rightarrow> z = x \<and> spare pl (d + k) w) (\<lambda>_. False)"
    by (simp add: gives_def add.assoc)
  fix z
  from assms(2) have "wvalid (spare pl (d + k)) (g x) (\<lambda>r w. case r of None \<Rightarrow> \<not> pl | Some y' \<Rightarrow> y' = y \<and> spare pl k w) (\<lambda>_. False)"
    by (simp add: gives_def)
  then show "wvalid (\<lambda>w. case Some z of None \<Rightarrow> \<not> pl | Some z \<Rightarrow> z = x \<and> spare pl (d + k) w) (g z)
      (\<lambda>r w. case r of None \<Rightarrow> \<not> pl | Some y' \<Rightarrow> y' = y \<and> spare pl k w) (\<lambda>_. False)"
    unfolding option.case by - (rule wvalid_conj, simp)
qed simp

lemma alloc_spare:
  assumes "0 < n" "pl \<Longrightarrow> n \<le> SIZE_MAX - 15"
  shows "wvalid (spare pl (Suc k)) (w_arena_alloc n) (\<lambda>p w. case p of None \<Rightarrow> \<not> pl | Some q \<Rightarrow> spare pl k w) E"
proof -
  have "wvalid (ready pl (Suc k) []) (w_arena_alloc n) (\<lambda>p w. case p of None \<Rightarrow> \<not> pl | Some q \<Rightarrow> ready pl k [] w \<and> fresh_for [] q n w) E"
    by (rule alloc_ready) (use assms in auto)
  then show ?thesis
  proof (rule wvalid_weaken, goal_cases)
    case (1 w)
    then show ?case by (simp add: ready_def spare_def held_def)
  next
    case (2 p w)
    then show ?case by (cases p) (simp_all add: ready_def spare_def)
  qed simp
qed

lemma gives_alloc:
  assumes "0 < n" "pl \<Longrightarrow> n \<le> SIZE_MAX - 15" "gives pl c g x"
  shows "gives pl (Suc c) (jbind (w_arena_alloc n) (\<lambda>_. g)) x"
  unfolding gives_def
proof (intro allI, rule jbind_valid)
  fix k show "wvalid (spare pl (Suc c + k)) (w_arena_alloc n) (\<lambda>p w. case p of None \<Rightarrow> \<not> pl | Some q \<Rightarrow> spare pl (c + k) w) (\<lambda>_. False)"
    unfolding add_Suc by (rule alloc_spare [OF assms(1,2)])
qed (use assms(3) in \<open>auto simp: gives_def\<close>)

lemma open_gives:
  assumes "0 < n" "pl \<Longrightarrow> n \<le> SIZE_MAX - 15"
  shows "gives pl 2 (json_open n) ()"
  unfolding gives_def json_open_def
proof (intro allI, rule wvalid_bind)
  fix k p
  show "wvalid (spare pl (2 + k)) (w_arena_alloc sizeof_json_node) (\<lambda>p w. case p of None \<Rightarrow> \<not> pl | Some q \<Rightarrow> spare pl (Suc k) w) (\<lambda>_. False)"
    using alloc_spare [of sizeof_json_node pl "Suc k" "\<lambda>_. False"] by (simp add: sizeof_json_node_def SIZE_MAX_def)
  show "wvalid (\<lambda>w. case p of None \<Rightarrow> \<not> pl | Some q \<Rightarrow> spare pl (Suc k) w)
      (wbind (w_arena_alloc n) (\<lambda>items. wret (if p = None \<or> items = None then None else Some ())))
      (\<lambda>r w. case r of None \<Rightarrow> \<not> pl | Some y \<Rightarrow> y = () \<and> spare pl k w) (\<lambda>_. False)"
  proof (cases pl)
    case True
    then show ?thesis
    proof (cases p)
      case None
      with True show ?thesis by (simp add: wvalid_def)
    next
      case (Some a)
      have "wvalid (spare pl (Suc k)) (w_arena_alloc n) (\<lambda>p w. case p of None \<Rightarrow> \<not> pl | Some q \<Rightarrow> spare pl k w) (\<lambda>_. False)"
        by (rule alloc_spare) (use assms in auto)
      then show ?thesis unfolding Some option.case
        by (rule wvalid_bind, intro wvalid_ret) (simp split: option.splits)
    qed
  next
    case False
    then show ?thesis by (intro wvalid_bind [OF wvalid_arena_alloc] wvalid_ret) (simp add: spare_def split: option.splits)
  qed
qed

lemma room_gives:
  assumes "count \<le> cap" "0 < cap" "0 < sz" "pl \<Longrightarrow> count = cap \<Longrightarrow> cap * 2 * sz \<le> SIZE_MAX - 15"
  shows "gives pl 1 (json_room sz count cap) (if count = cap then cap * 2 else cap)"
proof (cases "count = cap")
  case True
  have "gives pl (Suc 0) (jbind (w_arena_alloc (cap * 2 * sz)) (\<lambda>_. wret (Some (cap * 2)))) (cap * 2)"
    using assms True by (intro gives_alloc gives_ret) simp_all
  from gives_bind [OF this, where d = 0 and y = "cap * 2" and
      g = "\<lambda>k. wbind (wlift (if count < k then Ok () else Ub)) (\<lambda>_. wret (Some k))"] True assms(2)
  show ?thesis by (simp add: json_room_def gives_ret)
next
  case False
  then show ?thesis using assms by (simp add: json_room_def gives_ret)
qed

text \<open>Characters and strings.\<close>

lemma skip_id [simp]: "\<not> json_space c \<Longrightarrow> dtl_json_skip_ws (c # s) = c # s"
  by (simp add: dtl_json_skip_ws_def)

lemma skip_spaces [simp]: "list_all json_space ws \<Longrightarrow> dtl_json_skip_ws (ws @ s) = dtl_json_skip_ws s"
  by (simp add: dtl_json_skip_ws_def dropWhile_append2 list_all_iff)

lemma fmt_x_4: "n < 256 \<Longrightarrow> fmt_x 4 n = ''00'' @ fmt_x 2 n"
proof -
  assume n: "n < 256"
  then have "fmt_x 2 n = [digit (n div 16), digit (n mod 16)]" by (rule fmt_x_2)
  moreover have "1 \<le> length (digits 16 n)" by (subst digits.simps) simp
  ultimately have "length (digits 16 n) \<le> 2" "1 \<le> length (digits 16 n)"
    by (auto simp: fmt_x_def dest!: arg_cong [where f = length])
  then have "4 - length (digits 16 n) = 2 + (2 - length (digits 16 n))" by simp
  then show ?thesis by (simp add: fmt_x_def replicate_add numeral_2_eq_2)
qed

lemma hex4_digits:
  assumes "hexval a = Some i" "hexval b = Some j" "hexval c = Some k" "hexval d = Some l"
  shows "json_hex4 4 0 (a # b # c # d # t) = Some (16 * (16 * (16 * i + j) + k) + l, t)"
proof -
  have "(4 :: nat) = Suc (Suc (Suc (Suc 0)))" by simp
  then show ?thesis by (simp only: json_hex4.simps assms option.case mult_0_right add_0)
qed

lemma json_char_next:
  obtains d u where "json_char c @ t = d # u" "d \<noteq> 0x22" "json_next d u = Some (c, t)"
proof (cases "c < 0x20 \<and> c \<noteq> 0x0A \<and> c \<noteq> 0x0D \<and> c \<noteq> 0x09")
  case True
  have n: "unat c < 32" using True by (simp add: word_less_nat_alt)
  have z: "hexval (ch CHR ''0'') = Some 0" by (simp add: hexval_def ch_def)
  have "str (fmt_x 4 (unat c)) = [ch CHR ''0'', ch CHR ''0'', ch (digit (unat c div 16)), ch (digit (unat c mod 16))]"
    using n by (simp add: fmt_x_4 fmt_x_2)
  moreover have "hexval (ch (digit (unat c div 16))) = Some (unat c div 16)" "hexval (ch (digit (unat c mod 16))) = Some (unat c mod 16)"
    using nibbles [of c] by (simp_all add: hexval_digit)
  ultimately have "json_hex4 4 0 (str (fmt_x 4 (unat c)) @ t) = Some (unat c, t)"
    using hex4_digits [OF z z] by simp
  then have "json_next 0x5C (0x75 # str (fmt_x 4 (unat c)) @ t) = Some (c, t)"
    using n by (simp add: json_next_def json_escape_def)
  moreover have "json_char c @ t = 0x5C # 0x75 # str (fmt_x 4 (unat c)) @ t" using True by (auto simp: json_char_def)
  ultimately show ?thesis using that by simp
next
  case False
  then consider "c = 0x22" | "c = 0x5C" | "c = 0x0A" | "c = 0x0D" | "c = 0x09"
    | "c \<noteq> 0x22" "c \<noteq> 0x5C" "c \<noteq> 0x0A" "c \<noteq> 0x0D" "c \<noteq> 0x09" "\<not> c < 0x20" by blast
  then show ?thesis
  proof cases
    case 6
    then show ?thesis by (intro that [of c t]) (simp_all add: json_char_def json_next_def)
  qed (rule that [of "0x5C" "tl (json_char c) @ t"]; simp add: json_char_def json_next_def json_escape_def)+
qed

lemma chars_gives:
  assumes "length buf < cap" "pl \<Longrightarrow> length buf + length s < 2 ^ 60"
  shows "gives pl (length s) (json_chars buf cap (concat (map json_char s) @ 0x22 # rest)) (buf @ s, rest)"
  using assms
proof (induction s arbitrary: buf cap)
  case Nil
  then show ?case by (subst json_chars.simps) (simp add: gives_ret)
next
  case (Cons c s)
  let ?t = "concat (map json_char s) @ 0x22 # rest"
  obtain d u where n: "json_char c @ ?t = d # u" "d \<noteq> 0x22" "json_next d u = Some (c, ?t)" by (rule json_char_next)
  define k where "k = (if length buf + 1 \<ge> cap then cap * 2 else cap)"
  have k: "length buf + 1 < k" using Cons.prems(1) by (auto simp: k_def)
  have a: "gives pl 1 (if length buf + 1 \<ge> cap then jbind (w_arena_alloc (cap * 2)) (\<lambda>_. wret (Some (cap * 2))) else wret (Some cap)) k"
    using Cons.prems unfolding k_def One_nat_def by (auto intro!: gives_alloc gives_ret simp: SIZE_MAX_def)
  have b: "wbind (wlift (put_byte k buf c)) (\<lambda>buf. wret (Some (buf, k))) = wret (Some (buf @ [c], k))" using k by simp
  have "gives pl (1 + 0) (json_push c buf cap) (buf @ [c], k)"
    unfolding json_push_def by (rule gives_bind [OF a]) (simp only: b gives_ret)
  from gives_bind [OF this, where g = "\<lambda>(buf, cap). json_chars buf cap ?t"] Cons.IH [of "buf @ [c]" k] k Cons.prems(2)
  have "gives pl (1 + 0 + length s) (jbind (json_push c buf cap) (\<lambda>(buf, cap). json_chars buf cap ?t)) (buf @ c # s, rest)" by simp
  with n show ?case by (subst json_chars.simps) simp
qed

lemma string_gives:
  assumes "pl \<Longrightarrow> length s < 2 ^ 60"
  shows "gives pl (Suc (length s)) (dtl_json_parse_string (dtl_export_json_string s @ rest)) (s, rest)"
  unfolding dtl_json_parse_string_def
  using chars_gives [of "[]" 32 pl s rest] assms by (intro gives_alloc) (simp_all add: dtl_export_json_string_def SIZE_MAX_def)

lemma new_gives: "gives pl 1 (dtl_json_new nd) nd"
  unfolding dtl_json_new_def One_nat_def by (intro gives_alloc gives_ret) (simp_all add: sizeof_json_node_def SIZE_MAX_def)

subsection \<open>Numbers\<close>

definition num_char :: "u8 \<Rightarrow> bool" where
  "num_char c \<longleftrightarrow> c_isdigit c \<or> c = 0x2E \<or> c = 0x65 \<or> c = 0x45 \<or> c = 0x2B \<or> c = 0x2D"

definition num_end :: "u8 list \<Rightarrow> bool" where "num_end s \<longleftrightarrow> s = [] \<or> \<not> num_char (hd s)"

definition num_ok :: "u8 list \<Rightarrow> bool" where "num_ok x \<longleftrightarrow> x \<noteq> [] \<and> json_number x = Some (x, [])"

text \<open>What is left behind a number does not change when more text follows.\<close>

lemma drop_digits_append: "num_end t \<Longrightarrow> dropWhile c_isdigit (r @ t) = dropWhile c_isdigit r @ t"
proof (induction r)
  case Nil
  then show ?case by (cases t) (auto simp: num_end_def num_char_def)
qed simp

lemma fraction_append: "num_end t \<Longrightarrow> json_fraction (r @ t) = json_fraction r @ t"
  by (cases r; cases t) (auto simp: json_fraction_def num_end_def num_char_def drop_digits_append)

lemma exponent_append: "num_end t \<Longrightarrow> json_exponent (r @ t) = json_exponent r @ t"
proof (cases r)
  case (Cons c r')
  assume t: "num_end t"
  show ?thesis
  proof (cases r')
    case Nil
    then show ?thesis using Cons t drop_digits_append [OF t, of "[]"]
      by (cases t) (auto simp: json_exponent_def num_end_def num_char_def)
  next
    case (Cons d u)
    then show ?thesis using \<open>r = c # r'\<close> drop_digits_append [OF t, of u] drop_digits_append [OF t, of r']
      by (auto simp: json_exponent_def)
  qed
next
  case Nil
  assume "num_end t"
  with Nil show ?thesis by (cases t) (auto simp: json_exponent_def num_end_def num_char_def)
qed

lemma number_append:
  assumes "num_ok x" "num_end t"
  shows "json_number (x @ t) = Some (x, t)"
proof -
  define u where "u = (if hd x = 0x2D then tl x else x)"
  have x: "x \<noteq> []" "json_number x = Some (x, [])" using assms(1) by (simp_all add: num_ok_def)
  then have u: "u \<noteq> []" "c_isdigit (hd u)" "json_exponent (json_fraction (dropWhile c_isdigit u)) = []"
    by (auto simp: json_number_def Let_def u_def split: if_splits)
  have "(if hd (x @ t) = 0x2D then tl (x @ t) else x @ t) = u @ t" using x(1) u(1) by (auto simp: u_def)
  moreover have "json_exponent (json_fraction (dropWhile c_isdigit (u @ t))) = t"
    using u(3) by (simp add: drop_digits_append [OF assms(2)] fraction_append [OF assms(2)] exponent_append [OF assms(2)])
  ultimately show ?thesis using u(1,2) unfolding json_number_def by (simp add: Let_def)
qed

lemma num_ok_digits:
  assumes "list_all c_isdigit x" "x \<noteq> []"
  shows "num_ok x" "num_ok (0x2D # x)"
proof -
  have d: "dropWhile c_isdigit x = []" "hd x \<noteq> 0x2D" "c_isdigit (hd x)"
    using assms by (cases x; auto simp: list_all_iff isdigit_facts)+
  have e: "json_exponent (json_fraction (dropWhile c_isdigit x)) = []" unfolding d(1) by (simp add: json_fraction_def json_exponent_def)
  show "num_ok x" "num_ok (0x2D # x)"
    using assms(2) d(2,3) by (simp_all add: num_ok_def json_number_def e Let_def)
qed

lemma num_ok_u: "num_ok (str (fmt_u n))"
  using digits_all [of _ n] digits_nonempty [of n]
  by (intro num_ok_digits) (auto simp: list_all_iff fmt_u_def str_def)

lemma num_ok_d: "num_ok (str (fmt_d i))"
  using num_ok_u [of "nat i"] num_ok_digits(2) [of "str (fmt_u (nat (- i)))"] digits_all [of _ "nat (- i)"] digits_nonempty [of "nat (- i)"]
  by (auto simp: fmt_d_def list_all_iff fmt_u_def str_def ch_def)

lemma num_ok_first:
  assumes "num_ok x"
  obtains c t where "x = c # t" "\<not> json_space c" "c \<notin> {0x7B, 0x5B, 0x22, 0x74, 0x66, 0x6E}"
proof -
  obtain c t where x: "x = c # t" using assms by (cases x) (auto simp: num_ok_def)
  then have "c = 0x2D \<or> c_isdigit c" using assms by (auto simp: num_ok_def json_number_def Let_def split: if_splits)
  then have "\<not> json_space c" "c \<notin> {0x7B, 0x5B, 0x22, 0x74, 0x66, 0x6E}"
    by (auto simp: json_space_def c_isdigit_def word_le_nat_alt)
  with x that show ?thesis by blast
qed

subsection \<open>Trees and their texts\<close>

text \<open>The text \<open>t\<close> spells the tree \<open>v\<close> with at most \<open>d\<close> levels of nesting.\<close>

fun json_spelled :: "nat \<Rightarrow> dtl_json_node \<Rightarrow> u8 list \<Rightarrow> bool" where
  "json_spelled 0 v t \<longleftrightarrow> False"
| "json_spelled (Suc d) v t \<longleftrightarrow> (case v of
     JNull \<Rightarrow> t = str ''null''
   | JBool b \<Rightarrow> t = str (if b then ''true'' else ''false'')
   | JNum x \<Rightarrow> num_ok x \<and> t = x
   | JStr s \<Rightarrow> t = dtl_export_json_string s
   | JArr vs \<Rightarrow> (\<exists>ts. list_all2 (json_spelled d) vs ts \<and> t = [0x5B] @ comma_join ts @ [0x5D])
   | JObj kvs \<Rightarrow> (\<exists>ts. list_all2 (json_spelled d) (map snd kvs) ts \<and>
       t = [0x7B] @ comma_join (map2 (\<lambda>k t. dtl_export_json_string k @ [0x3A] @ t) (map fst kvs) ts) @ [0x7D]))"

lemma spelled_nonempty: "json_spelled d v t \<Longrightarrow> t \<noteq> []"
  by (cases d; cases v) (auto simp: num_ok_def dtl_export_json_string_def)

lemma join_Cons: "ts \<noteq> [] \<Longrightarrow> comma_join (t # ts) = t @ 0x2C # comma_join ts"
  by (cases ts) simp_all

lemma join_single [simp]: "comma_join [t] = t"
  by simp

declare comma_join.simps(2) [simp del]

lemma join_length: "ts \<noteq> [] \<Longrightarrow> length (comma_join ts) + 1 = sum_list (map (\<lambda>t. length t + 1) ts)"
  by (induction ts rule: list_nonempty_induct) (simp_all add: join_Cons)

lemma json_after_simps:
  "list_all json_space ws \<Longrightarrow> \<not> json_space c \<Longrightarrow> c \<noteq> 0x2C \<Longrightarrow> json_after c (ws @ c # s) = Some (False, s)"
  "json_after c (0x2C # s) = Some (True, s)"
  by (simp_all add: json_after_def json_space_def)

text \<open>One element, and what follows it.\<close>

definition elem_cost :: "u8 list list \<Rightarrow> nat" where "elem_cost ts = sum_list (map (\<lambda>t. 3 * length t + 1) ts)"

lemma num_end_after:
  "list_all json_space ws \<Longrightarrow> c \<in> {0x2C, 0x5D, 0x7D} \<Longrightarrow> num_end (ws @ c # s)"
  by (cases ws) (auto simp: num_end_def num_char_def c_isdigit_def json_space_def word_le_nat_alt)

lemma elems_gives:
  assumes "list_all2 (\<lambda>v t. \<forall>rest. num_end rest \<longrightarrow> gives pl (3 * length t) (pv (ws @ t @ rest)) (v, rest)) vs ts"
    "list_all json_space ws'" "vs \<noteq> []" "length vs \<le> f" "length items \<le> cap" "0 < cap" "pl \<Longrightarrow> length items + length vs \<le> 2 ^ 58"
  shows "gives pl (elem_cost ts) (json_elems pv f items cap (comma_join (map ((@) ws) ts) @ ws' @ 0x5D # rest)) (items @ vs, rest)"
  using assms
proof (induction vs arbitrary: ts f items cap)
  case (Cons v vs)
  obtain t ts' where ts: "ts = t # ts'" using Cons.prems(1) by (cases ts) auto
  obtain g where f: "f = Suc g" using Cons.prems(4) by (cases f) auto
  define k where "k = (if length items = cap then cap * 2 else cap)"
  have room: "gives pl 1 (json_room sizeof_json_item (length items) cap) k" unfolding k_def
    using Cons.prems by (intro room_gives) (auto simp: sizeof_json_item_def SIZE_MAX_def)
  define tail where "tail = (if vs = [] then ws' @ 0x5D # rest else 0x2C # comma_join (map ((@) ws) ts') @ ws' @ 0x5D # rest)"
  have "(ts' = []) = (vs = [])" using Cons.prems(1) ts by (auto simp: list_all2_Nil list_all2_Nil2)
  then have split: "comma_join (map ((@) ws) ts) @ ws' @ 0x5D # rest = ws @ t @ tail"
    by (auto simp: ts tail_def join_Cons)
  have "num_end tail" using num_end_after [OF Cons.prems(2), of "0x5D" rest] num_end_after [of "[]" "0x2C"] by (auto simp: tail_def)
  then have val: "gives pl (3 * length t) (pv (ws @ t @ tail)) (v, tail)" using Cons.prems(1) ts by simp
  have last: "gives pl (elem_cost ts') (jbind (jlift (json_after 0x5D tail)) (\<lambda>(more, s).
     if more then json_elems pv g (items @ [v]) k s else wret (Some (items @ [v], s)))) (items @ v # vs, rest)"
  proof (cases "vs = []")
    case True
    then have "json_after 0x5D tail = Some (False, rest)"
      using json_after_simps(1) [OF Cons.prems(2), of "0x5D" rest] by (simp add: tail_def json_space_def)
    then show ?thesis using True by (simp add: gives_ret)
  next
    case False
    then have "json_after 0x5D tail = Some (True, comma_join (map ((@) ws) ts') @ ws' @ 0x5D # rest)"
      by (simp add: tail_def json_after_simps(2))
    then show ?thesis using Cons.IH [of ts' g "items @ [v]" k] Cons.prems False ts f by (simp add: k_def)
  qed
  have "gives pl (3 * length t + (1 + elem_cost ts')) (json_elems pv f items cap (ws @ t @ tail)) (items @ v # vs, rest)"
    unfolding f json_elems.simps by (rule gives_bind [OF val], simp only: prod.case, rule gives_bind [OF room], rule last)
  then show ?case unfolding split by (simp add: elem_cost_def ts)
qed simp

text \<open>The members of an object: the key, a colon, the value.\<close>

definition field_text :: "u8 list \<Rightarrow> u8 list \<Rightarrow> u8 list" where "field_text k t = dtl_export_json_string k @ [0x3A] @ t"

definition field_cost :: "u8 list list \<Rightarrow> u8 list list \<Rightarrow> nat" where
  "field_cost ks ts = sum_list (map2 (\<lambda>k t. length k + 3 * length t + 2) ks ts)"

lemma fields_gives:
  assumes "list_all2 (\<lambda>(k, v) t. \<forall>rest. num_end rest \<longrightarrow> gives pl (3 * length t) (pv (t @ rest)) (v, rest)) kvs ts"
    "kvs \<noteq> []" "length kvs \<le> f" "length pairs \<le> cap" "0 < cap" "pl \<Longrightarrow> length pairs + length kvs \<le> 2 ^ 58"
    "pl \<Longrightarrow> list_all (\<lambda>(k, v). length k < 2 ^ 60) kvs"
  shows "gives pl (field_cost (map fst kvs) ts)
    (json_fields pv f pairs cap (comma_join (map2 field_text (map fst kvs) ts) @ 0x7D # rest)) (pairs @ kvs, rest)"
  using assms
proof (induction kvs arbitrary: ts f pairs cap)
  case (Cons kv kvs)
  obtain key v where kv: "kv = (key, v)" by (cases kv)
  obtain t ts' where ts: "ts = t # ts'" using Cons.prems(1) by (cases ts) auto
  obtain g where f: "f = Suc g" using Cons.prems(3) by (cases f) auto
  define k where "k = (if length pairs = cap then cap * 2 else cap)"
  have room: "gives pl 1 (json_room sizeof_json_pair (length pairs) cap) k" unfolding k_def
    using Cons.prems by (intro room_gives) (auto simp: sizeof_json_pair_def SIZE_MAX_def)
  define tail where "tail = (if kvs = [] then 0x7D # rest else 0x2C # comma_join (map2 field_text (map fst kvs) ts') @ 0x7D # rest)"
  have "(zip (map fst kvs) ts' = []) = (kvs = [])" using Cons.prems(1) ts by (auto simp: list_all2_Nil list_all2_Nil2 dest: list_all2_lengthD)
  then have split: "comma_join (map2 field_text (map fst (kv # kvs)) ts) @ 0x7D # rest = dtl_export_json_string key @ 0x3A # t @ tail"
    by (auto simp: ts kv tail_def join_Cons field_text_def)
  have "num_end tail" using num_end_after [of "[]" "0x7D" rest] num_end_after [of "[]" "0x2C"] by (auto simp: tail_def)
  then have val: "gives pl (3 * length t) (pv (t @ tail)) (v, tail)" using Cons.prems(1) ts kv by simp
  have str: "gives pl (Suc (length key)) (dtl_json_parse_string (dtl_export_json_string key @ 0x3A # t @ tail)) (key, 0x3A # t @ tail)"
    using Cons.prems(7) kv by (intro string_gives) simp
  have col: "dtl_json_expect 0x3A (0x3A # t @ tail) = Some (t @ tail)" by (simp add: dtl_json_expect_def json_space_def)
  have last: "gives pl (field_cost (map fst kvs) ts') (jbind (jlift (json_after 0x7D tail)) (\<lambda>(more, s).
     if more then json_fields pv g (pairs @ [(key, v)]) k s else wret (Some (pairs @ [(key, v)], s)))) (pairs @ kv # kvs, rest)"
  proof (cases "kvs = []")
    case True
    then have "json_after 0x7D tail = Some (False, rest)"
      using json_after_simps(1) [of "[]" "0x7D" rest] by (simp add: tail_def json_space_def)
    then show ?thesis using True kv by (simp add: gives_ret)
  next
    case False
    then have "json_after 0x7D tail = Some (True, comma_join (map2 field_text (map fst kvs) ts') @ 0x7D # rest)"
      by (simp add: tail_def json_after_simps(2))
    then show ?thesis using Cons.IH [of ts' g "pairs @ [(key, v)]" k] Cons.prems False ts f kv by (simp add: k_def)
  qed
  have "gives pl (Suc (length key) + (3 * length t + (1 + field_cost (map fst kvs) ts')))
      (jbind (dtl_json_parse_string (dtl_export_json_string key @ 0x3A # t @ tail)) (\<lambda>(key, s).
           jbind (jlift (dtl_json_expect 0x3A s)) (\<lambda>s. jbind (pv s) (\<lambda>(v, s).
           jbind (json_room sizeof_json_pair (length pairs) cap) (\<lambda>cap. jbind (jlift (json_after 0x7D s)) (\<lambda>(more, s).
           if more then json_fields pv g (pairs @ [(key, v)]) cap s else wret (Some (pairs @ [(key, v)], s)))))))) (pairs @ kv # kvs, rest)"
    by (rule gives_bind [OF str], simp only: prod.case col jbind_simps, rule gives_bind [OF val], simp only: prod.case,
        rule gives_bind [OF room], rule last)
  moreover have "dtl_json_skip_ws (dtl_export_json_string key @ 0x3A # t @ tail) = dtl_export_json_string key @ 0x3A # t @ tail"
    "hd (dtl_export_json_string key @ 0x3A # t @ tail) = 0x22"
    by (simp_all add: dtl_export_json_string_def json_space_def)
  ultimately show ?case unfolding split f json_fields.simps by (simp add: Let_def field_cost_def ts kv add.assoc)
qed simp

subsection \<open>The reader inverts the printer\<close>

lemma elem_cost_bound: "ts \<noteq> [] \<Longrightarrow> elem_cost ts \<le> 3 * length (comma_join (map ((@) ws) ts)) + 1"
proof -
  assume ts: "ts \<noteq> []"
  have "elem_cost ts + 2 * length ts \<le> 3 * sum_list (map (\<lambda>t. length t + 1) (map ((@) ws) ts))"
    by (induction ts) (simp_all add: elem_cost_def)
  moreover have "1 \<le> length ts" using ts by (cases ts) simp_all
  ultimately show ?thesis using join_length [of "map ((@) ws) ts"] ts by simp
qed

lemma string_length: "length k + 2 \<le> length (dtl_export_json_string k)"
proof -
  have "json_char c \<noteq> []" for c by (simp add: json_char_def)
  then have "Suc n \<le> length (json_char c) + m" if "n \<le> m" for c n m using that by (cases "json_char c") auto
  then have "length (concat (map json_char k)) \<ge> length k" by (induction k) simp_all
  then show ?thesis by (simp add: dtl_export_json_string_def)
qed

lemma field_cost_bound:
  assumes "zip ks ts \<noteq> []"
  shows "field_cost ks ts + 2 \<le> 3 * length (comma_join (map2 field_text ks ts))"
proof -
  have len: "length (field_text k t) \<ge> length k + length t + 3" for k t
    using string_length [of k] by (simp add: field_text_def)
  have "field_cost ks ts + 8 * length (zip ks ts) \<le> 3 * sum_list (map (\<lambda>t. length t + 1) (map2 field_text ks ts))"
    unfolding field_cost_def
  proof (induction ks ts rule: list_induct2')
    case (4 k ks t ts)
    then show ?case using len [of k t] by simp
  qed simp_all
  moreover have "1 \<le> length (zip ks ts)" using assms by (cases "zip ks ts") simp_all
  moreover have "length (comma_join (map2 field_text ks ts)) + 1 = sum_list (map (\<lambda>t. length t + 1) (map2 field_text ks ts))"
    by (rule join_length) (use assms in simp)
  ultimately show ?thesis by linarith
qed

lemma join_in: "t \<in> set ts \<Longrightarrow> length t \<le> length (comma_join ts)" "length ts \<le> Suc (length (comma_join ts))"
proof -
  show "length t \<le> length (comma_join ts)" if "t \<in> set ts"
  proof -
    have "length t + 1 \<le> sum_list (map (\<lambda>t. length t + 1) ts)" using that by (intro member_le_sum_list) auto
    with join_length [of ts] that show ?thesis by (cases ts) auto
  qed
  have "length ts \<le> sum_list (map (\<lambda>t. length t + 1) ts)" by (induction ts) simp_all
  then show "length ts \<le> Suc (length (comma_join ts))" using join_length [of ts] by (cases ts) auto
qed

lemma spelled_first: "json_spelled d v t \<Longrightarrow> \<exists>c u. t = c # u \<and> \<not> json_space c \<and> c \<noteq> 0x5D"
proof (cases d)
  case (Suc d')
  assume "json_spelled d v t"
  moreover have "\<exists>c u. x = c # u \<and> \<not> json_space c \<and> c \<noteq> 0x5D" if "num_ok x" for x
  proof -
    from that obtain c u where x: "x = c # u" by (cases x) (auto simp: num_ok_def)
    then have "c = 0x2D \<or> c_isdigit c" using that by (auto simp: num_ok_def json_number_def Let_def split: if_splits)
    then show ?thesis using x by (auto simp: json_space_def c_isdigit_def word_le_nat_alt)
  qed
  ultimately show ?thesis using Suc by (cases v) (auto simp: dtl_export_json_string_def json_space_def ch_def)
qed simp

lemma value_skip: "dtl_json_parse_value d (dtl_json_skip_ws s) = dtl_json_parse_value d s"
  by (cases d) (simp_all add: dtl_json_skip_ws_def)

lemma elems_skip: "(\<And>s. pv (dtl_json_skip_ws s) = pv s) \<Longrightarrow> json_elems pv f items cap (dtl_json_skip_ws s) = json_elems pv f items cap s"
  by (cases f) simp_all

lemma array_gives:
  assumes el: "list_all2 (\<lambda>v t. \<forall>rest. num_end rest \<longrightarrow> gives pl (3 * length t) (pv (ws @ t @ rest)) (v, rest)) vs ts"
    and first: "\<And>t. t \<in> set ts \<Longrightarrow> \<exists>c u. t = c # u \<and> \<not> json_space c \<and> c \<noteq> 0x5D"
    and skip: "\<And>s. pv (dtl_json_skip_ws s) = pv s" and ws: "list_all json_space ws" "list_all json_space ws'"
    and big: "pl \<Longrightarrow> length (comma_join (map ((@) ws) ts)) < 2 ^ 57"
  shows "gives pl (2 + (3 * length (comma_join (map ((@) ws) ts)) + 1))
    (dtl_json_parse_array pv (0x5B # comma_join (map ((@) ws) ts) @ ws' @ 0x5D # rest)) (JArr vs, rest)"
proof -
  define s where "s = comma_join (map ((@) ws) ts) @ ws' @ 0x5D # rest"
  have op: "gives pl 2 (json_open (8 * sizeof_json_item)) ()" by (rule open_gives) (simp_all add: sizeof_json_item_def SIZE_MAX_def)
  have len: "length vs = length ts" using el by (rule list_all2_lengthD)
  have "gives pl (3 * length (comma_join (map ((@) ws) ts)) + 1) (let t = dtl_json_skip_ws s
      in if t \<noteq> [] \<and> hd t = 0x5D then wret (Some (JArr [], tl t))
         else jbind (json_elems pv (length t + 1) [] 8 t) (\<lambda>(items, s). wret (Some (JArr items, s)))) (JArr vs, rest)"
  proof (cases "ts = []")
    case True
    then show ?thesis using ws len by (simp add: s_def json_space_def gives_ret)
  next
    case False
    then obtain t ts' where ts: "ts = t # ts'" by (cases ts) auto
    obtain c u where c: "t = c # u" "\<not> json_space c" "c \<noteq> 0x5D" using first [of t] ts by auto
    obtain z where z: "comma_join (map ((@) ws) ts) = ws @ c # z" using ts c(1) by (cases ts') (auto simp: join_Cons)
    then have sk: "dtl_json_skip_ws s = c # z @ ws' @ 0x5D # rest" using ws c by (simp add: s_def)
    have "length vs \<le> length (dtl_json_skip_ws s) + 1"
    proof -
      have "length xs + length ws \<le> sum_list (map (\<lambda>t. length t + 1) (map ((@) ws) xs)) + (if xs = [] then length ws else 0)" for xs
        by (induction xs) (auto split: if_splits)
      from this [of ts] join_length [of "map ((@) ws) ts"] False have "length ts + length ws \<le> length (ws @ c # z) + 1" by (simp add: z)
      then show ?thesis using len by (simp add: sk)
    qed
    then have "gives pl (elem_cost ts) (json_elems pv (length (dtl_json_skip_ws s) + 1) [] 8 s) ([] @ vs, rest)"
      unfolding s_def using False len big join_in(2) [of "map ((@) ws) ts"] by (intro elems_gives [OF el ws(2)]) auto
    then have "gives pl (elem_cost ts + 0) (jbind (json_elems pv (length (dtl_json_skip_ws s) + 1) [] 8 (dtl_json_skip_ws s))
        (\<lambda>(items, s). wret (Some (JArr items, s)))) (JArr vs, rest)"
      unfolding elems_skip [where pv = pv, OF skip] append_Nil by (rule gives_bind) (simp add: gives_ret)
    then show ?thesis using elem_cost_bound [OF False, of ws] sk c(3) by (simp add: Let_def) (erule gives_mono, simp)
  qed
  then show ?thesis unfolding dtl_json_parse_array_def s_def list.sel by (rule gives_bind [OF op])
qed

lemma field_in: "i < length kvs \<Longrightarrow> length kvs = length ts \<Longrightarrow> field_text (fst (kvs ! i)) (ts ! i) \<in> set (map2 field_text (map fst kvs) ts)"
  using nth_mem [of i "map2 field_text (map fst kvs) ts"] by simp

lemma map_nil_append [simp]: "map ((@) []) ts = ts"
  by (simp add: map_idI)

lemma object_gives:
  assumes el: "list_all2 (\<lambda>(k, v) t. \<forall>rest. num_end rest \<longrightarrow> gives pl (3 * length t) (pv (t @ rest)) (v, rest)) kvs ts"
    and big: "pl \<Longrightarrow> length (comma_join (map2 field_text (map fst kvs) ts)) < 2 ^ 57"
  shows "gives pl (2 + (3 * length (comma_join (map2 field_text (map fst kvs) ts)) + 1))
    (dtl_json_parse_object pv (0x7B # comma_join (map2 field_text (map fst kvs) ts) @ 0x7D # rest)) (JObj kvs, rest)"
proof -
  define s where "s = comma_join (map2 field_text (map fst kvs) ts) @ 0x7D # rest"
  have op: "gives pl 2 (json_open (8 * sizeof_json_pair)) ()" by (rule open_gives) (simp_all add: sizeof_json_pair_def SIZE_MAX_def)
  have len: "length kvs = length ts" using el by (rule list_all2_lengthD)
  have "gives pl (3 * length (comma_join (map2 field_text (map fst kvs) ts)) + 1) (let t = dtl_json_skip_ws s
      in if t \<noteq> [] \<and> hd t = 0x7D then wret (Some (JObj [], tl t))
         else jbind (json_fields pv (length t + 1) [] 8 t) (\<lambda>(pairs, s). wret (Some (JObj pairs, s)))) (JObj kvs, rest)"
  proof (cases "kvs = []")
    case True
    then show ?thesis by (simp add: s_def json_space_def gives_ret)
  next
    case False
    then obtain k v kvs' t ts' where ts: "kvs = (k, v) # kvs'" "ts = t # ts'" using len by (cases kvs; cases ts) auto
    have zne: "zip (map fst kvs) ts \<noteq> []" using ts by simp
    obtain z where z: "s = 0x22 # z" using ts by (cases "zip (map fst kvs') ts'") (auto simp: s_def join_Cons field_text_def dtl_export_json_string_def)
    then have sk: "dtl_json_skip_ws s = s" by (simp add: json_space_def)
    have n: "length kvs \<le> length s + 1" using join_in(2) [of "map2 field_text (map fst kvs) ts"] len by (simp add: s_def)
    have ks: "list_all (\<lambda>(k, v). length k < 2 ^ 60) kvs" if pl
    proof -
      have "length k < 2 ^ 60" if mem: "(k, v) \<in> set kvs" for k v
      proof -
        obtain i where i: "i < length kvs" "kvs ! i = (k, v)" using mem by (auto simp: in_set_conv_nth)
        then have "field_text k (ts ! i) \<in> set (map2 field_text (map fst kvs) ts)" using field_in [OF i(1) len] by simp
        from join_in(1) [OF this] big [OF \<open>pl\<close>] string_length [of k] show ?thesis by (simp add: field_text_def)
      qed
      then show ?thesis by (auto simp: list_all_iff)
    qed
    have "length kvs \<le> 2 ^ 58" if pl
      using join_in(2) [of "map2 field_text (map fst kvs) ts"] big [OF that] len by simp
    then have "gives pl (field_cost (map fst kvs) ts) (json_fields pv (length s + 1) [] 8 s) ([] @ kvs, rest)"
      unfolding s_def using False ks n [unfolded s_def] by (intro fields_gives [OF el]) auto
    then have "gives pl (field_cost (map fst kvs) ts + 0) (jbind (json_fields pv (length s + 1) [] 8 s)
        (\<lambda>(pairs, s). wret (Some (JObj pairs, s)))) (JObj kvs, rest)"
      unfolding append_Nil by (rule gives_bind) (simp add: gives_ret)
    then show ?thesis using field_cost_bound [OF zne] sk z by (simp add: Let_def) (erule gives_mono, simp)
  qed
  then show ?thesis unfolding dtl_json_parse_object_def s_def list.sel by (rule gives_bind [OF op])
qed

lemma word_gives: "gives pl 1 (json_word word nd (str word @ rest)) (nd, rest)"
proof -
  have "gives pl (1 + 0) (jbind (dtl_json_new nd) (\<lambda>nd. wret (Some (nd, rest)))) (nd, rest)" by (rule gives_bind [OF new_gives gives_ret])
  then show ?thesis by (simp add: json_word_def)
qed

lemma value_gives:
  assumes "json_spelled d v t" "list_all json_space ws" "num_end rest" "pl \<Longrightarrow> length t < 2 ^ 57"
  shows "gives pl (3 * length t) (dtl_json_parse_value d (ws @ t @ rest)) (v, rest)"
  using assms
proof (induction d arbitrary: v t ws rest)
  case (Suc d)
  let ?pv = "dtl_json_parse_value d"
  have drop: "dtl_json_parse_value (Suc d) (ws @ t @ rest) = dtl_json_parse_value (Suc d) (t @ rest)"
    using Suc.prems(2) by (simp only: dtl_json_parse_value.simps skip_spaces)
  have "gives pl (3 * length t) (dtl_json_parse_value (Suc d) (t @ rest)) (v, rest)"
  proof (cases v)
    case (JNum x)
    with Suc.prems have x: "num_ok x" "t = x" by simp_all
    from num_ok_first [OF x(1)] obtain c t' where c: "x = c # t'" "\<not> json_space c" "c \<notin> {0x7B, 0x5B, 0x22, 0x74, 0x66, 0x6E}" by blast
    have n: "json_number (c # t' @ rest) = Some (c # t', rest)" using number_append [OF x(1) Suc.prems(3)] c(1) by simp
    have "gives pl (Suc (1 + 0)) (jbind (w_arena_alloc (length x + 1)) (\<lambda>_. jbind (dtl_json_new (JNum x)) (\<lambda>nd. wret (Some (nd, rest))))) (JNum x, rest)"
      using Suc.prems(4) x(2) by (intro gives_alloc gives_bind [OF new_gives] gives_ret) (auto simp: SIZE_MAX_def)
    then have "gives pl (3 * length t) (jbind (w_arena_alloc (length x + 1)) (\<lambda>_. jbind (dtl_json_new (JNum x)) (\<lambda>nd. wret (Some (nd, rest))))) (JNum x, rest)"
      by (rule gives_mono) (simp add: x(2) c(1))
    then show ?thesis using c JNum x n by simp
  next
    case (JStr s)
    have t: "t = dtl_export_json_string s" using Suc.prems(1) JStr by simp
    have small: "length s < 2 ^ 60" if pl using Suc.prems(4) [OF that] string_length [of s] t by simp
    have "gives pl (Suc (length s) + (1 + 0)) (jbind (dtl_json_parse_string (t @ rest)) (\<lambda>(x, s). jbind (dtl_json_new (JStr x)) (\<lambda>nd. wret (Some (nd, s)))))
        (JStr s, rest)" unfolding t
      by (rule gives_bind [OF string_gives [OF small]], assumption, simp only: prod.case, rule gives_bind [OF new_gives gives_ret])
    then have "gives pl (3 * length t) (jbind (dtl_json_parse_string (t @ rest)) (\<lambda>(x, s). jbind (dtl_json_new (JStr x)) (\<lambda>nd. wret (Some (nd, s)))))
        (JStr s, rest)" by (rule gives_mono) (use string_length [of s] t in simp)
    moreover obtain t' where "t = 0x22 # t'" using t by (simp add: dtl_export_json_string_def)
    ultimately show ?thesis using JStr by (simp add: json_space_def)
  next
    case (JArr vs)
    then obtain ts where ts: "list_all2 (json_spelled d) vs ts" "t = [0x5B] @ comma_join ts @ [0x5D]" using Suc.prems(1) by auto
    have el: "list_all2 (\<lambda>v t. \<forall>rest. num_end rest \<longrightarrow> gives pl (3 * length t) (?pv ([] @ t @ rest)) (v, rest)) vs ts"
      unfolding list_all2_conv_all_nth
    proof (intro conjI allI impI)
      fix i rest assume i: "i < length vs" and r: "num_end rest"
      have "ts ! i \<in> set ts" using i ts(1) by (simp add: list_all2_lengthD)
      then have "length (ts ! i) < 2 ^ 57" if pl using join_in(1) [of "ts ! i" ts] Suc.prems(4) [OF that] ts(2) by simp
      then show "gives pl (3 * length (ts ! i)) (?pv ([] @ ts ! i @ rest)) (vs ! i, rest)"
        using Suc.IH [of "vs ! i" "ts ! i" "[]" rest] ts(1) i r by (simp add: list_all2_conv_all_nth)
    qed (use ts(1) in \<open>simp add: list_all2_lengthD\<close>)
    have "gives pl (2 + (3 * length (comma_join (map ((@) []) ts)) + 1))
        (dtl_json_parse_array ?pv (0x5B # comma_join (map ((@) []) ts) @ [] @ 0x5D # rest)) (JArr vs, rest)"
    proof (rule array_gives [OF el])
      show "\<exists>c w. u = c # w \<and> \<not> json_space c \<and> c \<noteq> 0x5D" if "u \<in> set ts" for u
        using that ts(1) spelled_first [of d] by (fastforce simp: list_all2_conv_all_nth in_set_conv_nth)
      show "length (comma_join (map ((@) []) ts)) < 2 ^ 57" if pl using Suc.prems(4) [OF that] ts(2) by simp
    qed (simp_all add: value_skip)
    then have "gives pl (3 * length t) (dtl_json_parse_array ?pv (t @ rest)) (JArr vs, rest)"
      unfolding ts(2) by (simp del: join_single) (erule gives_mono, simp)
    then show ?thesis using JArr ts(2) by (simp add: json_space_def)
  next
    case (JObj kvs)
    then obtain ts where ts: "list_all2 (json_spelled d) (map snd kvs) ts" "t = [0x7B] @ comma_join (map2 field_text (map fst kvs) ts) @ [0x7D]"
      using Suc.prems(1) by (auto simp: field_text_def [abs_def])
    have len: "length kvs = length ts" using list_all2_lengthD [OF ts(1)] by simp
    have "list_all2 (\<lambda>(k, v) t. \<forall>rest. num_end rest \<longrightarrow> gives pl (3 * length t) (?pv (t @ rest)) (v, rest)) kvs ts"
      unfolding list_all2_conv_all_nth split_beta
    proof (intro conjI allI impI)
      fix i rest assume i: "i < length kvs" and r: "num_end rest"
      from join_in(1) [OF field_in [OF i len]] have "length (ts ! i) < 2 ^ 57" if pl using Suc.prems(4) [OF that] ts(2) by (simp add: field_text_def)
      then show "gives pl (3 * length (ts ! i)) (?pv (ts ! i @ rest)) (snd (kvs ! i), rest)"
        using Suc.IH [of "snd (kvs ! i)" "ts ! i" "[]" rest] ts(1) i r len by (simp add: list_all2_conv_all_nth)
    qed (rule len)
    then have "gives pl (2 + (3 * length (comma_join (map2 field_text (map fst kvs) ts)) + 1))
        (dtl_json_parse_object ?pv (0x7B # comma_join (map2 field_text (map fst kvs) ts) @ 0x7D # rest)) (JObj kvs, rest)"
      by (rule object_gives) (use Suc.prems(4) ts(2) in simp)
    then have "gives pl (3 * length t) (dtl_json_parse_object ?pv (t @ rest)) (JObj kvs, rest)"
      unfolding ts(2) by simp (erule gives_mono, simp)
    then show ?thesis using JObj ts(2) by (simp add: json_space_def)
  next
    case (JBool b)
    define word where "word = (if b then ''true'' else ''false'')"
    have t: "t = str word" "length t \<ge> 1" using Suc.prems(1) JBool by (simp_all add: word_def)
    have "gives pl (3 * length t) (json_word word (JBool b) (t @ rest)) (v, rest)" unfolding t(1) JBool
      by (rule gives_mono [OF word_gives]) (use t in simp)
    then show ?thesis using JBool t(1) by (cases b) (simp_all add: word_def json_space_def ch_def)
  next
    case JNull
    have t: "t = str ''null''" using Suc.prems(1) JNull by simp
    have "gives pl (3 * length t) (json_word ''null'' JNull (t @ rest)) (v, rest)" unfolding t JNull
      by (rule gives_mono [OF word_gives]) simp
    then show ?thesis using t by (simp add: json_space_def ch_def)
  qed
  then show ?case unfolding drop .
qed simp

text \<open>The root: an array whose elements are preceded by the same spaces.\<close>

definition json_document :: "u8 list \<Rightarrow> u8 list list \<Rightarrow> u8 list \<Rightarrow> u8 list \<Rightarrow> u8 list" where
  "json_document ws ts ws' tail = 0x5B # comma_join (map ((@) ws) ts) @ ws' @ 0x5D # tail"

lemma root_valid:
  assumes "list_all2 (json_spelled DTL_JSON_MAX_DEPTH) vs ts" "list_all json_space ws" "list_all json_space ws'" "list_all json_space tail"
    "pl \<Longrightarrow> length (json_document ws ts ws' tail) < 2 ^ 57"
  shows "wvalid (spare pl (3 * length (json_document ws ts ws' tail))) (dtl_json_root (json_document ws ts ws' tail))
    (\<lambda>items _. items = vs) (\<lambda>e. e = DTL_ERR_BADRECORD \<and> \<not> pl)"
proof -
  let ?pv = "dtl_json_parse_value DTL_JSON_MAX_DEPTH" and ?s = "json_document ws ts ws' tail"
  have small: "length (comma_join (map ((@) ws) ts)) < 2 ^ 57" if pl using assms(5) [OF that] by (simp add: json_document_def)
  have el: "list_all2 (\<lambda>v t. \<forall>rest. num_end rest \<longrightarrow> gives pl (3 * length t) (?pv (ws @ t @ rest)) (v, rest)) vs ts"
    unfolding list_all2_conv_all_nth
  proof (intro conjI allI impI)
    fix i rest assume i: "i < length vs" and r: "num_end rest"
    have "ws @ ts ! i \<in> set (map ((@) ws) ts)" using i assms(1) by (simp add: list_all2_lengthD)
    then have "length (ts ! i) < 2 ^ 57" if pl using join_in(1) [of "ws @ ts ! i" "map ((@) ws) ts"] small [OF that] by simp
    moreover have "json_spelled DTL_JSON_MAX_DEPTH (vs ! i) (ts ! i)" using assms(1) i by (simp add: list_all2_conv_all_nth)
    ultimately show "gives pl (3 * length (ts ! i)) (?pv (ws @ ts ! i @ rest)) (vs ! i, rest)"
      by (intro value_gives assms(2) r)
  qed (use assms(1) in \<open>simp add: list_all2_lengthD\<close>)
  have "gives pl (2 + (3 * length (comma_join (map ((@) ws) ts)) + 1)) (dtl_json_parse_array ?pv ?s) (JArr vs, tail)"
    unfolding json_document_def
  proof (rule array_gives [OF el])
    show "\<exists>c w. u = c # w \<and> \<not> json_space c \<and> c \<noteq> 0x5D" if "u \<in> set ts" for u
      using that assms(1) spelled_first [of DTL_JSON_MAX_DEPTH] by (fastforce simp: list_all2_conv_all_nth in_set_conv_nth)
    show "length (comma_join (map ((@) ws) ts)) < 2 ^ 57" if pl by (rule small [OF that])
  qed (simp_all add: value_skip assms(2,3))
  then have "gives pl (3 * length ?s) (dtl_json_parse_array ?pv ?s) (JArr vs, tail)"
    by (rule gives_mono) (simp add: json_document_def)
  then have arr: "wvalid (spare pl (3 * length ?s)) (dtl_json_parse_array ?pv ?s)
      (\<lambda>r w. case r of None \<Rightarrow> \<not> pl | Some y \<Rightarrow> y = (JArr vs, tail) \<and> spare pl 0 w) (\<lambda>e. e = DTL_ERR_BADRECORD \<and> \<not> pl)"
    unfolding gives_def by (elim allE [of _ 0] wvalid_weaken) simp_all
  have end_: "dtl_json_skip_ws tail = []" using skip_spaces [OF assms(4), of "[]"] by (simp add: dtl_json_skip_ws_def)
  have "wvalid (\<lambda>w. case r of None \<Rightarrow> \<not> pl | Some y \<Rightarrow> y = (JArr vs, tail) \<and> spare pl 0 w)
      (case r of Some (JArr items, s) \<Rightarrow> if dtl_json_skip_ws s \<noteq> [] then wfail DTL_ERR_BADRECORD else wret items
              | _ \<Rightarrow> wfail DTL_ERR_BADRECORD) (\<lambda>items _. items = vs) (\<lambda>e. e = DTL_ERR_BADRECORD \<and> \<not> pl)" for r
  proof (cases r)
    case None
    then show ?thesis by (simp add: wvalid_fail)
  next
    case (Some y)
    show ?thesis
    proof (cases "y = (JArr vs, tail)")
      case True
      then show ?thesis using Some end_ by (auto intro!: wvalid_ret)
    qed (simp add: Some wvalid_def)
  qed
  from wvalid_bind [OF arr this] show ?thesis
    by (simp add: dtl_json_root_def json_document_def json_space_def Let_def)
qed

lemma root_safe:
  "wvalid (\<lambda>_. True) (dtl_json_root data) (\<lambda>_ _. True) (\<lambda>e. e = DTL_ERR_BADRECORD)"
proof (cases "dtl_json_skip_ws data = [] \<or> hd (dtl_json_skip_ws data) \<noteq> 0x5B")
  case False
  let ?pv = "dtl_json_parse_value DTL_JSON_MAX_DEPTH" and ?s = "dtl_json_skip_ws data"
  have "wvalid (\<lambda>_. True) (dtl_json_parse_array ?pv ?s) (\<lambda>_ _. True) (\<lambda>e. e = DTL_ERR_BADRECORD)"
    using array_leaves [OF value_consuming, of ?s DTL_JSON_MAX_DEPTH] False unfolding leaves_def by (auto elim!: wvalid_weaken)
  then have "wvalid (\<lambda>_. True) (wbind (dtl_json_parse_array ?pv ?s) (\<lambda>r.
      case r of Some (JArr items, s) \<Rightarrow> if dtl_json_skip_ws s \<noteq> [] then wfail DTL_ERR_BADRECORD else wret items
              | _ \<Rightarrow> wfail DTL_ERR_BADRECORD)) (\<lambda>_ _. True) (\<lambda>e. e = DTL_ERR_BADRECORD)"
    by (rule wvalid_bind) (auto split: option.split dtl_json_node.split intro!: wvalid_ret wvalid_fail)
  then show ?thesis using False by (simp add: dtl_json_root_def Let_def)
qed (auto simp: dtl_json_root_def Let_def intro!: wvalid_fail)

end
