(* ===== verification/Report_Json_Trip.thy ===== *)
theory Report_Json_Trip
  imports Report_Json_Spec Report_Csv_Trip
begin

text \<open>
  Importing exported JSON: the tree of a record is what the printer spells, the conversion gives the
  record back, and so does the whole import.  At the end the properties of the JSON tools.
\<close>

subsection \<open>The tree of a record\<close>

definition u_node :: "'a :: len word \<Rightarrow> dtl_json_node \<times> u8 list" where
  "u_node v = (let t = str (fmt_u (unat v)) in (JNum t, t))"

definition d_node :: "'a :: len word \<Rightarrow> dtl_json_node \<times> u8 list" where
  "d_node v = (let t = str (fmt_d (sint v)) in (JNum t, t))"

definition s_node :: "u8 list \<Rightarrow> dtl_json_node \<times> u8 list" where
  "s_node s = (JStr s, dtl_export_json_string s)"

definition off_node :: "dtl_json_node \<times> u8 list" where "off_node = (JBool False, str ''false'')"

definition version_text :: "dtl_firmware \<Rightarrow> u8 list" where
  "version_text f = str (fmt_u (unat (fw_major f))) @ str ''.'' @ str (fmt_u (unat (fw_minor f))) @ str ''.'' @ str (fmt_u (unat (fw_patch f)))"

definition samples_node :: "(u32 \<Rightarrow> u8 list) \<Rightarrow> u8 list \<Rightarrow> dtl_json_node \<times> u8 list" where
  "samples_node g9 bs = (JArr (map (JNum \<circ> g9) (words bs)), str ''['' @ comma_join (map g9 (words bs)) @ str '']'')"

definition pairs_node :: "(u8 list \<times> u8 list) list \<Rightarrow> dtl_json_node \<times> u8 list" where
  "pairs_node kvs = (JObj (map (\<lambda>(k, v). (k, JStr v)) kvs),
     str ''{'' @ comma_join (map (\<lambda>(k, v). dtl_export_json_string k @ str '':'' @ dtl_export_json_string v) kvs) @ str ''}'')"

text \<open>The members with their trees and texts.\<close>

fun members :: "(u32 \<Rightarrow> u8 list) \<Rightarrow> rec_val \<Rightarrow> (string \<times> dtl_json_node \<times> u8 list) list" where
  "members g9 (VHeartbeat h) = [(''uptime_s'', u_node (hb_uptime_s h)), (''seq'', u_node (hb_seq h))]"
| "members g9 (VSensor i bs) = [(''sensor_id'', u_node i), (''samples'', samples_node g9 bs)]"
| "members g9 (VEvent c bs) = [(''code'', u_node c), (''payload_hex'', s_node (hex_bytes bs))]"
| "members g9 (VDiag c bs) = [(''subsystem'', u_node c), (''redacted'', off_node), (''blob_hex'', s_node (hex_bytes bs))]"
| "members g9 (VGeo g) = [(''lat_e7'', d_node (geo_lat_e7 g)), (''lon_e7'', d_node (geo_lon_e7 g)), (''alt_mm'', d_node (geo_alt_mm g))]"
| "members g9 (VBattery b) = [(''pct'', u_node (bat_pct b)), (''temp_c_e1'', d_node (bat_temp_c_e1 b)), (''cycles'', u_node (bat_cycles b))]"
| "members g9 (VNet n) = [(''iface_id'', u_node (net_iface_id n)), (''rx_bytes'', u_node (net_rx_bytes n)), (''tx_bytes'', u_node (net_tx_bytes n)),
     (''rx_pkts'', u_node (net_rx_pkts n)), (''tx_pkts'', u_node (net_tx_pkts n))]"
| "members g9 (VLog s msg) = [(''severity'', u_node s), (''msg'', s_node msg)]"
| "members g9 (VConfig kvs) = [(''pairs'', pairs_node kvs)]"
| "members g9 (VKeyref s l) = [(''slot_id'', u_node s), (''redacted'', off_node), (''label'', s_node l)]"
| "members g9 (VFirmware f) = [(''version'', s_node (version_text f)), (''hash_hex'', s_node (hex_bytes (fw_hash f)))]"

definition value_members :: "(u32 \<Rightarrow> u8 list) \<Rightarrow> nat \<Rightarrow> rec_val \<Rightarrow> (string \<times> dtl_json_node \<times> u8 list) list" where
  "value_members g9 i v = (''index'', JNum (str (fmt_u i)), str (fmt_u i)) # (''tag'', u_node (val_tag v)) #
     (''type'', s_node (str (dtl_walk_tag_name (val_tag v)))) # members g9 v"

definition value_node :: "(u32 \<Rightarrow> u8 list) \<Rightarrow> nat \<Rightarrow> rec_val \<Rightarrow> dtl_json_node" where
  "value_node g9 i v = JObj (map (\<lambda>(n, nd, t). (str n, nd)) (value_members g9 i v))"

text \<open>What a value must satisfy to survive: strings without NUL, samples that the float conversions preserve.\<close>

fun json_ok :: "(u8 list \<Rightarrow> u32 option) \<Rightarrow> (u32 \<Rightarrow> u8 list) \<Rightarrow> rec_val \<Rightarrow> bool" where
  "json_ok strtof g9 (VSensor i bs) \<longleftrightarrow> length bs mod 4 = 0 \<and> length bs \<le> 1020 \<and>
     list_all (\<lambda>b. num_ok (g9 b) \<and> strtof (g9 b) = Some b) (words bs)"
| "json_ok strtof g9 (VEvent c bs) \<longleftrightarrow> length bs \<le> 65535"
| "json_ok strtof g9 (VDiag c bs) \<longleftrightarrow> length bs \<le> 65535"
| "json_ok strtof g9 (VLog s msg) \<longleftrightarrow> 0 \<notin> set msg \<and> length msg \<le> 65535"
| "json_ok strtof g9 (VConfig kvs) \<longleftrightarrow> length kvs \<le> 255 \<and> list_all (\<lambda>(k, v). 0 \<notin> set k \<and> 0 \<notin> set v) kvs"
| "json_ok strtof g9 (VKeyref s l) \<longleftrightarrow> 0 \<notin> set l \<and> length l \<le> 255"
| "json_ok strtof g9 (VFirmware f) \<longleftrightarrow> length (fw_hash f) = 8"
| "json_ok strtof g9 _ \<longleftrightarrow> True"

lemma spelled_leaves:
  "json_spelled (Suc d) (fst (u_node (v :: 'a :: len word))) (snd (u_node v))" "json_spelled (Suc d) (fst (d_node v)) (snd (d_node v))"
  "json_spelled (Suc d) (fst (s_node s)) (snd (s_node s))" "json_spelled (Suc d) (fst off_node) (snd off_node)"
  by (simp_all add: u_node_def d_node_def s_node_def off_node_def num_ok_u num_ok_d Let_def)

lemma spelled_samples:
  "list_all (\<lambda>b. num_ok (g9 b)) (words bs) \<Longrightarrow> json_spelled (Suc (Suc d)) (fst (samples_node g9 bs)) (snd (samples_node g9 bs))"
  by (auto simp: samples_node_def list_all2_map1 list_all2_map2 list_all2_same list_all_iff ch_def intro!: exI [of _ "map g9 (words bs)"])

lemma spelled_pairs: "json_spelled (Suc (Suc d)) (fst (pairs_node kvs)) (snd (pairs_node kvs))"
proof -
  have "map2 (\<lambda>k t. dtl_export_json_string k @ 0x3A # t) (map fst kvs) (map (dtl_export_json_string \<circ> snd) kvs) =
      map (\<lambda>(k, v). dtl_export_json_string k @ 0x3A # dtl_export_json_string v) kvs"
    by (induction kvs) auto
  then show ?thesis
    by (auto simp: pairs_node_def list_all2_map1 list_all2_map2 list_all2_same split_def o_def ch_def
        intro!: exI [of _ "map (dtl_export_json_string \<circ> snd) kvs"])
qed

lemma members_spelled:
  assumes "json_ok sf g9 v"
  shows "list_all (\<lambda>(n, nd, t). json_spelled (Suc (Suc d)) nd t) (members g9 v)"
proof (cases v)
  case (VSensor i bs)
  then have "list_all (\<lambda>b. num_ok (g9 b)) (words bs)" using assms by (auto simp: list_all_iff)
  then show ?thesis using VSensor by (simp add: split_beta spelled_leaves spelled_samples del: json_spelled.simps)
qed (simp_all add: split_beta spelled_leaves spelled_pairs del: json_spelled.simps)

text \<open>Text without escapes.\<close>

definition literal_char :: "u8 \<Rightarrow> bool" where "literal_char c \<longleftrightarrow> \<not> c < 0x20 \<and> c \<noteq> 0x22 \<and> c \<noteq> 0x5C"

abbreviation literal :: "u8 list \<Rightarrow> bool" where "literal s \<equiv> list_all literal_char s"

lemma literal_string: "literal s \<Longrightarrow> dtl_export_json_string s = [0x22] @ s @ [0x22]"
proof -
  assume s: "literal s"
  have "json_char c = [c]" if "c \<in> set s" for c
  proof -
    have "c \<noteq> 0x0A" "c \<noteq> 0x0D" "c \<noteq> 0x09" using s that by (auto simp: literal_char_def list_all_iff)
    then show ?thesis using s that by (simp add: json_char_def literal_char_def list_all_iff)
  qed
  then have "concat (map json_char s) = s" by (induction s) auto
  then show ?thesis by (simp add: dtl_export_json_string_def)
qed

lemma literal_digit: "d < 16 \<Longrightarrow> literal_char (ch (digit d))"
  using unat_ch_digit [of d] by (auto simp: literal_char_def word_less_nat_alt split: if_splits)

lemma literal_hex: "literal (hex_bytes bs)"
proof (induction bs)
  case (Cons b bs)
  then show ?case using literal_digit nibbles [of b] by (simp add: hex_bytes_def hex_byte)
qed (simp add: hex_bytes_def)

lemma literal_u: "literal (str (fmt_u n))"
proof -
  have "literal_char c" if "c_isdigit c" for c using that by (auto simp: c_isdigit_def literal_char_def word_le_nat_alt word_less_nat_alt)
  then show ?thesis using digits_all by (auto simp: fmt_u_def str_def list_all_iff)
qed

lemma literal_version: "literal (version_text f)"
  by (simp add: version_text_def literal_u literal_char_def ch_def)

lemma members_text: "concat (map (\<lambda>(n, nd, t). member n @ t) (members g9 v)) = json_members g9 v"
  by (cases v) (simp_all add: u_node_def d_node_def s_node_def off_node_def samples_node_def pairs_node_def Let_def
      literal_string [OF literal_hex] literal_string [OF literal_version] member_u_def member_d_def member_hex_def member_bool_def,
      simp add: version_text_def)

lemma quoted_name: "list_all (\<lambda>c. literal_char (ch c)) name \<Longrightarrow> quoted name = dtl_export_json_string (str name)"
proof -
  assume "list_all (\<lambda>c. literal_char (ch c)) name"
  then have "literal (str name)" by (auto simp: list_all_iff str_def)
  then show ?thesis by (simp add: quoted_def literal_string)
qed

lemma names_literal: "list_all (\<lambda>(n, nd, t). list_all (\<lambda>c. literal_char (ch c)) n) (value_members g9 i v)"
  by (cases v) (simp_all add: value_members_def literal_char_def ch_def)

lemma tag_name_literal: "list_all (\<lambda>c. literal_char (ch c)) (dtl_walk_tag_name (val_tag v))"
  by (cases v) (simp_all add: dtl_walk_tag_name_def rec_tags literal_char_def ch_def)

text \<open>The object the exporter prints spells the tree.\<close>

lemma join_members:
  assumes "list_all (\<lambda>(n, nd, t). list_all (\<lambda>c. literal_char (ch c)) n) ms"
  shows "concat (map (Cons 0x2C) (map2 field_text (map fst (map (\<lambda>(n, nd, t). (str n, nd)) ms)) (map (snd \<circ> snd) ms))) =
    concat (map (\<lambda>(n, nd, t). member n @ t) ms)"
  using assms
proof (induction ms)
  case (Cons m ms)
  obtain n nd t where "m = (n, nd, t)" by (cases m)
  with Cons show ?case by (simp add: member_def quoted_name field_text_def ch_def)
qed simp

lemma value_spelled:
  assumes "json_ok sf g9 v"
  shows "\<exists>t. json_object g9 i v = str ''  '' @ t \<and> json_spelled (Suc (Suc (Suc d))) (value_node g9 i v) t"
proof (intro exI conjI)
  let ?ms = "value_members g9 i v"
  let ?kvs = "map (\<lambda>(n, nd, t). (str n, nd)) ?ms" and ?ts = "map (snd \<circ> snd) ?ms"
  let ?t = "[0x7B] @ comma_join (map2 field_text (map fst ?kvs) ?ts) @ [0x7D]"
  have "list_all (\<lambda>(n, nd, t). json_spelled (Suc (Suc d)) nd t) ?ms"
    using members_spelled [OF assms, of d] 
    by (simp add: value_members_def split_beta spelled_leaves del: json_spelled.simps) (simp add: num_ok_u)
  then have "list_all2 (json_spelled (Suc (Suc d))) (map snd ?kvs) ?ts"
    by (auto simp: list_all2_map1 list_all2_map2 list_all2_same list_all_iff split_beta simp del: json_spelled.simps)
  then show "json_spelled (Suc (Suc (Suc d))) (value_node g9 i v) ?t"
    unfolding value_node_def by (auto simp: field_text_def [abs_def] simp del: map_map)
  have tail: "concat (map (Cons 0x2C) (map2 field_text (map fst (map (\<lambda>(n, nd, t). (str n, nd)) (tl ?ms))) (map (snd \<circ> snd) (tl ?ms)))) =
      concat (map (\<lambda>(n, nd, t). member n @ t) (tl ?ms))"
    by (rule join_members) (use names_literal [of g9 i v] in \<open>simp add: value_members_def\<close>)
  have lit: "list_all (\<lambda>c. literal_char (ch c)) ''index''" by (simp add: literal_char_def ch_def)
  have head: "field_text (str ''index'') (str (fmt_u i)) = quoted ''index'' @ str '':'' @ str (fmt_u i)"
    unfolding quoted_name [OF lit] by (simp add: field_text_def ch_def)
  have "comma_join (map2 field_text (map fst ?kvs) ?ts) = field_text (str ''index'') (str (fmt_u i)) @
      concat (map (Cons 0x2C) (map2 field_text (map fst (map (\<lambda>(n, nd, t). (str n, nd)) (tl ?ms))) (map (snd \<circ> snd) (tl ?ms))))"
    by (simp add: value_members_def comma_join.simps(2))
  then have "comma_join (map2 field_text (map fst ?kvs) ?ts) =
      quoted ''index'' @ str '':'' @ str (fmt_u i) @ concat (map (\<lambda>(n, nd, t). member n @ t) (tl ?ms))"
    unfolding tail head by simp
  then show "json_object g9 i v = str ''  '' @ ?t"
    using members_text [of g9 v] quoted_name [OF tag_name_literal, of v]
    by (simp add: json_object_def value_members_def member_u_def u_node_def s_node_def Let_def ch_def)
qed

subsection \<open>Members are found\<close>

lemma ch_inj: "ch c = ch d \<longleftrightarrow> c = d"
proof
  assume "ch c = ch d"
  moreover have "unat (ch e) = of_char e" for e
    using ch_char_of [of "of_char e"] by (simp add: unat_of_nat)
  ultimately have "(of_char c :: nat) = of_char d" by metis
  then show "c = d" by simp
qed simp

lemma get_member:
  assumes "list_all (\<lambda>(n, nd, t). list_all (\<lambda>c. literal_char (ch c)) n) ms"
  shows "dtl_json_get (JObj (map (\<lambda>(n, nd, t). (str n, nd)) ms)) key = map_of (map (\<lambda>(n, nd, t). (n, nd)) ms) key"
proof -
  have c: "c_string (str n) = str n" if "list_all (\<lambda>c. literal_char (ch c)) n" for n
    using that by (auto simp: c_string_def str_def takeWhile_eq_all_conv list_all_iff literal_char_def)
  have k: "str n = str key \<longleftrightarrow> n = key" for n
    using inj_map_eq_map [of ch n key] by (auto simp: str_def inj_def ch_inj)
  show ?thesis unfolding dtl_json_get_def dtl_json_node.case using assms
  proof (induction ms)
    case (Cons m ms)
    obtain n nd t where m: "m = (n, nd, t)" by (cases m)
    show ?case using Cons c [of n] k [of n] by (auto simp: m)
  qed simp
qed

lemmas node_get = get_member [OF names_literal, folded value_node_def]

lemma node_u: "map_of (map (\<lambda>(n, nd, t). (n, nd)) (value_members g9 i v)) key = Some (fst (u_node (x :: 'a :: len word))) \<Longrightarrow> LENGTH('a) \<le> 32 \<Longrightarrow>
    dtl_json_u32 (value_node g9 i v) key = Some (ucast x)"
  by (simp add: dtl_json_u32_def node_get u_node_def Let_def text_u32_word)

lemma node_d: "map_of (map (\<lambda>(n, nd, t). (n, nd)) (value_members g9 i v)) key = Some (fst (d_node (x :: 'a :: len word))) \<Longrightarrow> LENGTH('a) \<le> 32 \<Longrightarrow>
    dtl_json_i32 (value_node g9 i v) key = Some (scast x)"
  using text_i32_fmt sint_i32 [of x] by (simp add: dtl_json_i32_def node_get d_node_def Let_def)

lemma node_s: "map_of (map (\<lambda>(n, nd, t). (n, nd)) (value_members g9 i v)) key = Some (fst (s_node x)) \<Longrightarrow>
    dtl_json_str (value_node g9 i v) key = Some (c_string x)"
  by (simp add: dtl_json_str_def node_get s_node_def)

lemma node_off: "map_of (map (\<lambda>(n, nd, t). (n, nd)) (value_members g9 i v)) key = Some (fst off_node) \<Longrightarrow>
    dtl_json_bool (value_node g9 i v) key = Some False"
  by (simp add: dtl_json_bool_def node_get off_node_def)

lemma given_Some [simp]: "w_given (Some x) = wret x"
  by (simp add: w_given_def)

lemmas node_simps = node_u node_d node_s node_off value_members_def split_beta

subsection \<open>Trees to records\<close>

lemma jyields_flat:
  "yields (wmap RHeartbeat (jimport_heartbeat (value_node g9 i (VHeartbeat h)))) (VHeartbeat h)"
  "yields (wmap RGeo (jimport_geo (value_node g9 i (VGeo g)))) (VGeo g)"
  "yields (wmap RNet (jimport_net (value_node g9 i (VNet n)))) (VNet n)"
  by (auto simp: jimport_heartbeat_def jimport_geo_def jimport_net_def node_simps intro!: yields_ret)

lemma jyields_battery: "yields (wmap RBattery (jimport_battery (value_node g9 i (VBattery b)))) (VBattery b)"
proof -
  have "sint (scast (bat_temp_c_e1 b) :: u32) = sint (bat_temp_c_e1 b)" by (simp add: sint_up_scast is_up)
  moreover have "- 32768 \<le> sint (bat_temp_c_e1 b)" "sint (bat_temp_c_e1 b) \<le> 32767"
    using sint_ge [of "bat_temp_c_e1 b"] sint_lt [of "bat_temp_c_e1 b"] by simp_all
  moreover have "ucast (scast (bat_temp_c_e1 b) :: u32) = bat_temp_c_e1 b" by (rule bit_word_eqI) (auto simp: bit_simps)
  ultimately show ?thesis by (auto simp: jimport_battery_def node_simps intro!: yields_ret)
qed

lemma c_string_id: "0 \<notin> set s \<Longrightarrow> c_string s = s"
  by (auto simp: c_string_def takeWhile_eq_all_conv)

lemma literal_c_string: "literal s \<Longrightarrow> c_string s = s"
  by (rule c_string_id) (auto simp: list_all_iff literal_char_def)

lemma scan_number: "rest = [] \<or> \<not> c_isdigit (hd rest) \<Longrightarrow> scan_u (str (fmt_u (unat (x :: u16))) @ rest) = Ok (Some (ucast x, rest))"
proof -
  assume "rest = [] \<or> \<not> c_isdigit (hd rest)"
  then have "c_number (str (fmt_u (unat x)) @ rest) = Some (False, unat x, rest)" by (rule number_digits(1))
  moreover have "\<not> unat x \<ge> 18446744073709551616" using unat_le_65535 [of x] by linarith
  moreover have "\<not> unat x > 0xFFFFFFFF" using unat_le_65535 [of x] by linarith
  ultimately show ?thesis by (simp add: scan_u_def c_strtoul_def)
qed

lemma scan_version_text: "scan_version 3 (version_text f) = Ok (Some [ucast (fw_major f), ucast (fw_minor f), ucast (fw_patch f)])"
proof -
  have dot: "\<not> c_isdigit (ch CHR ''.'')" "ch CHR ''.'' = 0x2E" by (simp_all add: c_isdigit_def ch_def)
  have three: "(3 :: nat) = Suc (Suc (Suc 0))" by simp
  show ?thesis unfolding three using dot scan_number [of "[]" "fw_patch f"]
    by (simp add: version_text_def scan_number scan_dot_def)
qed

lemma jyields_firmware:
  "json_ok sf g9 (VFirmware f) \<Longrightarrow> yields (wmap RFirmware (jimport_firmware (value_node g9 i (VFirmware f)))) (VFirmware f)"
  by (auto simp: jimport_firmware_def node_simps literal_c_string literal_version literal_hex scan_version_text text_hex_bytes intro!: yields_ret)

lemma jyields_log:
  assumes "json_ok sf g9 (VLog s msg)"
  shows "yields (wmap RLog (jimport_log (value_node g9 i (VLog s msg)))) (VLog s msg)"
proof -
  have l: "length msg \<le> 65535" "c_string msg = msg" using assms by (simp_all add: c_string_id)
  then have u: "unat (of_nat (length msg) :: u16) = length msg" by (simp add: unat_of_nat_u16)
  have "wmap RLog (jimport_log (value_node g9 i (VLog s msg))) =
    wbind (dtl_field_dup msg) (\<lambda>p. case p of None \<Rightarrow> wfail DTL_ERR_OOM
      | Some p \<Rightarrow> wret (RLog \<lparr>log_severity = s, log_msg_len = of_nat (length msg), log_msg = Some p\<rparr>))"
    using l by (simp add: jimport_log_def node_simps wmap_bind wmap_option cong: option.case_cong)
  then show ?thesis using u by (simp only:) (rule yields_dup, simp_all)
qed

lemma jyields_keyref:
  assumes "json_ok sf g9 (VKeyref s l)"
  shows "yields (wmap RKeyref (jimport_keyref (value_node g9 i (VKeyref s l)))) (VKeyref s l)"
proof -
  have l: "length l \<le> 255" "c_string l = l" using assms by (simp_all add: c_string_id)
  then have u: "unat (of_nat (length l) :: u8) = length l" by (simp add: unat_of_nat_u8)
  have "wmap RKeyref (jimport_keyref (value_node g9 i (VKeyref s l))) =
    wbind (dtl_field_dup l) (\<lambda>p. case p of None \<Rightarrow> wfail DTL_ERR_OOM
      | Some p \<Rightarrow> wret (RKeyref \<lparr>kr_slot_id = s, kr_label_len = of_nat (length l), kr_label = Some p, kr_redacted = 0\<rparr>))"
    using l by (simp add: jimport_keyref_def node_simps wmap_bind wmap_option cong: option.case_cong)
  then show ?thesis using u by (simp only:) (rule yields_dup, simp_all)
qed

text \<open>The bytes of an event or a diagnostic.\<close>

lemma jbytes_valid:
  assumes "length bs \<le> 65535"
  shows "wvalid (\<lambda>_. True) (jimport_bytes (hex_bytes bs))
    (\<lambda>(p, n) w. unat n = length bs \<and> deref_bytes (w_mem w) p (length bs) = Ok bs) (\<lambda>e. e = DTL_ERR_OOM)"
proof -
  have n: "unat (of_nat (length bs) :: u16) = length bs" using assms by (simp add: unat_of_nat_u16)
  have "wvalid (\<lambda>w. region_ok (w_mem w) p (length bs + 1)) (wbind (w_store p bs) (\<lambda>_. wret (if length bs \<noteq> 0 then Some p else None, of_nat (length bs) :: u16)))
      (\<lambda>(p, n) w. unat n = length bs \<and> deref_bytes (w_mem w) p (length bs) = Ok bs) (\<lambda>e. e = DTL_ERR_OOM)" for p
    by (rule store_step, simp, rule wvalid_ret) (use n in \<open>auto simp: deref_bytes_def\<close>)
  then have "wvalid (\<lambda>_. True) (wbind (w_alloc_or_oom (length bs + 1)) (\<lambda>p. wbind (w_store p bs) (\<lambda>_.
      wret (if length bs \<noteq> 0 then Some p else None, of_nat (length bs) :: u16))))
      (\<lambda>(p, n) w. unat n = length bs \<and> deref_bytes (w_mem w) p (length bs) = Ok bs) (\<lambda>e. e = DTL_ERR_OOM)"
    by (rule alloc_step)
  then show ?thesis using assms by (simp add: jimport_bytes_def store_hex_def text_hex_bytes wbind_assoc)
qed

lemma jyields_bytes:
  assumes len: "length bs \<le> 65535"
    and view: "\<And>m p n. unat n = length bs \<Longrightarrow> deref_bytes m p (length bs) = Ok bs \<Longrightarrow> record_view m (r p n) = Ok v"
    and shape: "\<And>p n. rec_shape (r p n) \<and> rec_tag (r p n) = val_tag v"
  shows "yields (wbind (jimport_bytes (hex_bytes bs)) (\<lambda>x. wret (r (fst x) (snd x)))) v"
  unfolding yields_def
  by (rule wvalid_bind [OF jbytes_valid [OF len]], rule wvalid_ret) (use view shape in auto)

lemma jyields_event:
  assumes "json_ok sf g9 (VEvent c bs)"
  shows "yields (wmap REvent (jimport_event (value_node g9 i (VEvent c bs)))) (VEvent c bs)"
proof -
  have "wmap REvent (jimport_event (value_node g9 i (VEvent c bs))) = wbind (jimport_bytes (hex_bytes bs)) (\<lambda>x.
      wret (REvent \<lparr>ev_code = c, ev_payload_len = snd x, ev_payload = fst x\<rparr>))"
    by (simp add: jimport_event_def node_simps literal_c_string literal_hex)
  then show ?thesis
    using jyields_bytes [of bs "\<lambda>p n. REvent \<lparr>ev_code = c, ev_payload_len = n, ev_payload = p\<rparr>" "VEvent c bs"] assms by simp
qed

lemma jyields_diag:
  assumes "json_ok sf g9 (VDiag c bs)"
  shows "yields (wmap RDiag (jimport_diag (value_node g9 i (VDiag c bs)))) (VDiag c bs)"
proof -
  have "wmap RDiag (jimport_diag (value_node g9 i (VDiag c bs))) = wbind (jimport_bytes (hex_bytes bs)) (\<lambda>x.
      wret (RDiag \<lparr>dg_subsystem = c, dg_blob_len = snd x, dg_blob = fst x, dg_redacted = 0\<rparr>))"
    by (simp add: jimport_diag_def node_simps literal_c_string literal_hex)
  then show ?thesis
    using jyields_bytes [of bs "\<lambda>p n. RDiag \<lparr>dg_subsystem = c, dg_blob_len = n, dg_blob = p, dg_redacted = 0\<rparr>" "VDiag c bs"] assms by simp
qed

text \<open>The samples.\<close>

lemma malloc_or_oom_valid: "wvalid (\<lambda>_. True) (w_malloc_or_oom n) (\<lambda>p w. region_ok (w_mem w) p n) (\<lambda>e. e = DTL_ERR_OOM)"
  unfolding w_malloc_or_oom_def
proof (rule wvalid_bind [OF malloc_valid])
  fix b show "wvalid (\<lambda>w. \<forall>c. b = Some c \<longrightarrow> region_ok (w_mem w) (c, 0) n) (case b of None \<Rightarrow> wfail DTL_ERR_OOM | Some b \<Rightarrow> wret (b, 0))
      (\<lambda>p w. region_ok (w_mem w) p n) (\<lambda>e. e = DTL_ERR_OOM)"
    by (cases b) (auto intro!: wvalid_ret wvalid_fail)
qed

lemma jsamples_valid:
  assumes "list_all (\<lambda>b. sf (g9 b) = Some b) ws" "4 * (cnt + length ws) \<le> n"
  shows "wvalid (\<lambda>w. region_ok (w_mem w) p n \<and> load_bytes (w_mem w) p (4 * cnt) = Ok sofar)
    (jimport_samples sf p cnt (map (JNum \<circ> g9) ws))
    (\<lambda>_ w. load_bytes (w_mem w) p (4 * (cnt + length ws)) = Ok (sofar @ concat (map dtl_endian_write_u32le ws))) E"
  using assms
proof (induction ws arbitrary: cnt sofar)
  case (Cons b ws)
  let ?P = "\<lambda>k xs w. region_ok (w_mem w) p n \<and> load_bytes (w_mem w) p (4 * k) = Ok xs"
  have "wvalid (?P cnt sofar) (w_store (fst p, snd p + 4 * cnt) (dtl_endian_write_u32le b)) (\<lambda>_. ?P (cnt + 1) (sofar @ dtl_endian_write_u32le b)) E"
  proof (rule wvalidI)
    fix w assume w: "world_ok w" and P: "?P cnt sofar w"
    have "region_ok (w_mem w) (fst p, snd p + 4 * cnt) (length (dtl_endian_write_u32le b))"
      using P Cons.prems(2) by (auto simp: region_ok_def split: option.splits)
    then obtain m where m: "store_bytes (w_mem w) (fst p, snd p + 4 * cnt) (dtl_endian_write_u32le b) = Ok m"
      using store_bytes_Ok_iff by blast
    have "load_bytes m p (4 * (cnt + 1)) = Ok (sofar @ dtl_endian_write_u32le b)"
      using store_after [OF conjunct2 [OF P] m] by (simp add: add.commute)
    with m world_ok_store [OF w m] P store_bytes_region_ok [OF m]
    show "wpost (\<lambda>_. ?P (cnt + 1) (sofar @ dtl_endian_write_u32le b)) E (w_store (fst p, snd p + 4 * cnt) (dtl_endian_write_u32le b) w)"
      by (simp add: w_store_def)
  qed
  from wvalid_bind [OF this Cons.IH [of "cnt + 1"]] Cons.prems show ?case by simp
qed (auto intro!: wvalid_ret)

lemma jyields_sensor:
  assumes "json_ok sf g9 (VSensor i bs)"
  shows "yields (wmap RSensor (jimport_sensor sf (value_node g9 j (VSensor i bs)))) (VSensor i bs)"
proof -
  let ?ws = "words bs"
  have k: "length bs = 4 * length ?ws" "length ?ws \<le> 255" and ok: "list_all (\<lambda>b. sf (g9 b) = Some b) ?ws"
    using assms by (auto simp: length_words list_all_iff)
  define c :: u8 where "c = of_nat (length ?ws)"
  have c: "unat c = length ?ws" "c = 0 \<longleftrightarrow> ?ws = []" using k(2) unat_eq_zero [of c] by (auto simp: c_def unat_of_nat_u8)
  let ?n = "(if c \<noteq> 0 then unat c else 1) * 4"
  let ?r = "\<lambda>p. RSensor \<lparr>sen_sensor_id = i, sen_count = c, sen_samples = if length ?ws \<noteq> 0 then Some p else None\<rparr>"
  let ?Q = "\<lambda>r w. record_view (w_mem w) r = Ok (VSensor i bs) \<and> rec_shape r \<and> rec_tag r = val_tag (VSensor i bs)"
  have all: "concat (map dtl_endian_write_u32le ?ws) = bs" by (rule words_bytes) (simp add: k(1))
  have four: "4 * (0 + length ?ws) \<le> ?n" using c by auto
  have fill: "wvalid (\<lambda>w. region_ok (w_mem w) p ?n) (jimport_samples sf p 0 (map (JNum \<circ> g9) ?ws))
      (\<lambda>_ w. load_bytes (w_mem w) p (length bs) = Ok bs) (\<lambda>e. e = DTL_ERR_OOM)" for p
  proof -
    have "load_bytes m p (4 * 0) = Ok []" if "region_ok m p ?n" for m
      using that by (auto simp: load_bytes_def region_ok_def split: option.splits)
    with jsamples_valid [OF ok four, of p "[]" "\<lambda>e. e = DTL_ERR_OOM"] show ?thesis
      by (elim wvalid_weaken) (simp_all add: all k(1))
  qed
  have "wvalid (\<lambda>_. True) (wbind (w_malloc_or_oom ?n) (\<lambda>p. wbind (jimport_samples sf p 0 (map (JNum \<circ> g9) ?ws)) (\<lambda>_. wret (?r p)))) ?Q (\<lambda>e. e = DTL_ERR_OOM)"
  proof (rule wvalid_bind [OF malloc_or_oom_valid], rule wvalid_bind [OF fill], rule wvalid_ret)
    fix p w assume "load_bytes (w_mem w) p (length bs) = Ok bs"
    then show "?Q (?r p) w" using k(1) c(1) by (auto simp: deref_bytes_def mult.commute)
  qed
  moreover have "json_items (dtl_json_get (value_node g9 j (VSensor i bs)) ''samples'') = Some (map (JNum \<circ> g9) ?ws)"
    using k(2) by (simp add: json_items_def node_get value_members_def samples_node_def split_beta)
  ultimately show ?thesis unfolding yields_def jimport_sensor_def
    by (simp add: node_simps c_def [symmetric] Let_def cong: if_cong split del: if_split)
qed

text \<open>
  Copies of strings beside regions that are reserved but not filled: every region is live, apart from the
  others and from the strings in place.
\<close>

fun apart :: "(addr \<times> nat) list \<Rightarrow> bool" where
  "apart [] \<longleftrightarrow> True"
| "apart ((p, n) # R) \<longleftrightarrow> (\<forall>(q, k) \<in> set R. disjoint_regions p n q k) \<and> apart R"

definition reserved :: "(addr \<times> nat) list \<Rightarrow> (addr \<times> u8 list) list \<Rightarrow> world \<Rightarrow> bool" where
  "reserved R L w \<longleftrightarrow> held L w \<and> (\<forall>(p, n) \<in> set R. fresh_for L p n w) \<and> apart R"

lemma disjoint_sym: "disjoint_regions p n q k \<longleftrightarrow> disjoint_regions q k p n"
  by (auto simp: disjoint_regions_def)

lemma reserved_swap: "reserved (a # b # R) L w \<Longrightarrow> reserved (b # a # R) L w"
  by (cases a; cases b) (auto simp: reserved_def disjoint_sym)

lemma alloc_reserved:
  "wvalid (reserved R L) (w_arena_alloc n) (\<lambda>p w. reserved R L w \<and> (\<forall>q. p = Some q \<longrightarrow> reserved ((q, n) # R) L w)) E"
proof (rule wvalidI)
  fix w assume w: "world_ok w" and P: "reserved R L w"
  have ok: "mem_ok (w_mem w)" "arena_ok (w_mem w) (w_arena w)" using w by (simp_all add: world_ok_def)
  obtain r a m where al: "dtl_arena_alloc (w_mem w) (w_arena w) n = (r, a, m)" using prod_cases3 by blast
  let ?w = "w\<lparr>w_mem := m, w_arena := a\<rparr>"
  have new: "held L ?w" "r = Some q \<Longrightarrow> fresh_for L q n ?w" for q
    using wvalidD [OF arena_fresh w, of L n "\<lambda>_. True"] P al by (cases q; auto simp: reserved_def w_arena_alloc_def)+
  have blocks: "arena_blocks a \<subseteq> arena_blocks (w_arena w) \<union> {d. m_objs (w_mem w) d = None}"
    using al ok by (cases rule: arena_alloc_cases) (auto simp: arena_blocks_def)
  have old: "fresh_for L p k ?w" "r = Some q \<Longrightarrow> disjoint_regions q n p k" if "(p, k) \<in> set R" for p k q
  proof -
    have f: "fresh_for L p k w" using P that by (auto simp: reserved_def)
    then have live: "m_objs (w_mem w) (fst p) \<noteq> None" by (auto simp: fresh_for_def region_ok_def split: option.splits)
    have "region_ok m p k" using f arena_alloc_mem [OF al ok(1)] by (fastforce simp: fresh_for_def region_ok_def split: option.splits)
    moreover have "anchored ?w p k" using f live blocks arena_alloc_owned_mono [OF al ok, of p k] by (auto simp: fresh_for_def anchored_def)
    ultimately show "fresh_for L p k ?w" using f by (simp add: fresh_for_def)
    assume r: "r = Some q"
    note s = arena_alloc_Some [OF al [unfolded r] ok]
    show "disjoint_regions q n p k"
    proof (cases "owned (w_arena w) p k")
      case False
      then have "fst p \<notin> arena_blocks (w_arena w)" using f by (auto simp: fresh_for_def anchored_def)
      with s(5) live show ?thesis by (auto simp: disjoint_regions_def)
    qed (rule s(4))
  qed
  have "reserved R L ?w" using new(1) old(1) P by (auto simp: reserved_def)
  moreover have "reserved ((q, n) # R) L ?w" if "r = Some q" for q
    using new old(1) old(2) [OF _ that] P that by (auto simp: reserved_def)
  ultimately show "wpost (\<lambda>p w. reserved R L w \<and> (\<forall>q. p = Some q \<longrightarrow> reserved ((q, n) # R) L w)) E (w_arena_alloc n w)"
    using al world_ok_arena_alloc [OF w al] by (simp add: w_arena_alloc_def)
qed

lemma store_reserved:
  "wvalid (reserved ((q, length s + 1) # R) L) (w_store q (s @ [0])) (\<lambda>_. reserved R ((q, s) # L)) E"
proof (rule wvalidI)
  fix w assume w: "world_ok w" and P: "reserved ((q, length s + 1) # R) L w"
  then have h: "held L w" and f: "fresh_for L q (length s + 1) w" by (simp_all add: reserved_def)
  from wvalidD [OF dup_store w, of L q s "\<lambda>_. True"] h f
  have post: "wpost (\<lambda>_. held ((q, s) # L)) (\<lambda>_. True) (w_store q (s @ [0]) w)" by simp
  obtain m where m: "store_bytes (w_mem w) q (s @ [0]) = Ok m"
    using f store_bytes_Ok_iff [of "w_mem w" q "s @ [0]"] by (auto simp: fresh_for_def)
  have "fresh_for ((q, s) # L) p k (w\<lparr>w_mem := m\<rparr>)" if "(p, k) \<in> set R" for p k
  proof -
    have "fresh_for L p k w" "disjoint_regions q (length s + 1) p k" using P that by (auto simp: reserved_def)
    then have "fresh_for ((q, s) # L) p k w" unfolding disjoint_sym [of q] by (simp add: fresh_for_def)
    then show ?thesis by (simp add: fresh_for_store [OF m])
  qed
  with post m P show "wpost (\<lambda>_. reserved R ((q, s) # L)) E (w_store q (s @ [0]) w)"
    by (auto simp: w_store_def reserved_def)
qed

lemma cells_reserved:
  assumes "(p, n) \<in> set R" "k + length bs \<le> n"
  shows "wvalid (reserved R L) (w_store (fst p, snd p + k) bs) (\<lambda>_. reserved R L) E"
proof (rule wvalidI)
  fix w assume w: "world_ok w" and P: "reserved R L w"
  then have h: "held L w" and f: "fresh_for L p n w" using assms(1) by (auto simp: reserved_def)
  have "region_ok (w_mem w) (fst p, snd p + k) (length bs)" using f assms(2) by (auto simp: fresh_for_def region_ok_def split: option.splits)
  then obtain m where m: "store_bytes (w_mem w) (fst p, snd p + k) bs = Ok m" using store_bytes_Ok_iff by blast
  have "held L (w\<lparr>w_mem := m\<rparr>)" by (rule held_store [OF h m f]) (use assms(2) in simp_all)
  moreover have "fresh_for L q j (w\<lparr>w_mem := m\<rparr>) = fresh_for L q j w" for q j by (rule fresh_for_store [OF m])
  ultimately have "reserved R L (w\<lparr>w_mem := m\<rparr>)" using P by (simp add: reserved_def)
  then show "wpost (\<lambda>_. reserved R L) E (w_store (fst p, snd p + k) bs w)" using m world_ok_store [OF w m] by (simp add: w_store_def)
qed

lemma malloc_reserved: "wvalid (\<lambda>_. True) (w_malloc_or_oom n) (\<lambda>p. reserved [(p, n)] []) (\<lambda>e. e = DTL_ERR_OOM)"
proof (rule wvalidI)
  fix w assume w: "world_ok w"
  obtain r m where ml: "c_malloc (w_mem w) n = (r, m)" using prod.exhaust by blast
  show "wpost (\<lambda>p. reserved [(p, n)] []) (\<lambda>e. e = DTL_ERR_OOM) (w_malloc_or_oom n w)"
  proof (cases r)
    case None
    then show ?thesis using ml world_ok_malloc [OF w ml] by (simp add: w_malloc_or_oom_def w_malloc_def wbind_def wfail_def)
  next
    case (Some b)
    have "fst (b, 0 :: nat) \<notin> arena_blocks (w_arena w)" using fresh_not_used(2) [OF w] ml Some by simp
    then show ?thesis using ml Some world_ok_malloc [OF w ml] c_malloc_obj [of "w_mem w" n b m]
      by (simp add: w_malloc_or_oom_def w_malloc_def wbind_def wret_def reserved_def held_def fresh_for_def anchored_def region_ok_def)
  qed
qed

lemma jpairs_valid:
  assumes "list_all (\<lambda>(k, v). 0 \<notin> set k \<and> 0 \<notin> set v) kvs" "sizeof_config_pair * (i + length kvs) \<le> n"
  shows "wvalid (reserved [(p, n)] L) (jimport_pairs p i (map (\<lambda>(k, v). (k, JStr v)) kvs))
    (\<lambda>ps w. length ps = length kvs \<and> held (placed ps kvs @ L) w) (\<lambda>e. e = DTL_ERR_OOM)"
  using assms
proof (induction kvs arbitrary: i L)
  case Nil
  then show ?case by (auto simp: reserved_def intro!: wvalid_ret)
next
  case (Cons kv kvs)
  obtain k v where kv: "kv = (k, v)" by (cases kv)
  have c: "c_string k = k" "c_string v = v" using Cons.prems(1) kv by (simp_all add: c_string_id)
  let ?Q = "\<lambda>ps w. length ps = length (kv # kvs) \<and> held (placed ps (kv # kvs) @ L) w" and ?E = "\<lambda>e. e = DTL_ERR_OOM"
  let ?rest = "\<lambda>kp vp. wbind (jimport_pairs p (i + 1) (map (\<lambda>(k, v). (k, JStr v)) kvs)) (\<lambda>ps. wret ((kp, vp) # ps))"
  have last: "wvalid (reserved [(p, n)] ((vp, v) # (kp, k) # L)) (?rest kp vp) ?Q ?E" for kp vp
    by (rule wvalid_bind [OF Cons.IH], use Cons.prems in simp, use Cons.prems in simp, rule wvalid_ret) (auto simp: kv elim: held_mono)
  have cells: "sizeof_config_pair * i + length (replicate sizeof_config_pair (0 :: u8)) \<le> n"
    using Cons.prems(2) by (simp add: algebra_simps)
  have both: "wvalid (reserved [(vp, length v + 1), (kp, length k + 1), (p, n)] L)
      (wbind (w_store kp (k @ [0])) (\<lambda>_. wbind (w_store vp (v @ [0])) (\<lambda>_.
       wbind (w_store (fst p, snd p + sizeof_config_pair * i) (replicate sizeof_config_pair 0)) (\<lambda>_. ?rest kp vp)))) ?Q ?E" for kp vp
    by (rule wvalid_pre [OF reserved_swap], assumption, rule wvalid_bind [OF store_reserved], rule wvalid_bind [OF store_reserved],
        rule wvalid_bind [OF cells_reserved [OF _ cells]], simp, rule last)
  have "wvalid (\<lambda>w. reserved [(kp, length k + 1), (p, n)] L w \<and> (\<forall>vp. vo = Some vp \<longrightarrow> reserved [(vp, length v + 1), (kp, length k + 1), (p, n)] L w))
      (case (Some kp, vo) of (Some k', Some v') \<Rightarrow>
        wbind (w_store k' (k @ [0])) (\<lambda>_. wbind (w_store v' (v @ [0])) (\<lambda>_.
        wbind (w_store (fst p, snd p + sizeof_config_pair * i) (replicate sizeof_config_pair 0)) (\<lambda>_. ?rest k' v')))
       | _ \<Rightarrow> wfail DTL_ERR_OOM) ?Q ?E" for kp vo
  proof (cases vo)
    case (Some vp)
    show ?thesis unfolding Some option.case prod.case by (rule wvalid_pre [OF _ both]) simp
  qed (simp add: wvalid_fail)
  then have second: "wvalid (reserved [(kp, length k + 1), (p, n)] L)
      (wbind (w_arena_alloc (length v + 1)) (\<lambda>vo. case (Some kp, vo) of (Some k', Some v') \<Rightarrow>
        wbind (w_store k' (k @ [0])) (\<lambda>_. wbind (w_store v' (v @ [0])) (\<lambda>_.
        wbind (w_store (fst p, snd p + sizeof_config_pair * i) (replicate sizeof_config_pair 0)) (\<lambda>_. ?rest k' v')))
       | _ \<Rightarrow> wfail DTL_ERR_OOM)) ?Q ?E" for kp
    by (rule wvalid_bind [OF alloc_reserved])
  show ?case unfolding kv list.map prod.case jimport_pairs.simps dtl_json_node.case c
  proof (rule wvalid_bind [OF alloc_reserved], goal_cases)
    case (1 ko)
    show ?case
    proof (cases ko)
      case None
      have "wvalid P (wbind (w_arena_alloc (length v + 1)) (\<lambda>_. wfail DTL_ERR_OOM)) Q ?E" for P Q
        by (rule wvalid_bind [OF wvalid_arena_alloc]) (rule wvalid_fail, simp)
      then show ?thesis using None by simp
    next
      case (Some kp)
      show ?thesis using second [of kp] Some kv by (auto elim!: wvalid_pre [rotated])
    qed
  qed
qed

lemma jyields_config:
  assumes "json_ok sf g9 (VConfig kvs)"
  shows "yields (wmap RConfig (jimport_config (value_node g9 i (VConfig kvs)))) (VConfig kvs)"
proof -
  have n: "length kvs \<le> 255" and ok: "list_all (\<lambda>(k, v). 0 \<notin> set k \<and> 0 \<notin> set v) kvs" using assms by simp_all
  define c :: u8 where "c = of_nat (length kvs)"
  have c: "unat c = length kvs" "c = 0 \<longleftrightarrow> kvs = []" using n unat_eq_zero [of c] by (auto simp: c_def unat_of_nat_u8)
  let ?n = "(if c \<noteq> 0 then unat c else 1) * sizeof_config_pair"
  have fits: "sizeof_config_pair * (0 + length kvs) \<le> ?n" using c by auto
  have same: "map (map_prod c_string c_string) kvs = kvs"
    by (rule map_idI) (use ok c_string_id in \<open>fastforce simp: list_all_iff\<close>)
  have "wvalid (\<lambda>_. True) (wbind (w_malloc_or_oom ?n) (\<lambda>p. wbind (jimport_pairs p 0 (map (\<lambda>(k, v). (k, JStr v)) kvs)) (\<lambda>ps.
      wret (RConfig \<lparr>cfg_pair_count = c, cfg_pairs = ps\<rparr>))))
    (\<lambda>r w. record_view (w_mem w) r = Ok (VConfig kvs) \<and> rec_shape r \<and> rec_tag r = val_tag (VConfig kvs)) (\<lambda>e. e = DTL_ERR_OOM)"
  proof (rule wvalid_bind [OF malloc_reserved], rule wvalid_bind [OF jpairs_valid [OF ok fits]], rule wvalid_ret)
    fix ps w assume "length ps = length kvs \<and> held (placed ps kvs @ []) w"
    then show "record_view (w_mem w) (RConfig \<lparr>cfg_pair_count = c, cfg_pairs = ps\<rparr>) = Ok (VConfig kvs) \<and>
        rec_shape (RConfig \<lparr>cfg_pair_count = c, cfg_pairs = ps\<rparr>) \<and> rec_tag (RConfig \<lparr>cfg_pair_count = c, cfg_pairs = ps\<rparr>) = val_tag (VConfig kvs)"
      using held_deref [of ps kvs "[]" w] same c(1) by simp
  qed
  moreover have "json_pairs_of (dtl_json_get (value_node g9 i (VConfig kvs)) ''pairs'') = Some (map (\<lambda>(k, v). (k, JStr v)) kvs)"
    using n by (simp add: json_pairs_of_def node_get value_members_def pairs_node_def split_beta)
  ultimately show ?thesis unfolding yields_def jimport_config_def
    by (simp add: c_def [symmetric] Let_def cong: if_cong split del: if_split)
qed

lemma jimport_record_yields:
  assumes "json_ok sf g9 v"
  shows "yields (dtl_jimport_record sf (value_node g9 i v)) v"
proof -
  have tag: "dtl_json_u32 (value_node g9 i v) ''tag'' = Some (ucast (val_tag v))" by (rule node_u) (simp_all add: value_members_def split_beta)
  define obj where "obj = value_node g9 i v"
  have run: "dtl_jimport_record sf obj = (let tag = val_tag v
     in if tag = DTL_REC_HEARTBEAT then wmap RHeartbeat (jimport_heartbeat obj)
        else if tag = DTL_REC_SENSOR then wmap RSensor (jimport_sensor sf obj)
        else if tag = DTL_REC_EVENT then wmap REvent (jimport_event obj)
        else if tag = DTL_REC_DIAG then wmap RDiag (jimport_diag obj)
        else if tag = DTL_REC_GEO then wmap RGeo (jimport_geo obj)
        else if tag = DTL_REC_BATTERY then wmap RBattery (jimport_battery obj)
        else if tag = DTL_REC_NET then wmap RNet (jimport_net obj)
        else if tag = DTL_REC_LOG then wmap RLog (jimport_log obj)
        else if tag = DTL_REC_CONFIG then wmap RConfig (jimport_config obj)
        else if tag = DTL_REC_KEYREF then wmap RKeyref (jimport_keyref obj)
        else if tag = DTL_REC_FIRMWARE then wmap RFirmware (jimport_firmware obj)
        else wfail DTL_ERR_BADRECORD)"
    using tag up_small(1) [of "val_tag v"] unfolding dtl_jimport_record_def obj_def by (simp only: given_Some wbind_simps require_known simp_thms up_down)
  note rules = jyields_flat jyields_battery jyields_firmware jyields_sensor jyields_event jyields_log jyields_config jyields_keyref jyields_diag
  show ?thesis unfolding run [unfolded obj_def] Let_def using assms
    by (cases v) (simp_all only: rec_tags val_tag.simps rules if_False if_True simp_thms, simp_all add: rules)
qed

subsection \<open>The import\<close>

lemma jimport_items_valid:
  assumes "list_all (\<lambda>(i, v). json_ok sf g9 v) ivs" "import_sim w0 vs"
  shows "wvalid (\<lambda>_. True) (jimport_items sf (map (\<lambda>(i, v). value_node g9 i v) ivs) (vs \<noteq> []) w0)
    (\<lambda>(section_open, w') _. section_open = (vs @ map snd ivs \<noteq> []) \<and> import_sim w' (vs @ map snd ivs)) (\<lambda>e. e \<in> size_errs)"
  using assms
proof (induction ivs arbitrary: vs w0)
  case Nil
  then show ?case by (auto intro!: wvalid_ret)
next
  case (Cons iv ivs)
  obtain i v where iv: "iv = (i, v)" by (cases iv)
  have y: "wvalid (\<lambda>_. True) (dtl_jimport_record sf (value_node g9 i v))
      (\<lambda>r w. record_view (w_mem w) r = Ok v \<and> rec_shape r \<and> rec_tag r = val_tag v) (\<lambda>e. e \<in> size_errs)"
    by (rule wvalid_weaken [OF jimport_record_yields [of sf g9 v i, unfolded yields_def]]) (use Cons.prems(1) iv in auto)
  have "wvalid (\<lambda>w. record_view (w_mem w) r = Ok v \<and> rec_shape r \<and> rec_tag r = val_tag v) (import_emit r (vs \<noteq> []) w0)
      (\<lambda>w' _. import_sim w' (vs @ [v])) (\<lambda>e. e \<in> size_errs)" for r
  proof (rule wvalidI)
    fix w assume w: "world_ok w" and r: "record_view (w_mem w) r = Ok v \<and> rec_shape r \<and> rec_tag r = val_tag v"
    note m = world_ok_mem [OF w]
    from emit_import [of "w_mem w" r v w0 vs] m r Cons.prems(2)
    have "wvalid (ext (w_mem w)) (import_emit r (vs \<noteq> []) w0) (\<lambda>w' _. import_sim w' (vs @ [v])) (\<lambda>e. e \<in> size_errs)" by simp
    from wvalidD [OF this w heap_ext_refl [OF m]] show "wpost (\<lambda>w' _. import_sim w' (vs @ [v])) (\<lambda>e. e \<in> size_errs) (import_emit r (vs \<noteq> []) w0 w)" .
  qed
  moreover have "wvalid (\<lambda>_. import_sim w' (vs @ [v])) (jimport_items sf (map (\<lambda>(i, v). value_node g9 i v) ivs) True w')
      (\<lambda>(section_open, w') _. section_open = (vs @ map snd (iv # ivs) \<noteq> []) \<and> import_sim w' (vs @ map snd (iv # ivs))) (\<lambda>e. e \<in> size_errs)" for w'
    by (rule wvalid_given) (use Cons.IH [of w' "vs @ [v]"] Cons.prems(1) iv in simp)
  ultimately have "wvalid (\<lambda>w. record_view (w_mem w) r = Ok v \<and> rec_shape r \<and> rec_tag r = val_tag v)
      (wbind (import_emit r (vs \<noteq> []) w0) (jimport_items sf (map (\<lambda>(i, v). value_node g9 i v) ivs) True))
      (\<lambda>(section_open, w') _. section_open = (vs @ map snd (iv # ivs) \<noteq> []) \<and> import_sim w' (vs @ map snd (iv # ivs))) (\<lambda>e. e \<in> size_errs)" for r
    by (rule wvalid_bind)
  from wvalid_bind [OF y this] show ?case by (simp add: iv)
qed

text \<open>The exported text of records, numbered in any way, is a document.\<close>

definition object_text :: "(u32 \<Rightarrow> u8 list) \<Rightarrow> nat \<Rightarrow> rec_val \<Rightarrow> u8 list" where
  "object_text g9 i v = drop 2 (json_object g9 i v)"

definition json_text :: "(u32 \<Rightarrow> u8 list) \<Rightarrow> (nat \<times> rec_val) list \<Rightarrow> u8 list" where
  "json_text g9 ivs = json_document [0x0A, 0x20, 0x20] (map (\<lambda>(i, v). object_text g9 i v) ivs) [0x0A] [0x0A]"

lemma object_spelled:
  assumes "json_ok sf g9 v"
  shows "json_object g9 i v = [0x20, 0x20] @ object_text g9 i v \<and> json_spelled DTL_JSON_MAX_DEPTH (value_node g9 i v) (object_text g9 i v)"
proof -
  obtain t where "json_object g9 i v = str ''  '' @ t" "json_spelled (Suc (Suc (Suc 61))) (value_node g9 i v) t"
    using value_spelled [OF assms] by blast
  then show ?thesis by (simp add: object_text_def ch_def DTL_JSON_MAX_DEPTH_def del: json_spelled.simps)
qed

lemma import_json_valid:
  assumes "list_all (\<lambda>(i, v). json_ok sf g9 v) ivs" "pl \<Longrightarrow> length (json_text g9 ivs) < 2 ^ 57"
  shows "wvalid (spare pl (3 * length (json_text g9 ivs))) (dtl_import_json_memory sf (json_text g9 ivs))
    (\<lambda>(buf, n) _. n = length ivs \<and> holds_sections buf (import_sections (map snd ivs))) (\<lambda>e. e \<in> size_errs \<or> e = DTL_ERR_BADRECORD \<and> \<not> pl)"
proof -
  let ?vs = "map (\<lambda>(i, v). value_node g9 i v) ivs" and ?E = "\<lambda>e. e \<in> size_errs \<or> e = DTL_ERR_BADRECORD \<and> \<not> pl"
  let ?Q = "\<lambda>(buf, n) _. n = length ivs \<and> holds_sections buf (import_sections (map snd ivs))"
  have sp: "list_all2 (json_spelled DTL_JSON_MAX_DEPTH) ?vs (map (\<lambda>(i, v). object_text g9 i v) ivs)"
    using assms(1) object_spelled by (auto simp: list_all2_map1 list_all2_map2 list_all2_same list_all_iff)
  have root: "wvalid (spare pl (3 * length (json_text g9 ivs))) (dtl_json_root (json_text g9 ivs)) (\<lambda>items _. items = ?vs) ?E"
    unfolding json_text_def
    by (rule wvalid_weaken [OF root_valid [OF sp, of _ _ _ pl]]) (use assms(2) in \<open>auto simp: json_text_def json_space_def\<close>)
  let ?R = "\<lambda>(section_open, w') _. section_open = (ivs \<noteq> []) \<and> import_sim w' (map snd ivs)"
  have items: "wvalid (\<lambda>_. True) (jimport_items sf ?vs False dtl_writer_init) ?R (\<lambda>e. e \<in> size_errs)"
    using jimport_items_valid [OF assms(1) import_sim_init] by simp
  have "wvalid (?R x) (case x of (section_open, w) \<Rightarrow> import_finish section_open (length ?vs) w) ?Q (\<lambda>e. e \<in> size_errs)" for x
  proof -
    obtain b wr where x: "x = (b, wr)" by (cases x)
    have "wvalid (\<lambda>_. b = (ivs \<noteq> []) \<and> import_sim wr (map snd ivs)) (import_finish b (length ivs) wr) ?Q (\<lambda>e. e \<in> size_errs)"
      by (rule wvalid_given) (use import_finish_valid [of wr "map snd ivs" "length ivs"] in auto)
    then show ?thesis by (simp add: x)
  qed
  note fin = wvalid_bind [OF items this]
  have "wvalid (\<lambda>_. items = ?vs) (wbind (jimport_items sf items False dtl_writer_init) (\<lambda>(section_open, w). import_finish section_open (length items) w)) ?Q ?E" for items
  proof (rule wvalid_given)
    assume "items = ?vs"
    then show "wvalid (\<lambda>_. True) (wbind (jimport_items sf items False dtl_writer_init) (\<lambda>(section_open, w). import_finish section_open (length items) w)) ?Q ?E"
      by (simp only:) (rule wvalid_weaken [OF fin], auto)
  qed
  from wvalid_bind [OF root this] show ?thesis unfolding dtl_import_json_memory_def .
qed

lemma join_concat: "comma_join (t # ts) = t @ concat (map ((#) 0x2C) ts)"
  by (induction ts arbitrary: t) (simp_all add: join_Cons)

lemma export_json_later:
  "0 < n \<Longrightarrow> concat (map (\<lambda>(k, ev). exported_text g6 g9 DTL_EXPORT_JSON (we_record_index ev) (k = 0) (we_rec ev)) (enumerate n evs)) =
     concat (map ((#) 0x2C) (map (\<lambda>ev. 0x0A # json_object g9 (we_record_index ev) (we_rec ev)) evs))"
  by (induction evs arbitrary: n) (simp_all add: exported_text_def)

lemma export_json_document:
  assumes "list_all (\<lambda>ev. json_ok sf g9 (we_rec ev)) evs"
  shows "export_head DTL_EXPORT_JSON @ concat (map (\<lambda>(k, ev). exported_text g6 g9 DTL_EXPORT_JSON (we_record_index ev) (k = 0) (we_rec ev))
      (enumerate 0 evs)) @ export_foot DTL_EXPORT_JSON = json_text g9 (map (\<lambda>ev. (we_record_index ev, we_rec ev)) evs)"
proof -
  have obj: "0x0A # json_object g9 i (we_rec ev) = [0x0A, 0x20, 0x20] @ object_text g9 i (we_rec ev)" if "ev \<in> set evs" for ev i
    using assms that object_spelled [of sf g9 "we_rec ev" i] by (auto simp: list_all_iff)
  have "concat (map (\<lambda>(k, ev). exported_text g6 g9 DTL_EXPORT_JSON (we_record_index ev) (k = 0) (we_rec ev)) (enumerate 0 evs)) =
      comma_join (map (\<lambda>ev. 0x0A # json_object g9 (we_record_index ev) (we_rec ev)) evs)"
  proof (cases evs)
    case (Cons ev evs')
    have "exported_text g6 g9 DTL_EXPORT_JSON (we_record_index ev) True (we_rec ev) = 0x0A # json_object g9 (we_record_index ev) (we_rec ev)"
      by (simp add: exported_text_def)
    with export_json_later [of "Suc 0" g6 g9 evs'] show ?thesis by (simp add: Cons join_concat)
  qed simp
  also have "map (\<lambda>ev. 0x0A # json_object g9 (we_record_index ev) (we_rec ev)) evs =
      map ((@) [0x0A, 0x20, 0x20]) (map (\<lambda>(i, v). object_text g9 i v) (map (\<lambda>ev. (we_record_index ev, we_rec ev)) evs))"
    using obj by simp
  finally show ?thesis by (simp add: json_text_def json_document_def export_head_def export_foot_def ch_def)
qed

subsection \<open>Properties\<close>

text \<open>A container whose records all keep their value through the JSON text.\<close>

definition json_container :: "(u8 list \<Rightarrow> u32 option) \<Rightarrow> (u32 \<Rightarrow> u8 list) \<Rightarrow> u8 list \<Rightarrow> bool" where
  "json_container sf g9 data \<longleftrightarrow> (\<forall>items. walk_shows data DTL_WALK_DEFAULT_MAX_DECODE items \<longrightarrow>
     list_all (\<lambda>ev. json_ok sf g9 (we_rec ev) \<and> readable (we_rec ev)) (seen_events items))"


text \<open>The container with one heartbeat: its only record is a heartbeat, which has a JSON object.\<close>

lemma beat_json: "json_container sf g9 (stored_container 1 beat_stream)"
  unfolding json_container_def
proof (intro allI impI)
  fix items assume s: "walk_shows (stored_container 1 beat_stream) DTL_WALK_DEFAULT_MAX_DECODE items"
  let ?v = "VHeartbeat \<lparr>hb_uptime_s = 60, hb_seq = 1\<rparr>"
  obtain rd where rd: "stream_reads beat_stream rd" "items = number_records (bind_blob 28 (stored_section 1 beat_stream)) 0 0 0 rd"
    using stored_reads [OF _ _ s] by (auto simp: length_beat_stream)
  have "tlv_wf (rec_tlv ?v)" by (simp add: tlv_wf_def rec_tlv_def)
  from stream_reads_one [OF this rd(1) [unfolded beat_stream_def]] obtain r where r: "rd = [r]" "tlv_reads (rec_tlv ?v) r" by blast
  show "list_all (\<lambda>ev. json_ok sf g9 (we_rec ev) \<and> readable (we_rec ev)) (seen_events items)"
  proof (cases r)
    case (Inr v)
    with r(2) obtain v0 where "val_tag v0 = DTL_REC_HEARTBEAT" "v = c_strings v0" "val_wf v0" by (auto simp: tlv_reads_def)
    then obtain h where "v = VHeartbeat h" by (cases v0) (auto simp: rec_tags)
    with Inr rd(2) r(1) flat_readable [of v] show ?thesis by simp
  qed (use rd(2) r(1) in \<open>simp add: mk_failed_def\<close>)
qed


text \<open>
  C39. The JSON reader on any text, from any sound state: it ends without undefined behaviour, never
  recurses beyond its nesting limit, fails only with the bad-record error, and leaves the heap, the pools and the arena sound.
\<close>

theorem json_reader_safe:
  assumes "world_ok w"
  shows "\<exists>r w'. dtl_json_root data w = (r, w') \<and> world_ok w' \<and> ((\<exists>items. r = Ok items) \<or> r = Err DTL_ERR_BADRECORD)"
proof -
  obtain r w' where run: "dtl_json_root data w = (r, w')" by force
  from wvalidD [OF root_safe assms TrueI, of data] run show ?thesis by (cases r) auto
qed

theorem json_reader_safe_witness:
  "\<exists>r w'. dtl_json_root (str ''[1,[2'') fresh_world = (r, w') \<and> world_ok w' \<and> ((\<exists>items. r = Ok items) \<or> r = Err DTL_ERR_BADRECORD)"
  by (rule json_reader_safe [OF fresh_world_ok])

text \<open>Storing more samples than the block holds leaves the block.\<close>

lemma jsamples_overflow:
  assumes "list_all (\<lambda>it. \<exists>x b. it = JNum x \<and> sf x = Some b) items" "\<not> region_ok (w_mem w) p (4 * (i + length items))" "items \<noteq> []"
  shows "\<exists>w'. jimport_samples sf p i items w = (Ub, w')"
  using assms
proof (induction items arbitrary: i w)
  case (Cons it items)
  obtain x b where it: "it = JNum x" "sf x = Some b" using Cons.prems(1) by auto
  let ?q = "(fst p, snd p + 4 * i)" and ?bs = "dtl_endian_write_u32le b"
  show ?case
  proof (cases "store_bytes (w_mem w) ?q ?bs")
    case (Ok m)
    then have "region_ok (w_mem w) ?q 4" using store_bytes_Ok_iff [of "w_mem w" ?q ?bs] by auto
    then have "region_ok (w_mem w) p (4 * (i + 1))" by (auto simp: region_ok_def algebra_simps split: option.splits)
    with Cons.prems(2) have "items \<noteq> []" by auto
    moreover have "\<not> region_ok m p (4 * (i + 1 + length items))" using Cons.prems(2) store_bytes_region_ok [OF Ok] by simp
    ultimately show ?thesis using Cons.IH [of "w\<lparr>w_mem := m\<rparr>" "i + 1"] Cons.prems(1) Ok it by (simp add: wbind_def w_store_def)
  qed (use it in \<open>auto simp: wbind_def w_store_def store_bytes_def split: option.splits if_splits\<close>)
qed simp

text \<open>
  C40. Importing a JSON sensor record with 256 or more samples: the buffer is sized by the sample count
  cut to a byte while all samples are stored, so unless the allocation fails the stores leave the buffer.
\<close>

theorem jimport_sensor_overflow:
  assumes "dtl_json_u32 obj ''tag'' = Some (ucast DTL_REC_SENSOR)" "dtl_json_u32 obj ''sensor_id'' = Some i" "i \<le> 0xFFFF"
    "dtl_json_get obj ''samples'' = Some (JArr items)" "256 \<le> length items" "length items \<le> 0xFFFF"
    "list_all (\<lambda>it. \<exists>x b. it = JNum x \<and> sf x = Some b) items"
  shows "\<exists>r w'. dtl_jimport_record sf obj w = (r, w') \<and> (r = Err DTL_ERR_OOM \<or> r = Ub) \<and> (heap_never_fails (w_mem w) \<longrightarrow> r = Ub)"
proof -
  define c :: u8 where "c = of_nat (length items)"
  define n where "n = (if c \<noteq> 0 then unat c else 1) * 4"
  define fin where "fin p = wret \<lparr>sen_sensor_id = ucast i, sen_count = c, sen_samples = if length items \<noteq> 0 then Some p else None\<rparr>" for p
  have "json_items (Some (JArr items)) = Some items" using assms(6) by (simp add: json_items_def)
  with assms(2-4) have "jimport_sensor sf obj = wbind (w_malloc_or_oom n) (\<lambda>p. wbind (jimport_samples sf p 0 items) (\<lambda>_. fin p))"
    by (simp add: jimport_sensor_def Let_def c_def n_def fin_def w_require_def not_less cong: if_cong split del: if_split)
  with assms(1) have run: "dtl_jimport_record sf obj = wmap RSensor (wbind (w_malloc_or_oom n) (\<lambda>p. wbind (jimport_samples sf p 0 items) (\<lambda>_. fin p)))"
    by (simp add: dtl_jimport_record_def rec_tags)
  have ne: "items \<noteq> []" using assms(5) by auto
  have "unat c < 256" by (rule order_less_le_trans [OF unsigned_less]) simp
  from order_less_le_trans [OF this assms(5)] assms(5) have short: "n < 4 * length items" by (auto simp: n_def)
  obtain q m where ml: "c_malloc (w_mem w) n = (q, m)" by fastforce
  show ?thesis
  proof (cases q)
    case None
    then have "\<not> heap_never_fails (w_mem w)" using ml by (auto simp: heap_never_fails_def c_malloc_def split: if_splits)
    with None ml show ?thesis unfolding run w_malloc_or_oom_def by (simp add: w_malloc_def wbind_def wfail_def wmap_def)
  next
    case (Some b)
    have "\<not> region_ok m (b, 0) (4 * (0 + length items))" using c_malloc_obj ml Some short by (simp add: region_ok_def)
    then obtain w' where "jimport_samples sf (b, 0) 0 items (w\<lparr>w_mem := m\<rparr>) = (Ub, w')"
      using jsamples_overflow [OF assms(7) _ ne, of "w\<lparr>w_mem := m\<rparr>" "(b, 0)" 0] by auto
    with Some ml show ?thesis unfolding run w_malloc_or_oom_def by (simp add: w_malloc_def wbind_def wret_def wmap_def)
  qed
qed

theorem jimport_sensor_overflow_witness:
  "\<exists>w'. dtl_jimport_record (\<lambda>_. Some 0) (JObj [(str ''tag'', JNum (str (fmt_u (unat DTL_REC_SENSOR)))), (str ''sensor_id'', JNum (str (fmt_u 7))),
     (str ''samples'', JArr (replicate 256 (JNum (str ''0''))))]) fresh_world = (Ub, w')"
proof -
  let ?obj = "JObj [(str ''tag'', JNum (str (fmt_u (unat DTL_REC_SENSOR)))), (str ''sensor_id'', JNum (str (fmt_u 7))),
     (str ''samples'', JArr (replicate 256 (JNum (str ''0''))))]"
  have "dtl_json_u32 ?obj ''tag'' = Some (ucast DTL_REC_SENSOR)" "dtl_json_u32 ?obj ''sensor_id'' = Some 7"
    "dtl_json_get ?obj ''samples'' = Some (JArr (replicate 256 (JNum (str ''0''))))"
    using text_u32_fmt [of "unat DTL_REC_SENSOR"] text_u32_fmt [of 7]
    by (simp_all add: dtl_json_u32_def dtl_json_get_def c_string_def ch_def rec_tags)
  moreover have "heap_never_fails (w_mem fresh_world)"
    by (simp add: fresh_world_def world_init_def mem_init_def heap_never_fails_def)
  ultimately show ?thesis
    using jimport_sensor_overflow [where w = fresh_world and sf = "\<lambda>_. Some 0" and items = "replicate 256 (JNum (str ''0''))" and i = 7 and obj = ?obj]
    by (auto simp: list_all_iff)
qed

end
