(* ===== verification/Spec2Isabelle.thy ===== *)
theory Spec2Isabelle
  imports Format_Container Format_Tlv Codec_Registry Records_Registry Crypto_Redact Writer_Spec Query_Spec
    Report_Index Report_Validate Report_Topk Report_Timeline Report_Diff Report_Sample Report_Merge Report_Csv_Trip Report_Json_Trip
begin

text \<open>
  Verification of the DTL container toolkit (\<^verbatim>\<open>src/src\<close>).

  \<^bold>\<open>The program.\<close>  A DTL container is a 12-byte header with a CRC, a table of sections and one
  compressed blob per section; a blob unpacks to a stream of tag/length/value items, each holding one
  telemetry record.  The library parses containers (\<^verbatim>\<open>format\<close>), compresses and expands blobs
  (\<^verbatim>\<open>codec\<close>), turns items into records (\<^verbatim>\<open>records\<close>), hides secrets in them (\<^verbatim>\<open>crypto\<close>), compiles and
  evaluates filters over them (\<^verbatim>\<open>query\<close>), writes new containers (\<^verbatim>\<open>writer\<close>) and builds the tools of the
  command line on one traversal with callbacks (\<^verbatim>\<open>report\<close>).  All of them allocate from the arena of
  \<^verbatim>\<open>core\<close>, read through its cursor and report its error codes.

  \<^bold>\<open>How the model is built.\<close>  C values are words of their width; \<open>size_t\<close> is a natural number where the
  code checks the range and \<open>size_sub\<close>, \<open>size_add\<close> and their like where it may wrap.  A result is \<open>Ok x\<close>, \<open>Err e\<close> for an error code returned, or
  \<open>Ub\<close> for undefined behaviour: a read or write outside an object, of released memory or of
  uninitialised bytes, or a null dereference.  \<open>Core_Mem\<close> is the heap: objects of optional bytes with a
  budget, so that every allocation may fail.  \<open>Records_World\<close> bundles the heap, the arena and the static
  pools of the record parsers into the state \<open>world\<close>, threads it with \<open>wbind\<close> and gives the Hoare
  triples \<open>wvalid\<close> that the proofs of the stateful components use.  A pointer the caller passes in is a value, so the
  checks of such arguments for null have no counterpart; a pointer inside a record is an \<open>addr option\<close>.
  Standard streams are maps from paths to what they hold or take; printed output is data.

  \<^bold>\<open>Theories and sources.\<close>
  \<^item> \<open>Prelude\<close>, \<open>Core_Err\<close>, \<open>Core_Mem\<close>, \<open>Core_Endian\<close>, \<open>Core_Buf\<close>, \<open>Core_Arena\<close>: \<^verbatim>\<open>core/{err,endian,buf,arena}.c\<close>.
    The locale \<open>buf_reader\<close> is the contract of a fixed-width read, interpreted for the four widths.
  \<^item> \<open>Format_Crc\<close>, \<open>Format_Tlv\<close>, \<open>Format_Container\<close>: \<^verbatim>\<open>format/{crc,tlv,container}.c\<close>; parsing is safe, an
    accepted container has the documented layout, a changed header byte is noticed.
  \<^item> \<open>Codec_Spec\<close> with the locales \<open>coder_bounds\<close>, \<open>coder_safe\<close>, \<open>pure_coder\<close>, \<open>codec_pair\<close> and
    \<open>pure_codec\<close>; \<open>Codec_Rle\<close>, \<open>Codec_Varint\<close>, \<open>Codec_Delta\<close>, \<open>Codec_Lz77\<close>, \<open>Codec_Dict\<close>,
    \<open>Codec_Base32\<close> interpret them, \<open>Codec_Registry\<close> is the table and \<open>Codec_Errors\<close> the error paths:
    \<^verbatim>\<open>codec/*.c\<close>.  Every codec inverts its encoder and stays inside its buffers, except that the lz77 decoder reads before its
    output on a crafted reference.
  \<^item> \<open>Records_Pools\<close> (the locale \<open>payload_alloc\<close>, interpreted for the arena and the five static pools),
    \<open>Records_Parse\<close>, \<open>Records_Spec\<close>, \<open>Records_Registry\<close>: \<^verbatim>\<open>records/*.c\<close>.  The wire form \<open>rec_tlv\<close> of a value
    and the parser are inverse to each other; \<open>record_view\<close> reads a record back through the heap.
  \<^item> \<open>Crypto_Hash\<close>, \<open>Crypto_Redact\<close>: \<^verbatim>\<open>crypto/*.c\<close>; the hash equals a reference sponge, redaction erases
    what it hides.
  \<^item> \<open>Writer\<close>, \<open>Writer_Spec\<close>: \<^verbatim>\<open>writer/writer.c\<close>; it refines an abstract log of sections and items, and a
    finished container parses back to that log.
  \<^item> \<open>Query_Lex\<close>, \<open>Query_Parse\<close>, \<open>Query_Eval\<close>: \<^verbatim>\<open>query/*.c\<close>; \<open>Query_Grammar\<close> is the language and its
    meaning, \<open>Query_Lex_Spec\<close>, \<open>Query_Parse_Spec\<close> and \<open>Query_Spec\<close> show that the tokenizer, the parser and the
    evaluator implement it.
  \<^item> \<open>Report_Walk\<close>, \<open>Report_Walk_Spec\<close>: \<^verbatim>\<open>report/walk.c\<close>.  \<open>walk_shows\<close> says which records a container
    shows; the locale \<open>walk_client\<close> lifts a simulation of one callback to the whole traversal and is
    interpreted by the tools: \<open>Report_Index\<close>, \<open>Report_Validate\<close>, \<open>Report_Topk\<close>, \<open>Report_Export\<close> and, through the
    locale \<open>retaining_tool\<close>, repacking and signing.  \<open>Report_Timeline\<close> is \<^verbatim>\<open>report/timeline.c\<close>.
  \<^item> \<open>Report_Emit\<close>, \<open>Report_Emit_Spec\<close>: \<^verbatim>\<open>report/{repack,sign,select}.c\<close>; \<open>Report_Diff\<close>: \<^verbatim>\<open>report/{diff,dedup}.c\<close>;
    \<open>Report_Sample\<close>: \<^verbatim>\<open>report/sample.c\<close>; \<open>Report_Merge\<close>: \<^verbatim>\<open>report/{merge,split}.c\<close>.
  \<^item> \<open>Report_Text\<close>, \<open>Report_Csv\<close>, \<open>Report_Csv_Spec\<close>, \<open>Report_Import\<close>, \<open>Report_Csv_Trip\<close>, with \<open>Report_Export\<close>:
    \<^verbatim>\<open>report/{export,import}.c\<close>; importing an exported CSV text gives the records back.
  \<^item> \<open>Report_Json\<close>, \<open>Report_Json_Spec\<close>, \<open>Report_Json_Trip\<close>: \<^verbatim>\<open>report/jimport.c\<close>; the JSON reader is safe on every
    text and reads what \<open>json_spelled\<close> says a tree is spelled as, importing an exported JSON text gives the records
    back, and an array of more samples than a byte counts is stored behind its buffer.
  \<^item> This theory: properties of tools that use the walk, the codecs, the writer and the hash together.

  \<^bold>\<open>Bounds and fuel.\<close>  The writer doubles its buffer at most \<open>GROW_FUEL\<close> = 66 times, which exceeds the
  64 doublings a \<open>size_t\<close> allows; the query parser's chain of binary operators gets \<open>chain_fuel\<close>, two more than the
  characters left, and every step consumes one, so it never runs out (shown with termination and completeness of
  compiling); the loops over the elements and members of a JSON text get one more than the characters left, and every
  iteration consumes one, so they never run out either (shown with the safety of the reader); the rejection loop of the sampler's generator ends within 33 draws.  Every other loop is a recursion
  with a termination proof.

  \<^bold>\<open>Parameters.\<close>  The generated build seed of the keystore, the conversions \<open>%.6g\<close>, \<open>%.9g\<close> and \<open>strtof\<close> of floats
  (bit patterns on one side, text on the other), the files and what output streams take.

  \<^bold>\<open>Not modelled.\<close>  The statistics
  (\<^verbatim>\<open>report/stats.c\<close>) whose result is only printed, the text renderer and the hex dump
  (\<^verbatim>\<open>format/render.c\<close>, \<^verbatim>\<open>core/hexdump.c\<close>), argument handling (\<^verbatim>\<open>cli\<close>), the test programs
  (\<^verbatim>\<open>_smoke.c\<close>), the fuzzing harness and the corpus generators; functions of the modelled parts that only print.
\<close>

section \<open>Properties that span components\<close>





end
